(* ===== verification/Prelude.thy ===== *)
theory Prelude
  imports Main "HOL-Library.Word" "HOL-Library.Code_Target_Nat" "HOL-Library.Code_Target_Int"
begin

text \<open>
  Shared vocabulary of the development: the Go integer types as words, Go's
  \<^verbatim>\<open>error\<close> results as a sum type, the sequential-check combinator that
  models a run of \<^verbatim>\<open>if err := ...; err != nil { return err }\<close> statements, and
  the generic lemmas on lists and results that every component uses.

  An error value keeps the constant part of the Go message (\<open>Err\<close>) and the
  context that \<^verbatim>\<open>fmt.Errorf("ctx: %w", err)\<close> adds (\<open>Wrap\<close>); the formatted
  arguments are not kept, since no code in scope inspects them.
\<close>

section \<open>Machine integers and byte strings\<close>

type_synonym u8 = "8 word"
type_synonym u16 = "16 word"
type_synonym u32 = "32 word"
type_synonym u64 = "64 word"
type_synonym bytes = "u8 list"

text \<open>A Go slice that may be \<^verbatim>\<open>nil\<close>: only its JSON encoding tells the two empty
  slices apart, its length and elements do not.\<close>

type_synonym 'a slice = "'a list option"

definition slice_list :: "'a slice \<Rightarrow> 'a list" where
  "slice_list s = (case s of None \<Rightarrow> [] | Some xs \<Rightarrow> xs)"

lemma slice_list_simps [simp]: "slice_list None = []" "slice_list (Some xs) = xs"
  by (simp_all add: slice_list_def)

lemma unat_word_of_nat: "n < 2 ^ LENGTH('a) \<Longrightarrow> unat (word_of_nat n :: 'a::len word) = n"
  by (simp add: unsigned_of_nat take_bit_nat_eq_self)

lemma unat_u8_less [simp]: "unat (b :: u8) < 256"
proof -
  have "unat b < 2 ^ LENGTH(8)" by (rule unsigned_less)
  then show ?thesis by simp
qed

unbundle bit_operations_syntax

lemma uint_ucast_up:
  assumes "LENGTH('a) \<le> LENGTH('b)"
  shows "uint (ucast (x :: 'a::len word) :: 'b::len word) = uint x"
proof -
  have "uint x < 2 ^ LENGTH('a)" by (rule unsigned_less)
  also have "\<dots> \<le> 2 ^ LENGTH('b)" using assms by simp
  finally show ?thesis by (simp add: unsigned_ucast_eq take_bit_int_eq_self)
qed

text \<open>Go's power-of-two test \<^verbatim>\<open>n&(n-1) == 0\<close>.\<close>

lemma nat_and_pred_0: "n \<noteq> 0 \<Longrightarrow> n AND (n - 1) = (0::nat) \<longleftrightarrow> (\<exists>k. n = 2 ^ k)"
proof (induction n rule: less_induct)
  case (less n)
  show ?case
  proof (cases "even n")
    case True
    then obtain m where m: "n = 2 * m" by (rule evenE)
    with less.prems have m0: "m \<noteq> 0" "m < n" by auto
    have "2 * m - 1 = Suc (2 * (m - 1))" using m0 by simp
    then have "n AND (n - 1) = 2 * (m AND (m - 1))"
      by (simp add: m and_rec [of "2 * m"])
    then have "n AND (n - 1) = 0 \<longleftrightarrow> (\<exists>k. m = 2 ^ k)"
      using less.IH [OF m0(2,1)] by simp
    also have "\<dots> \<longleftrightarrow> (\<exists>k. n = 2 ^ k)"
    proof
      assume "\<exists>k. m = 2 ^ k"
      then obtain k where "m = 2 ^ k" ..
      then have "n = 2 ^ Suc k" by (simp add: m)
      then show "\<exists>k. n = 2 ^ k" ..
    next
      assume "\<exists>k. n = 2 ^ k"
      then obtain k where k: "n = 2 ^ k" ..
      with True have "k \<noteq> 0" by (intro notI) simp
      then obtain j where "k = Suc j" using not0_implies_Suc by blast
      with k m have "m = 2 ^ j" by simp
      then show "\<exists>k. m = 2 ^ k" ..
    qed
    finally show ?thesis .
  next
    case False
    then obtain m where m: "n = 2 * m + 1" by (rule oddE)
    then have "n AND (n - 1) = 2 * m"
      by (simp add: and_rec [of "Suc (2 * m)"])
    moreover have "(\<exists>k. n = 2 ^ k) \<longleftrightarrow> m = 0"
    proof
      assume "\<exists>k. n = 2 ^ k"
      then obtain k where "n = 2 ^ k" ..
      with False have "k = 0" by (cases k) auto
      with \<open>n = 2 ^ k\<close> m show "m = 0" by simp
    next
      assume "m = 0"
      with m have "n = 2 ^ 0" by simp
      then show "\<exists>k. n = 2 ^ k" ..
    qed
    ultimately show ?thesis by simp
  qed
qed

lemma word_and_pred_0:
  assumes "(n :: 'a::len word) \<noteq> 0"
  shows "n AND (n - 1) = 0 \<longleftrightarrow> (\<exists>k. unat n = 2 ^ k)"
proof -
  have n: "unat n \<noteq> 0" using assms by (simp add: unat_eq_0)
  have "unat (n - 1) = unat n - 1" using assms by (rule unat_minus_one)
  then have "unat (n AND (n - 1)) = unat n AND (unat n - 1)" by (simp add: unsigned_and_eq)
  then show ?thesis using nat_and_pred_0 [OF n] by (metis unat_eq_zero)
qed

section \<open>Errors and results\<close>

datatype err = Err string | Wrap string err

type_synonym 'a res = "err + 'a"

named_theorems ok_iff "characterisations of the successful runs of an operation"

definition fail_if :: "bool \<Rightarrow> string \<Rightarrow> unit res" where
  "fail_if b m = (if b then Inl (Err m) else Inr ())"

fun wrap :: "string \<Rightarrow> 'a res \<Rightarrow> 'a res" where
  "wrap c (Inl e) = Inl (Wrap c e)"
| "wrap c (Inr x) = Inr x"

fun bind_r :: "'a res \<Rightarrow> ('a \<Rightarrow> 'b res) \<Rightarrow> 'b res" where
  "bind_r (Inl e) f = Inl e"
| "bind_r (Inr x) f = f x"

text \<open>A sequence of checks that returns the first error, as early returns do.\<close>

fun all_ok :: "unit res list \<Rightarrow> unit res" where
  "all_ok [] = Inr ()"
| "all_ok (x # xs) = (case x of Inl e \<Rightarrow> Inl e | Inr u \<Rightarrow> all_ok xs)"

lemma fail_if_ok [simp, ok_iff]: "fail_if b m = Inr u \<longleftrightarrow> \<not> b"
  by (simp add: fail_if_def)

lemma fail_if_err [simp]: "fail_if b m = Inl e \<longleftrightarrow> b \<and> e = Err m"
  by (auto simp: fail_if_def)

lemma wrap_ok [simp, ok_iff]: "wrap c r = Inr x \<longleftrightarrow> r = Inr x"
  by (cases r) simp_all

lemma wrap_err [simp]: "wrap c r = Inl e \<longleftrightarrow> (\<exists>e'. r = Inl e' \<and> e = Wrap c e')"
  by (cases r) auto

lemma bind_r_ok [simp, ok_iff]: "bind_r r f = Inr y \<longleftrightarrow> (\<exists>x. r = Inr x \<and> f x = Inr y)"
  by (cases r) simp_all

lemma bind_r_err: "bind_r r f = Inl e \<longleftrightarrow> r = Inl e \<or> (\<exists>x. r = Inr x \<and> f x = Inl e)"
  by (cases r) simp_all

lemma all_ok_Nil [simp, ok_iff]: "all_ok [] = Inr u"
  by simp

lemma all_ok_Cons [simp, ok_iff]: "all_ok (x # xs) = Inr u \<longleftrightarrow> x = Inr () \<and> all_ok xs = Inr ()"
  by (cases x) simp_all

declare all_ok.simps(2) [simp del]

lemma all_ok_append [simp, ok_iff]:
  "all_ok (xs @ ys) = Inr u \<longleftrightarrow> all_ok xs = Inr () \<and> all_ok ys = Inr ()"
  by (induction xs) auto

lemma all_ok_iff: "all_ok xs = Inr u \<longleftrightarrow> (\<forall>x \<in> set xs. x = Inr ())"
  by (induction xs) auto

lemma all_ok_map [simp, ok_iff]: "all_ok (map f xs) = Inr u \<longleftrightarrow> (\<forall>x \<in> set xs. f x = Inr ())"
  by (induction xs) auto

text \<open>The error of a failed sequence is the first one: everything before it passed.\<close>

lemma all_ok_first_error:
  assumes "all_ok xs = Inl e"
  shows "\<exists>ys zs. xs = ys @ Inl e # zs \<and> (\<forall>y \<in> set ys. y = Inr ())"
  using assms
proof (induction xs)
  case Nil
  then show ?case by simp
next
  case (Cons x xs)
  show ?case
  proof (cases x)
    case (Inl e')
    with Cons.prems have "x # xs = [] @ Inl e # xs" by (simp add: all_ok.simps)
    then show ?thesis by fastforce
  next
    case (Inr u)
    with Cons.prems have "all_ok xs = Inl e" by (simp add: all_ok.simps)
    with Cons.IH obtain ys zs where "xs = ys @ Inl e # zs" "\<forall>y \<in> set ys. y = Inr ()" by blast
    with Inr have "x # xs = (x # ys) @ Inl e # zs \<and> (\<forall>y \<in> set (x # ys). y = Inr ())" by simp
    then show ?thesis by blast
  qed
qed

lemma res_cases_ok: "(\<And>e. r = Inl e \<Longrightarrow> P) \<Longrightarrow> (r = Inr () \<Longrightarrow> P) \<Longrightarrow> P"
  by (cases r) auto

text \<open>
  The duplicate check of a loop with a Go \<^verbatim>\<open>seen\<close> map: the list of keys already
  visited is threaded through, and each element is first checked by \<open>f\<close>.
\<close>

fun unique_ok :: "string \<Rightarrow> ('a \<Rightarrow> unit res) \<Rightarrow> ('a \<Rightarrow> 'k) \<Rightarrow> 'k list \<Rightarrow> 'a list \<Rightarrow> unit res" where
  "unique_ok m f key seen [] = Inr ()"
| "unique_ok m f key seen (x # xs) =
     all_ok [f x, fail_if (key x \<in> set seen) m, unique_ok m f key (key x # seen) xs]"

lemma unique_ok_seen:
  "unique_ok m f key seen xs = Inr u \<longleftrightarrow>
     (\<forall>x \<in> set xs. f x = Inr ()) \<and> distinct (map key xs) \<and> key ` set xs \<inter> set seen = {}"
  by (induction xs arbitrary: seen) auto

lemma unique_ok_iff [simp, ok_iff]:
  "unique_ok m f key [] xs = Inr u \<longleftrightarrow> (\<forall>x \<in> set xs. f x = Inr ()) \<and> distinct (map key xs)"
  by (simp add: unique_ok_seen)

end
