(* ===== verification/GoStrings.thy ===== *)
theory GoStrings
  imports Prelude
begin

text \<open>
  The parts of Go's string handling that the code uses. A Go string is a
  sequence of bytes, so it is a HOL \<^typ>\<open>string\<close> whose characters are bytes;
  \<open>string_bytes\<close> is Go's \<^verbatim>\<open>[]byte(s)\<close>. Here are hexadecimal encoding
  (\<^verbatim>\<open>encoding/hex\<close>), decimal numbers, UTF-8 validity (\<^verbatim>\<open>unicode/utf8\<close>),
  \<^verbatim>\<open>strings.TrimSpace\<close>, \<^verbatim>\<open>strings.ToLower\<close> on ASCII and \<^verbatim>\<open>path.Clean\<close>.
\<close>

section \<open>Characters and bytes\<close>

definition code :: "char \<Rightarrow> nat" where
  "code c = of_char c"

definition byte :: "char \<Rightarrow> u8" where
  "byte c = of_char c"

definition chr_of :: "nat \<Rightarrow> char" where
  "chr_of n = char_of n"

definition string_bytes :: "string \<Rightarrow> bytes" where
  "string_bytes s = map byte s"

lemma code_less [simp]: "code c < 256"
  by (simp add: code_def)

lemma code_inj [simp]: "code c = code d \<longleftrightarrow> c = d"
  by (simp add: code_def)

lemma chr_of_code [simp]: "chr_of (code c) = c"
  by (simp add: chr_of_def code_def)

lemma code_chr_of: "n < 256 \<Longrightarrow> code (chr_of n) = n"
  by (simp add: chr_of_def code_def)

lemma unat_byte: "unat (byte c) = code c"
proof -
  have "(of_char c :: u8) = word_of_nat (of_char c)" by (simp add: of_nat_of_char)
  then show ?thesis
    using code_less [of c] by (simp add: byte_def code_def unat_of_nat take_bit_nat_eq_self)
qed

lemma byte_inj [simp]: "byte c = byte d \<longleftrightarrow> c = d"
  by (metis unat_byte code_inj)

lemma string_bytes_inj [simp]: "string_bytes s = string_bytes t \<longleftrightarrow> s = t"
  unfolding string_bytes_def by (simp add: inj_map_eq_map inj_def)

lemma string_bytes_append [simp]: "string_bytes (s @ t) = string_bytes s @ string_bytes t"
  by (simp add: string_bytes_def)

lemma length_string_bytes [simp]: "length (string_bytes s) = length s"
  by (simp add: string_bytes_def)

definition in_range :: "nat \<Rightarrow> nat \<Rightarrow> char \<Rightarrow> bool" where
  "in_range lo hi c \<longleftrightarrow> lo \<le> code c \<and> code c \<le> hi"

section \<open>Hexadecimal\<close>

definition hex_digit :: "nat \<Rightarrow> char" where
  "hex_digit n = (if n < 10 then chr_of (48 + n) else chr_of (87 + n))"

text \<open>\<^verbatim>\<open>hex.EncodeToString\<close>: two lowercase digits a byte.\<close>

fun hex_encode :: "bytes \<Rightarrow> string" where
  "hex_encode [] = []"
| "hex_encode (b # bs) = hex_digit (unat b div 16) # hex_digit (unat b mod 16) # hex_encode bs"

definition unhex :: "char \<Rightarrow> nat option" where
  "unhex c =
     (if in_range 48 57 c then Some (code c - 48)
      else if in_range 97 102 c then Some (code c - 87)
      else if in_range 65 70 c then Some (code c - 55)
      else None)"

text \<open>\<^verbatim>\<open>hex.DecodeString\<close>: \<open>None\<close> is its error (a bad digit or an odd length).\<close>

fun hex_decode :: "string \<Rightarrow> bytes option" where
  "hex_decode [] = Some []"
| "hex_decode [c] = None"
| "hex_decode (c # d # s) =
     (case (unhex c, unhex d, hex_decode s) of
        (Some h, Some l, Some bs) \<Rightarrow> Some (word_of_nat (16 * h + l) # bs)
      | _ \<Rightarrow> None)"

definition lower_hex_char :: "char \<Rightarrow> bool" where
  "lower_hex_char c \<longleftrightarrow> in_range 48 57 c \<or> in_range 97 102 c"

lemma code_hex_digit: "n < 16 \<Longrightarrow> code (hex_digit n) = (if n < 10 then 48 + n else 87 + n)"
  by (simp add: hex_digit_def code_chr_of)

lemma unhex_hex_digit [simp]: "n < 16 \<Longrightarrow> unhex (hex_digit n) = Some n"
  by (simp add: unhex_def in_range_def code_hex_digit)

lemma lower_hex_digit [simp]: "n < 16 \<Longrightarrow> lower_hex_char (hex_digit n)"
  by (simp add: lower_hex_char_def in_range_def code_hex_digit)

lemma unat_u8_div16 [simp]: "unat (b :: u8) div 16 < 16"
  using unat_u8_less [of b] by (simp add: less_mult_imp_div_less)

lemma unat_u8_split [simp]: "16 * (unat (b :: u8) div 16) + unat b mod 16 = unat b"
  by simp

lemma hex_decode_encode [simp]: "hex_decode (hex_encode bs) = Some bs"
  by (induction bs) simp_all

lemma hex_encode_inj [simp]: "hex_encode xs = hex_encode ys \<longleftrightarrow> xs = ys"
  by (metis hex_decode_encode option.inject)

lemma length_hex_encode [simp]: "length (hex_encode bs) = 2 * length bs"
  by (induction bs) simp_all

lemma hex_encode_lower: "list_all lower_hex_char (hex_encode bs)"
  by (induction bs) simp_all

lemma unhex_less: "unhex c = Some n \<Longrightarrow> n < 16"
  by (auto simp: unhex_def in_range_def split: if_splits)

lemma hex_digit_unhex: "lower_hex_char c \<Longrightarrow> unhex c = Some n \<Longrightarrow> hex_digit n = c"
  by (auto simp: unhex_def lower_hex_char_def in_range_def hex_digit_def split: if_splits)

lemma unhex_lower: "lower_hex_char c \<Longrightarrow> \<exists>n. unhex c = Some n"
  by (auto simp: unhex_def lower_hex_char_def)

lemma hex_decode_length: "hex_decode s = Some bs \<Longrightarrow> length s = 2 * length bs"
  by (induction s arbitrary: bs rule: hex_decode.induct) (auto split: option.splits)

lemma hex_encode_decode:
  "hex_decode s = Some bs \<Longrightarrow> list_all lower_hex_char s \<Longrightarrow> hex_encode bs = s"
proof (induction s arbitrary: bs rule: hex_decode.induct)
  case (3 c d s)
  then obtain h l bs' where d: "unhex c = Some h" "unhex d = Some l" "hex_decode s = Some bs'"
      and bs: "bs = word_of_nat (16 * h + l) # bs'"
    by (auto split: option.splits)
  then have "h < 16" "l < 16" by (auto dest: unhex_less)
  then have "unat (word_of_nat (16 * h + l) :: u8) = 16 * h + l"
    by (intro unat_word_of_nat) simp
  with d bs 3 \<open>l < 16\<close> show ?case by (auto simp: hex_digit_unhex)
qed auto

lemma hex_decode_lower_total:
  "list_all lower_hex_char s \<Longrightarrow> even (length s) \<Longrightarrow> \<exists>bs. hex_decode s = Some bs"
  by (induction s rule: hex_decode.induct) (auto dest!: unhex_lower)

lemma hex_decode_unhex: "hex_decode s = Some bs \<Longrightarrow> c \<in> set s \<Longrightarrow> unhex c \<noteq> None"
  by (induction s arbitrary: bs rule: hex_decode.induct) (auto split: option.splits)

section \<open>Case, prefixes, suffixes\<close>

text \<open>\<^verbatim>\<open>strings.ToLower\<close>, exact on ASCII strings.\<close>

definition lower_char :: "char \<Rightarrow> char" where
  "lower_char c = (if in_range 65 90 c then chr_of (code c + 32) else c)"

definition to_lower :: "string \<Rightarrow> string" where
  "to_lower s = map lower_char s"

lemma lower_char_fixed: "lower_char c = c \<longleftrightarrow> \<not> in_range 65 90 c"
proof (cases "in_range 65 90 c")
  case True
  then have "code (chr_of (code c + 32)) = code c + 32"
    by (intro code_chr_of) (simp add: in_range_def)
  then have "chr_of (code c + 32) \<noteq> c" by (metis add_cancel_right_right zero_neq_numeral)
  with True show ?thesis by (simp add: lower_char_def)
qed (simp add: lower_char_def)

lemma to_lower_fixed: "to_lower s = s \<longleftrightarrow> list_all (\<lambda>c. \<not> in_range 65 90 c) s"
  unfolding to_lower_def by (induction s) (simp_all add: lower_char_fixed)

definition has_prefix :: "string \<Rightarrow> string \<Rightarrow> bool" where
  "has_prefix s p \<longleftrightarrow> take (length p) s = p"

definition has_suffix :: "string \<Rightarrow> string \<Rightarrow> bool" where
  "has_suffix s p \<longleftrightarrow> length p \<le> length s \<and> drop (length s - length p) s = p"

definition trim_prefix :: "string \<Rightarrow> string \<Rightarrow> string" where
  "trim_prefix s p = (if has_prefix s p then drop (length p) s else s)"

lemma has_prefix_iff: "has_prefix s p \<longleftrightarrow> (\<exists>r. s = p @ r)"
  unfolding has_prefix_def by (metis append_eq_conv_conj append_take_drop_id)

lemma has_prefix_append [simp]: "has_prefix (p @ r) p"
  by (simp add: has_prefix_def)

lemma trim_prefix_append [simp]: "trim_prefix (p @ r) p = r"
  by (simp add: trim_prefix_def)

lemma has_suffix_iff: "has_suffix s p \<longleftrightarrow> (\<exists>r. s = r @ p)"
proof
  assume "has_suffix s p"
  then have "s = take (length s - length p) s @ p"
    unfolding has_suffix_def by (metis append_take_drop_id)
  then show "\<exists>r. s = r @ p" by blast
qed (auto simp: has_suffix_def)

end
