(* ===== verification/GoText.thy ===== *)
theory GoText
  imports GoStrings
begin

text \<open>
  Decimal numbers (\<^verbatim>\<open>strconv\<close>), UTF-8 (\<^verbatim>\<open>unicode/utf8\<close>),
  \<^verbatim>\<open>strings.TrimSpace\<close> and \<^verbatim>\<open>path.Clean\<close>, with the facts the record
  encodings rely on.
\<close>

section \<open>Decimal numbers\<close>

definition is_digit :: "char \<Rightarrow> bool" where
  "is_digit c \<longleftrightarrow> in_range 48 57 c"

fun dec :: "nat \<Rightarrow> string" where
  "dec n = (if n < 10 then [chr_of (48 + n)] else dec (n div 10) @ [chr_of (48 + n mod 10)])"

declare dec.simps [simp del]

definition dec_int :: "int \<Rightarrow> string" where
  "dec_int i = (if i < 0 then CHR ''-'' # dec (nat (- i)) else dec (nat i))"

definition undec :: "string \<Rightarrow> nat" where
  "undec s = foldl (\<lambda>n c. 10 * n + (code c - 48)) 0 s"

lemma undec_snoc: "undec (s @ [c]) = 10 * undec s + (code c - 48)"
  by (simp add: undec_def)

lemma is_digit_chr: "k < 10 \<Longrightarrow> is_digit (chr_of (48 + k))"
  by (simp add: is_digit_def in_range_def code_chr_of)

lemma dec_digits: "list_all is_digit (dec n)"
proof (induction n rule: dec.induct)
  case (1 n)
  then show ?case by (subst dec.simps) (auto simp: is_digit_chr)
qed

lemma dec_not_Nil [simp]: "dec n \<noteq> []"
  by (subst dec.simps) simp

lemma undec_dec [simp]: "undec (dec n) = n"
proof (induction n rule: dec.induct)
  case (1 n)
  show ?case
  proof (cases "n < 10")
    case True
    then show ?thesis by (subst dec.simps) (simp add: undec_def code_chr_of)
  next
    case False
    have "code (chr_of (48 + n mod 10)) = 48 + n mod 10"
      by (intro code_chr_of) (simp add: trans_less_add1)
    with False 1 show ?thesis by (subst dec.simps) (simp add: undec_snoc)
  qed
qed

lemma dec_inj [simp]: "dec m = dec n \<longleftrightarrow> m = n"
  by (metis undec_dec)

lemma takeWhile_digits:
  assumes "list_all is_digit s" and "r = [] \<or> \<not> is_digit (hd r)"
  shows "takeWhile is_digit (s @ r) = s"
proof -
  have "takeWhile is_digit r = []" using assms(2) by (cases r) auto
  then show ?thesis using assms(1) by (simp add: list_all_iff takeWhile_append2)
qed

lemma dec_prefix_inj:
  assumes "dec m @ r = dec n @ s"
    and "r = [] \<or> \<not> is_digit (hd r)" and "s = [] \<or> \<not> is_digit (hd s)"
  shows "m = n \<and> r = s"
proof -
  have "dec m = dec n"
    using assms takeWhile_digits [OF dec_digits, of r m] takeWhile_digits [OF dec_digits, of s n]
    by simp
  with assms(1) show ?thesis by simp
qed

lemma hd_dec_digit: "is_digit (hd (dec n))"
  using dec_digits [of n] by (cases "dec n") auto

lemma dec_int_prefix_inj:
  assumes "dec_int i @ r = dec_int j @ s"
    and "r = [] \<or> \<not> is_digit (hd r)" and "s = [] \<or> \<not> is_digit (hd s)"
  shows "i = j \<and> r = s"
proof -
  have m: "\<not> is_digit (CHR ''-'')" by (simp add: is_digit_def in_range_def code_def)
  have hd: "\<And>n t. dec n @ t \<noteq> CHR ''-'' # u" for u
    using m hd_dec_digit by (metis dec_not_Nil hd_append2 list.sel(1))
  show ?thesis
    using assms hd hd [symmetric] unfolding dec_int_def
    by (auto split: if_splits dest!: dec_prefix_inj)
qed

section \<open>UTF-8\<close>

text \<open>The number of bytes of the first rune, 0 when it is not valid UTF-8.\<close>

definition cont :: "char \<Rightarrow> bool" where
  "cont c \<longleftrightarrow> in_range 128 191 c"

definition second_ok :: "nat \<Rightarrow> char \<Rightarrow> bool" where
  "second_ok x c =
     in_range (if x = 224 then 160 else if x = 240 then 144 else 128)
              (if x = 237 then 159 else if x = 244 then 143 else 191) c"

definition rune_size :: "string \<Rightarrow> nat" where
  "rune_size s =
     (case s of [] \<Rightarrow> 0
      | a # r \<Rightarrow>
          (let x = code a in
           if x < 128 then 1
           else if 194 \<le> x \<and> x \<le> 223 then
             (case r of b # _ \<Rightarrow> if second_ok x b then 2 else 0 | _ \<Rightarrow> 0)
           else if 224 \<le> x \<and> x \<le> 239 then
             (case r of b # c # _ \<Rightarrow> if second_ok x b \<and> cont c then 3 else 0 | _ \<Rightarrow> 0)
           else if 240 \<le> x \<and> x \<le> 244 then
             (case r of b # c # d # _ \<Rightarrow> if second_ok x b \<and> cont c \<and> cont d then 4 else 0 | _ \<Rightarrow> 0)
           else 0))"

text \<open>\<^verbatim>\<open>utf8.ValidString\<close>.\<close>

fun valid_utf8 :: "string \<Rightarrow> bool" where
  "valid_utf8 [] = True"
| "valid_utf8 (c # cs) =
     (rune_size (c # cs) \<noteq> 0 \<and> valid_utf8 (drop (rune_size (c # cs) - 1) cs))"

definition ascii :: "string \<Rightarrow> bool" where
  "ascii s \<longleftrightarrow> list_all (\<lambda>c. code c < 128) s"

lemma rune_size_ascii [simp]: "code c < 128 \<Longrightarrow> rune_size (c # cs) = 1"
  by (simp add: rune_size_def)

lemma valid_utf8_ascii: "ascii s \<Longrightarrow> valid_utf8 s"
  by (induction s rule: valid_utf8.induct) (auto simp: ascii_def)

lemma ascii_simps [simp]: "ascii []" "ascii (c # s) \<longleftrightarrow> code c < 128 \<and> ascii s"
    "ascii (s @ t) \<longleftrightarrow> ascii s \<and> ascii t"
  by (simp_all add: ascii_def)

lemma in_range_less: "in_range lo hi c \<Longrightarrow> hi < n \<Longrightarrow> code c < n"
  by (simp add: in_range_def)

lemma ascii_lower_hex: "list_all lower_hex_char s \<Longrightarrow> ascii s"
  by (auto simp: ascii_def list_all_iff lower_hex_char_def in_range_def)

lemma rune_size_bytes:
  assumes "rune_size (c # cs) = n" and "128 \<le> code c" and "n \<noteq> 0"
  shows "n \<in> {2, 3, 4} \<and> n \<le> length (c # cs) \<and> list_all (\<lambda>c. 128 \<le> code c) (take n (c # cs))"
  using assms
  by (auto simp: rune_size_def Let_def second_ok_def cont_def in_range_def
      split: if_splits list.splits)

section \<open>TrimSpace\<close>

text \<open>
  The UTF-8 encodings of the runes with \<^verbatim>\<open>unicode.IsSpace\<close>. They are the only
  strings that \<^verbatim>\<open>strings.TrimSpace\<close> removes, rune by rune, at either end; each
  starts with a rune-start byte, so a suffix that equals one of them is the last rune.
\<close>

definition space_runes :: "string list" where
  "space_runes =
     [[CHR 0x09], [CHR 0x0A], [CHR 0x0B], [CHR 0x0C], [CHR 0x0D], [CHR 0x20],
      [CHR 0xC2, CHR 0x85], [CHR 0xC2, CHR 0xA0], [CHR 0xE1, CHR 0x9A, CHR 0x80],
      [CHR 0xE2, CHR 0x80, CHR 0x80], [CHR 0xE2, CHR 0x80, CHR 0x81], [CHR 0xE2, CHR 0x80, CHR 0x82],
      [CHR 0xE2, CHR 0x80, CHR 0x83], [CHR 0xE2, CHR 0x80, CHR 0x84], [CHR 0xE2, CHR 0x80, CHR 0x85],
      [CHR 0xE2, CHR 0x80, CHR 0x86], [CHR 0xE2, CHR 0x80, CHR 0x87], [CHR 0xE2, CHR 0x80, CHR 0x88],
      [CHR 0xE2, CHR 0x80, CHR 0x89], [CHR 0xE2, CHR 0x80, CHR 0x8A], [CHR 0xE2, CHR 0x80, CHR 0xA8],
      [CHR 0xE2, CHR 0x80, CHR 0xA9], [CHR 0xE2, CHR 0x80, CHR 0xAF], [CHR 0xE2, CHR 0x81, CHR 0x9F],
      [CHR 0xE3, CHR 0x80, CHR 0x80]]"

fun trim_left :: "string list \<Rightarrow> string \<Rightarrow> string" where
  "trim_left sp [] = []"
| "trim_left sp (c # s) =
     (case List.find (\<lambda>p. p \<noteq> [] \<and> has_prefix (c # s) p) sp of
        None \<Rightarrow> c # s
      | Some p \<Rightarrow> trim_left sp (drop (length p - 1) s))"

definition trim_space :: "string \<Rightarrow> string" where
  "trim_space s = rev (trim_left (map rev space_runes) (rev (trim_left space_runes s)))"

lemma trim_space_Nil [simp]: "trim_space [] = []"
  by (simp add: trim_space_def)

section \<open>Clean paths\<close>

fun split_on :: "char \<Rightarrow> string \<Rightarrow> string list" where
  "split_on d [] = [[]]"
| "split_on d (c # s) =
     (if c = d then [] # split_on d s
      else (case split_on d s of [] \<Rightarrow> [[c]] | w # ws \<Rightarrow> (c # w) # ws))"

fun join_with :: "string \<Rightarrow> string list \<Rightarrow> string" where
  "join_with d [] = []"
| "join_with d [w] = w"
| "join_with d (w # ws) = w @ d @ join_with d ws"

text \<open>
  \<^verbatim>\<open>path.Clean\<close>, element by element: empty and \<^verbatim>\<open>"."\<close> elements go, a
  \<^verbatim>\<open>".."\<close> removes the element before it, or stays when there is none to remove
  and the path is not rooted. The stack \<open>out\<close> is kept in reverse.
\<close>

fun clean_elems :: "bool \<Rightarrow> string list \<Rightarrow> string list \<Rightarrow> string list" where
  "clean_elems rooted out [] = rev out"
| "clean_elems rooted out (w # ws) =
     (if w = [] \<or> w = ''.'' then clean_elems rooted out ws
      else if w = ''..'' then
        (case out of
           [] \<Rightarrow> clean_elems rooted (if rooted then [] else [w]) ws
         | x # out' \<Rightarrow> if x = ''..'' then clean_elems rooted (w # out) ws
                       else clean_elems rooted out' ws)
      else clean_elems rooted (w # out) ws)"

definition path_clean :: "string \<Rightarrow> string" where
  "path_clean s =
     (if s = [] then ''.''
      else
        (let rooted = (hd s = CHR ''/'');
             p = (if rooted then ''/'' else []) @
                 join_with ''/'' (clean_elems rooted [] (split_on (CHR ''/'') s))
         in if p = [] then ''.'' else p))"

end
