(* ===== verification/GoJson.thy ===== *)
theory GoJson
  imports GoText
begin

text \<open>
  The compact encoding of \<^verbatim>\<open>encoding/json.Marshal\<close> for the values the code
  marshals: fixed-field structs (an object with its fields in declaration order),
  slices, strings, integers and booleans. The main result is that the encoding is
  prefix-free on values whose strings are valid UTF-8, so that equal encodings come
  from equal values.
\<close>

section \<open>Values and their encoding\<close>

datatype json =
    JNull
  | JBool bool
  | JNum int
  | JStr string
  | JArr "json list"
  | JObj "(string \<times> json) list"

definition quote :: char where "quote = CHR 0x22"
definition backslash :: char where "backslash = CHR 0x5C"

text \<open>
  \<^verbatim>\<open>appendString\<close> with HTML escaping, as \<^verbatim>\<open>json.Marshal\<close> uses it: two-character
  escapes for the quote, the backslash and five control characters, \<^verbatim>\<open>\u00xx\<close> for
  the other control characters and for \<^verbatim>\<open><\<close>, \<^verbatim>\<open>>\<close>, \<^verbatim>\<open>&\<close>, \<^verbatim>\<open>\u2028\<close> and
  \<^verbatim>\<open>\u2029\<close> for the two line separators, \<^verbatim>\<open>\ufffd\<close> for an invalid byte.
\<close>

definition json_esc :: "char \<Rightarrow> string" where
  "json_esc c =
     (if c = quote \<or> c = backslash then [backslash, c]
      else if c = CHR 0x08 then [backslash, CHR ''b'']
      else if c = CHR 0x0C then [backslash, CHR ''f'']
      else if c = CHR 0x0A then [backslash, CHR ''n'']
      else if c = CHR 0x0D then [backslash, CHR ''r'']
      else if c = CHR 0x09 then [backslash, CHR ''t'']
      else if code c < 32 \<or> c = CHR ''<'' \<or> c = CHR ''>'' \<or> c = CHR ''&'' then
        [backslash, CHR ''u'', CHR ''0'', CHR ''0'', hex_digit (code c div 16), hex_digit (code c mod 16)]
      else [c])"

definition line_sep :: "char \<Rightarrow> string" where
  "line_sep c = [CHR 0xE2, CHR 0x80, c]"

fun json_body :: "string \<Rightarrow> string" where
  "json_body [] = []"
| "json_body (c # cs) =
     (if code c < 128 then json_esc c @ json_body cs
      else
        (let n = rune_size (c # cs) in
         if n = 0 then backslash # ''ufffd'' @ json_body cs
         else
           (if take n (c # cs) = line_sep (CHR 0xA8) then backslash # ''u2028''
            else if take n (c # cs) = line_sep (CHR 0xA9) then backslash # ''u2029''
            else take n (c # cs))
           @ json_body (drop (n - 1) cs)))"

definition json_str :: "string \<Rightarrow> string" where
  "json_str s = quote # json_body s @ [quote]"

fun jenc :: "json \<Rightarrow> string"
and jarr :: "json list \<Rightarrow> string"
and jobj :: "(string \<times> json) list \<Rightarrow> string" where
  "jenc JNull = ''null''"
| "jenc (JBool b) = (if b then ''true'' else ''false'')"
| "jenc (JNum i) = dec_int i"
| "jenc (JStr s) = json_str s"
| "jenc (JArr xs) = ''['' @ (case xs of [] \<Rightarrow> '']'' | y # ys \<Rightarrow> jenc y @ jarr ys)"
| "jenc (JObj fs) =
     ''{'' @ (case fs of [] \<Rightarrow> ''}'' | (k, v) # gs \<Rightarrow> json_str k @ '':'' @ jenc v @ jobj gs)"
| "jarr [] = '']''"
| "jarr (y # ys) = '','' @ jenc y @ jarr ys"
| "jobj [] = ''}''"
| "jobj ((k, v) # gs) = '','' @ json_str k @ '':'' @ jenc v @ jobj gs"

section \<open>Reading a string back\<close>

definition unescape :: "char \<Rightarrow> char" where
  "unescape e =
     (if e = CHR ''b'' then CHR 0x08 else if e = CHR ''f'' then CHR 0x0C
      else if e = CHR ''n'' then CHR 0x0A else if e = CHR ''r'' then CHR 0x0D
      else if e = CHR ''t'' then CHR 0x09 else e)"

definition unescape_u :: "char \<Rightarrow> char \<Rightarrow> char \<Rightarrow> char \<Rightarrow> string" where
  "unescape_u a b c d =
     (if [a, b, c, d] = ''2028'' then line_sep (CHR 0xA8)
      else if [a, b, c, d] = ''2029'' then line_sep (CHR 0xA9)
      else (case (unhex c, unhex d) of
              (Some h, Some l) \<Rightarrow> [chr_of (16 * h + l)]
            | _ \<Rightarrow> []))"

definition cons_fst :: "string \<Rightarrow> (string \<times> string) option \<Rightarrow> (string \<times> string) option" where
  "cons_fst x = map_option (\<lambda>(y, r). (x @ y, r))"

fun unquote :: "string \<Rightarrow> (string \<times> string) option" where
  "unquote [] = None"
| "unquote (c # s) =
     (if c = quote then Some ([], s)
      else if c = backslash then
        (case s of
           [] \<Rightarrow> None
         | e # t \<Rightarrow>
             (if e = CHR ''u'' then
                (case t of
                   a # b # h # l # r \<Rightarrow> cons_fst (unescape_u a b h l) (unquote r)
                 | _ \<Rightarrow> None)
              else cons_fst [unescape e] (unquote t)))
      else cons_fst [c] (unquote s))"

lemma cons_fst_simps [simp]: "cons_fst x (Some (y, r)) = Some (x @ y, r)" "cons_fst x None = None"
    "cons_fst [] q = q" "cons_fst x (cons_fst y q) = cons_fst (x @ y) q"
  by (cases q; auto simp: cons_fst_def)+

lemma unquote_plain:
  "c \<noteq> quote \<Longrightarrow> c \<noteq> backslash \<Longrightarrow> unquote (c # s) = cons_fst [c] (unquote s)"
  by simp

lemma unquote_plains:
  "list_all (\<lambda>c. 128 \<le> code c) xs \<Longrightarrow> unquote (xs @ s) = cons_fst xs (unquote s)"
proof (induction xs)
  case (Cons x xs)
  then have "x \<noteq> quote" "x \<noteq> backslash" by (auto simp: quote_def backslash_def code_def)
  with Cons show ?case by (simp del: unquote.simps add: unquote_plain)
qed simp

lemma quote_backslash [simp]: "quote \<noteq> backslash" "backslash \<noteq> quote"
  by (simp_all add: quote_def backslash_def)

lemma unescape_u_00: "n < 128 \<Longrightarrow> unescape_u (CHR ''0'') (CHR ''0'') (hex_digit (n div 16)) (hex_digit (n mod 16)) = [chr_of n]"
  by (simp add: unescape_u_def)

lemma unquote_u:
  "unquote (backslash # CHR ''u'' # a # b # h # l # r) = cons_fst (unescape_u a b h l) (unquote r)"
  by simp

lemma unquote_2:
  "e \<noteq> CHR ''u'' \<Longrightarrow> unquote (backslash # e # t) = cons_fst [unescape e] (unquote t)"
  by simp

lemma unquote_esc: "code c < 128 \<Longrightarrow> unquote (json_esc c @ t) = cons_fst [c] (unquote t)"
proof -
  assume c: "code c < 128"
  have u: "backslash \<noteq> CHR ''u''" "quote \<noteq> CHR ''u''" by (simp_all add: quote_def backslash_def)
  have e: "unescape quote = quote" "unescape backslash = backslash"
    by (simp_all add: unescape_def quote_def backslash_def)
  have b: "unescape (CHR ''b'') = CHR 0x08" "unescape (CHR ''f'') = CHR 0x0C"
    "unescape (CHR ''n'') = CHR 0x0A" "unescape (CHR ''r'') = CHR 0x0D" "unescape (CHR ''t'') = CHR 0x09"
    by (simp_all add: unescape_def)
  from c u e b show ?thesis
    by (auto simp del: unquote.simps simp add: json_esc_def unquote_2 unquote_u unquote_plain unescape_u_00)
qed

lemma unquote_line_sep:
  "unquote (backslash # ''u2028'' @ t) = cons_fst (line_sep (CHR 0xA8)) (unquote t)"
  "unquote (backslash # ''u2029'' @ t) = cons_fst (line_sep (CHR 0xA9)) (unquote t)"
  by (simp_all del: unquote.simps add: unquote_u unescape_u_def)

lemma unquote_json_body:
  "valid_utf8 s \<Longrightarrow> unquote (json_body s @ quote # r) = Some (s, r)"
proof (induction s rule: json_body.induct)
  case 1
  then show ?case by simp
next
  case (2 c cs)
  show ?case
  proof (cases "code c < 128")
    case True
    with 2 show ?thesis by (simp del: unquote.simps add: unquote_esc)
  next
    case False
    let ?n = "rune_size (c # cs)"
    have n0: "?n \<noteq> 0" using "2.prems" by simp
    then have n: "?n \<le> length (c # cs)" "list_all (\<lambda>c. 128 \<le> code c) (take ?n (c # cs))"
      using rune_size_bytes [of c cs] False by auto
    have IH: "unquote (json_body (drop (?n - 1) cs) @ quote # r) = Some (drop (?n - 1) cs, r)"
      using "2.IH"(3) [OF False refl n0] "2.prems" by simp
    have split: "take ?n (c # cs) @ drop (?n - 1) cs = c # cs"
      using n0 append_take_drop_id [of ?n "c # cs"] by (simp add: drop_Cons')
    show ?thesis
    proof -
      define p where "p = take ?n (c # cs)"
      define d where "d = drop (?n - 1) cs"
      have p: "p @ d = c # cs" "list_all (\<lambda>c. 128 \<le> code c) p"
        using split n(2) by (simp_all add: p_def d_def)
      define q where "q = (if p = line_sep (CHR 0xA8) then backslash # ''u2028''
           else if p = line_sep (CHR 0xA9) then backslash # ''u2029'' else p)"
      have eq: "json_body (c # cs) = q @ json_body d"
        using False n0 by (simp add: Let_def p_def d_def q_def)
      have q: "unquote (q @ t) = cons_fst p (unquote t)" for t
        using unquote_plains [OF p(2), of t] unquote_line_sep [of t] unfolding q_def
        by (cases "p = line_sep (CHR 0xA8)"; cases "p = line_sep (CHR 0xA9)";
            simp only: if_True if_False simp_thms append_Cons append_Nil)
      have IHd: "unquote (json_body d @ quote # r) = Some (d, r)"
        using IH by (simp add: d_def)
      have "unquote (json_body (c # cs) @ quote # r) = cons_fst p (unquote (json_body d @ quote # r))"
        unfolding eq append.assoc by (rule q)
      then show ?thesis
        using p(1) by (simp only: IHd cons_fst_simps)
    qed
  qed
qed

lemma json_str_prefix_inj:
  assumes "json_str s @ r = json_str t @ u" and "valid_utf8 s" and "valid_utf8 t"
  shows "s = t \<and> r = u"
proof -
  have "json_body s @ quote # r = json_body t @ quote # u"
    using assms(1) by (simp add: json_str_def)
  then have "Some (s, r) = Some (t, u)"
    using assms(2,3) unquote_json_body by metis
  then show ?thesis by simp
qed

section \<open>The encoding is prefix-free\<close>

fun json_utf8 :: "json \<Rightarrow> bool"
and fields_utf8 :: "(string \<times> json) list \<Rightarrow> bool" where
  "json_utf8 (JStr s) = valid_utf8 s"
| "json_utf8 (JArr xs) = (\<forall>x \<in> set xs. json_utf8 x)"
| "json_utf8 (JObj fs) = fields_utf8 fs"
| "json_utf8 _ = True"
| "fields_utf8 [] = True"
| "fields_utf8 ((k, v) # fs) = (valid_utf8 k \<and> json_utf8 v \<and> fields_utf8 fs)"

definition stop :: "string \<Rightarrow> bool" where
  "stop r \<longleftrightarrow> r = [] \<or> \<not> is_digit (hd r)"

lemma stop_simps [simp]: "stop []" "stop (CHR '','' # r)" "stop (CHR '']'' # r)" "stop (CHR 0x7D # r)"
  by (simp_all add: stop_def is_digit_def in_range_def code_def)

lemma stop_jarr [simp]: "stop (jarr xs @ r)"
  by (cases xs) simp_all

lemma stop_jobj [simp]: "stop (jobj fs @ r)"
  by (cases fs rule: jobj.cases) simp_all

text \<open>The first character tells the constructors apart.\<close>

lemma is_digit_chars: "\<not> is_digit (CHR ''n'')" "\<not> is_digit (CHR ''t'')" "\<not> is_digit (CHR ''f'')"
    "\<not> is_digit quote" "\<not> is_digit (CHR ''['')" "\<not> is_digit (CHR 0x7B)"
  by (simp_all add: is_digit_def in_range_def code_def quote_def)

definition num_start :: "char \<Rightarrow> bool" where
  "num_start c \<longleftrightarrow> is_digit c \<or> c = CHR ''-''"

lemma hd_dec_int: "num_start (hd (dec_int i @ r))" "dec_int i \<noteq> []"
  using hd_dec_digit by (auto simp: dec_int_def num_start_def)

lemma dec_int_neq: "\<not> num_start c \<Longrightarrow> dec_int i @ r \<noteq> c # s" "\<not> num_start c \<Longrightarrow> c # s \<noteq> dec_int i @ r"
  using hd_dec_int by (metis list.sel(1))+

lemma num_start_chars: "\<not> num_start (CHR ''n'')" "\<not> num_start (CHR ''t'')" "\<not> num_start (CHR ''f'')"
    "\<not> num_start quote" "\<not> num_start (CHR ''['')" "\<not> num_start (CHR 0x7B)"
  by (simp_all add: num_start_def is_digit_chars) (simp_all add: quote_def)

lemma quote_chars: "quote \<noteq> CHR ''n''" "quote \<noteq> CHR ''t''" "quote \<noteq> CHR ''f''" "quote \<noteq> CHR ''[''"
    "quote \<noteq> CHR 0x7B" "quote \<noteq> CHR '']''" "quote \<noteq> CHR 0x7D"
  by (simp_all add: quote_def)

lemmas first_char = dec_int_neq [OF num_start_chars(1)] dec_int_neq [OF num_start_chars(2)]
  dec_int_neq [OF num_start_chars(3)] dec_int_neq [OF num_start_chars(4)]
  dec_int_neq [OF num_start_chars(5)] dec_int_neq [OF num_start_chars(6)]
  quote_chars quote_chars [symmetric]

lemma json_str_not_Nil [simp]: "json_str s \<noteq> []"
  by (simp add: json_str_def)

lemma colon_cancel: "json_str k @ CHR '':'' # a = json_str l @ CHR '':'' # b \<Longrightarrow>
    valid_utf8 k \<Longrightarrow> valid_utf8 l \<Longrightarrow> k = l \<and> a = b"
  using json_str_prefix_inj by blast

lemma jenc_not_bracket: "CHR '']'' # s \<noteq> jenc w @ t" "jenc w @ t \<noteq> CHR '']'' # s"
  using dec_int_neq [of "CHR '']''"]
  by (cases w; auto simp: json_str_def quote_def num_start_def is_digit_def in_range_def code_def)+

lemma jenc_prefix_inj_aux:
  "json_utf8 v \<Longrightarrow> json_utf8 w \<Longrightarrow> jenc v @ r = jenc w @ s \<Longrightarrow> stop r \<Longrightarrow> stop s \<Longrightarrow> v = w \<and> r = s"
  "(\<forall>x \<in> set xs. json_utf8 x) \<Longrightarrow> (\<forall>y \<in> set ys. json_utf8 y) \<Longrightarrow> jarr xs @ r' = jarr ys @ s' \<Longrightarrow> xs = ys \<and> r' = s'"
  "fields_utf8 fs \<Longrightarrow> fields_utf8 gs \<Longrightarrow> jobj fs @ r'' = jobj gs @ s'' \<Longrightarrow> fs = gs \<and> r'' = s''"
proof (induction v and xs and fs arbitrary: w r s and ys r' s' and gs r'' s'' rule: jenc_jarr_jobj.induct)
  case 1
  then show ?case by (cases w) (auto simp: json_str_def first_char split: if_splits)
next
  case (2 b)
  then show ?case by (cases w) (auto simp: json_str_def first_char split: if_splits)
next
  case (3 i)
  show ?case
  proof (cases w)
    case (JNum j)
    with 3 show ?thesis using dec_int_prefix_inj [of i r j s] by (simp add: stop_def)
  qed (use 3 in \<open>auto simp: json_str_def first_char split: if_splits\<close>)
next
  case (4 a)
  then show ?case
  proof (cases w)
    case (JStr t)
    with 4 show ?thesis using json_str_prefix_inj [of a r t s] by simp
  qed (auto simp: json_str_def first_char split: if_splits)
next
  case (5 xs)
  show ?case
  proof (cases w)
    case (JArr ys)
    show ?thesis
    proof (cases xs)
      case Nil
      with "5.prems"(3) JArr show ?thesis by (auto simp: jenc_not_bracket split: list.splits)
    next
      case (Cons x xs')
      with "5.prems"(3) JArr obtain y ys' where ys: "ys = y # ys'"
        by (auto simp: jenc_not_bracket split: list.splits)
      have u: "json_utf8 x" "json_utf8 y" "\<forall>x \<in> set xs'. json_utf8 x" "\<forall>y \<in> set ys'. json_utf8 y"
        using "5.prems"(1,2) JArr Cons ys by simp_all
      have eq: "jenc x @ (jarr xs' @ r) = jenc y @ (jarr ys' @ s)"
        using "5.prems"(3) JArr Cons ys by simp
      note a = "5.IH"(1) [OF Cons u(1,2) eq stop_jarr stop_jarr]
      note b = "5.IH"(2) [OF Cons u(3,4) conjunct2 [OF a]]
      show ?thesis using a b JArr Cons ys by blast
    qed
  qed (use "5.prems"(3) in \<open>auto simp: json_str_def first_char split: if_splits\<close>)
next
  case (6 fs)
  show ?case
  proof (cases w)
    case (JObj gs)
    show ?thesis
    proof (cases fs)
      case Nil
      with "6.prems"(3) JObj show ?thesis by (auto simp: json_str_def quote_chars [symmetric] quote_chars split: list.splits)
    next
      case (Cons f fs')
      with "6.prems"(3) JObj obtain l w' gs' where gs: "gs = (l, w') # gs'"
        by (cases f) (auto simp: json_str_def quote_chars [symmetric] quote_chars split: list.splits)
      obtain k v' where f: "f = (k, v')" by (cases f)
      have u: "json_utf8 v'" "json_utf8 w'" "fields_utf8 fs'" "fields_utf8 gs'" "valid_utf8 k" "valid_utf8 l"
        using "6.prems"(1,2) JObj Cons gs f by simp_all
      have eq1: "json_str k @ CHR '':'' # (jenc v' @ (jobj fs' @ r)) = json_str l @ CHR '':'' # (jenc w' @ (jobj gs' @ s))"
        using "6.prems"(3) JObj Cons gs f by simp
      note c = colon_cancel [OF eq1 u(5,6)]
      note a = "6.IH"(1) [OF Cons f [symmetric] u(1,2) conjunct2 [OF c] stop_jobj stop_jobj]
      note b = "6.IH"(2) [OF Cons f [symmetric] u(3,4) conjunct2 [OF a]]
      show ?thesis using a b c JObj Cons gs f by blast
    qed
  qed (use "6.prems"(3) in \<open>auto simp: json_str_def first_char split: if_splits\<close>)
next
  case 7
  then show ?case by (cases ys) auto
next
  case (8 x xs)
  from "8.prems"(3) obtain y ys' where ys: "ys = y # ys'" by (cases ys) auto
  have u: "json_utf8 x" "json_utf8 y" "\<forall>x \<in> set xs. json_utf8 x" "\<forall>y \<in> set ys'. json_utf8 y"
    using "8.prems"(1,2) ys by simp_all
  have eq: "jenc x @ (jarr xs @ r') = jenc y @ (jarr ys' @ s')"
    using "8.prems"(3) ys by simp
  note a = "8.IH"(1) [OF u(1,2) eq stop_jarr stop_jarr]
  note b = "8.IH"(2) [OF u(3,4) conjunct2 [OF a]]
  show ?case using a b ys by blast
next
  case 9
  then show ?case by (cases gs rule: jobj.cases) auto
next
  case (10 k v fs)
  from "10.prems"(3) obtain l w gs' where gs: "gs = (l, w) # gs'" by (cases gs rule: jobj.cases) auto
  have u: "json_utf8 v" "json_utf8 w" "fields_utf8 fs" "fields_utf8 gs'" "valid_utf8 k" "valid_utf8 l"
    using "10.prems"(1,2) gs by simp_all
  have eq1: "json_str k @ CHR '':'' # (jenc v @ (jobj fs @ r'')) = json_str l @ CHR '':'' # (jenc w @ (jobj gs' @ s''))"
    using "10.prems"(3) gs by simp
  note c = colon_cancel [OF eq1 u(5,6)]
  note a = "10.IH"(1) [OF u(1,2) conjunct2 [OF c] stop_jobj stop_jobj]
  note b = "10.IH"(2) [OF u(3,4) conjunct2 [OF a]]
  show ?case using a b c gs by blast
qed

theorem jenc_prefix_inj:
  assumes "jenc v @ r = jenc w @ s" and "json_utf8 v" and "json_utf8 w" and "stop r" and "stop s"
  shows "v = w \<and> r = s"
  using jenc_prefix_inj_aux(1) [OF assms(2,3,1,4,5)] .

corollary jenc_inj:
  assumes "jenc v = jenc w" and "json_utf8 v" and "json_utf8 w"
  shows "v = w"
  using jenc_prefix_inj [of v "[]" w "[]"] assms by simp

end
