(* ===== verification/GoTime.thy ===== *)
theory GoTime
  imports GoText
begin

text \<open>
  The use the code makes of Go's \<^verbatim>\<open>time\<close> package: parsing and printing of UTC
  RFC 3339 timestamps with an optional fraction of up to nine digits, the order of two
  instants, a difference as a saturating 64-bit duration, and \<^verbatim>\<open>time.Unix\<close>.

  A \<^verbatim>\<open>time.Time\<close> in UTC is its number of nanoseconds since the zero time
  (1 January of year 1), which is how the package stores it: 64-bit seconds counted
  from that day, and nanoseconds within the second.
\<close>

section \<open>Civil time\<close>

record civil =
  cv_year :: nat
  cv_month :: nat
  cv_day :: nat
  cv_hour :: nat
  cv_min :: nat
  cv_sec :: nat
  cv_nsec :: nat

definition leap :: "nat \<Rightarrow> bool" where
  "leap y \<longleftrightarrow> y mod 4 = 0 \<and> (y mod 100 \<noteq> 0 \<or> y mod 400 = 0)"

definition days_in :: "nat \<Rightarrow> nat \<Rightarrow> nat" where
  "days_in m y = (if m = 2 then (if leap y then 29 else 28) else [31, 28, 31, 30, 31, 30, 31, 31, 30, 31, 30, 31] ! (m - 1))"

definition days_before :: "nat \<Rightarrow> nat \<Rightarrow> nat" where
  "days_before m y =
     [0, 31, 59, 90, 120, 151, 181, 212, 243, 273, 304, 334] ! (m - 1) + (if leap y \<and> 2 < m then 1 else 0)"

definition year_days :: "nat \<Rightarrow> int" where
  "year_days y = (let p = int y - 1 in 365 * p + p div 4 - p div 100 + p div 400)"

definition civil_days :: "civil \<Rightarrow> int" where
  "civil_days c = year_days (cv_year c) + int (days_before (cv_month c) (cv_year c)) + int (cv_day c) - 1"

definition civil_secs :: "civil \<Rightarrow> int" where
  "civil_secs c = civil_days c * 86400 + int (cv_hour c * 3600 + cv_min c * 60 + cv_sec c)"

definition civil_ns :: "civil \<Rightarrow> int" where
  "civil_ns c = civil_secs c * 1000000000 + int (cv_nsec c)"

section \<open>Parsing\<close>

definition digits_val :: "string \<Rightarrow> nat option" where
  "digits_val s = (if s \<noteq> [] \<and> list_all is_digit s then Some (undec s) else None)"

definition char_at :: "string \<Rightarrow> nat \<Rightarrow> char \<Rightarrow> bool" where
  "char_at s i c \<longleftrightarrow> i < length s \<and> s ! i = c"

definition sub :: "string \<Rightarrow> nat \<Rightarrow> nat \<Rightarrow> string" where
  "sub s i n = take n (drop i s)"

text \<open>A number of exactly \<open>n\<close> digits in a closed range.\<close>

definition num_field :: "string \<Rightarrow> nat \<Rightarrow> nat \<Rightarrow> nat \<Rightarrow> nat \<Rightarrow> nat option" where
  "num_field s i n lo hi =
     (if length (sub s i n) = n then
        (case digits_val (sub s i n) of
           Some v \<Rightarrow> if lo \<le> v \<and> v \<le> hi then Some v else None
         | None \<Rightarrow> None)
      else None)"

text \<open>The fraction after the seconds and the zone: nanoseconds are the first nine
  digits, padded with zeros; only the zone \<^verbatim>\<open>Z\<close> matters to the callers.\<close>

definition frac_zone :: "string \<Rightarrow> nat option" where
  "frac_zone r =
     (if r = ''Z'' then Some 0
      else
        (let ds = butlast (tl r) in
         if r \<noteq> [] \<and> hd r = CHR ''.'' \<and> tl r \<noteq> [] \<and> last r = CHR ''Z'' \<and> ds \<noteq> [] \<and> list_all is_digit ds
         then Some (undec (take 9 (ds @ replicate 9 (CHR ''0''))))
         else None))"

text \<open>
  \<^verbatim>\<open>time.Parse(time.RFC3339Nano, s)\<close> on strings that end in \<^verbatim>\<open>Z\<close>: the strict
  RFC 3339 parser that Go tries first. The lenient parser it falls back to accepts a
  few more spellings (one-digit hours, a comma before the fraction); none of them is
  printed back unchanged, so \<^verbatim>\<open>validateTimestamp\<close> rejects them all the same.
\<close>

definition parse_rfc3339 :: "string \<Rightarrow> civil option" where
  "parse_rfc3339 s =
     (if char_at s 4 (CHR ''-'') \<and> char_at s 7 (CHR ''-'') \<and> char_at s 10 (CHR ''T'') \<and>
         char_at s 13 (CHR '':'') \<and> char_at s 16 (CHR '':'') then
        (case (num_field s 0 4 0 9999, num_field s 5 2 1 12) of
           (Some y, Some mo) \<Rightarrow>
             (case (num_field s 8 2 1 (days_in mo y), num_field s 11 2 0 23,
                    num_field s 14 2 0 59, num_field s 17 2 0 59, frac_zone (drop 19 s)) of
                (Some d, Some h, Some mi, Some se, Some ns) \<Rightarrow>
                  Some \<lparr>cv_year = y, cv_month = mo, cv_day = d, cv_hour = h, cv_min = mi,
                        cv_sec = se, cv_nsec = ns\<rparr>
              | _ \<Rightarrow> None)
         | _ \<Rightarrow> None)
      else None)"

section \<open>Printing\<close>

definition pad :: "nat \<Rightarrow> nat \<Rightarrow> string" where
  "pad w n = (let s = dec n in replicate (w - length s) (CHR ''0'') @ s)"

text \<open>The layout's \<^verbatim>\<open>.999999999\<close>: trailing zeros go, and the point with them.\<close>

definition format_frac :: "nat \<Rightarrow> string" where
  "format_frac ns =
     (if ns = 0 then []
      else CHR ''.'' # rev (dropWhile (\<lambda>c. c = CHR ''0'') (rev (pad 9 ns))))"

definition format_rfc3339 :: "civil \<Rightarrow> string" where
  "format_rfc3339 c =
     pad 4 (cv_year c) @ ''-'' @ pad 2 (cv_month c) @ ''-'' @ pad 2 (cv_day c) @ ''T'' @
     pad 2 (cv_hour c) @ '':'' @ pad 2 (cv_min c) @ '':'' @ pad 2 (cv_sec c) @
     format_frac (cv_nsec c) @ ''Z''"

section \<open>Instants\<close>

text \<open>The value of \<^verbatim>\<open>t, _ := time.Parse(...)\<close>: the zero time on an error.\<close>

definition go_time :: "string \<Rightarrow> int" where
  "go_time s = (case parse_rfc3339 s of Some c \<Rightarrow> civil_ns c | None \<Rightarrow> 0)"

definition unix_epoch :: int where
  "unix_epoch = 62135596800"

definition wrap64 :: "int \<Rightarrow> int" where
  "wrap64 x = (x + 2 ^ 63) mod 2 ^ 64 - 2 ^ 63"

text \<open>\<^verbatim>\<open>time.Unix(sec, 0)\<close>: the internal seconds are a 64-bit sum.\<close>

definition go_unix :: "int \<Rightarrow> int" where
  "go_unix sec = wrap64 (sec + unix_epoch) * 1000000000"

text \<open>\<^verbatim>\<open>t.Sub(u)\<close>: a 64-bit duration that saturates.\<close>

definition dur_sub :: "int \<Rightarrow> int \<Rightarrow> int" where
  "dur_sub t u = max (- (2 ^ 63)) (min (2 ^ 63 - 1) (t - u))"

lemma wrap64_id: "- (2 ^ 63) \<le> x \<Longrightarrow> x < 2 ^ 63 \<Longrightarrow> wrap64 x = x"
  by (simp add: wrap64_def)

lemma dur_sub_ge: "L < 2 ^ 63 \<Longrightarrow> - (2 ^ 63) < L \<Longrightarrow> L \<le> dur_sub t u \<longleftrightarrow> L \<le> t - u"
  by (auto simp: dur_sub_def)

section \<open>Canonical timestamps are ASCII\<close>

lemma ascii_dec: "ascii (dec n)"
proof -
  have "\<forall>c \<in> set (dec n). is_digit c" using dec_digits [of n] by (simp add: list_all_iff)
  then show ?thesis by (auto simp: ascii_def list_all_iff is_digit_def in_range_def)
qed

lemma ascii_sub: "ascii s \<Longrightarrow> set t \<subseteq> set s \<Longrightarrow> ascii t"
  by (auto simp: ascii_def list_all_iff)

lemma code_0 [simp]: "code (CHR ''0'') = 48" "code (CHR ''-'') = 45" "code (CHR '':'') = 58"
    "code (CHR ''T'') = 84" "code (CHR ''Z'') = 90" "code (CHR ''.'') = 46"
  by (simp_all add: code_def)

lemma ascii_pad: "ascii (pad w n)"
  by (simp add: pad_def Let_def ascii_dec) (simp add: ascii_def list_all_iff)

lemma ascii_format_frac: "ascii (format_frac n)"
proof -
  have "\<forall>c \<in> set (pad 9 n). code c < 128" using ascii_pad [of 9 n] by (simp add: ascii_def list_all_iff)
  then show ?thesis by (auto simp: format_frac_def ascii_def list_all_iff dest!: set_dropWhileD)
qed

lemma ascii_format: "ascii (format_rfc3339 c)"
  by (simp add: format_rfc3339_def ascii_pad ascii_format_frac)

end
