(* ===== verification/McShape.thy ===== *)
theory McShape
  imports Prelude
begin

text \<open>
  The public shapes of the ceremony's binary artifacts and the exact sizes of their
  compressed gnark encodings, from \<^verbatim>\<open>internal/mpcceremony/preflight.go\<close>. All
  arithmetic is on unsigned 64-bit words with the overflow checks of the source; the
  results are the \<^verbatim>\<open>int64\<close> lengths, as integers.
\<close>

section \<open>Checked arithmetic\<close>

definition checkedAdd :: "u64 \<Rightarrow> u64 \<Rightarrow> u64 res" where
  "checkedAdd a b =
     (if uint a + uint b < 2 ^ 64 then Inr (a + b) else Inl (Err ''integer addition overflow''))"

definition checkedMul :: "u64 \<Rightarrow> u64 \<Rightarrow> u64 res" where
  "checkedMul a b =
     (if uint a * uint b < 2 ^ 64 then Inr (a * b) else Inl (Err ''integer multiplication overflow''))"

definition checkedSub :: "u64 \<Rightarrow> u64 \<Rightarrow> u64 res" where
  "checkedSub a b =
     (if b > a then Inl (Err ''integer subtraction underflow'') else Inr (a - b))"

definition MaxArtifactSize :: int where
  "MaxArtifactSize = 16 * 2 ^ 30"

definition checkedArtifactSize :: "u64 \<Rightarrow> int res" where
  "checkedArtifactSize n =
     (if uint n > 2 ^ 63 - 1 then Inl (Err ''byte length overflows int64'')
      else if uint n > MaxArtifactSize then Inl (Err ''MPC artifact exceeds size limit'')
      else Inr (uint n))"

lemma uint_u64_bounds: "0 \<le> uint (a :: u64)" "uint (a :: u64) < 18446744073709551616"
proof -
  have "uint a < 2 ^ LENGTH(64)" by (rule unsigned_less)
  then show "uint a < 18446744073709551616" by simp
qed simp

lemma uint_u64_of_int: "0 \<le> x \<Longrightarrow> x < 18446744073709551616 \<Longrightarrow> uint (word_of_int x :: u64) = x"
  by (simp add: uint_word_of_int)

lemma uint_u64_add: "uint a + uint b < 18446744073709551616 \<Longrightarrow> uint (a + b :: u64) = uint a + uint b"
  by (simp add: uint_word_ariths)

lemma uint_u64_mul: "uint a * uint b < 18446744073709551616 \<Longrightarrow> uint (a * b :: u64) = uint a * uint b"
  by (simp add: uint_word_ariths)

lemma uint_u64_sub: "uint b \<le> uint a \<Longrightarrow> uint (a - b :: u64) = uint a - uint b"
proof -
  assume le: "uint b \<le> uint a"
  have "uint a - uint b < 18446744073709551616"
    using uint_u64_bounds [of a] uint_u64_bounds [of b] by linarith
  with le show ?thesis by (simp add: uint_word_ariths)
qed

lemma checkedAdd_ok [ok_iff]:
  "checkedAdd a b = Inr c \<longleftrightarrow> uint a + uint b < 2 ^ 64 \<and> uint c = uint a + uint b"
  using uint_u64_add [of a b] by (auto simp: checkedAdd_def word_uint_eq_iff)

lemma checkedMul_ok [ok_iff]:
  "checkedMul a b = Inr c \<longleftrightarrow> uint a * uint b < 2 ^ 64 \<and> uint c = uint a * uint b"
  using uint_u64_mul [of a b] by (auto simp: checkedMul_def word_uint_eq_iff)

lemma checkedSub_ok [ok_iff]:
  "checkedSub a b = Inr c \<longleftrightarrow> uint b \<le> uint a \<and> uint c = uint a - uint b"
  using uint_u64_sub [of b a] by (auto simp: checkedSub_def word_less_def word_uint_eq_iff)

lemma checkedArtifactSize_ok [ok_iff]:
  "checkedArtifactSize n = Inr k \<longleftrightarrow> uint n \<le> MaxArtifactSize \<and> k = uint n"
  by (auto simp: checkedArtifactSize_def MaxArtifactSize_def)

section \<open>Domains\<close>

definition MaxDomainN :: u64 where
  "MaxDomainN = 2 ^ 32"

definition validateDomain :: "u64 \<Rightarrow> unit res" where
  "validateDomain n =
     fail_if (n < 2 \<or> n > MaxDomainN \<or> n AND (n - 1) \<noteq> 0) ''domain must be a power of two''"

section \<open>Shapes\<close>

record Phase1Shape =
  p1s_DomainN :: u64
  p1s_ChallengeLength :: u8

record CommonsShape =
  cs_DomainN :: u64

record Phase2Shape =
  p2s_Commitments :: u16
  p2s_PKK :: u32
  p2s_Z :: u32
  p2s_SigmaCKK :: "u32 slice"
  p2s_ChallengeLength :: u8

definition MaxPhase2Commitments :: u16 where
  "MaxPhase2Commitments = 255"

definition g1CompressedSize :: u64 where "g1CompressedSize = 48"
definition g2CompressedSize :: u64 where "g2CompressedSize = 96"

definition ExpectedCommonsSize :: "CommonsShape \<Rightarrow> int res" where
  "ExpectedCommonsSize s =
     bind_r (validateDomain (cs_DomainN s)) (\<lambda>_.
     bind_r (checkedMul (cs_DomainN s) 288) (\<lambda>nBytes.
     bind_r (checkedSub nBytes 88) (\<lambda>nBytes.
     checkedArtifactSize nBytes)))"

definition ExpectedPhase1Size :: "Phase1Shape \<Rightarrow> int res" where
  "ExpectedPhase1Size s =
     bind_r (ExpectedCommonsSize \<lparr>cs_DomainN = p1s_DomainN s\<rparr>) (\<lambda>commons.
     bind_r (checkedAdd (word_of_int commons) (3 * (g1CompressedSize + g2CompressedSize))) (\<lambda>nBytes.
     bind_r (checkedAdd nBytes (1 + ucast (p1s_ChallengeLength s))) (\<lambda>nBytes.
     checkedArtifactSize nBytes)))"

fun add_points :: "u64 \<Rightarrow> u32 list \<Rightarrow> u64 res" where
  "add_points acc [] = Inr acc"
| "add_points acc (n # ns) =
     bind_r (checkedAdd acc (ucast n)) (\<lambda>acc'. add_points acc' ns)"

definition ExpectedPhase2Size :: "Phase2Shape \<Rightarrow> int res" where
  "ExpectedPhase2Size s =
     bind_r (fail_if (p2s_Commitments s > MaxPhase2Commitments) ''Phase 2 commitments exceed maximum'') (\<lambda>_.
     bind_r (fail_if (length (slice_list (p2s_SigmaCKK s)) \<noteq> unat (p2s_Commitments s))
               ''SigmaCKK lengths for commitments'') (\<lambda>_.
     bind_r (add_points (ucast (p2s_PKK s) + ucast (p2s_Z s)) (slice_list (p2s_SigmaCKK s))) (\<lambda>totalPoints.
     bind_r (checkedMul totalPoints g1CompressedSize) (\<lambda>nBytes.
     bind_r (checkedAdd nBytes (299 + ucast (p2s_ChallengeLength s))) (\<lambda>nBytes.
     bind_r (checkedMul (ucast (p2s_Commitments s)) 244) (\<lambda>perCommitment.
     bind_r (checkedAdd nBytes perCommitment) (\<lambda>nBytes.
     checkedArtifactSize nBytes)))))))"

definition Phase1Shape_Validate :: "Phase1Shape \<Rightarrow> unit res" where
  "Phase1Shape_Validate s =
     bind_r (validateDomain (p1s_DomainN s)) (\<lambda>_. bind_r (ExpectedPhase1Size s) (\<lambda>_. Inr ()))"

definition CommonsShape_Validate :: "CommonsShape \<Rightarrow> unit res" where
  "CommonsShape_Validate s =
     bind_r (validateDomain (cs_DomainN s)) (\<lambda>_. bind_r (ExpectedCommonsSize s) (\<lambda>_. Inr ()))"

definition Phase2Shape_Validate :: "Phase2Shape \<Rightarrow> unit res" where
  "Phase2Shape_Validate s =
     bind_r (fail_if (p2s_Commitments s > MaxPhase2Commitments) ''Phase 2 commitments exceed maximum'') (\<lambda>_.
     bind_r (fail_if (length (slice_list (p2s_SigmaCKK s)) \<noteq> unat (p2s_Commitments s))
               ''SigmaCKK lengths for commitments'') (\<lambda>_.
     bind_r (ExpectedPhase2Size s) (\<lambda>_. Inr ())))"

section \<open>What the sizes are\<close>

text \<open>The closed forms of the encoding sizes, in unbounded integers.\<close>

definition domain_ok :: "u64 \<Rightarrow> bool" where
  "domain_ok n \<longleftrightarrow> (\<exists>k. 1 \<le> k \<and> k \<le> 32 \<and> unat n = 2 ^ k)"

lemma validateDomain_ok [ok_iff]: "validateDomain n = Inr u \<longleftrightarrow> domain_ok n"
proof -
  have "validateDomain n = Inr u \<longleftrightarrow> 2 \<le> unat n \<and> unat n \<le> 2 ^ 32 \<and> n AND (n - 1) = 0"
    by (auto simp: validateDomain_def MaxDomainN_def word_less_nat_alt not_less)
  also have "\<dots> \<longleftrightarrow> 2 \<le> unat n \<and> unat n \<le> 2 ^ 32 \<and> (\<exists>k. unat n = 2 ^ k)"
    using word_and_pred_0 [of n] by (cases "n = 0") auto
  also have "\<dots> \<longleftrightarrow> domain_ok n"
  proof
    assume a: "2 \<le> unat n \<and> unat n \<le> 2 ^ 32 \<and> (\<exists>k. unat n = 2 ^ k)"
    then obtain k where k: "unat n = 2 ^ k" by blast
    have "(2::nat) ^ 1 \<le> 2 ^ k" "(2::nat) ^ k \<le> 2 ^ 32" using a k by simp_all
    then have "1 \<le> k" "k \<le> 32" by (simp_all only: power_increasing_iff one_less_numeral_iff semiring_norm)
    with k show "domain_ok n" by (auto simp: domain_ok_def)
  next
    assume "domain_ok n"
    then obtain k where k: "1 \<le> k" "k \<le> 32" "unat n = 2 ^ k" by (auto simp: domain_ok_def)
    have "(2::nat) ^ 1 \<le> 2 ^ k" "(2::nat) ^ k \<le> 2 ^ 32" using k(1,2) by (intro power_increasing; simp)+
    with k show "2 \<le> unat n \<and> unat n \<le> 2 ^ 32 \<and> (\<exists>k. unat n = 2 ^ k)" by auto
  qed
  finally show ?thesis .
qed

definition commons_size :: "u64 \<Rightarrow> int" where
  "commons_size n = 288 * uint n - 88"

definition phase1_size :: "u64 \<Rightarrow> u8 \<Rightarrow> int" where
  "phase1_size n c = 3 * (48 + 96) + commons_size n + 1 + uint c"

definition phase2_size :: "Phase2Shape \<Rightarrow> int" where
  "phase2_size s = 48 * (uint ((p2s_PKK s)) + uint ((p2s_Z s)) + (\<Sum>n \<leftarrow> slice_list (p2s_SigmaCKK s). uint n))
     + 299 + uint ((p2s_ChallengeLength s)) + 244 * uint ((p2s_Commitments s))"

lemma domain_ok_bounds: "domain_ok n \<Longrightarrow> 2 \<le> unat n \<and> unat n \<le> 4294967296"
proof -
  assume "domain_ok n"
  then obtain k where k: "1 \<le> k" "k \<le> 32" "unat n = 2 ^ k" by (auto simp: domain_ok_def)
  have "(2::nat) ^ 1 \<le> 2 ^ k" "(2::nat) ^ k \<le> 2 ^ 32" using k(1,2) by (intro power_increasing; simp)+
  with k show ?thesis by simp
qed

lemma domain_ok_uint: "domain_ok n \<Longrightarrow> 2 \<le> uint n \<and> uint n \<le> 4294967296"
proof -
  assume "domain_ok n"
  then have "int 2 \<le> int (unat n)" "int (unat n) \<le> int 4294967296"
    using domain_ok_bounds [of n] by (simp_all only: of_nat_le_iff)
  then show ?thesis by simp
qed

lemma uint_ucast_u8 [simp]: "uint (ucast (c :: u8) :: u64) = uint c"
  by (rule uint_ucast_up) simp

lemma uint_u8_less: "uint (c :: u8) < 256"
proof -
  have "uint c < 2 ^ LENGTH(8)" by (rule unsigned_less)
  then show ?thesis by simp
qed

lemma ExpectedCommonsSize_ok [ok_iff]:
  "ExpectedCommonsSize s = Inr k \<longleftrightarrow>
     domain_ok (cs_DomainN s) \<and> k = commons_size (cs_DomainN s) \<and> k \<le> MaxArtifactSize"
proof (cases "domain_ok (cs_DomainN s)")
  case True
  note b = domain_ok_uint [OF True]
  have m: "uint (cs_DomainN s * 288) = uint (cs_DomainN s) * 288"
    using b by (subst uint_u64_mul) simp_all
  have d: "uint (cs_DomainN s * 288 - 88) = uint (cs_DomainN s) * 288 - 88"
    using b by (subst uint_u64_sub) (simp_all add: m)
  show ?thesis
    using b True
    by (auto simp: ExpectedCommonsSize_def ok_iff checkedMul_def checkedSub_def word_less_def m d commons_size_def)
qed (simp add: ExpectedCommonsSize_def ok_iff)

lemma ExpectedPhase1Size_ok [ok_iff]:
  "ExpectedPhase1Size s = Inr k \<longleftrightarrow>
     domain_ok (p1s_DomainN s) \<and> k = phase1_size (p1s_DomainN s) (p1s_ChallengeLength s) \<and> k \<le> MaxArtifactSize"
proof (cases "domain_ok (p1s_DomainN s) \<and> commons_size (p1s_DomainN s) \<le> MaxArtifactSize")
  case True
  note b = domain_ok_uint [OF conjunct1 [OF True]] and u8 = uint_u8_less [of "p1s_ChallengeLength s"]
  let ?c = "word_of_int (commons_size (p1s_DomainN s)) :: u64"
  have c: "uint ?c = commons_size (p1s_DomainN s)"
    using b True by (intro uint_u64_of_int) (simp_all add: commons_size_def MaxArtifactSize_def)
  have u: "uint (1 + ucast (p1s_ChallengeLength s) :: u64) = 1 + uint (p1s_ChallengeLength s)"
    using u8 by (subst uint_u64_add) simp_all
  have a: "uint (?c + 432) = commons_size (p1s_DomainN s) + 432"
    using True by (subst uint_u64_add) (simp_all add: c MaxArtifactSize_def)
  have a': "uint (?c + 432 + (1 + ucast (p1s_ChallengeLength s))) =
      commons_size (p1s_DomainN s) + 433 + uint (p1s_ChallengeLength s)"
    using True u8 by (subst uint_u64_add) (simp_all only: a u, simp_all add: MaxArtifactSize_def)
  have p: "commons_size (p1s_DomainN s) + 433 + uint (p1s_ChallengeLength s) =
      phase1_size (p1s_DomainN s) (p1s_ChallengeLength s)"
    by (simp add: phase1_size_def)
  have e1: "checkedAdd ?c (3 * (g1CompressedSize + g2CompressedSize)) = Inr (?c + 432)"
    using True by (simp add: checkedAdd_def c g1CompressedSize_def g2CompressedSize_def MaxArtifactSize_def)
  have e2: "checkedAdd (?c + 432) (1 + ucast (p1s_ChallengeLength s)) =
      Inr (?c + 432 + (1 + ucast (p1s_ChallengeLength s)))"
    unfolding checkedAdd_def a u using True u8 by (simp add: MaxArtifactSize_def)
  have "ExpectedCommonsSize \<lparr>cs_DomainN = p1s_DomainN s\<rparr> = Inr (commons_size (p1s_DomainN s))"
    using True by (simp add: ExpectedCommonsSize_ok)
  then have eq: "ExpectedPhase1Size s = checkedArtifactSize (?c + 432 + (1 + ucast (p1s_ChallengeLength s)))"
    by (simp only: ExpectedPhase1Size_def bind_r.simps e1 e2)
  show ?thesis
    unfolding eq checkedArtifactSize_ok a' p using True by auto
next
  case False
  have "phase1_size (p1s_DomainN s) (p1s_ChallengeLength s) \<le> MaxArtifactSize \<Longrightarrow>
      commons_size (p1s_DomainN s) \<le> MaxArtifactSize"
  proof -
    assume "phase1_size (p1s_DomainN s) (p1s_ChallengeLength s) \<le> MaxArtifactSize"
    moreover have "commons_size (p1s_DomainN s) + 433 + 0 \<le> phase1_size (p1s_DomainN s) (p1s_ChallengeLength s)"
      by (simp add: phase1_size_def)
    ultimately show "commons_size (p1s_DomainN s) \<le> MaxArtifactSize" by linarith
  qed
  with False show ?thesis by (auto simp: ExpectedPhase1Size_def ok_iff)
qed

lemma add_points_ok:
  "add_points acc ns = Inr t \<longleftrightarrow>
     uint acc + (\<Sum>n \<leftarrow> ns. uint n) < 2 ^ 64 \<and> uint t = uint acc + (\<Sum>n \<leftarrow> ns. uint n)"
proof (induction ns arbitrary: acc)
  case Nil
  show ?case using uint_u64_bounds [of acc] by (auto simp: word_uint_eq_iff)
next
  case (Cons n ns)
  have n: "uint (ucast n :: u64) = uint n" by (rule uint_ucast_up) simp
  have pos: "0 \<le> (\<Sum>n \<leftarrow> ns. uint n)" by (rule sum_list_nonneg) auto
  show ?case
  proof (cases "uint acc + uint n < 2 ^ 64")
    case True
    then have "uint (acc + ucast n) = uint acc + uint n"
      using uint_u64_add [of acc "ucast n"] by (simp add: n)
    with True Cons.IH [of "acc + ucast n"] show ?thesis
      by (simp add: checkedAdd_def n add.assoc)
  next
    case False
    with pos show ?thesis by (auto simp: checkedAdd_def n)
  qed
qed

lemma ExpectedPhase2Size_ok [ok_iff]:
  "ExpectedPhase2Size s = Inr k \<longleftrightarrow>
     p2s_Commitments s \<le> MaxPhase2Commitments \<and>
     length (slice_list (p2s_SigmaCKK s)) = unat (p2s_Commitments s) \<and>
     k = phase2_size s \<and> k \<le> MaxArtifactSize"
proof -
  let ?S = "\<Sum>n \<leftarrow> slice_list (p2s_SigmaCKK s). uint n"
  let ?P = "uint (p2s_PKK s) + uint (p2s_Z s)"
  let ?a = "ucast (p2s_PKK s) + ucast (p2s_Z s) :: u64"
  let ?cl = "299 + ucast (p2s_ChallengeLength s) :: u64"
  let ?pc = "ucast (p2s_Commitments s) * 244 :: u64"
  have c1: "uint (ucast (x :: u32) :: u64) = uint x" for x by (rule uint_ucast_up) simp
  have c2: "uint (ucast (x :: u16) :: u64) = uint x" for x by (rule uint_ucast_up) simp
  have b32: "uint (x :: u32) < 4294967296" for x using unsigned_less [of x, where ?'a = int] by simp
  have b16: "uint (x :: u16) < 65536" for x using unsigned_less [of x, where ?'a = int] by simp
  note b8 = uint_u8_less [of "p2s_ChallengeLength s"] and bP = b32 [of "p2s_PKK s"] b32 [of "p2s_Z s"]
  have a: "uint ?a = ?P" using bP by (subst uint_u64_add) (simp_all add: c1)
  have cl: "uint ?cl = 299 + uint (p2s_ChallengeLength s)" using b8 by (subst uint_u64_add) simp_all
  have pc: "uint ?pc = uint (p2s_Commitments s) * 244"
    using b16 [of "p2s_Commitments s"] by (subst uint_u64_mul) (simp_all add: c2)
  have pos: "0 \<le> ?S" "0 \<le> ?P" by (auto intro: sum_list_nonneg)
  have ex: "\<exists>x :: u64. uint x = k" if "0 \<le> k" "k \<le> MaxArtifactSize" for k
    using that uint_u64_of_int [of k] by (intro exI [of _ "word_of_int k"]) (simp add: MaxArtifactSize_def)
  have run: "ExpectedPhase2Size s = Inr k \<longleftrightarrow>
      p2s_Commitments s \<le> MaxPhase2Commitments \<and>
      length (slice_list (p2s_SigmaCKK s)) = unat (p2s_Commitments s) \<and>
      (\<exists>t n n2 m n3. add_points ?a (slice_list (p2s_SigmaCKK s)) = Inr t \<and> checkedMul t g1CompressedSize = Inr n \<and>
         checkedAdd n ?cl = Inr n2 \<and> checkedMul (ucast (p2s_Commitments s)) 244 = Inr m \<and>
         checkedAdd n2 m = Inr n3 \<and> checkedArtifactSize n3 = Inr k)"
    by (simp add: ExpectedPhase2Size_def not_less)
  show ?thesis
  proof (intro iffI)
    assume "ExpectedPhase2Size s = Inr k"
    then show "p2s_Commitments s \<le> MaxPhase2Commitments \<and>
        length (slice_list (p2s_SigmaCKK s)) = unat (p2s_Commitments s) \<and> k = phase2_size s \<and> k \<le> MaxArtifactSize"
      unfolding run
      by (auto simp: add_points_ok checkedMul_ok checkedAdd_ok checkedArtifactSize_ok a cl c2 g1CompressedSize_def phase2_size_def)
  next
    assume r: "p2s_Commitments s \<le> MaxPhase2Commitments \<and>
        length (slice_list (p2s_SigmaCKK s)) = unat (p2s_Commitments s) \<and> k = phase2_size s \<and> k \<le> MaxArtifactSize"
    have k: "48 * (?P + ?S) + 299 + uint (p2s_ChallengeLength s) + uint (p2s_Commitments s) * 244 = k"
      using r by (simp add: phase2_size_def)
    have max: "k \<le> MaxArtifactSize" using r by simp
    have nn: "0 \<le> uint (p2s_ChallengeLength s)" "0 \<le> uint (p2s_Commitments s) * 244" by simp_all
    have aux: "p + q \<le> M \<and> (p + q) * 48 \<le> M \<and> (p + q) * 48 + (299 + c) \<le> M \<and> m \<le> M"
      if "0 \<le> p" "0 \<le> q" "0 \<le> c" "0 \<le> m" "48 * (p + q) + 299 + c + m \<le> M" for p q c m M :: int
      using that by auto
    have aux': "0 \<le> p + q \<and> 0 \<le> (p + q) * 48 \<and> 0 \<le> (p + q) * 48 + (299 + c) \<and> 0 \<le> 48 * (p + q) + 299 + c + m"
      if "0 \<le> p" "0 \<le> q" "0 \<le> c" "0 \<le> m" for p q c m :: int
      using that by auto
    have le: "?P + ?S \<le> MaxArtifactSize" "(?P + ?S) * 48 \<le> MaxArtifactSize"
        "(?P + ?S) * 48 + (299 + uint (p2s_ChallengeLength s)) \<le> MaxArtifactSize"
        "uint (p2s_Commitments s) * 244 \<le> MaxArtifactSize"
      using aux [OF pos(2,1) nn] k max by simp_all
    have ge: "0 \<le> ?P + ?S" "0 \<le> (?P + ?S) * 48" "0 \<le> (?P + ?S) * 48 + (299 + uint (p2s_ChallengeLength s))"
        "0 \<le> k"
      using aux' [OF pos(2,1) nn] k by simp_all
    have M: "MaxArtifactSize = 17179869184" by (simp add: MaxArtifactSize_def)
    obtain t :: u64 where t: "uint t = ?P + ?S" using ex [OF ge(1) le(1)] by blast
    obtain n :: u64 where n: "uint n = (?P + ?S) * 48" using ex [OF ge(2) le(2)] by blast
    obtain n2 :: u64 where n2: "uint n2 = (?P + ?S) * 48 + (299 + uint (p2s_ChallengeLength s))"
      using ex [OF ge(3) le(3)] by blast
    obtain n3 :: u64 where n3: "uint n3 = k" using ex [OF ge(4) max] by blast
    show "ExpectedPhase2Size s = Inr k"
      unfolding run
    proof (intro conjI exI)
      show "add_points ?a (slice_list (p2s_SigmaCKK s)) = Inr t"
        unfolding add_points_ok a t using le(1) unfolding M by simp
      show "checkedMul t g1CompressedSize = Inr n"
        using le(2) unfolding checkedMul_ok t n M g1CompressedSize_def by simp
      show "checkedAdd n ?cl = Inr n2"
        using le(3) unfolding checkedAdd_ok cl n n2 M by simp
      show "checkedMul (ucast (p2s_Commitments s)) 244 = Inr ?pc"
        using le(4) unfolding checkedMul_ok pc c2 M by simp
      show "checkedAdd n2 ?pc = Inr n3"
        using k max unfolding checkedAdd_ok pc n2 n3 M by simp
      show "checkedArtifactSize n3 = Inr k"
        using n3 max by (simp add: checkedArtifactSize_ok)
    qed (use r in simp_all)
  qed
qed

end
