(* ===== verification/McModel.thy ===== *)
theory McModel
  imports GoJson GoTime McShape
begin

text \<open>
  \<^verbatim>\<open>internal/mpcceremony/model.go\<close>: the field validators, the digests and
  artifact references, identities, phase policies, and the circuit, software and beacon
  bindings of a ceremony definition, each with its JSON encoding and its
  \<^verbatim>\<open>Validate\<close>. SHA-256 and BLAKE2b-256 are parameters \<open>H\<close> and \<open>B\<close>
  (functions on byte strings); nothing here assumes more of them than a name.

  Where Go ranges over a map of checks, the order in which it meets them is not fixed;
  the models use the order of the map literal. Only the error reported depends on it.
\<close>

type_synonym hash = "bytes \<Rightarrow> bytes"

section \<open>Constants\<close>

definition DefinitionSchema :: string where "DefinitionSchema = ''proof-tool-mpc-ceremony-definition-v1''"
definition DetachedSignatureSchema :: string where "DetachedSignatureSchema = ''proof-tool-mpc-detached-signature-v1''"
definition ContributionAttestationSchema :: string where
  "ContributionAttestationSchema = ''proof-tool-mpc-contribution-attestation-v1''"
definition ErasureAttestationSchema :: string where "ErasureAttestationSchema = ''proof-tool-mpc-erasure-attestation-v1''"
definition ChainSchema :: string where "ChainSchema = ''proof-tool-mpc-accepted-chain-v1''"
definition ChainRecordSchema :: string where "ChainRecordSchema = ''proof-tool-mpc-acceptance-record-v1''"
definition CloseRecordSchema :: string where "CloseRecordSchema = ''proof-tool-mpc-close-record-v1''"
definition BeaconRecordSchema :: string where "BeaconRecordSchema = ''proof-tool-mpc-beacon-record-v1''"
definition SealRecordSchema :: string where "SealRecordSchema = ''proof-tool-mpc-seal-record-v1''"
definition AuditRecordSchema :: string where "AuditRecordSchema = ''proof-tool-mpc-audit-record-v1''"
definition FinalTranscriptSchema :: string where "FinalTranscriptSchema = ''proof-tool-mpc-final-transcript-v1''"

definition KeyVersionDestinationV3 :: string where "KeyVersionDestinationV3 = ''ownership-destination-v3''"
definition CircuitIDDestinationV3 :: string where
  "CircuitIDDestinationV3 = ''root-ownership-destination-v3/bls12-381/groth16''"
definition CurveBLS12381 :: string where "CurveBLS12381 = ''BLS12-381''"
definition BackendGroth16 :: string where "BackendGroth16 = ''groth16''"
definition GnarkVersion :: string where "GnarkVersion = ''v0.16.3''"
definition GnarkCryptoVersion :: string where "GnarkCryptoVersion = ''v0.21.0''"
definition DrandVersion :: string where "DrandVersion = ''v2.1.6''"
definition ProductionGoVersion :: string where "ProductionGoVersion = ''go1.26.5''"
definition ProductionGOOS :: string where "ProductionGOOS = ''linux''"
definition ProductionGOARCH :: string where "ProductionGOARCH = ''amd64''"
definition ProductionGOAMD64 :: string where "ProductionGOAMD64 = ''v1''"
definition ProductionCompiler :: string where "ProductionCompiler = ''gc''"
definition ProductionBuildMode :: string where "ProductionBuildMode = ''exe''"
definition SignatureAlgorithm :: string where "SignatureAlgorithm = ''Ed25519''"
definition BeaconExtractionV1 :: string where "BeaconExtractionV1 = ''sha256-domain-separated-length-prefixed-v1''"
definition BeaconProviderDrand :: string where "BeaconProviderDrand = ''drand''"
definition BeaconNetworkQuicknet :: string where "BeaconNetworkQuicknet = ''quicknet-mainnet''"
definition BeaconQuicknetChainHash :: string where
  "BeaconQuicknetChainHash = ''52db9ba70e0cc0f6eaf7803dd07447a1f5477735fd3f661792ba94600c84e971''"
definition BeaconQuicknetPublicKey :: string where
  "BeaconQuicknetPublicKey = ''83cf0f2896adee7eb8b5f01fcad3912212c437e0073e911fb90022d3e760183c8c4b450b6a0a6c3ac6a5776a2d1064510d1fec758c921cc22b0e17e63aaf4bcb5ed66304de9cf809bd274ca73bab4af5a6e9c76a4bc09e76eae8991ef5ece45a''"
definition BeaconQuicknetScheme :: string where "BeaconQuicknetScheme = ''bls-unchained-g1-rfc9380''"
definition BeaconQuicknetGenesis :: int where "BeaconQuicknetGenesis = 1692803367"
definition BeaconQuicknetPeriod :: u32 where "BeaconQuicknetPeriod = 3"
definition ModeRehearsal :: string where "ModeRehearsal = ''rehearsal''"
definition ModeProduction :: string where "ModeProduction = ''production''"
definition MaxParticipants :: nat where "MaxParticipants = 20"

type_synonym Phase = string

definition Phase1 :: Phase where "Phase1 = ''phase1''"
definition Phase2 :: Phase where "Phase2 = ''phase2''"

definition Phase_Validate :: "Phase \<Rightarrow> unit res" where
  "Phase_Validate p = fail_if (p \<noteq> Phase1 \<and> p \<noteq> Phase2) ''unsupported phase''"

lemma Phase_Validate_ok [simp, ok_iff]: "Phase_Validate p = Inr u \<longleftrightarrow> p = Phase1 \<or> p = Phase2"
  by (simp add: Phase_Validate_def)

lemma phases_differ [simp]: "Phase1 \<noteq> Phase2" "Phase2 \<noteq> Phase1"
  by (simp_all add: Phase1_def Phase2_def)

lemma utf8_phases [simp]: "valid_utf8 Phase1" "valid_utf8 Phase2"
  by (simp_all add: Phase1_def Phase2_def code_def)

section \<open>Field validators\<close>

definition validateHex :: "string \<Rightarrow> nat \<Rightarrow> unit res" where
  "validateHex value n =
     all_ok
      [fail_if (length value \<noteq> n * 2) ''must contain lowercase hexadecimal bytes'',
       fail_if (value \<noteq> to_lower value) ''must use lowercase hexadecimal'',
       (case hex_decode value of
          None \<Rightarrow> Inl (Err ''invalid hexadecimal value'')
        | Some d \<Rightarrow> fail_if (length d \<noteq> n) ''invalid hexadecimal value'')]"

definition validateTaggedHex :: "string \<Rightarrow> string \<Rightarrow> nat \<Rightarrow> unit res" where
  "validateTaggedHex value prefix n =
     all_ok [fail_if (\<not> has_prefix value prefix) ''must start with prefix'',
             validateHex (trim_prefix value prefix) n]"

definition decodeFixedHex :: "string \<Rightarrow> nat \<Rightarrow> bytes res" where
  "decodeFixedHex value n =
     bind_r (validateHex value n) (\<lambda>_.
       case hex_decode value of None \<Rightarrow> Inl (Err ''hex'') | Some d \<Rightarrow> Inr d)"

definition id_char :: "char \<Rightarrow> bool" where
  "id_char c \<longleftrightarrow> in_range 97 122 c \<or> in_range 48 57 c \<or>
     c = CHR ''-'' \<or> c = CHR ''_'' \<or> c = CHR ''.'' \<or> c = CHR '':''"

text \<open>Go ranges over runes: a byte of 128 or more is never an allowed rune.\<close>

definition validateID :: "string \<Rightarrow> string \<Rightarrow> unit res" where
  "validateID label value =
     all_ok [fail_if (value = [] \<or> 128 < length value) (label @ '' must contain 1 to 128 characters''),
             fail_if (\<not> list_all id_char value) (label @ '' contains an unsupported character'')]"

definition validateArtifactName :: "string \<Rightarrow> unit res" where
  "validateArtifactName value =
     all_ok
      [fail_if (value = [] \<or> 512 < length value \<or> \<not> valid_utf8 value)
         ''artifact name must be non-empty valid UTF-8 of at most 512 bytes'',
       fail_if (backslash \<in> set value \<or> has_prefix value ''/'' \<or> path_clean value \<noteq> value \<or> value = ''.'')
         ''artifact name must be a clean relative logical path'']"

definition validateTimestamp :: "string \<Rightarrow> string \<Rightarrow> unit res" where
  "validateTimestamp label value =
     all_ok
      [fail_if (value = [] \<or> \<not> has_suffix value ''Z'') (label @ '' must be a UTC RFC3339 timestamp ending in Z''),
       (case parse_rfc3339 value of
          None \<Rightarrow> Inl (Wrap label (Err ''parse''))
        | Some parsed \<Rightarrow> fail_if (format_rfc3339 parsed \<noteq> value)
                           (label @ '' is not a canonical RFC3339 timestamp''))]"

definition isPowerOfTwo :: "u64 \<Rightarrow> bool" where
  "isPowerOfTwo value \<longleftrightarrow> value \<noteq> 0 \<and> value AND (value - 1) = 0"

definition taggedSHA256 :: "hash \<Rightarrow> bytes \<Rightarrow> string" where
  "taggedSHA256 H data = ''sha256:'' @ hex_encode (H data)"

definition validateHashID :: "string \<Rightarrow> string \<Rightarrow> unit res" where
  "validateHashID label value = wrap label (validateTaggedHex value ''sha256:'' 32)"

text \<open>What the validators accept.\<close>

definition hex_of_len :: "nat \<Rightarrow> string \<Rightarrow> bool" where
  "hex_of_len n s \<longleftrightarrow> length s = 2 * n \<and> list_all lower_hex_char s"

definition tagged_hex :: "string \<Rightarrow> nat \<Rightarrow> string \<Rightarrow> bool" where
  "tagged_hex p n s \<longleftrightarrow> (\<exists>h. s = p @ h \<and> hex_of_len n h)"

lemma lower_hex_not_upper: "lower_hex_char c \<Longrightarrow> \<not> in_range 65 90 c"
  by (auto simp: lower_hex_char_def in_range_def)

lemma unhex_not_upper: "unhex c \<noteq> None \<Longrightarrow> \<not> in_range 65 90 c \<Longrightarrow> lower_hex_char c"
  by (auto simp: unhex_def lower_hex_char_def in_range_def split: if_splits)

lemma validateHex_ok [simp, ok_iff]: "validateHex v n = Inr u \<longleftrightarrow> hex_of_len n v"
proof
  assume "validateHex v n = Inr u"
  then obtain d where l: "length v = n * 2" and low: "to_lower v = v" and d: "hex_decode v = Some d"
    by (auto simp: validateHex_def split: option.splits)
  have "list_all lower_hex_char v"
    using low hex_decode_unhex [OF d] by (auto simp: to_lower_fixed list_all_iff intro: unhex_not_upper)
  with l show "hex_of_len n v" by (simp add: hex_of_len_def)
next
  assume h: "hex_of_len n v"
  then obtain d where d: "hex_decode v = Some d"
    using hex_decode_lower_total [of v] by (auto simp: hex_of_len_def)
  have "to_lower v = v"
    using h by (auto simp: to_lower_fixed hex_of_len_def list_all_iff dest: lower_hex_not_upper)
  with h d hex_decode_length [OF d] show "validateHex v n = Inr u"
    by (simp add: validateHex_def hex_of_len_def)
qed

lemma validateTaggedHex_ok [simp, ok_iff]: "validateTaggedHex v p n = Inr u \<longleftrightarrow> tagged_hex p n v"
  by (auto simp: validateTaggedHex_def tagged_hex_def has_prefix_iff)

lemma validateHashID_ok [simp, ok_iff]: "validateHashID l v = Inr u \<longleftrightarrow> tagged_hex ''sha256:'' 32 v"
  by (simp add: validateHashID_def)

lemma decodeFixedHex_ok [simp, ok_iff]:
  "decodeFixedHex v n = Inr d \<longleftrightarrow> hex_of_len n v \<and> v = hex_encode d"
proof
  assume "decodeFixedHex v n = Inr d"
  then have "hex_of_len n v" "hex_decode v = Some d"
    by (auto simp: decodeFixedHex_def split: option.splits)
  then show "hex_of_len n v \<and> v = hex_encode d"
    by (simp add: hex_encode_decode hex_of_len_def)
qed (auto simp: decodeFixedHex_def)

lemma validateID_ok [simp, ok_iff]:
  "validateID l v = Inr u \<longleftrightarrow> v \<noteq> [] \<and> length v \<le> 128 \<and> list_all id_char v"
  by (auto simp: validateID_def)

definition timestamp_ok :: "string \<Rightarrow> bool" where
  "timestamp_ok v \<longleftrightarrow> (\<exists>c. parse_rfc3339 v = Some c \<and> v = format_rfc3339 c)"

lemma format_suffix: "has_suffix (format_rfc3339 c) ''Z''" "format_rfc3339 c \<noteq> []"
  by (auto simp: has_suffix_iff format_rfc3339_def)

lemma validateTimestamp_ok [simp, ok_iff]: "validateTimestamp l v = Inr u \<longleftrightarrow> timestamp_ok v"
  using format_suffix by (auto simp: validateTimestamp_def timestamp_ok_def split: option.splits)

lemma isPowerOfTwo_iff: "isPowerOfTwo v \<longleftrightarrow> (\<exists>k. unat v = 2 ^ k)"
  using word_and_pred_0 [of v] by (cases "v = 0") (auto simp: isPowerOfTwo_def)

text \<open>The declarative forms, executable.\<close>

lemma timestamp_ok_code [code]:
  "timestamp_ok v \<longleftrightarrow> (case parse_rfc3339 v of None \<Rightarrow> False | Some c \<Rightarrow> v = format_rfc3339 c)"
  by (simp add: timestamp_ok_def split: option.splits)

lemma tagged_hex_code [code]:
  "tagged_hex p n s \<longleftrightarrow> take (length p) s = p \<and> hex_of_len n (drop (length p) s)"
proof
  assume "take (length p) s = p \<and> hex_of_len n (drop (length p) s)"
  then show "tagged_hex p n s" unfolding tagged_hex_def by (metis append_take_drop_id)
qed (auto simp: tagged_hex_def)

text \<open>Everything the validators accept is valid UTF-8, so its JSON form is faithful.\<close>

lemma utf8_timestamp: "timestamp_ok v \<Longrightarrow> valid_utf8 v"
  by (auto simp: timestamp_ok_def intro: valid_utf8_ascii ascii_format)

lemma utf8_hex: "hex_of_len n v \<Longrightarrow> valid_utf8 v"
  by (simp add: hex_of_len_def valid_utf8_ascii ascii_lower_hex)

lemma ascii_sha256_tag: "ascii ''sha256:''" "ascii ''blake2b256:''"
  by (simp_all add: code_def)

lemma utf8_tagged: "tagged_hex ''sha256:'' n v \<Longrightarrow> valid_utf8 v" "tagged_hex ''blake2b256:'' n v \<Longrightarrow> valid_utf8 v"
proof -
  have "ascii (p @ h)" if "ascii p" "hex_of_len n h" for p h
    using that by (simp add: hex_of_len_def ascii_lower_hex)
  then show "tagged_hex ''sha256:'' n v \<Longrightarrow> valid_utf8 v" "tagged_hex ''blake2b256:'' n v \<Longrightarrow> valid_utf8 v"
    using ascii_sha256_tag valid_utf8_ascii unfolding tagged_hex_def by blast+
qed

lemma id_char_ascii: "id_char c \<Longrightarrow> code c < 128"
  by (auto simp: id_char_def in_range_def code_def)

lemma utf8_id: "list_all id_char v \<Longrightarrow> valid_utf8 v"
  by (rule valid_utf8_ascii) (auto simp: ascii_def list_all_iff dest: id_char_ascii)

lemmas utf8_fields = utf8_timestamp utf8_hex utf8_tagged utf8_id

end
