(* ===== verification/McBindings.thy ===== *)
theory McBindings
  imports McModel
begin

text \<open>
  The building blocks of every signed record (\<^verbatim>\<open>model.go\<close> and the shape checks of
  \<^verbatim>\<open>definition.go\<close>): digests, artifact references, identities, participants,
  phase policies, and the circuit, software and beacon bindings. Each has its record,
  its \<^verbatim>\<open>Validate\<close>, its JSON form with the source's field tags, and the facts that
  the JSON form determines the value and is valid UTF-8 once \<^verbatim>\<open>Validate\<close> passed.
\<close>

named_theorems json_inj "JSON forms determine their values"
named_theorems json_text "validated values have valid UTF-8 JSON forms"

section \<open>Digests and artifact references\<close>

record Digest =
  dg_SHA256 :: string
  dg_Blake2b256 :: string
  dg_Size :: int

definition NewDigest :: "hash \<Rightarrow> hash \<Rightarrow> bytes \<Rightarrow> Digest" where
  "NewDigest H B data =
     \<lparr>dg_SHA256 = ''sha256:'' @ hex_encode (H data),
      dg_Blake2b256 = ''blake2b256:'' @ hex_encode (B data),
      dg_Size = int (length data)\<rparr>"

definition Digest_Validate :: "Digest \<Rightarrow> unit res" where
  "Digest_Validate d =
     all_ok
      [wrap ''sha256'' (validateTaggedHex (dg_SHA256 d) ''sha256:'' 32),
       wrap ''blake2b256'' (validateTaggedHex (dg_Blake2b256 d) ''blake2b256:'' 32),
       fail_if (dg_Size d \<le> 0) ''size must be positive'']"

record ArtifactRef =
  ar_Name :: string
  ar_Digest :: Digest

definition ArtifactRef_Validate :: "ArtifactRef \<Rightarrow> unit res" where
  "ArtifactRef_Validate r =
     all_ok [validateArtifactName (ar_Name r), wrap ''artifact digest'' (Digest_Validate (ar_Digest r))]"

definition json_Digest :: "Digest \<Rightarrow> json" where
  "json_Digest d = JObj [(''sha256'', JStr (dg_SHA256 d)), (''blake2b256'', JStr (dg_Blake2b256 d)),
                         (''size'', JNum (dg_Size d))]"

definition json_ArtifactRef :: "ArtifactRef \<Rightarrow> json" where
  "json_ArtifactRef r = JObj [(''name'', JStr (ar_Name r)), (''digest'', json_Digest (ar_Digest r))]"

lemma json_Digest_inj [json_inj]: "json_Digest a = json_Digest b \<longleftrightarrow> a = b"
  by (cases a; cases b) (auto simp: json_Digest_def)

lemma json_ArtifactRef_inj [json_inj]: "json_ArtifactRef a = json_ArtifactRef b \<longleftrightarrow> a = b"
  by (cases a; cases b) (auto simp: json_ArtifactRef_def json_Digest_inj)

definition ascii_keys :: "(string \<times> json) list \<Rightarrow> bool" where
  "ascii_keys fs \<longleftrightarrow> list_all (\<lambda>f. ascii (fst f)) fs"

lemma json_utf8_obj:
  "ascii_keys fs \<Longrightarrow> json_utf8 (JObj fs) \<longleftrightarrow> (\<forall>v \<in> set (map snd fs). json_utf8 v)"
  unfolding ascii_keys_def json_utf8.simps
  by (induction fs) (auto simp: valid_utf8_ascii)

lemma Digest_text [json_text]: "Digest_Validate d = Inr () \<Longrightarrow> json_utf8 (json_Digest d)"
  unfolding json_Digest_def
  by (subst json_utf8_obj) (auto simp: ascii_keys_def code_def Digest_Validate_def intro: utf8_fields)

lemma validateArtifactName_utf8: "validateArtifactName v = Inr () \<Longrightarrow> valid_utf8 v"
  by (simp add: validateArtifactName_def)

lemma ArtifactRef_text [json_text]: "ArtifactRef_Validate r = Inr () \<Longrightarrow> json_utf8 (json_ArtifactRef r)"
  unfolding json_ArtifactRef_def
  by (subst json_utf8_obj)
    (auto simp: ascii_keys_def code_def ArtifactRef_Validate_def intro: json_text validateArtifactName_utf8)

section \<open>Identities and participants\<close>

record Identity =
  id_ID :: string
  id_DisplayName :: string
  id_KeyID :: string
  id_Ed25519PublicKeyHex :: string
  id_PublicKeyFingerprint :: string

definition Identity_Validate :: "hash \<Rightarrow> Identity \<Rightarrow> unit res" where
  "Identity_Validate H i =
     all_ok
      [validateID ''identity id'' (id_ID i),
       fail_if (trim_space (id_DisplayName i) = [] \<or> id_DisplayName i \<noteq> trim_space (id_DisplayName i))
         ''identity display_name must be non-empty and trimmed'',
       fail_if (\<not> valid_utf8 (id_DisplayName i)) ''identity display_name must be valid UTF-8'',
       validateID ''identity key_id'' (id_KeyID i),
       bind_r (wrap ''identity ed25519_public_key_hex'' (decodeFixedHex (id_Ed25519PublicKeyHex i) 32)) (\<lambda>pub.
         fail_if (id_PublicKeyFingerprint i \<noteq> taggedSHA256 H pub) ''identity public_key_fingerprint'')]"

definition NewIdentity :: "hash \<Rightarrow> string \<Rightarrow> string \<Rightarrow> string \<Rightarrow> bytes \<Rightarrow> Identity \<times> unit res" where
  "NewIdentity H ident displayName keyID publicKey =
     (let result = \<lparr>id_ID = ident, id_DisplayName = displayName, id_KeyID = keyID,
                    id_Ed25519PublicKeyHex = hex_encode publicKey,
                    id_PublicKeyFingerprint = taggedSHA256 H publicKey\<rparr>
      in (result, Identity_Validate H result))"

record Participant =
  pt_Identity :: Identity

definition Participant_Validate :: "hash \<Rightarrow> Participant \<Rightarrow> unit res" where
  "Participant_Validate H p = Identity_Validate H (pt_Identity p)"

definition json_Identity :: "Identity \<Rightarrow> json" where
  "json_Identity i =
     JObj [(''id'', JStr (id_ID i)), (''display_name'', JStr (id_DisplayName i)), (''key_id'', JStr (id_KeyID i)),
           (''ed25519_public_key_hex'', JStr (id_Ed25519PublicKeyHex i)),
           (''public_key_fingerprint'', JStr (id_PublicKeyFingerprint i))]"

definition json_Participant :: "Participant \<Rightarrow> json" where
  "json_Participant p = JObj [(''identity'', json_Identity (pt_Identity p))]"

lemma json_Identity_inj [json_inj]: "json_Identity a = json_Identity b \<longleftrightarrow> a = b"
  by (cases a; cases b) (auto simp: json_Identity_def)

lemma json_Participant_inj [json_inj]: "json_Participant a = json_Participant b \<longleftrightarrow> a = b"
  by (cases a; cases b) (auto simp: json_Participant_def json_Identity_inj)

lemma Identity_text [json_text]: "Identity_Validate H i = Inr () \<Longrightarrow> json_utf8 (json_Identity i)"
  unfolding json_Identity_def
proof (subst json_utf8_obj)
  assume v: "Identity_Validate H i = Inr ()"
  then have "hex_of_len 32 (id_Ed25519PublicKeyHex i)" "valid_utf8 (id_DisplayName i)"
      "valid_utf8 (id_ID i)" "valid_utf8 (id_KeyID i)"
    by (auto simp: Identity_Validate_def intro: utf8_fields)
  moreover have "valid_utf8 (id_PublicKeyFingerprint i)"
  proof -
    have "ascii (taggedSHA256 H b)" for b
      unfolding taggedSHA256_def ascii_simps(3)
      using ascii_sha256_tag(1) ascii_lower_hex [OF hex_encode_lower] by blast
    with v show ?thesis by (auto simp: Identity_Validate_def intro: valid_utf8_ascii)
  qed
  ultimately show "\<forall>v \<in> set (map snd [(''id'', JStr (id_ID i)), (''display_name'', JStr (id_DisplayName i)), (''key_id'', JStr (id_KeyID i)),
           (''ed25519_public_key_hex'', JStr (id_Ed25519PublicKeyHex i)),
           (''public_key_fingerprint'', JStr (id_PublicKeyFingerprint i))]). json_utf8 v"
    by (simp add: utf8_hex)
qed (simp add: ascii_keys_def code_def)

lemma Participant_text [json_text]: "Participant_Validate H p = Inr () \<Longrightarrow> json_utf8 (json_Participant p)"
  unfolding json_Participant_def
  by (subst json_utf8_obj) (auto simp: ascii_keys_def code_def Participant_Validate_def intro: Identity_text)

section \<open>Phase policies\<close>

record PhasePolicy =
  pp_Participants :: "string list"
  pp_Minimum :: u8

fun policy_participants_ok :: "string set \<Rightarrow> string list \<Rightarrow> string list \<Rightarrow> unit res" where
  "policy_participants_ok roster seen [] = Inr ()"
| "policy_participants_ok roster seen (p # ps) =
     all_ok [fail_if (p \<notin> roster) ''phase participant is not in the roster'',
             fail_if (p \<in> set seen) ''phase participant is duplicated'',
             policy_participants_ok roster (p # seen) ps]"

text \<open>The roster map is only asked for its keys.\<close>

definition PhasePolicy_Validate :: "string set \<Rightarrow> PhasePolicy \<Rightarrow> unit res" where
  "PhasePolicy_Validate roster p =
     all_ok
      [fail_if (pp_Participants p = []) ''phase participants must not be empty'',
       fail_if (length (pp_Participants p) > MaxParticipants) ''phase participants exceed maximum'',
       fail_if (pp_Minimum p = 0 \<or> unat (pp_Minimum p) > length (pp_Participants p)) ''phase minimum'',
       policy_participants_ok roster [] (pp_Participants p)]"

definition clonePhasePolicy :: "PhasePolicy \<Rightarrow> PhasePolicy" where
  "clonePhasePolicy policy = \<lparr>pp_Participants = pp_Participants policy, pp_Minimum = pp_Minimum policy\<rparr>"

lemma clonePhasePolicy_id [simp]: "clonePhasePolicy p = p"
  by (simp add: clonePhasePolicy_def)

lemma policy_participants_ok_iff:
  "policy_participants_ok roster seen ps = Inr u \<longleftrightarrow>
     set ps \<subseteq> roster \<and> distinct ps \<and> set ps \<inter> set seen = {}"
  by (induction ps arbitrary: seen) auto

lemma PhasePolicy_Validate_ok [ok_iff]:
  "PhasePolicy_Validate roster p = Inr u \<longleftrightarrow>
     pp_Participants p \<noteq> [] \<and> length (pp_Participants p) \<le> MaxParticipants \<and>
     pp_Minimum p \<noteq> 0 \<and> unat (pp_Minimum p) \<le> length (pp_Participants p) \<and>
     set (pp_Participants p) \<subseteq> roster \<and> distinct (pp_Participants p)"
  by (auto simp: PhasePolicy_Validate_def policy_participants_ok_iff not_less)

definition json_strings :: "string list \<Rightarrow> json" where
  "json_strings xs = JArr (map JStr xs)"

definition json_PhasePolicy :: "PhasePolicy \<Rightarrow> json" where
  "json_PhasePolicy p = JObj [(''participants'', json_strings (pp_Participants p)), (''minimum'', JNum (uint (pp_Minimum p)))]"

lemma json_strings_inj [json_inj]: "json_strings a = json_strings b \<longleftrightarrow> a = b"
  by (simp add: json_strings_def inj_map_eq_map inj_def)

lemma json_PhasePolicy_inj [json_inj]: "json_PhasePolicy a = json_PhasePolicy b \<longleftrightarrow> a = b"
  by (cases a; cases b) (auto simp: json_PhasePolicy_def json_strings_inj word_uint_eq_iff)

lemma json_strings_text [simp]: "json_utf8 (json_strings xs) \<longleftrightarrow> (\<forall>x \<in> set xs. valid_utf8 x)"
  by (simp add: json_strings_def)

lemma PhasePolicy_text:
  "PhasePolicy_Validate roster p = Inr () \<Longrightarrow> (\<forall>x \<in> roster. valid_utf8 x) \<Longrightarrow> json_utf8 (json_PhasePolicy p)"
  unfolding json_PhasePolicy_def
  by (subst json_utf8_obj) (auto simp: ascii_keys_def code_def PhasePolicy_Validate_ok)

end
