(* ===== verification/McPolicy.thy ===== *)
theory McPolicy
  imports McBindings
begin

text \<open>
  The circuit, software and beacon bindings of a ceremony definition (\<^verbatim>\<open>model.go\<close>)
  and the production build profile (\<^verbatim>\<open>software.go\<close>).
\<close>

section \<open>The circuit binding\<close>

record CircuitBinding =
  cb_KeyVersion :: string
  cb_CircuitID :: string
  cb_Curve :: string
  cb_Backend :: string
  cb_R1CS :: ArtifactRef
  cb_Constraints :: u64
  cb_InternalVariables :: u64
  cb_SecretVariables :: u64
  cb_PublicVariables :: u64
  cb_DomainSize :: u64
  cb_Phase2Shape :: Phase2Shape

definition CircuitBinding_Validate :: "CircuitBinding \<Rightarrow> unit res" where
  "CircuitBinding_Validate b =
     all_ok
      [fail_if (cb_KeyVersion b \<noteq> KeyVersionDestinationV3) ''key_version'',
       fail_if (cb_CircuitID b \<noteq> CircuitIDDestinationV3) ''circuit_id'',
       fail_if (cb_Curve b \<noteq> CurveBLS12381) ''curve'',
       fail_if (cb_Backend b \<noteq> BackendGroth16) ''backend'',
       wrap ''r1cs'' (ArtifactRef_Validate (cb_R1CS b)),
       fail_if (cb_Constraints b = 0 \<or> cb_InternalVariables b = 0 \<or> cb_SecretVariables b = 0 \<or>
                cb_PublicVariables b = 0) ''circuit counts must all be positive'',
       fail_if (\<not> isPowerOfTwo (cb_DomainSize b) \<or> cb_DomainSize b < cb_Constraints b)
         ''domain_size must be a power of two covering constraints'',
       wrap ''phase2_shape'' (Phase2Shape_Validate (cb_Phase2Shape b)),
       fail_if (p2s_ChallengeLength (cb_Phase2Shape b) \<noteq> 0) ''phase2_shape challenge_length'']"

definition json_word :: "'a::len word \<Rightarrow> json" where
  "json_word w = JNum (uint w)"

definition json_slice :: "('a \<Rightarrow> json) \<Rightarrow> 'a slice \<Rightarrow> json" where
  "json_slice f s = (case s of None \<Rightarrow> JNull | Some xs \<Rightarrow> JArr (map f xs))"

definition json_Phase2Shape :: "Phase2Shape \<Rightarrow> json" where
  "json_Phase2Shape s =
     JObj [(''Commitments'', json_word (p2s_Commitments s)), (''PKK'', json_word (p2s_PKK s)),
           (''Z'', json_word (p2s_Z s)), (''SigmaCKK'', json_slice json_word (p2s_SigmaCKK s)),
           (''ChallengeLength'', json_word (p2s_ChallengeLength s))]"

definition json_CircuitBinding :: "CircuitBinding \<Rightarrow> json" where
  "json_CircuitBinding b =
     JObj [(''key_version'', JStr (cb_KeyVersion b)), (''circuit_id'', JStr (cb_CircuitID b)),
           (''curve'', JStr (cb_Curve b)), (''backend'', JStr (cb_Backend b)),
           (''r1cs'', json_ArtifactRef (cb_R1CS b)), (''constraints'', json_word (cb_Constraints b)),
           (''internal_variables'', json_word (cb_InternalVariables b)),
           (''secret_variables'', json_word (cb_SecretVariables b)),
           (''public_variables'', json_word (cb_PublicVariables b)),
           (''domain_size'', json_word (cb_DomainSize b)), (''phase2_shape'', json_Phase2Shape (cb_Phase2Shape b))]"

lemma json_word_inj [json_inj]: "json_word a = json_word b \<longleftrightarrow> a = b"
  by (simp add: json_word_def word_uint_eq_iff)

lemma json_word_text [simp]: "json_utf8 (json_word w)"
  by (simp add: json_word_def)

lemma json_slice_inj:
  assumes "\<And>x y. f x = f y \<longleftrightarrow> x = y"
  shows "json_slice f a = json_slice f b \<longleftrightarrow> a = b"
  using assms by (auto simp: json_slice_def inj_map_eq_map inj_def split: option.splits)

lemma json_slice_text [simp]: "json_utf8 (json_slice f s) \<longleftrightarrow> (\<forall>x \<in> set (slice_list s). json_utf8 (f x))"
  by (simp add: json_slice_def split: option.splits)

lemma json_Phase2Shape_inj [json_inj]: "json_Phase2Shape a = json_Phase2Shape b \<longleftrightarrow> a = b"
  by (cases a; cases b) (auto simp: json_Phase2Shape_def json_word_inj json_slice_inj)

lemma Phase2Shape_text [simp]: "json_utf8 (json_Phase2Shape s)"
  unfolding json_Phase2Shape_def by (subst json_utf8_obj) (auto simp: ascii_keys_def code_def)

lemma json_CircuitBinding_inj [json_inj]: "json_CircuitBinding a = json_CircuitBinding b \<longleftrightarrow> a = b"
  by (cases a; cases b) (auto simp: json_CircuitBinding_def json_inj)

lemma utf8_circuit_names [simp]: "valid_utf8 KeyVersionDestinationV3" "valid_utf8 CircuitIDDestinationV3"
    "valid_utf8 CurveBLS12381" "valid_utf8 BackendGroth16"
  by (simp_all add: KeyVersionDestinationV3_def CircuitIDDestinationV3_def CurveBLS12381_def BackendGroth16_def code_def)

lemma CircuitBinding_text [json_text]:
  "CircuitBinding_Validate b = Inr () \<Longrightarrow> json_utf8 (json_CircuitBinding b)"
  unfolding json_CircuitBinding_def
  by (subst json_utf8_obj) (auto simp: ascii_keys_def code_def CircuitBinding_Validate_def intro: ArtifactRef_text)

section \<open>The software binding\<close>

record SoftwareBinding =
  sb_ProofToolVersion :: string
  sb_GnarkVersion :: string
  sb_GnarkCryptoVersion :: string
  sb_DrandVersion :: string
  sb_GoVersion :: string
  sb_GoOS :: string
  sb_GoArch :: string
  sb_GoAMD64 :: string
  sb_Compiler :: string
  sb_BuildMode :: string
  sb_CGOEnabled :: bool
  sb_TrimPath :: bool
  sb_SourceCommit :: string
  sb_SourceDirty :: bool
  sb_ToolBinary :: Digest

definition blank :: "string \<Rightarrow> bool" where
  "blank s \<longleftrightarrow> trim_space s = []"

definition SoftwareBinding_Validate :: "SoftwareBinding \<Rightarrow> unit res" where
  "SoftwareBinding_Validate b =
     all_ok
      [fail_if (blank (sb_ProofToolVersion b)) ''proof_tool_version is required'',
       fail_if (sb_GnarkVersion b \<noteq> GnarkVersion) ''gnark_version'',
       fail_if (sb_GnarkCryptoVersion b \<noteq> GnarkCryptoVersion) ''gnark_crypto_version'',
       fail_if (sb_DrandVersion b \<noteq> DrandVersion) ''drand_version'',
       fail_if (blank (sb_GoVersion b)) ''go_version is required'',
       fail_if (blank (sb_GoOS b)) ''goos is required'',
       fail_if (blank (sb_GoArch b)) ''goarch is required'',
       fail_if (sb_GoArch b = ProductionGOARCH \<and> blank (sb_GoAMD64 b)) ''goamd64 is required for amd64 binaries'',
       fail_if (blank (sb_Compiler b)) ''compiler is required'',
       fail_if (blank (sb_BuildMode b)) ''build_mode is required'',
       wrap ''source_commit'' (validateHex (sb_SourceCommit b) 20),
       wrap ''tool_binary'' (Digest_Validate (sb_ToolBinary b))]"

definition validateProductionBuildProfile ::
    "string \<Rightarrow> string \<Rightarrow> string \<Rightarrow> string \<Rightarrow> string \<Rightarrow> string \<Rightarrow> bool \<Rightarrow> bool \<Rightarrow> unit res" where
  "validateProductionBuildProfile goVersion goOS goArch goAMD64 compiler buildMode cgoEnabled trimPath =
     all_ok
      [fail_if (goVersion \<noteq> ProductionGoVersion) ''go_version mismatch'',
       fail_if (goOS \<noteq> ProductionGOOS) ''goos mismatch'',
       fail_if (goArch \<noteq> ProductionGOARCH) ''goarch mismatch'',
       fail_if (goAMD64 \<noteq> ProductionGOAMD64) ''goamd64 mismatch'',
       fail_if (compiler \<noteq> ProductionCompiler) ''compiler mismatch'',
       fail_if (buildMode \<noteq> ProductionBuildMode) ''build_mode mismatch'',
       fail_if cgoEnabled ''running software cgo_enabled mismatch: production requires false'',
       fail_if (\<not> trimPath) ''running software trimpath mismatch: production requires true'']"

definition json_SoftwareBinding :: "SoftwareBinding \<Rightarrow> json" where
  "json_SoftwareBinding b =
     JObj ([(''proof_tool_version'', JStr (sb_ProofToolVersion b)), (''gnark_version'', JStr (sb_GnarkVersion b)),
            (''gnark_crypto_version'', JStr (sb_GnarkCryptoVersion b)), (''drand_version'', JStr (sb_DrandVersion b)),
            (''go_version'', JStr (sb_GoVersion b)), (''goos'', JStr (sb_GoOS b)), (''goarch'', JStr (sb_GoArch b))] @
           (if sb_GoAMD64 b = [] then [] else [(''goamd64'', JStr (sb_GoAMD64 b))]) @
           [(''compiler'', JStr (sb_Compiler b)), (''build_mode'', JStr (sb_BuildMode b)),
            (''cgo_enabled'', JBool (sb_CGOEnabled b)), (''trimpath'', JBool (sb_TrimPath b)),
            (''source_commit'', JStr (sb_SourceCommit b)), (''source_dirty'', JBool (sb_SourceDirty b)),
            (''tool_binary'', json_Digest (sb_ToolBinary b))])"

lemma json_SoftwareBinding_inj [json_inj]: "json_SoftwareBinding a = json_SoftwareBinding b \<longleftrightarrow> a = b"
  by (cases a; cases b) (auto simp: json_SoftwareBinding_def json_inj split: if_splits)

text \<open>
  \<^verbatim>\<open>Validate\<close> leaves the free-text fields of a software binding unchecked. Text that
  was read from JSON is always valid UTF-8; a binding built in memory from other bytes
  is outside the text predicate below.
\<close>

definition software_text :: "SoftwareBinding \<Rightarrow> bool" where
  "software_text b \<longleftrightarrow>
     list_all valid_utf8 [sb_ProofToolVersion b, sb_GoVersion b, sb_GoOS b, sb_GoArch b, sb_GoAMD64 b,
                          sb_Compiler b, sb_BuildMode b]"

lemma utf8_versions [simp]: "valid_utf8 GnarkVersion" "valid_utf8 GnarkCryptoVersion" "valid_utf8 DrandVersion"
  by (simp_all add: GnarkVersion_def GnarkCryptoVersion_def DrandVersion_def code_def)

lemma SoftwareBinding_text:
  "SoftwareBinding_Validate b = Inr () \<Longrightarrow> software_text b \<Longrightarrow> json_utf8 (json_SoftwareBinding b)"
  unfolding json_SoftwareBinding_def
  by (subst json_utf8_obj)
    (auto simp: ascii_keys_def code_def SoftwareBinding_Validate_def software_text_def intro: Digest_text utf8_fields)

section \<open>The beacon policy\<close>

record BeaconPolicy =
  bp_Provider :: string
  bp_Network :: string
  bp_ChainHashHex :: string
  bp_PublicKeyHex :: string
  bp_Scheme :: string
  bp_GenesisTimeUnix :: int
  bp_PeriodSeconds :: u32
  bp_Extraction :: string
  bp_MinimumChallengeBytes :: u16
  bp_MinimumWitnessLeadSeconds :: u32
  bp_FutureRoundRequired :: bool

definition BeaconPolicy_Validate :: "BeaconPolicy \<Rightarrow> unit res" where
  "BeaconPolicy_Validate p =
     all_ok
      [fail_if (bp_Provider p \<noteq> BeaconProviderDrand) ''beacon provider'',
       fail_if (bp_Network p \<noteq> BeaconNetworkQuicknet) ''beacon network'',
       fail_if (bp_ChainHashHex p \<noteq> BeaconQuicknetChainHash) ''beacon chain_hash_hex'',
       fail_if (bp_PublicKeyHex p \<noteq> BeaconQuicknetPublicKey) ''beacon public_key_hex'',
       wrap ''beacon public_key_hex'' (validateHex (bp_PublicKeyHex p) 96),
       fail_if (bp_Scheme p \<noteq> BeaconQuicknetScheme) ''beacon scheme'',
       fail_if (bp_GenesisTimeUnix p \<noteq> BeaconQuicknetGenesis) ''beacon genesis_time_unix'',
       fail_if (bp_PeriodSeconds p \<noteq> BeaconQuicknetPeriod) ''beacon period_seconds'',
       fail_if (bp_Extraction p \<noteq> BeaconExtractionV1) ''beacon extraction'',
       fail_if (bp_MinimumChallengeBytes p \<noteq> 32) ''beacon minimum_challenge_bytes'',
       fail_if (bp_MinimumWitnessLeadSeconds p = 0) ''beacon minimum_witness_lead_seconds must be positive'',
       fail_if (\<not> bp_FutureRoundRequired p) ''beacon future_round_required must be true'']"

definition json_BeaconPolicy :: "BeaconPolicy \<Rightarrow> json" where
  "json_BeaconPolicy p =
     JObj [(''provider'', JStr (bp_Provider p)), (''network'', JStr (bp_Network p)),
           (''chain_hash_hex'', JStr (bp_ChainHashHex p)), (''public_key_hex'', JStr (bp_PublicKeyHex p)),
           (''scheme'', JStr (bp_Scheme p)), (''genesis_time_unix'', JNum (bp_GenesisTimeUnix p)),
           (''period_seconds'', json_word (bp_PeriodSeconds p)), (''extraction'', JStr (bp_Extraction p)),
           (''minimum_challenge_bytes'', json_word (bp_MinimumChallengeBytes p)),
           (''minimum_witness_lead_seconds'', json_word (bp_MinimumWitnessLeadSeconds p)),
           (''future_round_required'', JBool (bp_FutureRoundRequired p))]"

lemma json_BeaconPolicy_inj [json_inj]: "json_BeaconPolicy a = json_BeaconPolicy b \<longleftrightarrow> a = b"
  by (cases a; cases b) (auto simp: json_BeaconPolicy_def json_inj)

lemma hex_quicknet: "hex_of_len 32 BeaconQuicknetChainHash" "hex_of_len 96 BeaconQuicknetPublicKey"
  by (simp_all add: hex_of_len_def BeaconQuicknetChainHash_def BeaconQuicknetPublicKey_def
      lower_hex_char_def in_range_def code_def)

lemma utf8_beacon [simp]: "valid_utf8 BeaconProviderDrand" "valid_utf8 BeaconNetworkQuicknet"
    "valid_utf8 BeaconQuicknetScheme" "valid_utf8 BeaconExtractionV1"
  by (simp_all add: BeaconProviderDrand_def BeaconNetworkQuicknet_def BeaconQuicknetScheme_def
      BeaconExtractionV1_def code_def)

lemma BeaconPolicy_text [json_text]:
  "BeaconPolicy_Validate p = Inr () \<Longrightarrow> json_utf8 (json_BeaconPolicy p)"
  unfolding json_BeaconPolicy_def
  by (subst json_utf8_obj)
    (auto simp: ascii_keys_def code_def BeaconPolicy_Validate_def intro: hex_quicknet [THEN utf8_hex])

end
