(* ===== verification/McRecord.thy ===== *)
theory McRecord
  imports McPolicy
begin

text \<open>
  The content-derived identity that every ceremony record shares: \<^verbatim>\<open>canonicalHash\<close>
  (\<^verbatim>\<open>model.go\<close>), and the three functions each record type repeats around it:
  \<^verbatim>\<open>ComputeXID\<close> (validate with an empty identity, then hash the JSON form),
  \<^verbatim>\<open>Validate\<close> (validate, recompute, compare) and \<^verbatim>\<open>NewX\<close> (set the schema,
  compute, store, validate). The locale \<open>content_record\<close> is their contract: what a
  record type must promise of its fields and its checks, and what follows: a new
  record is valid, a valid record's identity is the hash of its contents, and two valid
  records with one identity are equal unless their two preimages collide under the hash.
\<close>

definition preimage :: "string \<Rightarrow> json \<Rightarrow> bytes" where
  "preimage domain value = string_bytes domain @ [0] @ string_bytes (jenc value)"

definition canonicalHash :: "hash \<Rightarrow> string \<Rightarrow> json \<Rightarrow> string" where
  "canonicalHash H domain value = ''sha256:'' @ hex_encode (H (preimage domain value))"

text \<open>\<^verbatim>\<open>sha256.Sum256\<close> returns 32 bytes.\<close>

definition hash32 :: "hash \<Rightarrow> bool" where
  "hash32 H \<longleftrightarrow> (\<forall>x. length (H x) = 32)"

lemma taggedSHA256_tagged: "hash32 H \<Longrightarrow> tagged_hex ''sha256:'' 32 (taggedSHA256 H x)"
  unfolding tagged_hex_def taggedSHA256_def hash32_def hex_of_len_def
  using hex_encode_lower length_hex_encode by metis

lemma canonicalHash_tagged: "hash32 H \<Longrightarrow> tagged_hex ''sha256:'' 32 (canonicalHash H d v)"
  unfolding tagged_hex_def canonicalHash_def hash32_def hex_of_len_def
  using hex_encode_lower length_hex_encode by metis

lemma canonicalHash_eq:
  "canonicalHash H d v = canonicalHash H e w \<longleftrightarrow> H (preimage d v) = H (preimage e w)"
  by (simp add: canonicalHash_def)

text \<open>Domain strings contain no zero byte, so the separator makes the pair unambiguous.\<close>

definition domain_tag :: "string \<Rightarrow> bool" where
  "domain_tag d \<longleftrightarrow> CHR 0x00 \<notin> set d"

lemma byte_0: "byte c = 0 \<longleftrightarrow> c = CHR 0x00"
proof -
  have "byte (CHR 0x00) = 0" by (simp add: byte_def)
  then show ?thesis by (metis byte_inj)
qed

lemma split_at_0:
  assumes "xs @ 0 # as = ys @ 0 # bs" and "0 \<notin> set xs" and "0 \<notin> set ys"
  shows "xs = ys \<and> as = (bs :: bytes)"
  using assms
proof (induction xs arbitrary: ys)
  case Nil
  then show ?case by (cases ys) auto
next
  case (Cons x xs)
  then show ?case by (cases ys) auto
qed

lemma zero_free: "domain_tag d \<Longrightarrow> 0 \<notin> set (string_bytes d)"
proof
  assume d: "domain_tag d" and "0 \<in> set (string_bytes d)"
  then obtain c where "c \<in> set d" "byte c = 0" by (metis string_bytes_def in_set_conv_nth length_map nth_map)
  with d byte_0 show False by (simp only: domain_tag_def)
qed

lemma preimage_inj:
  assumes "preimage d v = preimage e w" and "domain_tag d" and "domain_tag e"
    and "json_utf8 v" and "json_utf8 w"
  shows "d = e \<and> v = w"
proof -
  have "string_bytes d @ 0 # string_bytes (jenc v) = string_bytes e @ 0 # string_bytes (jenc w)"
    using assms(1) by (simp add: preimage_def)
  from split_at_0 [OF this zero_free [OF assms(2)] zero_free [OF assms(3)]]
  have "string_bytes d = string_bytes e \<and> string_bytes (jenc v) = string_bytes (jenc w)" .
  then show ?thesis using jenc_inj assms(4,5) by simp
qed

lemma preimage_domain_neq:
  "d \<noteq> e \<Longrightarrow> domain_tag d \<Longrightarrow> domain_tag e \<Longrightarrow> preimage d v \<noteq> preimage e w"
proof
  assume a: "d \<noteq> e" "domain_tag d" "domain_tag e" "preimage d v = preimage e w"
  have "string_bytes d @ 0 # string_bytes (jenc v) = string_bytes e @ 0 # string_bytes (jenc w)"
    using a(4) by (simp add: preimage_def)
  from split_at_0 [OF this zero_free [OF a(2)] zero_free [OF a(3)]]
  have "string_bytes d = string_bytes e" ..
  with a(1) show False by simp
qed

section \<open>The functions every record type repeats\<close>

definition id_check :: "bool \<Rightarrow> string \<Rightarrow> string \<Rightarrow> unit res" where
  "id_check requireID label value =
     (if requireID then validateHashID label value
      else fail_if (value \<noteq> []) (label @ '' must be empty while computing identity''))"

lemma id_check_simps [simp, ok_iff]:
  "id_check True l v = Inr u \<longleftrightarrow> tagged_hex ''sha256:'' 32 v"
  "id_check False l v = Inr u \<longleftrightarrow> v = []"
  by (simp_all add: id_check_def)

definition compute_id ::
    "hash \<Rightarrow> string \<Rightarrow> ('r \<Rightarrow> json) \<Rightarrow> (string \<Rightarrow> 'r \<Rightarrow> 'r) \<Rightarrow> (bool \<Rightarrow> 'r \<Rightarrow> unit res) \<Rightarrow> 'r \<Rightarrow> string res" where
  "compute_id H tag js set_id val r =
     (let r' = set_id [] r in bind_r (val False r') (\<lambda>_. Inr (canonicalHash H tag (js r'))))"

definition validate_id ::
    "hash \<Rightarrow> string \<Rightarrow> ('r \<Rightarrow> json) \<Rightarrow> ('r \<Rightarrow> string) \<Rightarrow> (string \<Rightarrow> 'r \<Rightarrow> 'r) \<Rightarrow> (bool \<Rightarrow> 'r \<Rightarrow> unit res)
     \<Rightarrow> 'r \<Rightarrow> unit res" where
  "validate_id H tag js get_id set_id val r =
     bind_r (val True r) (\<lambda>_.
     bind_r (compute_id H tag js set_id val r) (\<lambda>expected.
     fail_if (get_id r \<noteq> expected) ''identity mismatch''))"

definition new_record ::
    "hash \<Rightarrow> string \<Rightarrow> ('r \<Rightarrow> json) \<Rightarrow> ('r \<Rightarrow> string) \<Rightarrow> (string \<Rightarrow> 'r \<Rightarrow> 'r) \<Rightarrow> (bool \<Rightarrow> 'r \<Rightarrow> unit res)
     \<Rightarrow> 'r \<Rightarrow> 'r res" where
  "new_record H tag js get_id set_id val r =
     bind_r (compute_id H tag js set_id val (set_id [] r)) (\<lambda>i.
     let r' = set_id i r in
     bind_r (validate_id H tag js get_id set_id val r') (\<lambda>_. Inr r'))"

section \<open>Their contract\<close>

locale content_record =
  fixes tag :: string
    and js :: "'r \<Rightarrow> json"
    and get_id :: "'r \<Rightarrow> string"
    and set_id :: "string \<Rightarrow> 'r \<Rightarrow> 'r"
    and val :: "bool \<Rightarrow> 'r \<Rightarrow> unit res"
    and rtext :: "'r \<Rightarrow> bool"
  assumes tag: "domain_tag tag"
    and js_inj: "js a = js b \<longleftrightarrow> a = b"
    and get_set: "get_id (set_id x r) = x"
    and set_set: "set_id x (set_id y r) = set_id x r"
    and set_get: "set_id (get_id r) r = r"
    and val_split: "val True r = Inr () \<longleftrightarrow>
      tagged_hex ''sha256:'' 32 (get_id r) \<and> val False (set_id [] r) = Inr ()"
    and val_text: "val False r = Inr () \<Longrightarrow> rtext r \<Longrightarrow> json_utf8 (js r)"
    and rtext_set: "rtext (set_id x r) \<longleftrightarrow> rtext r"
begin

lemma compute_iff:
  "compute_id H tag js set_id val r = Inr i \<longleftrightarrow>
     val False (set_id [] r) = Inr () \<and> i = canonicalHash H tag (js (set_id [] r))"
  by (auto simp: compute_id_def Let_def)

lemma validate_iff:
  assumes "hash32 H"
  shows "validate_id H tag js get_id set_id val r = Inr u \<longleftrightarrow>
     val False (set_id [] r) = Inr () \<and> get_id r = canonicalHash H tag (js (set_id [] r))"
  using canonicalHash_tagged [OF assms] by (auto simp: validate_id_def compute_iff val_split)

lemma validate_val: "validate_id H tag js get_id set_id val r = Inr u \<Longrightarrow> val True r = Inr ()"
  by (auto simp: validate_id_def)

lemma new_iff:
  assumes "hash32 H"
  shows "new_record H tag js get_id set_id val r = Inr r' \<longleftrightarrow>
     val False (set_id [] r) = Inr () \<and> r' = set_id (canonicalHash H tag (js (set_id [] r))) r"
  using validate_iff [OF assms]
  by (auto simp: new_record_def Let_def compute_iff set_set get_set)

lemma new_valid:
  assumes "hash32 H" and "new_record H tag js get_id set_id val r = Inr r'"
  shows "validate_id H tag js get_id set_id val r' = Inr ()"
  using assms by (auto simp: new_iff validate_iff set_set get_set)

text \<open>A valid record is what the constructor makes of it.\<close>

lemma valid_new:
  assumes "hash32 H" and "validate_id H tag js get_id set_id val r = Inr ()"
  shows "new_record H tag js get_id set_id val r = Inr r"
proof -
  have v: "val False (set_id [] r) = Inr ()" "get_id r = canonicalHash H tag (js (set_id [] r))"
    using assms by (simp_all add: validate_iff)
  then have "set_id (canonicalHash H tag (js (set_id [] r))) r = r" using set_get by metis
  with v assms(1) show ?thesis by (simp add: new_iff)
qed

lemma json_text_of_valid:
  assumes "val True r = Inr ()" and "rtext r"
  shows "json_utf8 (js (set_id [] r))"
  using assms by (intro val_text) (simp_all add: val_split rtext_set)

text \<open>One identity, one record: unless the two hashed preimages are a collision.\<close>

lemma binding:
  assumes "hash32 H"
    and "validate_id H tag js get_id set_id val a = Inr ()" and "rtext a"
    and "validate_id H tag js get_id set_id val b = Inr ()" and "rtext b"
    and "get_id a = get_id b"
  shows "a = b \<or>
     preimage tag (js (set_id [] a)) \<noteq> preimage tag (js (set_id [] b)) \<and>
     H (preimage tag (js (set_id [] a))) = H (preimage tag (js (set_id [] b)))"
proof -
  have hash: "H (preimage tag (js (set_id [] a))) = H (preimage tag (js (set_id [] b)))"
    using assms(2,4,6) validate_iff [OF assms(1)] canonicalHash_eq by metis
  show ?thesis
  proof (cases "preimage tag (js (set_id [] a)) = preimage tag (js (set_id [] b))")
    case True
    then have "js (set_id [] a) = js (set_id [] b)"
      using preimage_inj [OF _ tag tag] json_text_of_valid validate_val assms(2-5) by metis
    then have "set_id [] a = set_id [] b" by (simp add: js_inj)
    then have "a = b" using assms(6) set_set set_get by metis
    then show ?thesis ..
  next
    case False
    with hash show ?thesis by simp
  qed
qed

end

end
