(* ===== verification/McDefinition.thy ===== *)
theory McDefinition
  imports McRecord
begin

text \<open>
  \<^verbatim>\<open>internal/mpcceremony/definition.go\<close>: the ceremony definition, the signed root
  of every record of a ceremony. \<open>definition_checks\<close> is the part of \<^verbatim>\<open>validate\<close>
  after the identity check; the three Go maps that record which identities, keys and
  public keys were seen are three lists threaded through the auditor and roster loops.
\<close>

record CeremonyDefinition =
  cd_Schema :: string
  cd_CeremonyID :: string
  cd_Mode :: string
  cd_CreatedAt :: string
  cd_SessionNonceHex :: string
  cd_Circuit :: CircuitBinding
  cd_Software :: SoftwareBinding
  cd_Coordinator :: Identity
  cd_ReleaseSigner :: Identity
  cd_Auditors :: "Identity list"
  cd_Roster :: "Participant list"
  cd_Phase1Policy :: PhasePolicy
  cd_Phase2Policy :: PhasePolicy
  cd_BeaconPolicy :: BeaconPolicy
  cd_Phase1Genesis :: ArtifactRef

record DefinitionOptions =
  do_Mode :: string
  do_CreatedAt :: string
  do_SessionNonceHex :: string
  do_Circuit :: CircuitBinding
  do_Software :: SoftwareBinding
  do_Coordinator :: Identity
  do_ReleaseSigner :: Identity
  do_Auditors :: "Identity list"
  do_Roster :: "Participant list"
  do_Phase1Policy :: PhasePolicy
  do_Phase2Policy :: PhasePolicy
  do_BeaconPolicy :: BeaconPolicy
  do_Phase1Genesis :: ArtifactRef

definition ProductionMinimumWitnessLeadSeconds :: u32 where
  "ProductionMinimumWitnessLeadSeconds = 24 * 60 * 60"

section \<open>Validation\<close>

definition mode_checks :: "CeremonyDefinition \<Rightarrow> unit res" where
  "mode_checks d =
     (let s = cd_Software d in
      if cd_Mode d = ModeRehearsal then Inr ()
      else if cd_Mode d = ModeProduction then
        all_ok
         [fail_if (sb_SourceDirty s) ''production ceremony requires a clean source tree'',
          wrap ''production software profile''
            (validateProductionBuildProfile (sb_GoVersion s) (sb_GoOS s) (sb_GoArch s) (sb_GoAMD64 s)
               (sb_Compiler s) (sb_BuildMode s) (sb_CGOEnabled s) (sb_TrimPath s))]
      else Inl (Err ''mode''))"

text \<open>The identity ids, key ids and public-key fingerprints seen so far.\<close>

type_synonym seen = "string list \<times> string list \<times> string list"

fun auditor_loop :: "hash \<Rightarrow> Identity list \<Rightarrow> seen \<Rightarrow> seen res" where
  "auditor_loop H [] seen = Inr seen"
| "auditor_loop H (a # as) (ids, keys, fps) =
     bind_r (all_ok
        [wrap ''auditor'' (Identity_Validate H a),
         fail_if (id_ID a \<in> set ids) ''auditor identity duplicates'',
         fail_if (id_KeyID a \<in> set keys) ''auditor key duplicates'',
         fail_if (id_PublicKeyFingerprint a \<in> set fps) ''auditor public key duplicates'']) (\<lambda>_.
     auditor_loop H as (id_ID a # ids, id_KeyID a # keys, id_PublicKeyFingerprint a # fps))"

fun roster_loop :: "hash \<Rightarrow> Participant list \<Rightarrow> string list \<Rightarrow> seen \<Rightarrow> unit res" where
  "roster_loop H [] roster seen = Inr ()"
| "roster_loop H (p # ps) roster (ids, keys, fps) =
     (let i = pt_Identity p in
      bind_r (all_ok
        [wrap ''roster participant'' (Participant_Validate H p),
         fail_if (id_ID i \<in> set roster) ''roster participant is duplicated'',
         fail_if (id_ID i \<in> set ids) ''participant identity duplicates'',
         fail_if (id_KeyID i \<in> set keys) ''participant key duplicates'',
         fail_if (id_PublicKeyFingerprint i \<in> set fps) ''participant public key duplicates'']) (\<lambda>_.
      roster_loop H ps (id_ID i # roster) (id_ID i # ids, id_KeyID i # keys, id_PublicKeyFingerprint i # fps)))"

definition identity_checks :: "hash \<Rightarrow> CeremonyDefinition \<Rightarrow> unit res" where
  "identity_checks H d =
     (let c = cd_Coordinator d; r = cd_ReleaseSigner d in
      all_ok
       [wrap ''coordinator'' (Identity_Validate H c),
        wrap ''release_signer'' (Identity_Validate H r),
        fail_if (id_ID r = id_ID c \<or> id_KeyID r = id_KeyID c) ''release signer must be distinct from coordinator'',
        fail_if (length (cd_Auditors d) < 2) ''at least two independent auditors are required'',
        fail_if (id_PublicKeyFingerprint r \<in> set [id_PublicKeyFingerprint c])
          ''release signer public key duplicates'',
        bind_r (auditor_loop H (cd_Auditors d)
                  ([id_ID c, id_ID r], [id_KeyID c, id_KeyID r],
                   [id_PublicKeyFingerprint c, id_PublicKeyFingerprint r])) (\<lambda>seen.
        bind_r (fail_if (length (cd_Roster d) = 0 \<or> length (cd_Roster d) > MaxParticipants)
                  ''roster must contain between 1 and the maximum of participants'') (\<lambda>_.
        roster_loop H (cd_Roster d) [] seen))])"

definition roster_ids :: "CeremonyDefinition \<Rightarrow> string list" where
  "roster_ids d = map (\<lambda>p. id_ID (pt_Identity p)) (cd_Roster d)"

definition production_checks :: "CeremonyDefinition \<Rightarrow> unit res" where
  "production_checks d =
     (if cd_Mode d = ModeProduction then
        all_ok
         [fail_if (bp_MinimumWitnessLeadSeconds (cd_BeaconPolicy d) < ProductionMinimumWitnessLeadSeconds)
            ''production beacon minimum_witness_lead_seconds'',
          fail_if (length (cd_Roster d) < 2)
            ''production ceremony requires at least two distinct roster participants'',
          fail_if (length (pp_Participants (cd_Phase1Policy d)) < 2)
            ''production phase1 policy requires at least two scheduled participants'',
          fail_if (unat (pp_Minimum (cd_Phase1Policy d)) \<noteq> length (pp_Participants (cd_Phase1Policy d)))
            ''production phase1 minimum must equal the complete scheduled participant count'',
          fail_if (length (pp_Participants (cd_Phase2Policy d)) < 2)
            ''production phase2 policy requires at least two scheduled participants'',
          fail_if (unat (pp_Minimum (cd_Phase2Policy d)) \<noteq> length (pp_Participants (cd_Phase2Policy d)))
            ''production phase2 minimum must equal the complete scheduled participant count'']
      else Inr ())"

definition definition_checks :: "hash \<Rightarrow> CeremonyDefinition \<Rightarrow> unit res" where
  "definition_checks H d =
     all_ok
      [mode_checks d,
       validateTimestamp ''created_at'' (cd_CreatedAt d),
       wrap ''session_nonce_hex'' (validateHex (cd_SessionNonceHex d) 32),
       wrap ''circuit'' (CircuitBinding_Validate (cd_Circuit d)),
       wrap ''software'' (SoftwareBinding_Validate (cd_Software d)),
       identity_checks H d,
       wrap ''phase1_policy'' (PhasePolicy_Validate (set (roster_ids d)) (cd_Phase1Policy d)),
       wrap ''phase2_policy'' (PhasePolicy_Validate (set (roster_ids d)) (cd_Phase2Policy d)),
       production_checks d,
       wrap ''beacon_policy'' (BeaconPolicy_Validate (cd_BeaconPolicy d)),
       wrap ''phase1_genesis'' (ArtifactRef_Validate (cd_Phase1Genesis d))]"

definition definition_validate :: "hash \<Rightarrow> bool \<Rightarrow> CeremonyDefinition \<Rightarrow> unit res" where
  "definition_validate H requireID d =
     all_ok
      [fail_if (cd_Schema d \<noteq> DefinitionSchema) ''definition schema'',
       id_check requireID ''ceremony_id'' (cd_CeremonyID d),
       definition_checks H d]"

section \<open>Encoding and identity\<close>

definition json_CeremonyDefinition :: "CeremonyDefinition \<Rightarrow> json" where
  "json_CeremonyDefinition d =
     JObj [(''schema'', JStr (cd_Schema d)), (''ceremony_id'', JStr (cd_CeremonyID d)),
           (''mode'', JStr (cd_Mode d)), (''created_at'', JStr (cd_CreatedAt d)),
           (''session_nonce_hex'', JStr (cd_SessionNonceHex d)),
           (''circuit'', json_CircuitBinding (cd_Circuit d)),
           (''software'', json_SoftwareBinding (cd_Software d)),
           (''coordinator'', json_Identity (cd_Coordinator d)),
           (''release_signer'', json_Identity (cd_ReleaseSigner d)),
           (''auditors'', JArr (map json_Identity (cd_Auditors d))),
           (''roster'', JArr (map json_Participant (cd_Roster d))),
           (''phase1_policy'', json_PhasePolicy (cd_Phase1Policy d)),
           (''phase2_policy'', json_PhasePolicy (cd_Phase2Policy d)),
           (''beacon_policy'', json_BeaconPolicy (cd_BeaconPolicy d)),
           (''phase1_genesis'', json_ArtifactRef (cd_Phase1Genesis d))]"

definition definition_tag :: string where
  "definition_tag = ''proof-tool/mpc-ceremony/root/v1''"

abbreviation set_ceremony_id :: "string \<Rightarrow> CeremonyDefinition \<Rightarrow> CeremonyDefinition" where
  "set_ceremony_id x d \<equiv> d\<lparr>cd_CeremonyID := x\<rparr>"

definition ComputeCeremonyID :: "hash \<Rightarrow> CeremonyDefinition \<Rightarrow> string res" where
  "ComputeCeremonyID H =
     compute_id H definition_tag json_CeremonyDefinition set_ceremony_id (definition_validate H)"

definition CeremonyDefinition_Validate :: "hash \<Rightarrow> CeremonyDefinition \<Rightarrow> unit res" where
  "CeremonyDefinition_Validate H =
     validate_id H definition_tag json_CeremonyDefinition cd_CeremonyID set_ceremony_id (definition_validate H)"

definition FinalizeCeremonyDefinition :: "hash \<Rightarrow> CeremonyDefinition \<Rightarrow> CeremonyDefinition res" where
  "FinalizeCeremonyDefinition H d =
     new_record H definition_tag json_CeremonyDefinition cd_CeremonyID set_ceremony_id (definition_validate H)
       (d\<lparr>cd_Schema := DefinitionSchema\<rparr>)"

definition NewCeremonyDefinition :: "hash \<Rightarrow> DefinitionOptions \<Rightarrow> CeremonyDefinition res" where
  "NewCeremonyDefinition H opts =
     new_record H definition_tag json_CeremonyDefinition cd_CeremonyID set_ceremony_id (definition_validate H)
       \<lparr>cd_Schema = DefinitionSchema, cd_CeremonyID = [], cd_Mode = do_Mode opts, cd_CreatedAt = do_CreatedAt opts,
        cd_SessionNonceHex = do_SessionNonceHex opts, cd_Circuit = do_Circuit opts, cd_Software = do_Software opts,
        cd_Coordinator = do_Coordinator opts, cd_ReleaseSigner = do_ReleaseSigner opts,
        cd_Auditors = do_Auditors opts, cd_Roster = do_Roster opts,
        cd_Phase1Policy = clonePhasePolicy (do_Phase1Policy opts),
        cd_Phase2Policy = clonePhasePolicy (do_Phase2Policy opts),
        cd_BeaconPolicy = do_BeaconPolicy opts, cd_Phase1Genesis = do_Phase1Genesis opts\<rparr>"

definition PolicyForPhase :: "CeremonyDefinition \<Rightarrow> Phase \<Rightarrow> PhasePolicy res" where
  "PolicyForPhase d phase =
     (if phase = Phase1 then Inr (clonePhasePolicy (cd_Phase1Policy d))
      else if phase = Phase2 then Inr (clonePhasePolicy (cd_Phase2Policy d))
      else Inl (Err ''unsupported phase''))"

definition ParticipantByID :: "CeremonyDefinition \<Rightarrow> string \<Rightarrow> Participant option" where
  "ParticipantByID d i = List.find (\<lambda>p. id_ID (pt_Identity p) = i) (cd_Roster d)"

definition json_PhaseScope :: "string \<Rightarrow> Phase \<Rightarrow> ArtifactRef \<Rightarrow> string \<Rightarrow> json" where
  "json_PhaseScope ceremonyID phase genesis parentSealID =
     JObj [(''ceremony_id'', JStr ceremonyID), (''phase'', JStr phase), (''genesis'', json_ArtifactRef genesis),
           (''parent_seal_id'', JStr parentSealID)]"

definition phase_tag :: string where "phase_tag = ''proof-tool/mpc-ceremony/phase/v1''"

definition ComputePhaseID :: "hash \<Rightarrow> string \<Rightarrow> Phase \<Rightarrow> ArtifactRef \<Rightarrow> string \<Rightarrow> string res" where
  "ComputePhaseID H ceremonyID phase genesis parentSealID =
     bind_r (all_ok
      [wrap ''ceremony_id'' (validateTaggedHex ceremonyID ''sha256:'' 32),
       Phase_Validate phase,
       wrap ''genesis'' (ArtifactRef_Validate genesis),
       fail_if (phase = Phase1 \<and> parentSealID \<noteq> []) ''phase1 must not have a parent seal'',
       (if phase = Phase2 then wrap ''phase2 parent seal'' (validateTaggedHex parentSealID ''sha256:'' 32)
        else Inr ())]) (\<lambda>_.
     Inr (canonicalHash H phase_tag (json_PhaseScope ceremonyID phase genesis parentSealID)))"

section \<open>What validation accepts\<close>

definition all_identities :: "CeremonyDefinition \<Rightarrow> Identity list" where
  "all_identities d = cd_Coordinator d # cd_ReleaseSigner d # cd_Auditors d @ map pt_Identity (cd_Roster d)"

lemma auditor_loop_ok:
  "auditor_loop H as (ids, keys, fps) = Inr seen \<longleftrightarrow>
     (\<forall>a \<in> set as. Identity_Validate H a = Inr ()) \<and>
     distinct (map id_ID as) \<and> set (map id_ID as) \<inter> set ids = {} \<and>
     distinct (map id_KeyID as) \<and> set (map id_KeyID as) \<inter> set keys = {} \<and>
     distinct (map id_PublicKeyFingerprint as) \<and> set (map id_PublicKeyFingerprint as) \<inter> set fps = {} \<and>
     seen = (rev (map id_ID as) @ ids, rev (map id_KeyID as) @ keys,
             rev (map id_PublicKeyFingerprint as) @ fps)"
proof (induction as arbitrary: ids keys fps)
  case Nil
  then show ?case by auto
next
  case (Cons a as)
  show ?case by (auto simp: Cons.IH)
qed

lemma roster_loop_ok:
  "roster_loop H ps roster (ids, keys, fps) = Inr u \<longleftrightarrow>
     (\<forall>p \<in> set ps. Participant_Validate H p = Inr ()) \<and>
     distinct (map (\<lambda>p. id_ID (pt_Identity p)) ps) \<and>
     set (map (\<lambda>p. id_ID (pt_Identity p)) ps) \<inter> (set roster \<union> set ids) = {} \<and>
     distinct (map (\<lambda>p. id_KeyID (pt_Identity p)) ps) \<and>
     set (map (\<lambda>p. id_KeyID (pt_Identity p)) ps) \<inter> set keys = {} \<and>
     distinct (map (\<lambda>p. id_PublicKeyFingerprint (pt_Identity p)) ps) \<and>
     set (map (\<lambda>p. id_PublicKeyFingerprint (pt_Identity p)) ps) \<inter> set fps = {}"
proof (induction ps arbitrary: roster ids keys fps u)
  case Nil
  then show ?case by auto
next
  case (Cons p ps)
  show ?case by (auto simp: Cons.IH Let_def)
qed


lemma distinct_parties:
  "distinct (map f (c # r # as @ map g ps)) \<longleftrightarrow>
     f r \<noteq> f c \<and>
     (distinct (map f as) \<and> set (map f as) \<inter> set [f c, f r] = {}) \<and>
     distinct (map (\<lambda>p. f (g p)) ps) \<and> set (map (\<lambda>p. f (g p)) ps) \<inter> set (rev (map f as) @ [f c, f r]) = {}"
proof -
  have "distinct (map f (c # r # as @ map g ps)) = distinct ([f c, f r] @ map f as @ map (\<lambda>p. f (g p)) ps)"
    by (simp add: comp_def)
  also have "\<dots> \<longleftrightarrow> distinct [f c, f r] \<and> distinct (map f as) \<and> distinct (map (\<lambda>p. f (g p)) ps) \<and>
      set (map f as) \<inter> set [f c, f r] = {} \<and>
     set (map (\<lambda>p. f (g p)) ps) \<inter> set (rev (map f as) @ [f c, f r]) = {}"
    unfolding distinct_append set_append set_rev by blast
  finally show ?thesis by auto
qed

lemma loops_ok:
  "bind_r (auditor_loop H as ([i, i'], [k, k'], [f, f'])) (\<lambda>seen. bind_r (fail_if b m) (\<lambda>_. roster_loop H ps [] seen)) = Inr u \<longleftrightarrow>
     (\<forall>a \<in> set as. Identity_Validate H a = Inr ()) \<and> \<not> b \<and>
     (\<forall>p \<in> set ps. Participant_Validate H p = Inr ()) \<and>
     (distinct (map id_ID as) \<and> set (map id_ID as) \<inter> set [i, i'] = {}) \<and>
     (distinct (map id_KeyID as) \<and> set (map id_KeyID as) \<inter> set [k, k'] = {}) \<and>
     (distinct (map id_PublicKeyFingerprint as) \<and> set (map id_PublicKeyFingerprint as) \<inter> set [f, f'] = {}) \<and>
     distinct (map (\<lambda>p. id_ID (pt_Identity p)) ps) \<and>
     set (map (\<lambda>p. id_ID (pt_Identity p)) ps) \<inter> set (rev (map id_ID as) @ [i, i']) = {} \<and>
     distinct (map (\<lambda>p. id_KeyID (pt_Identity p)) ps) \<and>
     set (map (\<lambda>p. id_KeyID (pt_Identity p)) ps) \<inter> set (rev (map id_KeyID as) @ [k, k']) = {} \<and>
     distinct (map (\<lambda>p. id_PublicKeyFingerprint (pt_Identity p)) ps) \<and>
     set (map (\<lambda>p. id_PublicKeyFingerprint (pt_Identity p)) ps) \<inter>
       set (rev (map id_PublicKeyFingerprint as) @ [f, f']) = {}"
proof -
  have ex: "(\<exists>x. (A \<and> x = t) \<and> Q x) \<longleftrightarrow> A \<and> Q t" for A Q and t :: seen by blast
  show ?thesis
    unfolding bind_r_ok auditor_loop_ok fail_if_ok conj_assoc [symmetric] ex
    unfolding roster_loop_ok by (simp only: list.set Un_empty_left simp_thms ex_simps conj_ac)
qed

lemma ball_identities:
  "(\<forall>i \<in> set (all_identities d). P i) \<longleftrightarrow>
     P (cd_Coordinator d) \<and> P (cd_ReleaseSigner d) \<and> (\<forall>a \<in> set (cd_Auditors d). P a) \<and>
     (\<forall>p \<in> set (cd_Roster d). P (pt_Identity p))"
  by (auto simp: all_identities_def)

text \<open>The identity checks accept exactly a set of parties that share no id, key id or
  public-key fingerprint.\<close>

lemma identity_checks_ok [ok_iff]:
  "identity_checks H d = Inr u \<longleftrightarrow>
     (\<forall>i \<in> set (all_identities d). Identity_Validate H i = Inr ()) \<and>
     distinct (map id_ID (all_identities d)) \<and>
     distinct (map id_KeyID (all_identities d)) \<and>
     distinct (map id_PublicKeyFingerprint (all_identities d)) \<and>
     2 \<le> length (cd_Auditors d) \<and> cd_Roster d \<noteq> [] \<and> length (cd_Roster d) \<le> MaxParticipants"
  unfolding identity_checks_def ball_identities Let_def
    all_ok_Cons all_ok.simps(1) wrap_ok fail_if_ok loops_ok not_less length_0_conv Participant_Validate_def
  unfolding all_identities_def distinct_parties
  by (simp only: list.set singleton_iff de_Morgan_disj not_less simp_thms)
    argo

lemma definition_checks_ok [ok_iff]:
  "definition_checks H d = Inr u \<longleftrightarrow>
     mode_checks d = Inr () \<and> timestamp_ok (cd_CreatedAt d) \<and> hex_of_len 32 (cd_SessionNonceHex d) \<and>
     CircuitBinding_Validate (cd_Circuit d) = Inr () \<and> SoftwareBinding_Validate (cd_Software d) = Inr () \<and>
     identity_checks H d = Inr () \<and>
     PhasePolicy_Validate (set (roster_ids d)) (cd_Phase1Policy d) = Inr () \<and>
     PhasePolicy_Validate (set (roster_ids d)) (cd_Phase2Policy d) = Inr () \<and>
     production_checks d = Inr () \<and> BeaconPolicy_Validate (cd_BeaconPolicy d) = Inr () \<and>
     ArtifactRef_Validate (cd_Phase1Genesis d) = Inr ()"
  by (simp add: definition_checks_def)

lemma mode_checks_set_id [simp]: "mode_checks (set_ceremony_id x d) = mode_checks d"
  by (simp add: mode_checks_def Let_def cong: if_cong)

lemma identity_checks_set_id [simp]: "identity_checks H (set_ceremony_id x d) = identity_checks H d"
  by (simp add: identity_checks_def)

lemma roster_ids_set_id [simp]: "roster_ids (set_ceremony_id x d) = roster_ids d"
  by (simp add: roster_ids_def)

lemma production_checks_set_id [simp]: "production_checks (set_ceremony_id x d) = production_checks d"
  by (simp add: production_checks_def cong: if_cong)

lemma definition_checks_set_id [simp]: "definition_checks H (set_ceremony_id x d) = definition_checks H d"
  by (simp add: definition_checks_def)

section \<open>The contract of a content-derived identity\<close>

definition definition_text :: "CeremonyDefinition \<Rightarrow> bool" where
  "definition_text d \<longleftrightarrow> software_text (cd_Software d)"

lemma mode_cases: "mode_checks d = Inr u \<Longrightarrow> cd_Mode d = ModeRehearsal \<or> cd_Mode d = ModeProduction"
  by (auto simp: mode_checks_def Let_def split: if_splits)

lemma modes_differ [simp]: "ModeRehearsal \<noteq> ModeProduction" "ModeProduction \<noteq> ModeRehearsal"
  by (simp_all add: ModeRehearsal_def ModeProduction_def)

lemma utf8_modes [simp]: "valid_utf8 ModeRehearsal" "valid_utf8 ModeProduction" "valid_utf8 DefinitionSchema"
  by (simp_all add: ModeRehearsal_def ModeProduction_def DefinitionSchema_def code_def)

lemma Identity_id_utf8: "Identity_Validate H i = Inr () \<Longrightarrow> valid_utf8 (id_ID i)"
  by (auto simp: Identity_Validate_def intro: utf8_id)

lemma roster_in_identities: "p \<in> set (cd_Roster d) \<Longrightarrow> pt_Identity p \<in> set (all_identities d)"
  by (simp add: all_identities_def)

lemma roster_ids_utf8: "identity_checks H d = Inr () \<Longrightarrow> \<forall>x \<in> set (roster_ids d). valid_utf8 x"
  using roster_in_identities Identity_id_utf8 by (fastforce simp: identity_checks_ok roster_ids_def)

lemma identity_checks_member:
  assumes "identity_checks H d = Inr ()"
  shows "json_utf8 (json_Identity (cd_Coordinator d))" "json_utf8 (json_Identity (cd_ReleaseSigner d))"
    "a \<in> set (cd_Auditors d) \<Longrightarrow> json_utf8 (json_Identity a)"
    "p \<in> set (cd_Roster d) \<Longrightarrow> json_utf8 (json_Participant p)"
  using assms by (auto simp: identity_checks_ok all_identities_def Participant_Validate_def
      intro!: Identity_text Participant_text)

lemma definition_json_text:
  assumes "definition_validate H False d = Inr ()" and "definition_text d"
  shows "json_utf8 (json_CeremonyDefinition d)"
proof -
  have v: "definition_checks H d = Inr ()" "cd_Schema d = DefinitionSchema" "cd_CeremonyID d = []"
    using assms(1) by (simp_all add: definition_validate_def)
  note c = v(1) [unfolded definition_checks_ok]
  have m: "valid_utf8 (cd_Mode d)" using c mode_cases utf8_modes by metis
  have p: "json_utf8 (json_PhasePolicy (cd_Phase1Policy d))" "json_utf8 (json_PhasePolicy (cd_Phase2Policy d))"
    using c roster_ids_utf8 PhasePolicy_text by blast+
  show ?thesis
    unfolding json_CeremonyDefinition_def
    by (subst json_utf8_obj)
      (use c v m p assms(2) identity_checks_member in \<open>auto simp: ascii_keys_def code_def definition_text_def
        intro: utf8_fields CircuitBinding_text SoftwareBinding_text BeaconPolicy_text ArtifactRef_text\<close>)
qed

lemma json_map_inj:
  "(\<And>x y. f x = f y \<longleftrightarrow> x = y) \<Longrightarrow> map f a = map f b \<longleftrightarrow> a = b"
  by (simp add: inj_map_eq_map inj_def)

lemma json_CeremonyDefinition_inj [json_inj]:
  "json_CeremonyDefinition a = json_CeremonyDefinition b \<longleftrightarrow> a = b"
  by (cases a; cases b) (auto simp: json_CeremonyDefinition_def json_inj json_map_inj)

interpretation cdef: content_record definition_tag json_CeremonyDefinition cd_CeremonyID set_ceremony_id
    "definition_validate H" definition_text for H
  by unfold_locales
    (auto simp: domain_tag_def definition_tag_def json_inj definition_validate_def definition_text_def
      intro: definition_json_text)

lemma CeremonyDefinition_Validate_ok:
  assumes "hash32 H"
  shows "CeremonyDefinition_Validate H d = Inr u \<longleftrightarrow>
     cd_Schema d = DefinitionSchema \<and> definition_checks H d = Inr () \<and>
     cd_CeremonyID d = canonicalHash H definition_tag (json_CeremonyDefinition (set_ceremony_id [] d))"
  unfolding CeremonyDefinition_Validate_def cdef.validate_iff [OF assms]
  by (auto simp: definition_validate_def)

lemma definition_Validate_checks:
  "CeremonyDefinition_Validate H d = Inr u \<Longrightarrow>
     definition_checks H d = Inr () \<and> cd_Schema d = DefinitionSchema \<and> tagged_hex ''sha256:'' 32 (cd_CeremonyID d)"
  unfolding CeremonyDefinition_Validate_def
  by (drule cdef.validate_val) (simp add: definition_validate_def)

section \<open>Lookups\<close>

lemma PolicyForPhase_ok [simp, ok_iff]:
  "PolicyForPhase d p = Inr x \<longleftrightarrow>
     p = Phase1 \<and> x = cd_Phase1Policy d \<or> p = Phase2 \<and> x = cd_Phase2Policy d"
  by (auto simp: PolicyForPhase_def)

lemma ParticipantByID_Some:
  "ParticipantByID d i = Some p \<Longrightarrow> p \<in> set (cd_Roster d) \<and> id_ID (pt_Identity p) = i"
  unfolding ParticipantByID_def by (auto simp: find_Some_iff in_set_conv_nth)

lemma ParticipantByID_total: "ParticipantByID d i \<noteq> None \<longleftrightarrow> i \<in> set (roster_ids d)"
  unfolding ParticipantByID_def roster_ids_def by (auto simp: find_None_iff image_iff)

lemma ParticipantByID_unique:
  assumes "distinct (roster_ids d)" and "p \<in> set (cd_Roster d)"
  shows "ParticipantByID d (id_ID (pt_Identity p)) = Some p"
proof -
  have "ParticipantByID d (id_ID (pt_Identity p)) \<noteq> None"
    unfolding ParticipantByID_total using assms(2) by (simp add: roster_ids_def)
  then obtain q where q: "ParticipantByID d (id_ID (pt_Identity p)) = Some q" by blast
  with assms have "q = p"
    using ParticipantByID_Some [OF q] by (auto simp: roster_ids_def distinct_map dest: inj_onD)
  with q show ?thesis by simp
qed

text \<open>The policy of a phase in a valid definition: distinct roster members, a positive
  minimum, and in production mode the complete schedule.\<close>

lemma phase_policy_ok:
  assumes "definition_checks H d = Inr ()" and "PolicyForPhase d p = Inr policy"
  shows "distinct (pp_Participants policy)" "set (pp_Participants policy) \<subseteq> set (roster_ids d)"
    "pp_Participants policy \<noteq> []" "0 < unat (pp_Minimum policy)"
    "unat (pp_Minimum policy) \<le> length (pp_Participants policy)"
    "length (pp_Participants policy) \<le> MaxParticipants"
    "cd_Mode d = ModeProduction \<Longrightarrow> unat (pp_Minimum policy) = length (pp_Participants policy)"
    "cd_Mode d = ModeProduction \<Longrightarrow> 2 \<le> length (pp_Participants policy)"
  using assms by (auto simp: definition_checks_ok PhasePolicy_Validate_ok production_checks_def not_less
      unat_eq_0 zero_less_iff_neq_zero split: if_splits)

text \<open>The scheduled order and the parties of one definition.\<close>

lemma definition_parties:
  assumes "definition_checks H d = Inr ()"
  shows "distinct (map id_ID (all_identities d))" "distinct (map id_KeyID (all_identities d))"
    "distinct (map id_PublicKeyFingerprint (all_identities d))" "distinct (roster_ids d)"
    "i \<in> set (all_identities d) \<Longrightarrow> Identity_Validate H i = Inr ()"
  using assms by (auto simp: definition_checks_ok identity_checks_ok)
    (simp add: all_identities_def roster_ids_def comp_def)

lemma ComputePhaseID_ok [ok_iff]:
  "ComputePhaseID H c p g s = Inr i \<longleftrightarrow>
     tagged_hex ''sha256:'' 32 c \<and> ArtifactRef_Validate g = Inr () \<and>
     (p = Phase1 \<and> s = [] \<or> p = Phase2 \<and> tagged_hex ''sha256:'' 32 s) \<and>
     i = canonicalHash H phase_tag (json_PhaseScope c p g s)"
  by (auto simp: ComputePhaseID_def)

end
