(* ===== verification/McAttestation.thy ===== *)
theory McAttestation
  imports McDefinition
begin

text \<open>
  \<^verbatim>\<open>internal/mpcceremony/attestation.go\<close>: detached Ed25519 signatures over exact
  bytes, the contribution and erasure attestations, and the check that an erasure
  statement belongs to a contribution and happened after it. Ed25519 signing and
  verification are the parameters \<open>sign\<close> and \<open>verify\<close>.
\<close>

section \<open>Detached signatures\<close>

record DetachedSignature =
  ds_Schema :: string
  ds_Algorithm :: string
  ds_KeyID :: string
  ds_PublicKeyFingerprint :: string
  ds_SignedSHA256 :: string
  ds_SignatureHex :: string

definition DetachedSignature_Validate :: "DetachedSignature \<Rightarrow> unit res" where
  "DetachedSignature_Validate s =
     all_ok
      [fail_if (ds_Schema s \<noteq> DetachedSignatureSchema) ''signature schema'',
       fail_if (ds_Algorithm s \<noteq> SignatureAlgorithm) ''signature algorithm'',
       validateID ''signature key_id'' (ds_KeyID s),
       wrap ''signature public_key_fingerprint'' (validateTaggedHex (ds_PublicKeyFingerprint s) ''sha256:'' 32),
       wrap ''signature signed_sha256'' (validateTaggedHex (ds_SignedSHA256 s) ''sha256:'' 32),
       wrap ''signature_hex'' (validateHex (ds_SignatureHex s) 64)]"

text \<open>A Go Ed25519 private key is the 32-byte seed followed by the public key.\<close>

definition ed25519_public :: "bytes \<Rightarrow> bytes" where
  "ed25519_public privateKey = take 32 (drop 32 privateKey)"

definition SignExact ::
    "hash \<Rightarrow> (bytes \<Rightarrow> bytes \<Rightarrow> bytes) \<Rightarrow> bytes \<Rightarrow> string \<Rightarrow> bytes \<Rightarrow> DetachedSignature res" where
  "SignExact H sign data keyID privateKey =
     bind_r (all_ok
       [fail_if (data = []) ''cannot sign empty data'',
        validateID ''signature key_id'' keyID,
        fail_if (length privateKey \<noteq> 64) ''Ed25519 private key size'']) (\<lambda>_.
     let publicKey = ed25519_public privateKey;
         signature = \<lparr>ds_Schema = DetachedSignatureSchema, ds_Algorithm = SignatureAlgorithm,
                      ds_KeyID = keyID, ds_PublicKeyFingerprint = taggedSHA256 H publicKey,
                      ds_SignedSHA256 = taggedSHA256 H data,
                      ds_SignatureHex = hex_encode (sign privateKey data)\<rparr>
     in bind_r (fail_if (length publicKey \<noteq> 32) ''derive Ed25519 public key'') (\<lambda>_.
        bind_r (DetachedSignature_Validate signature) (\<lambda>_. Inr signature)))"

definition VerifyExact ::
    "hash \<Rightarrow> (bytes \<Rightarrow> bytes \<Rightarrow> bytes \<Rightarrow> bool) \<Rightarrow> bytes \<Rightarrow> DetachedSignature \<Rightarrow> string \<Rightarrow> bytes \<Rightarrow> unit res" where
  "VerifyExact H verify data signature expectedKeyID publicKey =
     all_ok
      [DetachedSignature_Validate signature,
       fail_if (data = []) ''signed data is empty'',
       fail_if (length publicKey \<noteq> 32) ''Ed25519 public key size'',
       fail_if (ds_KeyID signature \<noteq> expectedKeyID) ''signature key_id'',
       fail_if (ds_PublicKeyFingerprint signature \<noteq> taggedSHA256 H publicKey)
         ''signature public-key fingerprint mismatch'',
       fail_if (ds_SignedSHA256 signature \<noteq> taggedSHA256 H data) ''signature signed-data digest mismatch'',
       (case hex_decode (ds_SignatureHex signature) of
          None \<Rightarrow> Inl (Err ''decode signature'')
        | Some raw \<Rightarrow> fail_if (\<not> verify publicKey data raw) ''Ed25519 signature verification failed'')]"

text \<open>What Ed25519 promises: 64-byte signatures that verify under the key's public half.\<close>

definition ed25519_scheme :: "(bytes \<Rightarrow> bytes \<Rightarrow> bytes) \<Rightarrow> (bytes \<Rightarrow> bytes \<Rightarrow> bytes \<Rightarrow> bool) \<Rightarrow> bytes \<Rightarrow> bool" where
  "ed25519_scheme sign verify k \<longleftrightarrow>
     (\<forall>m. length (sign k m) = 64 \<and> verify (ed25519_public k) m (sign k m))"

lemma DetachedSignature_Validate_ok [ok_iff]:
  "DetachedSignature_Validate s = Inr u \<longleftrightarrow>
     ds_Schema s = DetachedSignatureSchema \<and> ds_Algorithm s = SignatureAlgorithm \<and>
     (ds_KeyID s \<noteq> [] \<and> length (ds_KeyID s) \<le> 128 \<and> list_all id_char (ds_KeyID s)) \<and>
     tagged_hex ''sha256:'' 32 (ds_PublicKeyFingerprint s) \<and> tagged_hex ''sha256:'' 32 (ds_SignedSHA256 s) \<and>
     hex_of_len 64 (ds_SignatureHex s)"
  by (simp add: DetachedSignature_Validate_def)

lemma hex_encode_of_len: "hex_of_len (length x) (hex_encode x)"
  unfolding hex_of_len_def using hex_encode_lower length_hex_encode by metis

lemma hex_split:
  assumes "hex_of_len n s"
  obtains raw where "s = hex_encode raw" "length raw = n"
proof -
  obtain raw where "hex_decode s = Some raw"
    using assms hex_decode_lower_total [of s] by (auto simp: hex_of_len_def)
  then have "s = hex_encode raw" using assms hex_encode_decode by (simp add: hex_of_len_def)
  with assms that show thesis by (simp add: hex_of_len_def)
qed

lemma VerifyExact_ok [ok_iff]:
  "VerifyExact H verify data s k pub = Inr u \<longleftrightarrow>
     DetachedSignature_Validate s = Inr () \<and> data \<noteq> [] \<and> length pub = 32 \<and> ds_KeyID s = k \<and>
     ds_PublicKeyFingerprint s = taggedSHA256 H pub \<and> ds_SignedSHA256 s = taggedSHA256 H data \<and>
     (\<exists>raw. ds_SignatureHex s = hex_encode raw \<and> length raw = 64 \<and> verify pub data raw)"
proof (cases "hex_of_len 64 (ds_SignatureHex s)")
  case True
  then obtain raw where "ds_SignatureHex s = hex_encode raw" "length raw = 64" by (rule hex_split)
  then show ?thesis by (auto simp: VerifyExact_def)
qed (auto simp: VerifyExact_def DetachedSignature_Validate_ok)

section \<open>Erasure attestations\<close>

record ErasureAttestation =
  ea_Schema :: string
  ea_ErasureID :: string
  ea_CeremonyID :: string
  ea_Phase :: Phase
  ea_PhaseID :: string
  ea_Index :: u8
  ea_ParticipantID :: string
  ea_ParticipantKeyID :: string
  ea_ContributionAttestationID :: string
  ea_OutputPayload :: ArtifactRef
  ea_DestroyedAt :: string
  ea_ProcessTerminated :: bool
  ea_EphemeralStorageDestroyed :: bool
  ea_NoBackupRetained :: bool

definition index_check :: "string \<Rightarrow> u8 \<Rightarrow> unit res" where
  "index_check label i = fail_if (i = 0 \<or> unat i > MaxParticipants) (label @ '' index must be between 1 and 20'')"

definition erasure_validate :: "bool \<Rightarrow> ErasureAttestation \<Rightarrow> unit res" where
  "erasure_validate requireID a =
     all_ok
      [fail_if (ea_Schema a \<noteq> ErasureAttestationSchema) ''erasure schema'',
       id_check requireID ''erasure_id'' (ea_ErasureID a),
       wrap ''ceremony_id'' (validateTaggedHex (ea_CeremonyID a) ''sha256:'' 32),
       Phase_Validate (ea_Phase a),
       wrap ''phase_id'' (validateTaggedHex (ea_PhaseID a) ''sha256:'' 32),
       index_check ''erasure'' (ea_Index a),
       validateID ''participant_id'' (ea_ParticipantID a),
       validateID ''participant_key_id'' (ea_ParticipantKeyID a),
       wrap ''contribution_attestation_id'' (validateTaggedHex (ea_ContributionAttestationID a) ''sha256:'' 32),
       wrap ''output_payload'' (ArtifactRef_Validate (ea_OutputPayload a)),
       validateTimestamp ''destroyed_at'' (ea_DestroyedAt a),
       fail_if (\<not> ea_ProcessTerminated a \<or> \<not> ea_EphemeralStorageDestroyed a \<or> \<not> ea_NoBackupRetained a)
         ''erasure attestation requires process termination, ephemeral storage destruction, and no retained backup'']"

definition json_ErasureAttestation :: "ErasureAttestation \<Rightarrow> json" where
  "json_ErasureAttestation a =
     JObj [(''schema'', JStr (ea_Schema a)), (''erasure_id'', JStr (ea_ErasureID a)),
           (''ceremony_id'', JStr (ea_CeremonyID a)), (''phase'', JStr (ea_Phase a)),
           (''phase_id'', JStr (ea_PhaseID a)), (''index'', json_word (ea_Index a)),
           (''participant_id'', JStr (ea_ParticipantID a)), (''participant_key_id'', JStr (ea_ParticipantKeyID a)),
           (''contribution_attestation_id'', JStr (ea_ContributionAttestationID a)),
           (''output_payload'', json_ArtifactRef (ea_OutputPayload a)), (''destroyed_at'', JStr (ea_DestroyedAt a)),
           (''process_terminated'', JBool (ea_ProcessTerminated a)),
           (''ephemeral_storage_destroyed'', JBool (ea_EphemeralStorageDestroyed a)),
           (''no_backup_retained'', JBool (ea_NoBackupRetained a))]"

definition erasure_tag :: string where
  "erasure_tag = ''proof-tool/mpc-ceremony/erasure-attestation/v1''"

abbreviation set_erasure_id :: "string \<Rightarrow> ErasureAttestation \<Rightarrow> ErasureAttestation" where
  "set_erasure_id x a \<equiv> a\<lparr>ea_ErasureID := x\<rparr>"

definition ComputeErasureAttestationID :: "hash \<Rightarrow> ErasureAttestation \<Rightarrow> string res" where
  "ComputeErasureAttestationID H =
     compute_id H erasure_tag json_ErasureAttestation set_erasure_id erasure_validate"

definition ErasureAttestation_Validate :: "hash \<Rightarrow> ErasureAttestation \<Rightarrow> unit res" where
  "ErasureAttestation_Validate H =
     validate_id H erasure_tag json_ErasureAttestation ea_ErasureID set_erasure_id erasure_validate"

definition NewErasureAttestation :: "hash \<Rightarrow> ErasureAttestation \<Rightarrow> ErasureAttestation res" where
  "NewErasureAttestation H a =
     new_record H erasure_tag json_ErasureAttestation ea_ErasureID set_erasure_id erasure_validate
       (a\<lparr>ea_Schema := ErasureAttestationSchema\<rparr>)"

lemma json_ErasureAttestation_inj [json_inj]: "json_ErasureAttestation a = json_ErasureAttestation b \<longleftrightarrow> a = b"
  by (cases a; cases b) (auto simp: json_ErasureAttestation_def json_inj)

lemma utf8_schemas [simp]:
  "valid_utf8 DetachedSignatureSchema" "valid_utf8 SignatureAlgorithm"
  "valid_utf8 ContributionAttestationSchema" "valid_utf8 ErasureAttestationSchema" "valid_utf8 ChainSchema"
  "valid_utf8 ChainRecordSchema" "valid_utf8 CloseRecordSchema" "valid_utf8 BeaconRecordSchema"
  "valid_utf8 SealRecordSchema" "valid_utf8 AuditRecordSchema" "valid_utf8 FinalTranscriptSchema"
  by (simp_all add: DetachedSignatureSchema_def SignatureAlgorithm_def ContributionAttestationSchema_def
      ErasureAttestationSchema_def ChainSchema_def ChainRecordSchema_def CloseRecordSchema_def
      BeaconRecordSchema_def SealRecordSchema_def AuditRecordSchema_def FinalTranscriptSchema_def code_def)

lemma Phase_utf8: "p = Phase1 \<or> p = Phase2 \<Longrightarrow> valid_utf8 p"
  by auto

lemma ErasureAttestation_text: "erasure_validate False a = Inr () \<Longrightarrow> json_utf8 (json_ErasureAttestation a)"
  unfolding json_ErasureAttestation_def
  by (subst json_utf8_obj)
    (auto simp: ascii_keys_def code_def erasure_validate_def intro: utf8_fields ArtifactRef_text)

interpretation erasure: content_record erasure_tag json_ErasureAttestation ea_ErasureID set_erasure_id
    erasure_validate "\<lambda>_. True"
  by unfold_locales
    (auto simp: domain_tag_def erasure_tag_def json_inj erasure_validate_def intro: ErasureAttestation_text)

section \<open>Contribution attestations\<close>

record ContributionEnvironment =
  ce_OS :: string
  ce_Architecture :: string
  ce_EntropySource :: string
  ce_SwapDisabled :: bool
  ce_CrashDumpsDisabled :: bool
  ce_TelemetryDisabled :: bool
  ce_EphemeralEnvironment :: bool
  ce_EphemeralDestructionRequired :: bool

definition ContributionEnvironment_Validate :: "ContributionEnvironment \<Rightarrow> unit res" where
  "ContributionEnvironment_Validate e =
     all_ok
      [fail_if (ce_OS e = [] \<or> ce_Architecture e = []) ''contribution environment OS and architecture are required'',
       fail_if (ce_EntropySource e \<noteq> ''operating-system-csprng'') ''entropy_source'',
       fail_if (\<not> ce_SwapDisabled e \<or> \<not> ce_CrashDumpsDisabled e \<or> \<not> ce_TelemetryDisabled e \<or>
                \<not> ce_EphemeralEnvironment e \<or> \<not> ce_EphemeralDestructionRequired e)
         ''all production contribution environment controls must be attested'']"

definition json_ContributionEnvironment :: "ContributionEnvironment \<Rightarrow> json" where
  "json_ContributionEnvironment e =
     JObj [(''os'', JStr (ce_OS e)), (''architecture'', JStr (ce_Architecture e)),
           (''entropy_source'', JStr (ce_EntropySource e)), (''swap_disabled'', JBool (ce_SwapDisabled e)),
           (''crash_dumps_disabled'', JBool (ce_CrashDumpsDisabled e)),
           (''telemetry_disabled'', JBool (ce_TelemetryDisabled e)),
           (''ephemeral_environment'', JBool (ce_EphemeralEnvironment e)),
           (''ephemeral_destruction_required'', JBool (ce_EphemeralDestructionRequired e))]"

record ContributionAttestation =
  ca_Schema :: string
  ca_AttestationID :: string
  ca_CeremonyID :: string
  ca_Phase :: Phase
  ca_PhaseID :: string
  ca_Index :: u8
  ca_ParticipantID :: string
  ca_ParticipantKeyID :: string
  ca_PreviousPayload :: ArtifactRef
  ca_OutputPayload :: ArtifactRef
  ca_PreviousAcceptanceID :: string
  ca_ToolBinary :: Digest
  ca_SourceCommit :: string
  ca_GnarkVersion :: string
  ca_GnarkCryptoVersion :: string
  ca_DrandVersion :: string
  ca_Environment :: ContributionEnvironment
  ca_ContributedAt :: string

definition contribution_validate :: "bool \<Rightarrow> ContributionAttestation \<Rightarrow> unit res" where
  "contribution_validate requireID a =
     all_ok
      [fail_if (ca_Schema a \<noteq> ContributionAttestationSchema) ''attestation schema'',
       id_check requireID ''attestation_id'' (ca_AttestationID a),
       wrap ''ceremony_id'' (validateTaggedHex (ca_CeremonyID a) ''sha256:'' 32),
       Phase_Validate (ca_Phase a),
       wrap ''phase_id'' (validateTaggedHex (ca_PhaseID a) ''sha256:'' 32),
       index_check ''contribution'' (ca_Index a),
       validateID ''participant_id'' (ca_ParticipantID a),
       validateID ''participant_key_id'' (ca_ParticipantKeyID a),
       wrap ''previous_payload'' (ArtifactRef_Validate (ca_PreviousPayload a)),
       wrap ''output_payload'' (ArtifactRef_Validate (ca_OutputPayload a)),
       fail_if (dg_SHA256 (ar_Digest (ca_PreviousPayload a)) = dg_SHA256 (ar_Digest (ca_OutputPayload a)))
         ''contribution output must differ from previous payload'',
       wrap ''previous_acceptance_id'' (validateTaggedHex (ca_PreviousAcceptanceID a) ''sha256:'' 32),
       wrap ''tool_binary'' (Digest_Validate (ca_ToolBinary a)),
       wrap ''source_commit'' (validateHex (ca_SourceCommit a) 20),
       fail_if (ca_GnarkVersion a \<noteq> GnarkVersion) ''gnark_version'',
       fail_if (ca_GnarkCryptoVersion a \<noteq> GnarkCryptoVersion) ''gnark_crypto_version'',
       fail_if (ca_DrandVersion a \<noteq> DrandVersion) ''drand_version'',
       wrap ''environment'' (ContributionEnvironment_Validate (ca_Environment a)),
       validateTimestamp ''contributed_at'' (ca_ContributedAt a)]"

definition json_ContributionAttestation :: "ContributionAttestation \<Rightarrow> json" where
  "json_ContributionAttestation a =
     JObj [(''schema'', JStr (ca_Schema a)), (''attestation_id'', JStr (ca_AttestationID a)),
           (''ceremony_id'', JStr (ca_CeremonyID a)), (''phase'', JStr (ca_Phase a)),
           (''phase_id'', JStr (ca_PhaseID a)), (''index'', json_word (ca_Index a)),
           (''participant_id'', JStr (ca_ParticipantID a)), (''participant_key_id'', JStr (ca_ParticipantKeyID a)),
           (''previous_payload'', json_ArtifactRef (ca_PreviousPayload a)),
           (''output_payload'', json_ArtifactRef (ca_OutputPayload a)),
           (''previous_acceptance_id'', JStr (ca_PreviousAcceptanceID a)),
           (''tool_binary'', json_Digest (ca_ToolBinary a)), (''source_commit'', JStr (ca_SourceCommit a)),
           (''gnark_version'', JStr (ca_GnarkVersion a)), (''gnark_crypto_version'', JStr (ca_GnarkCryptoVersion a)),
           (''drand_version'', JStr (ca_DrandVersion a)),
           (''environment'', json_ContributionEnvironment (ca_Environment a)),
           (''contributed_at'', JStr (ca_ContributedAt a))]"

definition contribution_tag :: string where
  "contribution_tag = ''proof-tool/mpc-ceremony/contribution-attestation/v1''"

abbreviation set_attestation_id :: "string \<Rightarrow> ContributionAttestation \<Rightarrow> ContributionAttestation" where
  "set_attestation_id x a \<equiv> a\<lparr>ca_AttestationID := x\<rparr>"

definition ComputeContributionAttestationID :: "hash \<Rightarrow> ContributionAttestation \<Rightarrow> string res" where
  "ComputeContributionAttestationID H =
     compute_id H contribution_tag json_ContributionAttestation set_attestation_id contribution_validate"

definition ContributionAttestation_Validate :: "hash \<Rightarrow> ContributionAttestation \<Rightarrow> unit res" where
  "ContributionAttestation_Validate H =
     validate_id H contribution_tag json_ContributionAttestation ca_AttestationID set_attestation_id
       contribution_validate"

definition NewContributionAttestation :: "hash \<Rightarrow> ContributionAttestation \<Rightarrow> ContributionAttestation res" where
  "NewContributionAttestation H a =
     new_record H contribution_tag json_ContributionAttestation ca_AttestationID set_attestation_id
       contribution_validate (a\<lparr>ca_Schema := ContributionAttestationSchema\<rparr>)"

text \<open>The operating system and architecture are free text that \<^verbatim>\<open>Validate\<close> only checks to be non-empty.\<close>

definition attestation_text :: "ContributionAttestation \<Rightarrow> bool" where
  "attestation_text a \<longleftrightarrow> valid_utf8 (ce_OS (ca_Environment a)) \<and> valid_utf8 (ce_Architecture (ca_Environment a))"

lemma json_ContributionEnvironment_inj [json_inj]:
  "json_ContributionEnvironment a = json_ContributionEnvironment b \<longleftrightarrow> a = b"
  by (cases a; cases b) (auto simp: json_ContributionEnvironment_def)

lemma json_ContributionAttestation_inj [json_inj]:
  "json_ContributionAttestation a = json_ContributionAttestation b \<longleftrightarrow> a = b"
  by (cases a; cases b) (auto simp: json_ContributionAttestation_def json_inj)

lemma ContributionEnvironment_text:
  "ContributionEnvironment_Validate e = Inr () \<Longrightarrow> valid_utf8 (ce_OS e) \<Longrightarrow> valid_utf8 (ce_Architecture e) \<Longrightarrow>
     json_utf8 (json_ContributionEnvironment e)"
  unfolding json_ContributionEnvironment_def
  by (subst json_utf8_obj)
    (auto simp: ascii_keys_def code_def ContributionEnvironment_Validate_def)

lemma ContributionAttestation_text:
  "contribution_validate False a = Inr () \<Longrightarrow> attestation_text a \<Longrightarrow> json_utf8 (json_ContributionAttestation a)"
  unfolding json_ContributionAttestation_def
  by (subst json_utf8_obj)
    (auto simp: ascii_keys_def code_def contribution_validate_def attestation_text_def
      intro: utf8_fields ArtifactRef_text Digest_text ContributionEnvironment_text)

interpretation contribution: content_record contribution_tag json_ContributionAttestation ca_AttestationID
    set_attestation_id contribution_validate attestation_text
  by unfold_locales
    (auto simp: domain_tag_def contribution_tag_def json_inj contribution_validate_def attestation_text_def
      intro: ContributionAttestation_text [unfolded contribution_validate_def attestation_text_def])

section \<open>Erasure after contribution\<close>

definition ValidateErasureForContribution ::
    "hash \<Rightarrow> ContributionAttestation \<Rightarrow> ErasureAttestation \<Rightarrow> unit res" where
  "ValidateErasureForContribution H contribution erasure =
     all_ok
      [wrap ''contribution'' (ContributionAttestation_Validate H contribution),
       wrap ''erasure'' (ErasureAttestation_Validate H erasure),
       fail_if (ea_CeremonyID erasure \<noteq> ca_CeremonyID contribution \<or>
                ea_Phase erasure \<noteq> ca_Phase contribution \<or>
                ea_PhaseID erasure \<noteq> ca_PhaseID contribution \<or>
                ea_Index erasure \<noteq> ca_Index contribution \<or>
                ea_ParticipantID erasure \<noteq> ca_ParticipantID contribution \<or>
                ea_ParticipantKeyID erasure \<noteq> ca_ParticipantKeyID contribution \<or>
                ea_ContributionAttestationID erasure \<noteq> ca_AttestationID contribution \<or>
                ea_OutputPayload erasure \<noteq> ca_OutputPayload contribution)
         ''erasure attestation does not exactly bind contribution'',
       fail_if (\<not> go_time (ea_DestroyedAt erasure) > go_time (ca_ContributedAt contribution))
         ''destroyed_at must be strictly after contributed_at'']"

end
