(* ===== verification/McChain.thy ===== *)
theory McChain
  imports McAttestation "HOL-Library.Sublist"
begin

text \<open>
  \<^verbatim>\<open>internal/mpcceremony/chain.go\<close>, first half: acceptance records and the accepted
  chain of one phase. \<open>chain_loop\<close> is the loop of \<^verbatim>\<open>Chain.Validate\<close> with its
  running variables: the expected index, the accepted payload, the previous record id,
  the participants seen and the previous acceptance time (no time before the first record).
\<close>

section \<open>Acceptance records\<close>

record ChainRecord =
  cr_Schema :: string
  cr_RecordID :: string
  cr_CeremonyID :: string
  cr_Phase :: Phase
  cr_PhaseID :: string
  cr_Index :: u8
  cr_ParticipantID :: string
  cr_PreviousPayload :: ArtifactRef
  cr_OutputPayload :: ArtifactRef
  cr_AttestationID :: string
  cr_Attestation :: ArtifactRef
  cr_AttestationSignature :: ArtifactRef
  cr_ErasureID :: string
  cr_Erasure :: ArtifactRef
  cr_ErasureSignature :: ArtifactRef
  cr_Verification :: ArtifactRef
  cr_PreviousRecordID :: string
  cr_CoordinatorID :: string
  cr_CoordinatorKeyID :: string
  cr_AcceptedAt :: string

definition chain_record_validate :: "bool \<Rightarrow> ChainRecord \<Rightarrow> unit res" where
  "chain_record_validate requireID r =
     all_ok
      [fail_if (cr_Schema r \<noteq> ChainRecordSchema) ''chain record schema'',
       id_check requireID ''record_id'' (cr_RecordID r),
       validateHashID ''ceremony_id'' (cr_CeremonyID r),
       Phase_Validate (cr_Phase r),
       validateHashID ''phase_id'' (cr_PhaseID r),
       index_check ''chain record'' (cr_Index r),
       validateID ''participant_id'' (cr_ParticipantID r),
       wrap ''previous_payload'' (ArtifactRef_Validate (cr_PreviousPayload r)),
       wrap ''output_payload'' (ArtifactRef_Validate (cr_OutputPayload r)),
       fail_if (dg_SHA256 (ar_Digest (cr_PreviousPayload r)) = dg_SHA256 (ar_Digest (cr_OutputPayload r)))
         ''accepted output payload must differ from previous payload'',
       validateHashID ''attestation_id'' (cr_AttestationID r),
       wrap ''attestation'' (ArtifactRef_Validate (cr_Attestation r)),
       wrap ''attestation_signature'' (ArtifactRef_Validate (cr_AttestationSignature r)),
       wrap ''erasure'' (ArtifactRef_Validate (cr_Erasure r)),
       wrap ''erasure_signature'' (ArtifactRef_Validate (cr_ErasureSignature r)),
       wrap ''verification'' (ArtifactRef_Validate (cr_Verification r)),
       validateHashID ''erasure_id'' (cr_ErasureID r),
       validateHashID ''previous_record_id'' (cr_PreviousRecordID r),
       validateID ''coordinator_id'' (cr_CoordinatorID r),
       validateID ''coordinator_key_id'' (cr_CoordinatorKeyID r),
       validateTimestamp ''accepted_at'' (cr_AcceptedAt r)]"

definition json_ChainRecord :: "ChainRecord \<Rightarrow> json" where
  "json_ChainRecord r =
     JObj [(''schema'', JStr (cr_Schema r)), (''record_id'', JStr (cr_RecordID r)),
           (''ceremony_id'', JStr (cr_CeremonyID r)), (''phase'', JStr (cr_Phase r)),
           (''phase_id'', JStr (cr_PhaseID r)), (''index'', json_word (cr_Index r)),
           (''participant_id'', JStr (cr_ParticipantID r)),
           (''previous_payload'', json_ArtifactRef (cr_PreviousPayload r)),
           (''output_payload'', json_ArtifactRef (cr_OutputPayload r)),
           (''attestation_id'', JStr (cr_AttestationID r)), (''attestation'', json_ArtifactRef (cr_Attestation r)),
           (''attestation_signature'', json_ArtifactRef (cr_AttestationSignature r)),
           (''erasure_id'', JStr (cr_ErasureID r)), (''erasure'', json_ArtifactRef (cr_Erasure r)),
           (''erasure_signature'', json_ArtifactRef (cr_ErasureSignature r)),
           (''verification'', json_ArtifactRef (cr_Verification r)),
           (''previous_record_id'', JStr (cr_PreviousRecordID r)),
           (''coordinator_id'', JStr (cr_CoordinatorID r)), (''coordinator_key_id'', JStr (cr_CoordinatorKeyID r)),
           (''accepted_at'', JStr (cr_AcceptedAt r))]"

definition chain_record_tag :: string where
  "chain_record_tag = ''proof-tool/mpc-ceremony/acceptance-record/v1''"

abbreviation set_record_id :: "string \<Rightarrow> ChainRecord \<Rightarrow> ChainRecord" where
  "set_record_id x r \<equiv> r\<lparr>cr_RecordID := x\<rparr>"

definition ComputeChainRecordID :: "hash \<Rightarrow> ChainRecord \<Rightarrow> string res" where
  "ComputeChainRecordID H = compute_id H chain_record_tag json_ChainRecord set_record_id chain_record_validate"

definition ChainRecord_Validate :: "hash \<Rightarrow> ChainRecord \<Rightarrow> unit res" where
  "ChainRecord_Validate H =
     validate_id H chain_record_tag json_ChainRecord cr_RecordID set_record_id chain_record_validate"

definition NewChainRecord :: "hash \<Rightarrow> ChainRecord \<Rightarrow> ChainRecord res" where
  "NewChainRecord H r =
     new_record H chain_record_tag json_ChainRecord cr_RecordID set_record_id chain_record_validate
       (r\<lparr>cr_Schema := ChainRecordSchema\<rparr>)"

lemma json_ChainRecord_inj [json_inj]: "json_ChainRecord a = json_ChainRecord b \<longleftrightarrow> a = b"
  by (cases a; cases b) (auto simp: json_ChainRecord_def json_inj)

lemma ChainRecord_text: "chain_record_validate False r = Inr () \<Longrightarrow> json_utf8 (json_ChainRecord r)"
  unfolding json_ChainRecord_def
  by (subst json_utf8_obj)
    (auto simp: ascii_keys_def code_def chain_record_validate_def intro: utf8_fields ArtifactRef_text)

interpretation chain_record: content_record chain_record_tag json_ChainRecord cr_RecordID set_record_id
    chain_record_validate "\<lambda>_. True"
  by unfold_locales
    (auto simp: domain_tag_def chain_record_tag_def json_inj chain_record_validate_def
      intro: ChainRecord_text [unfolded chain_record_validate_def])

text \<open>The anchor of an empty chain.\<close>

definition json_GenesisRecord :: "string \<Rightarrow> string \<Rightarrow> ArtifactRef \<Rightarrow> json" where
  "json_GenesisRecord ceremonyID phaseID genesis =
     JObj [(''ceremony_id'', JStr ceremonyID), (''phase_id'', JStr phaseID), (''genesis'', json_ArtifactRef genesis)]"

definition genesis_tag :: string where "genesis_tag = ''proof-tool/mpc-ceremony/genesis-record/v1''"

definition GenesisRecordID :: "hash \<Rightarrow> string \<Rightarrow> string \<Rightarrow> ArtifactRef \<Rightarrow> string res" where
  "GenesisRecordID H ceremonyID phaseID genesis =
     bind_r (all_ok [validateHashID ''ceremony_id'' ceremonyID, validateHashID ''phase_id'' phaseID,
                     ArtifactRef_Validate genesis]) (\<lambda>_.
     Inr (canonicalHash H genesis_tag (json_GenesisRecord ceremonyID phaseID genesis)))"

lemma GenesisRecordID_ok [ok_iff]:
  "GenesisRecordID H c p g = Inr i \<longleftrightarrow>
     tagged_hex ''sha256:'' 32 c \<and> tagged_hex ''sha256:'' 32 p \<and> ArtifactRef_Validate g = Inr () \<and>
     i = canonicalHash H genesis_tag (json_GenesisRecord c p g)"
  by (auto simp: GenesisRecordID_def)

section \<open>The accepted chain\<close>

record Chain =
  ch_Schema :: string
  ch_CeremonyID :: string
  ch_Phase :: Phase
  ch_PhaseID :: string
  ch_Genesis :: ArtifactRef
  ch_Records :: "ChainRecord list"

text \<open>The state of the loop of \<^verbatim>\<open>Chain.Validate\<close> before a record.\<close>

record cursor =
  cu_index :: nat
  cu_payload :: ArtifactRef
  cu_record :: string
  cu_seen :: "string list"
  cu_time :: "int option"

definition advance :: "cursor \<Rightarrow> ChainRecord \<Rightarrow> cursor" where
  "advance s r =
     \<lparr>cu_index = cu_index s + 1, cu_payload = cr_OutputPayload r, cu_record = cr_RecordID r,
      cu_seen = cr_ParticipantID r # cu_seen s, cu_time = Some (go_time (cr_AcceptedAt r))\<rparr>"

definition record_checks :: "hash \<Rightarrow> Chain \<Rightarrow> cursor \<Rightarrow> ChainRecord \<Rightarrow> unit res" where
  "record_checks H c s r =
     all_ok
      [wrap ''record'' (ChainRecord_Validate H r),
       fail_if (case cu_time s of None \<Rightarrow> False | Some t \<Rightarrow> \<not> go_time (cr_AcceptedAt r) > t)
         ''accepted_at must be strictly after the previous record'',
       fail_if (cr_CeremonyID r \<noteq> ch_CeremonyID c \<or> cr_Phase r \<noteq> ch_Phase c \<or> cr_PhaseID r \<noteq> ch_PhaseID c)
         ''ceremony or phase identity mismatch'',
       fail_if (unat (cr_Index r) \<noteq> cu_index s + 1) ''record index'',
       fail_if (cr_PreviousPayload r \<noteq> cu_payload s) ''previous payload does not equal accepted chain head'',
       fail_if (cr_PreviousRecordID r \<noteq> cu_record s) ''previous_record_id'',
       fail_if (cr_ParticipantID r \<in> set (cu_seen s)) ''participant appears more than once in the phase'']"

fun chain_loop :: "hash \<Rightarrow> Chain \<Rightarrow> cursor \<Rightarrow> ChainRecord list \<Rightarrow> unit res" where
  "chain_loop H c s [] = Inr ()"
| "chain_loop H c s (r # rs) = bind_r (record_checks H c s r) (\<lambda>_. chain_loop H c (advance s r) rs)"

definition start_cursor :: "ArtifactRef \<Rightarrow> string \<Rightarrow> cursor" where
  "start_cursor genesis anchor =
     \<lparr>cu_index = 0, cu_payload = genesis, cu_record = anchor, cu_seen = [], cu_time = None\<rparr>"

definition Chain_Validate :: "hash \<Rightarrow> Chain \<Rightarrow> unit res" where
  "Chain_Validate H c =
     all_ok
      [fail_if (ch_Schema c \<noteq> ChainSchema) ''chain schema'',
       validateHashID ''ceremony_id'' (ch_CeremonyID c),
       Phase_Validate (ch_Phase c),
       validateHashID ''phase_id'' (ch_PhaseID c),
       wrap ''genesis'' (ArtifactRef_Validate (ch_Genesis c)),
       fail_if (length (ch_Records c) > MaxParticipants) ''chain contains too many records'',
       bind_r (GenesisRecordID H (ch_CeremonyID c) (ch_PhaseID c) (ch_Genesis c)) (\<lambda>anchor.
         chain_loop H c (start_cursor (ch_Genesis c) anchor) (ch_Records c))]"

definition NewChain :: "hash \<Rightarrow> string \<Rightarrow> Phase \<Rightarrow> string \<Rightarrow> ArtifactRef \<Rightarrow> Chain \<times> unit res" where
  "NewChain H ceremonyID phase phaseID genesis =
     (let chain = \<lparr>ch_Schema = ChainSchema, ch_CeremonyID = ceremonyID, ch_Phase = phase, ch_PhaseID = phaseID,
                   ch_Genesis = genesis, ch_Records = []\<rparr>
      in (chain, Chain_Validate H chain))"

text \<open>\<^verbatim>\<open>Append\<close> on a chain pointer: the new state of the chain and the error. A nil
  pointer has no chain to speak of.\<close>

definition Chain_Append :: "hash \<Rightarrow> Chain option \<Rightarrow> ChainRecord \<Rightarrow> Chain option \<times> unit res" where
  "Chain_Append H cp r =
     (case cp of
        None \<Rightarrow> (None, Inl (Err ''chain is nil''))
      | Some c \<Rightarrow>
          (let candidate = c\<lparr>ch_Records := ch_Records c @ [r]\<rparr> in
           case Chain_Validate H candidate of
             Inl e \<Rightarrow> (Some c, Inl e)
           | Inr _ \<Rightarrow> (Some (c\<lparr>ch_Records := ch_Records candidate\<rparr>), Inr ())))"

definition Chain_HeadRecordID :: "hash \<Rightarrow> Chain \<Rightarrow> string res" where
  "Chain_HeadRecordID H c =
     bind_r (Chain_Validate H c) (\<lambda>_.
       if ch_Records c = [] then GenesisRecordID H (ch_CeremonyID c) (ch_PhaseID c) (ch_Genesis c)
       else Inr (cr_RecordID (last (ch_Records c))))"

definition Chain_HeadPayload :: "hash \<Rightarrow> Chain \<Rightarrow> ArtifactRef res" where
  "Chain_HeadPayload H c =
     bind_r (Chain_Validate H c) (\<lambda>_.
       if ch_Records c = [] then Inr (ch_Genesis c) else Inr (cr_OutputPayload (last (ch_Records c))))"

definition Chain_ParticipantIDs :: "hash \<Rightarrow> Chain \<Rightarrow> string list res" where
  "Chain_ParticipantIDs H c =
     bind_r (Chain_Validate H c) (\<lambda>_. Inr (map cr_ParticipantID (ch_Records c)))"

fun order_loop :: "CeremonyDefinition \<Rightarrow> string list \<Rightarrow> ChainRecord list \<Rightarrow> unit res" where
  "order_loop d order [] = Inr ()"
| "order_loop d order (r # rs) =
     bind_r (all_ok
      [fail_if (case order of [] \<Rightarrow> True | p # _ \<Rightarrow> cr_ParticipantID r \<noteq> p)
         ''participant does not match frozen order'',
       (case ParticipantByID d (cr_ParticipantID r) of
          None \<Rightarrow> Inl (Err ''participant is not in roster'')
        | Some participant \<Rightarrow>
            all_ok
             [fail_if (cr_CoordinatorID r \<noteq> id_ID (cd_Coordinator d) \<or>
                       cr_CoordinatorKeyID r \<noteq> id_KeyID (cd_Coordinator d)) ''coordinator identity mismatch'',
              fail_if (cr_AttestationID r = [] \<or> id_KeyID (pt_Identity participant) = [])
                ''participant metadata is incomplete''])]) (\<lambda>_.
     order_loop d (drop 1 order) rs)"

definition ValidateAgainstDefinition :: "hash \<Rightarrow> Chain \<Rightarrow> CeremonyDefinition \<Rightarrow> unit res" where
  "ValidateAgainstDefinition H c d =
     all_ok
      [Chain_Validate H c,
       CeremonyDefinition_Validate H d,
       fail_if (ch_CeremonyID c \<noteq> cd_CeremonyID d) ''chain ceremony_id does not match definition'',
       (if ch_Phase c = Phase1 then
          bind_r (ComputePhaseID H (cd_CeremonyID d) Phase1 (cd_Phase1Genesis d) []) (\<lambda>expectedPhaseID.
            fail_if (ch_Genesis c \<noteq> cd_Phase1Genesis d \<or> ch_PhaseID c \<noteq> expectedPhaseID)
              ''phase1 chain genesis or phase_id does not match definition'')
        else Inr ()),
       bind_r (PolicyForPhase d (ch_Phase c)) (\<lambda>policy.
         order_loop d (pp_Participants policy) (ch_Records c))]"

section \<open>What chain validation accepts\<close>

lemma chain_record_Validate_ok:
  assumes "hash32 H"
  shows "ChainRecord_Validate H r = Inr u \<longleftrightarrow>
     chain_record_validate False (set_record_id [] r) = Inr () \<and>
     cr_RecordID r = canonicalHash H chain_record_tag (json_ChainRecord (set_record_id [] r))"
  unfolding ChainRecord_Validate_def by (rule chain_record.validate_iff [OF assms])

lemma ChainRecord_Validate_fields:
  "ChainRecord_Validate H r = Inr u \<Longrightarrow> chain_record_validate True r = Inr ()"
  unfolding ChainRecord_Validate_def by (rule chain_record.validate_val)

lemma chain_loop_iff:
  "chain_loop H c s rs = Inr u \<longleftrightarrow>
     (\<forall>i < length rs. record_checks H c (foldl advance s (take i rs)) (rs ! i) = Inr ())"
proof (induction rs arbitrary: s u)
  case (Cons r rs)
  show ?case by (simp add: Cons.IH All_less_Suc2)
qed simp

lemma chain_loop_snoc:
  "chain_loop H c s (rs @ [r]) = Inr u \<longleftrightarrow>
     chain_loop H c s rs = Inr () \<and> record_checks H c (foldl advance s rs) r = Inr ()"
  by (induction rs arbitrary: s u) auto

lemma foldl_advance:
  "foldl advance s rs =
     (if rs = [] then s
      else \<lparr>cu_index = cu_index s + length rs, cu_payload = cr_OutputPayload (last rs), cu_record = cr_RecordID (last rs),
            cu_seen = rev (map cr_ParticipantID rs) @ cu_seen s, cu_time = Some (go_time (cr_AcceptedAt (last rs)))\<rparr>)"
  by (induction rs rule: rev_induct) (auto simp: advance_def)

definition chain_anchor :: "hash \<Rightarrow> Chain \<Rightarrow> string" where
  "chain_anchor H c =
     canonicalHash H genesis_tag (json_GenesisRecord (ch_CeremonyID c) (ch_PhaseID c) (ch_Genesis c))"

definition chain_cursor :: "hash \<Rightarrow> Chain \<Rightarrow> cursor" where
  "chain_cursor H c = foldl advance (start_cursor (ch_Genesis c) (chain_anchor H c)) (ch_Records c)"

definition chain_header_ok :: "Chain \<Rightarrow> bool" where
  "chain_header_ok c \<longleftrightarrow> ch_Schema c = ChainSchema \<and> tagged_hex ''sha256:'' 32 (ch_CeremonyID c) \<and>
     (ch_Phase c = Phase1 \<or> ch_Phase c = Phase2) \<and> tagged_hex ''sha256:'' 32 (ch_PhaseID c) \<and>
     ArtifactRef_Validate (ch_Genesis c) = Inr ()"

lemma Chain_Validate_ok:
  "Chain_Validate H c = Inr u \<longleftrightarrow>
     chain_header_ok c \<and> length (ch_Records c) \<le> MaxParticipants \<and>
     chain_loop H c (start_cursor (ch_Genesis c) (chain_anchor H c)) (ch_Records c) = Inr ()"
  by (auto simp: Chain_Validate_def GenesisRecordID_ok chain_header_ok_def chain_anchor_def not_less)

lemma record_checks_records [simp]: "record_checks H (c\<lparr>ch_Records := rs\<rparr>) = record_checks H c"
  by (intro ext) (simp add: record_checks_def)

lemma chain_loop_records [simp]: "chain_loop H (c\<lparr>ch_Records := rs\<rparr>) s xs = chain_loop H c s xs"
  by (induction xs arbitrary: s) simp_all

lemma chain_anchor_records [simp]: "chain_anchor H (c\<lparr>ch_Records := rs\<rparr>) = chain_anchor H c"
  by (simp add: chain_anchor_def)

lemma chain_header_records [simp]: "chain_header_ok (c\<lparr>ch_Records := rs\<rparr>) = chain_header_ok c"
  by (simp add: chain_header_ok_def)

text \<open>Appending one record keeps a chain valid exactly when the record fits its head.\<close>

lemma Chain_Validate_snoc:
  "Chain_Validate H (c\<lparr>ch_Records := ch_Records c @ [r]\<rparr>) = Inr u \<longleftrightarrow>
     Chain_Validate H c = Inr () \<and> length (ch_Records c) < MaxParticipants \<and>
     record_checks H c (chain_cursor H c) r = Inr ()"
  by (auto simp: Chain_Validate_ok chain_loop_snoc chain_cursor_def)

lemma Chain_Validate_prefix:
  assumes "Chain_Validate H (c\<lparr>ch_Records := xs @ ys\<rparr>) = Inr u"
  shows "Chain_Validate H (c\<lparr>ch_Records := xs\<rparr>) = Inr ()"
  using assms
proof (induction ys arbitrary: u rule: rev_induct)
  case Nil
  then show ?case by (cases "Chain_Validate H (c\<lparr>ch_Records := xs\<rparr>)") auto
next
  case (snoc y ys)
  then have "Chain_Validate H (c\<lparr>ch_Records := xs @ ys\<rparr>) = Inr ()"
    using Chain_Validate_snoc [of H "c\<lparr>ch_Records := xs @ ys\<rparr>" y] by simp
  then show ?case by (rule snoc.IH)
qed

text \<open>The payload and the record id that the record at position \<open>i\<close> has to follow.\<close>

definition payload_before :: "Chain \<Rightarrow> nat \<Rightarrow> ArtifactRef" where
  "payload_before c i = (if i = 0 then ch_Genesis c else cr_OutputPayload (ch_Records c ! (i - 1)))"

definition record_before :: "hash \<Rightarrow> Chain \<Rightarrow> nat \<Rightarrow> string" where
  "record_before H c i = (if i = 0 then chain_anchor H c else cr_RecordID (ch_Records c ! (i - 1)))"

text \<open>The declarative reading of a valid chain.\<close>

definition chain_spec :: "hash \<Rightarrow> Chain \<Rightarrow> bool" where
  "chain_spec H c \<longleftrightarrow>
     chain_header_ok c \<and> length (ch_Records c) \<le> MaxParticipants \<and>
     (\<forall>i < length (ch_Records c).
        let r = ch_Records c ! i in
        ChainRecord_Validate H r = Inr () \<and>
        cr_CeremonyID r = ch_CeremonyID c \<and> cr_Phase r = ch_Phase c \<and> cr_PhaseID r = ch_PhaseID c \<and>
        unat (cr_Index r) = i + 1 \<and>
        cr_PreviousPayload r = payload_before c i \<and> cr_PreviousRecordID r = record_before H c i) \<and>
     distinct (map cr_ParticipantID (ch_Records c)) \<and>
     sorted_wrt (<) (map (\<lambda>r. go_time (cr_AcceptedAt r)) (ch_Records c))"

lemma cursor_at:
  assumes "i < length (ch_Records c)"
  shows "foldl advance (start_cursor (ch_Genesis c) (chain_anchor H c)) (take i (ch_Records c)) =
     \<lparr>cu_index = i, cu_payload = payload_before c i, cu_record = record_before H c i,
      cu_seen = rev (map cr_ParticipantID (take i (ch_Records c))),
      cu_time = (if i = 0 then None else Some (go_time (cr_AcceptedAt (ch_Records c ! (i - 1)))))\<rparr>"
  using assms
  by (cases i) (auto simp: foldl_advance start_cursor_def payload_before_def record_before_def
      last_conv_nth take_Suc_conv_app_nth advance_def)

lemma distinct_prefixes: "distinct xs \<longleftrightarrow> (\<forall>i < length xs. xs ! i \<notin> set (take i xs))"
proof (induction xs rule: rev_induct)
  case (snoc x xs)
  then show ?case by (auto simp: nth_append less_Suc_eq)
qed simp

lemma sorted_steps:
  fixes xs :: "'a::linorder list"
  shows "sorted_wrt (<) xs \<longleftrightarrow> (\<forall>i < length xs. i \<noteq> 0 \<longrightarrow> xs ! (i - 1) < xs ! i)"
proof
  assume "sorted_wrt (<) xs"
  then show "\<forall>i < length xs. i \<noteq> 0 \<longrightarrow> xs ! (i - 1) < xs ! i" by (auto intro: sorted_wrt_nth_less)
next
  assume a: "\<forall>i < length xs. i \<noteq> 0 \<longrightarrow> xs ! (i - 1) < xs ! i"
  have "xs ! i < xs ! Suc i" if "Suc i < length xs" for i
    using a that by (metis diff_Suc_1 nat.simps(3))
  then show "sorted_wrt (<) xs" by (simp add: sorted_wrt_iff_nth_Suc_transp)
qed

lemma chain_spec_iff: "Chain_Validate H c = Inr u \<longleftrightarrow> chain_spec H c"
proof -
  let ?rs = "ch_Records c" and ?p = "map cr_ParticipantID (ch_Records c)"
    and ?t = "map (\<lambda>r. go_time (cr_AcceptedAt r)) (ch_Records c)"
  have d: "distinct ?p \<longleftrightarrow> (\<forall>i < length ?rs. cr_ParticipantID (?rs ! i) \<notin> set (map cr_ParticipantID (take i ?rs)))"
    unfolding distinct_prefixes by (simp add: take_map)
  have s: "sorted_wrt (<) ?t \<longleftrightarrow>
      (\<forall>i < length ?rs. i \<noteq> 0 \<longrightarrow> go_time (cr_AcceptedAt (?rs ! (i - 1))) < go_time (cr_AcceptedAt (?rs ! i)))"
    unfolding sorted_steps by simp
  let ?A = "\<lambda>i. ChainRecord_Validate H (?rs ! i) = Inr () \<and>
        cr_CeremonyID (?rs ! i) = ch_CeremonyID c \<and> cr_Phase (?rs ! i) = ch_Phase c \<and> cr_PhaseID (?rs ! i) = ch_PhaseID c \<and>
        unat (cr_Index (?rs ! i)) = i + 1 \<and>
        cr_PreviousPayload (?rs ! i) = payload_before c i \<and> cr_PreviousRecordID (?rs ! i) = record_before H c i"
  have "record_checks H c (foldl advance (start_cursor (ch_Genesis c) (chain_anchor H c)) (take i ?rs)) (?rs ! i) = Inr () \<longleftrightarrow>
      ?A i \<and> cr_ParticipantID (?rs ! i) \<notin> set (map cr_ParticipantID (take i ?rs)) \<and>
      (i \<noteq> 0 \<longrightarrow> go_time (cr_AcceptedAt (?rs ! (i - 1))) < go_time (cr_AcceptedAt (?rs ! i)))"
    if "i < length ?rs" for i
    unfolding cursor_at [OF that] record_checks_def by (simp; blast)
  then have "chain_loop H c (start_cursor (ch_Genesis c) (chain_anchor H c)) ?rs = Inr () \<longleftrightarrow>
     (\<forall>i < length ?rs. ?A i) \<and> distinct ?p \<and> sorted_wrt (<) ?t"
    unfolding chain_loop_iff d s by blast
  then show ?thesis
    unfolding Chain_Validate_ok chain_spec_def Let_def by blast
qed

section \<open>Heads\<close>

definition head_record :: "hash \<Rightarrow> Chain \<Rightarrow> string" where
  "head_record H c = (if ch_Records c = [] then chain_anchor H c else cr_RecordID (last (ch_Records c)))"

definition head_payload :: "Chain \<Rightarrow> ArtifactRef" where
  "head_payload c = (if ch_Records c = [] then ch_Genesis c else cr_OutputPayload (last (ch_Records c)))"

lemma Chain_heads_ok [ok_iff]:
  "Chain_HeadRecordID H c = Inr i \<longleftrightarrow> Chain_Validate H c = Inr () \<and> i = head_record H c"
  "Chain_HeadPayload H c = Inr p \<longleftrightarrow> Chain_Validate H c = Inr () \<and> p = head_payload c"
  "Chain_ParticipantIDs H c = Inr ps \<longleftrightarrow> Chain_Validate H c = Inr () \<and> ps = map cr_ParticipantID (ch_Records c)"
  by (auto simp: Chain_HeadRecordID_def Chain_HeadPayload_def Chain_ParticipantIDs_def head_record_def
      head_payload_def Chain_Validate_ok chain_header_ok_def GenesisRecordID_ok chain_anchor_def split: if_splits)

lemma chain_cursor_head:
  "cu_record (chain_cursor H c) = head_record H c" "cu_payload (chain_cursor H c) = head_payload c"
  "cu_index (chain_cursor H c) = length (ch_Records c)"
  "cu_seen (chain_cursor H c) = rev (map cr_ParticipantID (ch_Records c))"
  "cu_time (chain_cursor H c) =
     (if ch_Records c = [] then None else Some (go_time (cr_AcceptedAt (last (ch_Records c)))))"
  by (simp_all add: chain_cursor_def foldl_advance start_cursor_def head_record_def head_payload_def)

text \<open>The record that may follow a valid chain.\<close>

definition fits_head :: "hash \<Rightarrow> Chain \<Rightarrow> ChainRecord \<Rightarrow> bool" where
  "fits_head H c r \<longleftrightarrow>
     length (ch_Records c) < MaxParticipants \<and> ChainRecord_Validate H r = Inr () \<and>
     cr_CeremonyID r = ch_CeremonyID c \<and> cr_Phase r = ch_Phase c \<and> cr_PhaseID r = ch_PhaseID c \<and>
     unat (cr_Index r) = length (ch_Records c) + 1 \<and>
     cr_PreviousPayload r = head_payload c \<and> cr_PreviousRecordID r = head_record H c \<and>
     cr_ParticipantID r \<notin> set (map cr_ParticipantID (ch_Records c)) \<and>
     (ch_Records c \<noteq> [] \<longrightarrow> go_time (cr_AcceptedAt (last (ch_Records c))) < go_time (cr_AcceptedAt r))"

lemma record_checks_fits:
  "length (ch_Records c) < MaxParticipants \<and> record_checks H c (chain_cursor H c) r = Inr () \<longleftrightarrow> fits_head H c r"
  unfolding fits_head_def record_checks_def chain_cursor_head by (simp; blast)

lemma Chain_Validate_append:
  "Chain_Validate H (c\<lparr>ch_Records := ch_Records c @ [r]\<rparr>) = Inr u \<longleftrightarrow> Chain_Validate H c = Inr () \<and> fits_head H c r"
  unfolding Chain_Validate_snoc record_checks_fits by (rule refl)

lemma Chain_Append_result:
  "Chain_Append H (Some c) r =
     (case Chain_Validate H (c\<lparr>ch_Records := ch_Records c @ [r]\<rparr>) of
        Inl e \<Rightarrow> (Some c, Inl e)
      | Inr _ \<Rightarrow> (Some (c\<lparr>ch_Records := ch_Records c @ [r]\<rparr>), Inr ()))"
  by (simp add: Chain_Append_def Let_def split: sum.splits)

section \<open>Histories\<close>

text \<open>The accepted chains of a phase: those that successful appends make of an empty one.\<close>

inductive accepted :: "hash \<Rightarrow> Chain \<Rightarrow> bool" for H where
  empty: "NewChain H cid ph pid g = (c, Inr ()) \<Longrightarrow> accepted H c"
| append: "accepted H c \<Longrightarrow> Chain_Append H (Some c) r = (Some c', Inr ()) \<Longrightarrow> accepted H c'"

lemma accepted_valid: "accepted H c \<Longrightarrow> Chain_Validate H c = Inr ()"
proof (induction rule: accepted.induct)
  case (empty cid ph pid g c)
  then show ?case by (auto simp: NewChain_def Let_def)
next
  case (append c r c')
  then show ?case by (auto simp: Chain_Append_result split: sum.splits)
qed

lemma valid_accepted:
  assumes "Chain_Validate H (c\<lparr>ch_Records := rs\<rparr>) = Inr ()"
  shows "accepted H (c\<lparr>ch_Records := rs\<rparr>)"
  using assms
proof (induction rs rule: rev_induct)
  case Nil
  let ?c = "c\<lparr>ch_Records := []\<rparr>"
  have "NewChain H (ch_CeremonyID ?c) (ch_Phase ?c) (ch_PhaseID ?c) (ch_Genesis ?c) = (?c, Inr ())"
    using Nil by (cases c) (simp add: NewChain_def Let_def Chain_Validate_ok chain_header_ok_def)
  then show ?case by (rule accepted.empty)
next
  case (snoc r rs)
  let ?c = "c\<lparr>ch_Records := rs\<rparr>"
  have v: "Chain_Validate H (?c\<lparr>ch_Records := ch_Records ?c @ [r]\<rparr>) = Inr ()" using snoc.prems by simp
  then have "accepted H ?c" using snoc.IH Chain_Validate_append by blast
  moreover have "Chain_Append H (Some ?c) r = (Some (c\<lparr>ch_Records := rs @ [r]\<rparr>), Inr ())"
    using v by (simp add: Chain_Append_result)
  ultimately show ?case by (rule accepted.append)
qed

lemma accepted_iff: "accepted H c \<longleftrightarrow> Chain_Validate H c = Inr ()"
  using accepted_valid valid_accepted [where rs = "ch_Records c" and c = c] by auto

text \<open>Everything that was hashed to arrive at the head of a chain.\<close>

definition record_preimage :: "ChainRecord \<Rightarrow> bytes" where
  "record_preimage r = preimage chain_record_tag (json_ChainRecord (set_record_id [] r))"

definition anchor_preimage :: "Chain \<Rightarrow> bytes" where
  "anchor_preimage c = preimage genesis_tag (json_GenesisRecord (ch_CeremonyID c) (ch_PhaseID c) (ch_Genesis c))"

definition history :: "Chain \<Rightarrow> bytes set" where
  "history c = insert (anchor_preimage c) (record_preimage ` set (ch_Records c))"

lemma anchor_preimage_records [simp]: "anchor_preimage (c\<lparr>ch_Records := rs\<rparr>) = anchor_preimage c"
  by (simp add: anchor_preimage_def)

lemma genesis_domain: "domain_tag genesis_tag" "domain_tag chain_record_tag" "genesis_tag \<noteq> chain_record_tag"
  by (simp_all add: domain_tag_def genesis_tag_def chain_record_tag_def)

lemma json_GenesisRecord_text:
  "chain_header_ok c \<Longrightarrow> json_utf8 (json_GenesisRecord (ch_CeremonyID c) (ch_PhaseID c) (ch_Genesis c))"
  unfolding json_GenesisRecord_def
  by (subst json_utf8_obj)
    (auto simp: ascii_keys_def code_def chain_header_ok_def intro: utf8_fields ArtifactRef_text)

lemma record_id_preimage:
  assumes "hash32 H" and "ChainRecord_Validate H r = Inr ()"
  shows "cr_RecordID r = ''sha256:'' @ hex_encode (H (record_preimage r))"
  using assms by (simp add: chain_record_Validate_ok canonicalHash_def record_preimage_def)

lemma anchor_eq: "chain_anchor H c = ''sha256:'' @ hex_encode (H (anchor_preimage c))"
  by (simp add: chain_anchor_def canonicalHash_def anchor_preimage_def)

lemma record_preimage_inj:
  assumes "hash32 H" and "ChainRecord_Validate H a = Inr ()" and "ChainRecord_Validate H b = Inr ()"
    and "record_preimage a = record_preimage b"
  shows "a = b"
proof -
  have "cr_RecordID a = cr_RecordID b"
    using record_id_preimage [OF assms(1)] assms(2-4) by simp
  then show ?thesis
    using chain_record.binding [OF assms(1) assms(2) [unfolded ChainRecord_Validate_def] TrueI
        assms(3) [unfolded ChainRecord_Validate_def] TrueI] assms(4)
    by (simp add: record_preimage_def)
qed

lemma anchor_preimage_inj:
  assumes "chain_header_ok a" and "chain_header_ok b" and "anchor_preimage a = anchor_preimage b"
  shows "ch_CeremonyID a = ch_CeremonyID b \<and> ch_PhaseID a = ch_PhaseID b \<and> ch_Genesis a = ch_Genesis b"
proof -
  have "json_GenesisRecord (ch_CeremonyID a) (ch_PhaseID a) (ch_Genesis a) =
      json_GenesisRecord (ch_CeremonyID b) (ch_PhaseID b) (ch_Genesis b)"
    using preimage_inj [OF assms(3) [unfolded anchor_preimage_def] genesis_domain(1) genesis_domain(1)]
      json_GenesisRecord_text assms(1,2) by blast
  then show ?thesis by (simp add: json_GenesisRecord_def json_inj)
qed

lemma anchor_not_record: "anchor_preimage c \<noteq> record_preimage r"
  unfolding anchor_preimage_def record_preimage_def using preimage_domain_neq genesis_domain by blast

lemma same_head_history:
  assumes "hash32 H"
    and "Chain_Validate H (a\<lparr>ch_Records := rs\<rparr>) = Inr ()"
    and "Chain_Validate H (b\<lparr>ch_Records := ss\<rparr>) = Inr ()"
    and "head_record H (a\<lparr>ch_Records := rs\<rparr>) = head_record H (b\<lparr>ch_Records := ss\<rparr>)"
    and "inj_on H (history (a\<lparr>ch_Records := rs\<rparr>) \<union> history (b\<lparr>ch_Records := ss\<rparr>))"
  shows "rs = ss \<and> ch_CeremonyID a = ch_CeremonyID b \<and> ch_PhaseID a = ch_PhaseID b \<and> ch_Genesis a = ch_Genesis b"
  using assms(2-5)
proof (induction rs arbitrary: ss rule: rev_induct)
  case Nil
  show ?case
  proof (cases ss rule: rev_cases)
    case Nil': Nil
    have "H (anchor_preimage a) = H (anchor_preimage b)"
      using Nil.prems(3) Nil' by (simp add: head_record_def anchor_eq)
    with Nil.prems(4) have "anchor_preimage a = anchor_preimage b"
      by (rule inj_onD) (simp_all add: history_def)
    moreover have "chain_header_ok a" "chain_header_ok b"
      using Nil.prems(1,2) Nil' by (simp_all add: Chain_Validate_ok)
    ultimately show ?thesis using anchor_preimage_inj [of a b] Nil' by simp
  next
    case (snoc ss' s)
    have "ChainRecord_Validate H s = Inr ()"
      using Nil.prems(2) snoc Chain_Validate_append [of H "b\<lparr>ch_Records := ss'\<rparr>" s] by (simp add: fits_head_def)
    then have "H (anchor_preimage a) = H (record_preimage s)"
      using Nil.prems(3) snoc record_id_preimage [OF assms(1)] by (simp add: head_record_def anchor_eq)
    with Nil.prems(4) have "anchor_preimage a = record_preimage s"
      by (rule inj_onD) (simp_all add: history_def snoc)
    then show ?thesis by (simp add: anchor_not_record)
  qed
next
  case (snoc r rs')
  have vr: "Chain_Validate H (a\<lparr>ch_Records := rs'\<rparr>) = Inr ()" "fits_head H (a\<lparr>ch_Records := rs'\<rparr>) r"
    using snoc.prems(1) Chain_Validate_append [of H "a\<lparr>ch_Records := rs'\<rparr>" r] by simp_all
  show ?case
  proof (cases ss rule: rev_cases)
    case Nil
    have "H (anchor_preimage b) = H (record_preimage r)"
      using snoc.prems(3) Nil vr(2) record_id_preimage [OF assms(1)]
      by (simp add: head_record_def anchor_eq fits_head_def)
    with snoc.prems(4) have "anchor_preimage b = record_preimage r"
      by (rule inj_onD) (simp_all add: history_def Nil)
    then show ?thesis by (simp add: anchor_not_record)
  next
    case snoc': (snoc ss' s)
    have vs: "Chain_Validate H (b\<lparr>ch_Records := ss'\<rparr>) = Inr ()" "fits_head H (b\<lparr>ch_Records := ss'\<rparr>) s"
      using snoc.prems(2) snoc' Chain_Validate_append [of H "b\<lparr>ch_Records := ss'\<rparr>" s] by simp_all
    have "H (record_preimage r) = H (record_preimage s)"
      using snoc.prems(3) snoc' vr(2) vs(2) record_id_preimage [OF assms(1)]
      by (simp add: head_record_def fits_head_def)
    with snoc.prems(4) have "record_preimage r = record_preimage s"
      by (rule inj_onD) (simp_all add: history_def snoc')
    then have rs: "r = s" using record_preimage_inj [OF assms(1)] vr(2) vs(2) by (simp add: fits_head_def)
    then have "head_record H (a\<lparr>ch_Records := rs'\<rparr>) = head_record H (b\<lparr>ch_Records := ss'\<rparr>)"
      using vr(2) vs(2) by (simp add: fits_head_def)
    moreover have "inj_on H (history (a\<lparr>ch_Records := rs'\<rparr>) \<union> history (b\<lparr>ch_Records := ss'\<rparr>))"
      by (rule inj_on_subset [OF snoc.prems(4)]) (auto simp: history_def snoc')
    ultimately show ?thesis using snoc.IH [OF vr(1) vs(1)] snoc' rs by simp
  qed
qed

section \<open>A chain against its definition\<close>

definition coordinator_of :: "CeremonyDefinition \<Rightarrow> ChainRecord \<Rightarrow> bool" where
  "coordinator_of d r \<longleftrightarrow>
     cr_CoordinatorID r = id_ID (cd_Coordinator d) \<and> cr_CoordinatorKeyID r = id_KeyID (cd_Coordinator d)"

lemma order_loop_ok:
  "order_loop d order rs = Inr u \<longleftrightarrow>
     prefix (map cr_ParticipantID rs) order \<and>
     (\<forall>r \<in> set rs. coordinator_of d r \<and> cr_AttestationID r \<noteq> [] \<and>
        (\<exists>p. ParticipantByID d (cr_ParticipantID r) = Some p \<and> id_KeyID (pt_Identity p) \<noteq> []))"
proof (induction rs arbitrary: order u)
  case (Cons r rs)
  show ?case
    by (cases order) (auto simp: Cons.IH coordinator_of_def split: option.splits)
qed simp

lemma chain_record_fields:
  assumes "Chain_Validate H c = Inr u" and "r \<in> set (ch_Records c)"
  shows "chain_record_validate True r = Inr ()"
proof -
  obtain i where "i < length (ch_Records c)" "r = ch_Records c ! i" using assms(2) by (metis in_set_conv_nth)
  with assms(1) have "ChainRecord_Validate H r = Inr ()"
    by (auto simp: chain_spec_iff chain_spec_def Let_def)
  then show ?thesis by (rule ChainRecord_Validate_fields)
qed

lemma tagged_nonempty: "tagged_hex ''sha256:'' n s \<Longrightarrow> s \<noteq> []"
  by (auto simp: tagged_hex_def)

lemma Identity_key_nonempty: "Identity_Validate H i = Inr () \<Longrightarrow> id_KeyID i \<noteq> [] \<and> id_ID i \<noteq> []"
  by (auto simp: Identity_Validate_def)

text \<open>The schedule of the phase, as a list of participant ids.\<close>

definition schedule :: "CeremonyDefinition \<Rightarrow> Phase \<Rightarrow> string list" where
  "schedule d p = pp_Participants (if p = Phase1 then cd_Phase1Policy d else cd_Phase2Policy d)"

lemma schedule_policy: "PolicyForPhase d p = Inr x \<Longrightarrow> schedule d p = pp_Participants x"
  by (auto simp: schedule_def)

lemma schedule_in_roster:
  assumes "definition_checks H d = Inr ()"
  shows "set (schedule d p) \<subseteq> set (roster_ids d)" "distinct (schedule d p)"
  using assms by (auto simp: schedule_def definition_checks_ok PhasePolicy_Validate_ok)

lemma ValidateAgainstDefinition_ok [ok_iff]:
  "ValidateAgainstDefinition H c d = Inr u \<longleftrightarrow>
     Chain_Validate H c = Inr () \<and> CeremonyDefinition_Validate H d = Inr () \<and>
     ch_CeremonyID c = cd_CeremonyID d \<and>
     (ch_Phase c = Phase1 \<longrightarrow> ch_Genesis c = cd_Phase1Genesis d \<and>
        ComputePhaseID H (cd_CeremonyID d) Phase1 (cd_Phase1Genesis d) [] = Inr (ch_PhaseID c)) \<and>
     prefix (map cr_ParticipantID (ch_Records c)) (schedule d (ch_Phase c)) \<and>
     (\<forall>r \<in> set (ch_Records c). coordinator_of d r)" (is "?l \<longleftrightarrow> ?r")
proof
  assume l: ?l
  then have "ch_Phase c = Phase1 \<or> ch_Phase c = Phase2"
    by (auto simp: ValidateAgainstDefinition_def)
  with l show ?r
    by (auto simp: ValidateAgainstDefinition_def order_loop_ok schedule_def split: if_splits)
next
  assume r: ?r
  then have d: "definition_checks H d = Inr ()" using definition_Validate_checks by blast
  have p: "ch_Phase c = Phase1 \<or> ch_Phase c = Phase2"
    using r by (auto simp: chain_spec_iff chain_spec_def chain_header_ok_def)
  then obtain policy where pol: "PolicyForPhase d (ch_Phase c) = Inr policy" by auto
  have "order_loop d (pp_Participants policy) (ch_Records c) = Inr ()"
    unfolding order_loop_ok
  proof (intro conjI ballI)
    show "prefix (map cr_ParticipantID (ch_Records c)) (pp_Participants policy)"
      using r schedule_policy [OF pol] by simp
  next
    fix x assume x: "x \<in> set (ch_Records c)"
    then show "coordinator_of d x" using r by blast
    show "cr_AttestationID x \<noteq> []"
      using chain_record_fields [of H c "()" x] r x tagged_nonempty by (auto simp: chain_record_validate_def)
    have "cr_ParticipantID x \<in> set (schedule d (ch_Phase c))"
      using r x set_mono_prefix by fastforce
    then have "cr_ParticipantID x \<in> set (roster_ids d)" using schedule_in_roster(1) [OF d] by blast
    then obtain q where q: "ParticipantByID d (cr_ParticipantID x) = Some q"
      using ParticipantByID_total by blast
    then have "Identity_Validate H (pt_Identity q) = Inr ()"
      using definition_parties(5) [OF d] roster_in_identities ParticipantByID_Some by blast
    with q show "\<exists>p. ParticipantByID d (cr_ParticipantID x) = Some p \<and> id_KeyID (pt_Identity p) \<noteq> []"
      using Identity_key_nonempty by blast
  qed
  with r p pol show ?l by (auto simp: ValidateAgainstDefinition_def)
qed

end
