(* ===== verification/McAcceptance.thy ===== *)
theory McAcceptance
  imports McChain
begin

text \<open>
  \<^verbatim>\<open>ValidateAttestationAcceptance\<close> (\<^verbatim>\<open>chain.go\<close>): the acceptance of one contribution
  against the definition, the chain, the contribution and erasure attestations.
  Word arithmetic as in the source: \<^verbatim>\<open>uint8(len(chain.Records) + 1)\<close>.
\<close>

definition ValidateAttestationAcceptance ::
    "hash \<Rightarrow> CeremonyDefinition \<Rightarrow> Chain \<Rightarrow> ContributionAttestation \<Rightarrow> ErasureAttestation \<Rightarrow> ChainRecord \<Rightarrow> unit res" where
  "ValidateAttestationAcceptance H d c a e r =
     bind_r (all_ok
      [CeremonyDefinition_Validate H d,
       ValidateAgainstDefinition H c d,
       ContributionAttestation_Validate H a,
       ValidateErasureForContribution H a e,
       ChainRecord_Validate H r]) (\<lambda>_.
     let expectedIndex = word_of_nat (length (ch_Records c) + 1) :: u8 in
     bind_r (Chain_HeadPayload H c) (\<lambda>headPayload.
     bind_r (Chain_HeadRecordID H c) (\<lambda>headRecordID.
     let participant = ParticipantByID d (ca_ParticipantID a);
         s = cd_Software d;
         createdAt = go_time (cd_CreatedAt d); contributedAt = go_time (ca_ContributedAt a);
         destroyedAt = go_time (ea_DestroyedAt e); acceptedAt = go_time (cr_AcceptedAt r)
     in all_ok
      [fail_if (cr_Index r \<noteq> expectedIndex \<or> ca_Index a \<noteq> expectedIndex \<or>
                cr_PreviousPayload r \<noteq> headPayload \<or> ca_PreviousPayload a \<noteq> headPayload \<or>
                cr_PreviousRecordID r \<noteq> headRecordID \<or> ca_PreviousAcceptanceID a \<noteq> headRecordID)
         ''attestation and acceptance are not the next child of the accepted chain head'',
       fail_if (cr_Index r \<noteq> ca_Index a \<or> cr_CeremonyID r \<noteq> ca_CeremonyID a \<or> cr_Phase r \<noteq> ca_Phase a \<or>
                cr_PhaseID r \<noteq> ca_PhaseID a \<or> cr_ParticipantID r \<noteq> ca_ParticipantID a \<or>
                cr_PreviousPayload r \<noteq> ca_PreviousPayload a \<or> cr_OutputPayload r \<noteq> ca_OutputPayload a \<or>
                cr_AttestationID r \<noteq> ca_AttestationID a \<or> cr_ErasureID r \<noteq> ea_ErasureID e \<or>
                cr_PreviousRecordID r \<noteq> ca_PreviousAcceptanceID a)
         ''acceptance record does not exactly bind contribution attestation'',
       fail_if (case participant of None \<Rightarrow> True | Some p \<Rightarrow> id_KeyID (pt_Identity p) \<noteq> ca_ParticipantKeyID a)
         ''attestation participant identity does not match definition'',
       fail_if (sb_ToolBinary s \<noteq> ca_ToolBinary a \<or> sb_SourceCommit s \<noteq> ca_SourceCommit a \<or>
                sb_GnarkVersion s \<noteq> ca_GnarkVersion a \<or> sb_GnarkCryptoVersion s \<noteq> ca_GnarkCryptoVersion a \<or>
                sb_DrandVersion s \<noteq> ca_DrandVersion a)
         ''attestation software binding does not match definition'',
       fail_if (\<not> contributedAt > createdAt) ''contributed_at must be strictly after the ceremony definition'',
       fail_if (ch_Records c \<noteq> [] \<and> \<not> contributedAt > go_time (cr_AcceptedAt (last (ch_Records c))))
         ''contributed_at must be strictly after the previous acceptance'',
       fail_if (\<not> acceptedAt > destroyedAt) ''accepted_at must be strictly after destroyed_at''])))"

lemma ValidateErasure_ok [ok_iff]:
  "ValidateErasureForContribution H a e = Inr u \<longleftrightarrow>
     ContributionAttestation_Validate H a = Inr () \<and> ErasureAttestation_Validate H e = Inr () \<and>
     ea_CeremonyID e = ca_CeremonyID a \<and> ea_Phase e = ca_Phase a \<and> ea_PhaseID e = ca_PhaseID a \<and>
     ea_Index e = ca_Index a \<and> ea_ParticipantID e = ca_ParticipantID a \<and>
     ea_ParticipantKeyID e = ca_ParticipantKeyID a \<and> ea_ContributionAttestationID e = ca_AttestationID a \<and>
     ea_OutputPayload e = ca_OutputPayload a \<and>
     go_time (ca_ContributedAt a) < go_time (ea_DestroyedAt e)"
  by (auto simp: ValidateErasureForContribution_def)

text \<open>Everything an accepted record is bound to.\<close>

lemma acceptance_ok:
  assumes "ValidateAttestationAcceptance H d c a e r = Inr u"
  shows "CeremonyDefinition_Validate H d = Inr ()" "ValidateAgainstDefinition H c d = Inr ()"
    "ContributionAttestation_Validate H a = Inr ()" "ValidateErasureForContribution H a e = Inr ()"
    "ChainRecord_Validate H r = Inr ()"
    "cr_Index r = word_of_nat (length (ch_Records c) + 1)" "cr_PreviousPayload r = head_payload c"
    "cr_PreviousRecordID r = head_record H c"
    "ca_Index a = cr_Index r" "ca_CeremonyID a = cr_CeremonyID r" "ca_Phase a = cr_Phase r"
    "ca_PhaseID a = cr_PhaseID r" "ca_ParticipantID a = cr_ParticipantID r"
    "ca_PreviousPayload a = cr_PreviousPayload r" "ca_OutputPayload a = cr_OutputPayload r"
    "ca_AttestationID a = cr_AttestationID r" "ea_ErasureID e = cr_ErasureID r"
    "ca_PreviousAcceptanceID a = cr_PreviousRecordID r"
    "\<exists>p. ParticipantByID d (cr_ParticipantID r) = Some p \<and> id_KeyID (pt_Identity p) = ca_ParticipantKeyID a"
    "go_time (cd_CreatedAt d) < go_time (ca_ContributedAt a)"
    "go_time (ca_ContributedAt a) < go_time (ea_DestroyedAt e)"
    "go_time (ea_DestroyedAt e) < go_time (cr_AcceptedAt r)"
    "ch_Records c \<noteq> [] \<Longrightarrow> go_time (cr_AcceptedAt (last (ch_Records c))) < go_time (ca_ContributedAt a)"
  using assms
  by (auto simp: ValidateAttestationAcceptance_def Let_def Chain_heads_ok ValidateErasure_ok split: option.splits)

lemma acceptance_index:
  assumes "ValidateAttestationAcceptance H d c a e r = Inr u"
  shows "unat (cr_Index r) = length (ch_Records c) + 1 \<and> length (ch_Records c) < MaxParticipants"
proof -
  have v: "Chain_Validate H c = Inr ()" using acceptance_ok(2) [OF assms] by (simp add: ValidateAgainstDefinition_ok)
  then have l: "length (ch_Records c) \<le> MaxParticipants" by (simp add: Chain_Validate_ok)
  then have u: "unat (cr_Index r) = length (ch_Records c) + 1"
    unfolding acceptance_ok(6) [OF assms] by (intro unat_word_of_nat) (simp add: MaxParticipants_def)
  have "unat (cr_Index r) \<le> MaxParticipants"
    using ChainRecord_Validate_fields [OF acceptance_ok(5) [OF assms]]
    by (simp add: chain_record_validate_def index_check_def not_less)
  with u show ?thesis by simp
qed

text \<open>
  An acceptance that passed can be appended exactly when it names the chain's own
  ceremony and phase and a participant the chain has not seen: these three are what
  \<^verbatim>\<open>ValidateAttestationAcceptance\<close> leaves to \<^verbatim>\<open>Append\<close>.
\<close>

lemma acceptance_fits:
  assumes "ValidateAttestationAcceptance H d c a e r = Inr u"
  shows "fits_head H c r \<longleftrightarrow>
     cr_CeremonyID r = ch_CeremonyID c \<and> cr_Phase r = ch_Phase c \<and> cr_PhaseID r = ch_PhaseID c \<and>
     cr_ParticipantID r \<notin> set (map cr_ParticipantID (ch_Records c))"
  using acceptance_ok(5,7,8,20-22) [OF assms] acceptance_ok(23) [OF assms] acceptance_index [OF assms]
  unfolding fits_head_def by force

end
