(* ===== verification/GoBytes.thy ===== *)
theory GoBytes
  imports Prelude
begin

text \<open>
  Big-endian numbers of a fixed width, as \<^verbatim>\<open>encoding/binary\<close> reads and writes them: \<open>be_val\<close> is the
  value of a byte string, \<open>be_bytes\<close> the string of a value, and they are inverse to each other.
\<close>

definition be_val :: "bytes \<Rightarrow> nat" where
  "be_val b = foldl (\<lambda>v x. v * 256 + unat x) 0 b"

text \<open>\<^verbatim>\<open>binary.BigEndian.PutUint32\<close> and \<^verbatim>\<open>PutUint64\<close>.\<close>

definition be_bytes :: "nat \<Rightarrow> nat \<Rightarrow> bytes" where
  "be_bytes n v = map (\<lambda>i. word_of_nat (v div 256 ^ (n - 1 - i))) [0..<n]"

lemma be_val_snoc: "be_val (b @ [x]) = be_val b * 256 + unat x"
  by (simp add: be_val_def)

lemma be_val_less: "be_val b < 256 ^ length b"
proof (induction b rule: rev_induct)
  case (snoc x b)
  have "be_val b * 256 + unat x < (be_val b + 1) * 256" using unat_u8_less [of x] by simp
  also have "\<dots> \<le> 256 ^ length b * 256" using snoc by (intro mult_right_mono) simp_all
  finally show ?case by (simp add: be_val_snoc mult.commute)
qed (simp add: be_val_def)

lemma unat_be_val:
  assumes "8 * length b \<le> LENGTH('a)"
  shows "unat (word_of_nat (be_val b) :: 'a::len word) = be_val b"
proof (rule unat_word_of_nat)
  have "be_val b < 2 ^ (8 * length b)" using be_val_less [of b] by (simp add: power_mult)
  also have "\<dots> \<le> 2 ^ LENGTH('a)" using assms by (intro power_increasing) simp_all
  finally show "be_val b < 2 ^ LENGTH('a)" .
qed

lemma length_be_bytes [simp]: "length (be_bytes n v) = n"
  by (simp add: be_bytes_def)

lemma be_bytes_0 [simp]: "be_bytes 0 v = []"
  by (simp add: be_bytes_def)

lemma be_bytes_Suc: "be_bytes (Suc n) v = be_bytes n (v div 256) @ [word_of_nat v]"
proof -
  have "v div 256 ^ (Suc n - 1 - i) = v div 256 div 256 ^ (n - 1 - i)" if "i < n" for i
  proof -
    have "Suc n - 1 - i = Suc (n - 1 - i)" using that by simp
    then show ?thesis by (simp add: div_mult2_eq)
  qed
  then show ?thesis by (simp add: be_bytes_def)
qed

lemma be_val_be_bytes: "v < 256 ^ n \<Longrightarrow> be_val (be_bytes n v) = v"
proof (induction n arbitrary: v)
  case (Suc n)
  then have "v div 256 < 256 ^ n" by (simp add: less_mult_imp_div_less mult.commute)
  moreover have "unat (word_of_nat v :: u8) = v mod 256" by (simp add: unsigned_of_nat take_bit_eq_mod)
  ultimately show ?case using Suc.IH by (simp add: be_bytes_Suc be_val_snoc)
qed (simp add: be_val_def)

lemma be_bytes_be_val: "length b = n \<Longrightarrow> be_bytes n (be_val b) = b"
proof (induction b arbitrary: n rule: rev_induct)
  case (snoc x b)
  then obtain k where k: "n = Suc k" "length b = k" by auto
  have "(be_val b * 256 + unat x) div 256 = be_val b" using unat_u8_less [of x] by simp
  moreover have "word_of_nat (be_val b * 256 + unat x) = x"
  proof -
    have z: "(256 :: u8) = 0" by (simp add: word_eq_iff_unsigned)
    have "word_of_nat (be_val b * 256 + unat x) = word_of_nat (be_val b) * 256 + x" by simp
    then show ?thesis unfolding z by simp
  qed
  ultimately show ?case using snoc.IH [OF k(2)] by (simp only: k(1) be_bytes_Suc be_val_snoc)
qed simp

lemma be_bytes_inj:
  assumes "be_bytes n v = be_bytes n w" and "v < 256 ^ n" and "w < 256 ^ n"
  shows "v = w"
  using assms be_val_be_bytes by metis

end
