(* ===== verification/McClose.thy ===== *)
theory McClose
  imports McAcceptance GoBytes
begin

text \<open>
  \<^verbatim>\<open>internal/mpcceremony/chain.go\<close>, second half: the close record that freezes a
  phase and commits to a future drand round, the beacon record with its derived
  challenge, and the seal record; with the schedule of the quicknet beacon.
\<close>

section \<open>List validators\<close>

definition validateRecordScope :: "string \<Rightarrow> Phase \<Rightarrow> string \<Rightarrow> unit res" where
  "validateRecordScope ceremonyID phase phaseID =
     all_ok [validateHashID ''ceremony_id'' ceremonyID, Phase_Validate phase, validateHashID ''phase_id'' phaseID]"

definition validateUniqueIDs :: "string \<Rightarrow> string list \<Rightarrow> nat \<Rightarrow> unit res" where
  "validateUniqueIDs label values maximum =
     all_ok [fail_if (values = [] \<or> length values > maximum) (label @ '' list size''),
             unique_ok (label @ '' is duplicated'') (validateID label) (\<lambda>v. v) [] values]"

definition validateArtifactList :: "string \<Rightarrow> ArtifactRef list \<Rightarrow> nat \<Rightarrow> unit res" where
  "validateArtifactList label artifacts maximum =
     all_ok [fail_if (artifacts = [] \<or> length artifacts > maximum) (label @ '' artifact count''),
             unique_ok (label @ '' artifact name is duplicated'') (\<lambda>a. wrap label (ArtifactRef_Validate a)) ar_Name [] artifacts]"

lemma validateRecordScope_ok [simp, ok_iff]:
  "validateRecordScope c p i = Inr u \<longleftrightarrow>
     tagged_hex ''sha256:'' 32 c \<and> (p = Phase1 \<or> p = Phase2) \<and> tagged_hex ''sha256:'' 32 i"
  by (simp add: validateRecordScope_def)

lemma validateUniqueIDs_ok [simp, ok_iff]:
  "validateUniqueIDs l vs m = Inr u \<longleftrightarrow>
     vs \<noteq> [] \<and> length vs \<le> m \<and> (\<forall>v \<in> set vs. v \<noteq> [] \<and> length v \<le> 128 \<and> list_all id_char v) \<and> distinct vs"
  by (simp add: validateUniqueIDs_def not_less)

lemma validateArtifactList_ok [simp, ok_iff]:
  "validateArtifactList l xs m = Inr u \<longleftrightarrow>
     xs \<noteq> [] \<and> length xs \<le> m \<and> (\<forall>x \<in> set xs. ArtifactRef_Validate x = Inr ()) \<and> distinct (map ar_Name xs)"
  by (simp add: validateArtifactList_def not_less)

section \<open>The quicknet schedule\<close>

text \<open>64-bit arithmetic as in the source; \<open>sint\<close> is the conversion \<^verbatim>\<open>int64(...)\<close>.\<close>

definition maxOffset :: u64 where
  "maxOffset = word_of_int (2 ^ 63 - 1 - BeaconQuicknetGenesis) div ucast BeaconQuicknetPeriod"

definition QuicknetRoundTime :: "u64 \<Rightarrow> int res" where
  "QuicknetRoundTime round =
     (if round = 0 then Inl (Err ''beacon round must be positive'')
      else let offset = round - 1; period = ucast BeaconQuicknetPeriod :: u64 in
        if offset > maxOffset then Inl (Err ''beacon round time overflows int64 Unix seconds'')
        else Inr (go_unix (wrap64 (BeaconQuicknetGenesis + sint (offset * period)))))"

text \<open>The schedule in unbounded arithmetic: nanoseconds since year 1.\<close>

definition round_instant :: "u64 \<Rightarrow> int" where
  "round_instant round =
     (BeaconQuicknetGenesis + 3 * (uint round - 1) + unix_epoch) * 1000000000"

section \<open>The close record\<close>

record CloseRecord =
  cl_Schema :: string
  cl_CloseID :: string
  cl_CeremonyID :: string
  cl_Phase :: Phase
  cl_PhaseID :: string
  cl_FinalIndex :: u8
  cl_FinalPayload :: ArtifactRef
  cl_ChainHeadID :: string
  cl_AcceptedParticipants :: "string list"
  cl_BeaconProvider :: string
  cl_BeaconNetwork :: string
  cl_BeaconRound :: u64
  cl_BeaconNotBefore :: string
  cl_ClosedAt :: string
  cl_CoordinatorID :: string
  cl_CoordinatorKeyID :: string

definition close_validate :: "bool \<Rightarrow> CloseRecord \<Rightarrow> unit res" where
  "close_validate requireID r =
     all_ok
      [fail_if (cl_Schema r \<noteq> CloseRecordSchema) ''close schema'',
       id_check requireID ''close_id'' (cl_CloseID r),
       validateRecordScope (cl_CeremonyID r) (cl_Phase r) (cl_PhaseID r),
       fail_if (cl_FinalIndex r = 0 \<or> unat (cl_FinalIndex r) > MaxParticipants \<or>
                unat (cl_FinalIndex r) \<noteq> length (cl_AcceptedParticipants r))
         ''final_index must equal the non-empty accepted participant count'',
       wrap ''final_payload'' (ArtifactRef_Validate (cl_FinalPayload r)),
       validateHashID ''chain_head_id'' (cl_ChainHeadID r),
       validateUniqueIDs ''accepted participant'' (cl_AcceptedParticipants r) MaxParticipants,
       validateID ''beacon_provider'' (cl_BeaconProvider r),
       validateID ''beacon_network'' (cl_BeaconNetwork r),
       fail_if (cl_BeaconRound r = 0) ''beacon_round must be positive'',
       validateTimestamp ''beacon_not_before'' (cl_BeaconNotBefore r),
       validateTimestamp ''closed_at'' (cl_ClosedAt r),
       fail_if (\<not> go_time (cl_BeaconNotBefore r) > go_time (cl_ClosedAt r)) ''beacon_not_before must be after closed_at'',
       bind_r (QuicknetRoundTime (cl_BeaconRound r)) (\<lambda>roundTime.
         fail_if (go_time (cl_BeaconNotBefore r) \<noteq> roundTime)
           ''beacon_not_before does not equal pinned beacon round schedule''),
       validateID ''coordinator_id'' (cl_CoordinatorID r),
       validateID ''coordinator_key_id'' (cl_CoordinatorKeyID r)]"

definition json_CloseRecord :: "CloseRecord \<Rightarrow> json" where
  "json_CloseRecord r =
     JObj [(''schema'', JStr (cl_Schema r)), (''close_id'', JStr (cl_CloseID r)),
           (''ceremony_id'', JStr (cl_CeremonyID r)), (''phase'', JStr (cl_Phase r)),
           (''phase_id'', JStr (cl_PhaseID r)), (''final_index'', json_word (cl_FinalIndex r)),
           (''final_payload'', json_ArtifactRef (cl_FinalPayload r)), (''chain_head_id'', JStr (cl_ChainHeadID r)),
           (''accepted_participants'', json_strings (cl_AcceptedParticipants r)),
           (''beacon_provider'', JStr (cl_BeaconProvider r)), (''beacon_network'', JStr (cl_BeaconNetwork r)),
           (''beacon_round'', json_word (cl_BeaconRound r)), (''beacon_not_before'', JStr (cl_BeaconNotBefore r)),
           (''closed_at'', JStr (cl_ClosedAt r)), (''coordinator_id'', JStr (cl_CoordinatorID r)),
           (''coordinator_key_id'', JStr (cl_CoordinatorKeyID r))]"

definition close_tag :: string where "close_tag = ''proof-tool/mpc-ceremony/close-record/v1''"

abbreviation set_close_id :: "string \<Rightarrow> CloseRecord \<Rightarrow> CloseRecord" where
  "set_close_id x r \<equiv> r\<lparr>cl_CloseID := x\<rparr>"

definition ComputeCloseRecordID :: "hash \<Rightarrow> CloseRecord \<Rightarrow> string res" where
  "ComputeCloseRecordID H = compute_id H close_tag json_CloseRecord set_close_id close_validate"

definition CloseRecord_Validate :: "hash \<Rightarrow> CloseRecord \<Rightarrow> unit res" where
  "CloseRecord_Validate H = validate_id H close_tag json_CloseRecord cl_CloseID set_close_id close_validate"

definition NewCloseRecord :: "hash \<Rightarrow> CloseRecord \<Rightarrow> CloseRecord res" where
  "NewCloseRecord H r =
     new_record H close_tag json_CloseRecord cl_CloseID set_close_id close_validate (r\<lparr>cl_Schema := CloseRecordSchema\<rparr>)"

lemma json_CloseRecord_inj [json_inj]: "json_CloseRecord a = json_CloseRecord b \<longleftrightarrow> a = b"
  by (cases a; cases b) (auto simp: json_CloseRecord_def json_inj)

lemma CloseRecord_text: "close_validate False r = Inr () \<Longrightarrow> json_utf8 (json_CloseRecord r)"
  unfolding json_CloseRecord_def
  by (subst json_utf8_obj)
    (auto simp: ascii_keys_def code_def close_validate_def intro: utf8_fields ArtifactRef_text)

interpretation close: content_record close_tag json_CloseRecord cl_CloseID set_close_id close_validate "\<lambda>_. True"
  by unfold_locales
    (auto simp: domain_tag_def close_tag_def json_inj close_validate_def
      intro: CloseRecord_text [unfolded close_validate_def])

definition ValidateClose :: "hash \<Rightarrow> CeremonyDefinition \<Rightarrow> Chain \<Rightarrow> CloseRecord \<Rightarrow> unit res" where
  "ValidateClose H d c r =
     bind_r (all_ok [CeremonyDefinition_Validate H d, ValidateAgainstDefinition H c d, CloseRecord_Validate H r]) (\<lambda>_.
     bind_r (Chain_HeadRecordID H c) (\<lambda>head.
     bind_r (Chain_HeadPayload H c) (\<lambda>payload.
     bind_r (Chain_ParticipantIDs H c) (\<lambda>participants.
     bind_r (PolicyForPhase d (ch_Phase c)) (\<lambda>policy.
     let n = length (ch_Records c);
         createdAt = go_time (cd_CreatedAt d); closedAt = go_time (cl_ClosedAt r);
         notBefore = go_time (cl_BeaconNotBefore r);
         minimumLead = uint (bp_MinimumWitnessLeadSeconds (cd_BeaconPolicy d)) * 1000000000
     in all_ok
      [fail_if (cd_Mode d = ModeProduction \<and> n \<noteq> length (pp_Participants policy))
         ''production phase requires all scheduled participants'',
       fail_if (cd_Mode d = ModeRehearsal \<and> n < unat (pp_Minimum policy)) ''phase has too few accepted contributions'',
       fail_if (cl_CeremonyID r \<noteq> ch_CeremonyID c \<or> cl_Phase r \<noteq> ch_Phase c \<or> cl_PhaseID r \<noteq> ch_PhaseID c \<or>
                unat (cl_FinalIndex r) \<noteq> n \<or> cl_FinalPayload r \<noteq> payload \<or>
                cl_ChainHeadID r \<noteq> head \<or> cl_AcceptedParticipants r \<noteq> participants)
         ''close record does not exactly bind accepted chain'',
       fail_if (cl_BeaconProvider r \<noteq> bp_Provider (cd_BeaconPolicy d) \<or>
                cl_BeaconNetwork r \<noteq> bp_Network (cd_BeaconPolicy d))
         ''close record beacon does not match definition policy'',
       fail_if (cl_CoordinatorID r \<noteq> id_ID (cd_Coordinator d) \<or> cl_CoordinatorKeyID r \<noteq> id_KeyID (cd_Coordinator d))
         ''close record coordinator does not match definition'',
       fail_if (\<not> closedAt > createdAt) ''close record must be created after the ceremony definition'',
       fail_if (ch_Records c \<noteq> [] \<and> \<not> closedAt > go_time (cr_AcceptedAt (last (ch_Records c))))
         ''close record must be created strictly after the final acceptance'',
       bind_r (QuicknetRoundTime (cl_BeaconRound r)) (\<lambda>roundTime.
         all_ok
          [fail_if (roundTime \<noteq> notBefore) ''beacon_not_before does not equal pinned beacon round schedule'',
           fail_if (\<not> roundTime > closedAt) ''beacon round was not in the future when the phase closed'',
           fail_if (dur_sub roundTime closedAt < minimumLead) ''beacon round lead is below signed minimum''])])))))"

section \<open>The beacon challenge\<close>

text \<open>\<^verbatim>\<open>stringLower\<close> visits rune starts only; the other bytes of its result stay zero.\<close>

fun stringLower :: "string \<Rightarrow> string" where
  "stringLower [] = []"
| "stringLower (c # cs) =
     (let n = max 1 (rune_size (c # cs)) in
      lower_char c # replicate (n - 1) (CHR 0x00) @ stringLower (drop (n - 1) cs))"

definition decodeBeaconRandomness :: "string \<Rightarrow> bytes res" where
  "decodeBeaconRandomness value =
     bind_r (all_ok [fail_if (length value \<noteq> 64) ''randomness_hex must contain exactly 32 bytes'',
                     fail_if (value \<noteq> stringLower value) ''randomness_hex must be lowercase hexadecimal'']) (\<lambda>_.
     case hex_decode value of
       None \<Rightarrow> Inl (Err ''randomness_hex must be lowercase hexadecimal'')
     | Some randomness \<Rightarrow> Inr randomness)"

definition challenge_field :: "bytes \<Rightarrow> bytes" where
  "challenge_field value = be_bytes 4 (length value mod 2 ^ 32) @ value"

definition challenge_tag :: string where "challenge_tag = ''proof-tool/mpc-ceremony/beacon-challenge/v1''"

definition challenge_preimage :: "string \<Rightarrow> string \<Rightarrow> string \<Rightarrow> u64 \<Rightarrow> bytes \<Rightarrow> bytes" where
  "challenge_preimage closeID provider network round randomness =
     string_bytes challenge_tag @ [0] @
     challenge_field (string_bytes closeID) @ challenge_field (string_bytes provider) @
     challenge_field (string_bytes network) @ be_bytes 8 (unat round) @ challenge_field randomness"

definition DeriveBeaconChallenge ::
    "hash \<Rightarrow> string \<Rightarrow> string \<Rightarrow> string \<Rightarrow> u64 \<Rightarrow> bytes \<Rightarrow> bytes res" where
  "DeriveBeaconChallenge H closeID provider network round randomness =
     bind_r (all_ok
      [validateHashID ''close_id'' closeID,
       fail_if (provider \<noteq> BeaconProviderDrand) ''beacon provider'',
       fail_if (network \<noteq> BeaconNetworkQuicknet) ''beacon network'',
       fail_if (round = 0) ''beacon round must be positive'',
       fail_if (length randomness \<noteq> 32) ''beacon randomness must contain exactly 32 bytes'']) (\<lambda>_.
     Inr (H (challenge_preimage closeID provider network round randomness)))"

section \<open>The beacon record\<close>

record BeaconRecord =
  br_Schema :: string
  br_BeaconID :: string
  br_CeremonyID :: string
  br_Phase :: Phase
  br_PhaseID :: string
  br_CloseID :: string
  br_Provider :: string
  br_Network :: string
  br_Round :: u64
  br_PublishedAt :: string
  br_RawResponse :: ArtifactRef
  br_RandomnessHex :: string
  br_ChallengeHex :: string
  br_ChallengeSHA256 :: string

definition beacon_validate :: "hash \<Rightarrow> bool \<Rightarrow> BeaconRecord \<Rightarrow> unit res" where
  "beacon_validate H requireID r =
     all_ok
      [fail_if (br_Schema r \<noteq> BeaconRecordSchema) ''beacon schema'',
       id_check requireID ''beacon_id'' (br_BeaconID r),
       validateRecordScope (br_CeremonyID r) (br_Phase r) (br_PhaseID r),
       validateHashID ''close_id'' (br_CloseID r),
       validateID ''provider'' (br_Provider r),
       validateID ''network'' (br_Network r),
       fail_if (br_Round r = 0) ''beacon round must be positive'',
       validateTimestamp ''published_at'' (br_PublishedAt r),
       wrap ''raw_response'' (ArtifactRef_Validate (br_RawResponse r)),
       bind_r (decodeBeaconRandomness (br_RandomnessHex r)) (\<lambda>randomness.
       bind_r (DeriveBeaconChallenge H (br_CloseID r) (br_Provider r) (br_Network r) (br_Round r) randomness) (\<lambda>challenge.
         fail_if (br_ChallengeHex r \<noteq> hex_encode challenge \<or> br_ChallengeSHA256 r \<noteq> taggedSHA256 H challenge)
           ''beacon challenge does not match deterministic derivation''))]"

definition json_BeaconRecord :: "BeaconRecord \<Rightarrow> json" where
  "json_BeaconRecord r =
     JObj [(''schema'', JStr (br_Schema r)), (''beacon_id'', JStr (br_BeaconID r)),
           (''ceremony_id'', JStr (br_CeremonyID r)), (''phase'', JStr (br_Phase r)),
           (''phase_id'', JStr (br_PhaseID r)), (''close_id'', JStr (br_CloseID r)),
           (''provider'', JStr (br_Provider r)), (''network'', JStr (br_Network r)),
           (''round'', json_word (br_Round r)), (''published_at'', JStr (br_PublishedAt r)),
           (''raw_response'', json_ArtifactRef (br_RawResponse r)), (''randomness_hex'', JStr (br_RandomnessHex r)),
           (''challenge_hex'', JStr (br_ChallengeHex r)), (''challenge_sha256'', JStr (br_ChallengeSHA256 r))]"

definition beacon_tag :: string where "beacon_tag = ''proof-tool/mpc-ceremony/beacon-record/v1''"

abbreviation set_beacon_id :: "string \<Rightarrow> BeaconRecord \<Rightarrow> BeaconRecord" where
  "set_beacon_id x r \<equiv> r\<lparr>br_BeaconID := x\<rparr>"

definition ComputeBeaconRecordID :: "hash \<Rightarrow> BeaconRecord \<Rightarrow> string res" where
  "ComputeBeaconRecordID H = compute_id H beacon_tag json_BeaconRecord set_beacon_id (beacon_validate H)"

definition BeaconRecord_Validate :: "hash \<Rightarrow> BeaconRecord \<Rightarrow> unit res" where
  "BeaconRecord_Validate H =
     validate_id H beacon_tag json_BeaconRecord br_BeaconID set_beacon_id (beacon_validate H)"

definition NewBeaconRecord :: "hash \<Rightarrow> BeaconRecord \<Rightarrow> BeaconRecord res" where
  "NewBeaconRecord H r0 =
     (let r = r0\<lparr>br_Schema := BeaconRecordSchema, br_BeaconID := []\<rparr> in
      bind_r (decodeBeaconRandomness (br_RandomnessHex r)) (\<lambda>randomness.
      bind_r (DeriveBeaconChallenge H (br_CloseID r) (br_Provider r) (br_Network r) (br_Round r) randomness) (\<lambda>challenge.
      let challengeHex = hex_encode challenge; challengeSHA256 = taggedSHA256 H challenge in
      bind_r (all_ok
        [fail_if (br_ChallengeHex r \<noteq> [] \<and> br_ChallengeHex r \<noteq> challengeHex)
           ''caller-supplied challenge_hex does not match deterministic beacon challenge'',
         fail_if (br_ChallengeSHA256 r \<noteq> [] \<and> br_ChallengeSHA256 r \<noteq> challengeSHA256)
           ''caller-supplied challenge_sha256 does not match deterministic beacon challenge'']) (\<lambda>_.
      new_record H beacon_tag json_BeaconRecord br_BeaconID set_beacon_id (beacon_validate H)
        (r\<lparr>br_ChallengeHex := challengeHex, br_ChallengeSHA256 := challengeSHA256\<rparr>)))))"

definition ValidateBeacon :: "hash \<Rightarrow> CeremonyDefinition \<Rightarrow> CloseRecord \<Rightarrow> BeaconRecord \<Rightarrow> unit res" where
  "ValidateBeacon H d r b =
     all_ok
      [CeremonyDefinition_Validate H d,
       CloseRecord_Validate H r,
       BeaconRecord_Validate H b,
       fail_if (cl_CeremonyID r \<noteq> cd_CeremonyID d \<or> cl_BeaconProvider r \<noteq> bp_Provider (cd_BeaconPolicy d) \<or>
                cl_BeaconNetwork r \<noteq> bp_Network (cd_BeaconPolicy d))
         ''close record does not match ceremony definition or beacon policy'',
       fail_if (br_CeremonyID b \<noteq> cl_CeremonyID r \<or> br_Phase b \<noteq> cl_Phase r \<or> br_PhaseID b \<noteq> cl_PhaseID r \<or>
                br_CloseID b \<noteq> cl_CloseID r \<or> br_Provider b \<noteq> cl_BeaconProvider r \<or>
                br_Network b \<noteq> cl_BeaconNetwork r \<or> br_Round b \<noteq> cl_BeaconRound r)
         ''beacon record does not exactly bind close record'',
       bind_r (decodeBeaconRandomness (br_RandomnessHex b)) (\<lambda>randomness.
       bind_r (DeriveBeaconChallenge H (cl_CloseID r) (cl_BeaconProvider r) (cl_BeaconNetwork r) (cl_BeaconRound r)
                 randomness) (\<lambda>challenge.
       all_ok
        [fail_if (br_ChallengeHex b \<noteq> hex_encode challenge \<or> br_ChallengeSHA256 b \<noteq> taggedSHA256 H challenge)
           ''beacon challenge does not match the bound close record'',
         fail_if (go_time (br_PublishedAt b) < go_time (cl_BeaconNotBefore r))
           ''beacon was published before the committed future time'',
         bind_r (QuicknetRoundTime (cl_BeaconRound r)) (\<lambda>roundTime.
           all_ok
            [fail_if (go_time (br_PublishedAt b) < roundTime)
               ''beacon published_at predates the pinned quicknet round schedule'',
             fail_if (length challenge < unat (bp_MinimumChallengeBytes (cd_BeaconPolicy d)))
               ''beacon challenge is shorter than definition policy''])]))]"

section \<open>The seal record\<close>

record SealRecord =
  sr_Schema :: string
  sr_SealID :: string
  sr_CeremonyID :: string
  sr_Phase :: Phase
  sr_PhaseID :: string
  sr_CloseID :: string
  sr_BeaconID :: string
  sr_FinalPayload :: ArtifactRef
  sr_Outputs :: "ArtifactRef list"
  sr_SealedAt :: string

definition seal_validate :: "bool \<Rightarrow> SealRecord \<Rightarrow> unit res" where
  "seal_validate requireID r =
     all_ok
      [fail_if (sr_Schema r \<noteq> SealRecordSchema) ''seal schema'',
       id_check requireID ''seal_id'' (sr_SealID r),
       validateRecordScope (sr_CeremonyID r) (sr_Phase r) (sr_PhaseID r),
       validateHashID ''close_id'' (sr_CloseID r),
       validateHashID ''beacon_id'' (sr_BeaconID r),
       wrap ''final_payload'' (ArtifactRef_Validate (sr_FinalPayload r)),
       validateArtifactList ''seal outputs'' (sr_Outputs r) 8,
       validateTimestamp ''sealed_at'' (sr_SealedAt r)]"

definition json_SealRecord :: "SealRecord \<Rightarrow> json" where
  "json_SealRecord r =
     JObj [(''schema'', JStr (sr_Schema r)), (''seal_id'', JStr (sr_SealID r)),
           (''ceremony_id'', JStr (sr_CeremonyID r)), (''phase'', JStr (sr_Phase r)),
           (''phase_id'', JStr (sr_PhaseID r)), (''close_id'', JStr (sr_CloseID r)),
           (''beacon_id'', JStr (sr_BeaconID r)), (''final_payload'', json_ArtifactRef (sr_FinalPayload r)),
           (''outputs'', JArr (map json_ArtifactRef (sr_Outputs r))), (''sealed_at'', JStr (sr_SealedAt r))]"

definition seal_tag :: string where "seal_tag = ''proof-tool/mpc-ceremony/seal-record/v1''"

abbreviation set_seal_id :: "string \<Rightarrow> SealRecord \<Rightarrow> SealRecord" where
  "set_seal_id x r \<equiv> r\<lparr>sr_SealID := x\<rparr>"

definition ComputeSealRecordID :: "hash \<Rightarrow> SealRecord \<Rightarrow> string res" where
  "ComputeSealRecordID H = compute_id H seal_tag json_SealRecord set_seal_id seal_validate"

definition SealRecord_Validate :: "hash \<Rightarrow> SealRecord \<Rightarrow> unit res" where
  "SealRecord_Validate H = validate_id H seal_tag json_SealRecord sr_SealID set_seal_id seal_validate"

definition NewSealRecord :: "hash \<Rightarrow> SealRecord \<Rightarrow> SealRecord res" where
  "NewSealRecord H r =
     new_record H seal_tag json_SealRecord sr_SealID set_seal_id seal_validate (r\<lparr>sr_Schema := SealRecordSchema\<rparr>)"

definition ValidateSeal :: "hash \<Rightarrow> CloseRecord \<Rightarrow> BeaconRecord \<Rightarrow> SealRecord \<Rightarrow> unit res" where
  "ValidateSeal H r b s =
     all_ok
      [CloseRecord_Validate H r,
       BeaconRecord_Validate H b,
       SealRecord_Validate H s,
       fail_if (sr_CeremonyID s \<noteq> cl_CeremonyID r \<or> sr_Phase s \<noteq> cl_Phase r \<or> sr_PhaseID s \<noteq> cl_PhaseID r \<or>
                sr_CloseID s \<noteq> cl_CloseID r \<or> sr_BeaconID s \<noteq> br_BeaconID b \<or>
                sr_FinalPayload s \<noteq> cl_FinalPayload r)
         ''seal record does not exactly bind close and beacon records'',
       fail_if (go_time (sr_SealedAt s) < go_time (br_PublishedAt b)) ''seal predates beacon publication'']"

lemma json_BeaconRecord_inj [json_inj]: "json_BeaconRecord a = json_BeaconRecord b \<longleftrightarrow> a = b"
  by (cases a; cases b) (auto simp: json_BeaconRecord_def json_inj)

lemma json_SealRecord_inj [json_inj]: "json_SealRecord a = json_SealRecord b \<longleftrightarrow> a = b"
  by (cases a; cases b) (auto simp: json_SealRecord_def json_inj json_map_inj)

lemma SealRecord_text: "seal_validate False r = Inr () \<Longrightarrow> json_utf8 (json_SealRecord r)"
  unfolding json_SealRecord_def
  by (subst json_utf8_obj)
    (auto simp: ascii_keys_def code_def seal_validate_def intro: utf8_fields ArtifactRef_text)

interpretation seal: content_record seal_tag json_SealRecord sr_SealID set_seal_id seal_validate "\<lambda>_. True"
  by unfold_locales
    (auto simp: domain_tag_def seal_tag_def json_inj seal_validate_def
      intro: SealRecord_text [unfolded seal_validate_def])

section \<open>Randomness and challenge\<close>

lemma stringLower_ascii: "ascii s \<Longrightarrow> stringLower s = to_lower s"
  by (induction s rule: stringLower.induct) (simp_all add: to_lower_def)

lemma unhex_ascii: "unhex c = Some n \<Longrightarrow> code c < 128"
  by (auto simp: unhex_def in_range_def split: if_splits)

lemma hex_decode_ascii: "hex_decode s = Some d \<Longrightarrow> ascii s"
  by (induction s arbitrary: d rule: hex_decode.induct) (auto split: option.splits dest: unhex_ascii)

lemma decodeBeaconRandomness_ok [ok_iff]:
  "decodeBeaconRandomness v = Inr x \<longleftrightarrow> hex_of_len 32 v \<and> v = hex_encode x"
proof
  assume "decodeBeaconRandomness v = Inr x"
  then have l: "length v = 64" "v = stringLower v" "hex_decode v = Some x"
    by (auto simp: decodeBeaconRandomness_def split: option.splits)
  then have "to_lower v = v" using stringLower_ascii hex_decode_ascii by metis
  then have "list_all lower_hex_char v"
    using hex_decode_unhex [OF l(3)] by (auto simp: to_lower_fixed list_all_iff intro: unhex_not_upper)
  then show "hex_of_len 32 v \<and> v = hex_encode x"
    using l(1) hex_encode_decode [OF l(3)] by (simp add: hex_of_len_def)
next
  assume h: "hex_of_len 32 v \<and> v = hex_encode x"
  then have "ascii v" using ascii_lower_hex by (auto simp: hex_of_len_def)
  moreover have "to_lower v = v"
    using h by (auto simp: to_lower_fixed hex_of_len_def list_all_iff dest: lower_hex_not_upper)
  ultimately have "stringLower v = v" by (simp add: stringLower_ascii)
  then show "decodeBeaconRandomness v = Inr x"
    using h by (auto simp: decodeBeaconRandomness_def hex_of_len_def)
qed

lemma challenge_field_split:
  assumes "challenge_field a @ x = challenge_field b @ y" and "length a < 2 ^ 32" and "length b < 2 ^ 32"
  shows "a = b \<and> x = y"
proof -
  have e: "be_bytes 4 (length a) @ a @ x = be_bytes 4 (length b) @ b @ y"
    using assms by (simp add: challenge_field_def)
  then have "be_bytes 4 (length a) = be_bytes 4 (length b)" "a @ x = b @ y" by simp_all
  moreover from this(1) have "length a = length b" by (rule be_bytes_inj) (use assms in simp_all)
  ultimately show ?thesis by simp
qed

lemma challenge_preimage_inj:
  assumes "challenge_preimage c p n r x = challenge_preimage c' p' n' r' x'"
    and "length c < 2 ^ 32" "length p < 2 ^ 32" "length n < 2 ^ 32" "length x < 2 ^ 32"
    and "length c' < 2 ^ 32" "length p' < 2 ^ 32" "length n' < 2 ^ 32" "length x' < 2 ^ 32"
  shows "c = c' \<and> p = p' \<and> n = n' \<and> r = r' \<and> x = x'"
proof -
  have e: "challenge_field (string_bytes c) @ challenge_field (string_bytes p) @ challenge_field (string_bytes n) @
        be_bytes 8 (unat r) @ challenge_field x =
      challenge_field (string_bytes c') @ challenge_field (string_bytes p') @ challenge_field (string_bytes n') @
        be_bytes 8 (unat r') @ challenge_field x'"
    using assms(1) by (simp add: challenge_preimage_def)
  note c = challenge_field_split [OF e]
  then have c': "c = c'" using assms(2,6) by simp
  note p = challenge_field_split [OF conjunct2 [OF c]]
  then have p': "p = p'" using assms by simp
  note n = challenge_field_split [OF conjunct2 [OF p]]
  then have n': "n = n'" using assms by simp
  have "be_bytes 8 (unat r) @ challenge_field x = be_bytes 8 (unat r') @ challenge_field x'"
    using conjunct2 [OF n] assms by simp
  then have r: "be_bytes 8 (unat r) = be_bytes 8 (unat r')" "challenge_field x @ [] = challenge_field x' @ []" by simp_all
  have "unat w < 256 ^ 8" for w :: u64
    using unsigned_less [of w] by simp
  then have "unat r = unat r'" using be_bytes_inj [OF r(1)] by blast
  then have "r = r'" by (simp add: word_unat_eq_iff)
  moreover have "x = x'" using challenge_field_split [OF r(2)] assms by simp
  ultimately show ?thesis using c' p' n' by simp
qed

lemma DeriveBeaconChallenge_ok [ok_iff]:
  "DeriveBeaconChallenge H c p n r x = Inr ch \<longleftrightarrow>
     tagged_hex ''sha256:'' 32 c \<and> p = BeaconProviderDrand \<and> n = BeaconNetworkQuicknet \<and> r \<noteq> 0 \<and>
     length x = 32 \<and> ch = H (challenge_preimage c p n r x)"
  by (auto simp: DeriveBeaconChallenge_def)

section \<open>The round schedule\<close>

lemma QuicknetRoundTime_ok:
  "QuicknetRoundTime r = Inr t \<longleftrightarrow>
     r \<noteq> 0 \<and> uint r - 1 \<le> (2 ^ 63 - 1 - BeaconQuicknetGenesis) div 3 \<and>
     t = go_unix (BeaconQuicknetGenesis + 3 * (uint r - 1))"
proof (cases "r = 0")
  case False
  have n: "unat (r - 1) = unat r - 1" "unat r \<noteq> 0" using False by (simp_all add: unat_minus_one unat_eq_0)
  have ru: "uint (r - 1) = uint r - 1" "0 \<le> uint r - 1" unfolding uint_nat using n by linarith+
  have m: "uint maxOffset = (2 ^ 63 - 1 - BeaconQuicknetGenesis) div 3"
    by (simp add: maxOffset_def BeaconQuicknetGenesis_def BeaconQuicknetPeriod_def)
  have le: "r - 1 > maxOffset \<longleftrightarrow> \<not> uint r - 1 \<le> (2 ^ 63 - 1 - BeaconQuicknetGenesis) div 3"
    by (simp add: word_less_alt m ru not_le)
  have s: "wrap64 (BeaconQuicknetGenesis + sint ((r - 1) * ucast BeaconQuicknetPeriod)) =
      BeaconQuicknetGenesis + 3 * (uint r - 1)"
    if b: "uint r - 1 \<le> (2 ^ 63 - 1 - BeaconQuicknetGenesis) div 3"
  proof -
    have b: "3 * (uint r - 1) + BeaconQuicknetGenesis < 2 ^ 63" using that by (simp add: BeaconQuicknetGenesis_def)
    then have b': "3 * (uint r - 1) < 2 ^ 63" by (simp add: BeaconQuicknetGenesis_def)
    have p: "uint (ucast BeaconQuicknetPeriod :: u64) = 3" by (simp add: BeaconQuicknetPeriod_def)
    have "uint (r - 1) * uint (ucast BeaconQuicknetPeriod :: u64) < 2 ^ LENGTH(64)"
      unfolding p ru using b' by simp
    then have "uint ((r - 1) * ucast BeaconQuicknetPeriod) = uint (r - 1) * uint (ucast BeaconQuicknetPeriod :: u64)"
      by (rule uint_mult_lem [THEN iffD1])
    then have u: "uint ((r - 1) * ucast BeaconQuicknetPeriod) = 3 * (uint r - 1)" by (simp add: p ru)
    then have "sint ((r - 1) * ucast BeaconQuicknetPeriod) = 3 * (uint r - 1)"
      unfolding sint_uint using b' ru(2) by (simp add: signed_take_bit_int_eq_self)
    then show ?thesis using b ru(2) by (simp add: wrap64_id BeaconQuicknetGenesis_def)
  qed
  show ?thesis
  proof (cases "uint r - 1 \<le> (2 ^ 63 - 1 - BeaconQuicknetGenesis) div 3")
    case True
    then show ?thesis using False le s [OF True] by (auto simp only: QuicknetRoundTime_def Let_def if_False not_True_eq_False sum.inject)
  next
    case out: False
    then show ?thesis using False le by (simp only: QuicknetRoundTime_def Let_def if_True if_False simp_thms) simp
  qed
qed (simp add: QuicknetRoundTime_def)

text \<open>For a round whose instant a timestamp can express, the schedule is exact; the internal
  64-bit second of \<^verbatim>\<open>time.Unix\<close> wraps only for rounds far beyond the year 9999.\<close>

lemma go_unix_exact: "- unix_epoch - 2 ^ 63 \<le> s \<Longrightarrow> s < 2 ^ 63 - unix_epoch \<Longrightarrow> go_unix s = (s + unix_epoch) * 1000000000"
  by (simp add: go_unix_def wrap64_id)

lemma year_days_lower: "- 366 \<le> year_days y"
proof (cases "y = 0")
  case False
  then have "0 \<le> int y - 1" by simp
  then have "(int y - 1) div 100 \<le> (int y - 1) div 4" "0 \<le> (int y - 1) div 400" by simp_all
  with False show ?thesis by (simp add: year_days_def Let_def)
qed (simp add: year_days_def)

lemma num_field_range: "num_field s i n lo hi = Some v \<Longrightarrow> lo \<le> v \<and> v \<le> hi"
  by (auto simp: num_field_def split: if_splits option.splits)

lemma go_time_lower: "- 31622400000000000 \<le> go_time s"
proof (cases "parse_rfc3339 s")
  case (Some c)
  then have "1 \<le> cv_day c"
    by (auto simp: parse_rfc3339_def dest!: num_field_range split: if_splits option.splits)
  then have d: "- 366 \<le> civil_days c"
    using year_days_lower [of "cv_year c"] by (simp add: civil_days_def)
  have "0 \<le> int (cv_hour c * 3600 + cv_min c * 60 + cv_sec c)" by simp
  with d have "- 366 * 86400 \<le> civil_secs c" unfolding civil_secs_def by linarith
  then show ?thesis using Some by (simp add: go_time_def civil_ns_def)
qed (simp add: go_time_def)

text \<open>A round time that equals a timestamp is exact.\<close>

lemma round_time_exact:
  assumes "QuicknetRoundTime r = Inr (go_time s)"
  shows "go_time s = round_instant r" "r \<noteq> 0"
proof -
  let ?x = "BeaconQuicknetGenesis + 3 * (uint r - 1)"
  have r: "r \<noteq> 0" "uint r - 1 \<le> (2 ^ 63 - 1 - BeaconQuicknetGenesis) div 3" "go_time s = go_unix ?x"
    using assms by (simp_all add: QuicknetRoundTime_ok)
  have "unat r \<noteq> 0" using r(1) by (simp add: unat_eq_0)
  then have pos: "0 \<le> uint r - 1" unfolding uint_nat by linarith
  have top: "?x < 2 ^ 63" using r(2) by (simp add: BeaconQuicknetGenesis_def)
  have "\<not> 2 ^ 63 - unix_epoch \<le> ?x"
  proof
    assume w: "2 ^ 63 - unix_epoch \<le> ?x"
    have "(?x + unix_epoch + 2 ^ 63) mod 2 ^ 64 = (?x + unix_epoch - 2 ^ 63 + 2 ^ 64) mod 2 ^ 64" by simp
    also have "\<dots> = (?x + unix_epoch - 2 ^ 63) mod 2 ^ 64" by (rule mod_add_self2)
    also have "\<dots> = ?x + unix_epoch - 2 ^ 63"
      using w top by (intro mod_pos_pos_trivial) (simp_all add: unix_epoch_def)
    finally have "go_unix ?x = (?x + unix_epoch - 2 ^ 64) * 1000000000" by (simp add: go_unix_def wrap64_def)
    then show False using r(3) top go_time_lower [of s] by (simp add: unix_epoch_def)
  qed
  then show "go_time s = round_instant r"
    using r(3) pos by (simp add: go_unix_exact round_instant_def BeaconQuicknetGenesis_def unix_epoch_def)
  show "r \<noteq> 0" by (rule r(1))
qed

section \<open>What the phase records accept\<close>

lemma tagged_utf8: "valid_utf8 (taggedSHA256 H x)"
proof -
  have "ascii (taggedSHA256 H x)"
    unfolding taggedSHA256_def ascii_simps(3)
    using ascii_sha256_tag(1) ascii_lower_hex [OF hex_encode_lower] by blast
  then show ?thesis by (rule valid_utf8_ascii)
qed

lemma hex_utf8: "valid_utf8 (hex_encode x)"
  using ascii_lower_hex [OF hex_encode_lower] by (rule valid_utf8_ascii)

lemma BeaconRecord_text: "beacon_validate H False r = Inr () \<Longrightarrow> json_utf8 (json_BeaconRecord r)"
  unfolding json_BeaconRecord_def
  by (subst json_utf8_obj)
    (auto simp: ascii_keys_def code_def beacon_validate_def decodeBeaconRandomness_ok tagged_utf8 hex_utf8
      intro: utf8_fields ArtifactRef_text)

interpretation beacon: content_record beacon_tag json_BeaconRecord br_BeaconID set_beacon_id "beacon_validate H"
    "\<lambda>_. True" for H
  by unfold_locales
    (auto simp: domain_tag_def beacon_tag_def json_inj beacon_validate_def
      intro: BeaconRecord_text [unfolded beacon_validate_def])

lemma CloseRecord_Validate_fields:
  "CloseRecord_Validate H r = Inr u \<Longrightarrow> close_validate True r = Inr ()"
  unfolding CloseRecord_Validate_def by (rule close.validate_val)

lemma close_round:
  assumes "CloseRecord_Validate H r = Inr u"
  shows "go_time (cl_BeaconNotBefore r) = round_instant (cl_BeaconRound r)"
    "QuicknetRoundTime (cl_BeaconRound r) = Inr (go_time (cl_BeaconNotBefore r))"
    "go_time (cl_ClosedAt r) < go_time (cl_BeaconNotBefore r)"
proof -
  have v: "close_validate True r = Inr ()" using assms by (rule CloseRecord_Validate_fields)
  then show q: "QuicknetRoundTime (cl_BeaconRound r) = Inr (go_time (cl_BeaconNotBefore r))"
    "go_time (cl_ClosedAt r) < go_time (cl_BeaconNotBefore r)"
    by (auto simp: close_validate_def)
  from q(1) show "go_time (cl_BeaconNotBefore r) = round_instant (cl_BeaconRound r)" by (rule round_time_exact)
qed

lemma lead_bound:
  fixes w :: u32
  shows "uint w * 1000000000 < 2 ^ 63" "- (2 ^ 63) < uint w * 1000000000"
proof -
  have "uint w < 2 ^ 32" using unsigned_less [of w] by simp
  then show "uint w * 1000000000 < 2 ^ 63" by simp
  have "- (2 ^ 63) < (0 :: int)" "0 \<le> uint w * 1000000000" by simp_all
  then show "- (2 ^ 63) < uint w * 1000000000" by (rule less_le_trans)
qed

text \<open>The nanoseconds of the signed minimum lead.\<close>

definition minimum_lead :: "CeremonyDefinition \<Rightarrow> int" where
  "minimum_lead d = uint (bp_MinimumWitnessLeadSeconds (cd_BeaconPolicy d)) * 1000000000"

lemma ValidateClose_ok [ok_iff]:
  "ValidateClose H d c r = Inr u \<longleftrightarrow>
     ValidateAgainstDefinition H c d = Inr () \<and> CloseRecord_Validate H r = Inr () \<and>
     (cd_Mode d = ModeProduction \<longrightarrow> map cr_ParticipantID (ch_Records c) = schedule d (ch_Phase c)) \<and>
     (cd_Mode d = ModeRehearsal \<longrightarrow>
        (\<forall>p. PolicyForPhase d (ch_Phase c) = Inr p \<longrightarrow> unat (pp_Minimum p) \<le> length (ch_Records c))) \<and>
     cl_CeremonyID r = ch_CeremonyID c \<and> cl_Phase r = ch_Phase c \<and> cl_PhaseID r = ch_PhaseID c \<and>
     unat (cl_FinalIndex r) = length (ch_Records c) \<and> cl_FinalPayload r = head_payload c \<and>
     cl_ChainHeadID r = head_record H c \<and> cl_AcceptedParticipants r = map cr_ParticipantID (ch_Records c) \<and>
     cl_BeaconProvider r = bp_Provider (cd_BeaconPolicy d) \<and> cl_BeaconNetwork r = bp_Network (cd_BeaconPolicy d) \<and>
     cl_CoordinatorID r = id_ID (cd_Coordinator d) \<and> cl_CoordinatorKeyID r = id_KeyID (cd_Coordinator d) \<and>
     go_time (cd_CreatedAt d) < go_time (cl_ClosedAt r) \<and>
     (ch_Records c \<noteq> [] \<longrightarrow> go_time (cr_AcceptedAt (last (ch_Records c))) < go_time (cl_ClosedAt r)) \<and>
     minimum_lead d \<le> go_time (cl_BeaconNotBefore r) - go_time (cl_ClosedAt r)" (is "_ = ?r")
proof (cases "ValidateAgainstDefinition H c d = Inr () \<and> CloseRecord_Validate H r = Inr ()")
  case True
  note v = True
  then have c: "Chain_Validate H c = Inr ()" "CeremonyDefinition_Validate H d = Inr ()"
    and pre: "prefix (map cr_ParticipantID (ch_Records c)) (schedule d (ch_Phase c))"
    by (simp_all add: ValidateAgainstDefinition_ok)
  have "ch_Phase c = Phase1 \<or> ch_Phase c = Phase2"
    using c(1) by (auto simp: Chain_Validate_ok chain_header_ok_def)
  then obtain p where p: "PolicyForPhase d (ch_Phase c) = Inr p" by auto
  have full: "length (ch_Records c) = length (pp_Participants p) \<longleftrightarrow>
      map cr_ParticipantID (ch_Records c) = schedule d (ch_Phase c)"
    using pre schedule_policy [OF p] by (metis length_map not_equal_is_parallel parallel_def prefix_order.refl)
  have hd: "Chain_HeadRecordID H c = Inr (head_record H c)" "Chain_HeadPayload H c = Inr (head_payload c)"
    "Chain_ParticipantIDs H c = Inr (map cr_ParticipantID (ch_Records c))"
    using c(1) by (simp_all add: Chain_heads_ok)
  have lead: "dur_sub t t' < uint (bp_MinimumWitnessLeadSeconds (cd_BeaconPolicy d)) * 1000000000 \<longleftrightarrow>
      \<not> minimum_lead d \<le> t - t'" for t t'
    using dur_sub_ge lead_bound unfolding minimum_lead_def by (metis not_le)
  note cr = close_round(2,3) [OF conjunct2 [OF v]]
  have units: "all_ok [Inr (), Inr (), Inr ()] = Inr ()" by simp
  have cond: "QuicknetRoundTime (cl_BeaconRound r) = Inr (go_time (cl_BeaconNotBefore r))" by (rule cr(1))
  show ?thesis
    unfolding ValidateClose_def Let_def
    by (simp only: v c(2) units hd p cond bind_r.simps all_ok_Cons all_ok.simps(1) fail_if_ok full lead cr(2)
        sum.inject simp_thms de_Morgan_disj de_Morgan_conj not_not not_less not_le) blast
qed (auto simp: ValidateClose_def)


text \<open>The derived challenge of a valid beacon record.\<close>

lemma BeaconRecord_Validate_fields:
  "BeaconRecord_Validate H b = Inr u \<Longrightarrow> beacon_validate H True b = Inr ()"
  unfolding BeaconRecord_Validate_def by (rule beacon.validate_val)

lemma beacon_challenge:
  assumes "BeaconRecord_Validate H b = Inr u"
  shows "\<exists>x. br_RandomnessHex b = hex_encode x \<and> length x = 32 \<and> br_Provider b = BeaconProviderDrand \<and>
     br_Network b = BeaconNetworkQuicknet \<and> br_Round b \<noteq> 0 \<and>
     br_ChallengeHex b = hex_encode (H (challenge_preimage (br_CloseID b) (br_Provider b) (br_Network b) (br_Round b) x)) \<and>
     br_ChallengeSHA256 b = taggedSHA256 H (H (challenge_preimage (br_CloseID b) (br_Provider b) (br_Network b) (br_Round b) x))"
  using BeaconRecord_Validate_fields [OF assms]
  by (auto simp: beacon_validate_def decodeBeaconRandomness_ok DeriveBeaconChallenge_ok)

lemma ValidateBeacon_ok:
  assumes "ValidateBeacon H d r b = Inr u"
  shows "CeremonyDefinition_Validate H d = Inr ()" "CloseRecord_Validate H r = Inr ()"
    "BeaconRecord_Validate H b = Inr ()"
    "cl_CeremonyID r = cd_CeremonyID d" "br_CeremonyID b = cl_CeremonyID r" "br_Phase b = cl_Phase r"
    "br_PhaseID b = cl_PhaseID r" "br_CloseID b = cl_CloseID r" "br_Round b = cl_BeaconRound r"
    "br_Provider b = cl_BeaconProvider r" "br_Network b = cl_BeaconNetwork r"
    "go_time (cl_BeaconNotBefore r) \<le> go_time (br_PublishedAt b)"
  using assms by (auto simp: ValidateBeacon_def not_less)

lemma ValidateSeal_ok [ok_iff]:
  "ValidateSeal H r b s = Inr u \<longleftrightarrow>
     CloseRecord_Validate H r = Inr () \<and> BeaconRecord_Validate H b = Inr () \<and> SealRecord_Validate H s = Inr () \<and>
     sr_CeremonyID s = cl_CeremonyID r \<and> sr_Phase s = cl_Phase r \<and> sr_PhaseID s = cl_PhaseID r \<and>
     sr_CloseID s = cl_CloseID r \<and> sr_BeaconID s = br_BeaconID b \<and> sr_FinalPayload s = cl_FinalPayload r \<and>
     go_time (br_PublishedAt b) \<le> go_time (sr_SealedAt s)"
  by (auto simp: ValidateSeal_def not_less)

end
