(* ===== verification/McTranscript.thy ===== *)
theory McTranscript
  imports McClose
begin

text \<open>
  \<^verbatim>\<open>internal/mpcceremony/chain.go\<close>, last part: the audit record, the phase summary and
  the final transcript that refers to both phases, the audits, the operational evidence
  and the keys. \<^verbatim>\<open>SignedArtifactRefs\<close> is from \<^verbatim>\<open>operational_bundle.go\<close>.
  The findings of an audit may be a nil slice, which JSON tells from an empty one.
\<close>

section \<open>Signed artifact pairs\<close>

record SignedArtifactRefs =
  sar_Record :: ArtifactRef
  sar_Signature :: ArtifactRef

definition SignedArtifactRefs_Validate :: "SignedArtifactRefs \<Rightarrow> unit res" where
  "SignedArtifactRefs_Validate r =
     all_ok
      [wrap ''record'' (ArtifactRef_Validate (sar_Record r)),
       wrap ''signature'' (ArtifactRef_Validate (sar_Signature r)),
       fail_if (ar_Name (sar_Record r) = ar_Name (sar_Signature r))
         ''signed artifact record and signature names must be distinct'']"

definition json_SignedArtifactRefs :: "SignedArtifactRefs \<Rightarrow> json" where
  "json_SignedArtifactRefs r =
     JObj [(''record'', json_ArtifactRef (sar_Record r)), (''signature'', json_ArtifactRef (sar_Signature r))]"

lemma json_SignedArtifactRefs_inj [json_inj]: "json_SignedArtifactRefs a = json_SignedArtifactRefs b \<longleftrightarrow> a = b"
  by (cases a; cases b) (auto simp: json_SignedArtifactRefs_def json_inj)

lemma SignedArtifactRefs_text [json_text]:
  "SignedArtifactRefs_Validate r = Inr () \<Longrightarrow> json_utf8 (json_SignedArtifactRefs r)"
  unfolding json_SignedArtifactRefs_def
  by (subst json_utf8_obj)
    (auto simp: ascii_keys_def code_def SignedArtifactRefs_Validate_def intro: ArtifactRef_text)

section \<open>The audit record\<close>

record AuditRecord =
  au_Schema :: string
  au_AuditID :: string
  au_CeremonyID :: string
  au_AuditorID :: string
  au_AuditorKeyID :: string
  au_Definition :: ArtifactRef
  au_Phase1Chain :: ArtifactRef
  au_Phase2Chain :: ArtifactRef
  au_Phase1SealID :: string
  au_Phase2SealID :: string
  au_ReplayRootSHA256 :: string
  au_Outputs :: "ArtifactRef list"
  au_Passed :: bool
  au_Findings :: "string slice"
  au_AuditedAt :: string

definition audit_validate :: "bool \<Rightarrow> AuditRecord \<Rightarrow> unit res" where
  "audit_validate requireID r =
     all_ok
      [fail_if (au_Schema r \<noteq> AuditRecordSchema) ''audit schema'',
       id_check requireID ''audit_id'' (au_AuditID r),
       validateHashID ''ceremony_id'' (au_CeremonyID r),
       validateID ''auditor_id'' (au_AuditorID r),
       validateID ''auditor_key_id'' (au_AuditorKeyID r),
       wrap ''definition'' (ArtifactRef_Validate (au_Definition r)),
       wrap ''phase1_chain'' (ArtifactRef_Validate (au_Phase1Chain r)),
       wrap ''phase2_chain'' (ArtifactRef_Validate (au_Phase2Chain r)),
       validateHashID ''phase1_seal_id'' (au_Phase1SealID r),
       validateHashID ''phase2_seal_id'' (au_Phase2SealID r),
       validateHashID ''replay_root_sha256'' (au_ReplayRootSHA256 r),
       validateArtifactList ''audit outputs'' (au_Outputs r) 16,
       fail_if (au_Passed r \<and> slice_list (au_Findings r) \<noteq> []) ''passing audit must not contain findings'',
       fail_if (\<not> au_Passed r \<and> slice_list (au_Findings r) = []) ''failed audit must contain at least one finding'',
       all_ok (map (\<lambda>f. fail_if (f = []) ''audit findings must not be empty'') (slice_list (au_Findings r))),
       validateTimestamp ''audited_at'' (au_AuditedAt r)]"

definition json_AuditRecord :: "AuditRecord \<Rightarrow> json" where
  "json_AuditRecord r =
     JObj [(''schema'', JStr (au_Schema r)), (''audit_id'', JStr (au_AuditID r)),
           (''ceremony_id'', JStr (au_CeremonyID r)), (''auditor_id'', JStr (au_AuditorID r)),
           (''auditor_key_id'', JStr (au_AuditorKeyID r)), (''definition'', json_ArtifactRef (au_Definition r)),
           (''phase1_chain'', json_ArtifactRef (au_Phase1Chain r)),
           (''phase2_chain'', json_ArtifactRef (au_Phase2Chain r)),
           (''phase1_seal_id'', JStr (au_Phase1SealID r)), (''phase2_seal_id'', JStr (au_Phase2SealID r)),
           (''replay_root_sha256'', JStr (au_ReplayRootSHA256 r)),
           (''outputs'', JArr (map json_ArtifactRef (au_Outputs r))), (''passed'', JBool (au_Passed r)),
           (''findings'', json_slice JStr (au_Findings r)), (''audited_at'', JStr (au_AuditedAt r))]"

definition audit_tag :: string where "audit_tag = ''proof-tool/mpc-ceremony/audit-record/v1''"

abbreviation set_audit_id :: "string \<Rightarrow> AuditRecord \<Rightarrow> AuditRecord" where
  "set_audit_id x r \<equiv> r\<lparr>au_AuditID := x\<rparr>"

definition ComputeAuditRecordID :: "hash \<Rightarrow> AuditRecord \<Rightarrow> string res" where
  "ComputeAuditRecordID H = compute_id H audit_tag json_AuditRecord set_audit_id audit_validate"

definition AuditRecord_Validate :: "hash \<Rightarrow> AuditRecord \<Rightarrow> unit res" where
  "AuditRecord_Validate H = validate_id H audit_tag json_AuditRecord au_AuditID set_audit_id audit_validate"

definition NewAuditRecord :: "hash \<Rightarrow> AuditRecord \<Rightarrow> AuditRecord res" where
  "NewAuditRecord H r =
     new_record H audit_tag json_AuditRecord au_AuditID set_audit_id audit_validate (r\<lparr>au_Schema := AuditRecordSchema\<rparr>)"

text \<open>Findings are free text.\<close>

definition audit_text :: "AuditRecord \<Rightarrow> bool" where
  "audit_text r \<longleftrightarrow> (\<forall>f \<in> set (slice_list (au_Findings r)). valid_utf8 f)"

lemma json_AuditRecord_inj [json_inj]: "json_AuditRecord a = json_AuditRecord b \<longleftrightarrow> a = b"
  by (cases a; cases b) (auto simp: json_AuditRecord_def json_inj json_map_inj json_slice_inj)

lemma AuditRecord_text: "audit_validate False r = Inr () \<Longrightarrow> audit_text r \<Longrightarrow> json_utf8 (json_AuditRecord r)"
  unfolding json_AuditRecord_def
  by (subst json_utf8_obj)
    (auto simp: ascii_keys_def code_def audit_validate_def audit_text_def intro: utf8_fields ArtifactRef_text)

interpretation audit: content_record audit_tag json_AuditRecord au_AuditID set_audit_id audit_validate audit_text
  by unfold_locales
    (auto simp: domain_tag_def audit_tag_def json_inj audit_validate_def audit_text_def
      intro: AuditRecord_text [unfolded audit_validate_def audit_text_def])

text \<open>An audit passes exactly when it has no findings.\<close>

lemma audit_findings:
  "audit_validate q r = Inr u \<Longrightarrow> au_Passed r \<longleftrightarrow> slice_list (au_Findings r) = []"
  by (auto simp: audit_validate_def)

section \<open>The phase summary\<close>

record PhaseSummary =
  ps_Phase :: Phase
  ps_PhaseID :: string
  ps_Genesis :: ArtifactRef
  ps_Chain :: ArtifactRef
  ps_ChainHeadID :: string
  ps_ContributionCount :: u8
  ps_Participants :: "string list"
  ps_CloseID :: string
  ps_BeaconID :: string
  ps_SealID :: string
  ps_Outputs :: "ArtifactRef list"

definition PhaseSummary_Validate :: "PhaseSummary \<Rightarrow> unit res" where
  "PhaseSummary_Validate s =
     all_ok
      [Phase_Validate (ps_Phase s),
       validateHashID ''phase_id'' (ps_PhaseID s),
       wrap ''genesis'' (ArtifactRef_Validate (ps_Genesis s)),
       wrap ''chain'' (ArtifactRef_Validate (ps_Chain s)),
       validateHashID ''chain_head_id'' (ps_ChainHeadID s),
       fail_if (ps_ContributionCount s = 0 \<or> unat (ps_ContributionCount s) \<noteq> length (ps_Participants s))
         ''contribution_count must equal non-empty participants'',
       validateUniqueIDs ''participant'' (ps_Participants s) MaxParticipants,
       validateHashID ''close_id'' (ps_CloseID s),
       validateHashID ''beacon_id'' (ps_BeaconID s),
       validateHashID ''seal_id'' (ps_SealID s),
       validateArtifactList ''phase outputs'' (ps_Outputs s) 8]"

definition json_PhaseSummary :: "PhaseSummary \<Rightarrow> json" where
  "json_PhaseSummary s =
     JObj [(''phase'', JStr (ps_Phase s)), (''phase_id'', JStr (ps_PhaseID s)),
           (''genesis'', json_ArtifactRef (ps_Genesis s)), (''chain'', json_ArtifactRef (ps_Chain s)),
           (''chain_head_id'', JStr (ps_ChainHeadID s)), (''contribution_count'', json_word (ps_ContributionCount s)),
           (''participants'', json_strings (ps_Participants s)), (''close_id'', JStr (ps_CloseID s)),
           (''beacon_id'', JStr (ps_BeaconID s)), (''seal_id'', JStr (ps_SealID s)),
           (''outputs'', JArr (map json_ArtifactRef (ps_Outputs s)))]"

lemma json_PhaseSummary_inj [json_inj]: "json_PhaseSummary a = json_PhaseSummary b \<longleftrightarrow> a = b"
  by (cases a; cases b) (auto simp: json_PhaseSummary_def json_inj json_map_inj)

lemma PhaseSummary_text [json_text]: "PhaseSummary_Validate s = Inr () \<Longrightarrow> json_utf8 (json_PhaseSummary s)"
  unfolding json_PhaseSummary_def
  by (subst json_utf8_obj)
    (auto simp: ascii_keys_def code_def PhaseSummary_Validate_def intro: utf8_fields ArtifactRef_text)

section \<open>The final transcript\<close>

record FinalTranscript =
  ft_Schema :: string
  ft_TranscriptID :: string
  ft_CeremonyID :: string
  ft_Definition :: ArtifactRef
  ft_Circuit :: CircuitBinding
  ft_Phase1 :: PhaseSummary
  ft_Phase2 :: PhaseSummary
  ft_Audits :: "ArtifactRef list"
  ft_OperationalEvidence :: SignedArtifactRefs
  ft_ProvingKey :: ArtifactRef
  ft_VerifyingKey :: ArtifactRef
  ft_CardanoVerifyingKey :: ArtifactRef
  ft_FinalizedAt :: string

definition transcript_validate :: "bool \<Rightarrow> FinalTranscript \<Rightarrow> unit res" where
  "transcript_validate requireID r =
     all_ok
      [fail_if (ft_Schema r \<noteq> FinalTranscriptSchema) ''transcript schema'',
       id_check requireID ''transcript_id'' (ft_TranscriptID r),
       validateHashID ''ceremony_id'' (ft_CeremonyID r),
       wrap ''definition'' (ArtifactRef_Validate (ft_Definition r)),
       wrap ''circuit'' (CircuitBinding_Validate (ft_Circuit r)),
       wrap ''phase1'' (PhaseSummary_Validate (ft_Phase1 r)),
       fail_if (ps_Phase (ft_Phase1 r) \<noteq> Phase1) ''phase1 summary has wrong phase'',
       wrap ''phase2'' (PhaseSummary_Validate (ft_Phase2 r)),
       fail_if (ps_Phase (ft_Phase2 r) \<noteq> Phase2) ''phase2 summary has wrong phase'',
       fail_if (length (ft_Audits r) < 2) ''final transcript requires at least two independent audit artifacts'',
       validateArtifactList ''audits'' (ft_Audits r) MaxParticipants,
       wrap ''operational_evidence'' (SignedArtifactRefs_Validate (ft_OperationalEvidence r)),
       wrap ''proving_key'' (ArtifactRef_Validate (ft_ProvingKey r)),
       wrap ''verifying_key'' (ArtifactRef_Validate (ft_VerifyingKey r)),
       wrap ''cardano_verifying_key'' (ArtifactRef_Validate (ft_CardanoVerifyingKey r)),
       validateTimestamp ''finalized_at'' (ft_FinalizedAt r)]"

definition json_FinalTranscript :: "FinalTranscript \<Rightarrow> json" where
  "json_FinalTranscript r =
     JObj [(''schema'', JStr (ft_Schema r)), (''transcript_id'', JStr (ft_TranscriptID r)),
           (''ceremony_id'', JStr (ft_CeremonyID r)), (''definition'', json_ArtifactRef (ft_Definition r)),
           (''circuit'', json_CircuitBinding (ft_Circuit r)), (''phase1'', json_PhaseSummary (ft_Phase1 r)),
           (''phase2'', json_PhaseSummary (ft_Phase2 r)), (''audits'', JArr (map json_ArtifactRef (ft_Audits r))),
           (''operational_evidence'', json_SignedArtifactRefs (ft_OperationalEvidence r)),
           (''proving_key'', json_ArtifactRef (ft_ProvingKey r)),
           (''verifying_key'', json_ArtifactRef (ft_VerifyingKey r)),
           (''cardano_verifying_key'', json_ArtifactRef (ft_CardanoVerifyingKey r)),
           (''finalized_at'', JStr (ft_FinalizedAt r))]"

definition transcript_tag :: string where "transcript_tag = ''proof-tool/mpc-ceremony/final-transcript/v1''"

abbreviation set_transcript_id :: "string \<Rightarrow> FinalTranscript \<Rightarrow> FinalTranscript" where
  "set_transcript_id x r \<equiv> r\<lparr>ft_TranscriptID := x\<rparr>"

definition ComputeFinalTranscriptID :: "hash \<Rightarrow> FinalTranscript \<Rightarrow> string res" where
  "ComputeFinalTranscriptID H =
     compute_id H transcript_tag json_FinalTranscript set_transcript_id transcript_validate"

definition FinalTranscript_Validate :: "hash \<Rightarrow> FinalTranscript \<Rightarrow> unit res" where
  "FinalTranscript_Validate H =
     validate_id H transcript_tag json_FinalTranscript ft_TranscriptID set_transcript_id transcript_validate"

definition NewFinalTranscript :: "hash \<Rightarrow> FinalTranscript \<Rightarrow> FinalTranscript res" where
  "NewFinalTranscript H r =
     new_record H transcript_tag json_FinalTranscript ft_TranscriptID set_transcript_id transcript_validate
       (r\<lparr>ft_Schema := FinalTranscriptSchema\<rparr>)"

lemma json_FinalTranscript_inj [json_inj]: "json_FinalTranscript a = json_FinalTranscript b \<longleftrightarrow> a = b"
  by (cases a; cases b) (auto simp: json_FinalTranscript_def json_inj json_map_inj)

lemma FinalTranscript_text: "transcript_validate False r = Inr () \<Longrightarrow> json_utf8 (json_FinalTranscript r)"
  unfolding json_FinalTranscript_def
  by (subst json_utf8_obj)
    (auto simp: ascii_keys_def code_def transcript_validate_def
      intro: utf8_fields ArtifactRef_text CircuitBinding_text PhaseSummary_text SignedArtifactRefs_text)

interpretation transcript: content_record transcript_tag json_FinalTranscript ft_TranscriptID set_transcript_id
    transcript_validate "\<lambda>_. True"
  by unfold_locales
    (auto simp: domain_tag_def transcript_tag_def json_inj transcript_validate_def
      intro: FinalTranscript_text [unfolded transcript_validate_def])

end
