(* ===== verification/McPreflight.thy ===== *)
theory McPreflight
  imports McModel GoBytes
begin

text \<open>
  \<^verbatim>\<open>internal/mpcceremony/preflight.go\<close>, the scanner: a streaming pass over a complete
  gnark encoding that checks every length and every point's compression flags against a
  locally trusted shape before the native decoder sees a byte. A reader is the finite byte
  string it will deliver; the two hashes of the tee are those of everything read, which at a
  successful \<^verbatim>\<open>finish\<close> is the whole input. Reading past the end is the only I/O error.

  The specification is a layout: the list of fields of an encoding, each of a fixed size.
\<close>

record ArtifactDigest =
  ad_Size :: int
  ad_SHA256 :: bytes
  ad_BLAKE2b256 :: bytes
  ad_Challenge :: bytes

record preflightScanner =
  sc_input :: bytes
  sc_rest :: bytes
  sc_expected :: int
  sc_n :: int

definition ErrInvalidShape :: err where "ErrInvalidShape = Err ''invalid MPC artifact shape''"
definition ErrNonCanonicalPoint :: err where
  "ErrNonCanonicalPoint = Err ''non-canonical compressed BLS12-381 point''"
definition ErrTrailingData :: err where "ErrTrailingData = Err ''trailing data after MPC artifact''"

type_synonym 'a scan = "preflightScanner \<Rightarrow> ('a \<times> preflightScanner) res"

definition newPreflightScanner :: "bytes \<Rightarrow> int \<Rightarrow> preflightScanner" where
  "newPreflightScanner r expected = \<lparr>sc_input = r, sc_rest = r, sc_expected = expected, sc_n = 0\<rparr>"

definition readFull :: "nat \<Rightarrow> bytes scan" where
  "readFull k s =
     (let n = min k (length (sc_rest s));
          s' = s\<lparr>sc_rest := drop n (sc_rest s), sc_n := sc_n s + int n\<rparr>
      in if n < k then Inl (Err ''unexpected EOF'')
         else if sc_n s' > sc_expected s' then Inl (Wrap ''artifact exceeds expected bytes'' ErrTrailingData)
         else Inr (take n (sc_rest s), s'))"

text \<open>Big-endian numbers.\<close>

definition scan_uint16 :: "u16 scan" where
  "scan_uint16 s = bind_r (readFull 2 s) (\<lambda>(b, s'). Inr (word_of_nat (be_val b), s'))"

definition scan_uint32 :: "u32 scan" where
  "scan_uint32 s = bind_r (readFull 4 s) (\<lambda>(b, s'). Inr (word_of_nat (be_val b), s'))"

definition scan_uint64 :: "u64 scan" where
  "scan_uint64 s = bind_r (readFull 8 s) (\<lambda>(b, s'). Inr (word_of_nat (be_val b), s'))"

definition canonical_flags :: "u8 \<Rightarrow> bool" where
  "canonical_flags x \<longleftrightarrow> x AND 0xe0 = 0x80 \<or> x AND 0xe0 = 0xa0 \<or> x AND 0xe0 = 0xc0"

definition scan_point :: "nat \<Rightarrow> unit scan" where
  "scan_point sz s =
     bind_r (readFull sz s) (\<lambda>(encoded, s').
       if canonical_flags (hd encoded) then Inr ((), s') else Inl ErrNonCanonicalPoint)"

definition pointG1 :: "unit scan" where "pointG1 = scan_point (unat g1CompressedSize)"
definition pointG2 :: "unit scan" where "pointG2 = scan_point (unat g2CompressedSize)"

fun repeat_scan :: "nat \<Rightarrow> unit scan \<Rightarrow> unit scan" where
  "repeat_scan 0 f s = Inr ((), s)"
| "repeat_scan (Suc n) f s = bind_r (f s) (\<lambda>(_, s'). repeat_scan n f s')"

definition pointsG1 :: "u64 \<Rightarrow> unit scan" where
  "pointsG1 n s = wrap ''point'' (repeat_scan (unat n) pointG1 s)"

definition pointsG2 :: "u64 \<Rightarrow> unit scan" where
  "pointsG2 n s = wrap ''point'' (repeat_scan (unat n) pointG2 s)"

definition vectorG1 :: "string \<Rightarrow> u32 \<Rightarrow> unit scan" where
  "vectorG1 name expected s =
     bind_r (wrap name (scan_uint32 s)) (\<lambda>(n, s').
       if n \<noteq> expected then Inl (Wrap name ErrInvalidShape)
       else wrap name (pointsG1 (ucast n) s'))"

definition updateProof :: "string \<Rightarrow> unit scan" where
  "updateProof name s =
     bind_r (wrap (name @ '' G1'') (pointG1 s)) (\<lambda>(_, s'). wrap (name @ '' G2'') (pointG2 s'))"

definition scan_challenge :: "u8 \<Rightarrow> bytes scan" where
  "scan_challenge expected s =
     bind_r (wrap ''challenge length'' (readFull 1 s)) (\<lambda>(l, s').
       if hd l \<noteq> expected then Inl (Wrap ''challenge length'' ErrInvalidShape)
       else wrap ''challenge'' (readFull (unat expected) s'))"

definition finish :: "hash \<Rightarrow> hash \<Rightarrow> bytes \<Rightarrow> preflightScanner \<Rightarrow> ArtifactDigest res" where
  "finish H B challenge s =
     (if sc_n s \<noteq> sc_expected s then Inl (Wrap ''read bytes'' ErrInvalidShape)
      else if sc_rest s \<noteq> [] then Inl ErrTrailingData
      else Inr \<lparr>ad_Size = sc_expected s, ad_SHA256 = H (sc_input s), ad_BLAKE2b256 = B (sc_input s),
                ad_Challenge = challenge\<rparr>)"

definition scanCommonsBody :: "u64 \<Rightarrow> unit scan" where
  "scanCommonsBody n s =
     bind_r (wrap ''SRS commons G2 Beta'' (pointG2 s)) (\<lambda>(_, s).
     bind_r (wrap ''SRS commons G1 Tau'' (pointsG1 (2 * n - 2) s)) (\<lambda>(_, s).
     bind_r (wrap ''SRS commons G2 Tau'' (pointsG2 (n - 1) s)) (\<lambda>(_, s).
     bind_r (wrap ''SRS commons G1 BetaTau'' (pointsG1 n s)) (\<lambda>(_, s).
     wrap ''SRS commons G1 AlphaTau'' (pointsG1 n s)))))"

definition phase1_proof :: "unit scan" where
  "phase1_proof s =
     bind_r (wrap ''Phase 1 update proof G1'' (pointG1 s)) (\<lambda>(_, s'). wrap ''Phase 1 update proof G2'' (pointG2 s'))"

definition PreflightPhase1 :: "hash \<Rightarrow> hash \<Rightarrow> bytes \<Rightarrow> Phase1Shape \<Rightarrow> ArtifactDigest res" where
  "PreflightPhase1 H B r sh =
     bind_r (ExpectedPhase1Size sh) (\<lambda>expected.
     bind_r (repeat_scan 3 phase1_proof (newPreflightScanner r expected)) (\<lambda>(_, s).
     bind_r (wrap ''Phase 1 domain'' (scan_uint64 s)) (\<lambda>(n, s).
     if n \<noteq> p1s_DomainN sh then Inl (Wrap ''Phase 1 domain'' ErrInvalidShape)
     else
       bind_r (scanCommonsBody n s) (\<lambda>(_, s).
       bind_r (scan_challenge (p1s_ChallengeLength sh) s) (\<lambda>(challenge, s).
       finish H B challenge s)))))"

definition PreflightCommons :: "hash \<Rightarrow> hash \<Rightarrow> bytes \<Rightarrow> CommonsShape \<Rightarrow> ArtifactDigest res" where
  "PreflightCommons H B r sh =
     bind_r (ExpectedCommonsSize sh) (\<lambda>expected.
     bind_r (wrap ''SRS commons domain'' (scan_uint64 (newPreflightScanner r expected))) (\<lambda>(n, s).
     if n \<noteq> cs_DomainN sh then Inl (Wrap ''SRS commons domain'' ErrInvalidShape)
     else
       bind_r (scanCommonsBody n s) (\<lambda>(_, s).
       finish H B [] s)))"

fun vectorsG1 :: "u32 list \<Rightarrow> unit scan" where
  "vectorsG1 [] s = Inr ((), s)"
| "vectorsG1 (want # wants) s = bind_r (vectorG1 ''Phase 2 SigmaCKK'' want s) (\<lambda>(_, s'). vectorsG1 wants s')"

definition PreflightPhase2 :: "hash \<Rightarrow> hash \<Rightarrow> bytes \<Rightarrow> Phase2Shape \<Rightarrow> ArtifactDigest res" where
  "PreflightPhase2 H B r sh =
     bind_r (ExpectedPhase2Size sh) (\<lambda>expected.
     bind_r (wrap ''Phase 2 commitments'' (scan_uint16 (newPreflightScanner r expected))) (\<lambda>(commitments, s).
     if commitments \<noteq> p2s_Commitments sh then Inl (Wrap ''Phase 2 commitments'' ErrInvalidShape)
     else
       bind_r (wrap ''Phase 2 G1 Delta'' (pointG1 s)) (\<lambda>(_, s).
       bind_r (vectorG1 ''Phase 2 PKK'' (p2s_PKK sh) s) (\<lambda>(_, s).
       bind_r (vectorG1 ''Phase 2 Z'' (p2s_Z sh) s) (\<lambda>(_, s).
       bind_r (wrap ''Phase 2 G2 Delta'' (pointG2 s)) (\<lambda>(_, s).
       bind_r (vectorsG1 (slice_list (p2s_SigmaCKK sh)) s) (\<lambda>(_, s).
       bind_r (wrap ''Phase 2 G2 Sigma'' (pointsG2 (ucast (p2s_Commitments sh)) s)) (\<lambda>(_, s).
       bind_r (updateProof ''Phase 2 Delta proof'' s) (\<lambda>(_, s).
       bind_r (repeat_scan (unat (p2s_Commitments sh)) (updateProof ''Phase 2 Sigma proof'') s) (\<lambda>(_, s).
       bind_r (scan_challenge (p2s_ChallengeLength sh) s) (\<lambda>(challenge, s).
       finish H B challenge s)))))))))))"

section \<open>Layouts\<close>

datatype item = G1 | G2 | Num nat nat | Blob nat

fun item_size :: "item \<Rightarrow> nat" where
  "item_size G1 = 48"
| "item_size G2 = 96"
| "item_size (Num w v) = w"
| "item_size (Blob k) = k"

fun item_ok :: "item \<Rightarrow> bytes \<Rightarrow> bool" where
  "item_ok G1 b \<longleftrightarrow> length b = 48 \<and> canonical_flags (hd b)"
| "item_ok G2 b \<longleftrightarrow> length b = 96 \<and> canonical_flags (hd b)"
| "item_ok (Num w v) b \<longleftrightarrow> length b = w \<and> be_val b = v"
| "item_ok (Blob k) b \<longleftrightarrow> length b = k"

text \<open>A byte string that consists of exactly the fields of a layout.\<close>

fun layout_ok :: "item list \<Rightarrow> bytes \<Rightarrow> bool" where
  "layout_ok [] b \<longleftrightarrow> b = []"
| "layout_ok (i # is) b \<longleftrightarrow> item_ok i (take (item_size i) b) \<and> layout_ok is (drop (item_size i) b)"

definition layout_size :: "item list \<Rightarrow> nat" where
  "layout_size is = (\<Sum>i \<leftarrow> is. item_size i)"

definition commons_layout :: "u64 \<Rightarrow> item list" where
  "commons_layout n =
     [Num 8 (unat n), G2] @ replicate (2 * unat n - 2) G1 @ replicate (unat n - 1) G2 @
     replicate (unat n) G1 @ replicate (unat n) G1"

definition proof_layout :: "item list" where "proof_layout = [G1, G2]"

definition challenge_layout :: "u8 \<Rightarrow> item list" where
  "challenge_layout c = [Num 1 (unat c), Blob (unat c)]"

definition phase1_layout :: "Phase1Shape \<Rightarrow> item list" where
  "phase1_layout sh =
     concat (replicate 3 proof_layout) @ commons_layout (p1s_DomainN sh) @ challenge_layout (p1s_ChallengeLength sh)"

definition vector_layout :: "u32 \<Rightarrow> item list" where
  "vector_layout n = Num 4 (unat n) # replicate (unat n) G1"

definition phase2_layout :: "Phase2Shape \<Rightarrow> item list" where
  "phase2_layout sh =
     [Num 2 (unat (p2s_Commitments sh)), G1] @ vector_layout (p2s_PKK sh) @ vector_layout (p2s_Z sh) @ [G2] @
     concat (map vector_layout (slice_list (p2s_SigmaCKK sh))) @ replicate (unat (p2s_Commitments sh)) G2 @
     proof_layout @ concat (replicate (unat (p2s_Commitments sh)) proof_layout) @
     challenge_layout (p2s_ChallengeLength sh)"

section \<open>The scanner reads layouts\<close>

lemma layout_ok_length: "layout_ok xs b \<Longrightarrow> length b = layout_size xs"
proof (induction xs arbitrary: b)
  case (Cons i xs)
  then have "length (take (item_size i) b) = item_size i" by (cases i) simp_all
  moreover have "length (drop (item_size i) b) = layout_size xs" by (rule Cons.IH) (use Cons.prems in simp)
  ultimately have "length (take (item_size i) b) + length (drop (item_size i) b) = item_size i + layout_size xs" by simp
  then show ?case by (simp add: layout_size_def)
qed (simp add: layout_size_def)

lemma layout_ok_append:
  "layout_ok (xs @ ys) b \<longleftrightarrow> (\<exists>p q. b = p @ q \<and> layout_ok xs p \<and> layout_ok ys q)"
proof (induction xs arbitrary: b)
  case (Cons i xs)
  show ?case
  proof
    assume "layout_ok ((i # xs) @ ys) b"
    then obtain p q where h: "item_ok i (take (item_size i) b)" "drop (item_size i) b = p @ q" "layout_ok xs p" "layout_ok ys q"
      using Cons.IH by auto
    have l: "length (take (item_size i) b) = item_size i" using h(1) by (cases i) simp_all
    let ?p = "take (item_size i) b @ p"
    have "b = ?p @ q" using h(2) by (metis append.assoc append_take_drop_id)
    moreover have "layout_ok (i # xs) ?p" using h l by simp
    ultimately show "\<exists>p q. b = p @ q \<and> layout_ok (i # xs) p \<and> layout_ok ys q" using h(4) by blast
  next
    assume "\<exists>p q. b = p @ q \<and> layout_ok (i # xs) p \<and> layout_ok ys q"
    then obtain p q where h: "b = p @ q" "layout_ok (i # xs) p" "layout_ok ys q" by blast
    have "item_size i \<le> length p" using layout_ok_length [OF h(2)] by (simp add: layout_size_def)
    then show "layout_ok ((i # xs) @ ys) b" using h Cons.IH by auto
  qed
qed simp

definition skip :: "nat \<Rightarrow> preflightScanner \<Rightarrow> preflightScanner" where
  "skip k s = s\<lparr>sc_rest := drop k (sc_rest s), sc_n := sc_n s + int k\<rparr>"

text \<open>The scanner moved over a well-formed piece of the input without passing the expected size.\<close>

definition reads :: "item list \<Rightarrow> preflightScanner \<Rightarrow> preflightScanner \<Rightarrow> bool" where
  "reads xs s s' \<longleftrightarrow>
     layout_ok xs (take (layout_size xs) (sc_rest s)) \<and>
     (xs \<noteq> [] \<longrightarrow> sc_n s + int (layout_size xs) \<le> sc_expected s) \<and> s' = skip (layout_size xs) s"

lemma skip_fields [simp]:
  "sc_rest (skip k s) = drop k (sc_rest s)" "sc_n (skip k s) = sc_n s + int k"
  "sc_expected (skip k s) = sc_expected s" "sc_input (skip k s) = sc_input s"
  by (simp_all add: skip_def)

lemma skip_skip: "skip k (skip j s) = skip (j + k) s"
  by (simp add: skip_def add.commute)

lemma layout_size_append [simp]: "layout_size (xs @ ys) = layout_size xs + layout_size ys"
  by (simp add: layout_size_def)

lemma layout_take_append:
  "layout_ok (xs @ ys) (take (layout_size xs + layout_size ys) b) \<longleftrightarrow>
     layout_ok xs (take (layout_size xs) b) \<and> layout_ok ys (take (layout_size ys) (drop (layout_size xs) b))"
proof
  assume "layout_ok (xs @ ys) (take (layout_size xs + layout_size ys) b)"
  then obtain p q where h: "take (layout_size xs + layout_size ys) b = p @ q" "layout_ok xs p" "layout_ok ys q"
    using layout_ok_append by blast
  note l = layout_ok_length [OF h(2)] layout_ok_length [OF h(3)]
  have "take (layout_size xs) b = p" using arg_cong [OF h(1), of "take (layout_size xs)"] l by (simp add: min_def)
  moreover have "take (layout_size ys) (drop (layout_size xs) b) = q"
    using arg_cong [OF h(1), of "drop (layout_size xs)"] l by (simp add: drop_take)
  ultimately show "layout_ok xs (take (layout_size xs) b) \<and> layout_ok ys (take (layout_size ys) (drop (layout_size xs) b))"
    using h by simp
next
  assume "layout_ok xs (take (layout_size xs) b) \<and> layout_ok ys (take (layout_size ys) (drop (layout_size xs) b))"
  then show "layout_ok (xs @ ys) (take (layout_size xs + layout_size ys) b)"
    unfolding layout_ok_append take_add by blast
qed

lemma layout_size_simps [simp]: "layout_size [] = 0" "layout_size (x # xs) = item_size x + layout_size xs"
  by (simp_all add: layout_size_def)

lemma reads_append: "reads (xs @ ys) s s'' \<longleftrightarrow> (\<exists>s'. reads xs s s' \<and> reads ys s' s'')"
  by (auto simp: reads_def layout_take_append skip_skip)

lemma reads_Nil [simp]: "reads [] s s' \<longleftrightarrow> s' = s"
  by (auto simp: reads_def layout_size_def skip_def)

lemma readFull_ok:
  "readFull k s = Inr (b, s') \<longleftrightarrow>
     k \<le> length (sc_rest s) \<and> sc_n s + int k \<le> sc_expected s \<and> b = take k (sc_rest s) \<and> s' = skip k s"
  by (auto simp: readFull_def Let_def skip_def min_def)

lemma reads_one: "reads [i] s s' \<longleftrightarrow>
    item_ok i (take (item_size i) (sc_rest s)) \<and> sc_n s + int (item_size i) \<le> sc_expected s \<and> s' = skip (item_size i) s"
  by (auto simp: reads_def layout_size_def)

lemma pointG1_reads: "pointG1 s = Inr (u, s') \<longleftrightarrow> reads [G1] s s'"
  by (auto simp: pointG1_def scan_point_def readFull_ok reads_one g1CompressedSize_def split: if_splits)

lemma pointG2_reads: "pointG2 s = Inr (u, s') \<longleftrightarrow> reads [G2] s s'"
  by (auto simp: pointG2_def scan_point_def readFull_ok reads_one g2CompressedSize_def split: if_splits)

lemma scan_uint64_reads: "scan_uint64 s = Inr (v, s') \<longleftrightarrow> reads [Num 8 (unat v)] s s'"
  by (auto simp: scan_uint64_def readFull_ok reads_one unat_be_val word_unat_eq_iff)

lemma scan_uint32_reads: "scan_uint32 s = Inr (v, s') \<longleftrightarrow> reads [Num 4 (unat v)] s s'"
  by (auto simp: scan_uint32_def readFull_ok reads_one unat_be_val word_unat_eq_iff)

lemma scan_uint16_reads: "scan_uint16 s = Inr (v, s') \<longleftrightarrow> reads [Num 2 (unat v)] s s'"
  by (auto simp: scan_uint16_def readFull_ok reads_one unat_be_val word_unat_eq_iff)

lemma repeat_reads:
  assumes "\<And>s s'. f s = Inr ((), s') \<longleftrightarrow> reads xs s s'"
  shows "repeat_scan n f s = Inr (u, s') \<longleftrightarrow> reads (concat (replicate n xs)) s s'"
  by (induction n arbitrary: s u) (auto simp: reads_append assms)

lemma concat_replicate_one: "concat (replicate n [x]) = replicate n x"
  by (induction n) simp_all



lemma pointsG1_reads: "pointsG1 n s = Inr (u, s') \<longleftrightarrow> reads (replicate (unat n) G1) s s'"
  using repeat_reads [of pointG1 "[G1]" "unat n" s u s'] pointG1_reads
  by (simp add: pointsG1_def concat_replicate_one)

lemma pointsG2_reads: "pointsG2 n s = Inr (u, s') \<longleftrightarrow> reads (replicate (unat n) G2) s s'"
  using repeat_reads [of pointG2 "[G2]" "unat n" s u s'] pointG2_reads
  by (simp add: pointsG2_def concat_replicate_one)

lemma reads_Cons: "reads (x # xs) s s'' \<longleftrightarrow> (\<exists>s'. reads [x] s s' \<and> reads xs s' s'')"
  using reads_append [of "[x]" xs] by simp

lemma nat_uint: "unat x = nat (uint x)"
  by simp

lemma unat_ucast_u32 [simp]: "unat (ucast (n :: u32) :: u64) = unat n"
proof -
  have "uint (ucast n :: u64) = uint n" by (rule uint_ucast_up) simp
  then show ?thesis unfolding nat_uint by simp
qed

lemma vectorG1_reads: "vectorG1 name n s = Inr (u, s') \<longleftrightarrow> reads (vector_layout n) s s'"
  unfolding vectorG1_def vector_layout_def
  by (subst reads_Cons) (auto simp: scan_uint32_reads pointsG1_reads split: if_splits)

lemma vectorsG1_reads: "vectorsG1 ns s = Inr (u, s') \<longleftrightarrow> reads (concat (map vector_layout ns)) s s'"
  by (induction ns arbitrary: s u) (auto simp: reads_append vectorG1_reads)

lemma updateProof_reads: "updateProof name s = Inr (u, s') \<longleftrightarrow> reads proof_layout s s'"
  unfolding updateProof_def proof_layout_def
  by (subst reads_Cons) (auto simp: pointG1_reads pointG2_reads)

lemma phase1_proof_reads: "phase1_proof s = Inr (u, s') \<longleftrightarrow> reads proof_layout s s'"
  unfolding phase1_proof_def proof_layout_def
  by (subst reads_Cons) (auto simp: pointG1_reads pointG2_reads)

lemma challenge_reads:
  "scan_challenge c s = Inr (ch, s') \<longleftrightarrow>
     reads (challenge_layout c) s s' \<and> ch = take (unat c) (drop 1 (sc_rest s))"
proof -
  have v: "be_val [x] = unat x" for x by (simp add: be_val_def)
  have one: "take (Suc 0) b = [hd b]" if "Suc 0 \<le> length b" for b :: bytes
    using that by (cases b) auto
  show ?thesis
    unfolding scan_challenge_def challenge_layout_def
    by (subst reads_Cons) (auto simp: readFull_ok reads_one one v word_unat_eq_iff split: if_splits)
qed

lemma commons_words:
  assumes "domain_ok n"
  shows "unat (2 * n - 2) = 2 * unat n - 2" "unat (n - 1) = unat n - 1"
proof -
  have b: "2 \<le> uint n" "uint n \<le> 4294967296" using domain_ok_uint [OF assms] by auto
  have "uint (2 * n - 2) = 2 * uint n - 2" "uint (n - 1) = uint n - 1"
    using b uint_u64_mul [of 2 n] uint_u64_sub [of 2 "2 * n"] uint_u64_sub [of 1 n] by simp_all
  then show "unat (2 * n - 2) = 2 * unat n - 2" "unat (n - 1) = unat n - 1"
    using b unfolding nat_uint by linarith+
qed

lemma scanCommonsBody_reads:
  assumes "domain_ok n"
  shows "scanCommonsBody n s = Inr (u, s') \<longleftrightarrow> reads (tl (commons_layout n)) s s'"
proof -
  have l: "tl (commons_layout n) = [G2] @ replicate (2 * unat n - 2) G1 @ replicate (unat n - 1) G2 @
     replicate (unat n) G1 @ replicate (unat n) G1"
    by (simp add: commons_layout_def)
  show ?thesis
    unfolding l reads_append scanCommonsBody_def
    by (simp add: pointG2_reads pointsG1_reads pointsG2_reads commons_words [OF assms])
qed

lemma finish_ok:
  "finish H B ch s = Inr d \<longleftrightarrow>
     sc_n s = sc_expected s \<and> sc_rest s = [] \<and>
     d = \<lparr>ad_Size = sc_expected s, ad_SHA256 = H (sc_input s), ad_BLAKE2b256 = B (sc_input s), ad_Challenge = ch\<rparr>"
  by (auto simp: finish_def)

text \<open>A scan over a whole input: the layout is exhausted where the input is.\<close>

lemma reads_all:
  assumes "xs \<noteq> []"
  shows "reads xs (newPreflightScanner r e) s \<and> sc_n s = sc_expected s \<and> sc_rest s = [] \<longleftrightarrow>
     layout_ok xs r \<and> int (layout_size xs) = e \<and> s = skip (layout_size xs) (newPreflightScanner r e)"
  using assms layout_ok_length by (auto simp: reads_def newPreflightScanner_def)

section \<open>The sizes are those of the layouts\<close>

lemma layout_size_concat: "layout_size (concat xss) = (\<Sum>xs \<leftarrow> xss. layout_size xs)"
  by (induction xss) simp_all

lemma layout_size_replicate [simp]: "layout_size (replicate n i) = n * item_size i"
  by (induction n) simp_all

lemma layout_sizes [simp]:
  "layout_size proof_layout = 144" "layout_size (challenge_layout c) = 1 + unat c"
  "layout_size (vector_layout n) = 4 + 48 * unat n"
  by (simp_all add: proof_layout_def challenge_layout_def vector_layout_def)

lemma commons_layout_size:
  assumes "domain_ok n"
  shows "int (layout_size (commons_layout n)) = commons_size n"
proof -
  have "2 \<le> unat n" using domain_ok_bounds [OF assms] by simp
  then have "layout_size (commons_layout n) + 88 = 288 * unat n"
    by (simp add: commons_layout_def)
  then show ?thesis unfolding commons_size_def nat_uint by linarith
qed

lemma phase1_layout_size:
  assumes "domain_ok (p1s_DomainN sh)"
  shows "int (layout_size (phase1_layout sh)) = phase1_size (p1s_DomainN sh) (p1s_ChallengeLength sh)"
  using commons_layout_size [OF assms]
  by (simp add: phase1_layout_def phase1_size_def layout_size_concat sum_list_replicate)

lemma phase2_layout_size:
  assumes "length (slice_list (p2s_SigmaCKK sh)) = unat (p2s_Commitments sh)"
  shows "int (layout_size (phase2_layout sh)) = phase2_size sh"
proof -
  have v: "int (\<Sum>n \<leftarrow> ns. 4 + 48 * unat n) = 4 * int (length ns) + 48 * (\<Sum>n \<leftarrow> ns. uint n)" for ns :: "u32 list"
    by (induction ns) simp_all
  show ?thesis
    using v [of "slice_list (p2s_SigmaCKK sh)"] assms
    by (simp add: phase2_layout_def phase2_size_def layout_size_concat comp_def sum_list_replicate)
qed

section \<open>What a preflight accepts\<close>

lemma reads_input: "reads xs s s' \<Longrightarrow> sc_input s' = sc_input s \<and> sc_expected s' = sc_expected s"
  by (auto simp: reads_def)

lemma challenge_tail:
  assumes "reads xs (newPreflightScanner r e) s" and "length r = layout_size xs + 1 + c"
  shows "take c (drop 1 (sc_rest s)) = drop (length r - c) r"
  using assms by (auto simp: reads_def newPreflightScanner_def)

lemma whole_plain:
  assumes "xs \<noteq> []"
  shows "(\<exists>s. reads xs (newPreflightScanner r e) s \<and> finish H B ch s = Inr d) \<longleftrightarrow>
     layout_ok xs r \<and> int (layout_size xs) = e \<and>
     d = \<lparr>ad_Size = e, ad_SHA256 = H r, ad_BLAKE2b256 = B r, ad_Challenge = ch\<rparr>"
proof -
  let ?s = "skip (layout_size xs) (newPreflightScanner r e)"
  have "sc_input ?s = r" "sc_expected ?s = e" by (simp_all add: newPreflightScanner_def)
  then show ?thesis unfolding finish_ok using reads_all [OF assms, of r e] by metis
qed

lemma whole_scan:
  assumes "xs \<noteq> []"
  shows "(\<exists>s s'. reads xs (newPreflightScanner r e) s \<and> reads (challenge_layout c) s s' \<and>
        ch = take (unat c) (drop 1 (sc_rest s)) \<and> finish H B ch s' = Inr d) \<longleftrightarrow>
     layout_ok (xs @ challenge_layout c) r \<and> int (layout_size (xs @ challenge_layout c)) = e \<and>
     ch = drop (length r - unat c) r \<and>
     d = \<lparr>ad_Size = e, ad_SHA256 = H r, ad_BLAKE2b256 = B r, ad_Challenge = ch\<rparr>" (is "?l \<longleftrightarrow> ?r")
proof
  assume ?l
  then obtain s s' where h: "reads xs (newPreflightScanner r e) s" "reads (challenge_layout c) s s'"
      "ch = take (unat c) (drop 1 (sc_rest s))" "finish H B ch s' = Inr d" by blast
  then have "reads (xs @ challenge_layout c) (newPreflightScanner r e) s'" using reads_append by blast
  moreover have f: "sc_n s' = sc_expected s'" "sc_rest s' = []" using h(4) by (simp_all add: finish_ok)
  ultimately have l: "layout_ok (xs @ challenge_layout c) r" "int (layout_size (xs @ challenge_layout c)) = e"
    using reads_all [of "xs @ challenge_layout c" r e s'] assms by auto
  then have "ch = drop (length r - unat c) r"
    using challenge_tail [OF h(1)] h(3) layout_ok_length [OF l(1)] by simp
  moreover have "sc_input s' = r" "sc_expected s' = e"
    using reads_input [OF h(1)] reads_input [OF h(2)] by (simp_all add: newPreflightScanner_def)
  ultimately show ?r using l h(4) by (simp add: finish_ok)
next
  assume r: ?r
  let ?s' = "skip (layout_size (xs @ challenge_layout c)) (newPreflightScanner r e)"
  have all: "reads (xs @ challenge_layout c) (newPreflightScanner r e) ?s'" "sc_n ?s' = sc_expected ?s'" "sc_rest ?s' = []"
    using reads_all [of "xs @ challenge_layout c" r e ?s'] r assms by auto
  then obtain s where h: "reads xs (newPreflightScanner r e) s" "reads (challenge_layout c) s ?s'"
    using reads_append by blast
  have "length r = layout_size xs + 1 + unat c"
    using layout_ok_length [OF conjunct1 [OF r]] by simp
  then have "ch = take (unat c) (drop 1 (sc_rest s))" using challenge_tail [OF h(1)] r by simp
  moreover have "finish H B ch ?s' = Inr d"
    unfolding finish_ok using all r by (simp add: newPreflightScanner_def)
  ultimately show ?l using h by blast
qed

lemma PreflightPhase1_ok:
  "PreflightPhase1 H B r sh = Inr d \<longleftrightarrow>
     domain_ok (p1s_DomainN sh) \<and> phase1_size (p1s_DomainN sh) (p1s_ChallengeLength sh) \<le> MaxArtifactSize \<and>
     layout_ok (phase1_layout sh) r \<and>
     d = \<lparr>ad_Size = int (length r), ad_SHA256 = H r, ad_BLAKE2b256 = B r,
          ad_Challenge = drop (length r - unat (p1s_ChallengeLength sh)) r\<rparr>"
proof (cases "ExpectedPhase1Size sh")
  case (Inl e)
  then have "\<not> (domain_ok (p1s_DomainN sh) \<and> phase1_size (p1s_DomainN sh) (p1s_ChallengeLength sh) \<le> MaxArtifactSize)"
    using ExpectedPhase1Size_ok [of sh] by auto
  with Inl show ?thesis by (auto simp: PreflightPhase1_def)
next
  case (Inr e)
  then have e: "domain_ok (p1s_DomainN sh)" "e = phase1_size (p1s_DomainN sh) (p1s_ChallengeLength sh)" "e \<le> MaxArtifactSize"
    by (simp_all add: ExpectedPhase1Size_ok)
  let ?n = "p1s_DomainN sh" and ?c = "p1s_ChallengeLength sh"
  let ?xs = "concat (replicate 3 proof_layout) @ [Num 8 (unat ?n)] @ tl (commons_layout ?n)"
  have lay: "phase1_layout sh = ?xs @ challenge_layout ?c"
    by (simp add: phase1_layout_def commons_layout_def)
  have "PreflightPhase1 H B r sh = Inr d \<longleftrightarrow>
      (\<exists>ch s s'. reads ?xs (newPreflightScanner r e) s \<and> reads (challenge_layout ?c) s s' \<and>
        ch = take (unat ?c) (drop 1 (sc_rest s)) \<and> finish H B ch s' = Inr d)"
    unfolding PreflightPhase1_def reads_append
    by (auto simp: Inr repeat_reads [of phase1_proof proof_layout, OF phase1_proof_reads]
        scan_uint64_reads scanCommonsBody_reads [OF e(1)] challenge_reads split: if_splits)
  also have "\<dots> \<longleftrightarrow> (\<exists>ch. layout_ok (phase1_layout sh) r \<and> int (layout_size (phase1_layout sh)) = e \<and>
     ch = drop (length r - unat ?c) r \<and> d = \<lparr>ad_Size = e, ad_SHA256 = H r, ad_BLAKE2b256 = B r, ad_Challenge = ch\<rparr>)"
    unfolding lay using whole_scan [of ?xs r e ?c _ H B d] by simp
  finally show ?thesis
    using e phase1_layout_size [OF e(1)] layout_ok_length [of "phase1_layout sh" r] by auto
qed


lemma PreflightCommons_ok:
  "PreflightCommons H B r sh = Inr d \<longleftrightarrow>
     domain_ok (cs_DomainN sh) \<and> commons_size (cs_DomainN sh) \<le> MaxArtifactSize \<and>
     layout_ok (commons_layout (cs_DomainN sh)) r \<and>
     d = \<lparr>ad_Size = int (length r), ad_SHA256 = H r, ad_BLAKE2b256 = B r, ad_Challenge = []\<rparr>"
proof (cases "ExpectedCommonsSize sh")
  case (Inl e)
  then have "\<not> (domain_ok (cs_DomainN sh) \<and> commons_size (cs_DomainN sh) \<le> MaxArtifactSize)"
    using ExpectedCommonsSize_ok [of sh] by auto
  with Inl show ?thesis by (auto simp: PreflightCommons_def)
next
  case (Inr e)
  then have e: "domain_ok (cs_DomainN sh)" "e = commons_size (cs_DomainN sh)" "e \<le> MaxArtifactSize"
    by (simp_all add: ExpectedCommonsSize_ok)
  let ?n = "cs_DomainN sh"
  have lay: "commons_layout ?n = [Num 8 (unat ?n)] @ tl (commons_layout ?n)" "commons_layout ?n \<noteq> []"
    by (simp_all add: commons_layout_def)
  have "PreflightCommons H B r sh = Inr d \<longleftrightarrow>
      (\<exists>s'. reads (commons_layout ?n) (newPreflightScanner r e) s' \<and> finish H B [] s' = Inr d)"
    unfolding PreflightCommons_def by (subst lay(1), unfold reads_append)
      (auto simp: Inr scan_uint64_reads scanCommonsBody_reads [OF e(1)] split: if_splits)
  also have "\<dots> \<longleftrightarrow> layout_ok (commons_layout ?n) r \<and> int (layout_size (commons_layout ?n)) = e \<and>
     d = \<lparr>ad_Size = e, ad_SHA256 = H r, ad_BLAKE2b256 = B r, ad_Challenge = []\<rparr>"
    by (rule whole_plain [OF lay(2)])
  finally show ?thesis
    using e commons_layout_size [OF e(1)] layout_ok_length [of "commons_layout ?n" r] by auto
qed

lemma PreflightPhase2_ok:
  "PreflightPhase2 H B r sh = Inr d \<longleftrightarrow>
     p2s_Commitments sh \<le> MaxPhase2Commitments \<and>
     length (slice_list (p2s_SigmaCKK sh)) = unat (p2s_Commitments sh) \<and> phase2_size sh \<le> MaxArtifactSize \<and>
     layout_ok (phase2_layout sh) r \<and>
     d = \<lparr>ad_Size = int (length r), ad_SHA256 = H r, ad_BLAKE2b256 = B r,
          ad_Challenge = drop (length r - unat (p2s_ChallengeLength sh)) r\<rparr>"
proof (cases "ExpectedPhase2Size sh")
  case (Inl e)
  then have "\<not> (p2s_Commitments sh \<le> MaxPhase2Commitments \<and>
     length (slice_list (p2s_SigmaCKK sh)) = unat (p2s_Commitments sh) \<and> phase2_size sh \<le> MaxArtifactSize)"
    using ExpectedPhase2Size_ok [of sh] by auto
  with Inl show ?thesis by (auto simp: PreflightPhase2_def)
next
  case (Inr e)
  then have e: "p2s_Commitments sh \<le> MaxPhase2Commitments"
     "length (slice_list (p2s_SigmaCKK sh)) = unat (p2s_Commitments sh)" "e = phase2_size sh" "e \<le> MaxArtifactSize"
    by (simp_all add: ExpectedPhase2Size_ok)
  let ?c = "p2s_ChallengeLength sh" and ?k = "p2s_Commitments sh"
  let ?xs = "[Num 2 (unat ?k)] @ [G1] @ vector_layout (p2s_PKK sh) @ vector_layout (p2s_Z sh) @ [G2] @
     concat (map vector_layout (slice_list (p2s_SigmaCKK sh))) @ replicate (unat ?k) G2 @
     proof_layout @ concat (replicate (unat ?k) proof_layout)"
  have lay: "phase2_layout sh = ?xs @ challenge_layout ?c" by (simp add: phase2_layout_def)
  have w: "unat (ucast ?k :: u64) = unat ?k"
  proof -
    have "uint (ucast ?k :: u64) = uint ?k" by (rule uint_ucast_up) simp
    then show ?thesis unfolding nat_uint by simp
  qed
  have "PreflightPhase2 H B r sh = Inr d \<longleftrightarrow>
      (\<exists>ch s s'. reads ?xs (newPreflightScanner r e) s \<and> reads (challenge_layout ?c) s s' \<and>
        ch = take (unat ?c) (drop 1 (sc_rest s)) \<and> finish H B ch s' = Inr d)"
    unfolding PreflightPhase2_def reads_append
    by (simp add: Inr if_distrib [of "\<lambda>x. x = Inr d"] scan_uint16_reads pointG1_reads pointG2_reads
        vectorG1_reads vectorsG1_reads pointsG2_reads updateProof_reads w
        repeat_reads [of "updateProof ''Phase 2 Sigma proof''" proof_layout, OF updateProof_reads] challenge_reads)
      blast
  also have "\<dots> \<longleftrightarrow> (\<exists>ch. layout_ok (phase2_layout sh) r \<and> int (layout_size (phase2_layout sh)) = e \<and>
     ch = drop (length r - unat ?c) r \<and> d = \<lparr>ad_Size = e, ad_SHA256 = H r, ad_BLAKE2b256 = B r, ad_Challenge = ch\<rparr>)"
    unfolding lay using whole_scan [of ?xs r e ?c _ H B d] by simp
  finally show ?thesis
    using e phase2_layout_size [OF e(2)] layout_ok_length [of "phase2_layout sh" r] by auto
qed

end
