(* ===== verification/McSamples.thy ===== *)
theory McSamples
  imports McTranscript McPreflight
begin

text \<open>
  A small ceremony on which the properties are exercised. Its hash is the first 32 bytes
  of its input (padded), so that the identity of a record can be read off its domain tag;
  two identities, two participants, one accepted contribution, a close, a beacon and a seal.
\<close>

definition sample_H :: hash where
  "sample_H x = take 32 (x @ replicate 32 0)"

lemma sample_hash32: "hash32 sample_H"
  by (auto simp: hash32_def sample_H_def min_def)

definition sample_id :: "string \<Rightarrow> string" where
  "sample_id tag = ''sha256:'' @ hex_encode (take 32 (string_bytes tag @ [0]))"

lemma sample_canonicalHash:
  assumes "31 \<le> length tag"
  shows "canonicalHash sample_H tag v = sample_id tag"
proof -
  have "take 32 (string_bytes tag @ [0] @ x) = take 32 (string_bytes tag @ [0])" for x
    using assms by (cases "length tag = 31") auto
  then show ?thesis
    using assms by (simp add: canonicalHash_def sample_H_def preimage_def sample_id_def)
qed

definition sample_hex :: "nat \<Rightarrow> string \<Rightarrow> string" where
  "sample_hex n digit = concat (replicate n digit)"

definition sample_digest :: "string \<Rightarrow> Digest" where
  "sample_digest d =
     \<lparr>dg_SHA256 = ''sha256:'' @ sample_hex 32 d, dg_Blake2b256 = ''blake2b256:'' @ sample_hex 32 d, dg_Size = 1\<rparr>"

definition sample_artifact :: "string \<Rightarrow> string \<Rightarrow> ArtifactRef" where
  "sample_artifact name d = \<lparr>ar_Name = name, ar_Digest = sample_digest d\<rparr>"

definition sample_identity :: "string \<Rightarrow> u8 \<Rightarrow> Identity" where
  "sample_identity name b = fst (NewIdentity sample_H name name (name @ ''-key'') (replicate 32 b))"

definition sample_circuit :: CircuitBinding where
  "sample_circuit =
     \<lparr>cb_KeyVersion = KeyVersionDestinationV3, cb_CircuitID = CircuitIDDestinationV3, cb_Curve = CurveBLS12381,
      cb_Backend = BackendGroth16, cb_R1CS = sample_artifact ''r1cs.bin'' ''11'', cb_Constraints = 3,
      cb_InternalVariables = 1, cb_SecretVariables = 1, cb_PublicVariables = 1, cb_DomainSize = 4,
      cb_Phase2Shape = \<lparr>p2s_Commitments = 0, p2s_PKK = 1, p2s_Z = 1, p2s_SigmaCKK = None, p2s_ChallengeLength = 0\<rparr>\<rparr>"

definition sample_software :: SoftwareBinding where
  "sample_software =
     \<lparr>sb_ProofToolVersion = ''1'', sb_GnarkVersion = GnarkVersion, sb_GnarkCryptoVersion = GnarkCryptoVersion,
      sb_DrandVersion = DrandVersion, sb_GoVersion = ProductionGoVersion, sb_GoOS = ProductionGOOS,
      sb_GoArch = ProductionGOARCH, sb_GoAMD64 = ProductionGOAMD64, sb_Compiler = ProductionCompiler,
      sb_BuildMode = ProductionBuildMode, sb_CGOEnabled = False, sb_TrimPath = True,
      sb_SourceCommit = sample_hex 20 ''22'', sb_SourceDirty = False, sb_ToolBinary = sample_digest ''33''\<rparr>"

definition sample_beacon_policy :: BeaconPolicy where
  "sample_beacon_policy =
     \<lparr>bp_Provider = BeaconProviderDrand, bp_Network = BeaconNetworkQuicknet, bp_ChainHashHex = BeaconQuicknetChainHash,
      bp_PublicKeyHex = BeaconQuicknetPublicKey, bp_Scheme = BeaconQuicknetScheme,
      bp_GenesisTimeUnix = BeaconQuicknetGenesis, bp_PeriodSeconds = BeaconQuicknetPeriod,
      bp_Extraction = BeaconExtractionV1, bp_MinimumChallengeBytes = 32,
      bp_MinimumWitnessLeadSeconds = ProductionMinimumWitnessLeadSeconds, bp_FutureRoundRequired = True\<rparr>"

definition sample_definition :: "string \<Rightarrow> CeremonyDefinition" where
  "sample_definition mode =
     (let policy = \<lparr>pp_Participants = [''alice'', ''bob''], pp_Minimum = if mode = ModeProduction then 2 else 1\<rparr> in
     \<lparr>cd_Schema = DefinitionSchema, cd_CeremonyID = sample_id definition_tag, cd_Mode = mode,
      cd_CreatedAt = ''2026-01-01T00:00:00Z'', cd_SessionNonceHex = sample_hex 32 ''44'',
      cd_Circuit = sample_circuit, cd_Software = sample_software,
      cd_Coordinator = sample_identity ''coord'' 1, cd_ReleaseSigner = sample_identity ''release'' 2,
      cd_Auditors = [sample_identity ''audit1'' 3, sample_identity ''audit2'' 4],
      cd_Roster = [\<lparr>pt_Identity = sample_identity ''alice'' 5\<rparr>, \<lparr>pt_Identity = sample_identity ''bob'' 6\<rparr>],
      cd_Phase1Policy = policy, cd_Phase2Policy = policy, cd_BeaconPolicy = sample_beacon_policy,
      cd_Phase1Genesis = sample_artifact ''genesis.bin'' ''55''\<rparr>)"

definition sample_chain :: "ChainRecord list \<Rightarrow> Chain" where
  "sample_chain rs =
     \<lparr>ch_Schema = ChainSchema, ch_CeremonyID = sample_id definition_tag, ch_Phase = Phase1,
      ch_PhaseID = sample_id phase_tag, ch_Genesis = sample_artifact ''genesis.bin'' ''55'', ch_Records = rs\<rparr>"

definition sample_contribution :: ContributionAttestation where
  "sample_contribution =
     \<lparr>ca_Schema = ContributionAttestationSchema, ca_AttestationID = sample_id contribution_tag,
      ca_CeremonyID = sample_id definition_tag, ca_Phase = Phase1, ca_PhaseID = sample_id phase_tag, ca_Index = 1,
      ca_ParticipantID = ''alice'', ca_ParticipantKeyID = ''alice-key'',
      ca_PreviousPayload = sample_artifact ''genesis.bin'' ''55'', ca_OutputPayload = sample_artifact ''out1.bin'' ''66'',
      ca_PreviousAcceptanceID = sample_id genesis_tag, ca_ToolBinary = sample_digest ''33'',
      ca_SourceCommit = sample_hex 20 ''22'', ca_GnarkVersion = GnarkVersion,
      ca_GnarkCryptoVersion = GnarkCryptoVersion, ca_DrandVersion = DrandVersion,
      ca_Environment = \<lparr>ce_OS = ''linux'', ce_Architecture = ''amd64'', ce_EntropySource = ''operating-system-csprng'',
        ce_SwapDisabled = True, ce_CrashDumpsDisabled = True, ce_TelemetryDisabled = True,
        ce_EphemeralEnvironment = True, ce_EphemeralDestructionRequired = True\<rparr>,
      ca_ContributedAt = ''2026-01-01T01:00:00Z''\<rparr>"

definition sample_erasure :: ErasureAttestation where
  "sample_erasure =
     \<lparr>ea_Schema = ErasureAttestationSchema, ea_ErasureID = sample_id erasure_tag,
      ea_CeremonyID = sample_id definition_tag, ea_Phase = Phase1, ea_PhaseID = sample_id phase_tag, ea_Index = 1,
      ea_ParticipantID = ''alice'', ea_ParticipantKeyID = ''alice-key'',
      ea_ContributionAttestationID = sample_id contribution_tag,
      ea_OutputPayload = sample_artifact ''out1.bin'' ''66'', ea_DestroyedAt = ''2026-01-01T02:00:00Z'',
      ea_ProcessTerminated = True, ea_EphemeralStorageDestroyed = True, ea_NoBackupRetained = True\<rparr>"

definition sample_record :: ChainRecord where
  "sample_record =
     \<lparr>cr_Schema = ChainRecordSchema, cr_RecordID = sample_id chain_record_tag,
      cr_CeremonyID = sample_id definition_tag, cr_Phase = Phase1, cr_PhaseID = sample_id phase_tag, cr_Index = 1,
      cr_ParticipantID = ''alice'', cr_PreviousPayload = sample_artifact ''genesis.bin'' ''55'',
      cr_OutputPayload = sample_artifact ''out1.bin'' ''66'', cr_AttestationID = sample_id contribution_tag,
      cr_Attestation = sample_artifact ''a.json'' ''71'', cr_AttestationSignature = sample_artifact ''a.sig'' ''72'',
      cr_ErasureID = sample_id erasure_tag, cr_Erasure = sample_artifact ''e.json'' ''73'',
      cr_ErasureSignature = sample_artifact ''e.sig'' ''74'', cr_Verification = sample_artifact ''v.json'' ''75'',
      cr_PreviousRecordID = sample_id genesis_tag, cr_CoordinatorID = ''coord'', cr_CoordinatorKeyID = ''coord-key'',
      cr_AcceptedAt = ''2026-01-01T03:00:00Z''\<rparr>"

text \<open>Round 24875212 of quicknet is due on 3 January 2026 at 08:30:00 UTC, well after a day from the close.\<close>

definition sample_close :: CloseRecord where
  "sample_close =
     \<lparr>cl_Schema = CloseRecordSchema, cl_CloseID = sample_id close_tag, cl_CeremonyID = sample_id definition_tag,
      cl_Phase = Phase1, cl_PhaseID = sample_id phase_tag, cl_FinalIndex = 1,
      cl_FinalPayload = sample_artifact ''out1.bin'' ''66'', cl_ChainHeadID = sample_id chain_record_tag,
      cl_AcceptedParticipants = [''alice''], cl_BeaconProvider = BeaconProviderDrand,
      cl_BeaconNetwork = BeaconNetworkQuicknet, cl_BeaconRound = 24875212, cl_BeaconNotBefore = ''2026-01-03T08:30:00Z'',
      cl_ClosedAt = ''2026-01-01T04:00:00Z'', cl_CoordinatorID = ''coord'', cl_CoordinatorKeyID = ''coord-key''\<rparr>"

section \<open>The parts are valid\<close>

lemma sample_hex_ok:
  assumes "length d = 2" and "list_all lower_hex_char d"
  shows "hex_of_len n (sample_hex n d)"
  using assms by (induction n) (simp_all add: hex_of_len_def sample_hex_def)

lemma hex_pairs [simp]:
  "lower_hex_char (CHR ''1'')" "lower_hex_char (CHR ''2'')" "lower_hex_char (CHR ''3'')" "lower_hex_char (CHR ''4'')"
  "lower_hex_char (CHR ''5'')" "lower_hex_char (CHR ''6'')" "lower_hex_char (CHR ''7'')" "lower_hex_char (CHR ''8'')"
  by (simp_all add: lower_hex_char_def in_range_def code_def)

lemma sample_digest_ok:
  assumes "length d = 2" and "list_all lower_hex_char d"
  shows "Digest_Validate (sample_digest d) = Inr ()"
  using sample_hex_ok [OF assms, of 32]
  unfolding Digest_Validate_def sample_digest_def tagged_hex_def by (auto simp: tagged_hex_def)

lemma sample_artifact_ok:
  assumes "length d = 2" and "list_all lower_hex_char d" and "validateArtifactName n = Inr ()"
  shows "ArtifactRef_Validate (sample_artifact n d) = Inr ()"
  using assms sample_digest_ok by (simp add: ArtifactRef_Validate_def sample_artifact_def)

lemma sample_names [simp]:
  "validateArtifactName ''r1cs.bin'' = Inr ()" "validateArtifactName ''genesis.bin'' = Inr ()"
  "validateArtifactName ''out1.bin'' = Inr ()" "validateArtifactName ''a.json'' = Inr ()"
  "validateArtifactName ''a.sig'' = Inr ()" "validateArtifactName ''e.json'' = Inr ()"
  "validateArtifactName ''e.sig'' = Inr ()" "validateArtifactName ''v.json'' = Inr ()"
  "validateArtifactName ''raw.json'' = Inr ()" "validateArtifactName ''commons.bin'' = Inr ()"
  by code_simp+

lemma sample_timestamps [simp]:
  "timestamp_ok ''2026-01-01T00:00:00Z''" "timestamp_ok ''2026-01-01T01:00:00Z''"
  "timestamp_ok ''2026-01-01T02:00:00Z''" "timestamp_ok ''2026-01-01T03:00:00Z''"
  "timestamp_ok ''2026-01-01T04:00:00Z''" "timestamp_ok ''2026-01-03T08:30:00Z''"
  "timestamp_ok ''2026-01-03T08:31:00Z''" "timestamp_ok ''2026-01-03T09:00:00Z''"
  by code_simp+

lemma sample_instants [simp]:
  "go_time ''2026-01-01T00:00:00Z'' = 63902822400 * 1000000000"
  "go_time ''2026-01-01T01:00:00Z'' = 63902826000 * 1000000000"
  "go_time ''2026-01-01T02:00:00Z'' = 63902829600 * 1000000000"
  "go_time ''2026-01-01T03:00:00Z'' = 63902833200 * 1000000000"
  "go_time ''2026-01-01T04:00:00Z'' = 63902836800 * 1000000000"
  "go_time ''2026-01-03T08:30:00Z'' = 63903025800 * 1000000000"
  "go_time ''2026-01-03T08:31:00Z'' = 63903025860 * 1000000000"
  "go_time ''2026-01-03T09:00:00Z'' = 63903027600 * 1000000000"
  by code_simp+

lemma sample_id_ok: "31 \<le> length tag \<Longrightarrow> tagged_hex ''sha256:'' 32 (sample_id tag)"
  using canonicalHash_tagged [OF sample_hash32] sample_canonicalHash by metis

lemma sample_tags [simp]:
  "31 \<le> length definition_tag" "31 \<le> length phase_tag" "31 \<le> length genesis_tag" "31 \<le> length erasure_tag"
  "31 \<le> length contribution_tag" "31 \<le> length chain_record_tag" "31 \<le> length close_tag"
  "31 \<le> length beacon_tag" "31 \<le> length seal_tag" "31 \<le> length challenge_tag"
  by (simp_all add: definition_tag_def phase_tag_def genesis_tag_def erasure_tag_def contribution_tag_def
      chain_record_tag_def close_tag_def beacon_tag_def seal_tag_def challenge_tag_def)

lemma sample_identity_fields [simp]:
  "id_ID (sample_identity n b) = n" "id_KeyID (sample_identity n b) = n @ ''-key''"
  "id_PublicKeyFingerprint (sample_identity n b) = ''sha256:'' @ hex_encode (replicate 32 b)"
  by (simp_all add: sample_identity_def NewIdentity_def Let_def taggedSHA256_def sample_H_def)

lemma sample_identity_ok:
  assumes "list_all id_char n" and "n \<noteq> []" and "length n \<le> 124" and "trim_space n = n"
  shows "Identity_Validate sample_H (sample_identity n b) = Inr ()"
proof -
  have "hex_of_len 32 (hex_encode (replicate 32 b))" using hex_encode_of_len [of "replicate 32 b"] by simp
  moreover have "list_all id_char (n @ ''-key'')" using assms(1) by (simp add: id_char_def in_range_def code_def)
  moreover have "valid_utf8 n" using assms(1) by (rule utf8_id)
  ultimately show ?thesis
    using assms by (simp add: Identity_Validate_def sample_identity_def NewIdentity_def Let_def)
qed

lemma sample_id_names:
  "n \<in> set [''coord'', ''release'', ''audit1'', ''audit2'', ''alice'', ''bob''] \<Longrightarrow>
     list_all id_char n \<and> n \<noteq> [] \<and> length n \<le> 124 \<and> trim_space n = n"
proof -
  have "list_all (\<lambda>n. list_all id_char n \<and> n \<noteq> [] \<and> length n \<le> 124 \<and> trim_space n = n)
      [''coord'', ''release'', ''audit1'', ''audit2'', ''alice'', ''bob'']" by code_simp
  then show "n \<in> set [''coord'', ''release'', ''audit1'', ''audit2'', ''alice'', ''bob''] \<Longrightarrow> ?thesis"
    unfolding list_all_iff by blast
qed

lemma sample_identities_ok:
  "n \<in> set [''coord'', ''release'', ''audit1'', ''audit2'', ''alice'', ''bob''] \<Longrightarrow>
     Identity_Validate sample_H (sample_identity n b) = Inr ()"
  using sample_identity_ok sample_id_names by blast

lemma sample_circuit_ok: "CircuitBinding_Validate sample_circuit = Inr ()"
proof -
  have "Phase2Shape_Validate (cb_Phase2Shape sample_circuit) = Inr ()"
    "isPowerOfTwo (cb_DomainSize sample_circuit) \<and> \<not> cb_DomainSize sample_circuit < cb_Constraints sample_circuit"
    "p2s_ChallengeLength (cb_Phase2Shape sample_circuit) = 0"
    unfolding sample_circuit_def CircuitBinding.select_convs by code_simp+
  then show ?thesis
    by (simp add: CircuitBinding_Validate_def) (simp add: sample_circuit_def sample_artifact_ok)
qed

lemma sample_software_ok: "SoftwareBinding_Validate sample_software = Inr ()"
proof -
  have "\<not> blank ''1''" "\<not> blank ProductionGoVersion" "\<not> blank ProductionGOOS" "\<not> blank ProductionGOARCH"
    "\<not> blank ProductionGOAMD64" "\<not> blank ProductionCompiler" "\<not> blank ProductionBuildMode"
    by code_simp+
  then show ?thesis
    by (simp add: SoftwareBinding_Validate_def sample_software_def sample_hex_ok sample_digest_ok)
qed

lemma sample_beacon_policy_ok: "BeaconPolicy_Validate sample_beacon_policy = Inr ()"
  using hex_quicknet
  by (simp add: BeaconPolicy_Validate_def sample_beacon_policy_def ProductionMinimumWitnessLeadSeconds_def)

definition sample_challenge :: bytes where
  "sample_challenge = take 32 (string_bytes challenge_tag)"

definition sample_beacon :: BeaconRecord where
  "sample_beacon =
     \<lparr>br_Schema = BeaconRecordSchema, br_BeaconID = sample_id beacon_tag, br_CeremonyID = sample_id definition_tag,
      br_Phase = Phase1, br_PhaseID = sample_id phase_tag, br_CloseID = sample_id close_tag,
      br_Provider = BeaconProviderDrand, br_Network = BeaconNetworkQuicknet, br_Round = 24875212,
      br_PublishedAt = ''2026-01-03T08:31:00Z'', br_RawResponse = sample_artifact ''raw.json'' ''81'',
      br_RandomnessHex = hex_encode (replicate 32 0x77), br_ChallengeHex = hex_encode sample_challenge,
      br_ChallengeSHA256 = taggedSHA256 sample_H sample_challenge\<rparr>"

definition sample_seal :: SealRecord where
  "sample_seal =
     \<lparr>sr_Schema = SealRecordSchema, sr_SealID = sample_id seal_tag, sr_CeremonyID = sample_id definition_tag,
      sr_Phase = Phase1, sr_PhaseID = sample_id phase_tag, sr_CloseID = sample_id close_tag,
      sr_BeaconID = sample_id beacon_tag, sr_FinalPayload = sample_artifact ''out1.bin'' ''66'',
      sr_Outputs = [sample_artifact ''commons.bin'' ''82''], sr_SealedAt = ''2026-01-03T09:00:00Z''\<rparr>"

section \<open>The records are valid\<close>

lemma sample_identities_all:
  "all_identities (sample_definition m) =
     [sample_identity ''coord'' 1, sample_identity ''release'' 2, sample_identity ''audit1'' 3, sample_identity ''audit2'' 4,
      sample_identity ''alice'' 5, sample_identity ''bob'' 6]"
  by (simp add: all_identities_def sample_definition_def Let_def)

lemma sample_identity_checks: "identity_checks sample_H (sample_definition m) = Inr ()"
  unfolding identity_checks_ok sample_identities_all
  by (simp add: sample_identities_ok) (simp add: sample_definition_def Let_def MaxParticipants_def)

lemma sample_definition_checks:
  assumes "m = ModeProduction \<or> m = ModeRehearsal"
  shows "definition_checks sample_H (sample_definition m) = Inr ()"
  unfolding definition_checks_ok
proof (intro conjI)
  show "mode_checks (sample_definition m) = Inr ()"
    using assms by (auto simp: mode_checks_def sample_definition_def sample_software_def
        validateProductionBuildProfile_def Let_def)
  show "production_checks (sample_definition m) = Inr ()"
    by (simp add: production_checks_def sample_definition_def sample_beacon_policy_def Let_def)
  show "identity_checks sample_H (sample_definition m) = Inr ()" by (rule sample_identity_checks)
qed (simp_all add: sample_definition_def Let_def sample_hex_ok sample_circuit_ok sample_software_ok
    sample_beacon_policy_ok sample_artifact_ok PhasePolicy_Validate_ok roster_ids_def MaxParticipants_def)

lemma sample_definition_valid:
  assumes "m = ModeProduction \<or> m = ModeRehearsal"
  shows "CeremonyDefinition_Validate sample_H (sample_definition m) = Inr ()"
  using sample_definition_checks [OF assms]
  by (simp add: CeremonyDefinition_Validate_ok [OF sample_hash32] sample_canonicalHash)
    (simp add: sample_definition_def Let_def)

lemma sample_record_valid: "ChainRecord_Validate sample_H sample_record = Inr ()"
proof -
  have "dg_SHA256 (sample_digest ''55'') \<noteq> dg_SHA256 (sample_digest ''66'')"
    by (simp add: sample_digest_def sample_hex_def numeral_eq_Suc)
  then show ?thesis
    unfolding chain_record_Validate_ok [OF sample_hash32] chain_record_validate_def
    by (simp add: sample_canonicalHash sample_record_def sample_artifact_ok sample_id_ok index_check_def MaxParticipants_def
        id_char_def in_range_def code_def) (simp add: sample_artifact_def)
qed

lemma sample_chain_valid:
  "Chain_Validate sample_H (sample_chain []) = Inr ()"
  "Chain_Validate sample_H (sample_chain [sample_record]) = Inr ()"
  "fits_head sample_H (sample_chain []) sample_record"
proof -
  have a: "chain_anchor sample_H (sample_chain rs) = sample_id genesis_tag" for rs
    by (simp add: chain_anchor_def sample_canonicalHash)
  show f: "fits_head sample_H (sample_chain []) sample_record"
    using sample_record_valid a
    by (simp add: fits_head_def sample_chain_def sample_record_def head_payload_def head_record_def MaxParticipants_def)
  show v: "Chain_Validate sample_H (sample_chain []) = Inr ()"
    by (simp add: Chain_Validate_ok chain_header_ok_def sample_chain_def sample_id_ok sample_artifact_ok)
  have "sample_chain [sample_record] = (sample_chain [])\<lparr>ch_Records := ch_Records (sample_chain []) @ [sample_record]\<rparr>"
    by (simp add: sample_chain_def)
  then show "Chain_Validate sample_H (sample_chain [sample_record]) = Inr ()"
    using f v Chain_Validate_append by metis
qed

lemma sample_against:
  assumes "m = ModeProduction \<or> m = ModeRehearsal" and "rs = [] \<or> rs = [sample_record]"
  shows "ValidateAgainstDefinition sample_H (sample_chain rs) (sample_definition m) = Inr ()"
proof -
  have "Chain_Validate sample_H (sample_chain rs) = Inr ()" using assms(2) sample_chain_valid by auto
  then show ?thesis
    unfolding ValidateAgainstDefinition_ok
    using sample_definition_valid [OF assms(1)] assms(2)
    by (auto simp: sample_chain_def sample_definition_def Let_def ComputePhaseID_ok sample_canonicalHash sample_id_ok
        sample_artifact_ok schedule_def coordinator_of_def sample_record_def)
qed

lemma sample_contribution_valid: "ContributionAttestation_Validate sample_H sample_contribution = Inr ()"
proof -
  have "dg_SHA256 (sample_digest ''55'') \<noteq> dg_SHA256 (sample_digest ''66'')"
    by (simp add: sample_digest_def sample_hex_def numeral_eq_Suc)
  then show ?thesis
    unfolding ContributionAttestation_Validate_def contribution.validate_iff [OF sample_hash32] contribution_validate_def
    by (simp add: sample_canonicalHash sample_contribution_def sample_artifact_ok sample_digest_ok sample_id_ok
        index_check_def MaxParticipants_def id_char_def in_range_def code_def sample_hex_ok ContributionEnvironment_Validate_def)
       (simp add: sample_artifact_def)
qed

lemma sample_erasure_valid: "ValidateErasureForContribution sample_H sample_contribution sample_erasure = Inr ()"
proof -
  have "ErasureAttestation_Validate sample_H sample_erasure = Inr ()"
    unfolding ErasureAttestation_Validate_def erasure.validate_iff [OF sample_hash32] erasure_validate_def
    by (simp add: sample_canonicalHash sample_erasure_def sample_artifact_ok sample_id_ok
        index_check_def MaxParticipants_def id_char_def in_range_def code_def)
  then show ?thesis
    using sample_contribution_valid
    by (simp add: ValidateErasure_ok) (simp add: sample_erasure_def sample_contribution_def)
qed

lemma sample_acceptance:
  assumes "m = ModeProduction \<or> m = ModeRehearsal"
  shows "ValidateAttestationAcceptance sample_H (sample_definition m) (sample_chain []) sample_contribution sample_erasure
      sample_record = Inr ()"
proof -
  have a: "chain_anchor sample_H (sample_chain rs) = sample_id genesis_tag" for rs
    by (simp add: chain_anchor_def sample_canonicalHash)
  have h: "Chain_HeadPayload sample_H (sample_chain []) = Inr (sample_artifact ''genesis.bin'' ''55'')"
    "Chain_HeadRecordID sample_H (sample_chain []) = Inr (sample_id genesis_tag)"
    using sample_chain_valid(1) a by (simp_all add: Chain_heads_ok head_payload_def head_record_def) (simp_all add: sample_chain_def)
  have p: "ParticipantByID (sample_definition m) ''alice'' = Some \<lparr>pt_Identity = sample_identity ''alice'' 5\<rparr>"
    by (simp add: ParticipantByID_def sample_definition_def Let_def)
  have v: "all_ok [CeremonyDefinition_Validate sample_H (sample_definition m),
       ValidateAgainstDefinition sample_H (sample_chain []) (sample_definition m),
       ContributionAttestation_Validate sample_H sample_contribution,
       ValidateErasureForContribution sample_H sample_contribution sample_erasure,
       ChainRecord_Validate sample_H sample_record] = Inr ()"
    using sample_definition_valid [OF assms] sample_against [OF assms] sample_contribution_valid sample_erasure_valid
      sample_record_valid by simp
  have f: "ca_ParticipantID sample_contribution = ''alice''" by (simp add: sample_contribution_def)
  show ?thesis
    unfolding ValidateAttestationAcceptance_def v h bind_r.simps f p Let_def
    by (simp add: sample_record_def sample_contribution_def sample_erasure_def sample_chain_def)
      (simp add: sample_definition_def sample_software_def Let_def)
qed

lemma sample_round: "QuicknetRoundTime 24875212 = Inr (63903025800 * 1000000000)"
proof -
  have "wrap64 (1767429000 + unix_epoch) = 1767429000 + unix_epoch"
    by (rule wrap64_id) (simp_all add: unix_epoch_def)
  then show ?thesis
    unfolding QuicknetRoundTime_ok by (simp add: BeaconQuicknetGenesis_def go_unix_def unix_epoch_def)
qed

lemma drand_names: "list_all id_char BeaconProviderDrand" "list_all id_char BeaconNetworkQuicknet"
    "BeaconProviderDrand \<noteq> []" "BeaconNetworkQuicknet \<noteq> []" "length BeaconProviderDrand \<le> 128"
    "length BeaconNetworkQuicknet \<le> 128"
  by (simp_all add: BeaconProviderDrand_def BeaconNetworkQuicknet_def id_char_def in_range_def code_def)

lemma sample_close_valid: "CloseRecord_Validate sample_H sample_close = Inr ()"
  unfolding CloseRecord_Validate_def close.validate_iff [OF sample_hash32] close_validate_def
  by (simp add: sample_canonicalHash sample_close_def sample_artifact_ok sample_id_ok MaxParticipants_def drand_names
      sample_round id_char_def in_range_def code_def)

lemma sample_ValidateClose:
  "ValidateClose sample_H (sample_definition ModeRehearsal) (sample_chain [sample_record]) sample_close = Inr ()"
  unfolding ValidateClose_ok
  using sample_against [of ModeRehearsal "[sample_record]"] sample_close_valid
  by (simp add: head_record_def head_payload_def minimum_lead_def)
    (simp add: sample_close_def sample_chain_def sample_record_def sample_definition_def Let_def sample_beacon_policy_def
      ProductionMinimumWitnessLeadSeconds_def)

lemma sample_challenge_hash: "sample_H (challenge_preimage c p n r x) = sample_challenge"
proof -
  have "32 \<le> length challenge_tag" by (simp add: challenge_tag_def)
  then show ?thesis by (simp add: sample_H_def challenge_preimage_def sample_challenge_def)
qed

lemma sample_beacon_valid: "BeaconRecord_Validate sample_H sample_beacon = Inr ()"
proof -
  have r: "decodeBeaconRandomness (hex_encode (replicate 32 0x77)) = Inr (replicate 32 0x77)"
    unfolding decodeBeaconRandomness_ok using hex_encode_of_len [of "replicate 32 0x77"] by simp
  have "DeriveBeaconChallenge sample_H (sample_id close_tag) BeaconProviderDrand BeaconNetworkQuicknet 24875212
      (replicate 32 0x77) = Inr sample_challenge"
    by (simp add: DeriveBeaconChallenge_ok sample_id_ok sample_challenge_hash)
  with r show ?thesis
    unfolding BeaconRecord_Validate_def beacon.validate_iff [OF sample_hash32] beacon_validate_def
    by (simp add: sample_canonicalHash sample_beacon_def sample_artifact_ok sample_id_ok drand_names)
qed

text \<open>A second valid record of the same round: other randomness, and a collision of \<^verbatim>\<open>sample_H\<close>.\<close>

definition sample_beacon2 :: BeaconRecord where
  "sample_beacon2 = sample_beacon\<lparr>br_RandomnessHex := hex_encode (replicate 32 0x78)\<rparr>"

lemma sample_beacon2_valid: "BeaconRecord_Validate sample_H sample_beacon2 = Inr ()"
proof -
  have r: "decodeBeaconRandomness (hex_encode (replicate 32 0x78)) = Inr (replicate 32 0x78)"
    unfolding decodeBeaconRandomness_ok using hex_encode_of_len [of "replicate 32 0x78"] by simp
  have "DeriveBeaconChallenge sample_H (sample_id close_tag) BeaconProviderDrand BeaconNetworkQuicknet 24875212
      (replicate 32 0x78) = Inr sample_challenge"
    by (simp add: DeriveBeaconChallenge_ok sample_id_ok sample_challenge_hash)
  with r show ?thesis
    unfolding BeaconRecord_Validate_def beacon.validate_iff [OF sample_hash32] beacon_validate_def
    by (simp add: sample_canonicalHash sample_beacon_def sample_beacon2_def sample_artifact_ok sample_id_ok drand_names)
qed

lemma sample_ValidateBeacon:
  assumes "m = ModeProduction \<or> m = ModeRehearsal"
  shows "ValidateBeacon sample_H (sample_definition m) sample_close sample_beacon = Inr ()"
proof -
  have r: "decodeBeaconRandomness (hex_encode (replicate 32 0x77)) = Inr (replicate 32 0x77)"
    unfolding decodeBeaconRandomness_ok using hex_encode_of_len [of "replicate 32 0x77"] by simp
  have c: "DeriveBeaconChallenge sample_H (sample_id close_tag) BeaconProviderDrand BeaconNetworkQuicknet 24875212
      (replicate 32 0x77) = Inr sample_challenge"
    by (simp add: DeriveBeaconChallenge_ok sample_id_ok sample_challenge_hash)
  have l: "length sample_challenge = 32" by (simp add: sample_challenge_def challenge_tag_def)
  have b: "br_RandomnessHex sample_beacon = hex_encode (replicate 32 0x77)" "cl_CloseID sample_close = sample_id close_tag"
    "cl_BeaconProvider sample_close = BeaconProviderDrand" "cl_BeaconNetwork sample_close = BeaconNetworkQuicknet"
    "cl_BeaconRound sample_close = 24875212"
    by (simp_all add: sample_beacon_def sample_close_def)
  show ?thesis
    unfolding ValidateBeacon_def b r c bind_r.simps sample_round
    using sample_definition_valid [OF assms] sample_close_valid sample_beacon_valid l
    by simp (simp add: sample_beacon_def sample_close_def sample_definition_def sample_beacon_policy_def Let_def)
qed

lemma sample_ValidateSeal: "ValidateSeal sample_H sample_close sample_beacon sample_seal = Inr ()"
proof -
  have "SealRecord_Validate sample_H sample_seal = Inr ()"
    unfolding SealRecord_Validate_def seal.validate_iff [OF sample_hash32] seal_validate_def
    by (simp add: sample_canonicalHash sample_seal_def sample_artifact_ok sample_id_ok)
  then show ?thesis
    unfolding ValidateSeal_ok using sample_close_valid sample_beacon_valid
    by simp (simp add: sample_seal_def sample_close_def sample_beacon_def)
qed

end
