(* ===== verification/McProperties.thy ===== *)
theory McProperties
  imports McSamples
begin

text \<open>
  The properties of the ceremony records. Each theorem states one promise of the code; a
  theorem with hypotheses is followed by its witness on the sample ceremony.
\<close>

section \<open>The accepted chain\<close>

text \<open>
  C1: \<^verbatim>\<open>Chain.Validate\<close> accepts exactly the chains of the declarative specification:
  a well-formed header, at most 20 records, every record valid by itself and in the chain's
  own ceremony and phase, numbered consecutively, each consuming the payload and the record
  id its predecessor (or the genesis) left, no participant twice, acceptance times strictly
  increasing.
\<close>

theorem chain_validate_exact: "Chain_Validate H c = Inr () \<longleftrightarrow> chain_spec H c"
  by (rule chain_spec_iff)

text \<open>
  C2: The valid chains are exactly the histories of \<^verbatim>\<open>NewChain\<close> and successful
  \<^verbatim>\<open>Append\<close>s: nothing else is valid, and every history is.
\<close>

theorem valid_chains_are_histories: "accepted H c \<longleftrightarrow> Chain_Validate H c = Inr ()"
  by (rule accepted_iff)

text \<open>
  C3: \<^verbatim>\<open>Append\<close> succeeds exactly on a valid chain and a record that fits its head,
  then it adds that record and nothing else; otherwise it returns an error and leaves the
  chain as it was.
\<close>

theorem append_exact:
  "Chain_Append H (Some c) r =
     (if Chain_Validate H c = Inr () \<and> fits_head H c r
      then (Some (c\<lparr>ch_Records := ch_Records c @ [r]\<rparr>), Inr ())
      else (Some c, Inl (projl (Chain_Validate H (c\<lparr>ch_Records := ch_Records c @ [r]\<rparr>)))))"
  using Chain_Validate_append [of H c r]
  by (auto simp: Chain_Append_result split: sum.splits)

text \<open>
  C4: The head record id commits to the whole history. Two valid chains with the same head
  have the same records, ceremony, phase id and genesis, as long as the hash does not collide
  on the byte strings that were hashed for these two chains.
\<close>

theorem head_binds_history:
  assumes "hash32 H"
    and "Chain_Validate H a = Inr ()" and "Chain_Validate H b = Inr ()"
    and "head_record H a = head_record H b"
    and "inj_on H (history a \<union> history b)"
  shows "ch_Records a = ch_Records b \<and> ch_CeremonyID a = ch_CeremonyID b \<and>
     ch_PhaseID a = ch_PhaseID b \<and> ch_Genesis a = ch_Genesis b"
  using same_head_history [where H = H and a = a and rs = "ch_Records a" and b = b and ss = "ch_Records b"] assms by simp

theorem head_binds_history_witness:
  "ch_Records (sample_chain [sample_record]) = [sample_record]"
proof -
  have "record_preimage sample_record \<noteq> anchor_preimage (sample_chain [sample_record])"
    using anchor_not_record by metis
  moreover have "sample_H (record_preimage sample_record) \<noteq> sample_H (anchor_preimage (sample_chain [sample_record]))"
  proof -
    have "canonicalHash sample_H chain_record_tag v \<noteq> canonicalHash sample_H genesis_tag w" for v w
    proof -
      have "sample_id chain_record_tag \<noteq> sample_id genesis_tag" by code_simp
      then show ?thesis by (simp add: sample_canonicalHash)
    qed
    then show ?thesis by (simp add: record_preimage_def anchor_preimage_def canonicalHash_eq)
  qed
  ultimately have "inj_on sample_H (history (sample_chain [sample_record]))"
    by (auto simp: history_def inj_on_def sample_chain_def)
  then have "ch_Records (sample_chain [sample_record]) = ch_Records (sample_chain [sample_record])"
    using head_binds_history [OF sample_hash32 sample_chain_valid(2) sample_chain_valid(2) refl] by simp
  then show ?thesis by (simp add: sample_chain_def)
qed

text \<open>
  C5: A chain validates against a definition exactly when both are valid, the chain names the
  definition's ceremony, a phase-1 chain starts from the definition's genesis under the
  derived phase id, the participants are the first ones of the frozen schedule in order, and
  every record names the coordinator.
\<close>

theorem chain_against_definition:
  "ValidateAgainstDefinition H c d = Inr () \<longleftrightarrow>
     Chain_Validate H c = Inr () \<and> CeremonyDefinition_Validate H d = Inr () \<and>
     ch_CeremonyID c = cd_CeremonyID d \<and>
     (ch_Phase c \<noteq> Phase1 \<or>
        ch_Genesis c = cd_Phase1Genesis d \<and>
        ComputePhaseID H (cd_CeremonyID d) Phase1 (cd_Phase1Genesis d) [] = Inr (ch_PhaseID c)) \<and>
     prefix (map cr_ParticipantID (ch_Records c)) (schedule d (ch_Phase c)) \<and>
     filter (\<lambda>r. \<not> coordinator_of d r) (ch_Records c) = []"
  by (auto simp: ValidateAgainstDefinition_ok filter_empty_conv)

theorem chain_against_definition_witness:
  "prefix (map cr_ParticipantID (ch_Records (sample_chain [sample_record])))
     (schedule (sample_definition ModeProduction) (ch_Phase (sample_chain [sample_record])))"
  using chain_against_definition [of sample_H "sample_chain [sample_record]" "sample_definition ModeProduction"]
    sample_against [of ModeProduction "[sample_record]"] by simp

section \<open>Acceptance\<close>

text \<open>
  C6: When an acceptance validates and the record names the chain's ceremony and phase, the
  coordinator, and the participant that is next in the schedule, then \<^verbatim>\<open>Append\<close>
  succeeds and the longer chain again validates against the definition.
\<close>

theorem acceptance_extends_chain:
  assumes "ValidateAttestationAcceptance H d c a e r = Inr ()"
    and "cr_CeremonyID r = ch_CeremonyID c" and "cr_Phase r = ch_Phase c" and "cr_PhaseID r = ch_PhaseID c"
    and "coordinator_of d r"
    and "prefix (map cr_ParticipantID (ch_Records c @ [r])) (schedule d (ch_Phase c))"
  shows "Chain_Append H (Some c) r = (Some (c\<lparr>ch_Records := ch_Records c @ [r]\<rparr>), Inr ()) \<and>
     ValidateAgainstDefinition H (c\<lparr>ch_Records := ch_Records c @ [r]\<rparr>) d = Inr ()"
proof -
  let ?c = "c\<lparr>ch_Records := ch_Records c @ [r]\<rparr>"
  have v: "ValidateAgainstDefinition H c d = Inr ()" "CeremonyDefinition_Validate H d = Inr ()"
    using acceptance_ok(1,2) [OF assms(1)] by blast+
  then have "distinct (schedule d (ch_Phase c))" using schedule_in_roster(2) definition_Validate_checks by blast
  then have "distinct (map cr_ParticipantID (ch_Records c @ [r]))"
    using assms(6) by (auto simp: prefix_def distinct_append)
  then have "fits_head H c r" using acceptance_fits [OF assms(1)] assms(2-4) by simp
  then have valid: "Chain_Validate H ?c = Inr ()"
    using v(1) Chain_Validate_append by (simp add: ValidateAgainstDefinition_ok)
  then have "ValidateAgainstDefinition H ?c d = Inr ()"
    using v assms(5,6) by (auto simp: ValidateAgainstDefinition_ok)
  with valid show ?thesis by (simp add: Chain_Append_result)
qed

theorem acceptance_extends_chain_witness:
  "ValidateAgainstDefinition sample_H (sample_chain [sample_record]) (sample_definition ModeProduction) = Inr ()"
proof -
  have "ValidateAgainstDefinition sample_H ((sample_chain [])\<lparr>ch_Records := ch_Records (sample_chain []) @ [sample_record]\<rparr>)
      (sample_definition ModeProduction) = Inr ()"
    using acceptance_extends_chain [OF sample_acceptance [of ModeProduction]]
    by (simp add: sample_chain_def sample_record_def sample_definition_def Let_def coordinator_of_def schedule_def)
  then show ?thesis by (simp add: sample_chain_def)
qed

text \<open>
  C7: The timeline of one accepted contribution: after the definition (and after the previous
  acceptance) it was made, then its secrets were destroyed, then it was accepted, in this
  strict order; and the three statements name the same participant, who is on the roster with the
  very key id that both attestations name. (Whether a signature under that key verifies is
  \<^verbatim>\<open>VerifySignedRecord\<close>'s question, not this function's.)
\<close>

theorem acceptance_timeline:
  assumes "ValidateAttestationAcceptance H d c a e r = Inr ()"
  shows "go_time (cd_CreatedAt d) < go_time (ca_ContributedAt a) \<and>
     go_time (ca_ContributedAt a) < go_time (ea_DestroyedAt e) \<and>
     go_time (ea_DestroyedAt e) < go_time (cr_AcceptedAt r) \<and>
     (ch_Records c = [] \<or> go_time (cr_AcceptedAt (last (ch_Records c))) < go_time (ca_ContributedAt a)) \<and>
     ca_ParticipantID a = cr_ParticipantID r \<and> ea_ParticipantID e = cr_ParticipantID r \<and>
     ea_ParticipantKeyID e = ca_ParticipantKeyID a \<and>
     (\<exists>p. ParticipantByID d (cr_ParticipantID r) = Some p \<and> id_KeyID (pt_Identity p) = ca_ParticipantKeyID a)"
  using acceptance_ok(4,13,19-23) [OF assms] by (auto simp: ValidateErasure_ok)

theorem acceptance_timeline_witness:
  "go_time (cd_CreatedAt (sample_definition ModeProduction)) < go_time (ca_ContributedAt sample_contribution)"
  using acceptance_timeline [OF sample_acceptance [of ModeProduction]] by simp

lemma tagged_length: "tagged_hex ''sha256:'' 32 s \<Longrightarrow> length s = 71"
  by (auto simp: tagged_hex_def hex_of_len_def)

lemma last_sorted_bound:
  assumes "sorted_wrt (<) (map f xs)" and "xs \<noteq> [] \<longrightarrow> f (last xs) < (t :: int)" and "x \<in> set xs"
  shows "f x < t"
  using assms by (induction xs rule: rev_induct) (auto simp: sorted_wrt_append)

text \<open>
  C8: \<^verbatim>\<open>ValidateClose\<close> accepts a close record exactly when it is valid by itself,
  the chain validates against the definition, the required contributions are there (all of
  the schedule in production, the minimum in rehearsal), every field of the close repeats
  the chain's head, the policy's beacon and the coordinator's key, the close comes strictly
  after the definition and the last acceptance, and the beacon instant is at least the
  signed lead after the close. No clock or duration wraps in these comparisons.
\<close>

theorem close_exact:
  "ValidateClose H d c r = Inr u \<longleftrightarrow>
     ValidateAgainstDefinition H c d = Inr () \<and> CloseRecord_Validate H r = Inr () \<and>
     (cd_Mode d = ModeProduction \<longrightarrow> map cr_ParticipantID (ch_Records c) = schedule d (ch_Phase c)) \<and>
     (cd_Mode d = ModeRehearsal \<longrightarrow>
        (\<forall>p. PolicyForPhase d (ch_Phase c) = Inr p \<longrightarrow> unat (pp_Minimum p) \<le> length (ch_Records c))) \<and>
     cl_CeremonyID r = ch_CeremonyID c \<and> cl_Phase r = ch_Phase c \<and> cl_PhaseID r = ch_PhaseID c \<and>
     unat (cl_FinalIndex r) = length (ch_Records c) \<and> cl_FinalPayload r = head_payload c \<and>
     cl_ChainHeadID r = head_record H c \<and> cl_AcceptedParticipants r = map cr_ParticipantID (ch_Records c) \<and>
     cl_BeaconProvider r = bp_Provider (cd_BeaconPolicy d) \<and> cl_BeaconNetwork r = bp_Network (cd_BeaconPolicy d) \<and>
     cl_CoordinatorID r = id_ID (cd_Coordinator d) \<and> cl_CoordinatorKeyID r = id_KeyID (cd_Coordinator d) \<and>
     go_time (cd_CreatedAt d) < go_time (cl_ClosedAt r) \<and>
     (ch_Records c \<noteq> [] \<longrightarrow> go_time (cr_AcceptedAt (last (ch_Records c))) < go_time (cl_ClosedAt r)) \<and>
     minimum_lead d \<le> go_time (cl_BeaconNotBefore r) - go_time (cl_ClosedAt r)"
  by (rule ValidateClose_ok)

theorem close_exact_witness:
  "cl_ChainHeadID sample_close = head_record sample_H (sample_chain [sample_record])"
  using close_exact [of sample_H "sample_definition ModeRehearsal" "sample_chain [sample_record]" sample_close "()"]
    sample_ValidateClose by blast

text \<open>
  C9: The timeline of a sealed phase. The definition and every acceptance come before the
  close, the close comes at least the signed lead before the beacon round's exact instant,
  the beacon is published at that instant or later, and the seal follows. The beacon is the
  one of the round the close fixed in advance.
\<close>

theorem phase_timeline:
  assumes "ValidateClose H d c r = Inr ()" and "ValidateBeacon H d r b = Inr ()" and "ValidateSeal H r b s = Inr ()"
  shows "go_time (cd_CreatedAt d) < go_time (cl_ClosedAt r) \<and>
     (\<forall>x \<in> set (ch_Records c). go_time (cr_AcceptedAt x) < go_time (cl_ClosedAt r)) \<and>
     go_time (cl_ClosedAt r) < round_instant (br_Round b) \<and>
     go_time (cl_ClosedAt r) + minimum_lead d \<le> round_instant (br_Round b) \<and>
     round_instant (br_Round b) \<le> go_time (br_PublishedAt b) \<and>
     go_time (br_PublishedAt b) \<le> go_time (sr_SealedAt s) \<and>
     sr_FinalPayload s = head_payload c \<and> br_CloseID b = cl_CloseID r \<and> br_Round b = cl_BeaconRound r \<and>
     sr_BeaconID s = br_BeaconID b"
proof -
  note c = assms(1) [unfolded ValidateClose_ok] and b = ValidateBeacon_ok [OF assms(2)]
    and s = assms(3) [unfolded ValidateSeal_ok]
  have "sorted_wrt (<) (map (\<lambda>r. go_time (cr_AcceptedAt r)) (ch_Records c))"
    using conjunct1 [OF c] by (simp only: ValidateAgainstDefinition_ok chain_spec_iff chain_spec_def)
  moreover have "ch_Records c \<noteq> [] \<longrightarrow> go_time (cr_AcceptedAt (last (ch_Records c))) < go_time (cl_ClosedAt r)"
    using c by blast
  ultimately have "\<forall>x \<in> set (ch_Records c). go_time (cr_AcceptedAt x) < go_time (cl_ClosedAt r)"
    using last_sorted_bound [of "\<lambda>r. go_time (cr_AcceptedAt r)" "ch_Records c"] by blast
  moreover have "br_Round b = cl_BeaconRound r" "br_CloseID b = cl_CloseID r"
    "go_time (cl_BeaconNotBefore r) \<le> go_time (br_PublishedAt b)" by (rule b)+
  moreover have "go_time (cd_CreatedAt d) < go_time (cl_ClosedAt r)"
    "minimum_lead d \<le> go_time (cl_BeaconNotBefore r) - go_time (cl_ClosedAt r)"
    "cl_FinalPayload r = head_payload c" using c by blast+
  moreover have "sr_FinalPayload s = cl_FinalPayload r" "sr_BeaconID s = br_BeaconID b"
    "go_time (br_PublishedAt b) \<le> go_time (sr_SealedAt s)" using s by blast+
  moreover have "go_time (cl_BeaconNotBefore r) = round_instant (cl_BeaconRound r)"
    "go_time (cl_ClosedAt r) < go_time (cl_BeaconNotBefore r)" by (rule close_round [OF b(2)])+
  ultimately show ?thesis by simp
qed

theorem phase_timeline_witness:
  "round_instant (br_Round sample_beacon) \<le> go_time (br_PublishedAt sample_beacon) \<and>
   br_Round sample_beacon = cl_BeaconRound sample_close"
  using phase_timeline [OF sample_ValidateClose sample_ValidateBeacon [of ModeRehearsal] sample_ValidateSeal] by blast

text \<open>
  C10: The beacon challenge binds its inputs. Two valid beacon records with one challenge
  have the same close id, round and randomness, unless the two length-prefixed preimages
  that were hashed are a collision.
\<close>

theorem beacon_challenge_binding:
  assumes "BeaconRecord_Validate H a = Inr ()" and "BeaconRecord_Validate H b = Inr ()"
    and "hash32 H" and "br_ChallengeHex a = br_ChallengeHex b"
  shows "br_CloseID a = br_CloseID b \<and> br_Round a = br_Round b \<and> br_RandomnessHex a = br_RandomnessHex b \<or>
     (\<exists>x y. br_RandomnessHex a = hex_encode x \<and> br_RandomnessHex b = hex_encode y \<and>
        (let p = challenge_preimage (br_CloseID a) (br_Provider a) (br_Network a) (br_Round a) x;
             q = challenge_preimage (br_CloseID b) (br_Provider b) (br_Network b) (br_Round b) y
         in p \<noteq> q \<and> H p = H q))"
proof -
  obtain x where x: "br_RandomnessHex a = hex_encode x" "length x = 32" "br_Provider a = BeaconProviderDrand"
      "br_Network a = BeaconNetworkQuicknet"
      "br_ChallengeHex a = hex_encode (H (challenge_preimage (br_CloseID a) (br_Provider a) (br_Network a) (br_Round a) x))"
    using beacon_challenge [OF assms(1)] by auto
  obtain y where y: "br_RandomnessHex b = hex_encode y" "length y = 32" "br_Provider b = BeaconProviderDrand"
      "br_Network b = BeaconNetworkQuicknet"
      "br_ChallengeHex b = hex_encode (H (challenge_preimage (br_CloseID b) (br_Provider b) (br_Network b) (br_Round b) y))"
    using beacon_challenge [OF assms(2)] by auto
  have l: "length (br_CloseID a) = 71" "length (br_CloseID b) = 71"
    using BeaconRecord_Validate_fields [OF assms(1)] BeaconRecord_Validate_fields [OF assms(2)]
    by (auto simp: beacon_validate_def intro: tagged_length)
  have e: "H (challenge_preimage (br_CloseID a) (br_Provider a) (br_Network a) (br_Round a) x) =
      H (challenge_preimage (br_CloseID b) (br_Provider b) (br_Network b) (br_Round b) y)"
    using x(5) y(5) assms(4) by simp
  show ?thesis
    using challenge_preimage_inj [of "br_CloseID a" "br_Provider a" "br_Network a" "br_Round a" x
        "br_CloseID b" "br_Provider b" "br_Network b" "br_Round b" y] e x y l drand_names
    by (auto simp: Let_def)
qed

theorem beacon_challenge_binding_witness:
  "BeaconRecord_Validate sample_H sample_beacon = Inr () \<and> BeaconRecord_Validate sample_H sample_beacon2 = Inr () \<and>
   br_ChallengeHex sample_beacon = br_ChallengeHex sample_beacon2 \<and>
   br_RandomnessHex sample_beacon \<noteq> br_RandomnessHex sample_beacon2 \<and>
   (\<exists>x y. br_RandomnessHex sample_beacon = hex_encode x \<and> br_RandomnessHex sample_beacon2 = hex_encode y \<and>
      (let p = challenge_preimage (sample_id close_tag) BeaconProviderDrand BeaconNetworkQuicknet 24875212 x;
           q = challenge_preimage (sample_id close_tag) BeaconProviderDrand BeaconNetworkQuicknet 24875212 y
       in p \<noteq> q \<and> sample_H p = sample_H q))"
proof -
  have c: "br_ChallengeHex sample_beacon = br_ChallengeHex sample_beacon2"
    by (simp add: sample_beacon_def sample_beacon2_def)
  have n: "br_RandomnessHex sample_beacon \<noteq> br_RandomnessHex sample_beacon2"
    by (simp add: sample_beacon_def sample_beacon2_def)
  show ?thesis
    using beacon_challenge_binding [OF sample_beacon_valid sample_beacon2_valid sample_hash32 c] n
    by (simp only: sample_beacon_valid sample_beacon2_valid c simp_thms)
      (simp add: sample_beacon_def sample_beacon2_def)
qed

text \<open>
  C11: \<^verbatim>\<open>QuicknetRoundTime\<close> rejects round zero and every round whose Unix second would
  not fit \<^verbatim>\<open>int64\<close>; otherwise its unsigned arithmetic does not wrap and the result is
  the instant of second \<^verbatim>\<open>genesis + 3 * (round - 1)\<close>.
\<close>

theorem round_time_result:
  "QuicknetRoundTime r = Inr t \<longleftrightarrow>
     r \<noteq> 0 \<and> BeaconQuicknetGenesis + 3 * (uint r - 1) < 2 ^ 63 \<and>
     t = go_unix (BeaconQuicknetGenesis + 3 * (uint r - 1))"
  unfolding QuicknetRoundTime_ok by (simp add: BeaconQuicknetGenesis_def) arith

section \<open>Identities\<close>

text \<open>
  C12: The ceremony id commits to the whole definition. Two valid definitions with one id
  are equal, unless their two hashed encodings are a collision. The software texts must be
  valid UTF-8, which every definition read from a file satisfies.
\<close>

theorem ceremony_id_binds_definition:
  assumes "hash32 H"
    and "CeremonyDefinition_Validate H a = Inr ()" and "definition_text a"
    and "CeremonyDefinition_Validate H b = Inr ()" and "definition_text b"
    and "cd_CeremonyID a = cd_CeremonyID b"
  shows "a = b \<or>
     preimage definition_tag (json_CeremonyDefinition (set_ceremony_id [] a)) \<noteq>
       preimage definition_tag (json_CeremonyDefinition (set_ceremony_id [] b)) \<and>
     H (preimage definition_tag (json_CeremonyDefinition (set_ceremony_id [] a))) =
       H (preimage definition_tag (json_CeremonyDefinition (set_ceremony_id [] b)))"
  using assms unfolding CeremonyDefinition_Validate_def by (rule cdef.binding)

theorem ceremony_id_binds_definition_witness:
  "\<exists>d. CeremonyDefinition_Validate sample_H d = Inr () \<and> d = d"
proof -
  have t: "definition_text (sample_definition ModeProduction)"
    by (simp add: definition_text_def sample_definition_def software_text_def sample_software_def Let_def code_def
        ProductionGoVersion_def ProductionGOOS_def ProductionGOARCH_def ProductionGOAMD64_def ProductionCompiler_def
        ProductionBuildMode_def)
  have v: "CeremonyDefinition_Validate sample_H (sample_definition ModeProduction) = Inr ()"
    by (rule sample_definition_valid) simp
  from ceremony_id_binds_definition [OF sample_hash32 v t v t refl] v show ?thesis by blast
qed

text \<open>
  C13: The parties of a valid definition are separate: coordinator, release signer, auditors
  and participants share no identity id, no key id and no Ed25519 public key; every party's
  fingerprint is the hash of its key. There are at least two auditors and between one and
  twenty participants.
\<close>

theorem definition_separation:
  assumes "CeremonyDefinition_Validate H d = Inr ()"
  shows "distinct (map id_ID (all_identities d)) \<and> distinct (map id_KeyID (all_identities d)) \<and>
     distinct (map id_Ed25519PublicKeyHex (all_identities d)) \<and>
     (\<forall>i \<in> set (all_identities d). \<exists>k. id_Ed25519PublicKeyHex i = hex_encode k \<and> length k = 32 \<and>
        id_PublicKeyFingerprint i = taggedSHA256 H k) \<and>
     2 \<le> length (cd_Auditors d) \<and> 1 \<le> length (cd_Roster d) \<and> length (cd_Roster d) \<le> 20"
proof -
  note c = conjunct1 [OF definition_Validate_checks [OF assms]]
  note p = definition_parties [OF c]
  have key: "\<exists>k. id_Ed25519PublicKeyHex i = hex_encode k \<and> length k = 32 \<and>
      id_PublicKeyFingerprint i = taggedSHA256 H k" if i: "i \<in> set (all_identities d)" for i
  proof -
    obtain k where k: "id_Ed25519PublicKeyHex i = hex_encode k" "length k = 32"
      using p(5) [OF i] by (auto simp: Identity_Validate_def decodeFixedHex_def elim: hex_split split: if_splits option.splits)
    then show ?thesis using p(5) [OF i] by (auto simp: Identity_Validate_def decodeFixedHex_def split: if_splits)
  qed
  have "distinct (map id_Ed25519PublicKeyHex (all_identities d))"
  proof -
    have "inj_on id_Ed25519PublicKeyHex (set (all_identities d))"
    proof (rule inj_onI)
      fix i j assume ij: "i \<in> set (all_identities d)" "j \<in> set (all_identities d)"
        "id_Ed25519PublicKeyHex i = id_Ed25519PublicKeyHex j"
      then have "id_PublicKeyFingerprint i = id_PublicKeyFingerprint j" using key [OF ij(1)] key [OF ij(2)] by auto
      with p(3) ij show "i = j" by (auto simp: distinct_map dest: inj_onD)
    qed
    with p(3) show ?thesis by (simp add: distinct_map)
  qed
  with p key c show ?thesis
    by (auto simp: definition_checks_ok identity_checks_ok MaxParticipants_def Suc_le_eq)
qed

theorem definition_separation_witness:
  "distinct (map id_Ed25519PublicKeyHex (all_identities (sample_definition ModeProduction)))"
  using definition_separation [OF sample_definition_valid [of ModeProduction]] by simp

text \<open>
  A valid production definition has the production profile: a clean source tree and the
  pinned Go build, at least two participants, both phases requiring every scheduled
  participant (at least two), and a beacon lead of at least a day.
\<close>

lemma production_profile:
  assumes "CeremonyDefinition_Validate H d = Inr ()" and "cd_Mode d = ModeProduction"
  shows "\<not> sb_SourceDirty (cd_Software d) \<and> sb_GoVersion (cd_Software d) = ProductionGoVersion \<and>
     \<not> sb_CGOEnabled (cd_Software d) \<and> sb_TrimPath (cd_Software d) \<and>
     2 \<le> length (cd_Roster d) \<and> 86400 * 1000000000 \<le> minimum_lead d \<and>
     (\<forall>p \<in> {Phase1, Phase2}. 2 \<le> length (schedule d p) \<and>
        PolicyForPhase d p = Inr \<lparr>pp_Participants = schedule d p, pp_Minimum = of_nat (length (schedule d p))\<rparr>)"
proof -
  note c = conjunct1 [OF definition_Validate_checks [OF assms(1)]]
  have m: "mode_checks d = Inr ()" "production_checks d = Inr ()" using c by (simp_all add: definition_checks_ok)
  have lead: "86400 * 1000000000 \<le> minimum_lead d"
    using m(2) assms(2)
    by (simp add: production_checks_def minimum_lead_def ProductionMinimumWitnessLeadSeconds_def not_less word_le_def)
  have pol: "2 \<le> length (pp_Participants q)" "q = \<lparr>pp_Participants = pp_Participants q, pp_Minimum = of_nat (length (pp_Participants q))\<rparr>"
    if "q \<in> {cd_Phase1Policy d, cd_Phase2Policy d}" for q
  proof -
    have l: "2 \<le> length (pp_Participants q)" "unat (pp_Minimum q) = length (pp_Participants q)"
      using m(2) assms(2) that by (auto simp: production_checks_def)
    then show "2 \<le> length (pp_Participants q)" by simp
    have "pp_Minimum q = of_nat (length (pp_Participants q))" using l(2) [symmetric] by simp
    then show "q = \<lparr>pp_Participants = pp_Participants q, pp_Minimum = of_nat (length (pp_Participants q))\<rparr>"
      by (cases q) simp
  qed
  have sch: "schedule d Phase1 = pp_Participants (cd_Phase1Policy d)" "schedule d Phase2 = pp_Participants (cd_Phase2Policy d)"
    by (simp_all add: schedule_def Phase1_def Phase2_def)
  have ph: "PolicyForPhase d Phase1 = Inr (cd_Phase1Policy d)" "PolicyForPhase d Phase2 = Inr (cd_Phase2Policy d)"
    by simp_all
  have soft: "\<not> sb_SourceDirty (cd_Software d) \<and> sb_GoVersion (cd_Software d) = ProductionGoVersion \<and>
     \<not> sb_CGOEnabled (cd_Software d) \<and> sb_TrimPath (cd_Software d)" "2 \<le> length (cd_Roster d)"
    using m assms(2) by (auto simp: mode_checks_def production_checks_def validateProductionBuildProfile_def Let_def)
  show ?thesis using soft lead pol [of "cd_Phase1Policy d"] pol [of "cd_Phase2Policy d"] by (simp only: ball_simps ph sch) simp
qed

lemma production_profile_witness:
  "86400 * 1000000000 \<le> minimum_lead (sample_definition ModeProduction)"
  using production_profile [OF sample_definition_valid [of ModeProduction]] by (simp add: sample_definition_def Let_def)

text \<open>
  C14: The definitions \<^verbatim>\<open>Validate\<close> accepts are exactly the results of
  \<^verbatim>\<open>FinalizeCeremonyDefinition\<close>, and finalizing a valid definition changes nothing.
\<close>

theorem finalize_validate:
  assumes "hash32 H"
  shows "(CeremonyDefinition_Validate H x = Inr () \<longleftrightarrow> (\<exists>d. FinalizeCeremonyDefinition H d = Inr x)) \<and>
     (CeremonyDefinition_Validate H x = Inr () \<longrightarrow> FinalizeCeremonyDefinition H x = Inr x)"
proof -
  have idem: "FinalizeCeremonyDefinition H x = Inr x" if "CeremonyDefinition_Validate H x = Inr ()"
  proof -
    have "x\<lparr>cd_Schema := DefinitionSchema\<rparr> = x" using definition_Validate_checks [OF that] by (cases x) simp
    then show ?thesis
      using cdef.valid_new [OF assms] that by (simp add: FinalizeCeremonyDefinition_def CeremonyDefinition_Validate_def)
  qed
  moreover have "CeremonyDefinition_Validate H x = Inr ()" if "FinalizeCeremonyDefinition H d = Inr x" for d
    using cdef.new_valid [OF assms] that by (simp add: FinalizeCeremonyDefinition_def CeremonyDefinition_Validate_def)
  ultimately show ?thesis by blast
qed

theorem finalize_validate_witness:
  "FinalizeCeremonyDefinition sample_H (sample_definition ModeProduction) = Inr (sample_definition ModeProduction)"
  using finalize_validate [OF sample_hash32] sample_definition_valid [of ModeProduction] by blast

text \<open>
  A canonical preimage is unambiguous: different domain tags or different JSON values
  (of valid UTF-8 text) never give the same hashed bytes, so records of two kinds cannot
  share an identity by concatenation.
\<close>

lemma preimage_unambiguous:
  assumes "preimage d v = preimage e w" and "domain_tag d" and "domain_tag e" and "json_utf8 v" and "json_utf8 w"
  shows "d = e \<and> v = w"
  using assms by (rule preimage_inj)

lemma preimage_unambiguous_witness:
  "close_tag = close_tag \<and> json_SealRecord (set_seal_id [] sample_seal) = json_SealRecord (set_seal_id [] sample_seal)"
proof (rule preimage_unambiguous)
  have "SealRecord_Validate sample_H sample_seal = Inr ()" using sample_ValidateSeal by (simp add: ValidateSeal_ok)
  then show "json_utf8 (json_SealRecord (set_seal_id [] sample_seal))"
    unfolding SealRecord_Validate_def by (intro seal.json_text_of_valid seal.validate_val TrueI)
  then show "json_utf8 (json_SealRecord (set_seal_id [] sample_seal))" .
qed (rule close.tag refl)+

section \<open>Artifacts\<close>

text \<open>
  C15: The preflight accepts exactly the byte strings of the declared layouts. Phase 1: a supported power-of-two
  domain, the size within the limit, three update proofs, the domain size, the commons with every point in compressed
  form, the challenge length and the challenge, and nothing after it. Phase 2: the layout of the circuit's shape, so
  counts come from the shape and never from the file. Commons: their layout alone. The result is the digest of the
  whole input and the challenge at its end.
\<close>

theorem preflight_exact:
  "(PreflightPhase1 H B r sh1 = Inr d \<longleftrightarrow>
      domain_ok (p1s_DomainN sh1) \<and> phase1_size (p1s_DomainN sh1) (p1s_ChallengeLength sh1) \<le> MaxArtifactSize \<and>
      layout_ok (phase1_layout sh1) r \<and>
      d = \<lparr>ad_Size = int (length r), ad_SHA256 = H r, ad_BLAKE2b256 = B r,
           ad_Challenge = drop (length r - unat (p1s_ChallengeLength sh1)) r\<rparr>) \<and>
   (PreflightPhase2 H B r sh2 = Inr d \<longleftrightarrow>
      p2s_Commitments sh2 \<le> MaxPhase2Commitments \<and>
      length (slice_list (p2s_SigmaCKK sh2)) = unat (p2s_Commitments sh2) \<and> phase2_size sh2 \<le> MaxArtifactSize \<and>
      layout_ok (phase2_layout sh2) r \<and>
      d = \<lparr>ad_Size = int (length r), ad_SHA256 = H r, ad_BLAKE2b256 = B r,
           ad_Challenge = drop (length r - unat (p2s_ChallengeLength sh2)) r\<rparr>) \<and>
   (PreflightCommons H B r sh = Inr d \<longleftrightarrow>
      domain_ok (cs_DomainN sh) \<and> commons_size (cs_DomainN sh) \<le> MaxArtifactSize \<and>
      layout_ok (commons_layout (cs_DomainN sh)) r \<and>
      d = \<lparr>ad_Size = int (length r), ad_SHA256 = H r, ad_BLAKE2b256 = B r, ad_Challenge = []\<rparr>)"
  by (intro conjI PreflightPhase1_ok PreflightPhase2_ok PreflightCommons_ok)

section \<open>Signatures\<close>

text \<open>
  Signing succeeds exactly on nonempty data, a well-formed key id and a 64-byte private
  key, and what it returns verifies under the key's public half, for the same data and key
  id, when Ed25519 verifies its own signatures.
\<close>

lemma sign_verify_roundtrip:
  assumes "ed25519_scheme sign verify k" and "hash32 H"
  shows "(\<exists>s. SignExact H sign data i k = Inr s \<and> VerifyExact H verify data s i (ed25519_public k) = Inr ()) \<longleftrightarrow>
     data \<noteq> [] \<and> (i \<noteq> [] \<and> length i \<le> 128 \<and> list_all id_char i) \<and> length k = 64"
proof -
  have l: "length (sign k data) = 64" "verify (ed25519_public k) data (sign k data)"
    using assms(1) by (simp_all add: ed25519_scheme_def)
  then have h: "hex_of_len 64 (hex_encode (sign k data))" using hex_encode_of_len [of "sign k data"] by simp
  show ?thesis
    using taggedSHA256_tagged [OF assms(2)] h l
    by (auto simp: SignExact_def Let_def VerifyExact_ok DetachedSignature_Validate_ok ed25519_public_def)
qed

lemma sign_verify_roundtrip_witness:
  "\<exists>s. SignExact sample_H (\<lambda>k m. replicate 64 1) [7] ''coordinator-1'' (replicate 64 2) = Inr s"
proof -
  have "ed25519_scheme (\<lambda>k m. replicate 64 1) (\<lambda>p m s. s = replicate 64 1) (replicate 64 2)"
    by (simp add: ed25519_scheme_def)
  from sign_verify_roundtrip [OF this sample_hash32, of "[7]" "''coordinator-1''"] show ?thesis
    by (auto simp: id_char_def in_range_def code_def)
qed

end
