(* ===== verification/GnarkApi.thy ===== *)
theory GnarkApi
  imports Prelude "HOL-Library.Monad_Syntax"
begin

unbundle bit_operations_syntax

text \<open>
  What the circuits use of gnark, a third-party library: the operations of
  \<^verbatim>\<open>frontend.API\<close>, \<^verbatim>\<open>rangecheck\<close>, \<^verbatim>\<open>uints\<close> and \<^verbatim>\<open>bitslice\<close> are the fields of a
  record \<open>gnark\<close>, and \<open>gnark_doc\<close> states their documented behaviour, on
  which every theorem about a circuit depends.

  A circuit is evaluated on a witness: a variable is its value, an integer in \<open>[0, p)\<close>;
  \<^verbatim>\<open>uints.U8\<close> is the value of its \<^verbatim>\<open>Val\<close> and \<^verbatim>\<open>uints.U64\<close> the list of its eight bytes, least
  significant first. A constraint that the witness does not satisfy makes the evaluation
  \<open>None\<close>. The values a hint returns are chosen by the prover: they come from an advice
  function that may depend on the place of the call. A theorem for every advice is
  soundness, a theorem for the honest advice (what the hint functions compute) is
  completeness.
\<close>

type_synonym fvar = int
type_synonym U8 = int
type_synonym U64 = "int list"

datatype hint = SplitByteHint | SigmaChunksHint | PartitionHint

type_synonym site = "nat list"

text \<open>
  The outputs of hints, by hint, place, inputs and number of the output, and which of the
  variables the code asks \<^verbatim>\<open>ConstantValue\<close> about are compile-time constants.
\<close>

record advice =
  ad_hint :: "hint \<Rightarrow> site \<Rightarrow> int list \<Rightarrow> nat \<Rightarrow> int"
  ad_const :: "site \<Rightarrow> bool"

text \<open>The advice for the part of a circuit at a place.\<close>

definition at :: "advice \<Rightarrow> site \<Rightarrow> advice" where
  "at adv p = \<lparr>ad_hint = (\<lambda>h s. ad_hint adv h (p @ s)), ad_const = (\<lambda>s. ad_const adv (p @ s))\<rparr>"

record gnark =
  g_p :: int
  g_bitlen :: nat
  g_add :: "int \<Rightarrow> int \<Rightarrow> int"
  g_sub :: "int \<Rightarrow> int \<Rightarrow> int"
  g_mul :: "int \<Rightarrow> int \<Rightarrow> int"
  g_eq :: "int \<Rightarrow> int \<Rightarrow> bool"
  g_range :: "int \<Rightarrow> nat \<Rightarrow> bool"
  g_to_binary :: "int \<Rightarrow> nat \<Rightarrow> int list option"
  g_from_binary :: "int list \<Rightarrow> int"
  g_byte_of :: "int \<Rightarrow> int option"
  g_value_of :: "int \<Rightarrow> U64 option"
  g_to_value :: "U64 \<Rightarrow> int"
  g_xor8 :: "U8 \<Rightarrow> U8 \<Rightarrow> U8"
  g_xor :: "U64 \<Rightarrow> U64 \<Rightarrow> U64"
  g_and :: "U64 \<Rightarrow> U64 \<Rightarrow> U64"
  g_lrot :: "U64 \<Rightarrow> nat \<Rightarrow> U64 option"
  g_pack_lsb :: "int list \<Rightarrow> nat list \<Rightarrow> U8 option"
  g_new_u64 :: "u64 \<Rightarrow> U64"
  g_pack_msb :: "U8 list \<Rightarrow> U64"
  g_unpack_msb :: "U64 \<Rightarrow> U8 list"
  g_pack_lsb64 :: "U8 list \<Rightarrow> U64"
  g_unpack_lsb :: "U64 \<Rightarrow> U8 list"
  g_boolean :: "int \<Rightarrow> bool"

section \<open>Values\<close>

fun le_val :: "int list \<Rightarrow> int" where
  "le_val [] = 0"
| "le_val (b # bs) = b + 256 * le_val bs"

fun bin_val :: "int list \<Rightarrow> int" where
  "bin_val [] = 0"
| "bin_val (b # bs) = b + 2 * bin_val bs"

definition byte_ok :: "int \<Rightarrow> bool" where "byte_ok b \<longleftrightarrow> 0 \<le> b \<and> b < 256"

definition bit_ok :: "int \<Rightarrow> bool" where "bit_ok b \<longleftrightarrow> b = 0 \<or> b = 1"

definition bytes_ok :: "int list \<Rightarrow> bool" where "bytes_ok bs \<longleftrightarrow> list_all byte_ok bs"

definition bits_ok :: "int list \<Rightarrow> bool" where "bits_ok bs \<longleftrightarrow> list_all bit_ok bs"

definition u64_ok :: "U64 \<Rightarrow> bool" where "u64_ok w \<longleftrightarrow> length w = 8 \<and> bytes_ok w"

definition w64 :: "U64 \<Rightarrow> u64" where "w64 w = word_of_int (le_val w)"

text \<open>Chunks of given widths, least significant first.\<close>

fun chunk_val :: "int list \<Rightarrow> nat list \<Rightarrow> int" where
  "chunk_val (v # vs) (w # ws) = v + 2 ^ w * chunk_val vs ws"
| "chunk_val _ _ = 0"

definition chunks_ok :: "int list \<Rightarrow> nat list \<Rightarrow> bool" where
  "chunks_ok vs ws \<longleftrightarrow> list_all2 (\<lambda>v w. 0 \<le> v \<and> v < 2 ^ w) vs ws"

section \<open>Documented behaviour\<close>

definition fe :: "gnark \<Rightarrow> int \<Rightarrow> bool" where "fe G x \<longleftrightarrow> 0 \<le> x \<and> x < g_p G"

definition field_doc :: "gnark \<Rightarrow> bool" where
  "field_doc G \<longleftrightarrow>
     2 ^ 254 < g_p G \<and> g_bitlen G = 255 \<and>
     (\<forall>x y. fe G x \<longrightarrow> fe G y \<longrightarrow> g_add G x y = (x + y) mod g_p G) \<and>
     (\<forall>x y. fe G x \<longrightarrow> fe G y \<longrightarrow> g_sub G x y = (x - y) mod g_p G) \<and>
     (\<forall>x y. fe G x \<longrightarrow> fe G y \<longrightarrow> g_mul G x y = (x * y) mod g_p G) \<and>
     (\<forall>x y. fe G x \<longrightarrow> fe G y \<longrightarrow> (g_eq G x y \<longleftrightarrow> x = y)) \<and>
     (\<forall>x n. fe G x \<longrightarrow> (g_range G x n \<longleftrightarrow> x < 2 ^ n)) \<and>
     (\<forall>x n bs. fe G x \<longrightarrow> n < 254 \<longrightarrow>
        (g_to_binary G x n = Some bs \<longleftrightarrow> length bs = n \<and> bits_ok bs \<and> bin_val bs = x)) \<and>
     (\<forall>bs. bits_ok bs \<longrightarrow> length bs < 254 \<longrightarrow> g_from_binary G bs = bin_val bs)"

definition uints_doc :: "gnark \<Rightarrow> bool" where
  "uints_doc G \<longleftrightarrow>
     (\<forall>x b. fe G x \<longrightarrow> (g_byte_of G x = Some b \<longleftrightarrow> b = x \<and> x < 256)) \<and>
     (\<forall>x w. fe G x \<longrightarrow> (g_value_of G x = Some w \<longleftrightarrow> u64_ok w \<and> le_val w = x)) \<and>
     (\<forall>w. u64_ok w \<longrightarrow> g_to_value G w = le_val w) \<and>
     (\<forall>a b. byte_ok a \<longrightarrow> byte_ok b \<longrightarrow> g_xor8 G a b = a XOR b) \<and>
     (\<forall>a b. u64_ok a \<longrightarrow> u64_ok b \<longrightarrow> u64_ok (g_xor G a b) \<and> w64 (g_xor G a b) = w64 a XOR w64 b) \<and>
     (\<forall>a b. u64_ok a \<longrightarrow> u64_ok b \<longrightarrow> u64_ok (g_and G a b) \<and> w64 (g_and G a b) = w64 a AND w64 b) \<and>
     (\<forall>a n. u64_ok a \<longrightarrow> n < 64 \<longrightarrow> (\<exists>r. g_lrot G a n = Some r \<and> u64_ok r \<and> w64 r = word_rotl n (w64 a))) \<and>
     (\<forall>vs ws r. length vs = length ws \<longrightarrow> sum_list ws = 8 \<longrightarrow> list_all (fe G) vs \<longrightarrow>
        (g_pack_lsb G vs ws = Some r \<longleftrightarrow> chunks_ok vs ws \<and> r = chunk_val vs ws))"

definition msb_doc :: "gnark \<Rightarrow> bool" where
  "msb_doc G \<longleftrightarrow>
     (\<forall>x. u64_ok (g_new_u64 G x) \<and> w64 (g_new_u64 G x) = x) \<and>
     (\<forall>bs. length bs = 8 \<longrightarrow> g_pack_msb G bs = rev bs) \<and>
     (\<forall>w. u64_ok w \<longrightarrow> g_unpack_msb G w = rev w) \<and>
     (\<forall>bs. length bs = 8 \<longrightarrow> g_pack_lsb64 G bs = bs) \<and>
     (\<forall>w. u64_ok w \<longrightarrow> g_unpack_lsb G w = w) \<and>
     (\<forall>x. fe G x \<longrightarrow> (g_boolean G x \<longleftrightarrow> bit_ok x))"

definition gnark_doc :: "gnark \<Rightarrow> bool" where
  "gnark_doc G \<longleftrightarrow> field_doc G \<and> uints_doc G \<and> msb_doc G"

section \<open>Constraints and hints\<close>

text \<open>\<^verbatim>\<open>AssertIsEqual\<close> and \<^verbatim>\<open>rc.Check\<close> as steps that may fail, and \<^verbatim>\<open>NewHint\<close>: the outputs are field
  elements whatever the prover chose.\<close>

definition must :: "bool \<Rightarrow> unit option" where
  "must b = (if b then Some () else None)"

definition new_hint :: "gnark \<Rightarrow> advice \<Rightarrow> hint \<Rightarrow> site \<Rightarrow> int list \<Rightarrow> nat \<Rightarrow> int list" where
  "new_hint G adv h s ins n = map (\<lambda>i. ad_hint adv h s ins i mod g_p G) [0..<n]"

fun mapm :: "('a \<Rightarrow> 'b option) \<Rightarrow> 'a list \<Rightarrow> 'b list option" where
  "mapm f [] = Some []"
| "mapm f (x # xs) = do { y \<leftarrow> f x; ys \<leftarrow> mapm f xs; Some (y # ys) }"

fun foldm :: "('s \<Rightarrow> 'x \<Rightarrow> 's option) \<Rightarrow> 's \<Rightarrow> 'x list \<Rightarrow> 's option" where
  "foldm f s [] = Some s"
| "foldm f s (x # xs) = do { s' \<leftarrow> f s x; foldm f s' xs }"

lemma must_Some [simp]: "must b = Some u \<longleftrightarrow> b"
  by (simp add: must_def)

lemma must_bind [simp]: "must b \<bind> f = Some y \<longleftrightarrow> b \<and> f () = Some y"
  by (auto simp: must_def)

lemma mapm_Some: "mapm f xs = Some ys \<longleftrightarrow> list_all2 (\<lambda>x y. f x = Some y) xs ys"
proof (induction xs arbitrary: ys)
  case (Cons x xs)
  then show ?case by (cases ys) (auto simp: bind_eq_Some_conv)
qed auto

lemma foldm_snoc: "foldm f s (xs @ [x]) = foldm f s xs \<bind> (\<lambda>s'. f s' x)"
  by (induction xs arbitrary: s) simp_all

lemma foldm_append: "foldm f s (xs @ ys) = foldm f s xs \<bind> (\<lambda>s'. foldm f s' ys)"
  by (induction xs arbitrary: s) simp_all

text \<open>A loop whose step refines a step of a specification and never fails when \<open>C\<close>.\<close>

lemma foldm_refine:
  assumes "\<And>s x s'. I s \<Longrightarrow> x \<in> set xs \<Longrightarrow> f s x = Some s' \<Longrightarrow> I s' \<and> a s' = g (a s) x"
    and "I s" and "foldm f s xs = Some s'"
  shows "I s' \<and> a s' = foldl g (a s) xs"
  using assms
proof (induction xs arbitrary: s)
  case (Cons x xs)
  obtain t where t: "f s x = Some t" "foldm f t xs = Some s'"
    using Cons.prems(3) by (auto simp: bind_eq_Some_conv)
  have st: "I t \<and> a t = g (a s) x" using Cons.prems(1) [OF Cons.prems(2) _ t(1)] by simp
  have "I s' \<and> a s' = foldl g (a t) xs"
    by (rule Cons.IH [OF _ conjunct1 [OF st] t(2)]) (rule Cons.prems(1), simp_all)
  with st show ?case by simp
qed simp

lemma foldm_total:
  assumes "\<And>s x. I s \<Longrightarrow> x \<in> set xs \<Longrightarrow> \<exists>s'. f s x = Some s' \<and> I s'"
    and "I s"
  shows "\<exists>s'. foldm f s xs = Some s' \<and> I s'"
  using assms
proof (induction xs arbitrary: s)
  case (Cons x xs)
  have "\<exists>t. f s x = Some t \<and> I t" using Cons.prems(1) [OF Cons.prems(2)] by simp
  then obtain t where t: "f s x = Some t" "I t" by blast
  have "\<exists>s'. foldm f t xs = Some s' \<and> I s'"
    by (rule Cons.IH [OF _ t(2)]) (rule Cons.prems(1), simp_all)
  with t show ?case by simp
qed simp

text \<open>What the hint functions compute. \<^verbatim>\<open>bitslice.Partition\<close> splits at bit 64.\<close>

fun chunk_at :: "int \<Rightarrow> int list \<Rightarrow> nat \<Rightarrow> int" where
  "chunk_at v [] i = 0"
| "chunk_at v (w # ws) i = (if i = 0 then v mod 2 ^ nat w else chunk_at (v div 2 ^ nat w) ws (i - 1))"

definition run_hint :: "hint \<Rightarrow> int list \<Rightarrow> nat \<Rightarrow> int" where
  "run_hint h ins i =
     (case h of
        SplitByteHint \<Rightarrow> (if i = 0 then hd ins mod 256 else hd ins div 256)
      | SigmaChunksHint \<Rightarrow> chunk_at (hd ins) (tl ins) i
      | PartitionHint \<Rightarrow> (if i = 0 then hd ins mod 2 ^ 64 else hd ins div 2 ^ 64))"

definition honest :: "advice \<Rightarrow> bool" where
  "honest adv \<longleftrightarrow> (\<forall>h s ins i. ad_hint adv h s ins i = run_hint h ins i)"

definition honest_adv :: advice where
  "honest_adv = \<lparr>ad_hint = (\<lambda>h s. run_hint h), ad_const = (\<lambda>_. False)\<rparr>"

lemma honest_adv [simp]: "honest honest_adv"
  by (simp add: honest_def honest_adv_def)

lemma honest_at [simp]: "honest adv \<Longrightarrow> honest (at adv p)"
  by (simp add: honest_def at_def)

lemma new_hint_fe: "0 < g_p G \<Longrightarrow> x \<in> set (new_hint G adv h s ins n) \<Longrightarrow> fe G x"
  by (auto simp: new_hint_def fe_def)

lemma length_new_hint [simp]: "length (new_hint G adv h s ins n) = n"
  by (simp add: new_hint_def)

lemma new_hint_nth: "i < n \<Longrightarrow> new_hint G adv h s ins n ! i = ad_hint adv h s ins i mod g_p G"
  by (simp add: new_hint_def)

section \<open>Byte values\<close>

lemma nth_take_drop: "k < m \<Longrightarrow> n + m \<le> length xs \<Longrightarrow> take m (drop n xs) ! k = xs ! (n + k)"
  by simp

lemma bytes_ok_simps [simp]:
  "bytes_ok []" "bytes_ok (b # bs) \<longleftrightarrow> byte_ok b \<and> bytes_ok bs" "bytes_ok (as @ bs) \<longleftrightarrow> bytes_ok as \<and> bytes_ok bs"
  by (simp_all add: bytes_ok_def)

lemma bits_ok_simps [simp]:
  "bits_ok []" "bits_ok (b # bs) \<longleftrightarrow> bit_ok b \<and> bits_ok bs" "bits_ok (as @ bs) \<longleftrightarrow> bits_ok as \<and> bits_ok bs"
  by (simp_all add: bits_ok_def)

lemma bytes_ok_iff: "bytes_ok bs \<longleftrightarrow> (\<forall>b \<in> set bs. byte_ok b)"
  by (simp add: bytes_ok_def list_all_iff)

lemma bits_ok_iff: "bits_ok bs \<longleftrightarrow> (\<forall>b \<in> set bs. bit_ok b)"
  by (simp add: bits_ok_def list_all_iff)

lemma bytes_ok_take [intro]: "bytes_ok bs \<Longrightarrow> bytes_ok (take n bs)"
  and bytes_ok_drop [intro]: "bytes_ok bs \<Longrightarrow> bytes_ok (drop n bs)"
  by (auto simp: bytes_ok_iff dest: in_set_takeD in_set_dropD)

lemma bytes_ok_nth: "bytes_ok bs \<Longrightarrow> i < length bs \<Longrightarrow> byte_ok (bs ! i)"
  by (simp add: bytes_ok_iff)

lemma bytes_ok_rev [simp]: "bytes_ok (rev bs) \<longleftrightarrow> bytes_ok bs"
  by (simp add: bytes_ok_iff)

lemma bytes_ok_concat: "bytes_ok (concat xss) \<longleftrightarrow> (\<forall>xs \<in> set xss. bytes_ok xs)"
  by (auto simp: bytes_ok_iff)

lemma bytes_ok_replicate [simp]: "bytes_ok (replicate n b) \<longleftrightarrow> n = 0 \<or> byte_ok b"
  by (auto simp: bytes_ok_iff)

lemma le_val_append: "le_val (as @ bs) = le_val as + 256 ^ length as * le_val bs"
  by (induction as) (simp_all add: algebra_simps)

lemma le_val_bounds: "bytes_ok bs \<Longrightarrow> 0 \<le> le_val bs \<and> le_val bs < 256 ^ length bs"
  by (induction bs) (auto simp: byte_ok_def)

lemma int_div_eq:
  assumes "0 < (m :: int)"
  shows "x div m = q \<longleftrightarrow> q * m \<le> x \<and> x < (q + 1) * m"
proof
  assume q: "x div m = q"
  have "m * q + x mod m = x" "x mod m < m" "0 \<le> x mod m"
    using assms mult_div_mod_eq [of m x] pos_mod_bound [of m x] pos_mod_sign [of m x] by (simp_all add: q)
  moreover have "q * m = m * q" "(q + 1) * m = m * q + m" by (simp_all add: algebra_simps)
  ultimately show "q * m \<le> x \<and> x < (q + 1) * m" by linarith
next
  assume "q * m \<le> x \<and> x < (q + 1) * m"
  then show "x div m = q"
    using assms by (intro int_div_pos_eq [of x m q "x - m * q"]) (simp_all add: algebra_simps)
qed

lemma digit_split:
  fixes a b x y m :: int
  assumes "a + m * x = b + m * y" and "0 \<le> a" "a < m" "0 \<le> b" "b < m"
  shows "a = b \<and> x = y"
proof -
  have "a = (a + m * x) mod m" "b = (b + m * y) mod m" using assms(2-5) by simp_all
  then have "a = b" using assms(1) by simp
  with assms show ?thesis by simp
qed

lemma le_val_inj:
  "bytes_ok as \<Longrightarrow> bytes_ok bs \<Longrightarrow> length as = length bs \<Longrightarrow> le_val as = le_val bs \<Longrightarrow> as = bs"
proof (induction as arbitrary: bs)
  case (Cons a as)
  then obtain b bs' where b: "bs = b # bs'" by (cases bs) auto
  have e: "a + 256 * le_val as = b + 256 * le_val bs'" "byte_ok a" "byte_ok b" "bytes_ok as" "bytes_ok bs'" "length as = length bs'"
    using Cons.prems unfolding b by simp_all
  have ab: "a = b \<and> le_val as = le_val bs'" using digit_split [OF e(1)] e(2,3) by (simp add: byte_ok_def)
  then have "as = bs'" using Cons.IH [OF e(4-6)] by blast
  with ab b show ?case by simp
qed simp

lemma bin_val_append: "bin_val (as @ bs) = bin_val as + 2 ^ length as * bin_val bs"
  by (induction as) (simp_all add: algebra_simps)

lemma bin_val_bounds: "bits_ok bs \<Longrightarrow> 0 \<le> bin_val bs \<and> bin_val bs < 2 ^ length bs"
  by (induction bs) (auto simp: bit_ok_def)

lemma bin_val_inj:
  "bits_ok as \<Longrightarrow> bits_ok bs \<Longrightarrow> length as = length bs \<Longrightarrow> bin_val as = bin_val bs \<Longrightarrow> as = bs"
proof (induction as arbitrary: bs)
  case (Cons a as)
  then obtain b bs' where b: "bs = b # bs'" by (cases bs) auto
  have e: "a + 2 * bin_val as = b + 2 * bin_val bs'" "bit_ok a" "bit_ok b" "bits_ok as" "bits_ok bs'" "length as = length bs'"
    using Cons.prems unfolding b by simp_all
  have ab: "a = b \<and> bin_val as = bin_val bs'" using digit_split [OF e(1)] e(2,3) by (auto simp: bit_ok_def)
  then have "as = bs'" using Cons.IH [OF e(4-6)] by blast
  with ab b show ?case by simp
qed simp

text \<open>The bits of a number, least significant first.\<close>

definition bits_of :: "nat \<Rightarrow> int \<Rightarrow> int list" where
  "bits_of n x = map (\<lambda>i. x div 2 ^ i mod 2) [0..<n]"

definition bytes_of :: "nat \<Rightarrow> int \<Rightarrow> int list" where
  "bytes_of n x = map (\<lambda>i. x div 256 ^ i mod 256) [0..<n]"

lemma bytes_of_simps [simp]: "bytes_of 0 x = []" "bytes_of (Suc n) x = x mod 256 # bytes_of n (x div 256)"
proof -
  have "x div 256 ^ Suc i = x div 256 div 256 ^ i" for i
    by (simp add: zdiv_zmult2_eq)
  then show "bytes_of (Suc n) x = x mod 256 # bytes_of n (x div 256)"
    by (simp add: bytes_of_def upt_conv_Cons map_Suc_upt [symmetric] comp_def del: upt_Suc power_Suc)
qed (simp add: bytes_of_def)

lemma bits_of_simps [simp]: "bits_of 0 x = []" "bits_of (Suc n) x = x mod 2 # bits_of n (x div 2)"
proof -
  have "x div 2 ^ Suc i = x div 2 div 2 ^ i" for i
    by (simp add: zdiv_zmult2_eq)
  then show "bits_of (Suc n) x = x mod 2 # bits_of n (x div 2)"
    by (simp add: bits_of_def upt_conv_Cons map_Suc_upt [symmetric] comp_def del: upt_Suc power_Suc)
qed (simp add: bits_of_def)

lemma bits_of_nth: "i < n \<Longrightarrow> bits_of n x ! i = x div 2 ^ i mod 2"
  by (simp add: bits_of_def)

lemma bytes_of_ok: "bytes_ok (bytes_of n x) \<and> length (bytes_of n x) = n"
  by (induction n arbitrary: x) (simp_all add: byte_ok_def)

lemma bits_of_ok: "bits_ok (bits_of n x) \<and> length (bits_of n x) = n"
  by (induction n arbitrary: x) (auto simp: bit_ok_def)

lemma le_val_bytes_of: "0 \<le> x \<Longrightarrow> x < 256 ^ n \<Longrightarrow> le_val (bytes_of n x) = x"
proof (induction n arbitrary: x)
  case (Suc n)
  have "le_val (bytes_of n (x div 256)) = x div 256" using Suc.prems by (intro Suc.IH) auto
  then show ?case by simp
qed simp

lemma bin_val_bits_of: "0 \<le> x \<Longrightarrow> x < 2 ^ n \<Longrightarrow> bin_val (bits_of n x) = x"
proof (induction n arbitrary: x)
  case (Suc n)
  have "bin_val (bits_of n (x div 2)) = x div 2" using Suc.prems by (intro Suc.IH) auto
  then show ?case by simp
qed simp

lemma bytes_of_le_val: "bytes_ok bs \<Longrightarrow> bytes_of (length bs) (le_val bs) = bs"
  using le_val_inj [of "bytes_of (length bs) (le_val bs)" bs] bytes_of_ok le_val_bytes_of le_val_bounds by simp

lemma u64_ok_bounds: "u64_ok w \<Longrightarrow> 0 \<le> le_val w \<and> le_val w < 2 ^ 64"
  using le_val_bounds [of w] by (simp add: u64_ok_def)

lemma uint_w64: "u64_ok w \<Longrightarrow> uint (w64 w) = le_val w"
  using u64_ok_bounds [of w] by (simp add: w64_def uint_word_of_int take_bit_eq_mod)

lemma w64_inj: "u64_ok a \<Longrightarrow> u64_ok b \<Longrightarrow> w64 a = w64 b \<Longrightarrow> a = b"
  using le_val_inj [of a b] uint_w64 by (metis u64_ok_def)

section \<open>Field arithmetic without wrap\<close>

lemma doc_field: "gnark_doc G \<Longrightarrow> field_doc G" and doc_uints: "gnark_doc G \<Longrightarrow> uints_doc G"
  by (simp_all add: gnark_doc_def)

lemma doc_p: "gnark_doc G \<Longrightarrow> 2 ^ 254 < g_p G"
  by (drule doc_field) (simp only: field_doc_def)

lemma doc_p_pos: "gnark_doc G \<Longrightarrow> 0 < g_p G"
  using doc_p [of G] by (rule less_trans [rotated]) simp_all

lemma fe_small: "gnark_doc G \<Longrightarrow> 0 \<le> x \<Longrightarrow> x < 2 ^ 254 \<Longrightarrow> fe G x"
  using doc_p [of G] unfolding fe_def by (meson less_trans)

lemma doc_ops:
  assumes "gnark_doc G" and "fe G x" and "fe G y"
  shows "g_add G x y = (x + y) mod g_p G" "g_sub G x y = (x - y) mod g_p G"
    "g_mul G x y = (x * y) mod g_p G" "g_eq G x y \<longleftrightarrow> x = y"
    "g_range G x n \<longleftrightarrow> x < 2 ^ n"
  using doc_field [OF assms(1)] assms(2,3) unfolding field_doc_def by blast+

lemma add_small: "gnark_doc G \<Longrightarrow> 0 \<le> x \<Longrightarrow> 0 \<le> y \<Longrightarrow> x + y < 2 ^ 254 \<Longrightarrow> g_add G x y = x + y"
proof -
  assume a: "gnark_doc G" "0 \<le> x" "0 \<le> y" "x + y < 2 ^ 254"
  then have f: "fe G x" "fe G y" "fe G (x + y)" by (auto intro!: fe_small)
  then show ?thesis using doc_ops(1) [OF a(1) f(1,2)] by (simp add: fe_def)
qed

lemma mul_small:
  assumes "gnark_doc G" and "fe G x" and "fe G y" and "x * y < 2 ^ 254"
  shows "g_mul G x y = x * y"
proof -
  have "fe G (x * y)" using assms by (intro fe_small) (auto simp: fe_def)
  then show ?thesis using doc_ops(3) [OF assms(1-3)] by (simp add: fe_def)
qed

lemma fe_add: "gnark_doc G \<Longrightarrow> fe G x \<Longrightarrow> fe G y \<Longrightarrow> fe G (g_add G x y)"
  and fe_mul: "gnark_doc G \<Longrightarrow> fe G x \<Longrightarrow> fe G y \<Longrightarrow> fe G (g_mul G x y)"
  and fe_sub: "gnark_doc G \<Longrightarrow> fe G x \<Longrightarrow> fe G y \<Longrightarrow> fe G (g_sub G x y)"
  by (simp_all add: doc_ops) (simp_all add: fe_def doc_p_pos)

lemma byte_fe: "gnark_doc G \<Longrightarrow> byte_ok b \<Longrightarrow> fe G b"
  by (rule fe_small) (auto simp: byte_ok_def intro: less_trans)

lemma doc_binary:
  assumes "gnark_doc G"
  shows "fe G x \<Longrightarrow> n < 254 \<Longrightarrow>
       g_to_binary G x n = Some bs \<longleftrightarrow> length bs = n \<and> bits_ok bs \<and> bin_val bs = x"
    "bits_ok bs \<Longrightarrow> length bs < 254 \<Longrightarrow> g_from_binary G bs = bin_val bs"
  using doc_field [OF assms] unfolding field_doc_def by blast+

lemma doc_words:
  assumes "gnark_doc G"
  shows "fe G x \<Longrightarrow> g_byte_of G x = Some b \<longleftrightarrow> b = x \<and> x < 256"
    "fe G x \<Longrightarrow> g_value_of G x = Some w \<longleftrightarrow> u64_ok w \<and> le_val w = x"
    "u64_ok w \<Longrightarrow> g_to_value G w = le_val w"
    "byte_ok a \<Longrightarrow> byte_ok b \<Longrightarrow> g_xor8 G a b = a XOR b"
    "u64_ok v \<Longrightarrow> u64_ok w \<Longrightarrow> u64_ok (g_xor G v w) \<and> w64 (g_xor G v w) = w64 v XOR w64 w"
    "u64_ok v \<Longrightarrow> u64_ok w \<Longrightarrow> u64_ok (g_and G v w) \<and> w64 (g_and G v w) = w64 v AND w64 w"
    "u64_ok w \<Longrightarrow> k < 64 \<Longrightarrow> \<exists>r. g_lrot G w k = Some r \<and> u64_ok r \<and> w64 r = word_rotl k (w64 w)"
    "length vs = length ws \<Longrightarrow> sum_list ws = 8 \<Longrightarrow> list_all (fe G) vs \<Longrightarrow>
        g_pack_lsb G vs ws = Some r \<longleftrightarrow> chunks_ok vs ws \<and> r = chunk_val vs ws"
  using doc_uints [OF assms] unfolding uints_doc_def by blast+

lemma doc_msb:
  assumes "gnark_doc G"
  shows "u64_ok (g_new_u64 G q) \<and> w64 (g_new_u64 G q) = q"
    "length bs = 8 \<Longrightarrow> g_pack_msb G bs = rev bs"
    "u64_ok w \<Longrightarrow> g_unpack_msb G w = rev w"
    "length bs = 8 \<Longrightarrow> g_pack_lsb64 G bs = bs"
    "u64_ok w \<Longrightarrow> g_unpack_lsb G w = w"
    "fe G x \<Longrightarrow> g_boolean G x \<longleftrightarrow> bit_ok x"
  using assms unfolding gnark_doc_def msb_doc_def by blast+

lemma doc_bitlen: "gnark_doc G \<Longrightarrow> g_bitlen G = 255"
  by (drule doc_field) (simp only: field_doc_def)

section \<open>Bytes and bits\<close>

text \<open>Eight bits per byte, both ways.\<close>

lemma bin_val_chunks:
  assumes "bits_ok bits" and "length bits = 8 * n"
  shows "le_val (map (\<lambda>k. bin_val (take 8 (drop (8 * k) bits))) [0..<n]) = bin_val bits \<and>
     bytes_ok (map (\<lambda>k. bin_val (take 8 (drop (8 * k) bits))) [0..<n])"
  using assms
proof (induction n arbitrary: bits)
  case (Suc n)
  let ?h = "take 8 bits" and ?t = "drop 8 bits"
  have ok: "bits_ok ?h" "bits_ok ?t" "length ?h = 8" "length ?t = 8 * n"
    using Suc.prems by (auto simp: bits_ok_iff dest: in_set_takeD in_set_dropD)
  have m: "map (\<lambda>k. bin_val (take 8 (drop (8 * k) bits))) [0..<Suc n] =
      bin_val ?h # map (\<lambda>k. bin_val (take 8 (drop (8 * k) ?t))) [0..<n]"
    by (simp add: upt_conv_Cons map_Suc_upt [symmetric] comp_def add.commute del: upt_Suc)
  have "bin_val bits = bin_val ?h + 2 ^ 8 * bin_val ?t"
    using bin_val_append [of ?h ?t] ok(3) by simp
  moreover have "byte_ok (bin_val ?h)" using bin_val_bounds [OF ok(1)] ok(3) by (simp add: byte_ok_def)
  ultimately show ?case using Suc.IH [OF ok(2,4)] unfolding m by simp
qed simp

lemma from_binary_chunks:
  assumes "gnark_doc G" and "bits_ok bits" and "length bits = 8 * n"
  shows "map (\<lambda>k. g_from_binary G (take 8 (drop (8 * k) bits))) [0..<n] =
     map (\<lambda>k. bin_val (take 8 (drop (8 * k) bits))) [0..<n]"
proof -
  have "bits_ok (take 8 (drop (8 * k) bits))" for k
    using assms(2) by (auto simp: bits_ok_iff dest!: in_set_takeD in_set_dropD)
  then show ?thesis using doc_binary(2) [OF assms(1)] by simp
qed

text \<open>Values of bytes.\<close>

definition u8s :: "int list \<Rightarrow> bytes" where "u8s bs = map word_of_int bs"

lemma length_u8s [simp]: "length (u8s bs) = length bs"
  by (simp add: u8s_def)

lemma u8s_append [simp]: "u8s (as @ bs) = u8s as @ u8s bs"
  by (simp add: u8s_def)

lemma u8s_take [simp]: "u8s (take n bs) = take n (u8s bs)" and u8s_drop [simp]: "u8s (drop n bs) = drop n (u8s bs)"
  by (simp_all add: u8s_def take_map drop_map)

end
