(* ===== verification/CkdGadgets.thy ===== *)
theory CkdGadgets
  imports GnarkApi
begin


text \<open>
  \<^verbatim>\<open>internal/circuit/ckd/adder.go\<close> and \<^verbatim>\<open>encoding.go\<close>: the byte-limb adders of one derivation
  step and the encodings of indices and scalars. For every advice of the prover an adder
  returns the one 32-byte encoding of the exact integer result, or fails; for the honest
  advice it succeeds exactly when that result fits.
\<close>

section \<open>Adders\<close>

definition splitByte :: "gnark \<Rightarrow> advice \<Rightarrow> site \<Rightarrow> int \<Rightarrow> nat \<Rightarrow> (int \<times> int) option" where
  "splitByte G adv s v carryBits =
     (let out = new_hint G adv SplitByteHint s [v] 2; lo = out ! 0; carry = out ! 1 in
      do { must (g_eq G v (g_add G lo (g_mul G carry 256)));
           must (g_range G lo 8);
           must (g_range G carry carryBits);
           Some (lo, carry) })"

text \<open>The loop both adders run over their columns: \<open>w k\<close> is the column sum without the carry.\<close>

definition columns :: "gnark \<Rightarrow> advice \<Rightarrow> nat \<Rightarrow> (nat \<Rightarrow> int) \<Rightarrow> nat \<Rightarrow> (int \<times> int list) option" where
  "columns G adv carryBits w n =
     foldm (\<lambda>(carry, out) k. do {
         (lo, c) \<leftarrow> splitByte G adv [k] (g_add G (w k) carry) carryBits;
         Some (c, out @ [lo]) }) (0, []) [0..<n]"

definition AddKL :: "gnark \<Rightarrow> advice \<Rightarrow> U8 list \<Rightarrow> U8 list \<Rightarrow> U8 list option" where
  "AddKL G adv kLpar zL =
     do { (carry, out) \<leftarrow> columns G adv 4
            (\<lambda>k. let z = (if k < 28 then zL ! k else 0) in g_add G (kLpar ! k) (g_mul G z 8)) 32;
          must (g_eq G carry 0);
          Some out }"

definition AddKR :: "gnark \<Rightarrow> advice \<Rightarrow> U8 list \<Rightarrow> U8 list \<Rightarrow> U8 list option" where
  "AddKR G adv kRpar zR =
     do { (carry, out) \<leftarrow> columns G adv 1 (\<lambda>k. g_add G (kRpar ! k) (zR ! k)) 32;
          Some out }"

text \<open>Relation and range checks leave one split, whatever the hint returned.\<close>

lemma splitByte_sound:
  assumes "gnark_doc G" and "0 \<le> v" "v < 2 ^ 200" and "cb \<le> 100" and "splitByte G adv s v cb = Some (lo, c)"
  shows "byte_ok lo \<and> 0 \<le> c \<and> c < 2 ^ cb \<and> v = lo + 256 * c"
proof -
  let ?lo = "ad_hint adv SplitByteHint s [v] 0 mod g_p G" and ?c = "ad_hint adv SplitByteHint s [v] 1 mod g_p G"
  have p: "0 < g_p G" using doc_p_pos [OF assms(1)] .
  have h: "lo = ?lo" "c = ?c" "g_eq G v (g_add G lo (g_mul G c 256))" "g_range G lo 8" "g_range G c cb"
    using assms(5) by (auto simp: splitByte_def Let_def new_hint_nth)
  have f: "fe G lo" "fe G c" using h(1,2) p by (simp_all add: fe_def)
  then have r: "lo < 256" "c < 2 ^ cb" using h(4,5) doc_ops(5) [OF assms(1)] by auto
  have "(2 :: int) ^ cb \<le> 2 ^ 100" using assms(4) by (rule power_increasing) simp
  then have c: "c < 2 ^ 100" using r(2) by linarith
  have f256: "fe G 256" and fv: "fe G v" using assms(1-3) by (auto intro!: fe_small)
  have pos: "0 \<le> lo" "0 \<le> c" using f by (simp_all add: fe_def)
  have "g_mul G c 256 = c * 256" using c by (intro mul_small [OF assms(1) f(2) f256]) simp
  then have "g_add G lo (g_mul G c 256) = lo + c * 256" using add_small [OF assms(1) pos(1), of "c * 256"] pos r c by simp
  moreover have "fe G (lo + c * 256)" using pos r c by (intro fe_small [OF assms(1)]) simp_all
  ultimately have "v = lo + c * 256" using h(3) doc_ops(4) [OF assms(1) fv] by simp
  then show ?thesis using pos r by (simp add: byte_ok_def)
qed

lemma splitByte_honest:
  assumes "gnark_doc G" and "honest adv" and "0 \<le> v" "v < 256 * 2 ^ cb" and "cb \<le> 100"
  shows "splitByte G adv s v cb = Some (v mod 256, v div 256)"
proof -
  have "(2 :: int) ^ cb \<le> 2 ^ 100" using assms(5) by (rule power_increasing) simp
  then have v: "v < 2 ^ 200" using assms(4) by simp
  have d: "v div 256 < 2 ^ cb" "0 \<le> v div 256" using assms(3,4) by auto
  have f: "fe G v" "fe G (v mod 256)" "fe G (v div 256)" "fe G 256"
    using v assms(3) by (auto intro!: fe_small [OF assms(1)])
  have m: "x mod g_p G = x" if "fe G x" for x using that by (simp add: fe_def)
  have "g_mul G (v div 256) 256 = v div 256 * 256" using v by (intro mul_small [OF assms(1) f(3,4)]) simp
  then have "g_add G (v mod 256) (g_mul G (v div 256) 256) = v"
    using add_small [OF assms(1), of "v mod 256" "v div 256 * 256"] v d(2) by simp
  then show ?thesis
    using assms(2) f d doc_ops(4,5) [OF assms(1)] m
    by (simp add: splitByte_def Let_def new_hint_nth honest_def run_hint_def)
qed

lemma sum_lessThan_snoc: "(\<Sum>k<Suc n. (f k :: int)) = (\<Sum>k<n. f k) + f n"
  by simp

lemma columns_Suc:
  "columns G adv cb w (Suc n) =
     do { (c, out) \<leftarrow> columns G adv cb w n;
          (lo, c') \<leftarrow> splitByte G adv [n] (g_add G (w n) c) cb;
          Some (c', out @ [lo]) }"
  by (auto simp: columns_def foldm_append intro!: bind_option_cong split: prod.splits)

lemma columns_sound:
  assumes "gnark_doc G" and "cb \<le> 8" and w: "\<And>k. k < n \<Longrightarrow> 0 \<le> w k \<and> w k + 2 ^ cb \<le> 256 * 2 ^ cb"
    and "columns G adv cb w n = Some (c, out)"
  shows "length out = n \<and> bytes_ok out \<and> 0 \<le> c \<and> c < 2 ^ cb \<and>
     le_val out + 256 ^ n * c = (\<Sum>k<n. 256 ^ k * w k)"
  using w assms(4)
proof (induction n arbitrary: c out)
  case 0
  then show ?case by (simp add: columns_def)
next
  case (Suc n)
  from Suc.prems(2) obtain c0 out0 lo where h: "columns G adv cb w n = Some (c0, out0)"
      "splitByte G adv [n] (g_add G (w n) c0) cb = Some (lo, c)" "out = out0 @ [lo]"
    by (auto simp: columns_Suc bind_eq_Some_conv split: prod.splits)
  have IH: "length out0 = n \<and> bytes_ok out0 \<and> 0 \<le> c0 \<and> c0 < 2 ^ cb \<and>
      le_val out0 + 256 ^ n * c0 = (\<Sum>k<n. 256 ^ k * w k)"
    using Suc.IH [OF _ h(1)] Suc.prems(1) less_SucI by blast
  have wn: "0 \<le> w n" "w n + 2 ^ cb \<le> 256 * 2 ^ cb" using Suc.prems(1) [of n] by simp_all
  have "(2 :: int) ^ cb \<le> 2 ^ 8" using assms(2) by (rule power_increasing) simp
  then have s: "w n + c0 < 2 ^ 100" "w n + c0 < 2 ^ 254" "w n + c0 < 2 ^ 200" using IH wn by auto
  have a: "g_add G (w n) c0 = w n + c0" using IH wn s by (intro add_small [OF assms(1)]) auto
  have sp: "byte_ok lo \<and> 0 \<le> c \<and> c < 2 ^ cb \<and> w n + c0 = lo + 256 * c"
    using splitByte_sound [OF assms(1) _ s(3) _ h(2) [unfolded a]] IH wn assms(2) by simp
  have "le_val out + 256 ^ Suc n * c = le_val out0 + 256 ^ n * (lo + 256 * c)"
    using IH by (simp add: h(3) le_val_append algebra_simps)
  also have "lo + 256 * c = w n + c0" using sp by simp
  also have "le_val out0 + 256 ^ n * (w n + c0) = le_val out0 + 256 ^ n * c0 + 256 ^ n * w n"
    by (simp add: algebra_simps)
  finally show ?case using IH sp by (simp add: h(3))
qed

lemma columns_honest:
  assumes "gnark_doc G" and "honest adv" and "cb \<le> 8"
    and w: "\<And>k. k < n \<Longrightarrow> 0 \<le> w k \<and> w k + 2 ^ cb \<le> 256 * 2 ^ cb"
  shows "\<exists>c out. columns G adv cb w n = Some (c, out)"
  using w
proof (induction n)
  case 0
  then show ?case by (simp add: columns_def)
next
  case (Suc n)
  then obtain c out where h: "columns G adv cb w n = Some (c, out)" using less_SucI by blast
  have b: "0 \<le> c \<and> c < 2 ^ cb" using columns_sound [OF assms(1,3) _ h] Suc.prems less_SucI by blast
  have wn: "0 \<le> w n" "w n + 2 ^ cb \<le> 256 * 2 ^ cb" using Suc.prems [of n] by simp_all
  have "(2 :: int) ^ cb \<le> 2 ^ 8" using assms(3) by (rule power_increasing) simp
  then have "g_add G (w n) c = w n + c" using b wn by (intro add_small [OF assms(1)]) auto
  moreover have "splitByte G adv [n] (w n + c) cb = Some ((w n + c) mod 256, (w n + c) div 256)"
    using b wn assms(3) by (intro splitByte_honest [OF assms(1,2)]) simp_all
  ultimately show ?case using h by (simp add: columns_Suc)
qed

lemma le_val_sum: "le_val bs = (\<Sum>k<length bs. 256 ^ k * bs ! k)"
proof (induction bs rule: rev_induct)
  case (snoc b bs)
  then show ?case by (simp add: le_val_append nth_append)
qed simp

lemma le_val_sum_take: "n = length bs \<Longrightarrow> n \<le> m \<Longrightarrow> le_val bs = (\<Sum>k<m. 256 ^ k * (if k < n then bs ! k else 0))"
proof (induction m)
  case (Suc m)
  then show ?case
    using le_val_sum [of bs] by (cases "n = Suc m") simp_all
qed (simp add: le_val_sum)

section \<open>What the adders compute\<close>

lemma AddKL_column:
  assumes "gnark_doc G" and "byte_ok x" and "byte_ok z"
  shows "g_add G x (g_mul G z 8) = x + 8 * z"
proof -
  have "fe G z" "fe G 8" using assms by (auto intro: byte_fe fe_small)
  then have "g_mul G z 8 = z * 8" using assms(3) by (intro mul_small [OF assms(1)]) (auto simp: byte_ok_def)
  then show ?thesis using assms add_small [OF assms(1), of x "z * 8"] by (simp add: byte_ok_def)
qed

lemma AddKL_sum:
  assumes "gnark_doc G" and "bytes_ok kL" "length kL = 32" and "bytes_ok zL" "length zL = 28"
  defines "w \<equiv> \<lambda>k. let z = (if k < 28 then zL ! k else 0) in g_add G (kL ! k) (g_mul G z 8)"
  shows "k < 32 \<Longrightarrow> 0 \<le> w k \<and> w k + 2 ^ 4 \<le> 256 * 2 ^ 4"
    "(\<Sum>k<32. 256 ^ k * w k) = le_val kL + 8 * le_val zL"
proof -
  have w: "w k = kL ! k + 8 * (if k < 28 then zL ! k else 0)" if "k < 32" for k
    unfolding w_def Let_def
    using that bytes_ok_nth [OF assms(2), of k] bytes_ok_nth [OF assms(4), of k] assms(3,5)
    by (intro AddKL_column [OF assms(1)]) (auto simp: byte_ok_def)
  show "k < 32 \<Longrightarrow> 0 \<le> w k \<and> w k + 2 ^ 4 \<le> 256 * 2 ^ 4"
    using w [of k] bytes_ok_nth [OF assms(2), of k] bytes_ok_nth [OF assms(4), of k] assms(3,5)
    by (auto simp: byte_ok_def split: if_splits)
  have "(\<Sum>k<32. 256 ^ k * w k) =
      (\<Sum>k<32. 256 ^ k * kL ! k + 8 * (256 ^ k * (if k < 28 then zL ! k else 0)))"
    by (rule sum.cong) (simp_all add: w algebra_simps)
  also have "\<dots> = (\<Sum>k<32. 256 ^ k * kL ! k) + 8 * (\<Sum>k<32. 256 ^ k * (if k < 28 then zL ! k else 0))"
    by (simp only: sum.distrib sum_distrib_left)
  also have "\<dots> = le_val kL + 8 * le_val zL"
    using le_val_sum [of kL] le_val_sum_take [of 28 zL 32] assms(3,5) by simp
  finally show "(\<Sum>k<32. 256 ^ k * w k) = le_val kL + 8 * le_val zL" .
qed

lemma AddKL_sound:
  assumes "gnark_doc G" and "bytes_ok kL" "length kL = 32" and "bytes_ok zL" "length zL = 28"
    and "AddKL G adv kL zL = Some out"
  shows "bytes_ok out \<and> length out = 32 \<and> le_val out = le_val kL + 8 * le_val zL"
proof -
  let ?w = "\<lambda>k. let z = (if k < 28 then zL ! k else 0) in g_add G (kL ! k) (g_mul G z 8)"
  obtain c where h: "columns G adv 4 ?w 32 = Some (c, out)" "g_eq G c 0"
    using assms(6) by (auto simp: AddKL_def bind_eq_Some_conv split: prod.splits)
  have s: "length out = 32 \<and> bytes_ok out \<and> 0 \<le> c \<and> c < 2 ^ 4 \<and>
      le_val out + 256 ^ 32 * c = (\<Sum>k<32. 256 ^ k * ?w k)"
    by (rule columns_sound [OF assms(1) _ AddKL_sum(1) [OF assms(1-5)] h(1)]) simp_all
  then have "fe G c" "fe G 0" using fe_small [OF assms(1)] by auto
  then have "c = 0" using h(2) doc_ops(4) [OF assms(1)] by blast
  then show ?thesis using s AddKL_sum(2) [OF assms(1-5)] by simp
qed

lemma AddKL_honest:
  assumes "gnark_doc G" and "bytes_ok kL" "length kL = 32" and "bytes_ok zL" "length zL = 28"
    and "honest adv" and "le_val kL + 8 * le_val zL < 2 ^ 256"
  shows "\<exists>out. AddKL G adv kL zL = Some out"
proof -
  let ?w = "\<lambda>k. let z = (if k < 28 then zL ! k else 0) in g_add G (kL ! k) (g_mul G z 8)"
  have "\<exists>c out. columns G adv 4 ?w 32 = Some (c, out)"
    by (rule columns_honest [OF assms(1,6) _ AddKL_sum(1) [OF assms(1-5)]]) simp_all
  then obtain c out where h: "columns G adv 4 ?w 32 = Some (c, out)" by blast
  have s: "length out = 32 \<and> bytes_ok out \<and> 0 \<le> c \<and> c < 2 ^ 4 \<and>
      le_val out + 256 ^ 32 * c = (\<Sum>k<32. 256 ^ k * ?w k)"
    by (rule columns_sound [OF assms(1) _ AddKL_sum(1) [OF assms(1-5)] h]) simp_all
  have "c = 0"
  proof (rule ccontr)
    assume "c \<noteq> 0"
    then have "256 ^ 32 * 1 \<le> 256 ^ 32 * c" using s by (intro mult_left_mono) auto
    moreover have "0 \<le> le_val out" using s le_val_bounds by blast
    ultimately have "256 ^ 32 \<le> le_val kL + 8 * le_val zL" using s AddKL_sum(2) [OF assms(1-5)] by linarith
    then show False using assms(7) by simp
  qed
  moreover have "g_eq G 0 0" using doc_ops(4) [OF assms(1) fe_small fe_small] assms(1) by simp
  ultimately show ?thesis using h by (simp add: AddKL_def)
qed

lemma AddKR_sum:
  assumes "gnark_doc G" and "bytes_ok kR" "length kR = 32" and "bytes_ok zR" "length zR = 32"
  shows "k < 32 \<Longrightarrow> 0 \<le> g_add G (kR ! k) (zR ! k) \<and> g_add G (kR ! k) (zR ! k) + 2 ^ 1 \<le> 256 * 2 ^ 1"
    "(\<Sum>k<32. 256 ^ k * g_add G (kR ! k) (zR ! k)) = le_val kR + le_val zR"
proof -
  have b: "byte_ok (kR ! k)" "byte_ok (zR ! k)" if "k < 32" for k
    using that assms by (auto intro: bytes_ok_nth)
  have w: "g_add G (kR ! k) (zR ! k) = kR ! k + zR ! k" if "k < 32" for k
    using b [OF that] by (intro add_small [OF assms(1)]) (auto simp: byte_ok_def)
  show "k < 32 \<Longrightarrow> 0 \<le> g_add G (kR ! k) (zR ! k) \<and> g_add G (kR ! k) (zR ! k) + 2 ^ 1 \<le> 256 * 2 ^ 1"
    using w [of k] b [of k] by (simp add: byte_ok_def)
  have "(\<Sum>k<32. 256 ^ k * g_add G (kR ! k) (zR ! k)) = (\<Sum>k<32. 256 ^ k * kR ! k + 256 ^ k * zR ! k)"
    by (rule sum.cong) (simp_all add: w algebra_simps)
  also have "\<dots> = le_val kR + le_val zR" using le_val_sum [of kR] le_val_sum [of zR] assms by (simp add: sum.distrib)
  finally show "(\<Sum>k<32. 256 ^ k * g_add G (kR ! k) (zR ! k)) = le_val kR + le_val zR" .
qed

lemma AddKR_sound:
  assumes "gnark_doc G" and "bytes_ok kR" "length kR = 32" and "bytes_ok zR" "length zR = 32"
    and "AddKR G adv kR zR = Some out"
  shows "bytes_ok out \<and> length out = 32 \<and> le_val out = (le_val kR + le_val zR) mod 2 ^ 256"
proof -
  obtain c where h: "columns G adv 1 (\<lambda>k. g_add G (kR ! k) (zR ! k)) 32 = Some (c, out)"
    using assms(6) by (auto simp: AddKR_def bind_eq_Some_conv split: prod.splits)
  have s: "length out = 32 \<and> bytes_ok out \<and> 0 \<le> c \<and> c < 2 ^ 1 \<and>
      le_val out + 256 ^ 32 * c = (\<Sum>k<32. 256 ^ k * g_add G (kR ! k) (zR ! k))"
    by (rule columns_sound [OF assms(1) _ AddKR_sum(1) [OF assms(1-5)] h(1)]) simp_all
  have e: "le_val kR + le_val zR = le_val out + 2 ^ 256 * c" using s AddKR_sum(2) [OF assms(1-5)] by simp
  have "0 \<le> le_val out \<and> le_val out < 2 ^ 256" using s le_val_bounds [of out] by simp
  then have "(le_val out + 2 ^ 256 * c) mod 2 ^ 256 = le_val out"
    unfolding mod_mult_self2 by (intro mod_pos_pos_trivial) simp_all
  then have "(le_val kR + le_val zR) mod 2 ^ 256 = le_val out" by (simp only: e)
  then show ?thesis using s by simp
qed

lemma AddKR_honest:
  assumes "gnark_doc G" and "bytes_ok kR" "length kR = 32" and "bytes_ok zR" "length zR = 32" and "honest adv"
  shows "\<exists>out. AddKR G adv kR zR = Some out"
proof -
  have "\<exists>c out. columns G adv 1 (\<lambda>k. g_add G (kR ! k) (zR ! k)) 32 = Some (c, out)"
    by (rule columns_honest [OF assms(1,6) _ AddKR_sum(1) [OF assms(1-5)]]) simp_all
  then show ?thesis by (auto simp: AddKR_def)
qed


section \<open>Indices and scalars\<close>

definition le32Var :: "gnark \<Rightarrow> int \<Rightarrow> bool \<Rightarrow> U8 list option" where
  "le32Var G idx hardened =
     do { bits \<leftarrow> g_to_binary G idx 31;
          let full = bits @ [if hardened then 1 else 0];
          Some (map (\<lambda>k. g_from_binary G (take 8 (drop (8 * k) full))) [0..<4]) }"

definition BytesToCanonBits :: "gnark \<Rightarrow> U8 list \<Rightarrow> int list option" where
  "BytesToCanonBits G b =
     do { bits \<leftarrow> mapm (\<lambda>k. g_to_binary G (b ! k) 8) [0..<32];
          let canon = concat bits;
          must (g_eq G (canon ! 255) 0);
          Some canon }"

definition CanonBitsToBytes :: "gnark \<Rightarrow> int list \<Rightarrow> U8 list" where
  "CanonBitsToBytes G bits = map (\<lambda>k. g_from_binary G (take 8 (drop (8 * k) bits))) [0..<32]"

definition AssertClampBits :: "gnark \<Rightarrow> int list \<Rightarrow> unit option" where
  "AssertClampBits G bits =
     do { must (g_eq G (bits ! 0) 0);
          must (g_eq G (bits ! 1) 0);
          must (g_eq G (bits ! 2) 0);
          must (g_eq G (bits ! 253) 0);
          must (g_eq G (bits ! 254) 1);
          must (g_eq G (bits ! 255) 0) }"

definition AssertClamp :: "gnark \<Rightarrow> U8 list \<Rightarrow> unit option" where
  "AssertClamp G kL = BytesToCanonBits G kL \<bind> AssertClampBits G"

lemma le32Var_sound:
  assumes "gnark_doc G" and "fe G idx"
  shows "le32Var G idx hardened = Some out \<longleftrightarrow>
     idx < 2 ^ 31 \<and> out = bytes_of 4 (idx + (if hardened then 2 ^ 31 else 0))"
proof -
  let ?h = "if hardened then 1 else 0 :: int"
  have out: "map (\<lambda>k. g_from_binary G (take 8 (drop (8 * k) (bits @ [?h])))) [0..<4] = bytes_of 4 (x + (if hardened then 2 ^ 31 else 0))"
    if b: "bits_ok bits" "length bits = 31" "bin_val bits = x" for bits x
  proof -
    let ?out = "map (\<lambda>k. bin_val (take 8 (drop (8 * k) (bits @ [?h])))) [0..<4]"
    have ok: "bits_ok (bits @ [?h])" "length (bits @ [?h]) = 8 * 4" using b by (simp_all add: bit_ok_def)
    have v: "bin_val (bits @ [?h]) = x + (if hardened then 2 ^ 31 else 0)" using b by (simp add: bin_val_append)
    have "?out = bytes_of (length ?out) (le_val ?out)" using bin_val_chunks [OF ok] bytes_of_le_val by metis
    then have "?out = bytes_of 4 (x + (if hardened then 2 ^ 31 else 0))" using bin_val_chunks [OF ok] v by simp
    with from_binary_chunks [OF assms(1) ok] show ?thesis by (rule trans)
  qed
  have tb: "g_to_binary G idx 31 = Some bs \<longleftrightarrow> length bs = 31 \<and> bits_ok bs \<and> bin_val bs = idx" for bs
    using doc_binary(1) [OF assms(1,2)] by simp
  show ?thesis
  proof
    assume "le32Var G idx hardened = Some out"
    then obtain bs where "g_to_binary G idx 31 = Some bs"
        "out = map (\<lambda>k. g_from_binary G (take 8 (drop (8 * k) (bs @ [?h])))) [0..<4]"
      by (auto simp: le32Var_def bind_eq_Some_conv)
    then show "idx < 2 ^ 31 \<and> out = bytes_of 4 (idx + (if hardened then 2 ^ 31 else 0))"
      using tb [of bs] out [of bs idx] bin_val_bounds [of bs] by auto
  next
    assume r: "idx < 2 ^ 31 \<and> out = bytes_of 4 (idx + (if hardened then 2 ^ 31 else 0))"
    have "0 \<le> idx" using assms(2) by (simp add: fe_def)
    then have b: "length (bits_of 31 idx) = 31 \<and> bits_ok (bits_of 31 idx) \<and> bin_val (bits_of 31 idx) = idx"
      using bits_of_ok bin_val_bits_of r by blast
    then have "g_to_binary G idx 31 = Some (bits_of 31 idx)" using tb by blast
    then show "le32Var G idx hardened = Some out"
      using r out [of "bits_of 31 idx" idx] b by (simp add: le32Var_def Let_def)
  qed
qed


text \<open>The canonical bits: they exist exactly below \<open>2^255\<close> and then are the bits of the value.\<close>

lemma concat_bits:
  assumes "list_all2 (\<lambda>b bs. length bs = 8 \<and> bits_ok bs \<and> bin_val bs = b) b bss"
  shows "bin_val (concat bss) = le_val b \<and> bits_ok (concat bss) \<and> length (concat bss) = 8 * length b"
  using assms by (induction rule: list_all2_induct) (auto simp: bin_val_append)

lemma canon_bits_mapm:
  assumes "gnark_doc G" and "bytes_ok b" and "length b = 32"
  shows "mapm (\<lambda>k. g_to_binary G (b ! k) 8) [0..<32] = Some bss \<longleftrightarrow>
     list_all2 (\<lambda>b bs. length bs = 8 \<and> bits_ok bs \<and> bin_val bs = b) b bss"
proof -
  have m: "b = map (\<lambda>k. b ! k) [0..<32]" using assms(3) map_nth [of b] by simp
  have "list_all2 (\<lambda>b bs. length bs = 8 \<and> bits_ok bs \<and> bin_val bs = b) b bss \<longleftrightarrow>
      list_all2 (\<lambda>k bs. length bs = 8 \<and> bits_ok bs \<and> bin_val bs = b ! k) [0..<32] bss"
    by (subst m) (simp add: list_all2_map1)
  also have "\<dots> \<longleftrightarrow> list_all2 (\<lambda>k bs. g_to_binary G (b ! k) 8 = Some bs) [0..<32] bss"
    unfolding list_all2_conv_all_nth
    using doc_binary(1) [OF assms(1) byte_fe [OF assms(1) bytes_ok_nth [OF assms(2)]]] assms(3) by auto
  finally show ?thesis unfolding mapm_Some ..
qed

lemma BytesToCanonBits_iff:
  assumes "gnark_doc G" and "bytes_ok b" and "length b = 32"
  shows "BytesToCanonBits G b = Some canon \<longleftrightarrow> le_val b < 2 ^ 255 \<and> canon = bits_of 256 (le_val b)"
proof -
  let ?x = "le_val b" and ?P = "\<lambda>b bs. length bs = 8 \<and> bits_ok bs \<and> bin_val bs = b"
  have x: "0 \<le> ?x" "?x < 2 ^ 256" using le_val_bounds [OF assms(2)] assms(3) by simp_all
  have uniq: "concat bss = bits_of 256 ?x" if "list_all2 ?P b bss" for bss
    using concat_bits [OF that] bits_of_ok [of 256 ?x] bin_val_bits_of [OF x] assms(3) by (intro bin_val_inj) simp_all
  have top: "bits_of 256 ?x ! 255 = ?x div 2 ^ 255 mod 2" by (simp add: bits_of_nth)
  have q: "0 \<le> ?x div 2 ^ 255" "?x div 2 ^ 255 < 2" using x by auto
  have z: "?x div 2 ^ 255 = 0 \<longleftrightarrow> ?x < 2 ^ 255"
    unfolding int_div_eq [OF zero_less_power [OF zero_less_numeral]] using x by simp
  have feq: "g_eq G (bits_of 256 ?x ! 255) 0 \<longleftrightarrow> ?x < 2 ^ 255"
  proof -
    have "bits_of 256 ?x ! 255 = ?x div 2 ^ 255" unfolding top by (rule mod_pos_pos_trivial) (rule q)+
    moreover have "fe G (?x div 2 ^ 255)" using q by (intro fe_small [OF assms(1)]) simp_all
    ultimately show ?thesis using doc_ops(4) [OF assms(1)] fe_small [OF assms(1)] z by simp
  qed
  have ex: "\<exists>bss. list_all2 ?P b bss"
  proof
    show "list_all2 ?P b (map (bits_of 8) b)"
      unfolding list_all2_map2 using assms(2) bits_of_ok bin_val_bits_of
      by (auto simp: list_all2_same bytes_ok_iff byte_ok_def)
  qed
  have "BytesToCanonBits G b = Some canon \<longleftrightarrow>
      (\<exists>bss. list_all2 ?P b bss \<and> g_eq G (concat bss ! 255) 0 \<and> canon = concat bss)"
    unfolding BytesToCanonBits_def Let_def
    using canon_bits_mapm [OF assms] by (auto simp: bind_eq_Some_conv)
  also have "\<dots> \<longleftrightarrow> ?x < 2 ^ 255 \<and> canon = bits_of 256 ?x"
  proof
    assume "\<exists>bss. list_all2 ?P b bss \<and> g_eq G (concat bss ! 255) 0 \<and> canon = concat bss"
    then obtain bss where b: "list_all2 ?P b bss" "g_eq G (concat bss ! 255) 0" "canon = concat bss" by blast
    then show "?x < 2 ^ 255 \<and> canon = bits_of 256 ?x" using feq unfolding uniq [OF b(1)] by blast
  next
    assume r: "?x < 2 ^ 255 \<and> canon = bits_of 256 ?x"
    obtain bss where b: "list_all2 ?P b bss" using ex by blast
    then show "\<exists>bss. list_all2 ?P b bss \<and> g_eq G (concat bss ! 255) 0 \<and> canon = concat bss"
      using r feq uniq [OF b] by (intro exI [of _ bss]) simp
  qed
  finally show ?thesis .
qed

lemma CanonBitsToBytes_inverse:
  assumes "gnark_doc G" and "bytes_ok b" and "length b = 32" and "BytesToCanonBits G b = Some canon"
  shows "CanonBitsToBytes G canon = b"
proof -
  have c: "canon = bits_of 256 (le_val b)" "0 \<le> le_val b" "le_val b < 2 ^ 256"
    using assms BytesToCanonBits_iff [OF assms(1-3)] le_val_bounds [OF assms(2)] by auto
  have ok: "bits_ok canon" "length canon = 8 * 32" using bits_of_ok [of 256 "le_val b"] c(1) by simp_all
  let ?out = "map (\<lambda>k. bin_val (take 8 (drop (8 * k) canon))) [0..<32]"
  have "?out = b"
    using bin_val_chunks [OF ok] bin_val_bits_of [OF c(2,3)] c(1) assms(2,3) by (intro le_val_inj) simp_all
  then show ?thesis unfolding CanonBitsToBytes_def from_binary_chunks [OF assms(1) ok] .
qed

text \<open>The clamp as a range: a multiple of eight between \<open>2^254\<close> and \<open>2^254 + 2^253\<close>.\<close>

definition clamped :: "int \<Rightarrow> bool" where
  "clamped x \<longleftrightarrow> x mod 8 = 0 \<and> 2 ^ 254 \<le> x \<and> x < 2 ^ 254 + 2 ^ 253"

lemma low_bits: "x div 2 ^ 0 mod 2 = 0 \<and> x div 2 ^ 1 mod 2 = 0 \<and> x div 2 ^ 2 mod 2 = (0 :: int) \<longleftrightarrow> x mod 8 = 0"
  by simp presburger

lemma high_bits:
  assumes "0 \<le> x" and "x < (2 :: int) ^ 256"
  shows "x div 2 ^ 253 mod 2 = 0 \<and> x div 2 ^ 254 mod 2 = 1 \<and> x div 2 ^ 255 mod 2 = 0 \<longleftrightarrow>
     2 ^ 254 \<le> x \<and> x < 2 ^ 254 + 2 ^ 253"
proof -
  define q where "q = x div 2 ^ 253"
  have d: "x div 2 ^ 254 = q div 2" "x div 2 ^ 255 = q div 4"
    using zdiv_zmult2_eq [of 2 x "2 ^ 253"] zdiv_zmult2_eq [of 4 x "2 ^ 253"] by (simp_all add: q_def)
  have q: "0 \<le> q" "q < 8" using assms by (auto simp: q_def)
  have "2 ^ 254 \<le> x \<and> x < 2 ^ 254 + 2 ^ 253 \<longleftrightarrow> q = 2"
  proof -
    have "q = 2 \<longleftrightarrow> 2 * 2 ^ 253 \<le> x \<and> x < 3 * 2 ^ 253"
      unfolding q_def int_div_eq [OF zero_less_power [OF zero_less_numeral]] by simp
    then show ?thesis by simp
  qed
  moreover have "q mod 2 = 0 \<and> q div 2 mod 2 = 1 \<and> q div 4 mod 2 = 0 \<longleftrightarrow> q = 2" using q by presburger
  ultimately show ?thesis unfolding d q_def by simp
qed

lemma AssertClamp_iff:
  assumes "gnark_doc G" and "bytes_ok b" and "length b = 32"
  shows "AssertClamp G b = Some () \<longleftrightarrow> clamped (le_val b)"
proof -
  let ?x = "le_val b"
  have x: "0 \<le> ?x" "?x < 2 ^ 256" using le_val_bounds [OF assms(2)] assms(3) by simp_all
  have eq: "g_eq G (bits_of 256 ?x ! i) c \<longleftrightarrow> ?x div 2 ^ i mod 2 = c" if "i < 256" "c \<in> {0, 1}" for i c
  proof -
    have "fe G (?x div 2 ^ i mod 2)" "fe G c" using that(2) by (auto intro!: fe_small [OF assms(1)] simp: less_trans [OF pos_mod_bound])
    then show ?thesis using doc_ops(4) [OF assms(1)] that(1) by (simp add: bits_of_nth)
  qed
  have "AssertClamp G b = Some () \<longleftrightarrow> ?x < 2 ^ 255 \<and>
      (?x div 2 ^ 0 mod 2 = 0 \<and> ?x div 2 ^ 1 mod 2 = 0 \<and> ?x div 2 ^ 2 mod 2 = 0) \<and>
      (?x div 2 ^ 253 mod 2 = 0 \<and> ?x div 2 ^ 254 mod 2 = 1 \<and> ?x div 2 ^ 255 mod 2 = 0)"
    unfolding AssertClamp_def bind_eq_Some_conv BytesToCanonBits_iff [OF assms] AssertClampBits_def
    by (simp only: ex_simps simp_thms must_bind must_Some eq insertI1 insertI2 singletonI) (auto simp: eq)
  also have "\<dots> \<longleftrightarrow> clamped ?x"
    unfolding low_bits high_bits [OF x] clamped_def by auto
  finally show ?thesis .
qed

end
