(* ===== verification/Sha512.thy ===== *)
theory Sha512
  imports GnarkApi
begin

text \<open>
  SHA-512 and HMAC-SHA512 of Go's \<^verbatim>\<open>crypto/sha512\<close> and \<^verbatim>\<open>crypto/hmac\<close> (FIPS 180-4, RFC 2104) on
  bytes: the reference (\<^verbatim>\<open>internal/circuit/sha512/sha/ref.go\<close>) that the circuit is compared
  with. The round constants and initial values are the literals of the gadget; \<^verbatim>\<open>ShaConstants\<close>
  checks them against their definition.
\<close>

section \<open>Constants\<close>

definition K512 :: "u64 list" where
  "K512 = concat
   [[0x428a2f98d728ae22, 0x7137449123ef65cd, 0xb5c0fbcfec4d3b2f, 0xe9b5dba58189dbbc],
    [0x3956c25bf348b538, 0x59f111f1b605d019, 0x923f82a4af194f9b, 0xab1c5ed5da6d8118],
    [0xd807aa98a3030242, 0x12835b0145706fbe, 0x243185be4ee4b28c, 0x550c7dc3d5ffb4e2],
    [0x72be5d74f27b896f, 0x80deb1fe3b1696b1, 0x9bdc06a725c71235, 0xc19bf174cf692694],
    [0xe49b69c19ef14ad2, 0xefbe4786384f25e3, 0x0fc19dc68b8cd5b5, 0x240ca1cc77ac9c65],
    [0x2de92c6f592b0275, 0x4a7484aa6ea6e483, 0x5cb0a9dcbd41fbd4, 0x76f988da831153b5],
    [0x983e5152ee66dfab, 0xa831c66d2db43210, 0xb00327c898fb213f, 0xbf597fc7beef0ee4],
    [0xc6e00bf33da88fc2, 0xd5a79147930aa725, 0x06ca6351e003826f, 0x142929670a0e6e70],
    [0x27b70a8546d22ffc, 0x2e1b21385c26c926, 0x4d2c6dfc5ac42aed, 0x53380d139d95b3df],
    [0x650a73548baf63de, 0x766a0abb3c77b2a8, 0x81c2c92e47edaee6, 0x92722c851482353b],
    [0xa2bfe8a14cf10364, 0xa81a664bbc423001, 0xc24b8b70d0f89791, 0xc76c51a30654be30],
    [0xd192e819d6ef5218, 0xd69906245565a910, 0xf40e35855771202a, 0x106aa07032bbd1b8],
    [0x19a4c116b8d2d0c8, 0x1e376c085141ab53, 0x2748774cdf8eeb99, 0x34b0bcb5e19b48a8],
    [0x391c0cb3c5c95a63, 0x4ed8aa4ae3418acb, 0x5b9cca4f7763e373, 0x682e6ff3d6b2b8a3],
    [0x748f82ee5defb2fc, 0x78a5636f43172f60, 0x84c87814a1f0ab72, 0x8cc702081a6439ec],
    [0x90befffa23631e28, 0xa4506cebde82bde9, 0xbef9a3f7b2c67915, 0xc67178f2e372532b],
    [0xca273eceea26619c, 0xd186b8c721c0c207, 0xeada7dd6cde0eb1e, 0xf57d4f7fee6ed178],
    [0x06f067aa72176fba, 0x0a637dc5a2c898a6, 0x113f9804bef90dae, 0x1b710b35131c471b],
    [0x28db77f523047d84, 0x32caab7b40c72493, 0x3c9ebe0a15c9bebc, 0x431d67c49c100d4c],
    [0x4cc5d4becb3e42b6, 0x597f299cfc657e2a, 0x5fcb6fab3ad6faec, 0x6c44198c4a475817]]"

definition seed512 :: "u64 list" where
  "seed512 =
   [0x6a09e667f3bcc908, 0xbb67ae8584caa73b, 0x3c6ef372fe94f82b, 0xa54ff53a5f1d36f1,
    0x510e527fade682d1, 0x9b05688c2b3e6c1f, 0x1f83d9abfb41bd6b, 0x5be0cd19137e2179]"

section \<open>The compression function\<close>

definition ch :: "u64 \<Rightarrow> u64 \<Rightarrow> u64 \<Rightarrow> u64" where
  "ch x y z = (x AND y) XOR (NOT x AND z)"

definition maj :: "u64 \<Rightarrow> u64 \<Rightarrow> u64 \<Rightarrow> u64" where
  "maj x y z = (x AND y) XOR (x AND z) XOR (y AND z)"

definition big_sigma0 :: "u64 \<Rightarrow> u64" where
  "big_sigma0 x = word_rotr 28 x XOR word_rotr 34 x XOR word_rotr 39 x"

definition big_sigma1 :: "u64 \<Rightarrow> u64" where
  "big_sigma1 x = word_rotr 14 x XOR word_rotr 18 x XOR word_rotr 41 x"

definition small_sigma0 :: "u64 \<Rightarrow> u64" where
  "small_sigma0 x = word_rotr 1 x XOR word_rotr 8 x XOR drop_bit 7 x"

definition small_sigma1 :: "u64 \<Rightarrow> u64" where
  "small_sigma1 x = word_rotr 19 x XOR word_rotr 61 x XOR drop_bit 6 x"

definition sched_step :: "u64 list \<Rightarrow> nat \<Rightarrow> u64 list" where
  "sched_step w t = w @ [small_sigma1 (w ! (t - 2)) + w ! (t - 7) + small_sigma0 (w ! (t - 15)) + w ! (t - 16)]"

definition sha_schedule :: "u64 list \<Rightarrow> u64 list" where
  "sha_schedule m = foldl sched_step m [16..<80]"

type_synonym 'a regs = "'a \<times> 'a \<times> 'a \<times> 'a \<times> 'a \<times> 'a \<times> 'a \<times> 'a"

definition sha_round :: "u64 list \<Rightarrow> u64 regs \<Rightarrow> nat \<Rightarrow> u64 regs" where
  "sha_round w = (\<lambda>(a, b, c, d, e, f, g, h) t.
     let t1 = h + big_sigma1 e + ch e f g + K512 ! t + w ! t;
         t2 = big_sigma0 a + maj a b c
     in (t1 + t2, a, b, c, d + t1, e, f, g))"

definition regs :: "'a list \<Rightarrow> 'a regs" where
  "regs s = (s ! 0, s ! 1, s ! 2, s ! 3, s ! 4, s ! 5, s ! 6, s ! 7)"

definition unregs :: "'a regs \<Rightarrow> 'a list" where
  "unregs = (\<lambda>(a, b, c, d, e, f, g, h). [a, b, c, d, e, f, g, h])"

definition sha_compress :: "u64 list \<Rightarrow> u64 list \<Rightarrow> u64 list" where
  "sha_compress s m = map2 (+) s (unregs (foldl (sha_round (sha_schedule m)) (regs s) [0..<80]))"

section \<open>Padding and the whole hash\<close>

definition word_be :: "bytes \<Rightarrow> u64" where
  "word_be bs = foldl (\<lambda>a b. 256 * a + ucast b) 0 bs"

definition be64 :: "u64 \<Rightarrow> bytes" where
  "be64 w = map (\<lambda>i. ucast (drop_bit (56 - 8 * i) w)) [0..<8]"

definition chunks :: "nat \<Rightarrow> 'a list \<Rightarrow> 'a list list" where
  "chunks n xs = map (\<lambda>i. take n (drop (n * i) xs)) [0..<length xs div n]"

text \<open>The message, the bit 1, the fewest zero bits that leave room for the 128-bit length.\<close>

definition sha_pad :: "bytes \<Rightarrow> bytes" where
  "sha_pad msg =
     msg @ [0x80] @ replicate (nat ((111 - int (length msg)) mod 128)) 0 @
     replicate 8 0 @ be64 (of_nat (8 * length msg))"

definition sha512 :: "bytes \<Rightarrow> bytes" where
  "sha512 msg =
     concat (map be64 (foldl (\<lambda>s block. sha_compress s (map word_be (chunks 8 block))) seed512
       (chunks 128 (sha_pad msg))))"

section \<open>HMAC\<close>

definition hmac_key :: "bytes \<Rightarrow> bytes" where
  "hmac_key key = (let k = (if length key > 128 then sha512 key else key) in k @ replicate (128 - length k) 0)"

definition hmac_sha512 :: "bytes \<Rightarrow> bytes \<Rightarrow> bytes" where
  "hmac_sha512 key msg =
     sha512 (map (\<lambda>b. b XOR 0x5c) (hmac_key key) @ sha512 (map (\<lambda>b. b XOR 0x36) (hmac_key key) @ msg))"

end
