(* ===== verification/ShaWords.thy ===== *)
theory ShaWords
  imports Sha512
begin


text \<open>
  \<^verbatim>\<open>internal/circuit/sha512/sha/add64.go\<close>, the sigma functions of \<^verbatim>\<open>gadget.go\<close> and
  \<^verbatim>\<open>internal/circuit/u64util/rotate.go\<close>: 64-bit words as eight constrained bytes. Each
  gadget is shown to compute its operation on \<open>u64\<close> for every advice (soundness), and
  to succeed for the honest advice (completeness).
\<close>

section \<open>Addition\<close>

definition NativeSum64 :: "gnark \<Rightarrow> U64 list \<Rightarrow> int option" where
  "NativeSum64 G words =
     (case map (g_to_value G) words of [] \<Rightarrow> None | v # vs \<Rightarrow> Some (foldl (g_add G) v vs))"

definition twoTo64 :: int where "twoTo64 = 2 ^ 64"

definition Materialize64 :: "gnark \<Rightarrow> advice \<Rightarrow> int \<Rightarrow> nat \<Rightarrow> U64 option" where
  "Materialize64 G adv acc hiBits =
     (if hiBits < 1 \<or> 64 + hiBits \<ge> g_bitlen G then None
      else let out = new_hint G adv PartitionHint [] [acc] 2; lo = out ! 0; hi = out ! 1 in
        do { must (g_eq G acc (g_add G lo (g_mul G twoTo64 hi)));
             must (g_range G hi hiBits);
             g_value_of G lo })"

definition Add64 :: "gnark \<Rightarrow> advice \<Rightarrow> nat \<Rightarrow> U64 list \<Rightarrow> U64 option" where
  "Add64 G adv hiBits words = NativeSum64 G words \<bind> (\<lambda>acc. Materialize64 G adv acc hiBits)"

lemma foldl_add_small:
  assumes "gnark_doc G" and "\<forall>x \<in> set xs. 0 \<le> x" and "0 \<le> v" and "v + sum_list xs < 2 ^ 254"
  shows "foldl (g_add G) v xs = v + sum_list xs"
  using assms(2-4)
proof (induction xs arbitrary: v)
  case (Cons x xs)
  have p: "0 \<le> x" "\<forall>x \<in> set xs. 0 \<le> x" using Cons.prems(1) by simp_all
  then have "0 \<le> sum_list xs" by (induction xs) simp_all
  then have "g_add G v x = v + x" using Cons.prems p by (intro add_small [OF assms(1)]) simp_all
  moreover have "foldl (g_add G) (v + x) xs = v + x + sum_list xs"
    using Cons.prems p by (intro Cons.IH) simp_all
  ultimately show ?case by simp
qed simp

lemma sum_words_bound:
  assumes "\<forall>w \<in> set words. u64_ok w"
  shows "0 \<le> (\<Sum>w \<leftarrow> words. le_val w) \<and> (\<Sum>w \<leftarrow> words. le_val w) \<le> int (length words) * (2 ^ 64 - 1)"
  using assms
proof (induction words)
  case (Cons w ws)
  then show ?case using u64_ok_bounds [of w] by (auto simp: algebra_simps)
qed simp

lemma NativeSum64_value:
  assumes "gnark_doc G" and "\<forall>w \<in> set words. u64_ok w" and "words \<noteq> []" and "length words \<le> 16"
  shows "NativeSum64 G words = Some (\<Sum>w \<leftarrow> words. le_val w)"
proof -
  obtain w ws where w: "words = w # ws" using assms(3) by (cases words) auto
  have v: "map (g_to_value G) words = map le_val words" using assms(2) doc_words(3) [OF assms(1)] by simp
  have b: "(\<Sum>w \<leftarrow> words. le_val w) \<le> 16 * 2 ^ 64"
  proof -
    have "int (length words) * (2 ^ 64 - 1) \<le> 16 * (2 ^ 64 - 1)" using assms(4) by (intro mult_right_mono) simp_all
    then show ?thesis using sum_words_bound [OF assms(2)] by simp
  qed
  have "foldl (g_add G) (le_val w) (map le_val ws) = le_val w + (\<Sum>w \<leftarrow> ws. le_val w)"
    using assms(2) b w u64_ok_bounds by (intro foldl_add_small [OF assms(1)]) auto
  then show ?thesis unfolding NativeSum64_def v by (simp add: w)
qed

lemma Materialize64_sound:
  assumes "gnark_doc G" and "fe G acc" and "hiBits \<le> 16" and "Materialize64 G adv acc hiBits = Some out"
  shows "u64_ok out \<and> w64 out = word_of_int acc \<and> acc < 2 ^ (64 + hiBits)"
proof -
  obtain lo hi where d: "lo = ad_hint adv PartitionHint [] [acc] 0 mod g_p G" "hi = ad_hint adv PartitionHint [] [acc] 1 mod g_p G"
    by blast
  have h: "g_eq G acc (g_add G lo (g_mul G twoTo64 hi))" "g_range G hi hiBits" "g_value_of G lo = Some out"
    using assms(4) by (auto simp: d Materialize64_def Let_def new_hint_nth split: if_splits)
  have f: "fe G lo" "fe G hi" using doc_p_pos [OF assms(1)] by (simp_all add: fe_def d)
  have out: "u64_ok out" "le_val out = lo" using h(3) doc_words(2) [OF assms(1) f(1)] by simp_all
  have lo: "0 \<le> lo" "lo < 2 ^ 64" using u64_ok_bounds [OF out(1)] out(2) by simp_all
  have hi: "0 \<le> hi" "hi < 2 ^ hiBits" using h(2) doc_ops(5) [OF assms(1) f(2)] f(2) by (auto simp: fe_def)
  have "(2 :: int) ^ hiBits \<le> 2 ^ 16" using assms(3) by (rule power_increasing) simp
  then have hi': "hi < 2 ^ 16" using hi by linarith
  have f64: "fe G twoTo64" by (intro fe_small [OF assms(1)]) (simp_all add: twoTo64_def)
  have "g_mul G twoTo64 hi = twoTo64 * hi" using hi' by (intro mul_small [OF assms(1) f64 f(2)]) (simp add: twoTo64_def)
  then have a: "g_add G lo (g_mul G twoTo64 hi) = lo + 2 ^ 64 * hi"
    using add_small [OF assms(1) lo(1), of "2 ^ 64 * hi"] lo hi hi' by (simp add: twoTo64_def)
  have "fe G (lo + 2 ^ 64 * hi)" using lo hi hi' by (intro fe_small [OF assms(1)]) simp_all
  then have s: "acc = lo + 2 ^ 64 * hi" using h(1) doc_ops(4) [OF assms(1,2)] a by simp
  have m: "acc mod 2 ^ 64 = lo" using lo unfolding s by simp
  have "(word_of_int acc :: u64) = word_of_int (acc mod 2 ^ 64)"
    by (simp add: word_of_int_eq_iff take_bit_eq_mod)
  then have "w64 out = word_of_int acc" by (simp only: w64_def out(2) m)
  moreover have "acc < 2 ^ (64 + hiBits)"
  proof -
    have "2 ^ 64 * (hi + 1) \<le> (2 :: int) ^ 64 * 2 ^ hiBits" using hi by (intro mult_left_mono) simp_all
    then show ?thesis using lo unfolding s by (simp add: power_add)
  qed
  ultimately show ?thesis using out(1) by blast
qed

lemma Materialize64_honest:
  assumes "gnark_doc G" and "honest adv" and "0 \<le> acc" "acc < 2 ^ (64 + hiBits)" and "1 \<le> hiBits" "hiBits \<le> 16"
  shows "\<exists>out. Materialize64 G adv acc hiBits = Some out"
proof -
  let ?lo = "acc mod 2 ^ 64" and ?hi = "acc div 2 ^ 64"
  have "(2 :: int) ^ (64 + hiBits) \<le> 2 ^ 80" using assms(6) by (intro power_increasing) simp_all
  then have s: "acc < 2 ^ 80" using assms(4) by linarith
  have hi: "0 \<le> ?hi" "?hi < 2 ^ hiBits" using assms(3,4) by (auto simp: power_add)
  have f: "fe G acc" "fe G ?lo" "fe G ?hi" "fe G twoTo64"
    using s assms(3) by (auto intro!: fe_small [OF assms(1)] simp: twoTo64_def)
  have m: "x mod g_p G = x" if "fe G x" for x using that by (simp add: fe_def)
  have "g_mul G twoTo64 ?hi = 2 ^ 64 * ?hi"
    using s mul_small [OF assms(1) f(4,3)] by (simp add: twoTo64_def)
  then have a: "g_add G ?lo (g_mul G twoTo64 ?hi) = acc"
    using add_small [OF assms(1), of ?lo "2 ^ 64 * ?hi"] s hi(1) by simp
  have "u64_ok (bytes_of 8 ?lo) \<and> le_val (bytes_of 8 ?lo) = ?lo"
    using bytes_of_ok [of 8 ?lo] le_val_bytes_of [of ?lo 8] by (simp add: u64_ok_def)
  then have v: "g_value_of G ?lo = Some (bytes_of 8 ?lo)" using doc_words(2) [OF assms(1) f(2)] by blast
  have "\<not> (hiBits < 1 \<or> 64 + hiBits \<ge> g_bitlen G)" using assms(5,6) doc_bitlen [OF assms(1)] by simp
  moreover have "ad_hint adv PartitionHint [] [acc] 0 mod g_p G = ?lo" "ad_hint adv PartitionHint [] [acc] 1 mod g_p G = ?hi"
    using assms(2) m f by (simp_all add: honest_def run_hint_def)
  moreover have "g_range G ?hi hiBits" "g_eq G acc acc"
    using hi(2) doc_ops(5) [OF assms(1) f(3) f(3)] doc_ops(4) [OF assms(1) f(1) f(1)] by auto
  ultimately show ?thesis using a v by (simp add: Materialize64_def Let_def new_hint_nth)
qed

lemma word_of_int_sum_list: "(word_of_int (\<Sum>x \<leftarrow> xs. f x) :: 'a::len word) = (\<Sum>x \<leftarrow> xs. word_of_int (f x))"
  by (induction xs) (simp_all add: wi_hom_add [symmetric])

lemma Add64_sound:
  assumes "gnark_doc G" and "\<forall>w \<in> set words. u64_ok w" and "words \<noteq> []" "length words \<le> 16" and "hiBits \<le> 16"
    and "Add64 G adv hiBits words = Some out"
  shows "u64_ok out \<and> w64 out = (\<Sum>w \<leftarrow> words. w64 w)"
proof -
  let ?s = "\<Sum>w \<leftarrow> words. le_val w"
  have "int (length words) * (2 ^ 64 - 1) \<le> 16 * (2 ^ 64 - 1)" using assms(4) by (intro mult_right_mono) simp_all
  then have "fe G ?s" using sum_words_bound [OF assms(2)] by (intro fe_small [OF assms(1)]) simp_all
  then have "u64_ok out \<and> w64 out = word_of_int ?s"
    using Materialize64_sound [OF assms(1) _ assms(5)] assms(6) NativeSum64_value [OF assms(1-4)]
    by (simp add: Add64_def)
  then show ?thesis by (simp add: word_of_int_sum_list w64_def)
qed

lemma Add64_honest:
  assumes "gnark_doc G" and "honest adv" and "\<forall>w \<in> set words. u64_ok w" and "words \<noteq> []" "length words \<le> 16"
    and "length words \<le> 2 ^ hiBits" "1 \<le> hiBits" "hiBits \<le> 16"
  shows "\<exists>out. Add64 G adv hiBits words = Some out"
proof -
  let ?s = "\<Sum>w \<leftarrow> words. le_val w"
  have l: "int (length words) \<le> 2 ^ hiBits" using assms(6) by (metis of_nat_le_iff of_nat_numeral of_nat_power)
  have "int (length words) * (2 ^ 64 - 1) \<le> 2 ^ hiBits * (2 ^ 64 - 1)" using l by (intro mult_right_mono) simp_all
  also have "\<dots> < 2 ^ hiBits * (2 ^ 64 :: int)" by (intro mult_strict_left_mono) simp_all
  also have "\<dots> = 2 ^ (64 + hiBits)" by (simp add: power_add)
  finally have "?s < 2 ^ (64 + hiBits)" "0 \<le> ?s" using sum_words_bound [OF assms(3)] by simp_all
  then have "\<exists>out. Materialize64 G adv ?s hiBits = Some out"
    using Materialize64_honest [OF assms(1,2)] assms(7,8) by blast
  then show ?thesis using NativeSum64_value [OF assms(1,3-5)] by (simp add: Add64_def)
qed

section \<open>Byte rotation\<close>

text \<open>\<^verbatim>\<open>RotBytes\<close>; Go's \<^verbatim>\<open>/\<close> and \<^verbatim>\<open>%\<close> truncate toward zero. A shift that is no multiple of eight panics.\<close>

definition RotBytes :: "U64 \<Rightarrow> int \<Rightarrow> U64 option" where
  "RotBytes word shift =
     (if shift mod 8 \<noteq> 0 then None
      else let n = int (length word);
               q = sgn shift * (\<bar>shift\<bar> div 8);
               r = sgn q * (\<bar>q\<bar> mod n);
               byteShift = (if r < 0 then r + n else r)
           in Some (fold (\<lambda>i rotated. rotated[nat ((int i + byteShift) mod n) := word ! i]) [0..<length word]
                (replicate (length word) 0)))"

text \<open>The bits of a word of bytes.\<close>

lemma le_val_concat_bit: "byte_ok b \<Longrightarrow> le_val (b # bs) = concat_bit 8 b (le_val bs)"
  by (simp add: concat_bit_eq byte_ok_def push_bit_eq_mult take_bit_eq_mod)

lemma bit_le_val:
  "bytes_ok bs \<Longrightarrow> bit (le_val bs) n \<longleftrightarrow> n < 8 * length bs \<and> bit (bs ! (n div 8)) (n mod 8)"
proof (induction bs arbitrary: n)
  case (Cons b bs)
  have b: "byte_ok b" "bytes_ok bs" using Cons.prems by simp_all
  show ?case
  proof (cases "n < 8")
    case True
    then show ?thesis by (simp only: le_val_concat_bit [OF b(1)] bit_concat_bit_iff) simp
  next
    case False
    then obtain m where m: "n = m + 8" using le_Suc_ex [of 8 n] by (auto simp: add.commute)
    have "bit (le_val (b # bs)) n \<longleftrightarrow> bit (le_val bs) m"
      by (simp only: le_val_concat_bit [OF b(1)] bit_concat_bit_iff) (simp add: m)
    also have "\<dots> \<longleftrightarrow> m < 8 * length bs \<and> bit (bs ! (m div 8)) (m mod 8)" by (rule Cons.IH [OF b(2)])
    also have "\<dots> \<longleftrightarrow> n < 8 * length (b # bs) \<and> bit ((b # bs) ! (n div 8)) (n mod 8)"
    proof -
      have "n div 8 = Suc (m div 8)" "n mod 8 = m mod 8" by (simp_all add: m)
      then show ?thesis by (simp add: m)
    qed
    finally show ?thesis .
  qed
qed simp

lemma bit_w64: "u64_ok w \<Longrightarrow> bit (w64 w) n \<longleftrightarrow> n < 64 \<and> bit (w ! (n div 8)) (n mod 8)"
  unfolding w64_def bit_word_of_int_iff u64_ok_def using bit_le_val [of w n] by auto

text \<open>Words that agree byte by byte.\<close>

lemma w64_eqI:
  assumes "u64_ok w" and "\<And>i j. i < 8 \<Longrightarrow> j < 8 \<Longrightarrow> bit (w ! i) j \<longleftrightarrow> bit x (8 * i + j)"
  shows "w64 w = x"
proof (rule bit_word_eqI)
  fix n assume "n < LENGTH(64)"
  then have n: "n < 64" "n div 8 < 8" "n mod 8 < 8" "8 * (n div 8) + n mod 8 = n" by simp_all
  then show "bit (w64 w) n \<longleftrightarrow> bit x n" using bit_w64 [OF assms(1), of n] assms(2) [OF n(2,3)] n(1) by simp
qed

lemma byte_shift_bits:
  fixes i j B c :: nat
  assumes "j < 8" and "c < 8"
  shows "(8 * i + j + (8 * B + c)) mod 64 =
     (if j + c < 8 then 8 * ((i + B) mod 8) + (j + c) else 8 * ((i + B + 1) mod 8) + (j + c - 8))"
proof -
  have a: "(8 * q + t) mod 64 = 8 * (q mod 8) + t" if "t < 8" for q t :: nat
  proof -
    have "8 * q mod 64 = 8 * (q mod 8)" using mult_mod_right [of 8 q 8] by simp
    then have "(8 * q + t) mod 64 = (8 * (q mod 8) + t) mod 64" by (metis mod_add_left_eq)
    also have "\<dots> = 8 * (q mod 8) + t" using that by (intro mod_less) (use mod_less_divisor [of 8 q] in linarith)
    finally show ?thesis .
  qed
  show ?thesis
  proof (cases "j + c < 8")
    case True
    have e: "8 * i + j + (8 * B + c) = 8 * (i + B) + (j + c)" by simp
    show ?thesis unfolding e a [OF True] using True by simp
  next
    case False
    have e: "8 * i + j + (8 * B + c) = 8 * (i + B + 1) + (j + c - 8)" using False by simp
    have l: "j + c - 8 < 8" using assms by simp
    show ?thesis unfolding e a [OF l] using False by simp
  qed
qed

lemma length8_eqI: "length xs = 8 \<Longrightarrow> length ys = 8 \<Longrightarrow> (\<And>i. i < 8 \<Longrightarrow> xs ! i = ys ! i) \<Longrightarrow> xs = ys"
  by (rule nth_equalityI) simp_all

lemma upt_8: "[0..<8] = [0, 1, 2, 3, 4, 5, 6, 7]"
  by (simp add: upt_rec)

lemma length_8: "length [a, b, c, d, e, f, g, h] = 8"
  by simp

lemma replicate_8: "replicate 8 x = [x, x, x, x, x, x, x, x]"
  by (simp add: eval_nat_numeral)

lemma RotBytes_eqs:
  "RotBytes [a, b, c, d, e, f, g, h] 16 = Some [g, h, a, b, c, d, e, f]"
  "RotBytes [a, b, c, d, e, f, g, h] 24 = Some [f, g, h, a, b, c, d, e]"
  "RotBytes [a, b, c, d, e, f, g, h] 32 = Some [e, f, g, h, a, b, c, d]"
  "RotBytes [a, b, c, d, e, f, g, h] 40 = Some [d, e, f, g, h, a, b, c]"
  "RotBytes [a, b, c, d, e, f, g, h] 48 = Some [c, d, e, f, g, h, a, b]"
  unfolding RotBytes_def length_8 upt_8 replicate_8 by simp_all

lemma list8: "length w = 8 \<Longrightarrow> \<exists>a b c d e f g h. w = [a, b, c, d, e, f, g, h]"
proof -
  assume "length w = 8"
  then have "w = map (\<lambda>i. w ! i) [0..<8]" using map_nth [of w] by simp
  then have "w = [w ! 0, w ! 1, w ! 2, w ! 3, w ! 4, w ! 5, w ! 6, w ! 7]" unfolding upt_8 list.map .
  then show ?thesis by blast
qed

lemma all_less_8: "(\<forall>i < 8. P i) \<longleftrightarrow> P 0 \<and> P 1 \<and> P 2 \<and> P 3 \<and> P 4 \<and> P 5 \<and> P 6 \<and> P (7 :: nat)"
proof -
  have "(\<forall>i < 8. P i) \<longleftrightarrow> (\<forall>i \<in> set [0..<8]. P i)" by auto
  then show ?thesis unfolding upt_8 by (simp only: list.set ball_simps simp_thms)
qed

lemma RotBytes_nth:
  assumes "length w = 8" and "shift \<in> {16, 24, 32, 40, 48}"
  shows "\<exists>r. RotBytes w shift = Some r \<and> length r = 8 \<and>
     (\<forall>i < 8. r ! i = w ! ((i + (8 - nat shift div 8)) mod 8))"
proof -
  obtain a b c d e f g h where w: "w = [a, b, c, d, e, f, g, h]" using list8 [OF assms(1)] by blast
  show ?thesis using assms(2) unfolding w all_less_8
    by (elim insertE emptyE) (simp_all add: RotBytes_eqs)
qed

lemma RotBytes_rotr:
  assumes "u64_ok w" and "shift \<in> {16, 24, 32, 40, 48}"
  shows "\<exists>r. RotBytes w shift = Some r \<and> u64_ok r \<and> w64 r = word_rotr (64 - nat shift) (w64 w)"
proof -
  obtain r where r: "RotBytes w shift = Some r" "length r = 8"
      "\<forall>i < 8. r ! i = w ! ((i + (8 - nat shift div 8)) mod 8)"
    using RotBytes_nth assms unfolding u64_ok_def by blast
  have ok: "u64_ok r"
    unfolding u64_ok_def bytes_ok_iff
  proof (intro conjI ballI)
    fix b assume "b \<in> set r"
    then obtain i where i: "i < 8" "b = r ! i" using r(2) by (auto simp: in_set_conv_nth)
    have "(i + (8 - nat shift div 8)) mod 8 < length w" using assms(1) by (simp add: u64_ok_def)
    then have "byte_ok (w ! ((i + (8 - nat shift div 8)) mod 8))" using assms(1) bytes_ok_nth unfolding u64_ok_def by blast
    then show "byte_ok b" using r(3) i by simp
  qed (rule r(2))
  have s: "64 - nat shift = 8 * (8 - nat shift div 8) + 0" using assms(2) by auto
  have "w64 r = word_rotr (64 - nat shift) (w64 w)"
  proof (rule w64_eqI [OF ok])
    fix i j :: nat assume ij: "i < 8" "j < 8"
    then have "(8 * i + j + (64 - nat shift)) mod 64 = 8 * ((i + (8 - nat shift div 8)) mod 8) + j"
      unfolding s using byte_shift_bits [of j 0 i "8 - nat shift div 8"] by simp
    then have "bit (word_rotr (64 - nat shift) (w64 w)) (8 * i + j) \<longleftrightarrow>
        bit (w64 w) (8 * ((i + (8 - nat shift div 8)) mod 8) + j)"
      using ij by (simp add: bit_word_rotr_iff)
    also have "\<dots> \<longleftrightarrow> bit (w ! ((i + (8 - nat shift div 8)) mod 8)) j"
    proof -
      have l: "8 * k + j < 64 \<and> (8 * k + j) div 8 = k \<and> (8 * k + j) mod 8 = j" if "k < 8" for k
        using ij(2) that by simp
      show ?thesis unfolding bit_w64 [OF assms(1)] using l [of "(i + (8 - nat shift div 8)) mod 8"] by simp
    qed
    finally show "bit (r ! i) j \<longleftrightarrow> bit (word_rotr (64 - nat shift) (w64 w)) (8 * i + j)" using r(3) ij by simp
  qed
  with r ok show ?thesis by blast
qed

end
