(* ===== verification/ShaSigma.thy ===== *)
theory ShaSigma
  imports ShaWords
begin

text \<open>
  The sigma functions of \<^verbatim>\<open>internal/circuit/sha512/sha/gadget.go\<close> (\<^verbatim>\<open>sigmaRot\<close> and its helpers): each byte is
  split once at the union of the cut positions, and the chunks are re-packed for each rotation
  and for the shift. Sound for every advice, complete for the honest one, and the four
  instances are the sigma functions of FIPS 180-4.
\<close>

section \<open>Sigma functions\<close>

text \<open>\<^verbatim>\<open>sigmaCutPositions\<close>: the sorted set of nonzero within-byte cuts; a bad amount panics.\<close>

definition sigmaCutPositions :: "nat list \<Rightarrow> nat \<Rightarrow> nat list option" where
  "sigmaCutPositions rotations rightShift =
     (if list_ex (\<lambda>r. r = 0 \<or> r \<ge> 64) rotations \<or> rightShift \<ge> 64 then None
      else let cuts = map (\<lambda>r. r mod 8) rotations @ (if rightShift > 0 then [rightShift mod 8] else [])
           in Some (sort (remdups (filter (\<lambda>c. c \<noteq> 0) cuts))))"

fun widths_from :: "nat \<Rightarrow> nat list \<Rightarrow> nat list option" where
  "widths_from previous [] = Some [8 - previous]"
| "widths_from previous (c # cuts) =
     (if c \<le> previous \<or> c \<ge> 8 then None
      else do { ws \<leftarrow> widths_from c cuts; Some ((c - previous) # ws) })"

definition widthsFromCuts :: "nat list \<Rightarrow> nat list option" where
  "widthsFromCuts cuts = widths_from 0 cuts"

record sigmaByteChunks =
  sb_values :: "int list"
  sb_widths :: "nat list"
  sb_offsets :: "nat list"

text \<open>The offsets of the chunks; a width below one or beyond the byte panics.\<close>

fun chunk_offsets :: "nat \<Rightarrow> nat list \<Rightarrow> nat list option" where
  "chunk_offsets offset [] = (if offset \<noteq> 8 then None else Some [])"
| "chunk_offsets offset (w # ws) =
     (if w < 1 \<or> offset + w > 8 then None
      else do { os \<leftarrow> chunk_offsets (offset + w) ws; Some (offset # os) })"

definition decomposeSigmaByte :: "gnark \<Rightarrow> advice \<Rightarrow> U8 \<Rightarrow> nat list \<Rightarrow> sigmaByteChunks option" where
  "decomposeSigmaByte G adv input widths =
     (if ad_const adv [] then
        do { offsets \<leftarrow> chunk_offsets 0 widths;
             Some \<lparr>sb_values = map2 (\<lambda>o' w. drop_bit o' input AND (2 ^ w - 1)) offsets widths,
                   sb_widths = widths, sb_offsets = offsets\<rparr> }
      else let values = new_hint G adv SigmaChunksHint [] (input # map int widths) (length widths) in
        do { offsets \<leftarrow> chunk_offsets 0 widths;
             recomposition \<leftarrow> g_pack_lsb G values widths;
             must (g_eq G input recomposition);
             Some \<lparr>sb_values = values, sb_widths = widths, sb_offsets = offsets\<rparr> })"

type_synonym parts = "int list \<times> nat list"

fun at_cut :: "nat \<Rightarrow> int list \<Rightarrow> nat list \<Rightarrow> nat list \<Rightarrow> (parts \<times> parts) option" where
  "at_cut c (v # vs) (w # ws) (start # starts) =
     (if start + w \<le> c then
        do { ((lv, lw), up) \<leftarrow> at_cut c vs ws starts; Some ((v # lv, w # lw), up) }
      else if start \<ge> c then
        do { (lo, (uv, uw)) \<leftarrow> at_cut c vs ws starts; Some (lo, (v # uv, w # uw)) }
      else None)"
| "at_cut c _ _ _ = Some (([], []), ([], []))"

definition sigmaByteAtCut :: "sigmaByteChunks \<Rightarrow> nat \<Rightarrow> (parts \<times> parts) option" where
  "sigmaByteAtCut cs c =
     (if c > 8 then None else at_cut c (sb_values cs) (sb_widths cs) (sb_offsets cs))"

definition packSigmaByte :: "gnark \<Rightarrow> parts list \<Rightarrow> U8 option" where
  "packSigmaByte G groups = g_pack_lsb G (concat (map fst groups)) (concat (map snd groups))"

definition rotateRightFromSigmaChunks :: "gnark \<Rightarrow> sigmaByteChunks list \<Rightarrow> nat \<Rightarrow> U64 option" where
  "rotateRightFromSigmaChunks G cs rotation =
     (let byteShift = rotation div 8; bitShift = rotation mod 8 in
      mapm (\<lambda>i. let source = (i + byteShift) mod 8 in
        if bitShift = 0 then g_pack_lsb G (sb_values (cs ! source)) (sb_widths (cs ! source))
        else let next = (source + 1) mod 8 in
          do { (_, upper) \<leftarrow> sigmaByteAtCut (cs ! source) bitShift;
               (lower, _) \<leftarrow> sigmaByteAtCut (cs ! next) bitShift;
               packSigmaByte G [upper, lower] }) [0..<8])"

definition shiftRightFromSigmaChunks :: "gnark \<Rightarrow> sigmaByteChunks list \<Rightarrow> nat \<Rightarrow> U64 option" where
  "shiftRightFromSigmaChunks G cs shift =
     (let byteShift = shift div 8; bitShift = shift mod 8 in
      mapm (\<lambda>i. let source = i + byteShift in
        if source \<ge> 8 then Some 0
        else if bitShift = 0 then g_pack_lsb G (sb_values (cs ! source)) (sb_widths (cs ! source))
        else do { (_, upper) \<leftarrow> sigmaByteAtCut (cs ! source) bitShift;
                  if source + 1 < 8 then
                    do { (lower, _) \<leftarrow> sigmaByteAtCut (cs ! (source + 1)) bitShift;
                         packSigmaByte G [upper, lower] }
                  else packSigmaByte G [upper, ([0], [bitShift])] }) [0..<8])"

text \<open>\<^verbatim>\<open>uapi.Xor\<close> of several words.\<close>

definition xors :: "gnark \<Rightarrow> U64 list \<Rightarrow> U64" where
  "xors G ws = foldl (g_xor G) (hd ws) (tl ws)"

definition sigmaRot :: "gnark \<Rightarrow> advice \<Rightarrow> U64 \<Rightarrow> nat list \<Rightarrow> nat \<Rightarrow> U64 option" where
  "sigmaRot G adv word rotations rightShift =
     (if rotations = [] then None
      else do {
        cuts \<leftarrow> sigmaCutPositions rotations rightShift;
        widths \<leftarrow> widthsFromCuts cuts;
        cs \<leftarrow> mapm (\<lambda>i. decomposeSigmaByte G (at adv [i]) (word ! i) widths) [0..<8];
        terms \<leftarrow> mapm (rotateRightFromSigmaChunks G cs) rotations;
        shifted \<leftarrow> (if rightShift > 0 then map_option (\<lambda>t. [t]) (shiftRightFromSigmaChunks G cs rightShift) else Some []);
        Some (xors G (terms @ shifted)) })"

subsection \<open>Chunks of a byte\<close>

definition chunked :: "int \<Rightarrow> nat list \<Rightarrow> sigmaByteChunks \<Rightarrow> bool" where
  "chunked b ws c \<longleftrightarrow> sb_widths c = ws \<and> chunk_offsets 0 ws = Some (sb_offsets c) \<and>
     chunks_ok (sb_values c) ws \<and> chunk_val (sb_values c) ws = b"

lemma chunks_ok_simps [simp]:
  "chunks_ok [] ws \<longleftrightarrow> ws = []" "chunks_ok vs [] \<longleftrightarrow> vs = []"
  "chunks_ok (v # vs) (w # ws) \<longleftrightarrow> 0 \<le> v \<and> v < 2 ^ w \<and> chunks_ok vs ws"
  by (simp_all add: chunks_ok_def conj_assoc)

lemma chunk_val_bounds: "chunks_ok vs ws \<Longrightarrow> 0 \<le> chunk_val vs ws \<and> chunk_val vs ws < 2 ^ sum_list ws"
proof (induction vs ws rule: chunk_val.induct)
  case (1 v vs w ws)
  then have r: "0 \<le> v" "v < 2 ^ w" "0 \<le> chunk_val vs ws" "chunk_val vs ws < 2 ^ sum_list ws" by simp_all
  have "2 ^ w * (chunk_val vs ws + 1) \<le> 2 ^ w * 2 ^ sum_list ws" using r by (intro mult_left_mono) simp_all
  then show ?case using r by (simp add: power_add algebra_simps)
qed simp_all

lemma chunk_val_append:
  "length vs = length ws \<Longrightarrow> chunk_val (vs @ us) (ws @ ts) = chunk_val vs ws + 2 ^ sum_list ws * chunk_val us ts"
proof (induction vs ws rule: list_induct2)
  case (Cons v vs w ws)
  then show ?case by (simp add: power_add algebra_simps)
qed simp

lemma chunks_ok_append: "length vs = length ws \<Longrightarrow> chunks_ok (vs @ us) (ws @ ts) \<longleftrightarrow> chunks_ok vs ws \<and> chunks_ok us ts"
  by (simp add: chunks_ok_def list_all2_append)

lemma chunks_ok_length: "chunks_ok vs ws \<Longrightarrow> length vs = length ws"
  by (simp add: chunks_ok_def list_all2_lengthD)

lemma chunks_ok_fe:
  assumes "gnark_doc G" and "chunks_ok vs ws" and "sum_list ws \<le> 8"
  shows "list_all (fe G) vs"
  using assms(2,3)
proof (induction vs arbitrary: ws)
  case (Cons v vs)
  then obtain w ws' where w: "ws = w # ws'" by (cases ws) auto
  then have v: "0 \<le> v" "v < 2 ^ w" "w \<le> 8" "chunks_ok vs ws'" "sum_list ws' \<le> 8" using Cons.prems by simp_all
  have "(2 :: int) ^ w \<le> 2 ^ 8" using v(3) by (rule power_increasing) simp
  then have "v < 2 ^ 254" using v(2) by simp
  then show ?case using Cons.IH [OF v(4,5)] fe_small [OF assms(1) v(1)] by simp
qed simp

lemma pack_chunks:
  assumes "gnark_doc G" and "chunks_ok vs ws" and "sum_list ws = 8"
  shows "g_pack_lsb G vs ws = Some (chunk_val vs ws) \<and> byte_ok (chunk_val vs ws)"
  using doc_words(8) [OF assms(1) chunks_ok_length [OF assms(2)] assms(3) chunks_ok_fe [OF assms(1,2)]] assms(2,3)
    chunk_val_bounds [OF assms(2)]
  by (simp add: byte_ok_def)

lemma chunk_offsets_sum: "chunk_offsets o' ws = Some os \<Longrightarrow> o' + sum_list ws = 8 \<and> length os = length ws"
proof (induction ws arbitrary: o' os)
  case (Cons w ws)
  then obtain os' where os: "os = o' # os'" "chunk_offsets (o' + w) ws = Some os'"
    by (auto simp: bind_eq_Some_conv split: if_splits)
  with Cons.IH [OF os(2)] show ?case by simp
qed (simp split: if_splits)

text \<open>Splitting the chunks at a cut splits the value there.\<close>

lemma div_mod_chunk:
  fixes v r :: int
  assumes "0 \<le> v" "v < 2 ^ w"
  shows "(v + 2 ^ w * r) mod 2 ^ (w + k) = v + 2 ^ w * (r mod 2 ^ k)" "(v + 2 ^ w * r) div 2 ^ (w + k) = r div 2 ^ k"
proof -
  have "(v + 2 ^ w * r) div 2 ^ w = r" using assms by simp
  then show "(v + 2 ^ w * r) div 2 ^ (w + k) = r div 2 ^ k" by (simp add: power_add zdiv_zmult2_eq)
  have "(v + 2 ^ w * r) mod 2 ^ w = v" using assms by simp
  then show "(v + 2 ^ w * r) mod 2 ^ (w + k) = v + 2 ^ w * (r mod 2 ^ k)"
    using \<open>(v + 2 ^ w * r) div 2 ^ w = r\<close> by (simp add: power_add zmod_zmult2_eq)
qed

lemma at_cut_value:
  assumes "chunks_ok vs ws" and "chunk_offsets o' ws = Some os" and "c \<le> 8"
    and "at_cut c vs ws os = Some ((lv, lw), (uv, uw))"
  shows "chunks_ok lv lw \<and> chunks_ok uv uw \<and> sum_list lw = c - o' \<and> sum_list uw = sum_list ws - (c - o') \<and>
     chunk_val lv lw = chunk_val vs ws mod 2 ^ (c - o') \<and> chunk_val uv uw = chunk_val vs ws div 2 ^ (c - o')"
  using assms
proof (induction ws arbitrary: vs o' os lv lw uv uw)
  case Nil
  then show ?case by (auto split: if_splits)
next
  case (Cons w ws)
  obtain v vs' where v: "vs = v # vs'" "0 \<le> v" "v < 2 ^ w" "chunks_ok vs' ws"
    using Cons.prems(1) by (cases vs) auto
  obtain os' where os: "os = o' # os'" "chunk_offsets (o' + w) ws = Some os'" "1 \<le> w" "o' + w \<le> 8"
    using Cons.prems(2) by (auto simp: bind_eq_Some_conv split: if_splits)
  have sws: "o' + w + sum_list ws = 8" using chunk_offsets_sum [OF os(2)] by simp
  show ?case
  proof (cases "o' + w \<le> c")
    case True
    obtain lv' lw' where h: "at_cut c vs' ws os' = Some ((lv', lw'), (uv, uw))" "lv = v # lv'" "lw = w # lw'"
      using Cons.prems(4) True by (auto simp: v(1) os(1) bind_eq_Some_conv split: prod.splits)
    note IH = Cons.IH [OF v(4) os(2) Cons.prems(3) h(1)]
    have d: "c - o' = w + (c - (o' + w))" using True by simp
    show ?thesis
      using IH v(2,3) div_mod_chunk [OF v(2,3), of "chunk_val vs' ws" "c - (o' + w)"]
      unfolding h(2,3) v(1) d by simp
  next
    case False
    then have c: "c \<le> o'" using Cons.prems(4) by (auto simp: v(1) os(1) split: if_splits)
    obtain uv' uw' where h: "at_cut c vs' ws os' = Some ((lv, lw), (uv', uw'))" "uv = v # uv'" "uw = w # uw'"
      using Cons.prems(4) False c by (auto simp: v(1) os(1) bind_eq_Some_conv split: prod.splits)
    note IH = Cons.IH [OF v(4) os(2) Cons.prems(3) h(1)]
    have d: "c - o' = 0" "c - (o' + w) = 0" using c by simp_all
    show ?thesis using IH v(2,3) unfolding h(2,3) v(1) d by simp
  qed
qed

lemma widths_from_sorted: "widths_from p cuts = Some ws \<Longrightarrow> sorted_wrt (<) (p # cuts)"
proof (induction p cuts arbitrary: ws rule: widths_from.induct)
  case (2 p d cuts)
  then obtain ws' where "p < d" "widths_from d cuts = Some ws'" by (auto simp: bind_eq_Some_conv split: if_splits)
  then show ?case using 2 by (auto split: if_splits)
qed simp

lemma at_cut_total:
  assumes "widths_from previous cuts = Some ws" and "length vs = length ws" and "chunk_offsets previous ws = Some os"
    and "c \<in> set cuts \<or> c \<le> previous"
  shows "\<exists>r. at_cut c vs ws os = Some r"
  using assms
proof (induction previous cuts arbitrary: vs ws os rule: widths_from.induct)
  case (1 previous)
  then obtain v where "vs = [v]" "ws = [8 - previous]" "os = [previous]" "previous < 8"
    by (cases vs) (auto simp: bind_eq_Some_conv split: if_splits)
  then show ?case using 1 by auto
next
  case (2 previous d cuts)
  then obtain ws' where w: "ws = (d - previous) # ws'" "widths_from d cuts = Some ws'" "previous < d" "d < 8"
    by (auto simp: bind_eq_Some_conv split: if_splits)
  then obtain v vs' os' where v: "vs = v # vs'" "length vs' = length ws'" "os = previous # os'"
      "chunk_offsets d ws' = Some os'"
    using 2(3,4) by (cases vs) (auto simp: bind_eq_Some_conv split: if_splits)
  have "c \<in> set cuts \<or> c \<le> d" using 2(5) w(3) by auto
  then obtain r where r: "at_cut c vs' ws' os' = Some r"
    using 2(1) [OF _ w(2) v(2,4)] w(3,4) by auto
  show ?case
  proof (cases "d \<le> c")
    case True
    then show ?thesis using r w(3) by (simp add: v(1,3) w(1) split: prod.splits)
  next
    case False
    have "sorted_wrt (<) (d # cuts)" using widths_from_sorted [OF w(2)] .
    then have "c \<le> previous" using 2(5) False by auto
    then show ?thesis using r False w(3) by (simp add: v(1,3) w(1) split: prod.splits)
  qed
qed

subsection \<open>Decomposition of a byte\<close>

lemma const_chunks:
  assumes "chunk_offsets o' ws = Some os" and "byte_ok b"
  shows "chunks_ok (map2 (\<lambda>o' w. drop_bit o' b AND (2 ^ w - 1)) os ws) ws \<and>
     chunk_val (map2 (\<lambda>o' w. drop_bit o' b AND (2 ^ w - 1)) os ws) ws = b div 2 ^ o'"
  using assms(1)
proof (induction ws arbitrary: o' os)
  case Nil
  then show ?case using assms(2) by (auto simp: byte_ok_def split: if_splits)
next
  case (Cons w ws)
  then obtain os' where os: "os = o' # os'" "chunk_offsets (o' + w) ws = Some os'"
    by (auto simp: bind_eq_Some_conv split: if_splits)
  have v: "drop_bit o' b AND (2 ^ w - 1) = b div 2 ^ o' mod 2 ^ w"
    using take_bit_eq_mask [of w "drop_bit o' b"] by (simp add: mask_eq_exp_minus_1 drop_bit_eq_div take_bit_eq_mod)
  have "b div 2 ^ (o' + w) = b div 2 ^ o' div 2 ^ w" by (simp add: power_add zdiv_zmult2_eq)
  then show ?case using Cons.IH [OF os(2)] unfolding os(1) by (simp add: v)
qed

lemma hint_chunks:
  "chunks_ok (map (chunk_at v (map int ws)) [0..<length ws]) ws \<and>
   chunk_val (map (chunk_at v (map int ws)) [0..<length ws]) ws = v mod 2 ^ sum_list ws"
proof (induction ws arbitrary: v)
  case (Cons w ws)
  have m: "map (chunk_at v (map int (w # ws))) [0..<length (w # ws)] =
      v mod 2 ^ w # map (chunk_at (v div 2 ^ w) (map int ws)) [0..<length ws]"
    by (simp add: upt_conv_Cons map_Suc_upt [symmetric] comp_def del: upt_Suc)
  have "v mod 2 ^ (w + sum_list ws) = v mod 2 ^ w + 2 ^ w * (v div 2 ^ w mod 2 ^ sum_list ws)"
    by (simp add: power_add zmod_zmult2_eq)
  then show ?case using Cons.IH [of "v div 2 ^ w"] unfolding m by simp
qed simp

lemma decompose_sound:
  assumes "gnark_doc G" and "byte_ok b" and "sum_list ws = 8" and "decomposeSigmaByte G adv b ws = Some c"
  shows "chunked b ws c"
proof (cases "ad_const adv []")
  case True
  then obtain os where os: "chunk_offsets 0 ws = Some os"
      "c = \<lparr>sb_values = map2 (\<lambda>o' w. drop_bit o' b AND (2 ^ w - 1)) os ws, sb_widths = ws, sb_offsets = os\<rparr>"
    using assms(4) by (auto simp: decomposeSigmaByte_def bind_eq_Some_conv)
  then show ?thesis using const_chunks [OF os(1) assms(2)] by (simp add: chunked_def)
next
  case False
  let ?vs = "new_hint G adv SigmaChunksHint [] (b # map int ws) (length ws)"
  obtain os r where h: "chunk_offsets 0 ws = Some os" "g_pack_lsb G ?vs ws = Some r" "g_eq G b r"
      "c = \<lparr>sb_values = ?vs, sb_widths = ws, sb_offsets = os\<rparr>"
    using assms(4) False by (auto simp: decomposeSigmaByte_def Let_def bind_eq_Some_conv)
  have "list_all (fe G) ?vs" using new_hint_fe [OF doc_p_pos [OF assms(1)]] by (auto simp: list_all_iff)
  then have r: "chunks_ok ?vs ws" "r = chunk_val ?vs ws" using doc_words(8) [OF assms(1)] h(2) assms(3) by simp_all
  have "byte_ok r" using pack_chunks [OF assms(1) r(1) assms(3)] r(2) by simp
  then have "b = r" using h(3) doc_ops(4) [OF assms(1) byte_fe byte_fe] assms(1,2) by blast
  then show ?thesis using h r by (simp add: chunked_def)
qed

lemma decompose_honest:
  assumes "gnark_doc G" and "honest adv" and "byte_ok b" and "chunk_offsets 0 ws = Some os"
  shows "\<exists>c. decomposeSigmaByte G adv b ws = Some c"
proof (cases "ad_const adv []")
  case True
  then show ?thesis using assms(4) by (simp add: decomposeSigmaByte_def)
next
  case False
  let ?vs = "map (chunk_at b (map int ws)) [0..<length ws]"
  have s: "sum_list ws = 8" using chunk_offsets_sum [OF assms(4)] by simp
  have c: "chunks_ok ?vs ws" "chunk_val ?vs ws = b"
    using hint_chunks [of b ws] assms(3) s by (simp_all add: byte_ok_def)
  have f: "list_all (fe G) ?vs" using chunks_ok_fe [OF assms(1) c(1)] s by simp
  have "new_hint G adv SigmaChunksHint [] (b # map int ws) (length ws) = ?vs"
    using f assms(2) by (auto simp: new_hint_def honest_def run_hint_def list_all_iff fe_def)
  moreover have "g_pack_lsb G ?vs ws = Some b" using pack_chunks [OF assms(1) c(1) s] c(2) by simp
  moreover have "g_eq G b b" using doc_ops(4) [OF assms(1) byte_fe byte_fe] assms(1,3) by blast
  ultimately show ?thesis using False assms(4) by (simp add: decomposeSigmaByte_def Let_def)
qed

subsection \<open>Rotation and shift\<close>

text \<open>The byte put together from the high bits of one and the low bits of the next.\<close>

lemma join_byte:
  assumes "gnark_doc G" and "chunked b ws c" and "chunked b' ws c'" and "k \<le> 8"
    and "sigmaByteAtCut c k = Some (lo, up)" and "sigmaByteAtCut c' k = Some (lo', up')"
    and "packSigmaByte G [up, lo'] = Some r"
  shows "byte_ok r \<and> r = b div 2 ^ k + 2 ^ (8 - k) * (b' mod 2 ^ k)"
proof -
  obtain lv lw uv uw lv' lw' uv' uw' where p: "lo = (lv, lw)" "up = (uv, uw)" "lo' = (lv', lw')" "up' = (uv', uw')"
    by fastforce
  have s: "sum_list ws = 8" using assms(2) chunk_offsets_sum by (fastforce simp: chunked_def)
  have a: "chunks_ok uv uw" "sum_list uw = 8 - k" "chunk_val uv uw = b div 2 ^ k"
    using at_cut_value [of "sb_values c" ws 0 "sb_offsets c" k lv lw uv uw] assms(2,4,5) s
    by (auto simp: chunked_def sigmaByteAtCut_def p split: if_splits)
  have a': "chunks_ok lv' lw'" "sum_list lw' = k" "chunk_val lv' lw' = b' mod 2 ^ k"
    using at_cut_value [of "sb_values c'" ws 0 "sb_offsets c'" k lv' lw' uv' uw'] assms(3,4,6) s
    by (auto simp: chunked_def sigmaByteAtCut_def p split: if_splits)
  have ok: "chunks_ok (uv @ lv') (uw @ lw')" using a(1) a'(1) chunks_ok_append [OF chunks_ok_length [OF a(1)]] by simp
  have t: "sum_list (uw @ lw') = 8" using a a' assms(4) by simp
  have "g_pack_lsb G (uv @ lv') (uw @ lw') = Some r" using assms(7) by (simp add: packSigmaByte_def p)
  then have "r = chunk_val (uv @ lv') (uw @ lw')" "byte_ok r" using pack_chunks [OF assms(1) ok t] by simp_all
  then show ?thesis using chunk_val_append [OF chunks_ok_length [OF a(1)]] a a' by simp
qed

lemma join_byte_total:
  assumes "gnark_doc G" and "chunked b ws c" and "chunked b' ws c'" and "k \<le> 8"
    and "sigmaByteAtCut c k = Some (lo, up)" and "sigmaByteAtCut c' k = Some (lo', up')"
  shows "\<exists>r. packSigmaByte G [up, lo'] = Some r"
proof -
  obtain lv lw uv uw lv' lw' uv' uw' where p: "lo = (lv, lw)" "up = (uv, uw)" "lo' = (lv', lw')" "up' = (uv', uw')"
    by fastforce
  have s: "sum_list ws = 8" using assms(2) chunk_offsets_sum by (fastforce simp: chunked_def)
  have a: "chunks_ok uv uw" "sum_list uw = 8 - k"
    using at_cut_value [of "sb_values c" ws 0 "sb_offsets c" k lv lw uv uw] assms(2,4,5) s
    by (auto simp: chunked_def sigmaByteAtCut_def p split: if_splits)
  have a': "chunks_ok lv' lw'" "sum_list lw' = k"
    using at_cut_value [of "sb_values c'" ws 0 "sb_offsets c'" k lv' lw' uv' uw'] assms(3,4,6) s
    by (auto simp: chunked_def sigmaByteAtCut_def p split: if_splits)
  have ok: "chunks_ok (uv @ lv') (uw @ lw')" using a(1) a'(1) chunks_ok_append [OF chunks_ok_length [OF a(1)]] by simp
  show ?thesis using pack_chunks [OF assms(1) ok] a a' assms(4) by (simp add: packSigmaByte_def p)
qed

lemma bit_join:
  assumes "0 \<le> x" "x < 2 ^ k"
  shows "bit (x + 2 ^ k * y) j \<longleftrightarrow> (if j < k then bit x j else bit (y :: int) (j - k))"
proof -
  have "x + 2 ^ k * y = concat_bit k x y" using assms by (simp add: concat_bit_eq push_bit_eq_mult take_bit_eq_mod mult.commute)
  then show ?thesis by (simp add: bit_concat_bit_iff)
qed

lemma bit_join_byte:
  assumes "byte_ok b" and "k \<le> 8" and "j < 8"
  shows "bit (b div 2 ^ k + 2 ^ (8 - k) * (b' mod 2 ^ k)) j \<longleftrightarrow>
     (if j + k < 8 then bit b (j + k) else bit (b' :: int) (j + k - 8))"
proof -
  have "(2 :: int) ^ (8 - k) * 2 ^ k = 256" using assms(2) by (simp flip: power_add)
  then have "b div 2 ^ k < 2 ^ (8 - k)"
  proof -
    have "b div 2 ^ k * 2 ^ k \<le> b" using int_div_eq [of "2 ^ k" b "b div 2 ^ k"] by simp
    then have "b div 2 ^ k * 2 ^ k < 2 ^ (8 - k) * 2 ^ k"
      using assms(1) \<open>(2 :: int) ^ (8 - k) * 2 ^ k = 256\<close> by (simp add: byte_ok_def)
    then show ?thesis by (simp only: mult_less_cancel_right) simp
  qed
  moreover have "0 \<le> b div 2 ^ k" using assms(1) by (simp add: byte_ok_def pos_imp_zdiv_nonneg_iff)
  ultimately show ?thesis
    using bit_join [of "b div 2 ^ k" "8 - k" "b' mod 2 ^ k" j] assms(2,3)
    by (auto simp: bit_drop_bit_eq bit_take_bit_iff add.commute simp flip: drop_bit_eq_div take_bit_eq_mod)
qed

lemma byte_ok_div: "byte_ok b \<Longrightarrow> byte_ok (b div 2 ^ 0)" by simp

lemma chunked_byte: "gnark_doc G \<Longrightarrow> chunked b ws c \<Longrightarrow> byte_ok b \<and> sum_list ws = 8 \<and>
    g_pack_lsb G (sb_values c) (sb_widths c) = Some b"
  using pack_chunks [of G "sb_values c" ws] chunk_offsets_sum [of 0 ws "sb_offsets c"] by (simp add: chunked_def)

definition chunked_word :: "U64 \<Rightarrow> nat list \<Rightarrow> sigmaByteChunks list \<Rightarrow> bool" where
  "chunked_word w ws cs \<longleftrightarrow> u64_ok w \<and> length cs = 8 \<and> (\<forall>i < 8. chunked (w ! i) ws (cs ! i))"

lemma mapm_upt8:
  "mapm f [0..<8] = Some ys \<longleftrightarrow> length ys = 8 \<and> (\<forall>i < 8. f i = Some (ys ! i))"
  by (auto simp: mapm_Some list_all2_conv_all_nth)

lemma w64_of_bytes:
  assumes "length out = 8" and "\<And>i. i < 8 \<Longrightarrow> byte_ok (out ! i)"
    and "\<And>i j. i < 8 \<Longrightarrow> j < 8 \<Longrightarrow> bit (out ! i) j \<longleftrightarrow> bit x (8 * i + j)"
  shows "u64_ok out \<and> w64 out = x"
proof -
  have ok: "u64_ok out" unfolding u64_ok_def bytes_ok_iff using assms(1,2) by (auto simp: in_set_conv_nth)
  show ?thesis using w64_eqI [OF ok assms(3)] ok by blast
qed

lemma bit_w64_byte: "u64_ok w \<Longrightarrow> k < 8 \<Longrightarrow> j < 8 \<Longrightarrow> bit (w64 w) (8 * k + j) \<longleftrightarrow> bit (w ! k) j"
  by (simp add: bit_w64)

lemma rotate_sound:
  assumes "gnark_doc G" and "chunked_word w ws cs" and "r < 64"
    and "rotateRightFromSigmaChunks G cs r = Some out"
  shows "u64_ok out \<and> w64 out = word_rotr r (w64 w)"
proof -
  let ?B = "r div 8" and ?k = "r mod 8"
  have c: "u64_ok w" "\<And>i. i < 8 \<Longrightarrow> chunked (w ! i) ws (cs ! i)" using assms(2) by (simp_all add: chunked_word_def)
  have r: "r = 8 * ?B + ?k" by simp
  have byte: "byte_ok (out ! i) \<and> out ! i = w ! ((i + ?B) mod 8) div 2 ^ ?k + 2 ^ (8 - ?k) * (w ! ((i + ?B + 1) mod 8) mod 2 ^ ?k)"
    if i: "i < 8" for i
  proof -
    let ?s = "(i + ?B) mod 8"
    have sn: "?s < 8" "(?s + 1) mod 8 < 8" by simp_all
    have n: "(?s + 1) mod 8 = (i + ?B + 1) mod 8" by (simp add: mod_Suc_eq)
    note cs = c(2) [OF sn(1)] c(2) [OF sn(2)]
    show ?thesis
    proof (cases "?k = 0")
      case True
      then have "g_pack_lsb G (sb_values (cs ! ?s)) (sb_widths (cs ! ?s)) = Some (out ! i)"
        using assms(4) i by (simp add: rotateRightFromSigmaChunks_def Let_def mapm_upt8)
      then show ?thesis using chunked_byte [OF assms(1) cs(1)] True by simp
    next
      case False
      then obtain lo up lo' up' where h: "sigmaByteAtCut (cs ! ?s) ?k = Some (lo, up)"
          "sigmaByteAtCut (cs ! ((?s + 1) mod 8)) ?k = Some (lo', up')" "packSigmaByte G [up, lo'] = Some (out ! i)"
        using assms(4) i by (auto simp: rotateRightFromSigmaChunks_def Let_def mapm_upt8 bind_eq_Some_conv
            split: prod.splits dest!: spec [of _ i])
      have k: "?k \<le> 8" using mod_less_divisor [of 8 r] by linarith
      show ?thesis using join_byte [OF assms(1) cs k h] unfolding n by blast
    qed
  qed
  have len: "length out = 8" using assms(4) by (simp add: rotateRightFromSigmaChunks_def Let_def mapm_upt8)
  show ?thesis
  proof (rule w64_of_bytes [OF len])
    show "byte_ok (out ! i)" if "i < 8" for i using byte [OF that] by blast
  next
    fix i j :: nat assume ij: "i < 8" "j < 8"
    have l: "(i + ?B) mod 8 < 8" "(i + ?B + 1) mod 8 < 8" "?k < 8" "?k \<le> 8" by simp_all
    have b: "byte_ok (w ! ((i + ?B) mod 8))" using c(2) [OF l(1)] chunked_byte [OF assms(1)] by blast
    have "bit (out ! i) j \<longleftrightarrow> (if j + ?k < 8 then bit (w ! ((i + ?B) mod 8)) (j + ?k)
        else bit (w ! ((i + ?B + 1) mod 8)) (j + ?k - 8))"
      using byte [OF ij(1)] bit_join_byte [OF b l(4) ij(2)] by simp
    also have "\<dots> \<longleftrightarrow> bit (w64 w) ((8 * i + j + (8 * ?B + ?k)) mod 64)"
    proof (cases "j + ?k < 8")
      case True
      then show ?thesis
        unfolding byte_shift_bits [OF ij(2) l(3)] using bit_w64_byte [OF c(1) l(1), of "j + ?k"] by simp
    next
      case False
      then have "j + ?k - 8 < 8" using ij l by simp
      then show ?thesis
        unfolding byte_shift_bits [OF ij(2) l(3)] if_not_P [OF False] by (simp only: bit_w64_byte [OF c(1) l(2)])
    qed
    also have "\<dots> \<longleftrightarrow> bit (word_rotr r (w64 w)) (8 * i + j)"
      using ij by (simp add: bit_word_rotr_iff)
    finally show "bit (out ! i) j \<longleftrightarrow> bit (word_rotr r (w64 w)) (8 * i + j)" .
  qed
qed

lemma shift_sound:
  assumes "gnark_doc G" and "chunked_word w ws cs" and "r < 64"
    and "shiftRightFromSigmaChunks G cs r = Some out"
  shows "u64_ok out \<and> w64 out = drop_bit r (w64 w)"
proof -
  let ?B = "r div 8" and ?k = "r mod 8"
  define v where "v = (\<lambda>i. if i < 8 then w ! i else 0)"
  have c: "u64_ok w" "\<And>i. i < 8 \<Longrightarrow> chunked (w ! i) ws (cs ! i)" using assms(2) by (simp_all add: chunked_word_def)
  have k: "?k \<le> 8" "?k < 8" using mod_less_divisor [of 8 r] by linarith+
  have byte: "byte_ok (out ! i) \<and> out ! i = v (i + ?B) div 2 ^ ?k + 2 ^ (8 - ?k) * (v (i + ?B + 1) mod 2 ^ ?k)"
    if i: "i < 8" for i
  proof (cases "i + ?B < 8")
    case False
    then have "out ! i = 0" using assms(4) i by (auto simp: shiftRightFromSigmaChunks_def Let_def mapm_upt8)
    then show ?thesis using False by (simp add: v_def byte_ok_def)
  next
    case True
    note cs = c(2) [OF True]
    show ?thesis
    proof (cases "?k = 0")
      case k0: True
      then have "g_pack_lsb G (sb_values (cs ! (i + ?B))) (sb_widths (cs ! (i + ?B))) = Some (out ! i)"
        using assms(4) i True by (auto dest!: spec [of _ i] simp: shiftRightFromSigmaChunks_def Let_def mapm_upt8)
      then show ?thesis using chunked_byte [OF assms(1) cs] k0 True by (simp add: v_def)
    next
      case k0: False
      have "\<not> 8 \<le> i + ?B" using True by simp
      then have E: "do { (uu, upper) \<leftarrow> sigmaByteAtCut (cs ! (i + ?B)) ?k;
            if i + ?B + 1 < 8 then do { (lower, uu) \<leftarrow> sigmaByteAtCut (cs ! (i + ?B + 1)) ?k; packSigmaByte G [upper, lower] }
            else packSigmaByte G [upper, ([0], [?k])] } = Some (out ! i)"
        using assms(4) i k0 unfolding shiftRightFromSigmaChunks_def Let_def mapm_upt8
        by (metis (no_types, lifting))
      obtain lo up where h: "sigmaByteAtCut (cs ! (i + ?B)) ?k = Some (lo, up)"
        using E by (cases "sigmaByteAtCut (cs ! (i + ?B)) ?k") auto
      have out: "(if i + ?B + 1 < 8 then do { (lower, uu) \<leftarrow> sigmaByteAtCut (cs ! (i + ?B + 1)) ?k; packSigmaByte G [up, lower] }
            else packSigmaByte G [up, ([0], [?k])]) = Some (out ! i)"
        using E unfolding h by simp
      show ?thesis
      proof (cases "i + ?B + 1 < 8")
        case n: True
        then obtain lo' up' where h': "sigmaByteAtCut (cs ! (i + ?B + 1)) ?k = Some (lo', up')"
            "packSigmaByte G [up, lo'] = Some (out ! i)"
          using out unfolding if_P [OF n] by (auto simp: bind_eq_Some_conv)
        have "v (i + ?B) = w ! (i + ?B)" "v (i + ?B + 1) = w ! (i + ?B + 1)" using True n by (simp_all add: v_def)
        then show ?thesis using join_byte [OF assms(1) cs c(2) [OF n] k(1) h h'] by metis
      next
        case n: False
        define z where "z = \<lparr>sb_values = [0], sb_widths = [8], sb_offsets = [0]\<rparr>"
        obtain uv uw lv lw where p: "up = (uv, uw)" "lo = (lv, lw)" by fastforce
        have s: "sum_list ws = 8" using chunked_byte [OF assms(1) cs] by blast
        have a: "chunks_ok uv uw" "sum_list uw = 8 - ?k" "chunk_val uv uw = w ! (i + ?B) div 2 ^ ?k"
          using at_cut_value [of "sb_values (cs ! (i + ?B))" ws 0 "sb_offsets (cs ! (i + ?B))" ?k lv lw uv uw] cs h s k
          by (auto simp: chunked_def sigmaByteAtCut_def p split: if_splits)
        have ok: "chunks_ok (uv @ [0]) (uw @ [?k])"
          using a(1) chunks_ok_append [OF chunks_ok_length [OF a(1)]] by simp
        have t: "sum_list (uw @ [?k]) = 8" using a k by simp
        have "g_pack_lsb G (uv @ [0]) (uw @ [?k]) = Some (out ! i)" using out n by (simp add: packSigmaByte_def p)
        then have "out ! i = chunk_val (uv @ [0]) (uw @ [?k])" "byte_ok (out ! i)"
          using pack_chunks [OF assms(1) ok t] by simp_all
        then show ?thesis using chunk_val_append [OF chunks_ok_length [OF a(1)]] a True n by (simp add: v_def)
      qed
    qed
  qed
  have len: "length out = 8" using assms(4) by (simp add: shiftRightFromSigmaChunks_def Let_def mapm_upt8)
  have v: "byte_ok (v m)" "m < 8 \<Longrightarrow> v m = w ! m" "\<not> m < 8 \<Longrightarrow> v m = 0" for m
    using c chunked_byte [OF assms(1)] by (auto simp: v_def byte_ok_def)
  have bw: "bit (w64 w) (8 * m + t) \<longleftrightarrow> bit (v m) t" if "t < 8" for m t
    using bit_w64 [OF c(1), of "8 * m + t"] v [of m] that by (cases "m < 8") auto
  show ?thesis
  proof (rule w64_of_bytes [OF len])
    show "byte_ok (out ! i)" if "i < 8" for i using byte [OF that] by blast
  next
    fix i j :: nat assume ij: "i < 8" "j < 8"
    have "bit (out ! i) j \<longleftrightarrow> (if j + ?k < 8 then bit (v (i + ?B)) (j + ?k) else bit (v (i + ?B + 1)) (j + ?k - 8))"
      using byte [OF ij(1)] bit_join_byte [OF v(1) k(1) ij(2)] by simp
    also have "\<dots> \<longleftrightarrow> bit (w64 w) (8 * i + j + r)"
    proof (cases "j + ?k < 8")
      case True
      have e: "8 * i + j + r = 8 * (i + ?B) + (j + ?k)" using div_mult_mod_eq [of r 8] by simp
      show ?thesis unfolding e bw [OF True] using True by simp
    next
      case False
      then have t: "j + ?k - 8 < 8" using ij k by simp
      have e: "8 * i + j + r = 8 * (i + ?B + 1) + (j + ?k - 8)" using div_mult_mod_eq [of r 8] False by simp
      show ?thesis unfolding e bw [OF t] using False by simp
    qed
    finally show "bit (out ! i) j \<longleftrightarrow> bit (drop_bit r (w64 w)) (8 * i + j)" by (simp add: bit_drop_bit_eq add.commute)
  qed
qed

subsection \<open>Completeness\<close>

lemma cut_total:
  assumes "widthsFromCuts cuts = Some ws" and "chunked b ws c" and "k \<in> set cuts" and "k \<le> 8"
  shows "\<exists>lo up. sigmaByteAtCut c k = Some (lo, up)"
proof -
  have l: "length (sb_values c) = length ws" using assms(2) chunks_ok_length by (auto simp: chunked_def)
  have "\<exists>r. at_cut k (sb_values c) ws (sb_offsets c) = Some r"
    using at_cut_total [OF assms(1) [unfolded widthsFromCuts_def] l] assms(2,3) by (simp add: chunked_def)
  then show ?thesis using assms(2,4) by (auto simp: sigmaByteAtCut_def chunked_def)
qed

lemma mapm_total: "(\<And>x. x \<in> set xs \<Longrightarrow> \<exists>y. f x = Some y) \<Longrightarrow> \<exists>ys. mapm f xs = Some ys"
proof (induction xs)
  case (Cons x xs)
  obtain y where "f x = Some y" using Cons.prems [of x] by auto
  moreover obtain ys where "mapm f xs = Some ys" using Cons.IH Cons.prems by auto
  ultimately show ?case by simp
qed simp

lemma rotate_total:
  assumes "gnark_doc G" and "chunked_word w ws cs" and "widthsFromCuts cuts = Some ws"
    and "r mod 8 = 0 \<or> r mod 8 \<in> set cuts"
  shows "\<exists>out. rotateRightFromSigmaChunks G cs r = Some out"
proof -
  have c: "\<And>i. i < 8 \<Longrightarrow> chunked (w ! i) ws (cs ! i)" using assms(2) by (simp add: chunked_word_def)
  have k: "r mod 8 \<le> 8" using mod_less_divisor [of 8 r] by linarith
  show ?thesis
    unfolding rotateRightFromSigmaChunks_def Let_def
  proof (rule mapm_total)
    fix i :: nat
    let ?s = "(i + r div 8) mod 8"
    have sn: "?s < 8" "(?s + 1) mod 8 < 8" by simp_all
    note cs = c [OF sn(1)] c [OF sn(2)]
    show "\<exists>y. (if r mod 8 = 0 then g_pack_lsb G (sb_values (cs ! ?s)) (sb_widths (cs ! ?s))
        else do { (uu, upper) \<leftarrow> sigmaByteAtCut (cs ! ?s) (r mod 8);
               (lower, uu) \<leftarrow> sigmaByteAtCut (cs ! ((?s + 1) mod 8)) (r mod 8);
               packSigmaByte G [upper, lower] }) = Some y"
    proof (cases "r mod 8 = 0")
      case True
      then show ?thesis using chunked_byte [OF assms(1) cs(1)] by simp
    next
      case False
      then have "r mod 8 \<in> set cuts" using assms(4) by simp
      then obtain lo up lo' up' where h: "sigmaByteAtCut (cs ! ?s) (r mod 8) = Some (lo, up)"
          "sigmaByteAtCut (cs ! ((?s + 1) mod 8)) (r mod 8) = Some (lo', up')"
        using cut_total [OF assms(3) cs(1) _ k] cut_total [OF assms(3) cs(2) _ k] by blast
      then show ?thesis using join_byte_total [OF assms(1) cs k h] False by simp
    qed
  qed
qed

lemma pad_total:
  assumes "gnark_doc G" and "chunked b ws c" and "k \<le> 8" and "sigmaByteAtCut c k = Some (lo, up)"
  shows "\<exists>r. packSigmaByte G [up, ([0], [k])] = Some r"
proof -
  obtain uv uw lv lw where p: "up = (uv, uw)" "lo = (lv, lw)" by fastforce
  have s: "sum_list ws = 8" using chunked_byte [OF assms(1,2)] by blast
  have a: "chunks_ok uv uw" "sum_list uw = 8 - k"
    using at_cut_value [of "sb_values c" ws 0 "sb_offsets c" k lv lw uv uw] assms(2-4) s
    by (auto simp: chunked_def sigmaByteAtCut_def p split: if_splits)
  have ok: "chunks_ok (uv @ [0]) (uw @ [k])" using a(1) chunks_ok_append [OF chunks_ok_length [OF a(1)]] by simp
  show ?thesis using pack_chunks [OF assms(1) ok] a assms(3) by (simp add: packSigmaByte_def p)
qed

lemma shift_total:
  assumes "gnark_doc G" and "chunked_word w ws cs" and "widthsFromCuts cuts = Some ws"
    and "r mod 8 = 0 \<or> r mod 8 \<in> set cuts"
  shows "\<exists>out. shiftRightFromSigmaChunks G cs r = Some out"
proof -
  have c: "\<And>i. i < 8 \<Longrightarrow> chunked (w ! i) ws (cs ! i)" using assms(2) by (simp add: chunked_word_def)
  have k: "r mod 8 \<le> 8" using mod_less_divisor [of 8 r] by linarith
  show ?thesis
    unfolding shiftRightFromSigmaChunks_def Let_def
  proof (rule mapm_total)
    fix i :: nat
    let ?s = "i + r div 8"
    show "\<exists>y. (if 8 \<le> ?s then Some 0
        else if r mod 8 = 0 then g_pack_lsb G (sb_values (cs ! ?s)) (sb_widths (cs ! ?s))
        else do { (uu, upper) \<leftarrow> sigmaByteAtCut (cs ! ?s) (r mod 8);
                  if ?s + 1 < 8 then
                    do { (lower, uu) \<leftarrow> sigmaByteAtCut (cs ! (?s + 1)) (r mod 8);
                         packSigmaByte G [upper, lower] }
                  else packSigmaByte G [upper, ([0], [r mod 8])] }) = Some y"
    proof (cases "8 \<le> ?s \<or> r mod 8 = 0")
      case True
      then show ?thesis using chunked_byte [OF assms(1) c [of ?s]] by auto
    next
      case False
      then have m: "r mod 8 \<in> set cuts" "?s < 8" using assms(4) by auto
      obtain lo up where h: "sigmaByteAtCut (cs ! ?s) (r mod 8) = Some (lo, up)"
        using cut_total [OF assms(3) c [OF m(2)] m(1) k] by blast
      show ?thesis
      proof (cases "?s + 1 < 8")
        case True
        obtain lo' up' where h': "sigmaByteAtCut (cs ! (?s + 1)) (r mod 8) = Some (lo', up')"
          using cut_total [OF assms(3) c [OF True] m(1) k] by blast
        then show ?thesis using join_byte_total [OF assms(1) c [OF m(2)] c [OF True] k h h'] False True h by simp
      next
        case n: False
        then show ?thesis using pad_total [OF assms(1) c [OF m(2)] k h] False h by simp
      qed
    qed
  qed
qed

subsection \<open>The whole function\<close>

lemma xors_sound:
  assumes "gnark_doc G" and "\<forall>w \<in> set ws. u64_ok w" and "ws \<noteq> []"
  shows "u64_ok (xors G ws) \<and> w64 (xors G ws) = foldl (XOR) 0 (map w64 ws)"
proof -
  have "u64_ok (foldl (g_xor G) v vs) \<and> w64 (foldl (g_xor G) v vs) = foldl (XOR) (w64 v) (map w64 vs)"
    if "u64_ok v" "\<forall>w \<in> set vs. u64_ok w" for v vs
    using that
  proof (induction vs arbitrary: v)
    case (Cons x xs)
    then have "u64_ok (g_xor G v x)" "w64 (g_xor G v x) = w64 v XOR w64 x" using doc_words(5) [OF assms(1)] by simp_all
    then show ?case using Cons.IH [of "g_xor G v x"] Cons.prems by simp
  qed simp
  with assms(2,3) show ?thesis by (cases ws) (simp_all add: xors_def)
qed

text \<open>The word the specification uses.\<close>

definition sigma_word :: "nat list \<Rightarrow> nat \<Rightarrow> u64 \<Rightarrow> u64" where
  "sigma_word rotations rightShift x =
     foldl (XOR) 0 (map (\<lambda>r. word_rotr r x) rotations @ (if rightShift > 0 then [drop_bit rightShift x] else []))"

lemma widths_total:
  assumes "sorted_wrt (<) (p # cuts)" and "\<forall>c \<in> set (p # cuts). c < 8"
  shows "\<exists>ws. widths_from p cuts = Some ws \<and> (\<exists>os. chunk_offsets p ws = Some os)"
  using assms
proof (induction cuts arbitrary: p)
  case Nil
  then show ?case by simp
next
  case (Cons c cuts)
  have "sorted_wrt (<) (c # cuts)" "\<forall>d \<in> set (c # cuts). d < 8" "p < c" "c < 8" using Cons.prems by simp_all
  moreover from Cons.IH [OF this(1,2)] obtain ws os where "widths_from c cuts = Some ws" "chunk_offsets c ws = Some os"
    by blast
  ultimately show ?case by simp
qed

lemma widths_offsets:
  "widths_from p cuts = Some ws \<Longrightarrow> p < 8 \<Longrightarrow> \<exists>os. chunk_offsets p ws = Some os"
  by (induction p cuts arbitrary: ws rule: widths_from.induct) (auto simp: bind_eq_Some_conv split: if_splits)

lemma cuts_ok:
  assumes "sigmaCutPositions rotations rightShift = Some cuts"
  shows "(\<forall>r \<in> set rotations. r < 64 \<and> (r mod 8 = 0 \<or> r mod 8 \<in> set cuts)) \<and> rightShift < 64 \<and>
     (rightShift mod 8 = 0 \<or> rightShift mod 8 \<in> set cuts)"
  using assms by (auto simp: sigmaCutPositions_def Let_def list_ex_iff split: if_splits)

lemma sigmaRot_sound:
  assumes "gnark_doc G" and "u64_ok word" and "sigmaRot G adv word rotations rightShift = Some out"
  shows "u64_ok out \<and> w64 out = sigma_word rotations rightShift (w64 word)"
proof -
  obtain cuts ws cs terms shifted where h: "rotations \<noteq> []" "sigmaCutPositions rotations rightShift = Some cuts"
      "widthsFromCuts cuts = Some ws" "mapm (\<lambda>i. decomposeSigmaByte G (at adv [i]) (word ! i) ws) [0..<8] = Some cs"
      "mapm (rotateRightFromSigmaChunks G cs) rotations = Some terms"
      "(if rightShift > 0 then map_option (\<lambda>t. [t]) (shiftRightFromSigmaChunks G cs rightShift) else Some []) = Some shifted"
      "out = xors G (terms @ shifted)"
  proof -
    have n: "rotations \<noteq> []" using assms(3) by (auto simp: sigmaRot_def)
    show thesis
      using assms(3) unfolding sigmaRot_def if_not_P [OF n] bind_eq_Some_conv option.inject
      by (elim exE conjE) (rule that [OF n], assumption+, simp)
  qed
  obtain os where os: "chunk_offsets 0 ws = Some os" using widths_offsets [OF h(3) [unfolded widthsFromCuts_def]] by auto
  then have s: "sum_list ws = 8" using chunk_offsets_sum by fastforce
  have cw: "chunked_word word ws cs"
    using h(4) assms(2) bytes_ok_nth decompose_sound [OF assms(1) _ s] by (auto simp: mapm_upt8 chunked_word_def u64_ok_def)
  have t: "list_all2 (\<lambda>r t. u64_ok t \<and> w64 t = word_rotr r (w64 word)) rotations terms"
    unfolding list_all2_conv_all_nth
  proof (intro conjI allI impI)
    show l: "length rotations = length terms" using h(5) by (simp add: mapm_Some list_all2_lengthD)
    fix i assume i: "i < length rotations"
    then have "rotateRightFromSigmaChunks G cs (rotations ! i) = Some (terms ! i)"
      using h(5) by (simp add: mapm_Some list_all2_conv_all_nth)
    moreover have "rotations ! i < 64" using cuts_ok [OF h(2)] i nth_mem by blast
    ultimately show "u64_ok (terms ! i)" "w64 (terms ! i) = word_rotr (rotations ! i) (w64 word)"
      using rotate_sound [OF assms(1) cw] by blast+
  qed
  then have t': "\<forall>t \<in> set terms. u64_ok t" "map w64 terms = map (\<lambda>r. word_rotr r (w64 word)) rotations"
    by (auto simp: list_all2_conv_all_nth in_set_conv_nth intro: nth_equalityI)
  have sh: "(\<forall>t \<in> set shifted. u64_ok t) \<and> map w64 shifted = (if rightShift > 0 then [drop_bit rightShift (w64 word)] else [])"
    using h(6) cuts_ok [OF h(2)] shift_sound [OF assms(1) cw] by (auto split: if_splits)
  have "terms \<noteq> []" using t h(1) by auto
  then show ?thesis
    using xors_sound [OF assms(1), of "terms @ shifted"] t' sh by (auto simp: h(7) sigma_word_def)
qed

lemma sigmaRot_honest:
  assumes "gnark_doc G" and "honest adv" and "u64_ok word" and "rotations \<noteq> []"
    and "\<forall>r \<in> set rotations. 0 < r \<and> r < 64" and "rightShift < 64"
  shows "\<exists>out. sigmaRot G adv word rotations rightShift = Some out"
proof -
  define cs where "cs = map (\<lambda>r. r mod 8) rotations @ (if rightShift > 0 then [rightShift mod 8] else [])"
  define cuts where "cuts = sort (remdups (filter (\<lambda>c. c \<noteq> 0) cs))"
  have "\<not> (list_ex (\<lambda>r. r = 0 \<or> r \<ge> 64) rotations \<or> rightShift \<ge> 64)"
    using assms(5,6) by (auto simp: list_ex_iff)
  then have cuts: "sigmaCutPositions rotations rightShift = Some cuts"
      "sorted cuts" "distinct cuts" "\<forall>c \<in> set cuts. 0 < c \<and> c < 8"
    by (auto simp: sigmaCutPositions_def Let_def cuts_def cs_def)
  then have "sorted_wrt (<) (0 # cuts)" using cuts(2-4) by (auto simp: strict_sorted_iff)
  then obtain ws os where ws: "widths_from 0 cuts = Some ws" "chunk_offsets 0 ws = Some os"
    using widths_total [of 0 cuts] cuts(4) by auto
  have s: "sum_list ws = 8" using chunk_offsets_sum [OF ws(2)] by simp
  have "\<exists>cs. mapm (\<lambda>i. decomposeSigmaByte G (at adv [i]) (word ! i) ws) [0..<8] = Some cs"
  proof (rule mapm_total)
    fix i assume "i \<in> set [0..<8]"
    then have "byte_ok (word ! i)" using assms(3) bytes_ok_nth by (simp add: u64_ok_def)
    then show "\<exists>c. decomposeSigmaByte G (at adv [i]) (word ! i) ws = Some c"
      using decompose_honest [OF assms(1) honest_at [OF assms(2)] _ ws(2)] by blast
  qed
  then obtain cs where cs: "mapm (\<lambda>i. decomposeSigmaByte G (at adv [i]) (word ! i) ws) [0..<8] = Some cs" by blast
  have cw: "chunked_word word ws cs"
    using cs assms(3) bytes_ok_nth decompose_sound [OF assms(1) _ s] by (auto simp: mapm_upt8 chunked_word_def u64_ok_def)
  have w: "widthsFromCuts cuts = Some ws" using ws(1) by (simp add: widthsFromCuts_def)
  obtain terms where t: "mapm (rotateRightFromSigmaChunks G cs) rotations = Some terms"
    using mapm_total [of rotations "rotateRightFromSigmaChunks G cs"] rotate_total [OF assms(1) cw w] cuts_ok [OF cuts(1)] by blast
  have "rightShift mod 8 = 0 \<or> rightShift mod 8 \<in> set cuts" using cuts_ok [OF cuts(1)] by simp
  from shift_total [OF assms(1) cw w this] obtain sh where "shiftRightFromSigmaChunks G cs rightShift = Some sh"
    by blast
  with cuts(1) w cs t assms(4) show ?thesis by (simp add: sigmaRot_def)
qed

lemma sigma_words:
  "sigma_word [19, 61] 6 x = small_sigma1 x" "sigma_word [1, 8] 7 x = small_sigma0 x"
  "sigma_word [14, 18, 41] 0 x = big_sigma1 x" "sigma_word [28, 34, 39] 0 x = big_sigma0 x"
  by (simp_all add: sigma_word_def small_sigma1_def small_sigma0_def big_sigma1_def big_sigma0_def ac_simps)

end
