(* ===== verification/ShaGadget.thy ===== *)
theory ShaGadget
  imports ShaSigma
begin

text \<open>
  \<^verbatim>\<open>internal/circuit/sha512/sha/gadget.go\<close>: the compression function, padding, SHA-512, HMAC-SHA512 and
  the paired HMAC that shares the key-dependent compressions. For every advice the outputs
  are those of the reference of theory Sha512 on the same bytes; for the honest advice
  there is an output. \<open>sum_ok v x n\<close> states that the native value \<open>v\<close> is a sum of \<open>n\<close> words
  that is \<open>x\<close> modulo \<open>2 ^ 64\<close>: the bound under which the carry limb of
  \<^verbatim>\<open>Materialize64\<close> is wide enough.
\<close>


section \<open>Round functions\<close>

definition choose512 :: "gnark \<Rightarrow> U64 \<Rightarrow> U64 \<Rightarrow> U64 \<Rightarrow> U64" where
  "choose512 G e f g = g_xor G g (g_and G e (g_xor G f g))"

definition majorityFromXors :: "gnark \<Rightarrow> U64 \<Rightarrow> U64 \<Rightarrow> U64 \<Rightarrow> U64" where
  "majorityFromXors G b aXorB bXorC = g_xor G b (g_and G aXorB bXorC)"

definition majority :: "gnark \<Rightarrow> U64 \<Rightarrow> U64 \<Rightarrow> U64 \<Rightarrow> U64" where
  "majority G a b c = majorityFromXors G b (g_xor G a b) (g_xor G b c)"

section \<open>Compression\<close>

text \<open>\<^verbatim>\<open>Permute512\<close>: the schedule, the eighty rounds and the feed-forward.\<close>

definition schedule_step :: "gnark \<Rightarrow> advice \<Rightarrow> U64 list \<Rightarrow> nat \<Rightarrow> U64 list option" where
  "schedule_step G adv w i = do {
     s1 \<leftarrow> sigmaRot G (at adv [0, i, 0]) (w ! (i - 2)) [19, 61] 6;
     s0 \<leftarrow> sigmaRot G (at adv [0, i, 1]) (w ! (i - 15)) [1, 8] 7;
     x \<leftarrow> Add64 G (at adv [0, i, 2]) 2 [s1, w ! (i - 7), s0, w ! (i - 16)];
     Some (w @ [x]) }"

definition compression_round ::
    "gnark \<Rightarrow> advice \<Rightarrow> U64 list \<Rightarrow> U64 regs \<times> U64 \<Rightarrow> nat \<Rightarrow> (U64 regs \<times> U64) option" where
  "compression_round G adv w = (\<lambda>((a, b, c, d, e, f, g, h), bXorC) i. do {
     s1 \<leftarrow> sigmaRot G (at adv [1, i, 0]) e [14, 18, 41] 0;
     t1 \<leftarrow> NativeSum64 G [h, s1, choose512 G e f g, g_new_u64 G (K512 ! i), w ! i];
     let aXorB = g_xor G a b;
     s0 \<leftarrow> sigmaRot G (at adv [1, i, 1]) a [28, 34, 39] 0;
     t2 \<leftarrow> NativeSum64 G [s0, majorityFromXors G b aXorB bXorC];
     e' \<leftarrow> Materialize64 G (at adv [1, i, 2]) (g_add G (g_to_value G d) t1) 3;
     a' \<leftarrow> Materialize64 G (at adv [1, i, 3]) (g_add G t1 t2) 3;
     Some ((a', a, b, c, e', e, f, g), aXorB) })"

definition Permute512 :: "gnark \<Rightarrow> advice \<Rightarrow> U64 list \<Rightarrow> U8 list \<Rightarrow> U64 list option" where
  "Permute512 G adv currentHash p = do {
     w \<leftarrow> foldm (schedule_step G adv) (map (\<lambda>i. g_pack_msb G (take 8 (drop (8 * i) p))) [0..<16]) [16..<80];
     st \<leftarrow> foldm (compression_round G adv w)
        (regs currentHash, g_xor G (currentHash ! 1) (currentHash ! 2)) [0..<80];
     mapm (\<lambda>i. Add64 G (at adv [2, i]) 1 [currentHash ! i, unregs (fst st) ! i]) [0..<8] }"

section \<open>Padding and hash\<close>

definition len_bytes :: "nat \<Rightarrow> U8 list" where
  "len_bytes bytesLen = (let bitLen = of_nat (8 * bytesLen) :: u64 in
     map (\<lambda>i. if i < 8 then 0 else uint (ucast (drop_bit (8 * (7 - (i - 8))) bitLen) :: u8)) [0..<16])"

definition padSHA512AfterPrefix :: "int \<Rightarrow> U8 list \<Rightarrow> U8 list option" where
  "padSHA512AfterPrefix prefixBytes suffix =
     (if prefixBytes < 0 \<or> prefixBytes mod 128 \<noteq> 0 then None
      else let totalBytes = prefixBytes + int (length suffix); z = 111 - totalBytes mod 128;
        zeroPadLen = (if z < 0 then z + 128 else z)
      in Some (suffix @ [128] @ replicate (nat zeroPadLen) 0 @ len_bytes (nat totalBytes)))"

definition padSHA512 :: "U8 list \<Rightarrow> U8 list" where
  "padSHA512 input =
     (let z = 111 - int (length input) mod 128; zeroPadLen = (if z < 0 then z + 128 else z)
      in input @ [128] @ replicate (nat zeroPadLen) 0 @ len_bytes (length input))"

definition hash_blocks :: "gnark \<Rightarrow> advice \<Rightarrow> U64 list \<Rightarrow> U8 list \<Rightarrow> U64 list option" where
  "hash_blocks G adv state padded =
     foldm (\<lambda>h i. Permute512 G (at adv [i]) h (take 128 (drop (128 * i) padded))) state [0..<length padded div 128]"

definition sha512InitialState :: "gnark \<Rightarrow> U64 list" where
  "sha512InitialState G = map (g_new_u64 G) seed512"

definition Sum512 :: "gnark \<Rightarrow> advice \<Rightarrow> U8 list \<Rightarrow> U8 list option" where
  "Sum512 G adv input = do {
     h \<leftarrow> hash_blocks G adv (sha512InitialState G) (padSHA512 input);
     Some (concat (map (g_unpack_msb G) h)) }"

definition sum512AfterPrefix :: "gnark \<Rightarrow> advice \<Rightarrow> U64 list \<Rightarrow> int \<Rightarrow> U8 list \<Rightarrow> U8 list option" where
  "sum512AfterPrefix G adv state prefixBytes suffix = do {
     padded \<leftarrow> padSHA512AfterPrefix prefixBytes suffix;
     h \<leftarrow> hash_blocks G adv state padded;
     Some (concat (map (g_unpack_msb G) h)) }"

section \<open>HMAC\<close>

definition hmac_k0 :: "gnark \<Rightarrow> advice \<Rightarrow> U8 list \<Rightarrow> U8 list option" where
  "hmac_k0 G adv key =
     (if length key > 128 then do { kh \<leftarrow> Sum512 G adv key; Some (kh @ replicate 64 0) }
      else Some (key @ replicate (128 - length key) 0))"

definition HMACSHA512 :: "gnark \<Rightarrow> advice \<Rightarrow> U8 list \<Rightarrow> U8 list \<Rightarrow> U8 list option" where
  "HMACSHA512 G adv key msg = do {
     k0 \<leftarrow> hmac_k0 G (at adv [0]) key;
     innerHash \<leftarrow> Sum512 G (at adv [1]) (map (\<lambda>b. g_xor8 G b 0x36) k0 @ msg);
     Sum512 G (at adv [2]) (map (\<lambda>b. g_xor8 G b 0x5c) k0 @ innerHash) }"

definition hmacSHA512KeyBlocks :: "gnark \<Rightarrow> advice \<Rightarrow> U8 list \<Rightarrow> (U8 list \<times> U8 list) option" where
  "hmacSHA512KeyBlocks G adv key = do {
     k0 \<leftarrow> hmac_k0 G adv key;
     Some (map (\<lambda>b. g_xor8 G b 0x36) k0, map (\<lambda>b. g_xor8 G b 0x5c) k0) }"

definition HMACSHA512Pair ::
    "gnark \<Rightarrow> advice \<Rightarrow> U8 list \<Rightarrow> U8 list \<Rightarrow> U8 list \<Rightarrow> (U8 list \<times> U8 list) option" where
  "HMACSHA512Pair G adv key msg1 msg2 = do {
     (ipadBlock, opadBlock) \<leftarrow> hmacSHA512KeyBlocks G (at adv [0]) key;
     innerState \<leftarrow> Permute512 G (at adv [1]) (sha512InitialState G) ipadBlock;
     inner1 \<leftarrow> sum512AfterPrefix G (at adv [2]) innerState 128 msg1;
     inner2 \<leftarrow> sum512AfterPrefix G (at adv [3]) innerState 128 msg2;
     outerState \<leftarrow> Permute512 G (at adv [4]) (sha512InitialState G) opadBlock;
     mac1 \<leftarrow> sum512AfterPrefix G (at adv [5]) outerState 128 inner1;
     mac2 \<leftarrow> sum512AfterPrefix G (at adv [6]) outerState 128 inner2;
     Some (mac1, mac2) }"

section \<open>Round functions are those of FIPS 180-4\<close>

definition word_ok :: "U64 \<Rightarrow> u64 \<Rightarrow> bool" where
  "word_ok w x \<longleftrightarrow> u64_ok w \<and> w64 w = x"

lemma word_okI: "u64_ok w \<Longrightarrow> word_ok w (w64 w)"
  by (simp add: word_ok_def)

lemma word_ok_ops:
  assumes "gnark_doc G" and "word_ok v x" and "word_ok w y"
  shows "word_ok (g_xor G v w) (x XOR y)" "word_ok (g_and G v w) (x AND y)"
  using doc_words(5,6) [OF assms(1)] assms(2,3) by (simp_all add: word_ok_def)

lemma word_ok_const: "gnark_doc G \<Longrightarrow> word_ok (g_new_u64 G x) x"
  using doc_msb(1) by (simp add: word_ok_def)

lemma choose512_is_ch:
  assumes "gnark_doc G" and "word_ok e x" and "word_ok f y" and "word_ok g z"
  shows "word_ok (choose512 G e f g) (ch x y z)"
proof -
  have "word_ok (choose512 G e f g) (z XOR (x AND (y XOR z)))"
    unfolding choose512_def by (intro word_ok_ops assms)
  moreover have "z XOR (x AND (y XOR z)) = ch x y z"
    by (rule bit_word_eqI) (auto simp: ch_def bit_simps)
  ultimately show ?thesis by simp
qed

lemma majority_from_xors:
  assumes "gnark_doc G" and "word_ok b y" and "word_ok ab (x XOR y)" and "word_ok bc (y XOR z)"
  shows "word_ok (majorityFromXors G b ab bc) (maj x y z)"
proof -
  have "word_ok (majorityFromXors G b ab bc) (y XOR ((x XOR y) AND (y XOR z)))"
    unfolding majorityFromXors_def by (intro word_ok_ops assms)
  moreover have "y XOR ((x XOR y) AND (y XOR z)) = maj x y z"
    by (rule bit_word_eqI) (auto simp: maj_def bit_simps)
  ultimately show ?thesis by simp
qed

lemma majority_is_maj:
  assumes "gnark_doc G" and "word_ok a x" and "word_ok b y" and "word_ok c z"
  shows "word_ok (majority G a b c) (maj x y z)"
  unfolding majority_def by (intro majority_from_xors word_ok_ops assms)

lemma sigma_word_ok:
  assumes "gnark_doc G" and "word_ok w x" and "sigmaRot G adv w rs k = Some out"
  shows "word_ok out (sigma_word rs k x)"
  using sigmaRot_sound [OF assms(1) _ assms(3)] assms(2) by (simp add: word_ok_def)

section \<open>Sums\<close>

text \<open>A native sum of \<open>n\<close> words.\<close>

definition sum_ok :: "int \<Rightarrow> u64 \<Rightarrow> nat \<Rightarrow> bool" where
  "sum_ok v x n \<longleftrightarrow> 0 \<le> v \<and> v \<le> int n * (2 ^ 64 - 1) \<and> word_of_int v = x"

lemma sum_ok_small:
  assumes "sum_ok v x n" and "n \<le> 16"
  shows "0 \<le> v" "v < 2 ^ 70"
proof -
  have "int n * (2 ^ 64 - 1) \<le> 16 * (2 ^ 64 - 1)" using assms(2) by (intro mult_right_mono) simp_all
  then show "v < 2 ^ 70" "0 \<le> v" using assms(1) by (simp_all add: sum_ok_def)
qed

lemma NativeSum64_ok:
  assumes "gnark_doc G" and "list_all2 word_ok ws xs" and "ws \<noteq> []" and "length ws \<le> 16"
  shows "\<exists>v. NativeSum64 G ws = Some v \<and> sum_ok v (sum_list xs) (length ws)"
proof -
  have ok: "\<forall>w \<in> set ws. u64_ok w" and m: "map w64 ws = xs"
    using assms(2) by (auto simp: list_all2_conv_all_nth in_set_conv_nth word_ok_def intro!: nth_equalityI)
  have "(word_of_int (\<Sum>w \<leftarrow> ws. le_val w) :: u64) = sum_list (map w64 ws)"
    by (simp add: word_of_int_sum_list w64_def [abs_def])
  then show ?thesis
    using NativeSum64_value [OF assms(1) ok assms(3,4)] sum_words_bound [OF ok] by (simp add: sum_ok_def m)
qed

lemma word_sum_ok: "gnark_doc G \<Longrightarrow> word_ok w x \<Longrightarrow> sum_ok (g_to_value G w) x 1"
  using doc_words(3) u64_ok_bounds [of w] by (auto simp: word_ok_def sum_ok_def w64_def)

lemma sum_ok_add:
  assumes "gnark_doc G" and "sum_ok v x n" and "sum_ok v' y m" and "n + m \<le> 16"
  shows "sum_ok (g_add G v v') (x + y) (n + m)"
proof -
  have b: "0 \<le> v" "v < 2 ^ 70" "0 \<le> v'" "v' < 2 ^ 70"
    using sum_ok_small [OF assms(2)] sum_ok_small [OF assms(3)] assms(4) by simp_all
  then have "g_add G v v' = v + v'" by (intro add_small [OF assms(1)]) simp_all
  then show ?thesis using assms(2,3) by (auto simp: sum_ok_def algebra_simps)
qed

lemma Materialize64_word:
  assumes "gnark_doc G" and "sum_ok v x n" and "n \<le> 16" and "k \<le> 16" and "Materialize64 G adv v k = Some out"
  shows "word_ok out x"
proof -
  have "fe G v" using sum_ok_small [OF assms(2,3)] by (intro fe_small [OF assms(1)]) simp_all
  from Materialize64_sound [OF assms(1) this assms(4,5)] show ?thesis
    using assms(2) by (simp add: word_ok_def sum_ok_def)
qed

lemma Materialize64_some:
  assumes "gnark_doc G" and "honest adv" and "sum_ok v x n" and "n \<le> 2 ^ k" and "1 \<le> k" "k \<le> 16"
  shows "\<exists>out. Materialize64 G adv v k = Some out"
proof (rule Materialize64_honest [OF assms(1,2)])
  have "int n \<le> 2 ^ k" using assms(4) by (metis of_nat_le_iff of_nat_numeral of_nat_power)
  then have "int n * (2 ^ 64 - 1) \<le> 2 ^ k * (2 ^ 64 - 1)" by (intro mult_right_mono) simp_all
  also have "\<dots> < 2 ^ (64 + k)" by (simp add: power_add algebra_simps)
  finally show "v < 2 ^ (64 + k)" "0 \<le> v" using assms(3) by (simp_all add: sum_ok_def)
qed (use assms in simp_all)

lemma Add64_word:
  assumes "gnark_doc G" and "list_all2 word_ok ws xs" and "ws \<noteq> []" and "length ws \<le> 16" and "k \<le> 16"
    and "Add64 G adv k ws = Some out"
  shows "word_ok out (sum_list xs)"
proof -
  obtain v where "NativeSum64 G ws = Some v" "sum_ok v (sum_list xs) (length ws)"
    using NativeSum64_ok [OF assms(1-4)] by blast
  then show ?thesis using Materialize64_word [OF assms(1) _ assms(4,5)] assms(6) by (simp add: Add64_def)
qed

lemma Add64_some:
  assumes "gnark_doc G" and "honest adv" and "list_all2 word_ok ws xs" and "ws \<noteq> []" and "length ws \<le> 16"
    and "length ws \<le> 2 ^ k" "1 \<le> k" "k \<le> 16"
  shows "\<exists>out. Add64 G adv k ws = Some out"
proof -
  obtain v where "NativeSum64 G ws = Some v" "sum_ok v (sum_list xs) (length ws)"
    using NativeSum64_ok [OF assms(1,3-5)] by blast
  then show ?thesis using Materialize64_some [OF assms(1,2) _ assms(6-8)] by (simp add: Add64_def)
qed

section \<open>Loops over an index range\<close>

lemma foldm_upt_rel:
  assumes "\<And>i s t s'. m \<le> i \<Longrightarrow> i < n \<Longrightarrow> R i s t \<Longrightarrow> f s i = Some s' \<Longrightarrow> R (Suc i) s' (g t i)"
    and "R m s t" and "m \<le> n" and "foldm f s [m..<n] = Some s'"
  shows "R n s' (foldl g t [m..<n])"
  using assms(3,1,4)
proof (induction n arbitrary: s' rule: dec_induct)
  case base
  then show ?case using assms(2) by simp
next
  case (step k)
  from step.prems(2) step.hyps obtain u where u: "foldm f s [m..<k] = Some u" "f u k = Some s'"
    by (auto simp: foldm_snoc bind_eq_Some_conv)
  have "R k u (foldl g t [m..<k])" by (rule step.IH [OF step.prems(1) u(1)]) simp_all
  from step.prems(1) [OF step.hyps(1) _ this u(2)] step.hyps show ?case by simp
qed

lemma foldm_upt_some:
  assumes "\<And>i s t s'. m \<le> i \<Longrightarrow> i < n \<Longrightarrow> R i s t \<Longrightarrow> f s i = Some s' \<Longrightarrow> R (Suc i) s' (g t i)"
    and "\<And>i s t. m \<le> i \<Longrightarrow> i < n \<Longrightarrow> R i s t \<Longrightarrow> \<exists>s'. f s i = Some s'"
    and "R m s t" and "m \<le> n"
  shows "\<exists>s'. foldm f s [m..<n] = Some s'"
  using assms(4,1,2)
proof (induction n rule: dec_induct)
  case base
  then show ?case by simp
next
  case (step k)
  have "\<exists>u. foldm f s [m..<k] = Some u"
    by (rule step.IH) (use step.prems step.hyps in \<open>simp_all add: less_Suc_eq\<close>)
  then obtain u where u: "foldm f s [m..<k] = Some u" by blast
  have "R k u (foldl g t [m..<k])"
    by (rule foldm_upt_rel [where f = f and R = R, OF _ assms(3) step.hyps(1) u]) (use step.prems(1) in simp)
  then have "\<exists>s'. f u k = Some s'" using step.prems(2) [OF step.hyps(1)] by simp
  with u step.hyps show ?case by (auto simp: foldm_snoc)
qed

section \<open>The compression function\<close>

lemma words_ok_nth: "list_all2 word_ok w xs \<Longrightarrow> i < length w \<Longrightarrow> word_ok (w ! i) (xs ! i)"
  by (rule list_all2_nthD)

lemma schedule_step_ok:
  assumes "gnark_doc G" and "16 \<le> i" and "length w = i \<and> list_all2 word_ok w xs"
  shows "schedule_step G adv w i = Some w' \<Longrightarrow> length w' = Suc i \<and> list_all2 word_ok w' (sched_step xs i)"
    and "honest adv \<Longrightarrow> \<exists>w'. schedule_step G adv w i = Some w'"
proof -
  have l: "length w = i" "length xs = i" and w: "list_all2 word_ok w xs"
    using assms(3) by (auto dest: list_all2_lengthD)
  have n: "word_ok (w ! j) (xs ! j)" if "j < i" for j using words_ok_nth [OF w] that l by simp
  have args: "list_all2 word_ok [s1, w ! (i - 7), s0, w ! (i - 16)]
      [small_sigma1 (xs ! (i - 2)), xs ! (i - 7), small_sigma0 (xs ! (i - 15)), xs ! (i - 16)]"
    if "sigmaRot G (at adv [0, i, 0]) (w ! (i - 2)) [19, 61] 6 = Some s1"
      "sigmaRot G (at adv [0, i, 1]) (w ! (i - 15)) [1, 8] 7 = Some s0" for s0 s1
    using sigma_word_ok [OF assms(1) n that(1)] sigma_word_ok [OF assms(1) n that(2)] n assms(2)
    by (simp add: sigma_words [unfolded One_nat_def])
  show "schedule_step G adv w i = Some w' \<Longrightarrow> length w' = Suc i \<and> list_all2 word_ok w' (sched_step xs i)"
  proof -
    assume "schedule_step G adv w i = Some w'"
    then obtain s1 s0 x where h: "sigmaRot G (at adv [0, i, 0]) (w ! (i - 2)) [19, 61] 6 = Some s1"
        "sigmaRot G (at adv [0, i, 1]) (w ! (i - 15)) [1, 8] 7 = Some s0"
        "Add64 G (at adv [0, i, 2]) 2 [s1, w ! (i - 7), s0, w ! (i - 16)] = Some x" "w' = w @ [x]"
      unfolding schedule_step_def bind_eq_Some_conv option.inject by blast
    have "word_ok x (small_sigma1 (xs ! (i - 2)) + xs ! (i - 7) + small_sigma0 (xs ! (i - 15)) + xs ! (i - 16))"
      using Add64_word [OF assms(1) args [OF h(1,2)] _ _ _ h(3)] by (simp add: ac_simps)
    then show ?thesis using w l by (simp add: h(4) sched_step_def list_all2_appendI)
  qed
  show "\<exists>w'. schedule_step G adv w i = Some w'" if h: "honest adv"
  proof -
    have s: "\<exists>out. sigmaRot G (at adv p) (w ! j) rs k = Some out"
      if "j < i" "rs \<noteq> []" "\<forall>r \<in> set rs. 0 < r \<and> r < 64" "k < 64" for p j rs k
      using sigmaRot_honest [OF assms(1) honest_at [OF h] _ that(2-4)] n [OF that(1)] by (simp add: word_ok_def)
    obtain s1 where s1: "sigmaRot G (at adv [0, i, 0]) (w ! (i - 2)) [19, 61] 6 = Some s1" using s assms(2) by fastforce
    obtain s0 where s0: "sigmaRot G (at adv [0, i, 1]) (w ! (i - 15)) [1, 8] 7 = Some s0" using s assms(2) by fastforce
    have "\<exists>x. Add64 G (at adv [0, i, 2]) 2 [s1, w ! (i - 7), s0, w ! (i - 16)] = Some x"
      using Add64_some [OF assms(1) honest_at [OF h] args [OF s1 s0]] by simp
    with s1 s0 show ?thesis by (auto simp: schedule_step_def)
  qed
qed

type_synonym state = "U64 regs \<times> U64"

definition regs_ok :: "state \<Rightarrow> u64 regs \<Rightarrow> bool" where
  "regs_ok st t \<longleftrightarrow> list_all2 word_ok (unregs (fst st)) (unregs t) \<and>
     word_ok (snd st) (unregs t ! 1 XOR unregs t ! 2)"

lemma compression_round_ok:
  assumes "gnark_doc G" and "i < 80" and "length w = 80" "list_all2 word_ok w xs" and "regs_ok st t"
  shows "compression_round G adv w st i = Some st' \<Longrightarrow> regs_ok st' (sha_round xs t i)"
    and "honest adv \<Longrightarrow> \<exists>st'. compression_round G adv w st i = Some st'"
proof -
  obtain a b c d e f g h bc where st: "st = ((a, b, c, d, e, f, g, h), bc)" by (metis prod.exhaust)
  obtain A B C D E F J H where t: "t = (A, B, C, D, E, F, J, H)" by (metis prod.exhaust)
  have r: "word_ok a A" "word_ok b B" "word_ok c C" "word_ok d D" "word_ok e E" "word_ok f F" "word_ok g J" "word_ok h H"
      "word_ok bc (B XOR C)"
    using assms(5) by (simp_all add: regs_ok_def st t unregs_def)
  have wi: "word_ok (w ! i) (xs ! i)" using words_ok_nth [OF assms(4)] assms(2,3) by simp
  let ?T1 = "H + big_sigma1 E + ch E F J + K512 ! i + xs ! i" and ?T2 = "big_sigma0 A + maj A B C"
  have t1: "\<exists>t1. NativeSum64 G [h, s1, choose512 G e f g, g_new_u64 G (K512 ! i), w ! i] = Some t1 \<and> sum_ok t1 ?T1 5"
    if "sigmaRot G (at adv [1, i, 0]) e [14, 18, 41] 0 = Some s1" for s1
  proof -
    have "list_all2 word_ok [h, s1, choose512 G e f g, g_new_u64 G (K512 ! i), w ! i]
       [H, big_sigma1 E, ch E F J, K512 ! i, xs ! i]"
      using r wi sigma_word_ok [OF assms(1) r(5) that] choose512_is_ch [OF assms(1) r(5-7)] word_ok_const [OF assms(1)]
      by (simp add: sigma_words)
    from NativeSum64_ok [OF assms(1) this] show ?thesis by (simp add: ac_simps eval_nat_numeral)
  qed
  have t2: "\<exists>t2. NativeSum64 G [s0, majorityFromXors G b (g_xor G a b) bc] = Some t2 \<and> sum_ok t2 ?T2 2"
    if "sigmaRot G (at adv [1, i, 1]) a [28, 34, 39] 0 = Some s0" for s0
  proof -
    have "list_all2 word_ok [s0, majorityFromXors G b (g_xor G a b) bc] [big_sigma0 A, maj A B C]"
      using sigma_word_ok [OF assms(1) r(1) that] majority_from_xors [OF assms(1) r(2) word_ok_ops(1) [OF assms(1) r(1,2)] r(9)]
      by (simp add: sigma_words)
    from NativeSum64_ok [OF assms(1) this] show ?thesis by (simp add: eval_nat_numeral)
  qed
  have d: "sum_ok (g_add G (g_to_value G d) t1) (D + ?T1) 6" if "sum_ok t1 ?T1 5" for t1
    using sum_ok_add [OF assms(1) word_sum_ok [OF assms(1) r(4)] that] by simp
  have a: "sum_ok (g_add G t1 t2) (?T1 + ?T2) 7" if "sum_ok t1 ?T1 5" "sum_ok t2 ?T2 2" for t1 t2
    using sum_ok_add [OF assms(1) that] by simp
  show "regs_ok st' (sha_round xs t i)" if step: "compression_round G adv w st i = Some st'"
  proof -
    from step obtain s1 t1 s0 t2 e' a' where q: "sigmaRot G (at adv [1, i, 0]) e [14, 18, 41] 0 = Some s1"
        "NativeSum64 G [h, s1, choose512 G e f g, g_new_u64 G (K512 ! i), w ! i] = Some t1"
        "sigmaRot G (at adv [1, i, 1]) a [28, 34, 39] 0 = Some s0"
        "NativeSum64 G [s0, majorityFromXors G b (g_xor G a b) bc] = Some t2"
        "Materialize64 G (at adv [1, i, 2]) (g_add G (g_to_value G d) t1) 3 = Some e'"
        "Materialize64 G (at adv [1, i, 3]) (g_add G t1 t2) 3 = Some a'"
        "st' = ((a', a, b, c, e', e, f, g), g_xor G a b)"
      unfolding st compression_round_def Let_def prod.case bind_eq_Some_conv option.inject by blast
    have s: "sum_ok t1 ?T1 5" "sum_ok t2 ?T2 2" using t1 [OF q(1)] t2 [OF q(3)] q(2,4) by simp_all
    have "word_ok e' (D + ?T1)" "word_ok a' (?T1 + ?T2)"
      using Materialize64_word [OF assms(1) d [OF s(1)] _ _ q(5)] Materialize64_word [OF assms(1) a [OF s] _ _ q(6)]
      by simp_all
    then show ?thesis
      using r word_ok_ops(1) [OF assms(1) r(1,2)] by (simp add: q(7) t regs_ok_def sha_round_def unregs_def Let_def)
  qed
  show "\<exists>st'. compression_round G adv w st i = Some st'" if hon: "honest adv"
  proof -
    have s: "\<exists>out. sigmaRot G (at adv p) v rs 0 = Some out"
      if "word_ok v x" "rs \<noteq> []" "\<forall>r \<in> set rs. 0 < r \<and> r < 64" for p v x rs
      using sigmaRot_honest [OF assms(1) honest_at [OF hon] _ that(2,3), of v 0] that(1) by (simp add: word_ok_def)
    obtain s1 where s1: "sigmaRot G (at adv [1, i, 0]) e [14, 18, 41] 0 = Some s1" using s [OF r(5)] by fastforce
    obtain s0 where s0: "sigmaRot G (at adv [1, i, 1]) a [28, 34, 39] 0 = Some s0" using s [OF r(1)] by fastforce
    obtain v1 where v1: "NativeSum64 G [h, s1, choose512 G e f g, g_new_u64 G (K512 ! i), w ! i] = Some v1" "sum_ok v1 ?T1 5"
      using t1 [OF s1] by blast
    obtain v2 where v2: "NativeSum64 G [s0, majorityFromXors G b (g_xor G a b) bc] = Some v2" "sum_ok v2 ?T2 2"
      using t2 [OF s0] by blast
    obtain e' where e': "Materialize64 G (at adv [1, i, 2]) (g_add G (g_to_value G d) v1) 3 = Some e'"
      using Materialize64_some [OF assms(1) honest_at [OF hon] d [OF v1(2)]] by fastforce
    obtain a' where a': "Materialize64 G (at adv [1, i, 3]) (g_add G v1 v2) 3 = Some a'"
      using Materialize64_some [OF assms(1) honest_at [OF hon] a [OF v1(2) v2(2)]] by fastforce
    show ?thesis
      unfolding st compression_round_def Let_def prod.case s1 s0 v1(1) v2(1) e' a' bind.bind_lunit by blast
  qed
qed

lemma word_be_le_val:
  assumes "bytes_ok bs"
  shows "word_be (u8s bs) = word_of_int (le_val (rev bs))"
  using assms
proof (induction bs rule: rev_induct)
  case Nil
  then show ?case by (simp add: word_be_def u8s_def)
next
  case (snoc b bs)
  have "(ucast (word_of_int b :: u8) :: u64) = word_of_int b"
    using snoc.prems by (simp add: byte_ok_def ucast_eq uint_word_of_int take_bit_eq_mod)
  then show ?case using snoc by (simp add: word_be_def u8s_def wi_hom_add wi_hom_mult)
qed

lemma PackMSB_ok:
  assumes "gnark_doc G" and "bytes_ok bs" and "length bs = 8"
  shows "word_ok (g_pack_msb G bs) (word_be (u8s bs))"
  using doc_msb(2) [OF assms(1,3)] assms(2,3) word_be_le_val [OF assms(2)] by (simp add: word_ok_def u64_ok_def w64_def)

lemma UnpackMSB_ok:
  assumes "gnark_doc G" and "word_ok w x"
  shows "length (g_unpack_msb G w) = 8 \<and> bytes_ok (g_unpack_msb G w) \<and> u8s (g_unpack_msb G w) = be64 x"
proof -
  have w: "u64_ok w" "w64 w = x" "g_unpack_msb G w = rev w" using assms doc_msb(3) [OF assms(1)] by (auto simp: word_ok_def)
  have "u8s (rev w) = be64 x"
  proof (rule nth_equalityI)
    show l: "length (u8s (rev w)) = length (be64 x)" using w(1) by (simp add: be64_def u64_ok_def)
    fix i assume "i < length (u8s (rev w))"
    then have i: "i < 8" "length w = 8" using w(1) by (simp_all add: u64_ok_def)
    show "u8s (rev w) ! i = be64 x ! i"
    proof (rule bit_word_eqI)
      fix j assume "j < LENGTH(8)"
      then have j: "j < 8" by simp
      have e: "56 - 8 * i + j = 8 * (7 - i) + j" "7 - i < 8" using i by simp_all
      have "(8 * (7 - i) + j) div 8 = 7 - i" "(8 * (7 - i) + j) mod 8 = j" "8 * (7 - i) + j < 64" using i j by simp_all
      then have "bit x (8 * (7 - i) + j) \<longleftrightarrow> bit (w ! (7 - i)) j" using bit_w64 [OF w(1)] w(2) by simp
      then show "bit (u8s (rev w) ! i) j \<longleftrightarrow> bit (be64 x ! i) j"
        using i j by (simp add: be64_def u8s_def rev_nth bit_simps e)
    qed
  qed
  then show ?thesis using w by (simp add: u64_ok_def)
qed

lemma chunk_words_ok:
  assumes "gnark_doc G" and "bytes_ok p" and "length p = 128"
  shows "list_all2 word_ok (map (\<lambda>i. g_pack_msb G (take 8 (drop (8 * i) p))) [0..<16]) (map word_be (chunks 8 (u8s p)))"
proof -
  have "chunks 8 (u8s p) = map (\<lambda>i. u8s (take 8 (drop (8 * i) p))) [0..<16]"
    by (simp add: chunks_def assms(3))
  moreover have "word_ok (g_pack_msb G (take 8 (drop (8 * i) p))) (word_be (u8s (take 8 (drop (8 * i) p))))" if "i < 16" for i
    using that assms(2,3) by (intro PackMSB_ok [OF assms(1)]) auto
  ultimately show ?thesis by (simp add: list_all2_conv_all_nth)
qed

definition state_ok :: "U64 list \<Rightarrow> u64 list \<Rightarrow> bool" where
  "state_ok s xs \<longleftrightarrow> length s = 8 \<and> list_all2 word_ok s xs"

lemma state_regs:
  assumes "gnark_doc G" and "state_ok s xs"
  shows "regs_ok (regs s, g_xor G (s ! 1) (s ! 2)) (regs xs)"
proof -
  have n: "word_ok (s ! i) (xs ! i)" if "i < 8" for i
    using assms(2) words_ok_nth that by (simp add: state_ok_def)
  then have "word_ok (g_xor G (s ! 1) (s ! 2)) (xs ! 1 XOR xs ! 2)" by (intro word_ok_ops [OF assms(1)]) simp_all
  with n show ?thesis by (simp add: regs_ok_def regs_def unregs_def)
qed

lemma Permute512_ok:
  assumes "gnark_doc G" and "state_ok s xs" and "bytes_ok p" and "length p = 128"
  shows "Permute512 G adv s p = Some s' \<Longrightarrow> state_ok s' (sha_compress xs (map word_be (chunks 8 (u8s p))))"
    and "honest adv \<Longrightarrow> \<exists>s'. Permute512 G adv s p = Some s'"
proof -
  let ?w = "map (\<lambda>i. g_pack_msb G (take 8 (drop (8 * i) p))) [0..<16]" and ?m = "map word_be (chunks 8 (u8s p))"
  let ?R = "\<lambda>i w xs. length w = i \<and> list_all2 word_ok w xs"
  let ?st = "(regs s, g_xor G (s ! 1) (s ! 2))" and ?r = "foldl (sha_round (sha_schedule ?m)) (regs xs) [0..<80]"
  have w0: "?R 16 ?w ?m" using chunk_words_ok [OF assms(1,3,4)] by simp
  have sched: "length w = 80 \<and> list_all2 word_ok w (sha_schedule ?m)"
    if "foldm (schedule_step G adv) ?w [16..<80] = Some w" for w
    unfolding sha_schedule_def by (rule foldm_upt_rel [where R = ?R, OF schedule_step_ok(1) [OF assms(1)] w0 _ that]) simp_all
  have rounds: "regs_ok st ?r" if "length w = 80 \<and> list_all2 word_ok w (sha_schedule ?m)"
      "foldm (compression_round G adv w) ?st [0..<80] = Some st" for w st
    by (rule foldm_upt_rel [where R = "\<lambda>_. regs_ok", OF compression_round_ok(1) [OF assms(1) _ conjunct1 [OF that(1)] conjunct2 [OF that(1)]]
      state_regs [OF assms(1,2)] _ that(2)]) simp_all
  have len: "length (unregs r) = 8" for r :: "'a regs" by (simp add: unregs_def split: prod.split)
  have args: "list_all2 word_ok [s ! i, unregs (fst st) ! i] [xs ! i, unregs ?r ! i]" if "regs_ok st ?r" "i < 8" for st i
    using that assms(2) by (auto simp: regs_ok_def state_ok_def len intro!: words_ok_nth)
  show "state_ok s' (sha_compress xs ?m)" if perm: "Permute512 G adv s p = Some s'"
  proof -
    from perm obtain w st where h: "foldm (schedule_step G adv) ?w [16..<80] = Some w"
        "foldm (compression_round G adv w) ?st [0..<80] = Some st"
        "mapm (\<lambda>i. Add64 G (at adv [2, i]) 1 [s ! i, unregs (fst st) ! i]) [0..<8] = Some s'"
      unfolding Permute512_def bind_eq_Some_conv by blast
    have st: "regs_ok st ?r" by (rule rounds [OF sched [OF h(1)] h(2)])
    have l: "length s' = 8" and a: "\<And>i. i < 8 \<Longrightarrow> Add64 G (at adv [2, i]) 1 [s ! i, unregs (fst st) ! i] = Some (s' ! i)"
      using h(3) by (simp_all add: mapm_upt8)
    have "word_ok (s' ! i) (xs ! i + unregs ?r ! i)" if "i < 8" for i
      using Add64_word [OF assms(1) args [OF st that] _ _ _ a [OF that]] by simp
    then show ?thesis using l assms(2) by (auto simp: state_ok_def sha_compress_def list_all2_conv_all_nth len)
  qed
  show "\<exists>s'. Permute512 G adv s p = Some s'" if hon: "honest adv"
  proof -
    have "\<exists>w. foldm (schedule_step G adv) ?w [16..<80] = Some w"
      by (rule foldm_upt_some [where R = ?R and f = "schedule_step G adv" and g = sched_step,
        OF schedule_step_ok(1) [OF assms(1)] schedule_step_ok(2) [OF assms(1) _ _ hon] w0]) simp_all
    then obtain w where w: "foldm (schedule_step G adv) ?w [16..<80] = Some w" by (rule exE)
    note wk = conjunct1 [OF sched [OF w]] conjunct2 [OF sched [OF w]]
    have "\<exists>st. foldm (compression_round G adv w) ?st [0..<80] = Some st"
      by (rule foldm_upt_some [where R = "\<lambda>_. regs_ok" and f = "compression_round G adv w" and g = "sha_round (sha_schedule ?m)",
        OF compression_round_ok(1) [OF assms(1) _ wk] compression_round_ok(2) [OF assms(1) _ wk _ hon] state_regs [OF assms(1,2)]]) simp_all
    then obtain st where st: "foldm (compression_round G adv w) ?st [0..<80] = Some st" by (rule exE)
    have r: "regs_ok st ?r" by (rule rounds [OF conjI [OF wk] st])
    have "\<exists>s'. mapm (\<lambda>i. Add64 G (at adv [2, i]) 1 [s ! i, unregs (fst st) ! i]) [0..<8] = Some s'"
      by (rule mapm_total) (use Add64_some [OF assms(1) honest_at [OF hon] args [OF r]] in simp)
    then show ?thesis unfolding Permute512_def w st bind.bind_lunit by blast
  qed
qed

section \<open>Blocks and padding\<close>

definition sha_blocks :: "u64 list \<Rightarrow> bytes \<Rightarrow> u64 list" where
  "sha_blocks s bs = foldl (\<lambda>s block. sha_compress s (map word_be (chunks 8 block))) s (chunks 128 bs)"

lemma sha512_blocks: "sha512 msg = concat (map be64 (sha_blocks seed512 (sha_pad msg)))"
  by (simp add: sha512_def sha_blocks_def)

lemma chunks_append:
  assumes "0 < n" and "length as = n * k"
  shows "chunks n (as @ bs) = chunks n as @ chunks n bs"
proof -
  have "(n * k + length bs) div n = k + length bs div n" using assms(1) by simp
  moreover have "[0..<k + m] = [0..<k] @ map (\<lambda>i. k + i) [0..<m]" for m
    by (induction m) simp_all
  moreover have "take n (drop (n * i) (as @ bs)) = take n (drop (n * i) as)" if "i < k" for i
  proof -
    have "n * Suc i \<le> n * k" using that by (intro mult_le_mono2) simp
    then show ?thesis using assms(2) by simp
  qed
  moreover have "take n (drop (n * (k + i)) (as @ bs)) = take n (drop (n * i) bs)" for i
    using assms(2) by (simp add: add_mult_distrib2)
  ultimately show ?thesis using assms by (simp add: chunks_def)
qed

lemma sha_blocks_append: "length as = 128 * k \<Longrightarrow> sha_blocks s (as @ bs) = sha_blocks (sha_blocks s as) bs"
  by (simp add: sha_blocks_def chunks_append)

lemma sha_blocks_one: "length b = 128 \<Longrightarrow> sha_blocks s b = sha_compress s (map word_be (chunks 8 b))"
  by (simp add: sha_blocks_def chunks_def)

lemma hash_blocks_ok:
  assumes "gnark_doc G" and "state_ok s xs" and "bytes_ok padded"
  shows "hash_blocks G adv s padded = Some s' \<Longrightarrow> state_ok s' (sha_blocks xs (u8s padded))"
    and "honest adv \<Longrightarrow> \<exists>s'. hash_blocks G adv s padded = Some s'"
proof -
  let ?b = "\<lambda>i. take 128 (drop (128 * i) padded)" and ?n = "length padded div 128"
  let ?f = "\<lambda>h i. Permute512 G (at adv [i]) h (?b i)" and ?g = "\<lambda>s i. sha_compress s (map word_be (chunks 8 (u8s (?b i))))"
  have b: "bytes_ok (?b i) \<and> length (?b i) = 128" if "i < ?n" for i
  proof -
    have "128 * Suc i \<le> length padded" using that by (meson Suc_leI dual_order.trans mult_le_mono2 times_div_less_eq_dividend)
    then show ?thesis using assms(3) by auto
  qed
  have e: "sha_blocks xs (u8s padded) = foldl ?g xs [0..<?n]"
    by (simp add: sha_blocks_def chunks_def foldl_map)
  have step: "state_ok s' (?g xs i)" if "i < ?n" "state_ok s xs" "?f s i = Some s'" for i s xs s'
    using Permute512_ok(1) [OF assms(1) that(2)] b [OF that(1)] that(3) by blast
  show "state_ok s' (sha_blocks xs (u8s padded))" if "hash_blocks G adv s padded = Some s'"
    unfolding e by (rule foldm_upt_rel [where R = "\<lambda>_. state_ok" and f = ?f, OF step assms(2) _ that [unfolded hash_blocks_def]]) simp_all
  show "\<exists>s'. hash_blocks G adv s padded = Some s'" if hon: "honest adv"
  proof -
    have some: "\<exists>s'. ?f s i = Some s'" if "i < ?n" "state_ok s xs" for i s xs
      using Permute512_ok(2) [OF assms(1) that(2) _ _ honest_at [OF hon]] b [OF that(1)] by blast
    show ?thesis unfolding hash_blocks_def
      by (rule foldm_upt_some [where R = "\<lambda>_. state_ok" and g = ?g, OF step some assms(2)]) simp_all
  qed
qed

lemma len_bytes_ok: "length (len_bytes n) = 16 \<and> bytes_ok (len_bytes n) \<and> u8s (len_bytes n) = replicate 8 0 @ be64 (of_nat (8 * n))"
proof -
  have u: "[0..<16] = [0, 1, 2, 3, 4, 5, 6, 7, 8, 9, 10, 11, 12, 13, 14, 15::nat]" by (simp add: upt_rec)
  have "byte_ok (uint (x :: u8))" for x using uint_lt2p [of x] by (simp add: byte_ok_def)
  then have "bytes_ok (len_bytes n)" by (auto simp: len_bytes_def bytes_ok_iff Let_def) (simp add: byte_ok_def)
  moreover have "u8s (len_bytes n) = replicate 8 0 @ be64 (of_nat (8 * n))"
    unfolding len_bytes_def Let_def u8s_def u be64_def upt_8 replicate_8 by (simp del: of_nat_mult)
  ultimately show ?thesis by (simp add: len_bytes_def)
qed

lemma zero_pad_len:
  assumes "z = 111 - (n :: int) mod 128"
  shows "(if z < 0 then z + 128 else z) = (111 - n) mod 128"
proof -
  have b: "0 \<le> n mod 128" "n mod 128 < 128" by simp_all
  have m: "(111 - n) mod 128 = z mod 128" unfolding assms by (simp add: mod_diff_right_eq)
  show ?thesis
  proof (cases "z < 0")
    case True
    have "z mod 128 = (z + 128) mod 128" by (rule mod_add_self2 [symmetric])
    also have "\<dots> = z + 128" by (rule mod_pos_pos_trivial) (use True b assms in linarith)+
    finally show ?thesis using m True by (simp only: if_True)
  next
    case False
    have "z mod 128 = z" by (rule mod_pos_pos_trivial) (use False b assms in linarith)+
    then show ?thesis using m False by (simp only: if_False)
  qed
qed

lemma pad_after_prefix:
  assumes "length pre = 128 * k" and "bytes_ok suffix"
  shows "\<exists>q m. padSHA512AfterPrefix (int (length pre)) suffix = Some q \<and> bytes_ok q \<and> length q = 128 * m \<and>
     u8s (pre @ q) = sha_pad (u8s (pre @ suffix))"
proof -
  let ?n = "int (length pre) + int (length suffix)"
  let ?z = "nat ((111 - ?n) mod 128)"
  let ?q = "suffix @ [128] @ replicate ?z 0 @ len_bytes (nat ?n)"
  have "\<not> (int (length pre) < 0 \<or> int (length pre) mod 128 \<noteq> 0)" using assms(1) by simp
  then have 1: "padSHA512AfterPrefix (int (length pre)) suffix = Some ?q"
    unfolding padSHA512AfterPrefix_def Let_def zero_pad_len [OF refl] by (simp only: if_False)
  have 2: "bytes_ok ?q" using assms(2) len_bytes_ok by (simp add: byte_ok_def)
  have 3: "u8s (pre @ ?q) = sha_pad (u8s (pre @ suffix))"
    using len_bytes_ok [of "length pre + length suffix"] by (simp add: sha_pad_def u8s_def nat_add_distrib map_replicate algebra_simps)
  have "int (length ?q) = 128 * (1 - int k - (111 - ?n) div 128)"
  proof -
    have lin: "L = 128 * (1 - K - D)"
      if "L = S + 1 + Z + 16" "D * 128 + Z = 111 - (P + S)" "P = 128 * K" for L S Z D P K :: int
      using that by simp
    have l: "length (suffix @ [128] @ replicate z 0 @ len_bytes m) = length suffix + 1 + z + 16" for z m
      using len_bytes_ok by simp
    have z: "int ?z = (111 - ?n) mod 128" by (rule nat_0_le) (rule pos_mod_sign, simp)
    show ?thesis
    proof (rule lin [OF _ div_mult_mod_eq [of "111 - ?n" 128]])
      show "int (length ?q) = int (length suffix) + 1 + (111 - ?n) mod 128 + 16"
        by (simp only: l of_nat_add of_nat_1 of_nat_numeral z)
      show "int (length pre) = 128 * int k" unfolding assms(1) by (simp only: of_nat_mult of_nat_numeral)
    qed
  qed
  then have "int 128 dvd int (length ?q)" by (metis dvd_triv_left of_nat_numeral)
  then obtain m where "length ?q = 128 * m" unfolding of_nat_dvd_iff by (elim dvdE)
  then show ?thesis using 1 2 3 by blast
qed

lemma padSHA512_prefix: "padSHA512AfterPrefix 0 suffix = Some (padSHA512 suffix)"
  by (simp add: padSHA512AfterPrefix_def padSHA512_def Let_def)

lemma padSHA512_ok:
  assumes "bytes_ok input"
  shows "bytes_ok (padSHA512 input) \<and> u8s (padSHA512 input) = sha_pad (u8s input)"
  using pad_after_prefix [of "[]" 0 input] assms padSHA512_prefix by auto

section \<open>SHA-512\<close>

lemma initial_state_ok: "gnark_doc G \<Longrightarrow> state_ok (sha512InitialState G) seed512"
  by (simp add: state_ok_def sha512InitialState_def seed512_def word_ok_const)

lemma digest_ok:
  assumes "gnark_doc G" and "state_ok h xs"
  shows "bytes_ok (concat (map (g_unpack_msb G) h)) \<and> length (concat (map (g_unpack_msb G) h)) = 64 \<and>
     u8s (concat (map (g_unpack_msb G) h)) = concat (map be64 xs)"
proof -
  have "list_all2 word_ok h xs \<Longrightarrow> bytes_ok (concat (map (g_unpack_msb G) h)) \<and>
      length (concat (map (g_unpack_msb G) h)) = 8 * length h \<and>
      u8s (concat (map (g_unpack_msb G) h)) = concat (map be64 xs)"
    by (induction h xs rule: list_all2_induct) (use UnpackMSB_ok [OF assms(1)] in \<open>auto simp: u8s_def\<close>)
  then show ?thesis using assms(2) by (simp add: state_ok_def)
qed

text \<open>The outcome of a hash gadget: bytes whose values are the digest.\<close>

definition hashes :: "U8 list \<Rightarrow> bytes \<Rightarrow> bool" where
  "hashes out d \<longleftrightarrow> bytes_ok out \<and> length out = 64 \<and> u8s out = d"

lemma Sum512_ok:
  assumes "gnark_doc G" and "bytes_ok input"
  shows "Sum512 G adv input = Some out \<Longrightarrow> hashes out (sha512 (u8s input))"
    and "honest adv \<Longrightarrow> \<exists>out. Sum512 G adv input = Some out"
proof -
  note b = hash_blocks_ok [OF assms(1) initial_state_ok [OF assms(1)] conjunct1 [OF padSHA512_ok [OF assms(2)]]]
  show "hashes out (sha512 (u8s input))" if "Sum512 G adv input = Some out"
    using that digest_ok [OF assms(1) b(1)] padSHA512_ok [OF assms(2)]
    by (auto simp: Sum512_def hashes_def sha512_blocks bind_eq_Some_conv)
  show "\<exists>out. Sum512 G adv input = Some out" if "honest adv"
    using b(2) [OF that] by (auto simp: Sum512_def)
qed

lemma sum512AfterPrefix_ok:
  assumes "gnark_doc G" and "bytes_ok suffix" and "length pre = 128 * k" and "state_ok s (sha_blocks seed512 (u8s pre))"
  shows "sum512AfterPrefix G adv s (int (length pre)) suffix = Some out \<Longrightarrow> hashes out (sha512 (u8s (pre @ suffix)))"
    and "honest adv \<Longrightarrow> \<exists>out. sum512AfterPrefix G adv s (int (length pre)) suffix = Some out"
proof -
  obtain q where q: "padSHA512AfterPrefix (int (length pre)) suffix = Some q" "bytes_ok q"
      "u8s (pre @ q) = sha_pad (u8s (pre @ suffix))"
    using pad_after_prefix [OF assms(3,2)] by blast
  have e: "sha_blocks (sha_blocks seed512 (u8s pre)) (u8s q) = sha_blocks seed512 (sha_pad (u8s (pre @ suffix)))"
    using sha_blocks_append [of "u8s pre" k seed512 "u8s q"] assms(3) q(3) by simp
  note b = hash_blocks_ok [OF assms(1,4) q(2), unfolded e]
  show "hashes out (sha512 (u8s (pre @ suffix)))" if "sum512AfterPrefix G adv s (int (length pre)) suffix = Some out"
    using that digest_ok [OF assms(1) b(1)] q(1)
    by (auto simp: sum512AfterPrefix_def hashes_def sha512_blocks bind_eq_Some_conv)
  show "\<exists>out. sum512AfterPrefix G adv s (int (length pre)) suffix = Some out" if "honest adv"
    using b(2) [OF that] q(1) by (auto simp: sum512AfterPrefix_def)
qed

section \<open>HMAC-SHA512\<close>

lemma hmac_k0_ok:
  assumes "gnark_doc G" and "bytes_ok key"
  shows "hmac_k0 G adv key = Some k0 \<Longrightarrow> bytes_ok k0 \<and> length k0 = 128 \<and> u8s k0 = hmac_key (u8s key)"
    and "honest adv \<Longrightarrow> \<exists>k0. hmac_k0 G adv key = Some k0"
proof -
  show "bytes_ok k0 \<and> length k0 = 128 \<and> u8s k0 = hmac_key (u8s key)" if k: "hmac_k0 G adv key = Some k0"
  proof (cases "length key > 128")
    case True
    then obtain kh where kh: "Sum512 G adv key = Some kh" "k0 = kh @ replicate 64 0"
      using k by (auto simp: hmac_k0_def bind_eq_Some_conv)
    have h: "hashes kh (sha512 (u8s key))" by (rule Sum512_ok(1) [OF assms kh(1)])
    then have "length (sha512 (u8s key)) = 64" by (metis hashes_def length_u8s)
    then show ?thesis using h True kh(2) by (auto simp: hashes_def hmac_key_def Let_def u8s_def byte_ok_def)
  next
    case False
    then show ?thesis using k assms(2) by (auto simp: hmac_k0_def hmac_key_def Let_def u8s_def byte_ok_def)
  qed
  show "\<exists>k0. hmac_k0 G adv key = Some k0" if "honest adv"
    using Sum512_ok(2) [OF assms that] by (auto simp: hmac_k0_def)
qed

lemma xor_pad_ok:
  assumes "gnark_doc G" and "bytes_ok k0" and "byte_ok c"
  shows "bytes_ok (map (\<lambda>b. g_xor8 G b c) k0) \<and> u8s (map (\<lambda>b. g_xor8 G b c) k0) = map (\<lambda>b. b XOR word_of_int c) (u8s k0)"
proof -
  have "byte_ok (g_xor8 G b c) \<and> word_of_int (g_xor8 G b c) = (word_of_int b XOR word_of_int c :: u8)" if "byte_ok b" for b
  proof -
    have "g_xor8 G b c = b XOR c" using doc_words(4) [OF assms(1) that assms(3)] .
    moreover have "b XOR c < 2 ^ 8 \<and> 0 \<le> b XOR c"
      using that assms(3) XOR_upper [of b 8 c] by (simp add: byte_ok_def)
    ultimately show ?thesis by (simp add: byte_ok_def wi_hom_syms) (simp add: bit_eq_iff bit_simps)
  qed
  then show ?thesis using assms(2) by (simp add: bytes_ok_iff u8s_def)
qed

lemma hmac_blocks_ok:
  assumes "gnark_doc G" and "bytes_ok k0 \<and> length k0 = 128 \<and> u8s k0 = hmac_key (u8s key)"
  shows "bytes_ok (map (\<lambda>b. g_xor8 G b 54) k0) \<and> u8s (map (\<lambda>b. g_xor8 G b 54) k0) = map (\<lambda>b. b XOR 0x36) (hmac_key (u8s key))"
    "bytes_ok (map (\<lambda>b. g_xor8 G b 92) k0) \<and> u8s (map (\<lambda>b. g_xor8 G b 92) k0) = map (\<lambda>b. b XOR 0x5c) (hmac_key (u8s key))"
  using xor_pad_ok [OF assms(1), of k0 54] xor_pad_ok [OF assms(1), of k0 92] assms(2) by (simp_all add: byte_ok_def)

lemma HMACSHA512_ok:
  assumes "gnark_doc G" and "bytes_ok key" and "bytes_ok msg"
  shows "HMACSHA512 G adv key msg = Some out \<Longrightarrow> hashes out (hmac_sha512 (u8s key) (u8s msg))"
    and "honest adv \<Longrightarrow> \<exists>out. HMACSHA512 G adv key msg = Some out"
proof -
  let ?i = "\<lambda>k0. map (\<lambda>b. g_xor8 G b 54) k0 @ msg" and ?o = "\<lambda>k0 h. map (\<lambda>b. g_xor8 G b 92) k0 @ h"
  have inner: "bytes_ok (?i k0)" if "hmac_k0 G (at adv [0]) key = Some k0" for k0
    using hmac_blocks_ok(1) [OF assms(1) hmac_k0_ok(1) [OF assms(1,2) that]] assms(3) by simp
  have outer: "bytes_ok (?o k0 h)" if "hmac_k0 G (at adv [0]) key = Some k0" "hashes h d" for k0 h d
    using hmac_blocks_ok(2) [OF assms(1) hmac_k0_ok(1) [OF assms(1,2) that(1)]] that(2) by (simp add: hashes_def)
  show "hashes out (hmac_sha512 (u8s key) (u8s msg))" if "HMACSHA512 G adv key msg = Some out"
  proof -
    from that obtain k0 h where h: "hmac_k0 G (at adv [0]) key = Some k0" "Sum512 G (at adv [1]) (?i k0) = Some h"
        "Sum512 G (at adv [2]) (?o k0 h) = Some out"
      by (auto simp: HMACSHA512_def bind_eq_Some_conv)
    note b = hmac_blocks_ok [OF assms(1) hmac_k0_ok(1) [OF assms(1,2) h(1)]]
    have i: "hashes h (sha512 (u8s (?i k0)))" by (rule Sum512_ok(1) [OF assms(1) inner [OF h(1)] h(2)])
    have "hashes out (sha512 (u8s (?o k0 h)))" by (rule Sum512_ok(1) [OF assms(1) outer [OF h(1) i] h(3)])
    then show ?thesis using b i by (simp add: hmac_sha512_def hashes_def)
  qed
  show "\<exists>out. HMACSHA512 G adv key msg = Some out" if hon: "honest adv"
  proof -
    obtain k0 where k: "hmac_k0 G (at adv [0]) key = Some k0"
      using hmac_k0_ok(2) [OF assms(1,2) honest_at [OF hon]] by blast
    obtain h where h: "Sum512 G (at adv [1]) (?i k0) = Some h"
      using Sum512_ok(2) [OF assms(1) inner [OF k] honest_at [OF hon]] by blast
    obtain out where "Sum512 G (at adv [2]) (?o k0 h) = Some out"
      using Sum512_ok(2) [OF assms(1) outer [OF k Sum512_ok(1) [OF assms(1) inner [OF k] h]] honest_at [OF hon]] by blast
    with k h show ?thesis by (simp add: HMACSHA512_def)
  qed
qed

lemma prefix_state:
  assumes "gnark_doc G" and "bytes_ok b" and "length b = 128" and "Permute512 G adv (sha512InitialState G) b = Some s"
  shows "state_ok s (sha_blocks seed512 (u8s b))"
  using Permute512_ok(1) [OF assms(1) initial_state_ok [OF assms(1)] assms(2-4)] assms(3) by (simp add: sha_blocks_one)

lemma HMACSHA512Pair_ok:
  assumes "gnark_doc G" and "bytes_ok key" and "bytes_ok msg1" and "bytes_ok msg2"
  shows "HMACSHA512Pair G adv key msg1 msg2 = Some (mac1, mac2) \<Longrightarrow>
      hashes mac1 (hmac_sha512 (u8s key) (u8s msg1)) \<and> hashes mac2 (hmac_sha512 (u8s key) (u8s msg2))"
    and "honest adv \<Longrightarrow> \<exists>out. HMACSHA512Pair G adv key msg1 msg2 = Some out"
proof -
  let ?i = "\<lambda>k0. map (\<lambda>b. g_xor8 G b 54) k0" and ?o = "\<lambda>k0. map (\<lambda>b. g_xor8 G b 92) k0"
  have blk: "hmacSHA512KeyBlocks G adv' key = Some (i, out) \<longleftrightarrow> (\<exists>k0. hmac_k0 G adv' key = Some k0 \<and> i = ?i k0 \<and> out = ?o k0)" for adv' i out
    by (auto simp: hmacSHA512KeyBlocks_def bind_eq_Some_conv)
  have sum: "hashes x (sha512 (u8s (pre @ suffix)))"
    if "sum512AfterPrefix G adv' s 128 suffix = Some x" "bytes_ok pre" "length pre = 128" "bytes_ok suffix"
      "Permute512 G adv'' (sha512InitialState G) pre = Some s" for adv' adv'' s suffix x pre
    using sum512AfterPrefix_ok(1) [OF assms(1) that(4) _ prefix_state [OF assms(1) that(2,3,5)], of 1 adv' x] that(1,3) by simp
  show "hashes mac1 (hmac_sha512 (u8s key) (u8s msg1)) \<and> hashes mac2 (hmac_sha512 (u8s key) (u8s msg2))"
    if pair: "HMACSHA512Pair G adv key msg1 msg2 = Some (mac1, mac2)"
  proof -
    from pair obtain k0 ist i1 i2 ost where h: "hmac_k0 G (at adv [0]) key = Some k0"
        "Permute512 G (at adv [1]) (sha512InitialState G) (?i k0) = Some ist"
        "sum512AfterPrefix G (at adv [2]) ist 128 msg1 = Some i1" "sum512AfterPrefix G (at adv [3]) ist 128 msg2 = Some i2"
        "Permute512 G (at adv [4]) (sha512InitialState G) (?o k0) = Some ost"
        "sum512AfterPrefix G (at adv [5]) ost 128 i1 = Some mac1" "sum512AfterPrefix G (at adv [6]) ost 128 i2 = Some mac2"
      by (auto simp: HMACSHA512Pair_def bind_eq_Some_conv blk)
    note k = hmac_k0_ok(1) [OF assms(1,2) h(1)]
    note b = hmac_blocks_ok [OF assms(1) k]
    have l: "length (?i k0) = 128" "length (?o k0) = 128" using k by simp_all
    have i: "hashes i1 (sha512 (u8s (?i k0 @ msg1)))" "hashes i2 (sha512 (u8s (?i k0 @ msg2)))"
      using sum [OF h(3) _ l(1) assms(3) h(2)] sum [OF h(4) _ l(1) assms(4) h(2)] b by blast+
    then have "bytes_ok i1" "bytes_ok i2" by (simp_all add: hashes_def)
    then have "hashes mac1 (sha512 (u8s (?o k0 @ i1)))" "hashes mac2 (sha512 (u8s (?o k0 @ i2)))"
      using sum [OF h(6) _ l(2) _ h(5)] sum [OF h(7) _ l(2) _ h(5)] b by blast+
    then show ?thesis using b i by (simp add: hmac_sha512_def hashes_def)
  qed
  have some: "\<exists>x. sum512AfterPrefix G (at adv p) s 128 suffix = Some x"
    if "honest adv" "bytes_ok pre" "length pre = 128" "bytes_ok suffix"
      "Permute512 G adv'' (sha512InitialState G) pre = Some s" for p adv'' s suffix pre
    using sum512AfterPrefix_ok(2) [OF assms(1) that(4) _ prefix_state [OF assms(1) that(2,3,5)] honest_at [OF that(1)], of 1] that(3) by simp
  show "\<exists>out. HMACSHA512Pair G adv key msg1 msg2 = Some out" if hon: "honest adv"
  proof -
    obtain k0 where k: "hmac_k0 G (at adv [0]) key = Some k0"
      using hmac_k0_ok(2) [OF assms(1,2) honest_at [OF hon]] by blast
    note kk = hmac_k0_ok(1) [OF assms(1,2) k]
    note b = hmac_blocks_ok [OF assms(1) kk]
    have l: "length (?i k0) = 128" "length (?o k0) = 128" using kk by simp_all
    have perm: "\<exists>s. Permute512 G (at adv p) (sha512InitialState G) q = Some s" if "bytes_ok q" "length q = 128" for p q
      using Permute512_ok(2) [OF assms(1) initial_state_ok [OF assms(1)] that honest_at [OF hon]] .
    obtain ist ost where s: "Permute512 G (at adv [1]) (sha512InitialState G) (?i k0) = Some ist"
        "Permute512 G (at adv [4]) (sha512InitialState G) (?o k0) = Some ost"
      using perm [OF _ l(1)] perm [OF _ l(2)] b by blast
    obtain i1 i2 where i: "sum512AfterPrefix G (at adv [2]) ist 128 msg1 = Some i1" "sum512AfterPrefix G (at adv [3]) ist 128 msg2 = Some i2"
      using some [OF hon _ l(1) assms(3) s(1)] some [OF hon _ l(1) assms(4) s(1)] b by blast
    have "bytes_ok i1" "bytes_ok i2"
      using sum [OF i(1) _ l(1) assms(3) s(1)] sum [OF i(2) _ l(1) assms(4) s(1)] b by (simp_all add: hashes_def)
    then obtain m1 m2 where "sum512AfterPrefix G (at adv [5]) ost 128 i1 = Some m1" "sum512AfterPrefix G (at adv [6]) ost 128 i2 = Some m2"
      using some [OF hon _ l(2) _ s(2)] b by blast
    with k s i show ?thesis by (simp add: HMACSHA512Pair_def hmacSHA512KeyBlocks_def)
  qed
qed

end
