(* ===== verification/Ed25519.thy ===== *)
theory Ed25519
  imports GnarkApi
begin

text \<open>
  \<^verbatim>\<open>internal/circuit/ed25519/ed\<close>: the curve constants, the big-integer reference (\<^verbatim>\<open>ref.go\<close>) and
  the gadget (\<^verbatim>\<open>gadget.go\<close>) over gnark's emulated field, a record \<open>emul\<close> with its documented
  behaviour \<open>emul_doc\<close>. A point is its pair of residues; where the code would dereference the
  nil that \<^verbatim>\<open>ModInverse\<close> returns, the model has \<open>None\<close>.

  Shown: \<open>fpInv\<close> is the inverse modulo \<^verbatim>\<open>P\<close> exactly when there is one; the gadget's addition is the
  reference's addition wherever the reference has a value; the 37 seven-bit windows are the
  digits of the scalar, and the windowed sum is the reference's sum of the selected table
  entries; scalars outside the domain are rejected; the 32 compressed bytes are those of the
  reference encoding. That the sum of the window entries is the double-and-add multiple is
  the associativity of the Edwards addition, which is not proved here.
\<close>


section \<open>Curve constants\<close>

definition P :: int where "P = 2 ^ 255 - 19"

definition D :: int where
  "D = 37095705934669439343138083508754565189542113879843219016388785533085940283555"

definition Bx :: int where
  "Bx = 15112221349535400772501151409588531511454012693041857206046113283949847762202"

definition By :: int where
  "By = 46316835694926478169428394003475163141307993866256225615783033603165251855960"

section \<open>The reference\<close>

type_synonym RefPoint = "int \<times> int"

definition modp :: "int \<Rightarrow> int" where "modp v = v mod P"

definition fpMul :: "int \<Rightarrow> int \<Rightarrow> int" where "fpMul a b = modp (a * b)"
definition fpAdd :: "int \<Rightarrow> int \<Rightarrow> int" where "fpAdd a b = modp (a + b)"
definition fpSub :: "int \<Rightarrow> int \<Rightarrow> int" where "fpSub a b = modp (a - b)"

text \<open>\<^verbatim>\<open>big.Int.ModInverse\<close>: the extended Euclidean algorithm; it returns nil when there is no inverse.\<close>

function egcd :: "int \<Rightarrow> int \<Rightarrow> int \<times> int" where
  "egcd a b = (if b \<le> 0 then (1, 0) else let (s, t) = egcd b (a mod b) in (t, s - a div b * t))"
  by auto

termination by (relation "measure (\<lambda>(a, b). nat b)") auto

declare egcd.simps [simp del]

definition fpInv :: "int \<Rightarrow> int option" where
  "fpInv a = (let s = fst (egcd (modp a) P) in if s * modp a mod P = 1 then Some (s mod P) else None)"

definition RefIdentity :: RefPoint where "RefIdentity = (0, 1)"

definition RefBase :: RefPoint where "RefBase = (Bx, By)"

definition RefAdd :: "RefPoint \<Rightarrow> RefPoint \<Rightarrow> RefPoint option" where
  "RefAdd p q =
     (let a = fpMul (fst p) (snd q); b = fpMul (snd p) (fst q);
        c = fpMul (fst p) (fst q); dd = fpMul (snd p) (snd q); e = fpMul D (fpMul c dd);
        xnum = fpAdd a b; xden = fpAdd 1 e; ynum = fpAdd dd c; yden = fpSub 1 e
      in do { xi \<leftarrow> fpInv xden; yi \<leftarrow> fpInv yden; Some (fpMul xnum xi, fpMul ynum yi) })"

fun bit_len :: "nat \<Rightarrow> nat" where
  "bit_len n = (if n = 0 then 0 else Suc (bit_len (n div 2)))"

declare bit_len.simps [simp del]

definition RefScalarMul :: "int \<Rightarrow> RefPoint \<Rightarrow> RefPoint option" where
  "RefScalarMul s p =
     foldm (\<lambda>acc i. do {
        acc \<leftarrow> RefAdd acc acc;
        if s div 2 ^ i mod 2 = 1 then RefAdd acc p else Some acc }) RefIdentity (rev [0..<bit_len (nat s)])"

definition RefScalarMulBase :: "int \<Rightarrow> RefPoint option" where
  "RefScalarMulBase s = RefScalarMul s RefBase"

definition RefCompress :: "RefPoint \<Rightarrow> bytes" where
  "RefCompress p =
     (let y = modp (snd p); out = map (\<lambda>i. word_of_int (y div 256 ^ i)) [0..<32]
      in if modp (fst p) mod 2 = 1 then out[31 := out ! 31 OR 0x80] else out)"

section \<open>The gadget\<close>

text \<open>
  gnark's emulated field: an element is its residue. \<^verbatim>\<open>Div\<close> has a value only when the divisor is
  invertible; \<^verbatim>\<open>Mux\<close> selects by an index that must be in range; \<^verbatim>\<open>ToBitsCanonical\<close> returns the bits
  of the least residue.
\<close>

record emul =
  e_add :: "int \<Rightarrow> int \<Rightarrow> int"
  e_sub :: "int \<Rightarrow> int \<Rightarrow> int"
  e_mul :: "int \<Rightarrow> int \<Rightarrow> int"
  e_div :: "int \<Rightarrow> int \<Rightarrow> int option"
  e_mux :: "int \<Rightarrow> int list \<Rightarrow> int option"
  e_bits :: "int \<Rightarrow> int list"

definition elem :: "int \<Rightarrow> bool" where "elem x \<longleftrightarrow> 0 \<le> x \<and> x < P"

definition emul_doc :: "emul \<Rightarrow> bool" where
  "emul_doc E \<longleftrightarrow>
     (\<forall>x y. elem x \<longrightarrow> elem y \<longrightarrow> e_add E x y = (x + y) mod P) \<and>
     (\<forall>x y. elem x \<longrightarrow> elem y \<longrightarrow> e_sub E x y = (x - y) mod P) \<and>
     (\<forall>x y. elem x \<longrightarrow> elem y \<longrightarrow> e_mul E x y = (x * y) mod P) \<and>
     (\<forall>x y r. elem x \<longrightarrow> elem y \<longrightarrow> coprime y P \<longrightarrow>
        (e_div E x y = Some r \<longleftrightarrow> elem r \<and> r * y mod P = x)) \<and>
     (\<forall>x y r. elem x \<longrightarrow> elem y \<longrightarrow> e_div E x y = Some r \<longrightarrow> elem r) \<and>
     (\<forall>i xs r. 0 \<le> i \<longrightarrow> (e_mux E i xs = Some r \<longleftrightarrow> i < int (length xs) \<and> r = xs ! nat i)) \<and>
     (\<forall>x. elem x \<longrightarrow> e_bits E x = bits_of 255 x)"

definition curve_add :: "emul \<Rightarrow> RefPoint \<Rightarrow> RefPoint \<Rightarrow> RefPoint option" where
  "curve_add E p q =
     (let a = e_mul E (fst p) (snd q); b = e_mul E (snd p) (fst q);
        cc = e_mul E (fst p) (fst q); dd = e_mul E (snd p) (snd q); e = e_mul E D (e_mul E cc dd);
        xnum = e_add E a b; xden = e_add E 1 e; ynum = e_add E dd cc; yden = e_sub E 1 e
      in do { x \<leftarrow> e_div E xnum xden; y \<leftarrow> e_div E ynum yden; Some (x, y) })"

text \<open>\<^verbatim>\<open>buildTables\<close>: for every window the multiples 0 to 127 of \<open>2 ^ (7 * j)\<close> times the base.\<close>

definition buildTable :: "nat \<Rightarrow> RefPoint list option" where
  "buildTable j = do {
     baseJ \<leftarrow> RefScalarMulBase (2 ^ (7 * j));
     (t, acc) \<leftarrow> foldm (\<lambda>(t, acc) _. do { acc' \<leftarrow> RefAdd acc baseJ; Some (t @ [acc], acc') }) ([], RefIdentity) [0..<128::nat];
     Some t }"

definition buildTables :: "RefPoint list list option" where
  "buildTables = mapm buildTable [0..<37]"

definition window_sel :: "gnark \<Rightarrow> int list \<Rightarrow> nat \<Rightarrow> int" where
  "window_sel G bits j =
     foldl (\<lambda>sel k. if 7 * j + k < 255 then g_add G sel (g_mul G (bits ! (7 * j + k)) (2 ^ k)) else sel) 0 [0..<7]"

text \<open>The loop of \<^verbatim>\<open>ScalarMulBaseBits\<close> over the windows.\<close>

definition window_sum :: "gnark \<Rightarrow> emul \<Rightarrow> RefPoint list list \<Rightarrow> int list \<Rightarrow> RefPoint option" where
  "window_sum G E tables bits =
     foldm (\<lambda>acc j. do {
        let sel = window_sel G bits j;
        selX \<leftarrow> e_mux E sel (map fst (tables ! j));
        selY \<leftarrow> e_mux E sel (map snd (tables ! j));
        case acc of None \<Rightarrow> Some (Some (selX, selY))
        | Some acc \<Rightarrow> map_option Some (curve_add E acc (selX, selY)) }) None [0..<37] \<bind> id"

definition ScalarMulBaseBits :: "gnark \<Rightarrow> emul \<Rightarrow> int list \<Rightarrow> RefPoint option" where
  "ScalarMulBaseBits G E bits =
     (if length bits \<noteq> 256 then None
      else do {
        must (list_all (g_boolean G) bits);
        must (g_eq G (bits ! 255) 0);
        tables \<leftarrow> buildTables;
        window_sum G E tables bits })"

definition Compress :: "gnark \<Rightarrow> emul \<Rightarrow> RefPoint \<Rightarrow> int list" where
  "Compress G E p =
     (let yBits = e_bits E (snd p); xBits = e_bits E (fst p); sign = xBits ! 0;
        encBits = take 255 yBits @ [sign]
      in map (\<lambda>i. foldl (\<lambda>acc b. g_add G acc (g_mul G (encBits ! (8 * i + b)) (2 ^ b))) 0 [0..<8]) [0..<32])"

text \<open>The credential's and the soft steps' public key: \<^verbatim>\<open>Compress(ScalarMulBaseBits(bits))\<close> as bytes.\<close>

definition parent_key :: "gnark \<Rightarrow> emul \<Rightarrow> int list \<Rightarrow> U8 list option" where
  "parent_key G E bits = do {
     p \<leftarrow> ScalarMulBaseBits G E bits;
     mapm (g_byte_of G) (Compress G E p) }"

section \<open>Inverses\<close>

lemma egcd_bezout: "0 \<le> a \<Longrightarrow> 0 \<le> b \<Longrightarrow> fst (egcd a b) * a + snd (egcd a b) * b = gcd a b"
proof (induction a b rule: egcd.induct)
  case (1 a b)
  show ?case
  proof (cases "b \<le> 0")
    case True
    then show ?thesis using 1 by (simp add: egcd.simps)
  next
    case False
    obtain s t where st: "egcd b (a mod b) = (s, t)" by (cases "egcd b (a mod b)")
    have "s * b + t * (a mod b) = gcd b (a mod b)" using 1 False st by simp
    moreover have "gcd b (a mod b) = gcd a b" by (simp add: gcd.commute gcd_red_int [symmetric])
    moreover have "a mod b = a - a div b * b" by (rule minus_div_mult_eq_mod [symmetric])
    ultimately show ?thesis using False st by (simp add: egcd.simps [of a b] algebra_simps)
  qed
qed

lemma P_pos: "0 < P" "1 < P"
  by (simp_all add: P_def)

lemma inverse_unique:
  assumes "r * y mod P = 1" and "elem s" and "elem t" and "s * y mod P = t * y mod P"
  shows "s = t"
proof -
  have "s * (r * y) mod P = t * (r * y) mod P"
    using assms(4) by (metis mod_mult_cong mult.assoc mult.commute)
  then have "s * 1 mod P = t * 1 mod P" using assms(1) by (metis mod_mult_right_eq)
  then show ?thesis using assms(2,3) by (simp add: elem_def)
qed

lemma fpInv_iff: "fpInv a = Some r \<longleftrightarrow> elem r \<and> r * a mod P = 1"
proof -
  let ?s = "fst (egcd (modp a) P)"
  have m: "(?s mod P) * a mod P = ?s * modp a mod P" by (simp add: modp_def mod_simps)
  have b: "?s * modp a mod P = gcd (modp a) P mod P"
  proof -
    have "?s * modp a + snd (egcd (modp a) P) * P = gcd (modp a) P"
      using P_pos by (intro egcd_bezout) (simp_all add: modp_def)
    then show ?thesis by (metis mod_mult_self3 add.commute mult.commute)
  qed
  show ?thesis
  proof
    assume "fpInv a = Some r"
    then show "elem r \<and> r * a mod P = 1"
      using m P_pos by (auto simp: fpInv_def Let_def elem_def split: if_splits)
  next
    assume r: "elem r \<and> r * a mod P = 1"
    have "gcd (modp a) P dvd r * a mod P"
      by (metis dvd_mod_iff dvd_mult gcd_dvd1 gcd_dvd2 modp_def)
    then have "gcd (modp a) P = 1" using r by (metis gcd_pos_int gcd_ge_0_int zdvd1_eq abs_of_nonneg)
    then have "?s * modp a mod P = 1" using b P_pos by simp
    moreover from this have "?s mod P = r"
      using inverse_unique [of "?s mod P" a "?s mod P" r] r m P_pos by (simp add: elem_def)
    ultimately show "fpInv a = Some r" by (simp add: fpInv_def Let_def)
  qed
qed

lemma inverse_coprime:
  assumes "r * a mod P = 1"
  shows "coprime a P"
proof (rule coprimeI)
  fix d assume "d dvd a" and "d dvd P"
  then have "d dvd r * a mod P" by (simp add: dvd_mod)
  then show "is_unit d" using assms by simp
qed

section \<open>Addition\<close>

definition point_ok :: "RefPoint \<Rightarrow> bool" where
  "point_ok p \<longleftrightarrow> elem (fst p) \<and> elem (snd p)"

lemma elem_modp [simp]: "elem (modp v)"
  by (simp add: elem_def modp_def P_def)

lemma elem_fp [simp]: "elem (fpMul a b)" "elem (fpAdd a b)" "elem (fpSub a b)"
  by (simp_all add: fpMul_def fpAdd_def fpSub_def)

lemma elem_consts [simp]: "elem 0" "elem 1" "elem D" "elem Bx" "elem By"
  by (simp_all add: elem_def P_def D_def Bx_def By_def)

lemma doc_emul:
  assumes "emul_doc E" and "elem x" and "elem y"
  shows "e_add E x y = fpAdd x y" "e_sub E x y = fpSub x y" "e_mul E x y = fpMul x y"
    "coprime y P \<Longrightarrow> e_div E x y = Some r \<longleftrightarrow> elem r \<and> r * y mod P = x" "e_div E x y = Some r \<Longrightarrow> elem r"
    "e_bits E x = bits_of 255 x"
  using assms unfolding emul_doc_def fpAdd_def fpSub_def fpMul_def modp_def by blast+

lemma doc_mux: "emul_doc E \<Longrightarrow> 0 \<le> i \<Longrightarrow> e_mux E i xs = Some r \<longleftrightarrow> i < int (length xs) \<and> r = xs ! nat i"
  unfolding emul_doc_def by blast

lemma e_div_inverse:
  assumes "emul_doc E" and "elem x" and "elem y" and "fpInv y = Some yi"
  shows "e_div E x y = Some (fpMul x yi)"
proof -
  have i: "elem yi" "yi * y mod P = 1" using assms(4) by (simp_all add: fpInv_iff)
  have "fpMul x yi * y mod P = x * (yi * y mod P) mod P" by (simp add: fpMul_def modp_def mod_simps ac_simps)
  then have "fpMul x yi * y mod P = x" using i(2) assms(2) by (simp add: elem_def)
  then show ?thesis using doc_emul(4) [OF assms(1-3) inverse_coprime [OF i(2)]] by simp
qed

lemma curve_add_ref:
  assumes "emul_doc E" and "point_ok p" and "point_ok q" and "RefAdd p q = Some r"
  shows "curve_add E p q = Some r \<and> point_ok r"
proof -
  have pq: "elem (fst p)" "elem (snd p)" "elem (fst q)" "elem (snd q)" using assms(2,3) by (simp_all add: point_ok_def)
  let ?a = "fpMul (fst p) (snd q)" and ?b = "fpMul (snd p) (fst q)" and ?c = "fpMul (fst p) (fst q)" and ?d = "fpMul (snd p) (snd q)"
  let ?e = "fpMul D (fpMul ?c ?d)"
  obtain xi yi where i: "fpInv (fpAdd 1 ?e) = Some xi" "fpInv (fpSub 1 ?e) = Some yi"
      "r = (fpMul (fpAdd ?a ?b) xi, fpMul (fpAdd ?d ?c) yi)"
    using assms(4) by (auto simp: RefAdd_def Let_def bind_eq_Some_conv)
  then show ?thesis
    using e_div_inverse [OF assms(1) _ _ i(1)] e_div_inverse [OF assms(1) _ _ i(2)]
    by (simp add: curve_add_def Let_def doc_emul(1-3) [OF assms(1)] pq point_ok_def)
qed

text \<open>The reference keeps coordinates reduced.\<close>

lemma RefAdd_ok: "RefAdd p q = Some r \<Longrightarrow> point_ok r"
  by (auto simp: RefAdd_def Let_def bind_eq_Some_conv point_ok_def)

lemma RefScalarMul_ok: "RefScalarMul s p = Some r \<Longrightarrow> point_ok r"
proof -
  have "point_ok r" if "foldm (\<lambda>acc i. do { acc \<leftarrow> RefAdd acc acc; if s div 2 ^ i mod 2 = 1 then RefAdd acc p else Some acc }) q xs = Some r"
      "point_ok q" for q xs
    using that by (induction xs arbitrary: q) (auto simp: bind_eq_Some_conv dest: RefAdd_ok split: if_splits)
  moreover have "point_ok RefIdentity" by (simp add: point_ok_def RefIdentity_def)
  ultimately show "RefScalarMul s p = Some r \<Longrightarrow> point_ok r" unfolding RefScalarMul_def by blast
qed

section \<open>Tables and windows\<close>

lemma table_fold:
  "foldm (\<lambda>(t, acc) _. do { acc' \<leftarrow> RefAdd acc b; Some (t @ [acc], acc') }) (t, a) xs = Some (t', a') \<Longrightarrow>
   \<exists>us. t' = t @ us \<and> length us = length xs \<and> (xs \<noteq> [] \<longrightarrow> us ! 0 = a) \<and>
     (\<forall>k. Suc k < length us \<longrightarrow> RefAdd (us ! k) b = Some (us ! Suc k))"
proof (induction xs arbitrary: t a)
  case (Cons x xs)
  from Cons.prems obtain c where c: "RefAdd a b = Some c"
      "foldm (\<lambda>(t, acc) _. do { acc' \<leftarrow> RefAdd acc b; Some (t @ [acc], acc') }) (t @ [a], c) xs = Some (t', a')"
    by (auto simp: bind_eq_Some_conv)
  from Cons.IH [OF c(2)] obtain us where us: "t' = (t @ [a]) @ us" "length us = length xs" "xs \<noteq> [] \<longrightarrow> us ! 0 = c"
      "\<forall>k. Suc k < length us \<longrightarrow> RefAdd (us ! k) b = Some (us ! Suc k)" by blast
  have "RefAdd ((a # us) ! k) b = Some ((a # us) ! Suc k)" if "Suc k < length (a # us)" for k
    using that us c(1) by (cases k) auto
  then show ?case using us by (intro exI [of _ "a # us"]) simp
qed simp

lemma table_entries:
  assumes "buildTables = Some ts" and "j < 37"
  shows "\<exists>b. RefScalarMulBase (2 ^ (7 * j)) = Some b \<and> length (ts ! j) = 128 \<and> ts ! j ! 0 = RefIdentity \<and>
     (\<forall>k < 127. RefAdd (ts ! j ! k) b = Some (ts ! j ! Suc k))"
proof -
  have "buildTable j = Some (ts ! j)"
    using assms unfolding buildTables_def mapm_Some by (auto simp: list_all2_conv_all_nth)
  then obtain b a' where b: "RefScalarMulBase (2 ^ (7 * j)) = Some b"
      "foldm (\<lambda>(t, acc) _. do { acc' \<leftarrow> RefAdd acc b; Some (t @ [acc], acc') }) ([], RefIdentity) [0..<128::nat] = Some (ts ! j, a')"
    by (auto simp: buildTable_def bind_eq_Some_conv)
  from table_fold [OF b(2)] show ?thesis using b(1) by auto
qed

lemma table_points_ok:
  assumes "buildTables = Some ts" and "j < 37" and "k < 128"
  shows "point_ok (ts ! j ! k)"
proof -
  obtain b where b: "ts ! j ! 0 = RefIdentity" "\<forall>k < 127. RefAdd (ts ! j ! k) b = Some (ts ! j ! Suc k)"
    using table_entries [OF assms(1,2)] by blast
  show ?thesis
  proof (cases k)
    case 0
    then show ?thesis using b(1) by (simp add: point_ok_def RefIdentity_def)
  next
    case (Suc i)
    then have "RefAdd (ts ! j ! i) b = Some (ts ! j ! k)" using b(2) assms(3) by simp
    then show ?thesis by (rule RefAdd_ok)
  qed
qed

lemma weighted_bits:
  assumes "gnark_doc G" and "\<And>k. k < n \<Longrightarrow> c k \<Longrightarrow> bit_ok (f k)" and "n \<le> 8"
  shows "foldl (\<lambda>sel k. if c k then g_add G sel (g_mul G (f k) (2 ^ k)) else sel) 0 [0..<n] =
      (\<Sum>k<n. if c k then f k * 2 ^ k else 0) \<and>
    0 \<le> (\<Sum>k<n. if c k then f k * 2 ^ k else 0) \<and> (\<Sum>k<n. if c k then f k * 2 ^ k else 0) < 2 ^ n"
  using assms(2,3)
proof (induction n)
  case (Suc n)
  let ?s = "\<Sum>k<n. if c k then f k * 2 ^ k else 0"
  have ih: "foldl (\<lambda>sel k. if c k then g_add G sel (g_mul G (f k) (2 ^ k)) else sel) 0 [0..<n] = ?s" "0 \<le> ?s" "?s < 2 ^ n"
    using Suc.IH Suc.prems by simp_all
  have p: "(2 :: int) ^ n \<le> 2 ^ 8" using Suc.prems(2) by (intro power_increasing) simp_all
  show ?case
  proof (cases "c n")
    case True
    have b: "bit_ok (f n)" using Suc.prems(1) True by simp
    have fe: "fe G (f n)" "fe G (2 ^ n)" using b p by (auto intro!: fe_small [OF assms(1)] simp: bit_ok_def)
    have m: "g_mul G (f n) (2 ^ n) = f n * 2 ^ n"
      using b p by (intro mul_small [OF assms(1) fe]) (auto simp: bit_ok_def)
    have "g_add G ?s (f n * 2 ^ n) = ?s + f n * 2 ^ n"
      using b p ih by (intro add_small [OF assms(1)]) (auto simp: bit_ok_def)
    then show ?thesis using True b ih m by (auto simp: bit_ok_def)
  next
    case False
    then show ?thesis using ih by simp
  qed
qed simp

lemma seven_bits: "(\<Sum>k<n. (q div 2 ^ k mod 2) * 2 ^ k) = (q :: int) mod 2 ^ n"
proof (induction n arbitrary: q)
  case (Suc n)
  have "(\<Sum>k<Suc n. (q div 2 ^ k mod 2) * 2 ^ k) = q mod 2 + 2 * (\<Sum>k<n. (q div 2 div 2 ^ k mod 2) * 2 ^ k)"
    unfolding sum.lessThan_Suc_shift by (simp add: zdiv_zmult2_eq sum_distrib_left ac_simps)
  also have "\<dots> = q mod 2 + 2 * (q div 2 mod 2 ^ n)" by (simp only: Suc.IH)
  also have "\<dots> = q mod 2 ^ Suc n" by (simp add: zmod_zmult2_eq)
  finally show ?case .
qed simp

lemma window_sel_value:
  assumes "gnark_doc G" and "0 \<le> s" "s < 2 ^ 255" and "j < 37"
  shows "window_sel G (bits_of 256 s) j = s div 2 ^ (7 * j) mod 2 ^ 7"
proof -
  let ?f = "\<lambda>k. bits_of 256 s ! (7 * j + k)"
  have f: "?f k = s div 2 ^ (7 * j) div 2 ^ k mod 2" if "7 * j + k < 255" for k
    using that by (simp add: bits_of_nth power_add zdiv_zmult2_eq)
  have z: "s div 2 ^ (7 * j) div 2 ^ k mod 2 = 0" if "\<not> 7 * j + k < 255" for k
  proof -
    have "(2 :: int) ^ 255 \<le> 2 ^ (7 * j + k)" using that by (intro power_increasing) simp_all
    then have "s div 2 ^ (7 * j + k) = 0" using assms(2,3) by (intro div_pos_pos_trivial) simp_all
    then show ?thesis by (simp add: power_add zdiv_zmult2_eq)
  qed
  have "window_sel G (bits_of 256 s) j = (\<Sum>k<7. if 7 * j + k < 255 then ?f k * 2 ^ k else 0)"
    unfolding window_sel_def
    using weighted_bits [OF assms(1), of 7 "\<lambda>k. 7 * j + k < 255" ?f] bits_of_ok [of 256 s] by (simp add: bits_ok_iff)
  also have "\<dots> = (\<Sum>k<7. (s div 2 ^ (7 * j) div 2 ^ k mod 2) * 2 ^ k)"
    by (rule sum.cong) (use f z in auto)
  finally show ?thesis by (simp only: seven_bits)
qed

text \<open>The windows cover the scalar: they are its digits to the base 128.\<close>

lemma digits_128: "(\<Sum>j<n. (s div 2 ^ (7 * j) mod 2 ^ 7) * 2 ^ (7 * j)) = (s :: int) mod 2 ^ (7 * n)"
proof (induction n)
  case (Suc n)
  have "s mod (2 ^ (7 * n) * 2 ^ 7) = 2 ^ (7 * n) * (s div 2 ^ (7 * n) mod 2 ^ 7) + s mod 2 ^ (7 * n)"
    by (rule zmod_zmult2_eq) simp
  moreover have "7 * Suc n = 7 * n + 7" by simp
  ultimately show ?case using Suc.IH by (simp only: sum.lessThan_Suc power_add) (simp add: ac_simps)
qed simp

lemma windows_cover:
  assumes "gnark_doc G" and "0 \<le> s" "s < 2 ^ 255"
  shows "(\<Sum>j<37. window_sel G (bits_of 256 s) j * 2 ^ (7 * j)) = s"
proof -
  have "(\<Sum>j<37. window_sel G (bits_of 256 s) j * 2 ^ (7 * j)) = (\<Sum>j<37. (s div 2 ^ (7 * j) mod 2 ^ 7) * 2 ^ (7 * j))"
    by (rule sum.cong) (use window_sel_value [OF assms] in simp_all)
  also have "\<dots> = s mod 2 ^ (7 * 37)" by (rule digits_128)
  also have "\<dots> = s" by (rule mod_pos_pos_trivial) (use assms(2,3) in simp_all)
  finally show ?thesis .
qed

text \<open>The multiple the windowed method computes, on the reference's points.\<close>

definition window_points :: "RefPoint list list \<Rightarrow> int \<Rightarrow> RefPoint list" where
  "window_points ts s = map (\<lambda>j. ts ! j ! nat (s div 2 ^ (7 * j) mod 2 ^ 7)) [0..<37]"

definition ref_sum :: "RefPoint list \<Rightarrow> RefPoint option" where
  "ref_sum ps = foldm RefAdd (hd ps) (tl ps)"

definition windowed_mul :: "int \<Rightarrow> RefPoint option" where
  "windowed_mul s = do { ts \<leftarrow> buildTables; ref_sum (window_points ts s) }"

definition tables_ok :: "RefPoint list list \<Rightarrow> bool" where
  "tables_ok ts \<longleftrightarrow> (\<forall>j < 37. length (ts ! j) = 128 \<and> (\<forall>k < 128. point_ok (ts ! j ! k)))"

lemma buildTables_ok: "buildTables = Some ts \<Longrightarrow> tables_ok ts"
  using table_entries table_points_ok unfolding tables_ok_def by blast

lemma scalar_fold:
  assumes "emul_doc E" and "\<And>j. j \<in> set js \<Longrightarrow> f j = Some (pt j) \<and> point_ok (pt j)" and "point_ok a"
    and "foldm RefAdd a (map pt js) = Some r"
  shows "foldm (\<lambda>acc j. do { p \<leftarrow> f j; case acc of None \<Rightarrow> Some (Some p) | Some acc \<Rightarrow> map_option Some (curve_add E acc p) }) (Some a) js = Some (Some r) \<and> point_ok r"
  using assms(2-)
proof (induction js arbitrary: a)
  case (Cons j js)
  from Cons.prems(3) obtain b where b: "RefAdd a (pt j) = Some b" "foldm RefAdd b (map pt js) = Some r"
    by (auto simp: bind_eq_Some_conv)
  have "f j = Some (pt j)" "point_ok (pt j)" using Cons.prems(1) by simp_all
  moreover have "curve_add E a (pt j) = Some b" "point_ok b"
    using curve_add_ref [OF assms(1) Cons.prems(2) calculation(2) b(1)] by simp_all
  ultimately show ?case using Cons.IH [OF _ _ b(2)] Cons.prems(1) by simp
qed simp

lemma top_digit: "0 < (m :: int) \<Longrightarrow> s div m mod 2 = s mod (m * 2) div m"
  using div_mult_self4 [of m "s div m mod 2" "s mod m"] by (simp add: zmod_zmult2_eq)

lemma bits_of_255: "g_eq G (bits_of 256 s ! 255) 0 \<longleftrightarrow> s mod 2 ^ 256 < 2 ^ 255"
  if "gnark_doc G" for G s
proof -
  let ?x = "s mod 2 ^ 256"
  have x: "0 \<le> ?x" "?x < 2 ^ 256" by simp_all
  have "bits_of 256 s ! 255 = s div 2 ^ 255 mod 2" by (simp add: bits_of_nth)
  also have "\<dots> = ?x div 2 ^ 255"
  proof -
    have "(2 :: int) ^ 255 * 2 = 2 ^ 256" by simp
    then show ?thesis using top_digit [of "2 ^ 255" s] by (simp only: zero_less_power zero_less_numeral)
  qed
  finally have b: "bits_of 256 s ! 255 = ?x div 2 ^ 255" .
  have q: "0 \<le> ?x div 2 ^ 255" "?x div 2 ^ 255 < 2" using x by auto
  have "fe G (?x div 2 ^ 255)" "fe G 0" using q by (auto intro!: fe_small [OF that])
  moreover have "?x div 2 ^ 255 = 0 \<longleftrightarrow> ?x < 2 ^ 255"
    unfolding int_div_eq [OF zero_less_power [OF zero_less_numeral]] using x by simp
  ultimately show ?thesis using doc_ops(4) [OF that] b by simp
qed

lemma window_sum_ref:
  assumes "gnark_doc G" and "emul_doc E" and "0 \<le> s" "s < 2 ^ 255" and "tables_ok ts"
    and "ref_sum (window_points ts s) = Some r"
  shows "window_sum G E ts (bits_of 256 s) = Some r \<and> point_ok r"
proof -
  let ?k = "\<lambda>j. nat (s div 2 ^ (7 * j) mod 2 ^ 7)"
  let ?pt = "\<lambda>j. ts ! j ! ?k j"
  let ?f = "\<lambda>j. do { selX \<leftarrow> e_mux E (window_sel G (bits_of 256 s) j) (map fst (ts ! j));
                     selY \<leftarrow> e_mux E (window_sel G (bits_of 256 s) j) (map snd (ts ! j)); Some (selX, selY) }"
  have mux: "e_mux E (window_sel G (bits_of 256 s) j) (map g (ts ! j)) = Some (g (?pt j))" if "j < 37"
    for j and g :: "RefPoint \<Rightarrow> int"
  proof -
    have sel: "window_sel G (bits_of 256 s) j = s div 2 ^ (7 * j) mod 2 ^ 7" by (rule window_sel_value [OF assms(1,3,4) that])
    have k: "0 \<le> s div 2 ^ (7 * j) mod 2 ^ 7" "s div 2 ^ (7 * j) mod 2 ^ 7 < 128" by simp_all
    have "length (ts ! j) = 128" using assms(5) that by (simp add: tables_ok_def)
    then show ?thesis unfolding sel using doc_mux [OF assms(2) k(1)] k by (simp add: nth_map)
  qed
  have f: "?f j = Some (?pt j) \<and> point_ok (?pt j)" if "j < 37" for j
    using mux [OF that] assms(5) that by (simp add: tables_ok_def)
  have u: "[0..<37] = 0 # [1..<37::nat]" by (simp add: upt_conv_Cons)
  have r: "foldm RefAdd (?pt 0) (map ?pt [1..<37]) = Some r"
    using assms(6) by (simp add: ref_sum_def window_points_def u)
  have "foldm (\<lambda>acc j. do { p \<leftarrow> ?f j; case acc of None \<Rightarrow> Some (Some p) | Some acc \<Rightarrow> map_option Some (curve_add E acc p) })
      (Some (?pt 0)) [1..<37] = Some (Some r) \<and> point_ok r"
    by (rule scalar_fold [OF assms(2) _ conjunct2 [OF f] r]) (use f in auto)
  then have l: "foldm (\<lambda>acc j. do { p \<leftarrow> ?f j; case acc of None \<Rightarrow> Some (Some p) | Some acc \<Rightarrow> map_option Some (curve_add E acc p) })
      None [0..<37] = Some (Some r) \<and> point_ok r"
    using mux [of 0] by (simp add: u)
  then show ?thesis by (simp add: window_sum_def Let_def)
qed

lemma ScalarMulBaseBits_ref:
  assumes "gnark_doc G" and "emul_doc E" and "0 \<le> s" "s < 2 ^ 255" and "windowed_mul s = Some r"
  shows "ScalarMulBaseBits G E (bits_of 256 s) = Some r \<and> point_ok r"
proof -
  obtain ts where ts: "buildTables = Some ts" "ref_sum (window_points ts s) = Some r"
    using assms(5) by (auto simp: windowed_mul_def bind_eq_Some_conv)
  have b: "list_all (g_boolean G) (bits_of 256 s)" "length (bits_of 256 s) = 256"
    using bits_of_ok [of 256 s] doc_msb(6) [OF assms(1)] fe_small [OF assms(1)]
    by (auto simp: list_all_iff bits_ok_iff bit_ok_def)
  have "s mod 2 ^ 256 = s" by (rule mod_pos_pos_trivial) (use assms(3,4) in simp_all)
  then have z: "g_eq G (bits_of 256 s ! 255) 0" using bits_of_255 [OF assms(1), of s] assms(4) by simp
  show ?thesis
    using window_sum_ref [OF assms(1-4) buildTables_ok [OF ts(1)] ts(2)] b z by (simp add: ScalarMulBaseBits_def ts(1))
qed

text \<open>Scalars outside the domain: a vector of another length, a value that is no bit, a set bit 255.\<close>

lemma ScalarMulBaseBits_domain:
  assumes "gnark_doc G" and "list_all (fe G) bits" and "ScalarMulBaseBits G E bits = Some r"
  shows "length bits = 256 \<and> bits_ok bits \<and> bin_val bits < 2 ^ 255 \<and> bits = bits_of 256 (bin_val bits)"
proof -
  have h: "length bits = 256" "list_all (g_boolean G) bits" "g_eq G (bits ! 255) 0"
    using assms(3) by (auto simp: ScalarMulBaseBits_def split: if_splits)
  have b: "bits_ok bits" using h(2) doc_msb(6) [OF assms(1)] assms(2) by (auto simp: bits_ok_iff list_all_iff)
  have v: "0 \<le> bin_val bits" "bin_val bits < 2 ^ 256" using bin_val_bounds [OF b] h(1) by simp_all
  have e: "bits = bits_of 256 (bin_val bits)"
    using bin_val_bits_of [OF v] bits_of_ok [of 256 "bin_val bits"] b h(1) by (intro bin_val_inj) simp_all
  have "bin_val bits mod 2 ^ 256 = bin_val bits" by (rule mod_pos_pos_trivial) (rule v)+
  then have "bin_val bits < 2 ^ 255" using bits_of_255 [OF assms(1), of "bin_val bits"] h(3) e by simp
  with h b e show ?thesis by simp
qed

section \<open>Compression\<close>

lemma bin_val_sum: "bin_val bs = (\<Sum>k<length bs. bs ! k * 2 ^ k)"
proof (induction bs rule: rev_induct)
  case (snoc b bs)
  then show ?case by (simp add: bin_val_append nth_append)
qed simp

lemma Compress_bytes:
  assumes "gnark_doc G" and "emul_doc E" and "point_ok p"
  shows "Compress G E p = bytes_of 32 (snd p + 2 ^ 255 * (fst p mod 2))"
proof -
  let ?enc = "bits_of 255 (snd p) @ [fst p mod 2]"
  have p: "elem (fst p)" "elem (snd p)" using assms(3) by (simp_all add: point_ok_def)
  have y: "0 \<le> snd p" "snd p < 2 ^ 255" using p(2) by (simp_all add: elem_def P_def)
  have ok: "bits_ok ?enc" "length ?enc = 8 * 32" using bits_of_ok [of 255 "snd p"] by (auto simp: bit_ok_def)
  have v: "bin_val ?enc = snd p + 2 ^ 255 * (fst p mod 2)"
    using bin_val_bits_of [OF y] bits_of_ok [of 255 "snd p"] by (simp add: bin_val_append)
  have x0: "bits_of 255 (fst p) ! 0 = fst p mod 2" by (simp add: bits_of_nth)
  have byte: "foldl (\<lambda>acc b. g_add G acc (g_mul G (?enc ! (8 * i + b)) (2 ^ b))) 0 [0..<8] = bin_val (take 8 (drop (8 * i) ?enc))"
    if "i < 32" for i
  proof -
    have l: "length (take 8 (drop (8 * i) ?enc)) = 8" using ok(2) that by simp
    have bk: "bit_ok (?enc ! (8 * i + k))" if "k < 8" for k
    proof -
      have "8 * i + k < length ?enc" using ok(2) that \<open>i < 32\<close> by linarith
      then show ?thesis using ok(1) nth_mem unfolding bits_ok_iff by blast
    qed
    have n: "take 8 (drop (8 * i) ?enc) ! k = ?enc ! (8 * i + k)" if "k < 8" for k
      by (rule nth_take_drop [OF that]) (use ok(2) \<open>i < 32\<close> in simp)
    have "foldl (\<lambda>acc b. if True then g_add G acc (g_mul G (?enc ! (8 * i + b)) (2 ^ b)) else acc) 0 [0..<8] =
        (\<Sum>k<8. if True then ?enc ! (8 * i + k) * 2 ^ k else 0)"
      by (rule conjunct1 [OF weighted_bits [OF assms(1)]]) (rule bk, simp_all)
    also have "\<dots> = bin_val (take 8 (drop (8 * i) ?enc))" unfolding bin_val_sum l by (rule sum.cong) (simp_all only: if_True n lessThan_iff)
    finally show ?thesis by (simp only: if_True)
  qed
  have "Compress G E p = map (\<lambda>i. bin_val (take 8 (drop (8 * i) ?enc))) [0..<32]"
    unfolding Compress_def Let_def doc_emul(6) [OF assms(2) p(1) p(1)] doc_emul(6) [OF assms(2) p(2) p(2)] x0
    using byte bits_of_ok [of 255 "snd p"] by (intro map_cong) simp_all
  also have "\<dots> = bytes_of 32 (le_val (map (\<lambda>i. bin_val (take 8 (drop (8 * i) ?enc))) [0..<32]))"
    using bytes_of_le_val [OF conjunct2 [OF bin_val_chunks [OF ok]]] by simp
  finally show ?thesis unfolding conjunct1 [OF bin_val_chunks [OF ok]] v .
qed

lemma RefCompress_bytes:
  assumes "point_ok p"
  shows "RefCompress p = u8s (bytes_of 32 (snd p + 2 ^ 255 * (fst p mod 2)))"
proof -
  let ?y = "snd p" and ?s = "fst p mod 2"
  have y: "0 \<le> ?y" "?y < 2 ^ 255" and m: "modp ?y = ?y" "modp (fst p) = fst p"
    using assms by (simp_all add: point_ok_def elem_def P_def modp_def)
  let ?z = "?y + 2 ^ 255 * ?s"
  have byte: "(word_of_int (x mod 256) :: u8) = word_of_int x" for x by (simp add: word_of_int_eq_iff take_bit_eq_mod)
  have s: "?s = 0 \<or> ?s = 1" by presburger
  have low: "(word_of_int (?z div 256 ^ i) :: u8) = word_of_int (?y div 256 ^ i)" if "i < 31" for i
  proof -
    have e: "(2 :: int) ^ 255 = 256 ^ i * (256 * 2 ^ (247 - 8 * i))"
    proof -
      have t: "(2 :: int) ^ 8 = 256" by simp
      have "(2 :: int) ^ 255 = 2 ^ (8 * i + (8 + (247 - 8 * i)))" using that by (intro arg_cong [of _ _ "power 2"]) simp
      then show ?thesis by (simp only: power_add power_mult t)
    qed
    have "?z = ?y + 256 ^ i * (256 * 2 ^ (247 - 8 * i) * ?s)" by (subst e) (simp only: mult.assoc)
    then have "?z div 256 ^ i = 256 * 2 ^ (247 - 8 * i) * ?s + ?y div 256 ^ i" by (simp only: div_mult_self2) simp
    moreover have "(word_of_int (256 * 2 ^ (247 - 8 * i) * ?s) :: u8) = 0"
    proof -
      have "256 * 2 ^ (247 - 8 * i) * ?s mod 256 = 0" by (simp only: mult.assoc mod_mult_self1_is_0)
      then show ?thesis using byte [of "256 * 2 ^ (247 - 8 * i) * ?s"] by (simp only: word_of_int_0)
    qed
    ultimately show ?thesis by (simp only: wi_hom_add [symmetric]) simp
  qed
  have top: "(word_of_int (?z div 256 ^ 31) :: u8) = (if ?s = 1 then word_of_int (?y div 256 ^ 31) OR 0x80 else word_of_int (?y div 256 ^ 31))"
  proof -
    have "?z = ?y + 256 ^ 31 * (128 * ?s)" by simp
    then have z: "?z div 256 ^ 31 = 128 * ?s + ?y div 256 ^ 31" by (simp only: div_mult_self2) simp
    have q: "0 \<le> ?y div 256 ^ 31" "?y div 256 ^ 31 < 128" using y by (auto simp: div_less_iff_less_mult)
    have "(word_of_int (?y div 256 ^ 31) :: u8) + 0x80 = word_of_int (?y div 256 ^ 31) OR 0x80"
    proof (rule disjunctive_add)
      fix n
      have "\<not> bit (?y div 256 ^ 31) 7" using q by (simp add: bit_iff_odd div_pos_pos_trivial)
      moreover have "bit (0x80 :: u8) n \<Longrightarrow> n = 7" using bit_exp_iff [of 7 n, where ?'a = u8] by simp
      ultimately show "\<not> bit (word_of_int (?y div 256 ^ 31) :: u8) n \<or> \<not> bit (0x80 :: u8) n"
        by (auto simp: bit_simps)
    qed
    then show ?thesis using s unfolding z by (auto simp: wi_hom_add [symmetric] add.commute)
  qed
  show ?thesis
  proof (rule nth_equalityI)
    show "length (RefCompress p) = length (u8s (bytes_of 32 ?z))" using bytes_of_ok [of 32 ?z] by (simp add: RefCompress_def Let_def)
    fix i assume "i < length (RefCompress p)"
    then have i: "i < 32" by (simp add: RefCompress_def Let_def split: if_splits)
    have "u8s (bytes_of 32 ?z) ! i = word_of_int (?z div 256 ^ i)" using i byte by (simp add: u8s_def bytes_of_def)
    moreover have "RefCompress p ! i = word_of_int (?z div 256 ^ i)"
    proof (cases "i = 31")
      case True
      have "RefCompress p ! 31 = (if ?s = 1 then word_of_int (?y div 256 ^ 31) OR 0x80 else word_of_int (?y div 256 ^ 31))"
        unfolding RefCompress_def Let_def m by (simp del: power_numeral)
      then show ?thesis using top True by (simp only:)
    next
      case False
      then have "RefCompress p ! i = word_of_int (?y div 256 ^ i)"
        unfolding RefCompress_def Let_def m using i by simp
      then show ?thesis using low [of i] i False by simp
    qed
    ultimately show "RefCompress p ! i = u8s (bytes_of 32 ?z) ! i" by (simp only:)
  qed
qed

section \<open>The public key of a scalar\<close>

text \<open>On the domain of \<^verbatim>\<open>ScalarMulBaseBits\<close> the gadget's key is the reference encoding of the windowed multiple.\<close>

lemma parent_key_bytes:
  assumes "gnark_doc G" and "emul_doc E" and "point_ok p"
  shows "mapm (g_byte_of G) (Compress G E p) = Some (Compress G E p) \<and> bytes_ok (Compress G E p) \<and>
     length (Compress G E p) = 32 \<and> u8s (Compress G E p) = RefCompress p"
proof -
  let ?c = "bytes_of 32 (snd p + 2 ^ 255 * (fst p mod 2))"
  have c: "bytes_ok ?c" "length ?c = 32" using bytes_of_ok by blast+
  have "g_byte_of G b = Some b" if "byte_ok b" for b
    using doc_words(1) [OF assms(1) byte_fe [OF assms(1) that]] that by (simp add: byte_ok_def)
  then have "mapm (g_byte_of G) ?c = Some ?c"
    using c(1) by (simp add: mapm_Some list_all2_same bytes_ok_iff)
  then show ?thesis
    unfolding Compress_bytes [OF assms] RefCompress_bytes [OF assms(3)] using c by blast
qed

lemma parent_key_ref:
  assumes "gnark_doc G" and "emul_doc E" and "0 \<le> s" "s < 2 ^ 255" and "windowed_mul s = Some r"
  shows "\<exists>k. parent_key G E (bits_of 256 s) = Some k \<and> u8s k = RefCompress r"
  using ScalarMulBaseBits_ref [OF assms] parent_key_bytes [OF assms(1,2)] by (fastforce simp: parent_key_def)

lemma curve_add_ok:
  assumes "emul_doc E" and "point_ok p" and "point_ok q" and "curve_add E p q = Some r"
  shows "point_ok r"
proof -
  have pq: "elem (fst p)" "elem (snd p)" "elem (fst q)" "elem (snd q)" using assms(2,3) by (simp_all add: point_ok_def)
  let ?a = "fpMul (fst p) (snd q)" and ?b = "fpMul (snd p) (fst q)" and ?c = "fpMul (fst p) (fst q)" and ?d = "fpMul (snd p) (snd q)"
  let ?e = "fpMul D (fpMul ?c ?d)"
  obtain x y where r: "e_div E (fpAdd ?a ?b) (fpAdd 1 ?e) = Some x" "e_div E (fpAdd ?d ?c) (fpSub 1 ?e) = Some y" "r = (x, y)"
    using assms(4) by (auto simp: curve_add_def Let_def bind_eq_Some_conv doc_emul(1-3) [OF assms(1)] pq)
  then show ?thesis
    using doc_emul(5) [OF assms(1) _ _ r(1)] doc_emul(5) [OF assms(1) _ _ r(2)] by (simp add: point_ok_def)
qed

lemma scalar_fold_ok:
  assumes "\<And>j p. j \<in> set js \<Longrightarrow> g j = Some p \<Longrightarrow> point_ok p" and "emul_doc E"
    and "foldm (\<lambda>acc j. do { p \<leftarrow> g j; case acc of None \<Rightarrow> Some (Some p) | Some acc \<Rightarrow> map_option Some (curve_add E acc p) }) acc js = Some r"
    and "pred_option point_ok acc"
  shows "pred_option point_ok r"
  using assms(1,3,4)
proof (induction js arbitrary: acc)
  case (Cons j js)
  from Cons.prems(2) obtain p b where b: "g j = Some p"
      "(case acc of None \<Rightarrow> Some (Some p) | Some acc \<Rightarrow> map_option Some (curve_add E acc p)) = Some b"
      "foldm (\<lambda>acc j. do { p \<leftarrow> g j; case acc of None \<Rightarrow> Some (Some p) | Some acc \<Rightarrow> map_option Some (curve_add E acc p) }) b js = Some r"
    by (auto simp: bind_eq_Some_conv)
  have p: "point_ok p" by (rule Cons.prems(1) [OF _ b(1)]) simp
  then have "pred_option point_ok b"
    using b(2) Cons.prems(3) curve_add_ok [OF assms(2) _ p] by (cases acc) auto
  then show ?case by (intro Cons.IH [OF _ b(3)] Cons.prems(1)) simp_all
qed simp

lemma ScalarMulBaseBits_ok:
  assumes "gnark_doc G" and "emul_doc E" and "0 \<le> s" "s < 2 ^ 255" and "ScalarMulBaseBits G E (bits_of 256 s) = Some r"
  shows "point_ok r"
proof -
  obtain ts acc where ts: "buildTables = Some ts" and acc:
      "foldm (\<lambda>acc j. do {
            selX \<leftarrow> e_mux E (window_sel G (bits_of 256 s) j) (map fst (ts ! j));
            selY \<leftarrow> e_mux E (window_sel G (bits_of 256 s) j) (map snd (ts ! j));
            case acc of None \<Rightarrow> Some (Some (selX, selY))
            | Some acc \<Rightarrow> map_option Some (curve_add E acc (selX, selY)) }) None [0..<37] = Some acc" and r: "acc = Some r"
    using assms(5) unfolding ScalarMulBaseBits_def window_sum_def Let_def by (auto simp: bind_eq_Some_conv split: if_splits)
  let ?g = "\<lambda>j. do { selX \<leftarrow> e_mux E (window_sel G (bits_of 256 s) j) (map fst (ts ! j));
                     selY \<leftarrow> e_mux E (window_sel G (bits_of 256 s) j) (map snd (ts ! j)); Some (selX, selY) }"
  have g: "point_ok p" if "j \<in> set [0..<37]" "?g j = Some p" for j p
  proof -
    have j: "j < 37" using that(1) by simp
    have sel: "window_sel G (bits_of 256 s) j = s div 2 ^ (7 * j) mod 2 ^ 7" by (rule window_sel_value [OF assms(1,3,4) j])
    have k: "0 \<le> s div 2 ^ (7 * j) mod 2 ^ 7" "s div 2 ^ (7 * j) mod 2 ^ 7 < 128" by simp_all
    have l: "length (ts ! j) = 128" using table_entries [OF ts j] by blast
    have "p = ts ! j ! nat (s div 2 ^ (7 * j) mod 2 ^ 7)"
      using that(2) unfolding sel bind_eq_Some_conv doc_mux [OF assms(2) k(1)] using k l by (auto simp: nth_map prod_eq_iff)
    then show ?thesis using table_points_ok [OF ts j] k by simp
  qed
  have "pred_option point_ok acc"
    by (rule scalar_fold_ok [where js = "[0..<37]" and g = ?g and acc = None, OF g assms(2)]) (use acc in simp_all)
  with r show ?thesis by simp
qed

lemma parent_key_ok:
  assumes "gnark_doc G" and "emul_doc E" and "0 \<le> s" "s < 2 ^ 255" and "parent_key G E (bits_of 256 s) = Some k"
  shows "bytes_ok k \<and> length k = 32"
proof -
  obtain p where p: "ScalarMulBaseBits G E (bits_of 256 s) = Some p" "mapm (g_byte_of G) (Compress G E p) = Some k"
    using assms(5) by (auto simp: parent_key_def bind_eq_Some_conv)
  show ?thesis using parent_key_bytes [OF assms(1,2) ScalarMulBaseBits_ok [OF assms(1-4) p(1)]] p(2) by auto
qed

end
