(* ===== verification/CkdChain.thy ===== *)
theory CkdChain
  imports CkdGadgets ShaGadget Ed25519
begin

text \<open>
  \<^verbatim>\<open>internal/circuit/ckd\<close>: the BIP32-Ed25519 derivation, as the Go reference (\<^verbatim>\<open>ref.go\<close>) and as the
  circuit (\<^verbatim>\<open>step.go\<close>, \<^verbatim>\<open>chain.go\<close>). \<open>None\<close> of the reference is a panic. The reference is
  parameterised by the map from a left scalar half to its public key; \<open>deriveChild\<close>,
  \<open>DeriveLevels\<close> and \<open>DeriveRef\<close> take the code's \<open>leafPubkey\<close>.

  \<open>DeriveChain_sound\<close>: whatever the prover's advice, an accepted derivation has a clamped
  master, indexes in range and the left half of the reference's leaf. \<open>DeriveChain_complete\<close>:
  the honest prover always has an accepted derivation, since a clamped master cannot grow past
  \<open>2 ^ 255\<close> in five steps.
\<close>


section \<open>The reference derivation\<close>

record Ext =
  KL :: bytes
  KR :: bytes
  CC :: bytes

definition le32 :: "u32 \<Rightarrow> bytes" where
  "le32 idx = [ucast idx, ucast (drop_bit 8 idx), ucast (drop_bit 16 idx), ucast (drop_bit 24 idx)]"

definition leToInt :: "bytes \<Rightarrow> int" where
  "leToInt b = foldl (\<lambda>a x. 256 * a + uint x) 0 (rev b)"

definition intToLE32 :: "int \<Rightarrow> bytes option" where
  "intToLE32 v = (if v \<ge> 2 ^ 256 then None else Some (map (\<lambda>i. word_of_int (v div 256 ^ i)) [0..<32]))"

definition leafPubkey :: "bytes \<Rightarrow> bytes option" where
  "leafPubkey kL = map_option RefCompress (RefScalarMulBase (leToInt kL))"

text \<open>\<^verbatim>\<open>deriveChild\<close>, for any function from the left half to the public key; the code's is \<^verbatim>\<open>leafPubkey\<close>.\<close>

definition derive_child :: "(bytes \<Rightarrow> bytes option) \<Rightarrow> Ext \<Rightarrow> u32 \<Rightarrow> bool \<Rightarrow> Ext option" where
  "derive_child pub par idx hardened = do {
     let (tagZ, tagCC) = (if hardened then (0x00, 0x01) else (0x02, 0x03));
     data \<leftarrow> (if hardened then Some (KL par @ KR par) else pub (KL par));
     let z = hmac_sha512 (CC par) ([tagZ] @ data @ le32 idx);
     let cc = hmac_sha512 (CC par) ([tagCC] @ data @ le32 idx);
     let klChild = leToInt (KL par) + 8 * leToInt (take 28 z);
     must (klChild < 2 ^ 255);
     let krChild = (leToInt (KR par) + leToInt (drop 32 z)) mod 2 ^ 256;
     kl \<leftarrow> intToLE32 klChild;
     kr \<leftarrow> intToLE32 krChild;
     Some \<lparr>KL = kl, KR = kr, CC = drop 32 cc\<rparr> }"

definition deriveChild :: "Ext \<Rightarrow> u32 \<Rightarrow> bool \<Rightarrow> Ext option" where
  "deriveChild = derive_child leafPubkey"

definition ckd_path :: "u32 \<Rightarrow> u32 \<Rightarrow> u32 \<Rightarrow> (u32 \<times> bool) list" where
  "ckd_path account role index =
     [(0x80000000 OR 1852, True), (0x80000000 OR 1815, True), (0x80000000 OR account, True), (role, False), (index, False)]"

definition derive_levels :: "(bytes \<Rightarrow> bytes option) \<Rightarrow> bytes \<Rightarrow> u32 \<Rightarrow> u32 \<Rightarrow> u32 \<Rightarrow> Ext list option" where
  "derive_levels pub master96 account role index =
     (if length master96 < 96 then None
      else map_option snd (foldm (\<lambda>(parent, rows) (idx, hardened). do {
          child \<leftarrow> derive_child pub parent idx hardened;
          Some (child, rows @ [child]) })
        (\<lparr>KL = take 32 master96, KR = take 32 (drop 32 master96), CC = take 32 (drop 64 master96)\<rparr>, [])
        (ckd_path account role index)))"

definition DeriveLevels :: "bytes \<Rightarrow> u32 \<Rightarrow> u32 \<Rightarrow> u32 \<Rightarrow> Ext list option" where
  "DeriveLevels = derive_levels leafPubkey"

definition derive_ref :: "(bytes \<Rightarrow> bytes option) \<Rightarrow> bytes \<Rightarrow> u32 \<Rightarrow> u32 \<Rightarrow> u32 \<Rightarrow> Ext option" where
  "derive_ref pub master96 account role index = map_option last (derive_levels pub master96 account role index)"

definition DeriveRef :: "bytes \<Rightarrow> u32 \<Rightarrow> u32 \<Rightarrow> u32 \<Rightarrow> Ext option" where
  "DeriveRef = derive_ref leafPubkey"

section \<open>The circuit\<close>

text \<open>\<^verbatim>\<open>CircExt\<close>; the bits of a state that produced none are the empty list.\<close>

record CircExt =
  c_KL :: "U8 list"
  c_KR :: "U8 list"
  c_CC :: "U8 list"
  c_bits :: "int list"

record CircLeaf =
  l_KL :: "U8 list"
  l_bits :: "int list"

definition constBytes :: "bytes \<Rightarrow> U8 list" where
  "constBytes bs = map uint bs"

text \<open>
  The curve a step is called with is its map from a bit vector to the 32 key bytes,
  \<^verbatim>\<open>Compress(ScalarMulBaseBits(bits))\<close> through \<^verbatim>\<open>ValueOf\<close>.
\<close>

type_synonym curve = "int list \<Rightarrow> U8 list option"

definition finishStepBytes :: "gnark \<Rightarrow> advice \<Rightarrow> CircExt \<Rightarrow> U8 list \<Rightarrow> U8 list \<Rightarrow> CircExt option" where
  "finishStepBytes G adv p msg ccm = do {
     (Z, CC) \<leftarrow> HMACSHA512Pair G (at adv [0]) (c_CC p) msg ccm;
     kL \<leftarrow> AddKL G (at adv [1]) (c_KL p) (take 28 Z);
     kR \<leftarrow> AddKR G (at adv [2]) (c_KR p) (drop 32 Z);
     Some \<lparr>c_KL = kL, c_KR = kR, c_CC = drop 32 CC, c_bits = []\<rparr> }"

definition finishStep :: "gnark \<Rightarrow> advice \<Rightarrow> CircExt \<Rightarrow> U8 list \<Rightarrow> U8 list \<Rightarrow> CircExt option" where
  "finishStep G adv p msg ccm = do {
     child \<leftarrow> finishStepBytes G adv p msg ccm;
     bits \<leftarrow> BytesToCanonBits G (c_KL child);
     Some (child\<lparr>c_bits := bits\<rparr>) }"

definition finishStepLeaf :: "gnark \<Rightarrow> advice \<Rightarrow> CircExt \<Rightarrow> U8 list \<Rightarrow> CircLeaf option" where
  "finishStepLeaf G adv p msg = do {
     Z \<leftarrow> HMACSHA512 G (at adv [0]) (c_CC p) msg;
     kL \<leftarrow> AddKL G (at adv [1]) (c_KL p) (take 28 Z);
     bits \<leftarrow> BytesToCanonBits G kL;
     Some \<lparr>l_KL = kL, l_bits = bits\<rparr> }"

definition HardenedStep :: "gnark \<Rightarrow> advice \<Rightarrow> CircExt \<Rightarrow> U8 list \<Rightarrow> CircExt option" where
  "HardenedStep G adv p idxLE =
     finishStep G adv p ([0] @ c_KL p @ c_KR p @ idxLE) ([1] @ c_KL p @ c_KR p @ idxLE)"

definition hardenedStepBytes :: "gnark \<Rightarrow> advice \<Rightarrow> CircExt \<Rightarrow> U8 list \<Rightarrow> CircExt option" where
  "hardenedStepBytes G adv p idxLE =
     finishStepBytes G adv p ([0] @ c_KL p @ c_KR p @ idxLE) ([1] @ c_KL p @ c_KR p @ idxLE)"

definition softParentKey :: "curve \<Rightarrow> CircExt \<Rightarrow> U8 list option" where
  "softParentKey crv p = crv (c_bits p)"

definition SoftStep :: "gnark \<Rightarrow> advice \<Rightarrow> curve \<Rightarrow> CircExt \<Rightarrow> U8 list \<Rightarrow> CircExt option" where
  "SoftStep G adv crv p idxLE = do {
     A \<leftarrow> softParentKey crv p;
     finishStep G adv p ([2] @ A @ idxLE) ([3] @ A @ idxLE) }"

definition softStepLeaf :: "gnark \<Rightarrow> advice \<Rightarrow> curve \<Rightarrow> CircExt \<Rightarrow> U8 list \<Rightarrow> CircLeaf option" where
  "softStepLeaf G adv crv p idxLE = do {
     A \<leftarrow> softParentKey crv p;
     finishStepLeaf G adv p ([2] @ A @ idxLE) }"

definition DeriveChain ::
    "gnark \<Rightarrow> advice \<Rightarrow> curve \<Rightarrow> U8 list \<Rightarrow> U8 list \<Rightarrow> U8 list \<Rightarrow> int \<Rightarrow> int \<Rightarrow> int \<Rightarrow> CircLeaf option" where
  "DeriveChain G adv crv masterKL masterKR masterCC account role index = do {
     mbits \<leftarrow> BytesToCanonBits G masterKL;
     AssertClampBits G mbits;
     let master = \<lparr>c_KL = masterKL, c_KR = masterKR, c_CC = masterCC, c_bits = mbits\<rparr>;
     let c1852 = constBytes (le32 (1852 OR 0x80000000));
     let c1815 = constBytes (le32 (1815 OR 0x80000000));
     x \<leftarrow> hardenedStepBytes G (at adv [1]) master c1852;
     x \<leftarrow> hardenedStepBytes G (at adv [2]) x c1815;
     acc \<leftarrow> le32Var G account True;
     x \<leftarrow> HardenedStep G (at adv [3]) x acc;
     must (g_eq G (g_mul G (g_mul G role (g_sub G role 1)) (g_sub G role 2)) 0);
     roleLE \<leftarrow> le32Var G role False;
     idxLE \<leftarrow> le32Var G index False;
     x \<leftarrow> SoftStep G (at adv [4]) crv x roleLE;
     softStepLeaf G (at adv [5]) crv x idxLE }"

section \<open>Values\<close>

lemma leToInt_u8s:
  assumes "bytes_ok bs"
  shows "leToInt (u8s bs) = le_val bs"
  using assms
proof (induction bs)
  case (Cons b bs)
  have "uint (word_of_int b :: u8) = b"
    using Cons.prems by (simp add: byte_ok_def uint_word_of_int take_bit_eq_mod)
  then show ?case using Cons by (simp add: leToInt_def u8s_def)
qed (simp add: leToInt_def u8s_def)

lemma u8s_bytes_of: "u8s (bytes_of n x) = map (\<lambda>i. word_of_int (x div 256 ^ i)) [0..<n]"
  by (simp add: u8s_def bytes_of_def word_of_int_eq_iff take_bit_eq_mod)

lemma intToLE32_u8s: "v < 2 ^ 256 \<Longrightarrow> intToLE32 v = Some (u8s (bytes_of 32 v))"
  by (simp add: intToLE32_def u8s_bytes_of)

lemma u8s_le_val: "bytes_ok bs \<Longrightarrow> length bs = 32 \<Longrightarrow> intToLE32 (le_val bs) = Some (u8s bs)"
  using intToLE32_u8s [of "le_val bs"] le_val_bounds [of bs] bytes_of_le_val [of bs] by simp

lemma u8s_Cons [simp]: "u8s (b # bs) = word_of_int b # u8s bs" "u8s [] = []"
  by (simp_all add: u8s_def)

lemma u8s_constBytes [simp]: "u8s (constBytes bs) = bs" "bytes_ok (constBytes bs)" "length (constBytes bs) = length bs"
proof -
  have "byte_ok (uint (x :: u8))" for x using uint_lt2p [of x] by (simp add: byte_ok_def)
  then show "u8s (constBytes bs) = bs" "bytes_ok (constBytes bs)" "length (constBytes bs) = length bs"
    by (simp_all add: constBytes_def u8s_def bytes_ok_iff comp_def)
qed

lemma le32_u8s: "u8s (bytes_of 4 (uint idx)) = le32 idx"
proof -
  have b: "(word_of_int (uint idx div 2 ^ k) :: u8) = ucast (drop_bit k idx)" for k
    by (rule bit_word_eqI) (auto simp: bit_simps drop_bit_eq_div [symmetric] dest: bit_imp_le_length)
  show ?thesis using b [of 0] b [of 8] b [of 16] b [of 24] by (simp add: u8s_bytes_of le32_def upt_rec)
qed

section \<open>One step\<close>

definition circ_ok :: "CircExt \<Rightarrow> bool" where
  "circ_ok p \<longleftrightarrow> bytes_ok (c_KL p) \<and> length (c_KL p) = 32 \<and> bytes_ok (c_KR p) \<and> length (c_KR p) = 32 \<and>
     bytes_ok (c_CC p) \<and> length (c_CC p) = 32"

lemma circ_KL: "circ_ok p \<Longrightarrow> bytes_ok (c_KL p)" "circ_ok p \<Longrightarrow> length (c_KL p) = 32"
  by (simp_all add: circ_ok_def)

definition ext_of :: "CircExt \<Rightarrow> Ext" where
  "ext_of p = \<lparr>KL = u8s (c_KL p), KR = u8s (c_KR p), CC = u8s (c_CC p)\<rparr>"

definition chain_z :: "CircExt \<Rightarrow> U8 list \<Rightarrow> bytes" where
  "chain_z p msg = hmac_sha512 (u8s (c_CC p)) (u8s msg)"

lemma hash_parts:
  assumes "hashes Z d"
  shows "bytes_ok (take 28 Z)" "length (take 28 Z) = 28" "bytes_ok (drop 32 Z)" "length (drop 32 Z) = 32"
    "le_val (take 28 Z) = leToInt (take 28 d)" "le_val (drop 32 Z) = leToInt (drop 32 d)" "u8s (drop 32 Z) = drop 32 d"
proof -
  have h: "bytes_ok Z" "length Z = 64" "u8s Z = d" using assms by (simp_all add: hashes_def)
  then show b: "bytes_ok (take 28 Z)" "length (take 28 Z) = 28" "bytes_ok (drop 32 Z)" "length (drop 32 Z) = 32" by auto
  show "le_val (take 28 Z) = leToInt (take 28 d)" "le_val (drop 32 Z) = leToInt (drop 32 d)" "u8s (drop 32 Z) = drop 32 d"
    using leToInt_u8s [OF b(1)] leToInt_u8s [OF b(3)] h(3) by simp_all
qed

lemma finishStepBytes_sound:
  assumes "gnark_doc G" and "circ_ok p" and "bytes_ok msg" and "bytes_ok ccm" and "finishStepBytes G adv p msg ccm = Some c"
  shows "circ_ok c \<and> le_val (c_KL c) = le_val (c_KL p) + 8 * leToInt (take 28 (chain_z p msg)) \<and>
    le_val (c_KR c) = (le_val (c_KR p) + leToInt (drop 32 (chain_z p msg))) mod 2 ^ 256 \<and>
    u8s (c_CC c) = drop 32 (chain_z p ccm)"
proof -
  obtain Z C kL kR where h: "HMACSHA512Pair G (at adv [0]) (c_CC p) msg ccm = Some (Z, C)"
      "AddKL G (at adv [1]) (c_KL p) (take 28 Z) = Some kL" "AddKR G (at adv [2]) (c_KR p) (drop 32 Z) = Some kR"
      "c = \<lparr>c_KL = kL, c_KR = kR, c_CC = drop 32 C, c_bits = []\<rparr>"
    using assms(5) by (auto simp: finishStepBytes_def bind_eq_Some_conv)
  have z: "hashes Z (chain_z p msg)" "hashes C (chain_z p ccm)"
    using HMACSHA512Pair_ok(1) [OF assms(1) _ assms(3,4) h(1)] assms(2) by (simp_all add: circ_ok_def chain_z_def)
  show ?thesis
    using AddKL_sound [OF assms(1) _ _ hash_parts(1,2) [OF z(1)] h(2)] AddKR_sound [OF assms(1) _ _ hash_parts(3,4) [OF z(1)] h(3)]
      assms(2) hash_parts [OF z(1)] hash_parts [OF z(2)] by (simp add: h(4) circ_ok_def)
qed

lemma leToInt_bounds: "0 \<le> leToInt b \<and> leToInt b < 256 ^ length b"
proof -
  have "u8s (constBytes b) = b" "bytes_ok (constBytes b)" "length (constBytes b) = length b" by simp_all
  then show ?thesis using leToInt_u8s [of "constBytes b"] le_val_bounds [of "constBytes b"] by metis
qed

lemma tweak_bound: "0 \<le> 8 * leToInt (take 28 z) \<and> 8 * leToInt (take 28 z) < 2 ^ 227"
proof -
  have "(256 :: int) ^ length (take 28 z) \<le> 256 ^ 28" by (intro power_increasing) simp_all
  moreover have "8 * (256 :: int) ^ 28 = 2 ^ 227" by simp
  ultimately show ?thesis using leToInt_bounds [of "take 28 z"] by linarith
qed

text \<open>The child of the circuit is the child of the reference.\<close>

lemma derive_child_circ:
  assumes "gnark_doc G" and "circ_ok p" and "circ_ok c" and "le_val (c_KL c) < 2 ^ 255"
    and data: "if hardened then data = u8s (c_KL p @ c_KR p) else pub (u8s (c_KL p)) = Some data"
    and msg: "u8s msg = [if hardened then 0 else 2] @ data @ le32 idx"
    and ccm: "u8s ccm = [if hardened then 1 else 3] @ data @ le32 idx"
    and step: "le_val (c_KL c) = le_val (c_KL p) + 8 * leToInt (take 28 (chain_z p msg))"
      "le_val (c_KR c) = (le_val (c_KR p) + leToInt (drop 32 (chain_z p msg))) mod 2 ^ 256"
      "u8s (c_CC c) = drop 32 (chain_z p ccm)"
  shows "derive_child pub (ext_of p) idx hardened = Some (ext_of c)"
proof -
  have p: "leToInt (u8s (c_KL p)) = le_val (c_KL p)" "leToInt (u8s (c_KR p)) = le_val (c_KR p)"
    using assms(2) leToInt_u8s by (simp_all add: circ_ok_def)
  have c: "intToLE32 (le_val (c_KL c)) = Some (u8s (c_KL c))" "intToLE32 (le_val (c_KR c)) = Some (u8s (c_KR c))"
    using assms(3) u8s_le_val by (simp_all add: circ_ok_def)
  have z: "hmac_sha512 (u8s (c_CC p)) ([if hardened then 0 else 2] @ data @ le32 idx) = chain_z p msg"
      "hmac_sha512 (u8s (c_CC p)) ([if hardened then 1 else 3] @ data @ le32 idx) = chain_z p ccm"
    by (simp_all add: chain_z_def msg ccm)
  have d: "(if hardened then Some (u8s (c_KL p) @ u8s (c_KR p)) else pub (u8s (c_KL p))) = Some data"
    using data by (auto split: if_splits)
  show ?thesis
  proof (cases hardened)
    case True
    then show ?thesis using z d step c p assms(4)
      by (simp add: derive_child_def ext_of_def Let_def)
  next
    case False
    then show ?thesis using z d step c p assms(4)
      by (simp add: derive_child_def ext_of_def Let_def)
  qed
qed

lemma derive_child_leaf:
  assumes "circ_ok p" and "bytes_ok kL" "length kL = 32" and "le_val kL < 2 ^ 255"
    and pub: "pub (u8s (c_KL p)) = Some data" and msg: "u8s msg = [2] @ data @ le32 idx"
    and step: "le_val kL = le_val (c_KL p) + 8 * leToInt (take 28 (chain_z p msg))"
  shows "\<exists>e. derive_child pub (ext_of p) idx False = Some e \<and> KL e = u8s kL"
proof -
  have p: "leToInt (u8s (c_KL p)) = le_val (c_KL p)"
    using assms(1) leToInt_u8s by (simp add: circ_ok_def)
  have c: "intToLE32 (le_val kL) = Some (u8s kL)" using assms(2,3) by (rule u8s_le_val)
  have r: "\<exists>kr. intToLE32 (x mod 2 ^ 256) = Some kr" for x by (auto simp: intToLE32_def)
  have z: "hmac_sha512 (u8s (c_CC p)) ([2] @ data @ le32 idx) = chain_z p msg" by (simp add: chain_z_def msg)
  obtain kr where kr: "intToLE32 ((leToInt (u8s (c_KR p)) + leToInt (drop 32 (chain_z p msg))) mod 2 ^ 256) = Some kr"
    using r by blast
  show ?thesis using z step c p assms(4) pub kr
    by (simp add: derive_child_def ext_of_def Let_def)
qed

section \<open>The steps\<close>

text \<open>
  What a derivation needs of the curve: on a bit vector of its domain, a key it returns is 32
  bytes, and is the key of that left half.
\<close>

locale curve_key =
  fixes crv :: curve and pub :: "bytes \<Rightarrow> bytes option"
  assumes key: "0 \<le> s \<Longrightarrow> s < 2 ^ 255 \<Longrightarrow> crv (bits_of 256 s) = Some A \<Longrightarrow>
    bytes_ok A \<and> length A = 32 \<and> (\<forall>kL. length kL = 32 \<longrightarrow> leToInt kL = s \<longrightarrow> pub kL = Some (u8s A))"
begin

lemma soft_key:
  assumes "circ_ok p" and "c_bits p = bits_of 256 (le_val (c_KL p))" and "le_val (c_KL p) < 2 ^ 255"
    and "softParentKey crv p = Some A"
  shows "bytes_ok A \<and> pub (u8s (c_KL p)) = Some (u8s A)"
  using key [of "le_val (c_KL p)" A] assms le_val_bounds [of "c_KL p"] leToInt_u8s [of "c_KL p"]
  by (simp add: circ_ok_def softParentKey_def)

lemma SoftStep_sound:
  assumes "gnark_doc G" and "circ_ok p" and "c_bits p = bits_of 256 (le_val (c_KL p))" "le_val (c_KL p) < 2 ^ 255"
    and "bytes_ok i" "u8s i = le32 idx" and "SoftStep G adv crv p i = Some c"
  shows "circ_ok c \<and> c_bits c = bits_of 256 (le_val (c_KL c)) \<and> le_val (c_KL c) < 2 ^ 255 \<and>
    derive_child pub (ext_of p) idx False = Some (ext_of c)"
proof -
  obtain A d bits where h: "softParentKey crv p = Some A"
      "finishStepBytes G adv p ([2] @ A @ i) ([3] @ A @ i) = Some d" "BytesToCanonBits G (c_KL d) = Some bits" "c = d\<lparr>c_bits := bits\<rparr>"
    using assms(7) by (auto simp: SoftStep_def finishStep_def bind_eq_Some_conv)
  have A: "bytes_ok A" "pub (u8s (c_KL p)) = Some (u8s A)" using soft_key [OF assms(2-4) h(1)] by blast+
  have m: "bytes_ok ([2] @ A @ i)" "bytes_ok ([3] @ A @ i)" using A(1) assms(5) by (simp_all add: byte_ok_def)
  note d = finishStepBytes_sound [OF assms(1,2) m h(2)]
  have b: "le_val (c_KL d) < 2 ^ 255" "bits = bits_of 256 (le_val (c_KL d))"
    using iffD1 [OF BytesToCanonBits_iff [OF assms(1) circ_KL [OF conjunct1 [OF d]]] h(3)] by blast+
  have "derive_child pub (ext_of p) idx False = Some (ext_of d)"
    by (rule derive_child_circ [OF assms(1,2) conjunct1 [OF d] b(1), where data = "u8s A" and msg = "[2] @ A @ i" and ccm = "[3] @ A @ i"])
      (use d A assms(6) in simp_all)
  then show ?thesis using d b by (simp add: h(4) circ_ok_def ext_of_def)
qed

lemma softStepLeaf_sound:
  assumes "gnark_doc G" and "circ_ok p" and "c_bits p = bits_of 256 (le_val (c_KL p))" "le_val (c_KL p) < 2 ^ 255"
    and "bytes_ok i" "u8s i = le32 idx" and "softStepLeaf G adv crv p i = Some l"
  shows "bytes_ok (l_KL l) \<and> length (l_KL l) = 32 \<and> le_val (l_KL l) < 2 ^ 255 \<and> l_bits l = bits_of 256 (le_val (l_KL l)) \<and>
    (\<exists>e. derive_child pub (ext_of p) idx False = Some e \<and> KL e = u8s (l_KL l))"
proof -
  obtain A Z kL bits where h: "softParentKey crv p = Some A" "HMACSHA512 G (at adv [0]) (c_CC p) ([2] @ A @ i) = Some Z"
      "AddKL G (at adv [1]) (c_KL p) (take 28 Z) = Some kL" "BytesToCanonBits G kL = Some bits" "l = \<lparr>l_KL = kL, l_bits = bits\<rparr>"
    using assms(7) by (auto simp: softStepLeaf_def finishStepLeaf_def bind_eq_Some_conv)
  have A: "bytes_ok A" "pub (u8s (c_KL p)) = Some (u8s A)" using soft_key [OF assms(2-4) h(1)] by blast+
  have m: "bytes_ok ([2] @ A @ i)" using A(1) assms(5) by (simp add: byte_ok_def)
  have z: "hashes Z (chain_z p ([2] @ A @ i))"
    using HMACSHA512_ok(1) [OF assms(1) _ m h(2)] assms(2) by (simp add: circ_ok_def chain_z_def)
  have k: "bytes_ok kL" "length kL = 32" "le_val kL = le_val (c_KL p) + 8 * leToInt (take 28 (chain_z p ([2] @ A @ i)))"
    using AddKL_sound [OF assms(1) _ _ hash_parts(1,2) [OF z] h(3)] assms(2) hash_parts(5) [OF z] by (simp_all add: circ_ok_def)
  have b: "le_val kL < 2 ^ 255" "bits = bits_of 256 (le_val kL)"
    using iffD1 [OF BytesToCanonBits_iff [OF assms(1) k(1,2)] h(4)] by blast+
  have "\<exists>e. derive_child pub (ext_of p) idx False = Some e \<and> KL e = u8s kL"
    by (rule derive_child_leaf [where pub = pub, OF assms(2) k(1,2) b(1) A(2) _ k(3)]) (simp add: assms(6))
  then show ?thesis using k b by (simp add: h(5))
qed

end

lemma hardened_sound:
  assumes "gnark_doc G" and "circ_ok p" and "bytes_ok i" "u8s i = le32 idx" and "hardenedStepBytes G adv p i = Some c"
  shows "circ_ok c \<and> le_val (c_KL p) \<le> le_val (c_KL c) \<and> le_val (c_KL c) < le_val (c_KL p) + 2 ^ 227 \<and>
    (le_val (c_KL c) < 2 ^ 255 \<longrightarrow> derive_child pub (ext_of p) idx True = Some (ext_of c))"
proof -
  let ?m = "[0] @ c_KL p @ c_KR p @ i" and ?c = "[1] @ c_KL p @ c_KR p @ i"
  have m: "bytes_ok ?m" "bytes_ok ?c" using assms(2,3) by (simp_all add: byte_ok_def circ_ok_def)
  note d = finishStepBytes_sound [OF assms(1,2) m assms(5) [unfolded hardenedStepBytes_def]]
  have "derive_child pub (ext_of p) idx True = Some (ext_of c)" if "le_val (c_KL c) < 2 ^ 255"
    by (rule derive_child_circ [OF assms(1,2) conjunct1 [OF d] that, where data = "u8s (c_KL p @ c_KR p)" and msg = ?m and ccm = ?c])
      (use d assms(4) in simp_all)
  then show ?thesis using d tweak_bound [of "chain_z p ?m"] by auto
qed

lemma HardenedStep_sound:
  assumes "gnark_doc G" and "circ_ok p" and "bytes_ok i" "u8s i = le32 idx" and "HardenedStep G adv p i = Some c"
  shows "circ_ok c \<and> c_bits c = bits_of 256 (le_val (c_KL c)) \<and> le_val (c_KL c) < 2 ^ 255 \<and>
    derive_child pub (ext_of p) idx True = Some (ext_of c)"
proof -
  obtain d bits where h: "hardenedStepBytes G adv p i = Some d" "BytesToCanonBits G (c_KL d) = Some bits" "c = d\<lparr>c_bits := bits\<rparr>"
    using assms(5) by (auto simp: HardenedStep_def hardenedStepBytes_def finishStep_def bind_eq_Some_conv)
  note d = hardened_sound [OF assms(1-4) h(1), where pub = pub]
  have "le_val (c_KL d) < 2 ^ 255" "bits = bits_of 256 (le_val (c_KL d))"
    using iffD1 [OF BytesToCanonBits_iff [OF assms(1) circ_KL [OF conjunct1 [OF d]]] h(2)] by blast+
  then show ?thesis using d by (simp add: h(3) circ_ok_def ext_of_def)
qed

section \<open>The chain\<close>

lemma le32Var_bytes:
  assumes "gnark_doc G" and "fe G idx" and "le32Var G idx hardened = Some i"
  shows "idx < 2 ^ 31 \<and> 0 \<le> idx \<and> bytes_ok i \<and> u8s i = le32 ((if hardened then 0x80000000 else 0) OR word_of_int idx)"
proof -
  have i: "idx < 2 ^ 31" "0 \<le> idx" "i = bytes_of 4 (idx + (if hardened then 2 ^ 31 else 0))"
    using iffD1 [OF le32Var_sound [OF assms(1,2)] assms(3)] assms(2) by (simp_all add: fe_def)
  have "uint ((if hardened then 0x80000000 else 0) OR word_of_int idx :: u32) = idx + (if hardened then 2 ^ 31 else 0)"
  proof -
    have u: "uint (word_of_int idx :: u32) = idx" using i(1,2) by (simp add: uint_word_of_int take_bit_eq_mod)
    have "(0x80000000 :: u32) + word_of_int idx = 0x80000000 OR word_of_int idx"
    proof (rule disjunctive_add)
      fix n
      have "bit (0x80000000 :: u32) n \<Longrightarrow> n = 31" using bit_exp_iff [of 31 n, where ?'a = u32] by simp
      moreover have "\<not> bit idx 31" using i(1,2) by (simp add: bit_iff_odd div_pos_pos_trivial)
      ultimately show "\<not> bit (0x80000000 :: u32) n \<or> \<not> bit (word_of_int idx :: u32) n" by (auto simp: bit_simps)
    qed
    moreover have "uint ((0x80000000 :: u32) + word_of_int idx) = 0x80000000 + idx"
      using i(1,2) u by (simp add: uint_word_ariths)
    ultimately show ?thesis using u by simp
  qed
  then show ?thesis using i bytes_of_ok le32_u8s by metis
qed

lemma role_values:
  assumes "gnark_doc G" and "fe G role" and "role < 2 ^ 31"
  shows "g_eq G (g_mul G (g_mul G role (g_sub G role 1)) (g_sub G role 2)) 0 \<longleftrightarrow> role \<in> {0, 1, 2}"
proof -
  have r: "0 \<le> role" using assms(2) by (simp add: fe_def)
  have c: "fe G 0" "fe G 1" "fe G 2" by (auto intro!: fe_small [OF assms(1)])
  have f: "fe G (g_sub G role 1)" "fe G (g_sub G role 2)" "fe G (g_mul G role (g_sub G role 1))"
    using assms(2) c by (auto intro!: fe_mul fe_sub assms(1))
  let ?m = "g_mul G (g_mul G role (g_sub G role 1)) (g_sub G role 2)"
  have e: "g_eq G ?m 0 \<longleftrightarrow> ?m = 0" using doc_ops(4) [OF assms(1) fe_mul [OF assms(1) f(3,2)] c(1)] .
  consider "role \<in> {0, 1, 2}" | "2 < role" using r by fastforce
  then show ?thesis
  proof cases
    case 1
    have "?m = (role * (role - 1) * (role - 2)) mod g_p G"
      using doc_ops(2) [OF assms(1,2) c(2)] doc_ops(2) [OF assms(1,2) c(3)] doc_ops(3) [OF assms(1,2) f(1)]
        doc_ops(3) [OF assms(1) f(3,2)] by (simp add: mod_simps)
    then show ?thesis using 1 e by auto
  next
    case 2
    have s: "g_sub G role 1 = role - 1" "g_sub G role 2 = role - 2"
      using doc_ops(2) [OF assms(1,2) c(2)] doc_ops(2) [OF assms(1,2) c(3)] 2 assms(2) by (simp_all add: fe_def)
    have b: "role * (role - 1) \<le> 2 ^ 31 * 2 ^ 31" using 2 assms(3) by (intro mult_mono) simp_all
    have m1: "g_mul G role (role - 1) = role * (role - 1)"
      using f(1) b by (intro mul_small [OF assms(1,2)]) (simp_all add: s)
    have "role * (role - 1) * (role - 2) \<le> (2 ^ 31 * 2 ^ 31) * 2 ^ 31"
      using b 2 assms(3) by (intro mult_mono) simp_all
    then have "?m = role * (role - 1) * (role - 2)"
      using f(2,3) m1 by (simp only: s m1) (intro mul_small [OF assms(1)], simp_all)
    then have "?m \<noteq> 0" using 2 by simp
    then show ?thesis using e 2 by simp
  qed
qed

text \<open>The clamp on the canonical bits of the master.\<close>

lemma clamp_bits:
  assumes "gnark_doc G" and "bytes_ok b" and "length b = 32"
  shows "(\<exists>bits. BytesToCanonBits G b = Some bits \<and> AssertClampBits G bits = Some ()) \<longleftrightarrow> clamped (le_val b)"
  using AssertClamp_iff [OF assms] by (auto simp: AssertClamp_def bind_eq_Some_conv)

lemma derive_levels_five:
  assumes "length master96 = 96"
    and "derive_child pub \<lparr>KL = take 32 master96, KR = take 32 (drop 32 master96), CC = take 32 (drop 64 master96)\<rparr> (0x80000000 OR 1852) True = Some a"
    and "derive_child pub a (0x80000000 OR 1815) True = Some b" and "derive_child pub b (0x80000000 OR account) True = Some c"
    and "derive_child pub c role False = Some d" and "derive_child pub d index False = Some e"
  shows "derive_levels pub master96 account role index = Some [a, b, c, d, e]"
  using assms(2-) by (simp add: derive_levels_def ckd_path_def assms(1))

context curve_key
begin

lemma DeriveChain_sound:
  assumes "gnark_doc G" and "bytes_ok mKL" "length mKL = 32" "bytes_ok mKR" "length mKR = 32" "bytes_ok mCC" "length mCC = 32"
    and "fe G account" "fe G role" "fe G index" and "DeriveChain G adv crv mKL mKR mCC account role index = Some leaf"
  shows "clamped (le_val mKL) \<and> account < 2 ^ 31 \<and> role \<in> {0, 1, 2} \<and> index < 2 ^ 31 \<and>
    bytes_ok (l_KL leaf) \<and> length (l_KL leaf) = 32 \<and> l_bits leaf = bits_of 256 (le_val (l_KL leaf)) \<and> le_val (l_KL leaf) < 2 ^ 255 \<and>
    (\<exists>e. derive_ref pub (u8s (mKL @ mKR @ mCC)) (word_of_int account) (word_of_int role) (word_of_int index) = Some e \<and>
      KL e = u8s (l_KL leaf))"
proof -
  let ?c1 = "constBytes (le32 (1852 OR 0x80000000))" and ?c2 = "constBytes (le32 (1815 OR 0x80000000))"
  obtain mbits x1 x2 i3 x3 i4 i5 x4 where h: "BytesToCanonBits G mKL = Some mbits" "AssertClampBits G mbits = Some ()"
      "hardenedStepBytes G (at adv [1]) \<lparr>c_KL = mKL, c_KR = mKR, c_CC = mCC, c_bits = mbits\<rparr> ?c1 = Some x1"
      "hardenedStepBytes G (at adv [2]) x1 ?c2 = Some x2" "le32Var G account True = Some i3" "HardenedStep G (at adv [3]) x2 i3 = Some x3"
      "g_eq G (g_mul G (g_mul G role (g_sub G role 1)) (g_sub G role 2)) 0" "le32Var G role False = Some i4" "le32Var G index False = Some i5"
      "SoftStep G (at adv [4]) crv x3 i4 = Some x4" "softStepLeaf G (at adv [5]) crv x4 i5 = Some leaf"
    using assms(11) unfolding DeriveChain_def Let_def bind_eq_Some_conv must_Some
    by (elim exE conjE) (rule that, (assumption | simp)+)
  let ?m = "\<lparr>c_KL = mKL, c_KR = mKR, c_CC = mCC, c_bits = mbits\<rparr>"
  have m: "circ_ok ?m" using assms(2-7) by (simp add: circ_ok_def)
  have cl: "clamped (le_val mKL)" using clamp_bits [OF assms(1-3)] h(1,2) by blast
  have i: "bytes_ok ?c1" "u8s ?c1 = le32 (1852 OR 0x80000000)" "bytes_ok ?c2" "u8s ?c2 = le32 (1815 OR 0x80000000)" by simp_all
  note i3 = le32Var_bytes [OF assms(1,8) h(5)] and i4 = le32Var_bytes [OF assms(1,9) h(8)] and i5 = le32Var_bytes [OF assms(1,10) h(9)]
  note x1 = hardened_sound [OF assms(1) m i(1,2) h(3), where pub = pub]
  note x2 = hardened_sound [OF assms(1) conjunct1 [OF x1] i(3,4) h(4), where pub = pub]
  have i3': "bytes_ok i3" "u8s i3 = le32 (0x80000000 OR word_of_int account)" using i3 by simp_all
  have i4': "bytes_ok i4" "u8s i4 = le32 (word_of_int role)" using i4 by simp_all
  have i5': "bytes_ok i5" "u8s i5 = le32 (word_of_int index)" using i5 by simp_all
  note x3 = HardenedStep_sound [OF assms(1) conjunct1 [OF x2] i3' h(6), where pub = pub]
  have x4: "circ_ok x4 \<and> c_bits x4 = bits_of 256 (le_val (c_KL x4)) \<and> le_val (c_KL x4) < 2 ^ 255 \<and>
      derive_child pub (ext_of x3) (word_of_int role) False = Some (ext_of x4)"
    using SoftStep_sound [OF assms(1) _ _ _ i4' h(10)] x3 by blast
  have leaf: "bytes_ok (l_KL leaf) \<and> length (l_KL leaf) = 32 \<and> le_val (l_KL leaf) < 2 ^ 255 \<and> l_bits leaf = bits_of 256 (le_val (l_KL leaf)) \<and>
      (\<exists>e. derive_child pub (ext_of x4) (word_of_int index) False = Some e \<and> KL e = u8s (l_KL leaf))"
    using softStepLeaf_sound [OF assms(1) _ _ _ i5' h(11)] x4 by blast
  have "le_val mKL < 2 ^ 254 + 2 ^ 253" using cl by (simp add: clamped_def)
  then have b: "le_val (c_KL x1) < 2 ^ 255" "le_val (c_KL x2) < 2 ^ 255" using x1 x2 by simp_all
  have l: "length (u8s (mKL @ mKR @ mCC)) = 96" using assms(3,5,7) by simp
  obtain e where e: "derive_child pub (ext_of x4) (word_of_int index) False = Some e" "KL e = u8s (l_KL leaf)" using leaf by blast
  have "derive_levels pub (u8s (mKL @ mKR @ mCC)) (word_of_int account) (word_of_int role) (word_of_int index) =
      Some [ext_of x1, ext_of x2, ext_of x3, ext_of x4, e]"
    by (rule derive_levels_five [OF l]) (use x1 x2 x3 x4 e b assms(3,5,7) in \<open>simp_all add: ext_of_def or.commute\<close>)
  then have "derive_ref pub (u8s (mKL @ mKR @ mCC)) (word_of_int account) (word_of_int role) (word_of_int index) = Some e"
    by (simp add: derive_ref_def)
  then show ?thesis using cl i3 i4 i5 role_values [OF assms(1,9)] h(7) leaf e(2) by blast
qed

end

section \<open>Honest provers succeed\<close>

lemma finishStepBytes_some:
  assumes "gnark_doc G" and "honest adv" and "circ_ok p" and "bytes_ok msg" and "bytes_ok ccm" and "le_val (c_KL p) < 2 ^ 255"
  shows "\<exists>c. finishStepBytes G adv p msg ccm = Some c"
proof -
  have p: "bytes_ok (c_KL p)" "length (c_KL p) = 32" "bytes_ok (c_KR p)" "length (c_KR p) = 32" "bytes_ok (c_CC p)"
    using assms(3) by (simp_all add: circ_ok_def)
  obtain Z C where h: "HMACSHA512Pair G (at adv [0]) (c_CC p) msg ccm = Some (Z, C)"
    using HMACSHA512Pair_ok(2) [OF assms(1) p(5) assms(4,5) honest_at [OF assms(2)]] by fastforce
  have z: "hashes Z (chain_z p msg)" using HMACSHA512Pair_ok(1) [OF assms(1) p(5) assms(4,5) h] by (simp add: chain_z_def)
  have "le_val (c_KL p) + 8 * le_val (take 28 Z) < 2 ^ 256"
    using tweak_bound [of "chain_z p msg"] assms(6) hash_parts(5) [OF z] by simp
  then obtain kL where kL: "AddKL G (at adv [1]) (c_KL p) (take 28 Z) = Some kL"
    using AddKL_honest [OF assms(1) p(1,2) hash_parts(1,2) [OF z] honest_at [OF assms(2)]] by blast
  obtain kR where "AddKR G (at adv [2]) (c_KR p) (drop 32 Z) = Some kR"
    using AddKR_honest [OF assms(1) p(3,4) hash_parts(3,4) [OF z] honest_at [OF assms(2)]] by blast
  with h kL show ?thesis by (simp add: finishStepBytes_def)
qed

text \<open>A state below \<open>2 ^ 255\<close> by a margin has a child with bits.\<close>

lemma finishStep_some:
  assumes "gnark_doc G" and "honest adv" and "circ_ok p" and "bytes_ok msg" and "bytes_ok ccm"
    and "le_val (c_KL p) + 2 ^ 227 < 2 ^ 255"
  shows "\<exists>c. finishStep G adv p msg ccm = Some c \<and> circ_ok c \<and> c_bits c = bits_of 256 (le_val (c_KL c)) \<and>
    le_val (c_KL c) < le_val (c_KL p) + 2 ^ 227"
proof -
  obtain d where d: "finishStepBytes G adv p msg ccm = Some d"
    using finishStepBytes_some [OF assms(1-5)] assms(6) by auto
  note s = finishStepBytes_sound [OF assms(1,3-5) d]
  have b: "le_val (c_KL d) < le_val (c_KL p) + 2 ^ 227" using s tweak_bound [of "chain_z p msg"] by simp
  then have "le_val (c_KL d) < 2 ^ 255" using assms(6) by linarith
  then have "BytesToCanonBits G (c_KL d) = Some (bits_of 256 (le_val (c_KL d)))"
    using iffD2 [OF BytesToCanonBits_iff [OF assms(1) circ_KL [OF conjunct1 [OF s]]]] by blast
  then show ?thesis using d s b by (simp add: finishStep_def circ_ok_def)
qed

lemma le32Var_some:
  assumes "gnark_doc G" and "0 \<le> idx" "idx < 2 ^ 31"
  shows "\<exists>i. le32Var G idx h = Some i \<and> bytes_ok i"
proof -
  have "fe G idx" using assms(2,3) by (intro fe_small [OF assms(1)]) simp_all
  then show ?thesis using le32Var_sound [OF assms(1)] assms(3) bytes_of_ok by blast
qed

context curve_key
begin

lemma DeriveChain_complete:
  assumes "gnark_doc G" and "honest adv" and "\<And>s. 0 \<le> s \<Longrightarrow> s < 2 ^ 255 \<Longrightarrow> crv (bits_of 256 s) \<noteq> None"
    and "bytes_ok mKL" "length mKL = 32" "bytes_ok mKR" "length mKR = 32" "bytes_ok mCC" "length mCC = 32"
    and "clamped (le_val mKL)" and "0 \<le> account" "account < 2 ^ 31" "role \<in> {0, 1, 2}" "0 \<le> index" "index < 2 ^ 31"
  shows "\<exists>leaf. DeriveChain G adv crv mKL mKR mCC account role index = Some leaf"
proof -
  let ?c1 = "constBytes (le32 (1852 OR 0x80000000))" and ?c2 = "constBytes (le32 (1815 OR 0x80000000))"
  obtain mbits where mb: "BytesToCanonBits G mKL = Some mbits" "AssertClampBits G mbits = Some ()"
    using clamp_bits [OF assms(1,4,5)] assms(10) by blast
  let ?m = "\<lparr>c_KL = mKL, c_KR = mKR, c_CC = mCC, c_bits = mbits\<rparr>"
  have m: "circ_ok ?m" "le_val (c_KL ?m) < 2 ^ 254 + 2 ^ 253" using assms(4-10) by (simp_all add: circ_ok_def clamped_def)
  have step: "bytes_ok ([t] @ c_KL p @ c_KR p @ i)" if "circ_ok p" "bytes_ok i" "t \<in> {0, 1}" for p i t
    using that by (auto simp: circ_ok_def byte_ok_def)
  have hs: "\<exists>c. hardenedStepBytes G a p i = Some c"
    if "honest a" "circ_ok p" "le_val (c_KL p) < 2 ^ 255" "bytes_ok i" for a p i
    unfolding hardenedStepBytes_def
    by (rule finishStepBytes_some [OF assms(1) that(1,2) step [OF that(2,4)] step [OF that(2,4)] that(3)]) simp_all
  have i: "bytes_ok ?c1" "u8s ?c1 = le32 (1852 OR 0x80000000)" "bytes_ok ?c2" "u8s ?c2 = le32 (1815 OR 0x80000000)" by simp_all
  have m255: "le_val (c_KL ?m) < 2 ^ 255" using m(2) by simp
  obtain x1 where x1: "hardenedStepBytes G (at adv [1]) ?m ?c1 = Some x1"
    using hs [OF honest_at [OF assms(2)] m(1) m255 i(1)] by blast
  have k1: "circ_ok x1" "le_val (c_KL x1) < 2 ^ 254 + 2 ^ 253 + 2 ^ 227"
    using hardened_sound [OF assms(1) m(1) i(1,2) x1, where pub = pub] m(2) by simp_all
  have k1': "le_val (c_KL x1) < 2 ^ 255" using k1(2) by simp
  obtain x2 where x2: "hardenedStepBytes G (at adv [2]) x1 ?c2 = Some x2"
    using hs [OF honest_at [OF assms(2)] k1(1) k1' i(3)] by blast
  have k2: "circ_ok x2" "le_val (c_KL x2) < 2 ^ 254 + 2 ^ 253 + 2 * 2 ^ 227"
    using hardened_sound [OF assms(1) k1(1) i(3,4) x2, where pub = pub] k1(2) by simp_all
  have r: "0 \<le> role" "role < 2 ^ 31" using assms(13) by auto
  obtain i3 i4 i5 where idx: "le32Var G account True = Some i3" "bytes_ok i3" "le32Var G role False = Some i4" "bytes_ok i4"
      "le32Var G index False = Some i5" "bytes_ok i5"
    using le32Var_some [OF assms(1,11,12)] le32Var_some [OF assms(1) r] le32Var_some [OF assms(1,14,15)] by metis
  have k2': "le_val (c_KL x2) + 2 ^ 227 < 2 ^ 255" using k2(2) by simp
  obtain x3 where x3: "HardenedStep G (at adv [3]) x2 i3 = Some x3" "circ_ok x3" "c_bits x3 = bits_of 256 (le_val (c_KL x3))"
      "le_val (c_KL x3) < 2 ^ 254 + 2 ^ 253 + 3 * 2 ^ 227"
    using finishStep_some [OF assms(1) honest_at [OF assms(2)] k2(1) step [OF k2(1) idx(2), of 0] step [OF k2(1) idx(2), of 1] k2'] k2(2)
    unfolding HardenedStep_def by fastforce
  have soft: "\<exists>A. softParentKey crv p = Some A \<and> bytes_ok A"
    if sp: "circ_ok p" "c_bits p = bits_of 256 (le_val (c_KL p))" "le_val (c_KL p) < 2 ^ 255" for p
  proof -
    have "0 \<le> le_val (c_KL p)" using le_val_bounds [OF circ_KL(1) [OF sp(1)]] by simp
    then obtain A where "crv (bits_of 256 (le_val (c_KL p))) = Some A" using assms(3) \<open>le_val (c_KL p) < 2 ^ 255\<close> by blast
    then show ?thesis using soft_key [OF sp] by (simp add: softParentKey_def sp(2))
  qed
  have k3: "le_val (c_KL x3) < 2 ^ 255" "le_val (c_KL x3) + 2 ^ 227 < 2 ^ 255" using x3(4) by simp_all
  obtain A where A: "softParentKey crv x3 = Some A" "bytes_ok A" using soft [OF x3(2,3) k3(1)] by blast
  have mA: "bytes_ok ([2] @ A @ i4)" "bytes_ok ([3] @ A @ i4)" using A(2) idx(4) by (simp_all add: byte_ok_def)
  obtain x4 where x4: "SoftStep G (at adv [4]) crv x3 i4 = Some x4" "circ_ok x4" "c_bits x4 = bits_of 256 (le_val (c_KL x4))"
      "le_val (c_KL x4) < 2 ^ 254 + 2 ^ 253 + 4 * 2 ^ 227"
    using finishStep_some [OF assms(1) honest_at [OF assms(2)] x3(2) mA k3(2)] x3(4) A(1) unfolding SoftStep_def by fastforce
  have k4: "le_val (c_KL x4) < 2 ^ 255" "le_val (c_KL x4) + 2 ^ 227 < 2 ^ 255" using x4(4) by simp_all
  obtain B where B: "softParentKey crv x4 = Some B" "bytes_ok B" using soft [OF x4(2,3) k4(1)] by blast
  have mB: "bytes_ok ([2] @ B @ i5)" using B(2) idx(6) by (simp add: byte_ok_def)
  have "\<exists>l. finishStepLeaf G (at adv [5]) x4 ([2] @ B @ i5) = Some l"
  proof -
    have cc: "bytes_ok (c_CC x4)" using x4(2) by (simp add: circ_ok_def)
    obtain Z where Z: "HMACSHA512 G (at (at adv [5]) [0]) (c_CC x4) ([2] @ B @ i5) = Some Z"
      using HMACSHA512_ok(2) [OF assms(1) cc mB honest_at [OF honest_at [OF assms(2)]]] by blast
    have z: "hashes Z (chain_z x4 ([2] @ B @ i5))" using HMACSHA512_ok(1) [OF assms(1) cc mB Z] by (simp add: chain_z_def)
    have bnd: "le_val (c_KL x4) + 8 * le_val (take 28 Z) < 2 ^ 255"
      using tweak_bound [of "chain_z x4 ([2] @ B @ i5)"] k4(2) hash_parts(5) [OF z] by simp
    then obtain kL where kL: "AddKL G (at (at adv [5]) [1]) (c_KL x4) (take 28 Z) = Some kL"
      using AddKL_honest [OF assms(1) circ_KL [OF x4(2)] hash_parts(1,2) [OF z] honest_at [OF honest_at [OF assms(2)]]] by fastforce
    have k: "bytes_ok kL" "length kL = 32" "le_val kL < 2 ^ 255"
      using AddKL_sound [OF assms(1) circ_KL [OF x4(2)] hash_parts(1,2) [OF z] kL] bnd by simp_all
    then have "BytesToCanonBits G kL = Some (bits_of 256 (le_val kL))" using BytesToCanonBits_iff [OF assms(1) k(1,2)] by simp
    with Z kL show ?thesis by (simp add: finishStepLeaf_def)
  qed
  then obtain l where l: "softStepLeaf G (at adv [5]) crv x4 i5 = Some l" using B(1) by (auto simp: softStepLeaf_def)
  have "fe G role" using r by (intro fe_small [OF assms(1)]) simp_all
  then have "g_eq G (g_mul G (g_mul G role (g_sub G role 1)) (g_sub G role 2)) 0"
    using role_values [OF assms(1)] r(2) assms(13) by blast
  then show ?thesis using mb x1 x2 idx x3(1) x4(1) l by (simp add: DeriveChain_def)
qed

end

section \<open>The curve gadget is such a curve\<close>

definition key_of :: "curve \<Rightarrow> bytes \<Rightarrow> bytes option" where
  "key_of crv kL = map_option u8s (crv (bits_of 256 (leToInt kL)))"

lemma parent_key_curve:
  assumes "gnark_doc G" and "emul_doc E"
  shows "curve_key (parent_key G E) (key_of (parent_key G E))"
  by standard (use parent_key_ok [OF assms] in \<open>auto simp: key_of_def\<close>)

end
