(* ===== verification/Blake2b.thy ===== *)
theory Blake2b
  imports ShaGadget
begin

text \<open>
  \<^verbatim>\<open>internal/circuit/hash/blake2b.go\<close>: the BLAKE2b gadget, and BLAKE2b of RFC 7693 as its
  specification. For every advice an output is the specified digest, and the honest prover has
  one, for inputs of any length and digests of up to 64 bytes. \<open>runs h c Q\<close> states both halves
  at once: a result of \<open>c\<close> satisfies \<open>Q\<close>, and under \<open>h\<close> there is a result.
\<close>


section \<open>BLAKE2b of RFC 7693\<close>

definition blake_iv :: "u64 list" where
  "blake_iv =
   [0x6a09e667f3bcc908, 0xbb67ae8584caa73b, 0x3c6ef372fe94f82b, 0xa54ff53a5f1d36f1,
    0x510e527fade682d1, 0x9b05688c2b3e6c1f, 0x1f83d9abfb41bd6b, 0x5be0cd19137e2179]"

text \<open>The ten rows of RFC 7693; round \<open>i\<close> takes row \<open>i mod 10\<close>.\<close>

definition rfc_sigma :: "nat list list" where
  "rfc_sigma =
   [[0, 1, 2, 3, 4, 5, 6, 7, 8, 9, 10, 11, 12, 13, 14, 15],
    [14, 10, 4, 8, 9, 15, 13, 6, 1, 12, 0, 2, 11, 7, 5, 3],
    [11, 8, 12, 0, 5, 2, 15, 13, 10, 14, 3, 6, 7, 1, 9, 4],
    [7, 9, 3, 1, 13, 12, 11, 14, 2, 6, 5, 10, 4, 0, 15, 8],
    [9, 0, 5, 7, 2, 4, 10, 15, 14, 1, 11, 12, 6, 8, 3, 13],
    [2, 12, 6, 10, 0, 11, 8, 3, 4, 13, 7, 5, 15, 14, 1, 9],
    [12, 5, 1, 15, 14, 13, 4, 10, 0, 7, 6, 3, 9, 2, 8, 11],
    [13, 11, 7, 14, 12, 1, 3, 9, 5, 0, 15, 4, 8, 6, 2, 10],
    [6, 15, 14, 9, 11, 3, 0, 8, 12, 2, 13, 7, 1, 4, 10, 5],
    [10, 2, 8, 4, 7, 6, 1, 5, 15, 11, 9, 14, 3, 12, 13, 0]]"

definition rfc_mix :: "u64 list \<Rightarrow> nat \<Rightarrow> nat \<Rightarrow> nat \<Rightarrow> nat \<Rightarrow> u64 \<Rightarrow> u64 \<Rightarrow> u64 list" where
  "rfc_mix v a b c d x y =
     (let v = v[a := v ! a + v ! b + x];
          v = v[d := word_rotr 32 (v ! d XOR v ! a)];
          v = v[c := v ! c + v ! d];
          v = v[b := word_rotr 24 (v ! b XOR v ! c)];
          v = v[a := v ! a + v ! b + y];
          v = v[d := word_rotr 16 (v ! d XOR v ! a)];
          v = v[c := v ! c + v ! d]
      in v[b := word_rotr 63 (v ! b XOR v ! c)])"

definition mix_args :: "(nat \<times> nat \<times> nat \<times> nat) list" where
  "mix_args = [(0, 4, 8, 12), (1, 5, 9, 13), (2, 6, 10, 14), (3, 7, 11, 15),
     (0, 5, 10, 15), (1, 6, 11, 12), (2, 7, 8, 13), (3, 4, 9, 14)]"

definition rfc_round :: "u64 list \<Rightarrow> u64 list \<Rightarrow> nat \<Rightarrow> u64 list" where
  "rfc_round m v i =
     (let s = rfc_sigma ! (i mod 10) in
      foldl (\<lambda>v k. case mix_args ! k of (a, b, c, d) \<Rightarrow> rfc_mix v a b c d (m ! (s ! (2 * k))) (m ! (s ! (2 * k + 1)))) v [0..<8])"

definition rfc_compress :: "u64 list \<Rightarrow> u64 list \<Rightarrow> nat \<Rightarrow> bool \<Rightarrow> u64 list" where
  "rfc_compress h m t f =
     (let v = h @ blake_iv;
          v = v[12 := v ! 12 XOR of_nat t];
          v = v[13 := v ! 13 XOR of_nat (t div 2 ^ 64)];
          v = (if f then v[14 := NOT (v ! 14)] else v);
          v = foldl (rfc_round m) v [0..<12]
      in map (\<lambda>i. h ! i XOR v ! i XOR v ! (i + 8)) [0..<8])"

definition le_word :: "bytes \<Rightarrow> u64" where
  "le_word bs = foldr (\<lambda>b a. ucast b + 256 * a) bs 0"

definition le64 :: "u64 \<Rightarrow> bytes" where
  "le64 w = map (\<lambda>i. ucast (drop_bit (8 * i) w)) [0..<8]"

definition blake2b :: "nat \<Rightarrow> bytes \<Rightarrow> bytes" where
  "blake2b nn msg =
     (let ll = length msg;
          dd = max 1 ((ll + 127) div 128);
          d = map (map le_word \<circ> chunks 8) (chunks 128 (msg @ replicate (128 * dd - ll) 0));
          h = blake_iv[0 := blake_iv ! 0 XOR 0x01010000 XOR of_nat nn];
          h = foldl (\<lambda>h i. rfc_compress h (d ! i) ((i + 1) * 128) False) h [0..<dd - 1];
          h = rfc_compress h (d ! (dd - 1)) ll True
      in take nn (concat (map le64 h)))"

section \<open>The gadget\<close>

definition iv :: "u64 list" where
  "iv =
   [0x6a09e667f3bcc908, 0xbb67ae8584caa73b, 0x3c6ef372fe94f82b, 0xa54ff53a5f1d36f1,
    0x510e527fade682d1, 0x9b05688c2b3e6c1f, 0x1f83d9abfb41bd6b, 0x5be0cd19137e2179]"

definition sigma :: "nat list list" where
  "sigma =
   [[0, 1, 2, 3, 4, 5, 6, 7, 8, 9, 10, 11, 12, 13, 14, 15],
    [14, 10, 4, 8, 9, 15, 13, 6, 1, 12, 0, 2, 11, 7, 5, 3],
    [11, 8, 12, 0, 5, 2, 15, 13, 10, 14, 3, 6, 7, 1, 9, 4],
    [7, 9, 3, 1, 13, 12, 11, 14, 2, 6, 5, 10, 4, 0, 15, 8],
    [9, 0, 5, 7, 2, 4, 10, 15, 14, 1, 11, 12, 6, 8, 3, 13],
    [2, 12, 6, 10, 0, 11, 8, 3, 4, 13, 7, 5, 15, 14, 1, 9],
    [12, 5, 1, 15, 14, 13, 4, 10, 0, 7, 6, 3, 9, 2, 8, 11],
    [13, 11, 7, 14, 12, 1, 3, 9, 5, 0, 15, 4, 8, 6, 2, 10],
    [6, 15, 14, 9, 11, 3, 0, 8, 12, 2, 13, 7, 1, 4, 10, 5],
    [10, 2, 8, 4, 7, 6, 1, 5, 15, 11, 9, 14, 3, 12, 13, 0],
    [0, 1, 2, 3, 4, 5, 6, 7, 8, 9, 10, 11, 12, 13, 14, 15],
    [14, 10, 4, 8, 9, 15, 13, 6, 1, 12, 0, 2, 11, 7, 5, 3]]"

definition gRound ::
    "gnark \<Rightarrow> advice \<Rightarrow> U64 list \<Rightarrow> U64 list \<Rightarrow> nat \<Rightarrow> nat \<Rightarrow> nat \<Rightarrow> nat \<Rightarrow> nat \<Rightarrow> nat \<Rightarrow> U64 list option" where
  "gRound G adv v m mx my a b c d = do {
     x \<leftarrow> Add64 G (at adv [0]) 2 [v ! a, v ! b, m ! mx];
     let v = v[a := x];
     x \<leftarrow> RotBytes (g_xor G (v ! d) (v ! a)) 32;
     let v = v[d := x];
     x \<leftarrow> Add64 G (at adv [1]) 1 [v ! c, v ! d];
     let v = v[c := x];
     x \<leftarrow> RotBytes (g_xor G (v ! b) (v ! c)) 40;
     let v = v[b := x];
     x \<leftarrow> Add64 G (at adv [2]) 2 [v ! a, v ! b, m ! my];
     let v = v[a := x];
     x \<leftarrow> RotBytes (g_xor G (v ! d) (v ! a)) 48;
     let v = v[d := x];
     x \<leftarrow> Add64 G (at adv [3]) 1 [v ! c, v ! d];
     let v = v[c := x];
     x \<leftarrow> g_lrot G (g_xor G (v ! b) (v ! c)) 1;
     Some (v[b := x]) }"

definition blake_round :: "gnark \<Rightarrow> advice \<Rightarrow> U64 list \<Rightarrow> U64 list \<Rightarrow> nat \<Rightarrow> U64 list option" where
  "blake_round G adv m v r =
     (let s = sigma ! r in do {
        v \<leftarrow> gRound G (at adv [r, 0]) v m (s ! 0) (s ! 1) 0 4 8 12;
        v \<leftarrow> gRound G (at adv [r, 1]) v m (s ! 2) (s ! 3) 1 5 9 13;
        v \<leftarrow> gRound G (at adv [r, 2]) v m (s ! 4) (s ! 5) 2 6 10 14;
        v \<leftarrow> gRound G (at adv [r, 3]) v m (s ! 6) (s ! 7) 3 7 11 15;
        v \<leftarrow> gRound G (at adv [r, 4]) v m (s ! 8) (s ! 9) 0 5 10 15;
        v \<leftarrow> gRound G (at adv [r, 5]) v m (s ! 10) (s ! 11) 1 6 11 12;
        v \<leftarrow> gRound G (at adv [r, 6]) v m (s ! 12) (s ! 13) 2 7 8 13;
        gRound G (at adv [r, 7]) v m (s ! 14) (s ! 15) 3 4 9 14 })"

definition compress :: "gnark \<Rightarrow> advice \<Rightarrow> U64 list \<Rightarrow> U64 list \<Rightarrow> u64 \<Rightarrow> bool \<Rightarrow> U64 list option" where
  "compress G adv h m t final = do {
     let c = g_new_u64 G;
     let v = [h ! 0, h ! 1, h ! 2, h ! 3, h ! 4, h ! 5, h ! 6, h ! 7, c (iv ! 0), c (iv ! 1), c (iv ! 2), c (iv ! 3),
       g_xor G (c (iv ! 4)) (c t), c (iv ! 5),
       (if final then g_xor G (c (iv ! 6)) (c 0xffffffffffffffff) else c (iv ! 6)), c (iv ! 7)];
     v \<leftarrow> foldm (blake_round G adv m) v [0..<12];
     Some (map (\<lambda>i. g_xor G (g_xor G (h ! i) (v ! i)) (v ! (i + 8))) [0..<8]) }"

definition blake_words :: "gnark \<Rightarrow> U8 list \<Rightarrow> nat \<Rightarrow> U64 list" where
  "blake_words G input mIdx =
     (let base = mIdx * 128;
          block = map (\<lambda>i. if base + i < length input then input ! (base + i) else 0) [0..<128]
      in map (\<lambda>i. g_pack_lsb64 G (take 8 (drop (i * 8) block))) [0..<16])"

definition Blake2b :: "gnark \<Rightarrow> advice \<Rightarrow> U8 list \<Rightarrow> nat \<Rightarrow> U8 list option" where
  "Blake2b G adv input outLen = do {
     let h = g_xor G (g_new_u64 G (iv ! 0)) (g_new_u64 G (0x01010000 XOR of_nat outLen)) # map (g_new_u64 G) (tl iv);
     let inLen = length input;
     let n = (inLen + 127) div 128;
     let nBlocks = (if n = 0 then 1 else n);
     h \<leftarrow> foldm (\<lambda>h mIdx.
        let t = (if (mIdx + 1) * 128 > inLen then inLen else (mIdx + 1) * 128)
        in compress G (at adv [mIdx]) h (blake_words G input mIdx) (of_nat t) (mIdx = nBlocks - 1)) h [0..<nBlocks];
     let out = concat (map (g_unpack_lsb G) h);
     if outLen > length out then None else Some (take outLen out) }"

section \<open>Mixing\<close>

lemma sigma_rows: "i < 12 \<Longrightarrow> sigma ! i = rfc_sigma ! (i mod 10)"
proof -
  have "\<forall>i \<in> set [0..<12]. sigma ! i = rfc_sigma ! (i mod 10)" by (simp add: sigma_def rfc_sigma_def upt_rec)
  then show "i < 12 \<Longrightarrow> sigma ! i = rfc_sigma ! (i mod 10)" by simp
qed

lemma rfc_sigma_range: "i < 10 \<Longrightarrow> k < 16 \<Longrightarrow> rfc_sigma ! i ! k < 16"
proof -
  have "\<forall>s \<in> set rfc_sigma. length s = 16 \<and> (\<forall>x \<in> set s. x < 16)" "length rfc_sigma = 10"
    by (simp_all add: rfc_sigma_def)
  then show "i < 10 \<Longrightarrow> k < 16 \<Longrightarrow> rfc_sigma ! i ! k < 16" by (metis nth_mem)
qed

lemma word_ok_rot:
  assumes "word_ok w x" and "k \<in> {32, 40, 48}"
  shows "\<exists>r. RotBytes w k = Some r \<and> word_ok r (word_rotr (64 - nat k) x)"
  using RotBytes_rotr [of w k] assms by (auto simp: word_ok_def)

lemma word_ok_lrot1:
  assumes "gnark_doc G" and "word_ok w x"
  shows "\<exists>r. g_lrot G w 1 = Some r \<and> word_ok r (word_rotr 63 x)"
proof -
  have "word_rotl 1 x = word_rotr 63 x" by (rule bit_word_eqI) (simp add: bit_simps)
  then show ?thesis using doc_words(7) [OF assms(1), of w 1] assms(2) by (auto simp: word_ok_def)
qed

text \<open>Vectors of sixteen words.\<close>

definition vec_ok :: "U64 list \<Rightarrow> u64 list \<Rightarrow> bool" where
  "vec_ok v xs \<longleftrightarrow> length v = 16 \<and> list_all2 word_ok v xs"

lemma vec_ok_nth: "vec_ok v xs \<Longrightarrow> i < 16 \<Longrightarrow> word_ok (v ! i) (xs ! i)"
  by (simp add: vec_ok_def list_all2_nthD)

lemma vec_ok_update: "vec_ok v xs \<Longrightarrow> word_ok w x \<Longrightarrow> vec_ok (v[i := w]) (xs[i := x])"
  by (simp add: vec_ok_def list_all2_update_cong)

text \<open>
  A computation that may fail, with what holds of its result; under \<open>h\<close> it does not fail.
\<close>

definition runs :: "bool \<Rightarrow> 'a option \<Rightarrow> ('a \<Rightarrow> bool) \<Rightarrow> bool" where
  "runs h c Q \<longleftrightarrow> (\<forall>v. c = Some v \<longrightarrow> Q v) \<and> (h \<longrightarrow> c \<noteq> None)"

lemma runs_bind: "runs h c Q \<Longrightarrow> (\<And>v. Q v \<Longrightarrow> runs h (f v) R) \<Longrightarrow> runs h (c \<bind> f) R"
  by (cases c) (auto simp: runs_def)

lemma runs_Some: "Q v \<Longrightarrow> runs h (Some v) Q"
  by (simp add: runs_def)

lemma runs_weaken: "runs h c Q \<Longrightarrow> (\<And>v. Q v \<Longrightarrow> R v) \<Longrightarrow> runs h c R"
  by (auto simp: runs_def)

lemma runs_foldm_upt:
  assumes "\<And>i s t. m \<le> i \<Longrightarrow> i < n \<Longrightarrow> R s t \<Longrightarrow> runs h (f s i) (\<lambda>s'. R s' (g t i))" and "R s t" and "m \<le> n"
  shows "runs h (foldm f s [m..<n]) (\<lambda>s'. R s' (foldl g t [m..<n]))"
  using assms(3,1)
proof (induction n rule: dec_induct)
  case base
  then show ?case using assms(2) by (simp add: runs_Some)
next
  case (step k)
  have "runs h (foldm f s [m..<k]) (\<lambda>s'. R s' (foldl g t [m..<k]))"
    by (rule step.IH) (use step.prems step.hyps in simp_all)
  then have "runs h (foldm f s [m..<k] \<bind> (\<lambda>s'. f s' k)) (\<lambda>s'. R s' (g (foldl g t [m..<k]) k))"
    by (rule runs_bind) (use step.prems step.hyps in simp)
  then show ?case using step.hyps by (simp add: foldm_snoc)
qed

lemma runs_RotBytes:
  assumes "gnark_doc G" and "word_ok v x" and "word_ok w y" and "k \<in> {32, 40, 48}"
  shows "runs h (RotBytes (g_xor G v w) k) (\<lambda>r. word_ok r (word_rotr (64 - nat k) (x XOR y)))"
  using word_ok_rot [OF word_ok_ops(1) [OF assms(1-3)] assms(4)] by (auto simp: runs_def)

lemma runs_lrot1:
  assumes "gnark_doc G" and "word_ok v x" and "word_ok w y"
  shows "runs h (g_lrot G (g_xor G v w) 1) (\<lambda>r. word_ok r (word_rotr 63 (x XOR y)))"
  using word_ok_lrot1 [OF assms(1) word_ok_ops(1) [OF assms(1-3)]] by (auto simp: runs_def)

text \<open>One assignment of the mixing function: the new vector and its specification.\<close>

definition upd :: "U64 list \<Rightarrow> nat \<Rightarrow> U64 option \<Rightarrow> U64 list option" where
  "upd v i r = r \<bind> (\<lambda>x. Some (v[i := x]))"

lemma upd_bind: "upd v i r \<bind> f = r \<bind> (\<lambda>x. f (v[i := x]))"
  by (cases r) (simp_all add: upd_def)

lemma gRound_steps:
  "gRound G adv v m mx my a b c d = do {
     v \<leftarrow> upd v a (Add64 G (at adv [0]) 2 [v ! a, v ! b, m ! mx]);
     v \<leftarrow> upd v d (RotBytes (g_xor G (v ! d) (v ! a)) 32);
     v \<leftarrow> upd v c (Add64 G (at adv [1]) 1 [v ! c, v ! d]);
     v \<leftarrow> upd v b (RotBytes (g_xor G (v ! b) (v ! c)) 40);
     v \<leftarrow> upd v a (Add64 G (at adv [2]) 2 [v ! a, v ! b, m ! my]);
     v \<leftarrow> upd v d (RotBytes (g_xor G (v ! d) (v ! a)) 48);
     v \<leftarrow> upd v c (Add64 G (at adv [3]) 1 [v ! c, v ! d]);
     upd v b (g_lrot G (g_xor G (v ! b) (v ! c)) 1) }"
  by (simp only: gRound_def upd_bind Let_def) (simp only: upd_def)

lemma runs_upd:
  assumes "vec_ok v x" and "runs h r (\<lambda>w. word_ok w y)"
    and "\<And>v' x'. x' = x[i := y] \<Longrightarrow> vec_ok v' x' \<Longrightarrow> runs h (f v') Q"
  shows "runs h (upd v i r \<bind> f) Q"
  unfolding upd_bind by (rule runs_bind [OF assms(2)]) (rule assms(3) [OF refl vec_ok_update [OF assms(1)]])

lemma rfc_mix_steps:
  assumes "x1 = xs[a := xs ! a + xs ! b + x]" and "x2 = x1[d := word_rotr 32 (x1 ! d XOR x1 ! a)]"
    and "x3 = x2[c := x2 ! c + x2 ! d]" and "x4 = x3[b := word_rotr 24 (x3 ! b XOR x3 ! c)]"
    and "x5 = x4[a := x4 ! a + x4 ! b + y]" and "x6 = x5[d := word_rotr 16 (x5 ! d XOR x5 ! a)]"
    and "x7 = x6[c := x6 ! c + x6 ! d]"
  shows "rfc_mix xs a b c d x y = x7[b := word_rotr 63 (x7 ! b XOR x7 ! c)]"
  unfolding rfc_mix_def assms(1) [symmetric] Let_def
  by (simp only: assms(2) [symmetric] assms(3) [symmetric] assms(4) [symmetric] assms(5) [symmetric] assms(6) [symmetric] assms(7) [symmetric])

lemma gRound_ok:
  assumes "gnark_doc G" and "h \<longrightarrow> honest adv" and "vec_ok v xs" and "vec_ok m ms" and "mx < 16" "my < 16" "a < 16" "b < 16" "c < 16" "d < 16"
  shows "runs h (gRound G adv v m mx my a b c d) (\<lambda>v'. vec_ok v' (rfc_mix xs a b c d (ms ! mx) (ms ! my)))"
proof -
  note n = vec_ok_nth
  have add3: "runs h (Add64 G (at adv p) 2 [v ! a, v ! b, m ! k]) (\<lambda>x. word_ok x (xs ! a + xs ! b + ms ! k))"
    if "vec_ok v xs" "k < 16" for v xs p k
  proof -
    have l: "list_all2 word_ok [v ! a, v ! b, m ! k] [xs ! a, xs ! b, ms ! k]" using that n assms by simp
    then show ?thesis
      using Add64_word [OF assms(1) l, of 2 "at adv p"] Add64_some [OF assms(1) _ l, of "at adv p" 2] assms(2)
      by (auto simp: runs_def ac_simps)
  qed
  have add2: "runs h (Add64 G (at adv p) 1 [v ! c, v ! d]) (\<lambda>x. word_ok x (xs ! c + xs ! d))" if "vec_ok v xs" for v xs p
  proof -
    have l: "list_all2 word_ok [v ! c, v ! d] [xs ! c, xs ! d]" using that n assms by simp
    then show ?thesis
      using Add64_word [OF assms(1) l, of 1 "at adv p"] Add64_some [OF assms(1) _ l, of "at adv p" 1] assms(2)
      by (auto simp: runs_def)
  qed
  have rot: "runs h (RotBytes (g_xor G (v ! i) (v ! j)) k) (\<lambda>r. word_ok r (word_rotr (64 - nat k) (xs ! i XOR xs ! j)))"
    if "vec_ok v xs" "i < 16" "j < 16" "k \<in> {32, 40, 48}" for v xs i j k
    by (rule runs_RotBytes [OF assms(1) n [OF that(1,2)] n [OF that(1,3)] that(4)])
  have rot': "runs h (RotBytes (g_xor G (v ! i) (v ! j)) 32) (\<lambda>r. word_ok r (word_rotr 32 (xs ! i XOR xs ! j)))"
    "runs h (RotBytes (g_xor G (v ! i) (v ! j)) 40) (\<lambda>r. word_ok r (word_rotr 24 (xs ! i XOR xs ! j)))"
    "runs h (RotBytes (g_xor G (v ! i) (v ! j)) 48) (\<lambda>r. word_ok r (word_rotr 16 (xs ! i XOR xs ! j)))"
    if "vec_ok v xs" "i < 16" "j < 16" for v xs i j
    using rot [OF that, of 32] rot [OF that, of 40] rot [OF that, of 48] by simp_all
  show ?thesis
    unfolding gRound_steps
    apply (rule runs_upd [OF assms(3) add3 [OF assms(3,5)]])
    subgoal for v1 x1
      apply (rule runs_upd, assumption, rule rot'(1), assumption, rule assms, rule assms)
      subgoal for v2 x2
        apply (rule runs_upd, assumption, rule add2, assumption)
        subgoal for v3 x3
          apply (rule runs_upd, assumption, rule rot'(2), assumption, rule assms, rule assms)
          subgoal for v4 x4
            apply (rule runs_upd, assumption, rule add3, assumption, rule assms)
            subgoal for v5 x5
              apply (rule runs_upd, assumption, rule rot'(3), assumption, rule assms, rule assms)
              subgoal for v6 x6
                apply (rule runs_upd, assumption, rule add2, assumption)
                subgoal for v7 x7
                  unfolding upd_def
                  apply (rule runs_bind [OF runs_lrot1 [OF assms(1) n n]], assumption, rule assms, assumption, rule assms)
                  apply (rule runs_Some)
                  apply (simp only: rfc_mix_steps vec_ok_update)
                  done
                done
              done
            done
          done
        done
      done
    done
qed

section \<open>Rounds and compression\<close>

lemma rfc_round_steps:
  assumes "s = rfc_sigma ! (i mod 10)"
    and "x1 = rfc_mix x 0 4 8 12 (m ! (s ! 0)) (m ! (s ! 1))" and "x2 = rfc_mix x1 1 5 9 13 (m ! (s ! 2)) (m ! (s ! 3))"
    and "x3 = rfc_mix x2 2 6 10 14 (m ! (s ! 4)) (m ! (s ! 5))" and "x4 = rfc_mix x3 3 7 11 15 (m ! (s ! 6)) (m ! (s ! 7))"
    and "x5 = rfc_mix x4 0 5 10 15 (m ! (s ! 8)) (m ! (s ! 9))" and "x6 = rfc_mix x5 1 6 11 12 (m ! (s ! 10)) (m ! (s ! 11))"
    and "x7 = rfc_mix x6 2 7 8 13 (m ! (s ! 12)) (m ! (s ! 13))"
  shows "rfc_round m x i = rfc_mix x7 3 4 9 14 (m ! (s ! 14)) (m ! (s ! 15))"
proof -
  have "rfc_round m x i = rfc_mix (rfc_mix (rfc_mix (rfc_mix (rfc_mix (rfc_mix (rfc_mix (rfc_mix x
      0 4 8 12 (m ! (s ! 0)) (m ! (s ! 1))) 1 5 9 13 (m ! (s ! 2)) (m ! (s ! 3))) 2 6 10 14 (m ! (s ! 4)) (m ! (s ! 5)))
      3 7 11 15 (m ! (s ! 6)) (m ! (s ! 7))) 0 5 10 15 (m ! (s ! 8)) (m ! (s ! 9))) 1 6 11 12 (m ! (s ! 10)) (m ! (s ! 11)))
      2 7 8 13 (m ! (s ! 12)) (m ! (s ! 13))) 3 4 9 14 (m ! (s ! 14)) (m ! (s ! 15))"
    unfolding rfc_round_def assms(1) [symmetric] Let_def by (simp add: upt_8 mix_args_def del: One_nat_def)
  then show ?thesis by (simp only: assms(2) [symmetric] assms(3) [symmetric] assms(4) [symmetric] assms(5) [symmetric] assms(6) [symmetric] assms(7) [symmetric] assms(8) [symmetric])
qed

lemma blake_round_ok:
  assumes "gnark_doc G" and "h \<longrightarrow> honest adv" and "vec_ok v xs" and "vec_ok m ms" and "r < 12"
  shows "runs h (blake_round G adv m v r) (\<lambda>v'. vec_ok v' (rfc_round ms xs r))"
proof -
  let ?s = "rfc_sigma ! (r mod 10)"
  have sg: "sigma ! r = ?s" by (rule sigma_rows [OF assms(5)])
  have k: "?s ! k < 16" if "k < 16" for k using rfc_sigma_range [OF _ that] by simp
  have g: "runs h (gRound G (at adv p) v m (?s ! i) (?s ! j) a b c d) (\<lambda>v'. \<exists>x'. x' = rfc_mix x a b c d (ms ! (?s ! i)) (ms ! (?s ! j)) \<and> vec_ok v' x')"
    if "vec_ok v x" "i < 16" "j < 16" "a < 16" "b < 16" "c < 16" "d < 16" for v x p i j a b c d
    using gRound_ok [OF assms(1) _ that(1) assms(4) k [OF that(2)] k [OF that(3)] that(4-7), of h "at adv p"] assms(2) by simp
  have "runs h (do {
        v \<leftarrow> gRound G (at adv [r, 0]) v m (?s ! 0) (?s ! 1) 0 4 8 12;
        v \<leftarrow> gRound G (at adv [r, 1]) v m (?s ! 2) (?s ! 3) 1 5 9 13;
        v \<leftarrow> gRound G (at adv [r, 2]) v m (?s ! 4) (?s ! 5) 2 6 10 14;
        v \<leftarrow> gRound G (at adv [r, 3]) v m (?s ! 6) (?s ! 7) 3 7 11 15;
        v \<leftarrow> gRound G (at adv [r, 4]) v m (?s ! 8) (?s ! 9) 0 5 10 15;
        v \<leftarrow> gRound G (at adv [r, 5]) v m (?s ! 10) (?s ! 11) 1 6 11 12;
        v \<leftarrow> gRound G (at adv [r, 6]) v m (?s ! 12) (?s ! 13) 2 7 8 13;
        gRound G (at adv [r, 7]) v m (?s ! 14) (?s ! 15) 3 4 9 14 }) (\<lambda>v'. vec_ok v' (rfc_round ms xs r))"
    apply (rule runs_bind, rule g, (assumption | rule assms(3)), simp, simp, simp, simp, simp, simp, elim exE conjE)+
    apply (rule runs_weaken, rule g, assumption, simp, simp, simp, simp, simp, simp, elim exE conjE)
    apply (simp only: rfc_round_steps [OF refl])
    done
  then show ?thesis by (simp only: blake_round_def Let_def sg)
qed

lemma compress_ok:
  assumes "gnark_doc G" and "h' \<longrightarrow> honest adv" and "state_ok h xs" and "vec_ok m ms" and "t < 2 ^ 64"
  shows "runs h' (compress G adv h m (of_nat t) final) (\<lambda>h''. state_ok h'' (rfc_compress xs ms t final))"
proof -
  let ?c = "g_new_u64 G"
  let ?v = "[h ! 0, h ! 1, h ! 2, h ! 3, h ! 4, h ! 5, h ! 6, h ! 7, ?c (iv ! 0), ?c (iv ! 1), ?c (iv ! 2), ?c (iv ! 3),
       g_xor G (?c (iv ! 4)) (?c (of_nat t)), ?c (iv ! 5),
       (if final then g_xor G (?c (iv ! 6)) (?c 0xffffffffffffffff) else ?c (iv ! 6)), ?c (iv ! 7)]"
  let ?x = "let v = xs @ blake_iv; v = v[12 := v ! 12 XOR of_nat t]; v = v[13 := v ! 13 XOR of_nat (t div 2 ^ 64)]
      in if final then v[14 := NOT (v ! 14)] else v"
  have s: "length h = 8" "list_all2 word_ok h xs" "length xs = 8" using assms(3) by (auto simp: state_ok_def dest: list_all2_lengthD)
  obtain x0 x1 x2 x3 x4 x5 x6 x7 where xs: "xs = [x0, x1, x2, x3, x4, x5, x6, x7]" using list8 [OF s(3)] by blast
  obtain h0 h1 h2 h3 h4 h5 h6 h7 where hs: "h = [h0, h1, h2, h3, h4, h5, h6, h7]" using list8 [OF s(1)] by blast
  have c: "word_ok (?c x) x" for x by (rule word_ok_const [OF assms(1)])
  have cx: "word_ok (g_xor G (?c x) (?c y)) (x XOR y)" for x y by (rule word_ok_ops(1) [OF assms(1) c c])
  have iv: "iv = blake_iv" by (simp add: iv_def blake_iv_def)
  have ones: "(0x5be0cd19137e2179 :: u64) = 0x5be0cd19137e2179" by simp
  have t: "(of_nat (t div 2 ^ 64) :: u64) = 0" using assms(5) by simp
  have n: "NOT x = x XOR (0xffffffffffffffff :: u64)" for x
  proof -
    have "(0xffffffffffffffff :: u64) = - 1" by simp
    then show ?thesis by (simp only: bit.xor_one_right)
  qed
  have x: "?x = [x0, x1, x2, x3, x4, x5, x6, x7, iv ! 0, iv ! 1, iv ! 2, iv ! 3, iv ! 4 XOR of_nat t, iv ! 5,
      if final then iv ! 6 XOR 0xffffffffffffffff else iv ! 6, iv ! 7]"
    unfolding n [symmetric] Let_def t by (simp add: xs iv blake_iv_def)
  have hx: "word_ok h0 x0" "word_ok h1 x1" "word_ok h2 x2" "word_ok h3 x3" "word_ok h4 x4" "word_ok h5 x5" "word_ok h6 x6" "word_ok h7 x7"
    using s(2) by (simp_all add: hs xs)
  have v: "vec_ok ?v ?x"
    unfolding x vec_ok_def using hx c cx by (simp add: hs)
  obtain X where X: "X = foldl (rfc_round ms) ?x [0..<12]" by blast
  have rounds: "runs h' (foldm (blake_round G adv m) ?v [0..<12]) (\<lambda>v'. vec_ok v' X)"
    unfolding X by (rule runs_foldm_upt [where R = vec_ok, OF blake_round_ok [OF assms(1,2) _ assms(4)] v]) simp_all
  have spec: "rfc_compress xs ms t final = map (\<lambda>i. xs ! i XOR X ! i XOR X ! (i + 8)) [0..<8]"
    by (simp only: X rfc_compress_def Let_def)
  have out: "state_ok (map (\<lambda>i. g_xor G (g_xor G (h ! i) (v' ! i)) (v' ! (i + 8))) [0..<8]) (rfc_compress xs ms t final)"
    if v': "vec_ok v' X" for v'
  proof -
    have "word_ok (g_xor G (g_xor G (h ! i) (v' ! i)) (v' ! (i + 8))) ((xs ! i XOR X ! i) XOR X ! (i + 8))" if "i < 8" for i
      using vec_ok_nth [OF v'] that s by (intro word_ok_ops(1) [OF assms(1)]) (simp_all add: words_ok_nth)
    then have "word_ok (g_xor G (g_xor G (h ! i) (v' ! i)) (v' ! (i + 8))) (xs ! i XOR X ! i XOR X ! (i + 8))" if "i < 8" for i
      using that by (simp only: xor.assoc)
    then show ?thesis by (simp add: state_ok_def spec list_all2_conv_all_nth)
  qed
  show ?thesis
    unfolding compress_def Let_def
    by (rule runs_bind [OF rounds]) (rule runs_Some, rule out)
qed

section \<open>The hash\<close>

lemma le_word_val: "bytes_ok bs \<Longrightarrow> le_word (u8s bs) = word_of_int (le_val bs)"
proof (induction bs)
  case (Cons b bs)
  have "(ucast (word_of_int b :: u8) :: u64) = word_of_int b"
    using Cons.prems by (simp add: byte_ok_def ucast_eq uint_word_of_int take_bit_eq_mod)
  then show ?case using Cons by (simp add: le_word_def u8s_def wi_hom_add wi_hom_mult)
qed (simp add: le_word_def u8s_def)

lemma le64_bytes:
  assumes "word_ok w x"
  shows "u8s w = le64 x \<and> length w = 8 \<and> bytes_ok w"
proof -
  have w: "u64_ok w" "w64 w = x" using assms by (simp_all add: word_ok_def)
  have "u8s w = le64 x"
  proof (rule nth_equalityI)
    show "length (u8s w) = length (le64 x)" using w(1) by (simp add: le64_def u64_ok_def)
    fix i assume "i < length (u8s w)"
    then have i: "i < 8" using w(1) by (simp add: u64_ok_def)
    show "u8s w ! i = le64 x ! i"
    proof (rule bit_word_eqI)
      fix j assume "j < LENGTH(8)"
      then have j: "j < 8" by simp
      have "(8 * i + j) div 8 = i" "(8 * i + j) mod 8 = j" "8 * i + j < 64" using i j by simp_all
      then have "bit x (8 * i + j) \<longleftrightarrow> bit (w ! i) j" using bit_w64 [OF w(1)] w(2) by simp
      then show "bit (u8s w ! i) j \<longleftrightarrow> bit (le64 x ! i) j"
        using i j w(1) by (simp add: le64_def u8s_def u64_ok_def bit_simps)
    qed
  qed
  then show ?thesis using w(1) by (simp add: u64_ok_def)
qed

lemma chunks_nth: "k < length xs div n \<Longrightarrow> chunks n xs ! k = take n (drop (n * k) xs)"
  by (simp add: chunks_def)

lemma block_words:
  assumes "gnark_doc G" and "bytes_ok input" and "n = max 1 ((length input + 127) div 128)" and "k < n"
  shows "vec_ok (blake_words G input k)
     ((map (map le_word \<circ> chunks 8) (chunks 128 (u8s input @ replicate (128 * n - length input) 0))) ! k)"
proof -
  let ?padded = "input @ replicate (128 * n - length input) 0"
  let ?block = "map (\<lambda>i. if k * 128 + i < length input then input ! (k * 128 + i) else 0) [0..<128]"
  have le: "length input \<le> 128 * n"
  proof -
    have "128 * ((length input + 127) div 128) + (length input + 127) mod 128 = length input + 127" by (rule mult_div_mod_eq)
    moreover have "(length input + 127) mod 128 < 128" by simp
    ultimately have "length input \<le> 128 * ((length input + 127) div 128)" by linarith
    then show ?thesis using assms(3) by linarith
  qed
  have l: "length ?padded = 128 * n" using le by simp
  have k: "128 * k + 128 \<le> 128 * n" using assms(4) by simp
  have block: "?block = take 128 (drop (128 * k) ?padded)"
  proof (rule nth_equalityI)
    show "length ?block = length (take 128 (drop (128 * k) ?padded))" using l k by simp
    fix i assume "i < length ?block"
    then have i: "i < 128" by simp
    then have "take 128 (drop (128 * k) ?padded) ! i = ?padded ! (128 * k + i)"
      by (rule nth_take_drop) (use l k in \<open>simp only:\<close>)
    also have "\<dots> = (if k * 128 + i < length input then input ! (k * 128 + i) else 0)"
      using i k l by (auto simp: nth_append mult.commute)
    finally show "?block ! i = take 128 (drop (128 * k) ?padded) ! i" using i by simp
  qed
  have ok: "bytes_ok ?padded" using assms(2) by (simp add: byte_ok_def)
  have b: "bytes_ok ?block" "length ?block = 128" unfolding block using ok l k by auto
  have w: "word_ok (g_pack_lsb64 G (take 8 (drop (i * 8) ?block))) (le_word (u8s (take 8 (drop (i * 8) ?block))))" if "i < 16" for i
  proof -
    have c: "bytes_ok (take 8 (drop (i * 8) ?block))" "length (take 8 (drop (i * 8) ?block)) = 8" using b that by auto
    then show ?thesis using doc_msb(4) [OF assms(1) c(2)] le_word_val [OF c(1)] by (simp add: word_ok_def u64_ok_def w64_def)
  qed
  have u: "u8s input @ replicate (128 * n - length input) 0 = u8s ?padded" by (simp add: u8s_def)
  have ch: "chunks 128 (u8s ?padded) ! k = u8s ?block"
    unfolding block u8s_take u8s_drop by (rule chunks_nth) (use l assms(4) in simp)
  have cw: "chunks 8 (u8s ?block) = map (\<lambda>i. u8s (take 8 (drop (i * 8) ?block))) [0..<16]"
    by (simp add: chunks_def mult.commute)
  have lc: "k < length (chunks 128 (u8s ?padded))" using l assms(4) by (simp add: chunks_def)
  show ?thesis
    unfolding u nth_map [OF lc] ch comp_def cw blake_words_def Let_def vec_ok_def
    using w by (simp add: list_all2_conv_all_nth)
qed

lemma concat_le_words:
  assumes "state_ok h xs"
  shows "u8s (concat h) = concat (map le64 xs) \<and> bytes_ok (concat h) \<and> length (concat h) = 64"
proof -
  have "list_all2 word_ok h xs \<Longrightarrow> u8s (concat h) = concat (map le64 xs) \<and> bytes_ok (concat h) \<and> length (concat h) = 8 * length h"
    by (induction h xs rule: list_all2_induct) (use le64_bytes in \<open>auto simp: u8s_def\<close>)
  then show ?thesis using assms by (simp add: state_ok_def)
qed

text \<open>The loop with its last-block flag, the last block taken out.\<close>

lemma final_block:
  assumes "\<And>i. i < k \<Longrightarrow> t i = (i + 1) * (128 :: nat)"
  shows "foldl (\<lambda>s i. F s (d i) (t i) (i = k)) x [0..<Suc k] =
    F (foldl (\<lambda>s i. F s (d i) ((i + 1) * 128) False) x [0..<k]) (d k) (t k) True"
proof -
  have "foldl (\<lambda>s i. F s (d i) (t i) (i = k)) x [0..<k] = foldl (\<lambda>s i. F s (d i) ((i + 1) * 128) False) x [0..<k]"
    by (rule foldl_cong) (use assms in auto)
  then show ?thesis by simp
qed

lemma Blake2b_ok:
  assumes "gnark_doc G" and "h' \<longrightarrow> honest adv" and "bytes_ok input" and "length input < 2 ^ 64" and "nn \<le> 64"
  shows "runs h' (Blake2b G adv input nn) (\<lambda>out. bytes_ok out \<and> length out = nn \<and> u8s out = blake2b nn (u8s input))"
proof -
  let ?ll = "length input"
  let ?n = "max 1 ((?ll + 127) div 128)"
  let ?d = "map (map le_word \<circ> chunks 8) (chunks 128 (u8s input @ replicate (128 * ?n - ?ll) 0))"
  let ?h0 = "g_xor G (g_new_u64 G (iv ! 0)) (g_new_u64 G (0x01010000 XOR of_nat nn)) # map (g_new_u64 G) (tl iv)"
  let ?x0 = "blake_iv[0 := blake_iv ! 0 XOR 0x01010000 XOR of_nat nn]"
  let ?t = "\<lambda>i. if (i + 1) * 128 > ?ll then ?ll else (i + 1) * 128"
  let ?f = "\<lambda>h i. compress G (at adv [i]) h (blake_words G input i) (of_nat (?t i)) (i = ?n - 1)"
  let ?g = "\<lambda>s i. rfc_compress s (?d ! i) (?t i) (i = ?n - 1)"
  have iv: "iv = blake_iv" by (simp add: iv_def blake_iv_def)
  have c: "word_ok (g_new_u64 G x) x" for x by (rule word_ok_const [OF assms(1)])
  have h0: "state_ok ?h0 ?x0"
    using c word_ok_ops(1) [OF assms(1) c c] by (simp add: state_ok_def iv blake_iv_def)
  have step: "runs h' (?f s i) (\<lambda>s'. state_ok s' (?g xs i))" if "i < ?n" "state_ok s xs" for i s xs
    by (rule compress_ok [OF assms(1) _ that(2) block_words [OF assms(1,3) refl that(1)]]) (use assms(2,4) in auto)
  have loop: "runs h' (foldm ?f ?h0 [0..<?n]) (\<lambda>s'. state_ok s' (foldl ?g ?x0 [0..<?n]))"
    by (rule runs_foldm_upt [where R = state_ok, OF step h0]) simp_all
  have lt: "128 * (i + 1) \<le> ?ll" if "i < ?n - 1" for i
  proof -
    have "i + 1 < (?ll + 127) div 128" using that by (auto simp: max_def split: if_splits)
    then have "128 * (i + 2) \<le> 128 * ((?ll + 127) div 128)" by simp
    also have "\<dots> \<le> ?ll + 127" by (rule times_div_less_eq_dividend)
    finally show ?thesis by simp
  qed
  have ge: "?ll \<le> ?n * 128"
  proof -
    have "128 * ((?ll + 127) div 128) + (?ll + 127) mod 128 = ?ll + 127" by (rule mult_div_mod_eq)
    moreover have "(?ll + 127) mod 128 < 128" by simp
    ultimately have "?ll \<le> 128 * ((?ll + 127) div 128)" by linarith
    then show ?thesis by linarith
  qed
  have n: "?n = Suc (?n - 1)" by simp
  have t: "?t i = (i + 1) * 128" if "i < ?n - 1" for i using lt [OF that] by simp
  have tl: "?t (?n - 1) = ?ll" using ge n by (metis Suc_eq_plus1 le_neq_implies_less)
  have spec: "foldl ?g ?x0 [0..<?n] = rfc_compress (foldl (\<lambda>h i. rfc_compress h (?d ! i) ((i + 1) * 128) False) ?x0 [0..<?n - 1]) (?d ! (?n - 1)) ?ll True"
    using final_block [where F = rfc_compress and d = "\<lambda>i. ?d ! i" and t = ?t and x = ?x0 and k = "?n - 1", OF t]
    by (simp only: n [symmetric] tl)
  have "blake2b nn (u8s input) = take nn (concat (map le64 (foldl ?g ?x0 [0..<?n])))"
    unfolding spec blake2b_def Let_def length_u8s by (rule refl)
  then have out: "bytes_ok (take nn (concat h)) \<and> length (take nn (concat h)) = nn \<and> u8s (take nn (concat h)) = blake2b nn (u8s input)"
    if "state_ok h (foldl ?g ?x0 [0..<?n])" for h
    using concat_le_words [OF that] assms(5) by auto
  have unp: "concat (map (g_unpack_lsb G) h) = concat h" if "state_ok h xs" for h xs
  proof -
    have "map (g_unpack_lsb G) h = h"
      by (rule map_idI) (use that doc_msb(5) [OF assms(1)] in \<open>auto simp: state_ok_def word_ok_def list_all2_conv_all_nth in_set_conv_nth\<close>)
    then show ?thesis by simp
  qed
  have nb: "(if (?ll + 127) div 128 = 0 then 1 else (?ll + 127) div 128) = ?n" by (simp add: max_def)
  show ?thesis
    unfolding Blake2b_def Let_def nb
    by (rule runs_bind [OF loop]) (use out unp concat_le_words assms(5) in \<open>auto simp: runs_def\<close>)
qed

end
