(* ===== verification/Ownership.thy ===== *)
theory Ownership
  imports CkdChain Blake2b GoText
begin

text \<open>
  \<^verbatim>\<open>internal/circuit/ownership/circuit.go\<close>: the root-ownership circuit (\<^verbatim>\<open>Define\<close>), its witness
  (\<^verbatim>\<open>Assignment\<close>) and the out-of-circuit derivation of credentials and public inputs.

  \<open>Define_sound\<close>: a satisfied circuit has a clamped master and a valid path whose credential
  has the public input as its encoding, whatever the prover's advice. \<open>Define_complete\<close>: for a
  clamped master, a valid path and the public input of its credential the honest prover
  satisfies the circuit. Both are for a curve with the contract \<open>curve_key\<close>.
\<close>


section \<open>Constants and paths\<close>

definition Domain :: string where "Domain = ''ROOT-OWNERSHIP-v1''"

text \<open>\<^verbatim>\<open>ecc.BLS12_381.ScalarField()\<close>.\<close>

definition ScalarField :: int where
  "ScalarField = 0x73eda753299d7d483339d80809a1d80553bda402fffe5bfeffffffff00000001"

record Path =
  Account :: u32
  Role :: u32
  Index :: u32

definition validatePath :: "Path \<Rightarrow> unit res" where
  "validatePath path = all_ok
     [fail_if (Account path \<ge> 0x80000000) ''account must be < 2^31'',
      fail_if (Role path > 2) ''role must be 0, 1, or 2'',
      fail_if (Index path \<ge> 0x80000000) ''index must be < 2^31'']"

text \<open>A panic of the reference derivation, as an error.\<close>

definition no_panic :: "'a option \<Rightarrow> 'a res" where
  "no_panic r = (case r of None \<Rightarrow> Inl (Err ''panic'') | Some x \<Rightarrow> Inr x)"

section \<open>Credentials and public inputs\<close>

text \<open>
  \<^verbatim>\<open>golang.org/x/crypto/blake2b\<close> is a parameter, the digest of a length; \<open>blake_doc\<close> is its documented
  behaviour. As in the derivation, \<open>pub\<close> is the map from a left half to its public key.
\<close>

type_synonym blake = "nat \<Rightarrow> bytes \<Rightarrow> bytes"

definition blake_doc :: "blake \<Rightarrow> bool" where
  "blake_doc H \<longleftrightarrow> (\<forall>n msg. n \<le> 64 \<longrightarrow> H n msg = blake2b n msg)"

definition RefCredential :: "blake \<Rightarrow> (bytes \<Rightarrow> bytes option) \<Rightarrow> bytes \<Rightarrow> bytes option" where
  "RefCredential H pub leafKL = map_option (H 28) (pub leafKL)"

definition DeriveCredential :: "blake \<Rightarrow> (bytes \<Rightarrow> bytes option) \<Rightarrow> bytes \<Rightarrow> Path \<Rightarrow> bytes res" where
  "DeriveCredential H pub masterXPrv path =
     bind_r (fail_if (length masterXPrv \<noteq> 96) ''master xprv length'') (\<lambda>_.
     bind_r (validatePath path) (\<lambda>_.
     no_panic (do {
       leaf \<leftarrow> derive_ref pub masterXPrv (Account path) (Role path) (Index path);
       RefCredential H pub (KL leaf) })))"

definition PublicInputDigestForCredential :: "blake \<Rightarrow> bytes \<Rightarrow> bytes res" where
  "PublicInputDigestForCredential H credential =
     bind_r (fail_if (length credential \<noteq> 28) ''credential length'') (\<lambda>_.
     Inr (H 32 (string_bytes Domain @ credential)))"

definition PublicInputForCredential :: "blake \<Rightarrow> bytes \<Rightarrow> int res" where
  "PublicInputForCredential H credential =
     bind_r (PublicInputDigestForCredential H credential) (\<lambda>digest. Inr (leToInt digest mod ScalarField))"

section \<open>The circuit\<close>

definition bytesToFieldLE :: "gnark \<Rightarrow> U8 list \<Rightarrow> int" where
  "bytesToFieldLE G digest = foldl (\<lambda>acc b. g_add G (g_mul G acc 256) b) 0 (rev digest)"

definition Credential :: "gnark \<Rightarrow> advice \<Rightarrow> curve \<Rightarrow> int list \<Rightarrow> (U8 list \<times> U8 list) option" where
  "Credential G adv crv kLbits = do {
     A \<leftarrow> crv kLbits;
     C \<leftarrow> Blake2b G adv A 28;
     Some (A, C) }"

definition bind_digest :: "gnark \<Rightarrow> advice \<Rightarrow> U8 list \<Rightarrow> int \<Rightarrow> unit option" where
  "bind_digest G adv preimage pub = do {
     digest \<leftarrow> Blake2b G adv preimage 32;
     must (g_eq G (bytesToFieldLE G digest) pub) }"

definition BindCredential :: "gnark \<Rightarrow> advice \<Rightarrow> U8 list \<Rightarrow> int \<Rightarrow> unit option" where
  "BindCredential G adv credential pub = bind_digest G adv (constBytes (string_bytes Domain) @ credential) pub"

record OwnershipCircuit =
  MasterKL :: "U8 list"
  MasterKR :: "U8 list"
  MasterCC :: "U8 list"
  VAccount :: int
  VRole :: int
  VIndex :: int
  Pub :: int

definition Define :: "gnark \<Rightarrow> advice \<Rightarrow> curve \<Rightarrow> OwnershipCircuit \<Rightarrow> unit option" where
  "Define G adv crv c = do {
     leaf \<leftarrow> DeriveChain G (at adv [0]) crv (MasterKL c) (MasterKR c) (MasterCC c) (VAccount c) (VRole c) (VIndex c);
     (A, credential) \<leftarrow> Credential G (at adv [1]) crv (l_bits leaf);
     BindCredential G (at adv [2]) credential (Pub c) }"

definition Assignment :: "bytes \<Rightarrow> Path \<Rightarrow> int \<Rightarrow> OwnershipCircuit res" where
  "Assignment masterXPrv path publicInput =
     bind_r (fail_if (length masterXPrv \<noteq> 96) ''master xprv length'') (\<lambda>_.
     bind_r (validatePath path) (\<lambda>_.
     Inr \<lparr>MasterKL = constBytes (take 32 masterXPrv), MasterKR = constBytes (take 32 (drop 32 masterXPrv)),
       MasterCC = constBytes (take 32 (drop 64 masterXPrv)), VAccount = uint (Account path), VRole = uint (Role path),
       VIndex = uint (Index path), Pub = publicInput\<rparr>))"

section \<open>The public input\<close>

lemma bytesToFieldLE_value:
  assumes "gnark_doc G" and "bytes_ok digest"
  shows "bytesToFieldLE G digest = le_val digest mod g_p G \<and> fe G (bytesToFieldLE G digest)"
  using assms(2)
proof (induction digest)
  case Nil
  then show ?case using doc_p_pos [OF assms(1)] by (simp add: bytesToFieldLE_def fe_def)
next
  case (Cons b bs)
  let ?a = "bytesToFieldLE G bs"
  have b: "byte_ok b" "bytes_ok bs" using Cons.prems by simp_all
  have a: "?a = le_val bs mod g_p G" "fe G ?a" using Cons.IH [OF b(2)] by blast+
  have f: "fe G 256" "fe G b" using byte_fe [OF assms(1) b(1)] by (auto intro!: fe_small [OF assms(1)])
  have e: "bytesToFieldLE G (b # bs) = g_add G (g_mul G ?a 256) b" by (simp add: bytesToFieldLE_def)
  have m: "fe G (g_mul G ?a 256)" "g_mul G ?a 256 = le_val bs * 256 mod g_p G"
    using fe_mul [OF assms(1) a(2) f(1)] doc_ops(3) [OF assms(1) a(2) f(1)] a(1) by (simp_all add: mod_simps)
  have "bytesToFieldLE G (b # bs) = (le_val bs * 256 + b) mod g_p G"
    using doc_ops(1) [OF assms(1) m(1) f(2)] m(2) unfolding e by (simp add: mod_simps)
  then show ?case using fe_add [OF assms(1) m(1) f(2)] unfolding e by (simp add: ac_simps)
qed

text \<open>A digest is bound to the public input it encodes, by any prover, and by the honest one always.\<close>

lemma bind_digest_ok:
  assumes "gnark_doc G" and "fe G pub" and "bytes_ok preimage" and "length preimage < 2 ^ 64"
  shows "bind_digest G adv preimage pub = Some () \<Longrightarrow> pub = leToInt (blake2b 32 (u8s preimage)) mod g_p G"
    and "honest adv \<Longrightarrow> pub = leToInt (blake2b 32 (u8s preimage)) mod g_p G \<Longrightarrow> bind_digest G adv preimage pub = Some ()"
proof -
  have b: "runs h (Blake2b G adv preimage 32) (\<lambda>out. bytes_ok out \<and> length out = 32 \<and> u8s out = blake2b 32 (u8s preimage))"
    if "h \<longrightarrow> honest adv" for h
    using Blake2b_ok [OF assms(1) that assms(3,4), of 32] by simp
  have v: "g_eq G (bytesToFieldLE G d) pub \<longleftrightarrow> pub = leToInt (u8s d) mod g_p G" if "bytes_ok d" for d
    using bytesToFieldLE_value [OF assms(1) that] doc_ops(4) [OF assms(1) _ assms(2)] leToInt_u8s [OF that] by auto
  show "pub = leToInt (blake2b 32 (u8s preimage)) mod g_p G" if s: "bind_digest G adv preimage pub = Some ()"
    using b [of False] s v by (auto simp: bind_digest_def runs_def bind_eq_Some_conv)
  show "bind_digest G adv preimage pub = Some ()" if h: "honest adv" and p: "pub = leToInt (blake2b 32 (u8s preimage)) mod g_p G"
  proof -
    obtain d where "Blake2b G adv preimage 32 = Some d" "bytes_ok d" "u8s d = blake2b 32 (u8s preimage)"
      using b [of True] h by (auto simp: runs_def)
    then show ?thesis using v p by (simp add: bind_digest_def)
  qed
qed

lemma length_Domain [simp]: "length Domain = 17"
  by (simp add: Domain_def)

lemma BindCredential_ok:
  assumes "gnark_doc G" and "g_p G = ScalarField" and "blake_doc H" and "fe G pub" and "bytes_ok credential" and "length credential = 28"
  shows "BindCredential G adv credential pub = Some () \<Longrightarrow> PublicInputForCredential H (u8s credential) = Inr pub"
    and "honest adv \<Longrightarrow> PublicInputForCredential H (u8s credential) = Inr pub \<Longrightarrow> BindCredential G adv credential pub = Some ()"
proof -
  let ?pre = "constBytes (string_bytes Domain) @ credential"
  have p: "bytes_ok ?pre" "length ?pre < 2 ^ 64" "u8s ?pre = string_bytes Domain @ u8s credential"
    using assms(5,6) by simp_all
  have e: "PublicInputForCredential H (u8s credential) = Inr (leToInt (blake2b 32 (u8s ?pre)) mod g_p G)"
    using assms(2,3,6) p(3) by (simp add: PublicInputForCredential_def PublicInputDigestForCredential_def blake_doc_def fail_if_def)
  note b = bind_digest_ok [OF assms(1,4) p(1,2), of adv]
  show "PublicInputForCredential H (u8s credential) = Inr pub" if "BindCredential G adv credential pub = Some ()"
    using b(1) that unfolding BindCredential_def e by simp
  show "BindCredential G adv credential pub = Some ()" if "honest adv" "PublicInputForCredential H (u8s credential) = Inr pub"
    using b(2) that unfolding BindCredential_def e by simp
qed

section \<open>The statement of the circuit\<close>

definition witness_ok :: "gnark \<Rightarrow> OwnershipCircuit \<Rightarrow> bool" where
  "witness_ok G c \<longleftrightarrow> bytes_ok (MasterKL c) \<and> length (MasterKL c) = 32 \<and> bytes_ok (MasterKR c) \<and> length (MasterKR c) = 32 \<and>
     bytes_ok (MasterCC c) \<and> length (MasterCC c) = 32 \<and> fe G (VAccount c) \<and> fe G (VRole c) \<and> fe G (VIndex c) \<and> fe G (Pub c)"

definition master_of :: "OwnershipCircuit \<Rightarrow> bytes" where
  "master_of c = u8s (MasterKL c @ MasterKR c @ MasterCC c)"

definition path_of :: "OwnershipCircuit \<Rightarrow> Path" where
  "path_of c = \<lparr>Account = word_of_int (VAccount c), Role = word_of_int (VRole c), Index = word_of_int (VIndex c)\<rparr>"

lemma validatePath_of_ints:
  assumes "0 \<le> a" "a < 2 ^ 31" "r \<in> {0, 1, 2}" "0 \<le> i" "i < 2 ^ 31"
  shows "validatePath \<lparr>Account = word_of_int a, Role = word_of_int r, Index = word_of_int i\<rparr> = Inr ()"
proof -
  have u: "uint (word_of_int x :: u32) = x" if "0 \<le> x" "x < 2 ^ 31" for x
    using that by (simp add: uint_word_of_int take_bit_eq_mod)
  have r: "0 \<le> r" "r < 2 ^ 31" using assms(3) by auto
  have "\<not> (word_of_int a :: u32) \<ge> 0x80000000" "\<not> (word_of_int i :: u32) \<ge> 0x80000000" "\<not> (word_of_int r :: u32) > 2"
    using assms u [of a] u [of i] u [OF r] by (auto simp: word_le_def word_less_def)
  then show ?thesis by (simp add: validatePath_def)
qed

lemma split96: "length m = 96 \<Longrightarrow> take 32 m @ take 32 (drop 32 m) @ take 32 (drop 64 m) = m"
proof -
  assume "length m = 96"
  then have "take 32 (drop 64 m) = drop 64 m" by simp
  moreover have "take 32 (drop 32 m) @ drop 64 m = drop 32 m"
    using append_take_drop_id [of 32 "drop 32 m"] by (simp only: drop_drop) simp
  ultimately show ?thesis using append_take_drop_id [of 32 m] by (simp only:)
qed

text \<open>The witness that \<^verbatim>\<open>Assignment\<close> builds is well formed and denotes its arguments.\<close>

lemma word_fe: "gnark_doc G \<Longrightarrow> fe G (uint (x :: u32))"
proof (rule fe_small)
  have "uint x < 2 ^ LENGTH(32)" by (rule unsigned_less)
  then show "uint x < 2 ^ 254" by simp
qed simp_all

lemma Assignment_values:
  assumes "gnark_doc G" and "Assignment m path n = Inr c" and "fe G n"
  shows "witness_ok G c \<and> master_of c = m \<and> path_of c = path \<and> le_val (MasterKL c) = leToInt (take 32 m) \<and> Pub c = n"
proof -
  have a: "length m = 96"
      "c = \<lparr>MasterKL = constBytes (take 32 m), MasterKR = constBytes (take 32 (drop 32 m)),
       MasterCC = constBytes (take 32 (drop 64 m)), VAccount = uint (Account path), VRole = uint (Role path),
       VIndex = uint (Index path), Pub = n\<rparr>"
    using assms(2) by (auto simp: Assignment_def)
  have "\<lparr>Account = Account path, Role = Role path, Index = Index path\<rparr> = path" by (cases path) simp
  then show ?thesis
    using a(1) split96 [OF a(1)] leToInt_u8s [of "constBytes (take 32 m)"] assms(1,3)
    by (simp add: a(2) witness_ok_def master_of_def path_of_def word_fe)
qed

context curve_key
begin

lemma credential_sound:
  assumes "gnark_doc G" and "blake_doc H" and "bytes_ok kL" "length kL = 32" "le_val kL < 2 ^ 255"
    and "Credential G adv crv (bits_of 256 (le_val kL)) = Some (A, C)"
  shows "bytes_ok C \<and> length C = 28 \<and> RefCredential H pub (u8s kL) = Some (u8s C)"
proof -
  obtain h: "crv (bits_of 256 (le_val kL)) = Some A" "Blake2b G adv A 28 = Some C"
    using assms(6) by (auto simp: Credential_def bind_eq_Some_conv)
  have A: "bytes_ok A" "length A = 32" "pub (u8s kL) = Some (u8s A)"
    using key [OF _ assms(5) h(1)] le_val_bounds [OF assms(3)] leToInt_u8s [OF assms(3)] assms(4) by simp_all
  have "bytes_ok C \<and> length C = 28 \<and> u8s C = blake2b 28 (u8s A)"
    using Blake2b_ok [OF assms(1) _ A(1), of False adv 28] h(2) A(2) by (simp add: runs_def)
  then show ?thesis using A(3) assms(2) by (simp add: RefCredential_def blake_doc_def)
qed

text \<open>The part that the three ownership circuits share: derive the leaf, then its credential.\<close>

lemma path_credential_sound:
  assumes "gnark_doc G" and "blake_doc H" and "bytes_ok mKL" "length mKL = 32" "bytes_ok mKR" "length mKR = 32"
      "bytes_ok mCC" "length mCC = 32" and "fe G a" "fe G r" "fe G i"
    and "DeriveChain G adv crv mKL mKR mCC a r i = Some leaf" and "Credential G adv' crv (l_bits leaf) = Some (A, C)"
  defines "path \<equiv> \<lparr>Account = word_of_int a, Role = word_of_int r, Index = word_of_int i\<rparr>"
  shows "clamped (le_val mKL) \<and> validatePath path = Inr () \<and> bytes_ok C \<and> length C = 28 \<and>
    DeriveCredential H pub (u8s (mKL @ mKR @ mCC)) path = Inr (u8s C)"
proof -
  note d = DeriveChain_sound [OF assms(1,3-12)]
  obtain e where e: "derive_ref pub (u8s (mKL @ mKR @ mCC)) (Account path) (Role path) (Index path) = Some e"
      "KL e = u8s (l_KL leaf)"
    using d by (auto simp: path_def)
  have l: "bytes_ok (l_KL leaf)" "length (l_KL leaf) = 32" "le_val (l_KL leaf) < 2 ^ 255" "l_bits leaf = bits_of 256 (le_val (l_KL leaf))"
    using d by blast+
  have C: "bytes_ok C" "length C = 28" "RefCredential H pub (KL e) = Some (u8s C)"
    using credential_sound [OF assms(1,2) l(1-3), of adv' A C] assms(13) l(4) e(2) by simp_all
  have p: "validatePath path = Inr ()"
    unfolding path_def by (rule validatePath_of_ints) (use d assms(9-11) in \<open>simp_all add: fe_def\<close>)
  have "DeriveCredential H pub (u8s (mKL @ mKR @ mCC)) path = Inr (u8s C)"
    using p e(1) C(3) assms(4,6,8) by (simp add: DeriveCredential_def no_panic_def fail_if_def)
  then show ?thesis using d p C by blast
qed

lemma path_credential_complete:
  assumes "gnark_doc G" and "blake_doc H" and "honest adv" "honest adv'"
    and "\<And>s. 0 \<le> s \<Longrightarrow> s < 2 ^ 255 \<Longrightarrow> crv (bits_of 256 s) \<noteq> None"
    and "length m = 96" and "validatePath path = Inr ()" and "clamped (leToInt (take 32 m))"
  shows "\<exists>leaf A C. DeriveChain G adv crv (constBytes (take 32 m)) (constBytes (take 32 (drop 32 m))) (constBytes (take 32 (drop 64 m)))
      (uint (Account path)) (uint (Role path)) (uint (Index path)) = Some leaf \<and>
    Credential G adv' crv (l_bits leaf) = Some (A, C) \<and> bytes_ok C \<and> length C = 28 \<and> DeriveCredential H pub m path = Inr (u8s C)"
proof -
  let ?L = "constBytes (take 32 m)" and ?R = "constBytes (take 32 (drop 32 m))" and ?C = "constBytes (take 32 (drop 64 m))"
  have w: "bytes_ok ?L" "length ?L = 32" "bytes_ok ?R" "length ?R = 32" "bytes_ok ?C" "length ?C = 32"
    using assms(6) by simp_all
  have m: "u8s (?L @ ?R @ ?C) = m" using split96 [OF assms(6)] by simp
  have r: "uint (Account path) < 2 ^ 31" "uint (Role path) \<in> {0, 1, 2}" "uint (Index path) < 2 ^ 31"
  proof -
    have "uint (Account path) < 2 ^ 31" "uint (Index path) < 2 ^ 31" "uint (Role path) \<le> 2"
      using assms(7) by (auto simp: validatePath_def word_le_def word_less_def)
    moreover from this(3) have "uint (Role path) \<in> {0, 1, 2}"
      using uint_ge_0 [of "Role path"] unfolding insert_iff empty_iff by arith
    ultimately show "uint (Account path) < 2 ^ 31" "uint (Role path) \<in> {0, 1, 2}" "uint (Index path) < 2 ^ 31" by blast+
  qed
  have cl: "clamped (le_val ?L)" using assms(8) leToInt_u8s [OF w(1)] by simp
  obtain leaf where leaf: "DeriveChain G adv crv ?L ?R ?C (uint (Account path)) (uint (Role path)) (uint (Index path)) = Some leaf"
    using DeriveChain_complete [OF assms(1,3,5) w cl uint_ge_0 r(1,2) uint_ge_0 r(3)] by blast
  have fe: "fe G (uint (Account path))" "fe G (uint (Role path))" "fe G (uint (Index path))"
    using r by (auto intro!: fe_small [OF assms(1)])
  note d = DeriveChain_sound [OF assms(1) w fe leaf]
  have l: "bytes_ok (l_KL leaf)" "length (l_KL leaf) = 32" "le_val (l_KL leaf) < 2 ^ 255" "l_bits leaf = bits_of 256 (le_val (l_KL leaf))"
    using d by blast+
  obtain A where A: "crv (l_bits leaf) = Some A" using assms(5) [of "le_val (l_KL leaf)"] l le_val_bounds [OF l(1)] by auto
  have Ab: "bytes_ok A" "length A = 32" using key [OF _ l(3), of A] A l(4) le_val_bounds [OF l(1)] by simp_all
  obtain C where C: "Blake2b G adv' A 28 = Some C"
    using Blake2b_ok [OF assms(1) _ Ab(1), of True adv' 28] Ab(2) assms(4) by (auto simp: runs_def)
  have cred: "Credential G adv' crv (l_bits leaf) = Some (A, C)" using A C by (simp add: Credential_def)
  have "DeriveCredential H pub m \<lparr>Account = Account path, Role = Role path, Index = Index path\<rparr> = Inr (u8s C)" "bytes_ok C" "length C = 28"
    using path_credential_sound [OF assms(1,2) w fe leaf cred] unfolding m by simp_all
  moreover have "\<lparr>Account = Account path, Role = Role path, Index = Index path\<rparr> = path" by (cases path) simp
  ultimately have "DeriveCredential H pub m path = Inr (u8s C)" "bytes_ok C" "length C = 28" by (simp_all only:)
  with leaf cred show ?thesis by blast
qed

lemma Define_sound:
  assumes "gnark_doc G" and "g_p G = ScalarField" and "blake_doc H" and "witness_ok G c" and "Define G adv crv c = Some ()"
  shows "clamped (le_val (MasterKL c)) \<and> validatePath (path_of c) = Inr () \<and>
    (\<exists>credential. DeriveCredential H pub (master_of c) (path_of c) = Inr credential \<and>
       PublicInputForCredential H credential = Inr (Pub c))"
proof -
  obtain leaf A C where h: "DeriveChain G (at adv [0]) crv (MasterKL c) (MasterKR c) (MasterCC c) (VAccount c) (VRole c) (VIndex c) = Some leaf"
      "Credential G (at adv [1]) crv (l_bits leaf) = Some (A, C)" "BindCredential G (at adv [2]) C (Pub c) = Some ()"
    using assms(5) by (auto simp: Define_def bind_eq_Some_conv)
  have w: "bytes_ok (MasterKL c)" "length (MasterKL c) = 32" "bytes_ok (MasterKR c)" "length (MasterKR c) = 32"
      "bytes_ok (MasterCC c)" "length (MasterCC c) = 32" "fe G (VAccount c)" "fe G (VRole c)" "fe G (VIndex c)" "fe G (Pub c)"
    using assms(4) by (simp_all add: witness_ok_def)
  note d = path_credential_sound [OF assms(1,3) w(1-9) h(1,2)]
  then show ?thesis
    using BindCredential_ok(1) [OF assms(1-3) w(10) _ _ h(3)] by (auto simp: master_of_def path_of_def)
qed

lemma Define_complete:
  assumes "gnark_doc G" and "g_p G = ScalarField" and "blake_doc H" and "honest adv"
    and "\<And>s. 0 \<le> s \<Longrightarrow> s < 2 ^ 255 \<Longrightarrow> crv (bits_of 256 s) \<noteq> None"
    and "Assignment m path publicInput = Inr c" and "clamped (leToInt (take 32 m))"
    and "DeriveCredential H pub m path = Inr credential" and "PublicInputForCredential H credential = Inr publicInput"
  shows "Define G adv crv c = Some ()"
proof -
  have a: "length m = 96" "validatePath path = Inr ()"
      "c = \<lparr>MasterKL = constBytes (take 32 m), MasterKR = constBytes (take 32 (drop 32 m)),
       MasterCC = constBytes (take 32 (drop 64 m)), VAccount = uint (Account path), VRole = uint (Role path),
       VIndex = uint (Index path), Pub = publicInput\<rparr>"
    using assms(6) by (auto simp: Assignment_def)
  note h = honest_at [OF assms(4)]
  obtain leaf A C where C: "DeriveChain G (at adv [0]) crv (MasterKL c) (MasterKR c) (MasterCC c) (VAccount c) (VRole c) (VIndex c) = Some leaf"
      "Credential G (at adv [1]) crv (l_bits leaf) = Some (A, C)" "bytes_ok C" "length C = 28" "DeriveCredential H pub m path = Inr (u8s C)"
    using path_credential_complete [OF assms(1,3) h [of "[0]"] h [of "[1]"] assms(5) a(1,2) assms(7)] by (simp add: a(3)) blast
  have "fe G publicInput"
    using assms(2,9) doc_p_pos [OF assms(1)] by (auto simp: PublicInputForCredential_def fe_def)
  moreover have "credential = u8s C" using assms(8) C(5) by simp
  ultimately have "BindCredential G (at adv [2]) C publicInput = Some ()"
    using BindCredential_ok(2) [OF assms(1-3) _ C(3,4) h] assms(9) by blast
  then show ?thesis using C(1,2) by (simp add: Define_def a(3))
qed

end

end
