(* ===== verification/OwnershipPaths.thy ===== *)
theory OwnershipPaths
  imports Ownership
begin

text \<open>
  The rest of \<^verbatim>\<open>internal/circuit/ownership/circuit.go\<close> and \<^verbatim>\<open>explicit_path.go\<close>: the search for the
  path of a credential (\<^verbatim>\<open>scanValues\<close>, \<^verbatim>\<open>FindPath\<close>), the check of a given path, master keys from
  seed phrases and hexadecimal text, public inputs as text.

  The scan of a range is a loop over wrapping \<^verbatim>\<open>uint32\<close>: \<open>scan_loop_value\<close> says when it ends and
  with what, \<open>scan_loop_diverges\<close> that it does not end when the bound is the largest word.
  \<open>FindPath_found\<close> and \<open>FindPath_complete\<close> characterise the search,
  \<open>MasterXPrvFromSeedPhrase_clamped\<close> the key of a seed phrase.
\<close>


section \<open>Search values\<close>

text \<open>
  The loop \<^verbatim>\<open>for v := min; v <= scanMax; v++\<close> over \<^verbatim>\<open>uint32\<close>. The addition wraps, so the loop need
  not end: not ending is the value \<open>None\<close>.
\<close>

partial_function (option) scan_loop :: "u32 \<Rightarrow> u32 \<Rightarrow> u32 list \<Rightarrow> u32 list option" where
  "scan_loop v scanMax vals = (if v \<le> scanMax then scan_loop (v + 1) scanMax (vals @ [v]) else Some vals)"

record SearchOptions =
  so_Account :: int
  so_Role :: int
  so_Index :: int
  so_MaxAccount :: u32
  so_MaxIndex :: u32

definition scanValues :: "int \<Rightarrow> u32 \<Rightarrow> u32 \<Rightarrow> u32 \<Rightarrow> u32 list res option" where
  "scanValues explicit lo scanMax explicitMax =
     (if explicit \<ge> 0 then
        let v = word_of_int explicit :: u32
        in if explicit > uint explicitMax \<or> v < lo then Some (Inl (Err ''outside allowed range'')) else Some (Inr [v])
      else map_option Inr (scan_loop lo scanMax []))"

section \<open>Path search\<close>

text \<open>The three nested loops: the first candidate that derives the target, or an error of a derivation.\<close>

fun search_paths :: "(Path \<Rightarrow> bytes res) \<Rightarrow> bytes \<Rightarrow> Path list \<Rightarrow> Path res" where
  "search_paths f target [] = Inl (Err ''target credential not found in searched CIP-1852 path range'')"
| "search_paths f target (p # ps) =
     bind_r (f p) (\<lambda>credential. if credential = target then Inr p else search_paths f target ps)"

definition candidates :: "u32 list \<Rightarrow> u32 list \<Rightarrow> u32 list \<Rightarrow> Path list" where
  "candidates accounts roles indexes =
     concat (map (\<lambda>a. concat (map (\<lambda>r. map (\<lambda>i. \<lparr>Account = a, Role = r, Index = i\<rparr>) indexes) roles)) accounts)"

definition bind_scan :: "'a res option \<Rightarrow> ('a \<Rightarrow> 'b res option) \<Rightarrow> 'b res option" where
  "bind_scan r f = r \<bind> (\<lambda>x. case x of Inl e \<Rightarrow> Some (Inl e) | Inr y \<Rightarrow> f y)"

definition FindPath :: "blake \<Rightarrow> (bytes \<Rightarrow> bytes option) \<Rightarrow> bytes \<Rightarrow> bytes \<Rightarrow> SearchOptions \<Rightarrow> Path res option" where
  "FindPath H pub masterXPrv target opts =
     (if length target \<noteq> 28 then Some (Inl (Err ''target credential length''))
      else bind_scan (scanValues (so_Account opts) 0 (so_MaxAccount opts) 0x7FFFFFFF) (\<lambda>accounts.
           bind_scan (scanValues (so_Role opts) 0 2 2) (\<lambda>roles.
           bind_scan (scanValues (so_Index opts) 0 (so_MaxIndex opts) 0x7FFFFFFF) (\<lambda>indexes.
           Some (search_paths (DeriveCredential H pub masterXPrv) target (candidates accounts roles indexes))))))"

definition ValidateExplicitCredentialPath ::
    "blake \<Rightarrow> (bytes \<Rightarrow> bytes option) \<Rightarrow> bytes \<Rightarrow> bytes \<Rightarrow> Path \<Rightarrow> unit res" where
  "ValidateExplicitCredentialPath H pub masterXPrv target path =
     bind_r (fail_if (length target \<noteq> 28) ''target credential length'') (\<lambda>_.
     bind_r (DeriveCredential H pub masterXPrv path) (\<lambda>derived.
     fail_if (derived \<noteq> target) ''explicit path does not derive the target credential''))"

section \<open>Master keys\<close>

text \<open>\<^verbatim>\<open>strings.Fields\<close>: the words between runs of white space.\<close>

function go_fields :: "string \<Rightarrow> string \<Rightarrow> string list" where
  "go_fields w [] = (if w = [] then [] else [w])"
| "go_fields w (c # s) =
     (case List.find (\<lambda>p. p \<noteq> [] \<and> has_prefix (c # s) p) space_runes of
        None \<Rightarrow> go_fields (w @ [c]) s
      | Some p \<Rightarrow> (if w = [] then [] else [w]) @ go_fields [] (drop (length p - 1) s))"
  by pat_completeness auto

termination by (relation "measure (\<lambda>(w, s). length s)") auto

text \<open>The BIP-39 entropy and the key derivation function are third-party parameters.\<close>

definition MasterXPrvFromSeedPhrase :: "(string \<Rightarrow> bytes res) \<Rightarrow> (bytes \<Rightarrow> bytes) \<Rightarrow> string \<Rightarrow> bytes res" where
  "MasterXPrvFromSeedPhrase entropyOf kdf seedPhrase =
     bind_r (wrap ''bip39 entropy'' (entropyOf (join_with '' '' (go_fields [] seedPhrase)))) (\<lambda>entropy.
     let raw = kdf entropy;
         raw = raw[0 := raw ! 0 AND 0xF8];
         raw = raw[31 := raw ! 31 AND 0x1F]
     in Inr (raw[31 := raw ! 31 OR 0x40]))"

definition decode_hex_len :: "nat \<Rightarrow> string \<Rightarrow> string \<Rightarrow> bytes res" where
  "decode_hex_len n what s =
     (case hex_decode (trim_prefix (trim_space s) ''0x'') of
        None \<Rightarrow> Inl (Wrap what (Err ''hex''))
      | Some b \<Rightarrow> if length b \<noteq> n then Inl (Err what) else Inr b)"

definition DecodeMasterXPrvHex :: "string \<Rightarrow> bytes res" where
  "DecodeMasterXPrvHex = decode_hex_len 96 ''master xprv''"

definition DecodeCredentialHex :: "string \<Rightarrow> bytes res" where
  "DecodeCredentialHex = decode_hex_len 28 ''target credential''"

section \<open>The loop ends below the top\<close>

lemma scan_loop_value:
  assumes "scanMax \<noteq> -1"
  shows "scan_loop v scanMax vals = Some (vals @ map word_of_nat [unat v..<Suc (unat scanMax)])"
proof -
  have "\<exists>n. n = Suc (unat scanMax) - unat v" by blast
  then obtain n where "n = Suc (unat scanMax) - unat v" by blast
  then show ?thesis
  proof (induction n arbitrary: v vals)
    case 0
    then have "\<not> v \<le> scanMax" "Suc (unat scanMax) \<le> unat v" by (simp_all add: word_le_nat_alt)
    then show ?case by (simp add: scan_loop.simps)
  next
    case (Suc n)
    then have v: "unat v \<le> unat scanMax" by simp
    have "unat scanMax \<noteq> unat (- 1 :: u32)" using assms by (simp add: word_unat_eq_iff)
    moreover have "unat scanMax < 2 ^ LENGTH(32)" by (rule unsigned_less)
    ultimately have m: "unat scanMax < 2 ^ 32 - 1" by (simp add: unsigned_minus_1_eq_mask mask_eq_exp_minus_1)
    have "unat (v + 1) = Suc (unat v)" using v m by (simp add: unat_word_ariths)
    moreover have "[unat v..<Suc (unat scanMax)] = unat v # [Suc (unat v)..<Suc (unat scanMax)]"
      using v by (simp add: upt_conv_Cons)
    ultimately show ?case
      using Suc.IH [of "v + 1" "vals @ [v]"] Suc.prems v by (simp add: scan_loop.simps [of v] word_le_nat_alt)
  qed
qed

lemma scan_loop_diverges: "scan_loop v (- 1) vals = None"
proof -
  have "scanMax \<noteq> - 1" if ret: "scan_loop v scanMax vals = Some r" for v scanMax vals r
    by (rule scan_loop.raw_induct [where P = "\<lambda>v scanMax vals r. scanMax \<noteq> - 1", OF _ ret]) (auto split: if_splits)
  then show ?thesis by (cases "scan_loop v (- 1) vals") auto
qed


section \<open>Public inputs as text\<close>

text \<open>\<^verbatim>\<open>big.Int.Text(16)\<close> of a number that is not negative, and \<^verbatim>\<open>big.Int.SetString(s, 16)\<close>: an
  optional sign and at least one digit, nothing else.\<close>

fun hex_nat :: "nat \<Rightarrow> string" where
  "hex_nat n = (if n < 16 then [hex_digit n] else hex_nat (n div 16) @ [hex_digit (n mod 16)])"

declare hex_nat.simps [simp del]

fun unhex_nat :: "nat \<Rightarrow> string \<Rightarrow> nat option" where
  "unhex_nat n [] = Some n"
| "unhex_nat n (c # s) = (case unhex c of None \<Rightarrow> None | Some d \<Rightarrow> unhex_nat (16 * n + d) s)"

definition int_text16 :: "int \<Rightarrow> string" where
  "int_text16 n = (if n < 0 then CHR ''-'' # hex_nat (nat (- n)) else hex_nat (nat n))"

definition int_set16 :: "string \<Rightarrow> int option" where
  "int_set16 s =
     (let sign = (if s \<noteq> [] \<and> hd s = CHR ''-'' then - 1 else 1);
          digits = (if s \<noteq> [] \<and> hd s \<in> {CHR ''-'', CHR ''+''} then tl s else s)
      in if digits = [] then None else map_option (\<lambda>n. sign * int n) (unhex_nat 0 digits))"

definition PublicInputHex :: "int \<Rightarrow> string" where
  "PublicInputHex n = ''0x'' @ int_text16 n"

definition ParsePublicInputHex :: "string \<Rightarrow> int res" where
  "ParsePublicInputHex s =
     (let raw = trim_prefix (trim_space s) ''0x''
      in if raw = [] then Inl (Err ''empty public input'')
         else (case int_set16 raw of
             None \<Rightarrow> Inl (Err ''invalid public input'')
           | Some n \<Rightarrow> if n < 0 \<or> n \<ge> ScalarField then Inl (Err ''public input is outside BLS12-381 scalar field'') else Inr n))"

lemma unhex_nat_snoc:
  "unhex_nat n (s @ [c]) = (case unhex_nat n s of None \<Rightarrow> None | Some m \<Rightarrow> (case unhex c of None \<Rightarrow> None | Some d \<Rightarrow> Some (16 * m + d)))"
  by (induction s arbitrary: n) (auto split: option.splits)

lemma unhex_hex_nat [simp]: "unhex_nat 0 (hex_nat n) = Some n"
proof (induction n rule: hex_nat.induct)
  case (1 n)
  then show ?case by (subst hex_nat.simps) (simp add: unhex_nat_snoc)
qed

lemma hex_nat_digits: "list_all lower_hex_char (hex_nat n) \<and> hex_nat n \<noteq> []"
proof (induction n rule: hex_nat.induct)
  case (1 n)
  then show ?case by (cases "n < 16") (simp_all add: hex_nat.simps [of n])
qed

text \<open>Text of hexadecimal characters and \<^verbatim>\<open>x\<close> has no white space to trim.\<close>

lemma trim_left_nonspace:
  assumes "\<And>p. p \<in> set sp \<Longrightarrow> p \<noteq> [] \<Longrightarrow> hd p \<noteq> c"
  shows "trim_left sp (c # s) = c # s"
proof -
  have "\<not> (p \<noteq> [] \<and> has_prefix (c # s) p)" if "p \<in> set sp" for p
    using assms [OF that] by (cases p) (auto simp: has_prefix_def)
  then have "List.find (\<lambda>p. p \<noteq> [] \<and> has_prefix (c # s) p) sp = None" by (simp add: find_None_iff)
  then show ?thesis by simp
qed

definition plain_char :: "char \<Rightarrow> bool" where
  "plain_char c \<longleftrightarrow> 33 \<le> code c \<and> code c < 128"

lemma space_runes_not_plain: "p \<in> set space_runes \<Longrightarrow> p \<noteq> [] \<and> \<not> plain_char (hd p) \<and> \<not> plain_char (hd (rev p))"
  by (auto simp: space_runes_def plain_char_def code_def)

lemma trim_space_plain: "list_all plain_char s \<Longrightarrow> trim_space s = s"
proof (cases s)
  case Nil
  then show ?thesis by simp
next
  case (Cons c t)
  assume a: "list_all plain_char s"
  have 1: "trim_left space_runes s = s"
    using a Cons space_runes_not_plain trim_left_nonspace [of space_runes c t] by fastforce
  obtain d u where r: "rev s = d # u" using Cons by (cases "rev s") auto
  have "list_all plain_char (rev s)" using a by simp
  then have "plain_char d" by (simp add: r)
  then have "trim_left (map rev space_runes) (d # u) = d # u"
    using space_runes_not_plain by (intro trim_left_nonspace) fastforce
  then show ?thesis using 1 r by (simp add: trim_space_def)
qed

lemma ParsePublicInputHex_PublicInputHex_iff:
  "ParsePublicInputHex (PublicInputHex n) = Inr m \<longleftrightarrow> m = n \<and> 0 \<le> n \<and> n < ScalarField"
proof -
  have p: "list_all plain_char (hex_nat k)" for k
    using hex_nat_digits [of k] by (auto simp: list_all_iff lower_hex_char_def in_range_def plain_char_def)
  have "plain_char (CHR ''0'')" "plain_char (CHR ''x'')" "plain_char (CHR ''-'')" by (simp_all add: plain_char_def code_def)
  then have "list_all plain_char (PublicInputHex n)" using p by (simp add: PublicInputHex_def int_text16_def)
  then have t: "trim_prefix (trim_space (PublicInputHex n)) ''0x'' = int_text16 n"
    using trim_prefix_append [of "''0x''" "int_text16 n"] by (simp add: trim_space_plain PublicInputHex_def)
  have h: "hex_nat k \<noteq> [] \<and> hd (hex_nat k) \<notin> {CHR ''-'', CHR ''+''}" for k
    using hex_nat_digits [of k] by (cases "hex_nat k") (auto simp: lower_hex_char_def in_range_def code_def)
  have "int_set16 (int_text16 n) = Some n"
    using h [of "nat n"] h [of "nat (- n)"] by (auto simp: int_text16_def int_set16_def Let_def)
  moreover have "int_text16 n \<noteq> []" using h by (simp add: int_text16_def)
  ultimately show ?thesis unfolding ParsePublicInputHex_def t by auto
qed

section \<open>The search finds the first path that derives the target\<close>

lemma search_paths_found:
  "search_paths f target ps = Inr p \<Longrightarrow>
     \<exists>xs ys. ps = xs @ p # ys \<and> f p = Inr target \<and> (\<forall>q \<in> set xs. \<exists>c. f q = Inr c \<and> c \<noteq> target)"
proof (induction ps)
  case Nil
  then show ?case by simp
next
  case (Cons q ps)
  from Cons.prems obtain c where c: "f q = Inr c"
    and r: "(if c = target then Inr q else search_paths f target ps) = Inr p" by auto
  show ?case
  proof (cases "c = target")
    case True
    with c r have "q # ps = [] @ p # ps \<and> f p = Inr target" by simp
    then show ?thesis by fastforce
  next
    case False
    with r Cons.IH obtain xs ys where "ps = xs @ p # ys" "f p = Inr target" "\<forall>q \<in> set xs. \<exists>c. f q = Inr c \<and> c \<noteq> target"
      by auto
    with c False have "q # ps = (q # xs) @ p # ys \<and> f p = Inr target \<and> (\<forall>q \<in> set (q # xs). \<exists>c. f q = Inr c \<and> c \<noteq> target)"
      by simp
    then show ?thesis by blast
  qed
qed

lemma search_paths_total:
  "(\<forall>q \<in> set ps. \<exists>c. f q = Inr c) \<Longrightarrow> p \<in> set ps \<Longrightarrow> f p = Inr target \<Longrightarrow> \<exists>q. search_paths f target ps = Inr q"
proof (induction ps)
  case (Cons a ps)
  then obtain c where "f a = Inr c" by auto
  with Cons show ?case by (cases "c = target") auto
qed simp


lemma bind_scan_Some:
  "bind_scan r f = Some (Inr y) \<longleftrightarrow> (\<exists>x. r = Some (Inr x) \<and> f x = Some (Inr y))"
  by (cases r) (auto simp: bind_scan_def split: sum.splits)

lemma FindPath_found:
  assumes "FindPath H pub m target opts = Some (Inr p)"
  shows "length target = 28 \<and> DeriveCredential H pub m p = Inr target \<and>
    (\<exists>accounts roles indexes. scanValues (so_Account opts) 0 (so_MaxAccount opts) 0x7FFFFFFF = Some (Inr accounts) \<and>
       scanValues (so_Role opts) 0 2 2 = Some (Inr roles) \<and>
       scanValues (so_Index opts) 0 (so_MaxIndex opts) 0x7FFFFFFF = Some (Inr indexes) \<and>
       (\<exists>xs ys. candidates accounts roles indexes = xs @ p # ys \<and>
          (\<forall>q \<in> set xs. \<exists>c. DeriveCredential H pub m q = Inr c \<and> c \<noteq> target)))"
proof -
  have l: "length target = 28" using assms by (auto simp: FindPath_def split: if_splits)
  obtain as rs idx where v: "scanValues (so_Account opts) 0 (so_MaxAccount opts) 0x7FFFFFFF = Some (Inr as)"
      "scanValues (so_Role opts) 0 2 2 = Some (Inr rs)" "scanValues (so_Index opts) 0 (so_MaxIndex opts) 0x7FFFFFFF = Some (Inr idx)"
      "search_paths (DeriveCredential H pub m) target (candidates as rs idx) = Inr p"
    using assms l by (auto simp: FindPath_def bind_scan_Some)
  show ?thesis using search_paths_found [OF v(4)] l v(1-3) by blast
qed

lemma candidates_set: "p \<in> set (candidates as rs idx) \<longleftrightarrow> Account p \<in> set as \<and> Role p \<in> set rs \<and> Index p \<in> set idx"
  by (cases p) (auto simp: candidates_def)

lemma scanValues_total: "explicit \<ge> 0 \<or> scanMax \<noteq> - 1 \<Longrightarrow> scanValues explicit lo scanMax em \<noteq> None"
  by (auto simp: scanValues_def Let_def scan_loop_value)

lemma scanValues_range:
  assumes "scanValues (- 1) 0 scanMax em = Some (Inr vals)"
  shows "v \<in> set vals \<longleftrightarrow> v \<le> scanMax"
proof -
  have n: "scanMax \<noteq> - 1" using assms scan_loop_diverges by (auto simp: scanValues_def)
  then have "vals = map word_of_nat [0..<Suc (unat scanMax)]"
    using assms scan_loop_value [OF n, of 0 "[]"] by (simp add: scanValues_def del: upt_Suc)
  then have "v \<in> set vals \<longleftrightarrow> (\<exists>k \<le> unat scanMax. v = word_of_nat k)" by (auto simp: less_Suc_eq_le simp del: upt_Suc)
  also have "\<dots> \<longleftrightarrow> v \<le> scanMax"
  proof
    assume "\<exists>k \<le> unat scanMax. v = word_of_nat k"
    then obtain k where k: "k \<le> unat scanMax" "v = word_of_nat k" by blast
    have "unat scanMax < 2 ^ LENGTH(32)" by (rule unsigned_less)
    then have "unat v = k" using k by (simp add: unat_word_of_nat)
    then show "v \<le> scanMax" using k(1) by (simp add: word_le_nat_alt)
  next
    assume "v \<le> scanMax"
    then have "unat v \<le> unat scanMax \<and> v = word_of_nat (unat v)" by (simp add: word_le_nat_alt)
    then show "\<exists>k \<le> unat scanMax. v = word_of_nat k" by blast
  qed
  finally show ?thesis .
qed

text \<open>
  With the defaults (\<^verbatim>\<open>-1\<close> for the account, the role and the index) the search covers the whole range:
  it finds a path whenever some path of the range derives the target.
\<close>

lemma validatePath_iff [simp]: "validatePath p = Inr u \<longleftrightarrow> Account p < 0x80000000 \<and> Role p \<le> 2 \<and> Index p < 0x80000000"
  by (auto simp: validatePath_def)

lemma FindPath_complete:
  assumes "so_Account opts = - 1" "so_Role opts = - 1" "so_Index opts = - 1"
    and "so_MaxAccount opts < 0x80000000" "so_MaxIndex opts < 0x80000000"
    and "length target = 28"
    and "Account p \<le> so_MaxAccount opts" "Role p \<le> 2" "Index p \<le> so_MaxIndex opts"
    and "DeriveCredential H pub m p = Inr target"
    and "\<And>q. validatePath q = Inr () \<Longrightarrow> \<exists>c. DeriveCredential H pub m q = Inr c"
  shows "\<exists>q. FindPath H pub m target opts = Some (Inr q)"
proof -
  have ne: "so_MaxAccount opts \<noteq> - 1" "so_MaxIndex opts \<noteq> - 1" "(2::u32) \<noteq> - 1" using assms(4,5) by auto
  obtain as where as: "scanValues (- 1) 0 (so_MaxAccount opts) 0x7FFFFFFF = Some (Inr as)"
    by (simp add: scanValues_def scan_loop_value [OF ne(1)])
  obtain rs where rs: "scanValues (- 1) 0 2 2 = Some (Inr rs)"
    by (simp add: scanValues_def scan_loop_value [OF ne(3)])
  obtain idx where idx: "scanValues (- 1) 0 (so_MaxIndex opts) 0x7FFFFFFF = Some (Inr idx)"
    by (simp add: scanValues_def scan_loop_value [OF ne(2)])
  have r: "\<forall>q \<in> set (candidates as rs idx). \<exists>c. DeriveCredential H pub m q = Inr c"
  proof
    fix q assume "q \<in> set (candidates as rs idx)"
    then have "validatePath q = Inr ()"
      using le_less_trans [OF _ assms(4)] le_less_trans [OF _ assms(5)]
      by (simp add: candidates_set scanValues_range [OF as] scanValues_range [OF rs] scanValues_range [OF idx])
    then show "\<exists>c. DeriveCredential H pub m q = Inr c" by (rule assms(11))
  qed
  have p: "p \<in> set (candidates as rs idx)"
    using assms(7-9) by (simp add: candidates_set scanValues_range [OF as] scanValues_range [OF rs] scanValues_range [OF idx])
  show ?thesis using search_paths_total [of "candidates as rs idx" "DeriveCredential H pub m" p target, OF r p assms(10)]
    by (simp add: FindPath_def bind_scan_def assms(1-3,6) as rs idx)
qed

section \<open>The seed's key is clamped\<close>

lemma leToInt_Cons: "leToInt (b # bs) = uint b + 256 * leToInt bs"
  by (simp add: leToInt_def)

lemma leToInt_snoc: "leToInt (bs @ [b]) = leToInt bs + 256 ^ length bs * uint b"
  by (induction bs) (simp_all add: leToInt_Cons algebra_simps, simp add: leToInt_def)

lemma clear_low: "uint (x AND 0xF8 :: u8) mod 8 = 0"
proof -
  have "take_bit 3 (uint x AND 0xF8) = take_bit 3 (uint x) AND take_bit 3 0xF8" by (rule take_bit_and)
  then have "take_bit 3 (uint (x AND 0xF8)) = 0" by (simp add: uint_and)
  then show ?thesis by (simp add: take_bit_eq_mod)
qed

lemma set_high: "64 \<le> uint ((x AND 0x1F) OR 0x40 :: u8) \<and> uint ((x AND 0x1F) OR 0x40 :: u8) < 96"
proof -
  have d: "(x AND 0x1F) OR 0x40 = (x AND 0x1F) + (0x40 :: u8)"
    by (rule disjunctive_add_eq_or [symmetric]) (simp add: and.assoc)
  have "uint (x AND 0x1F) = take_bit 5 (uint x)" by (simp add: take_bit_eq_mask mask_numeral uint_and)
  then have "uint (x AND 0x1F) < 32" "0 \<le> uint (x AND 0x1F)" by (simp_all add: take_bit_eq_mod)
  then show ?thesis unfolding d by (simp add: uint_word_ariths)
qed

lemma clamped_parts:
  fixes a m b :: int
  assumes "a mod 8 = 0" "0 \<le> a" "a < 256" "0 \<le> m" "m < 256 ^ 30" "64 \<le> b" "b < 96"
  shows "clamped (a + 256 * (m + 256 ^ 30 * b))"
proof -
  have "(a + 256 * (m + 256 ^ 30 * b)) mod 8 = (a mod 8 + (256 * (m + 256 ^ 30 * b)) mod 8) mod 8" by (simp only: mod_add_eq)
  also have "(256 * (m + 256 ^ 30 * b)) mod 8 = (8 * (32 * (m + 256 ^ 30 * b))) mod 8" by (simp add: algebra_simps)
  also have "\<dots> = 0" by (rule mod_mult_self1_is_0)
  finally have "(a + 256 * (m + 256 ^ 30 * b)) mod 8 = 0" using assms(1) by simp
  moreover have "2 ^ 254 \<le> a + 256 * (m + 256 ^ 30 * b)" "a + 256 * (m + 256 ^ 30 * b) < 2 ^ 254 + 2 ^ 253"
    using assms(2-7) by simp_all
  ultimately show ?thesis by (simp only: clamped_def simp_thms)
qed

lemma MasterXPrvFromSeedPhrase_clamped:
  assumes "\<And>e. length (kdf e) = 96" and "MasterXPrvFromSeedPhrase entropyOf kdf phrase = Inr m"
  shows "length m = 96 \<and> clamped (leToInt (take 32 m))"
proof -
  obtain e where m: "m = (kdf e)[0 := kdf e ! 0 AND 0xF8, 31 := (kdf e ! 31 AND 0x1F) OR 0x40]"
    using assms by (auto simp: MasterXPrvFromSeedPhrase_def Let_def)
  define r where "r = kdf e"
  obtain b0 t where b0: "r = b0 # t" "length t = 95"
    using assms(1) [of e] by (cases r) (simp_all add: r_def)
  define mid b31 rest where "mid = take 30 t" and "b31 = t ! 30" and "rest = drop (Suc 30) t"
  have r: "r = b0 # mid @ b31 # rest" "length mid = 30"
    using b0 id_take_nth_drop [of 30 t] by (simp_all add: mid_def b31_def rest_def)
  let ?a = "b0 AND 0xF8" and ?b = "(b31 AND 0x1F) OR 0x40"
  have u: "(mid @ b31 # rest)[30 := y] = mid @ y # rest" "(mid @ b31 # rest) ! 30 = b31" for y
    using list_update_length [of mid b31 rest y] nth_append_length [of mid b31 rest] by (simp_all add: r(2))
  have "m = (r[0 := r ! 0 AND 0xF8])[Suc 30 := (r ! Suc 30 AND 0x1F) OR 0x40]" using m by (simp add: r_def)
  also have "\<dots> = ?a # mid @ ?b # rest"
    unfolding r(1) by (simp only: list_update.simps nat.case nth_Cons_Suc nth_Cons_0 u)
  finally have n: "m = ?a # mid @ ?b # rest" .
  have t: "take 32 m = ?a # mid @ [?b]" by (simp add: n r(2))
  have "leToInt (take 32 m) = uint ?a + 256 * (leToInt mid + 256 ^ 30 * uint ?b)"
    by (simp add: t leToInt_Cons leToInt_snoc r(2))
  moreover have "clamped \<dots>"
  proof (rule clamped_parts)
    show "uint ?a mod 8 = 0" by (rule clear_low)
    have "uint ?a < 2 ^ LENGTH(8)" by (rule unsigned_less)
    then show "uint ?a < 256" by simp
    show "0 \<le> leToInt mid" "leToInt mid < 256 ^ 30" using leToInt_bounds [of mid] by (simp_all only: r(2))
    show "64 \<le> uint ?b" "uint ?b < 96" using set_high [of b31] by blast+
  qed simp
  ultimately show ?thesis by (simp add: m assms(1))
qed

end
