(* ===== verification/CircuitSamples.thy ===== *)
theory CircuitSamples
  imports OwnershipPaths
begin

text \<open>
  Concrete instances on which the hypotheses of the circuit theorems hold: \<open>gnark_bls\<close> is a
  gnark with the documented behaviour over the BLS12-381 scalar field, \<open>emul_ref\<close> an emulated
  Ed25519 base field, \<open>blake_rfc\<close> the hash of RFC 7693. \<open>curve_key\<close> is interpreted on the
  Ed25519 gadget over them.
\<close>


section \<open>A field and its gadgets\<close>

text \<open>An instance of the third-party interface: arithmetic modulo the scalar field, gadgets as they are documented.\<close>

definition gnark_bls :: gnark where
  "gnark_bls = \<lparr>
     g_p = ScalarField, g_bitlen = 255,
     g_add = (\<lambda>x y. (x + y) mod ScalarField), g_sub = (\<lambda>x y. (x - y) mod ScalarField), g_mul = (\<lambda>x y. (x * y) mod ScalarField),
     g_eq = (\<lambda>x y. x = y), g_range = (\<lambda>x n. x < 2 ^ n),
     g_to_binary = (\<lambda>x n. if 0 \<le> x \<and> x < 2 ^ n then Some (bits_of n x) else None), g_from_binary = bin_val,
     g_byte_of = (\<lambda>x. if x < 256 then Some x else None),
     g_value_of = (\<lambda>x. if 0 \<le> x \<and> x < 2 ^ 64 then Some (bytes_of 8 x) else None), g_to_value = le_val,
     g_xor8 = (\<lambda>a b. a XOR b),
     g_xor = (\<lambda>a b. bytes_of 8 (uint (w64 a XOR w64 b))), g_and = (\<lambda>a b. bytes_of 8 (uint (w64 a AND w64 b))),
     g_lrot = (\<lambda>a n. Some (bytes_of 8 (uint (word_rotl n (w64 a))))),
     g_pack_lsb = (\<lambda>vs ws. if chunks_ok vs ws then Some (chunk_val vs ws) else None),
     g_new_u64 = (\<lambda>x. bytes_of 8 (uint x)), g_pack_msb = rev, g_unpack_msb = rev, g_pack_lsb64 = id, g_unpack_lsb = id,
     g_boolean = bit_ok\<rparr>"

lemma word_bytes: "u64_ok (bytes_of 8 (uint (x :: u64))) \<and> w64 (bytes_of 8 (uint x)) = x"
proof -
  have "uint x < 2 ^ LENGTH(64)" by (rule unsigned_less)
  then have "le_val (bytes_of 8 (uint x)) = uint x" by (intro le_val_bytes_of) simp_all
  then show ?thesis using bytes_of_ok by (simp add: u64_ok_def w64_def)
qed

lemma gnark_bls_p [simp]: "g_p gnark_bls = ScalarField"
  by (simp add: gnark_bls_def)

lemma gnark_bls_field: "field_doc gnark_bls"
proof -
  have b: "g_to_binary gnark_bls x n = Some bs \<longleftrightarrow> length bs = n \<and> bits_ok bs \<and> bin_val bs = x" for x n bs
  proof
    assume "g_to_binary gnark_bls x n = Some bs"
    then show "length bs = n \<and> bits_ok bs \<and> bin_val bs = x"
      using bits_of_ok [of n x] bin_val_bits_of [of x n] by (auto simp: gnark_bls_def split: if_splits)
  next
    assume a: "length bs = n \<and> bits_ok bs \<and> bin_val bs = x"
    then have v: "0 \<le> x" "x < 2 ^ n" using bin_val_bounds [of bs] by auto
    then have "bits_of n x = bs"
      using a bits_of_ok [of n x] bin_val_bits_of [OF v] by (intro bin_val_inj) simp_all
    then show "g_to_binary gnark_bls x n = Some bs" using v by (simp add: gnark_bls_def)
  qed
  show ?thesis unfolding field_doc_def b by (simp add: gnark_bls_def) (simp add: ScalarField_def)
qed

lemma gnark_bls_uints: "uints_doc gnark_bls"
proof -
  have b: "g_value_of gnark_bls x = Some w \<longleftrightarrow> u64_ok w \<and> le_val w = x" for x w
  proof
    assume "g_value_of gnark_bls x = Some w"
    then show "u64_ok w \<and> le_val w = x"
      using bytes_of_ok [of 8 x] le_val_bytes_of [of x 8] by (auto simp: gnark_bls_def u64_ok_def split: if_splits)
  next
    assume a: "u64_ok w \<and> le_val w = x"
    then have "0 \<le> x" "x < 2 ^ 64" using u64_ok_bounds by auto
    moreover have "bytes_of 8 x = w" using a bytes_of_le_val [of w] by (auto simp: u64_ok_def)
    ultimately show "g_value_of gnark_bls x = Some w" by (simp add: gnark_bls_def)
  qed
  show ?thesis unfolding uints_doc_def b by (simp add: gnark_bls_def word_bytes fe_def) auto
qed

lemma gnark_bls_doc [simp]: "gnark_doc gnark_bls"
proof -
  have "msb_doc gnark_bls" by (simp add: msb_doc_def gnark_bls_def word_bytes)
  then show ?thesis using gnark_bls_field gnark_bls_uints by (simp add: gnark_doc_def)
qed

section \<open>An emulated field\<close>

definition emul_ref :: emul where
  "emul_ref = \<lparr>e_add = fpAdd, e_sub = fpSub, e_mul = fpMul,
     e_div = (\<lambda>x y. map_option (fpMul x) (fpInv y)),
     e_mux = (\<lambda>i xs. if i < int (length xs) then Some (xs ! nat i) else None), e_bits = bits_of 255\<rparr>"

lemma fpInv_coprime: "coprime y P \<Longrightarrow> \<exists>i. fpInv y = Some i"
proof -
  assume "coprime y P"
  then obtain u v where "u * y + v * P = 1" using bezout_int [of y P] by (auto simp: coprime_iff_gcd_eq_1)
  then have "u * y mod P = 1 mod P" by (metis mod_mult_self2 mult.commute)
  then have "u mod P * y mod P = 1" using P_pos by (simp add: mod_simps)
  then have "fpInv y = Some (u mod P)" using P_pos by (simp add: fpInv_iff elem_def)
  then show ?thesis by blast
qed

lemma emul_ref_div:
  assumes "elem x" and "elem y" and "coprime y P"
  shows "e_div emul_ref x y = Some r \<longleftrightarrow> elem r \<and> r * y mod P = x"
proof -
  obtain i where i: "fpInv y = Some i" using fpInv_coprime [OF assms(3)] by blast
  then have iy: "elem i" "i * y mod P = 1" by (simp_all add: fpInv_iff)
  have e: "fpMul x i * y mod P = x"
  proof -
    have "fpMul x i * y mod P = x * (i * y mod P) mod P" by (simp add: fpMul_def modp_def mod_simps ac_simps)
    then show ?thesis using iy(2) assms(1) by (simp add: elem_def)
  qed
  show ?thesis
    using inverse_unique [OF iy(2), of r "fpMul x i"] e elem_fp(1) [of x i] by (auto simp: emul_ref_def i)
qed

lemma emul_ref_ops: "e_add emul_ref = fpAdd" "e_sub emul_ref = fpSub" "e_mul emul_ref = fpMul" "e_bits emul_ref = bits_of 255"
  by (simp_all add: emul_ref_def)

lemma emul_ref_doc [simp]: "emul_doc emul_ref"
proof -
  have d: "elem r" if "e_div emul_ref x y = Some r" for x y r using that by (auto simp: emul_ref_def)
  have m: "e_mux emul_ref i xs = Some r \<longleftrightarrow> i < int (length xs) \<and> r = xs ! nat i" for i xs r
    by (auto simp: emul_ref_def)
  show ?thesis unfolding emul_doc_def emul_ref_ops fpAdd_def fpSub_def fpMul_def modp_def m
    by (intro conjI allI impI; (rule refl | erule d | (rule emul_ref_div; assumption)))
qed

text \<open>The key that the Ed25519 gadget computes has the contract of the derivation.\<close>

interpretation ed25519: curve_key "parent_key gnark_bls emul_ref" "key_of (parent_key gnark_bls emul_ref)"
  by (rule parent_key_curve) simp_all

section \<open>A total curve\<close>

text \<open>A curve that has a key for every scalar, for the witnesses: the key is the scalar's own bytes.\<close>

definition plain_curve :: curve where
  "plain_curve bits = Some (bytes_of 32 (bin_val bits))"

definition plain_key :: "bytes \<Rightarrow> bytes option" where
  "plain_key = key_of plain_curve"

lemma plain_curve_key [simp]: "curve_key plain_curve plain_key"
  by unfold_locales (use bytes_of_ok in \<open>auto simp: plain_curve_def plain_key_def key_of_def\<close>)

lemma plain_curve_total [simp]: "plain_curve bits \<noteq> None"
  by (simp add: plain_curve_def)

definition blake_rfc :: blake where "blake_rfc = blake2b"

lemma blake_rfc_doc [simp]: "blake_doc blake_rfc"
  by (simp add: blake_doc_def blake_rfc_def)

section \<open>A master key and a path\<close>

definition sample_master :: bytes where
  "sample_master = replicate 31 0 @ [0x40] @ replicate 64 7"

definition sample_path :: Path where
  "sample_path = \<lparr>Account = 0, Role = 2, Index = 5\<rparr>"

lemma leToInt_zeros [simp]: "leToInt (replicate n 0) = 0"
  by (induction n) (simp_all add: leToInt_Cons, simp add: leToInt_def)

lemma sample_master [simp]: "length sample_master = 96" "clamped (leToInt (take 32 sample_master))"
proof -
  have "take 32 sample_master = replicate 31 0 @ [0x40]" by (simp add: sample_master_def)
  then have "leToInt (take 32 sample_master) = 256 ^ 31 * uint (0x40 :: u8)" by (simp only: leToInt_snoc leToInt_zeros) simp
  also have "\<dots> = 2 ^ 254" by simp
  finally show "clamped (leToInt (take 32 sample_master))" by (simp add: clamped_def)
qed (simp add: sample_master_def)

lemma sample_path [simp]: "validatePath sample_path = Inr ()"
  by (simp add: sample_path_def)

end
