(* ===== verification/OwnershipMulti.thy ===== *)
theory OwnershipMulti
  imports Ownership
begin

text \<open>
  \<^verbatim>\<open>internal/circuit/ownershipdest/circuit.go\<close> and \<^verbatim>\<open>internal/circuit/ownershipmulti/circuit.go\<close>:
  the circuits that bind one credential, or 1 to 65535 credentials of one master, to a
  destination address, with their assignments, public inputs and circuit identifiers.

  \<open>DefineDestination_sound\<close>, \<open>DefineDestination_complete\<close>, \<open>DefineMulti_sound\<close> and
  \<open>DefineMulti_complete\<close> relate the circuits to the out-of-circuit derivation.
  \<open>multi_preimage_inj\<close> and \<open>domains_disjoint\<close> say that the hashed preimages are unambiguous,
  \<open>CircuitCountFromID_ForCount\<close> that an identifier gives back its count.
\<close>


section \<open>Credential and destination\<close>

definition CredentialLen :: nat where "CredentialLen = 28"

definition DestinationAddressV1Len :: nat where "DestinationAddressV1Len = 58"

definition DestinationDomain :: string where "DestinationDomain = ''ROOT-OWNERSHIP-DESTINATION-v1''"

record DestinationCircuit = OwnershipCircuit +
  Destination :: "U8 list"

definition bindCredentialDestination :: "gnark \<Rightarrow> advice \<Rightarrow> U8 list \<Rightarrow> U8 list \<Rightarrow> int \<Rightarrow> unit option" where
  "bindCredentialDestination G adv credential destination pub =
     bind_digest G adv (constBytes (string_bytes DestinationDomain) @ credential @ destination) pub"

definition DefineDestination :: "gnark \<Rightarrow> advice \<Rightarrow> curve \<Rightarrow> DestinationCircuit \<Rightarrow> unit option" where
  "DefineDestination G adv crv c = do {
     leaf \<leftarrow> DeriveChain G (at adv [0]) crv (MasterKL c) (MasterKR c) (MasterCC c) (VAccount c) (VRole c) (VIndex c);
     (A, credential) \<leftarrow> Credential G (at adv [1]) crv (l_bits leaf);
     bindCredentialDestination G (at adv [2]) credential (Destination c) (Pub c) }"

text \<open>The public input is a pointer: \<open>None\<close> is \<^verbatim>\<open>nil\<close>.\<close>

definition AssignmentDestination ::
    "blake \<Rightarrow> (bytes \<Rightarrow> bytes option) \<Rightarrow> bytes \<Rightarrow> Path \<Rightarrow> bytes \<Rightarrow> int option \<Rightarrow> DestinationCircuit res" where
  "AssignmentDestination H pub masterXPrv path destination publicInput =
     bind_r (fail_if (length masterXPrv \<noteq> 96) ''master xprv length'') (\<lambda>_.
     bind_r (fail_if (length destination \<noteq> DestinationAddressV1Len) ''destination address v1 length'') (\<lambda>_.
     case publicInput of
       None \<Rightarrow> Inl (Err ''public input is required'')
     | Some n \<Rightarrow>
         bind_r (DeriveCredential H pub masterXPrv path) (\<lambda>_.
         Inr \<lparr>MasterKL = constBytes (take 32 masterXPrv), MasterKR = constBytes (take 32 (drop 32 masterXPrv)),
           MasterCC = constBytes (take 32 (drop 64 masterXPrv)), VAccount = uint (Account path), VRole = uint (Role path),
           VIndex = uint (Index path), Pub = n, Destination = constBytes destination\<rparr>)))"

definition PublicInputDigestForCredentialDestination :: "blake \<Rightarrow> bytes \<Rightarrow> bytes \<Rightarrow> bytes res" where
  "PublicInputDigestForCredentialDestination H credential destination =
     bind_r (fail_if (length credential \<noteq> CredentialLen) ''credential length'') (\<lambda>_.
     bind_r (fail_if (length destination \<noteq> DestinationAddressV1Len) ''destination address v1 length'') (\<lambda>_.
     Inr (H 32 (string_bytes DestinationDomain @ credential @ destination))))"

definition PublicInputForCredentialDestination :: "blake \<Rightarrow> bytes \<Rightarrow> bytes \<Rightarrow> int res" where
  "PublicInputForCredentialDestination H credential destination =
     bind_r (PublicInputDigestForCredentialDestination H credential destination) (\<lambda>digest. Inr (leToInt digest mod ScalarField))"

section \<open>Several credentials\<close>

definition MultiDomain :: string where "MultiDomain = ''ROOT-OWNERSHIP-MULTI-v1''"

definition MaxCredentialCount :: int where "MaxCredentialCount = 65535"

definition ValidateCredentialCount :: "int \<Rightarrow> unit res" where
  "ValidateCredentialCount count = fail_if (count < 1 \<or> count > MaxCredentialCount) ''credential count''"

text \<open>\<open>None\<close> is the panic.\<close>

definition credentialCountU16BE :: "int \<Rightarrow> bytes option" where
  "credentialCountU16BE count =
     (case ValidateCredentialCount count of
        Inl _ \<Rightarrow> None
      | Inr _ \<Rightarrow> Some [word_of_int (count div 2 ^ 8), word_of_int count])"

text \<open>
  A circuit that is not assigned yet has variables without a value: \<open>None\<close>. A circuit that is
  evaluated with such a variable fails.
\<close>

record PathWitness =
  pw_Account :: int
  pw_Role :: int
  pw_Index :: int

record MultiCircuit =
  mc_KL :: "U8 list option"
  mc_KR :: "U8 list option"
  mc_CC :: "U8 list option"
  mc_Paths :: "PathWitness option list"
  mc_Destination :: "U8 list option"
  mc_Pub :: "int option"

definition NewCircuit :: "int \<Rightarrow> MultiCircuit res" where
  "NewCircuit count =
     bind_r (ValidateCredentialCount count) (\<lambda>_.
     Inr \<lparr>mc_KL = None, mc_KR = None, mc_CC = None, mc_Paths = replicate (nat count) None, mc_Destination = None, mc_Pub = None\<rparr>)"

definition PublicAssignment :: "int \<Rightarrow> int option \<Rightarrow> MultiCircuit res" where
  "PublicAssignment count publicInput = bind_r (NewCircuit count) (\<lambda>circuit. Inr (circuit\<lparr>mc_Pub := publicInput\<rparr>))"

definition deriveCredential ::
    "gnark \<Rightarrow> advice \<Rightarrow> curve \<Rightarrow> U8 list \<Rightarrow> U8 list \<Rightarrow> U8 list \<Rightarrow> PathWitness \<Rightarrow> U8 list option" where
  "deriveCredential G adv crv mKL mKR mCC path = do {
     leaf \<leftarrow> DeriveChain G (at adv [0]) crv mKL mKR mCC (pw_Account path) (pw_Role path) (pw_Index path);
     (A, credential) \<leftarrow> Credential G (at adv [1]) crv (l_bits leaf);
     Some credential }"

definition bindCredentialsDestination :: "gnark \<Rightarrow> advice \<Rightarrow> U8 list list \<Rightarrow> U8 list \<Rightarrow> int \<Rightarrow> unit option" where
  "bindCredentialsDestination G adv credentials destination pub = do {
     count \<leftarrow> credentialCountU16BE (int (length credentials));
     bind_digest G adv (constBytes (string_bytes MultiDomain) @ constBytes count @ concat credentials @ destination) pub }"

definition DefineMulti :: "gnark \<Rightarrow> advice \<Rightarrow> curve \<Rightarrow> MultiCircuit \<Rightarrow> unit option" where
  "DefineMulti G adv crv c =
     (case ValidateCredentialCount (int (length (mc_Paths c))) of
        Inl _ \<Rightarrow> None
      | Inr _ \<Rightarrow> do {
          mKL \<leftarrow> mc_KL c; mKR \<leftarrow> mc_KR c; mCC \<leftarrow> mc_CC c;
          credentials \<leftarrow> mapm (\<lambda>(i, path). do {
             path \<leftarrow> path;
             deriveCredential G (at adv [0, i]) crv mKL mKR mCC path }) (enumerate 0 (mc_Paths c));
          destination \<leftarrow> mc_Destination c; pub \<leftarrow> mc_Pub c;
          bindCredentialsDestination G (at adv [1]) credentials destination pub })"

fun derive_all :: "(Path \<Rightarrow> bytes res) \<Rightarrow> Path list \<Rightarrow> bytes list res" where
  "derive_all f [] = Inr []"
| "derive_all f (path # paths) =
     bind_r (wrap ''path'' (f path)) (\<lambda>credential.
     bind_r (derive_all f paths) (\<lambda>credentials. Inr (credential # credentials)))"

definition DeriveCredentials :: "blake \<Rightarrow> (bytes \<Rightarrow> bytes option) \<Rightarrow> bytes \<Rightarrow> Path list \<Rightarrow> bytes list res" where
  "DeriveCredentials H pub masterXPrv paths =
     bind_r (ValidateCredentialCount (int (length paths))) (\<lambda>_. derive_all (DeriveCredential H pub masterXPrv) paths)"

definition AssignmentMulti ::
    "blake \<Rightarrow> (bytes \<Rightarrow> bytes option) \<Rightarrow> bytes \<Rightarrow> Path list \<Rightarrow> bytes \<Rightarrow> int option \<Rightarrow> MultiCircuit res" where
  "AssignmentMulti H pub masterXPrv paths destination publicInput =
     bind_r (fail_if (length masterXPrv \<noteq> 96) ''master xprv length'') (\<lambda>_.
     bind_r (ValidateCredentialCount (int (length paths))) (\<lambda>_.
     bind_r (fail_if (length destination \<noteq> DestinationAddressV1Len) ''destination address v1 length'') (\<lambda>_.
     bind_r (fail_if (publicInput = None) ''public input is required'') (\<lambda>_.
     bind_r (derive_all (DeriveCredential H pub masterXPrv) paths) (\<lambda>_.
     bind_r (NewCircuit (int (length paths))) (\<lambda>c.
     Inr (c\<lparr>mc_KL := Some (constBytes (take 32 masterXPrv)), mc_KR := Some (constBytes (take 32 (drop 32 masterXPrv))),
       mc_CC := Some (constBytes (take 32 (drop 64 masterXPrv))),
       mc_Paths := map (\<lambda>p. Some \<lparr>pw_Account = uint (Account p), pw_Role = uint (Role p), pw_Index = uint (Index p)\<rparr>) paths,
       mc_Destination := Some (constBytes destination), mc_Pub := publicInput\<rparr>)))))))"

definition PublicInputDigestForCredentialsDestination :: "blake \<Rightarrow> bytes list \<Rightarrow> bytes \<Rightarrow> bytes res" where
  "PublicInputDigestForCredentialsDestination H credentials destination =
     bind_r (ValidateCredentialCount (int (length credentials))) (\<lambda>_.
     bind_r (fail_if (length destination \<noteq> DestinationAddressV1Len) ''destination address v1 length'') (\<lambda>_.
     bind_r (no_panic (credentialCountU16BE (int (length credentials)))) (\<lambda>count.
     bind_r (all_ok (map (\<lambda>credential. fail_if (length credential \<noteq> CredentialLen) ''credential length'') credentials)) (\<lambda>_.
     Inr (H 32 (string_bytes MultiDomain @ count @ concat credentials @ destination))))))"

definition PublicInputForCredentialsDestination :: "blake \<Rightarrow> bytes list \<Rightarrow> bytes \<Rightarrow> int res" where
  "PublicInputForCredentialsDestination H credentials destination =
     bind_r (PublicInputDigestForCredentialsDestination H credentials destination) (\<lambda>digest. Inr (leToInt digest mod ScalarField))"

section \<open>Circuit identifiers\<close>

definition CircuitIDForCount :: "int \<Rightarrow> string" where
  "CircuitIDForCount count = ''root-ownership-multi-destination-v2-count'' @ dec_int count @ ''/bls12-381/groth16''"

definition KeyVersionForCount :: "int \<Rightarrow> string" where
  "KeyVersionForCount count = ''ownership-multi-destination-v2-count'' @ dec_int count"

text \<open>\<^verbatim>\<open>strconv.Atoi\<close>: an optional sign, at least one digit, a value that fits 64 bits.\<close>

definition go_atoi :: "string \<Rightarrow> int option" where
  "go_atoi s =
     (let neg = (s \<noteq> [] \<and> hd s = CHR ''-'');
          digits = (if s \<noteq> [] \<and> hd s \<in> {CHR ''-'', CHR ''+''} then tl s else s);
          v = (if neg then - int (undec digits) else int (undec digits))
      in if digits = [] \<or> \<not> list_all is_digit digits \<or> v < - (2 ^ 63) \<or> v \<ge> 2 ^ 63 then None else Some v)"

definition trim_suffix :: "string \<Rightarrow> string \<Rightarrow> string" where
  "trim_suffix s p = (if has_suffix s p then take (length s - length p) s else s)"

definition CircuitCountFromID :: "string \<Rightarrow> int \<times> bool" where
  "CircuitCountFromID circuitID =
     (let pre = ''root-ownership-multi-destination-v2-count''; suffix = ''/bls12-381/groth16''
      in if \<not> has_prefix circuitID pre \<or> \<not> has_suffix circuitID suffix then (0, False)
         else (case go_atoi (trim_suffix (trim_prefix circuitID pre) suffix) of
             None \<Rightarrow> (0, False)
           | Some count \<Rightarrow> if ValidateCredentialCount count \<noteq> Inr () then (0, False) else (count, True)))"

definition IsCircuitID :: "string \<Rightarrow> bool" where
  "IsCircuitID circuitID = snd (CircuitCountFromID circuitID)"

section \<open>Identifiers round trip\<close>

lemma ValidateCredentialCount_ok [simp]: "ValidateCredentialCount n = Inr u \<longleftrightarrow> 1 \<le> n \<and> n \<le> 65535"
  by (auto simp: ValidateCredentialCount_def MaxCredentialCount_def)

lemma trim_suffix_append [simp]: "trim_suffix (s @ p) p = s"
  by (simp add: trim_suffix_def has_suffix_iff)

lemma go_atoi_dec_int: "- (2 ^ 63) \<le> n \<Longrightarrow> n < 2 ^ 63 \<Longrightarrow> go_atoi (dec_int n) = Some n"
proof -
  assume n: "- (2 ^ 63) \<le> n" "n < 2 ^ 63"
  have h: "hd (dec k) \<noteq> CHR ''-''" "hd (dec k) \<noteq> CHR ''+''" for k
    using hd_dec_digit [of k] by (auto simp: is_digit_def in_range_def code_def)
  show ?thesis
  proof (cases "n < 0")
    case True
    then show ?thesis using n dec_digits [of "nat (- n)"] by (simp add: go_atoi_def dec_int_def)
  next
    case False
    then show ?thesis using n h [of "nat n"] dec_digits [of "nat n"] by (simp add: go_atoi_def dec_int_def Let_def)
  qed
qed

lemma has_prefix_id: "has_prefix (CircuitIDForCount n) ''root-ownership-multi-destination-v2-count''"
    "has_suffix (CircuitIDForCount n) ''/bls12-381/groth16''"
  unfolding CircuitIDForCount_def has_suffix_iff by (rule has_prefix_append) (metis append.assoc)

lemma CircuitCountFromID_ForCount:
  assumes "- (2 ^ 63) \<le> n" and "n < 2 ^ 63"
  shows "CircuitCountFromID (CircuitIDForCount n) = (if 1 \<le> n \<and> n \<le> 65535 then (n, True) else (0, False))"
proof -
  have t: "trim_suffix (trim_prefix (CircuitIDForCount n) ''root-ownership-multi-destination-v2-count'') ''/bls12-381/groth16'' = dec_int n"
    unfolding CircuitIDForCount_def trim_prefix_append by (rule trim_suffix_append)
  show ?thesis
    unfolding CircuitCountFromID_def Let_def t go_atoi_dec_int [OF assms] using has_prefix_id by simp
qed


lemma CircuitIDForCount_inj: "CircuitIDForCount m = CircuitIDForCount n \<longleftrightarrow> m = n"
proof
  assume "CircuitIDForCount m = CircuitIDForCount n"
  then have "dec_int m @ ''/bls12-381/groth16'' = dec_int n @ ''/bls12-381/groth16''"
    unfolding CircuitIDForCount_def by (simp only: append_same_eq same_append_eq)
  moreover have "\<not> is_digit (hd ''/bls12-381/groth16'')" by (simp add: is_digit_def in_range_def code_def)
  ultimately show "m = n" using dec_int_prefix_inj by blast
qed simp

section \<open>Public inputs\<close>

lemma length_domains [simp]: "length DestinationDomain = 29" "length MultiDomain = 23"
  by (simp_all add: DestinationDomain_def MultiDomain_def)

lemma bind_digest_public:
  assumes "gnark_doc G" and "g_p G = ScalarField" and "blake_doc H" and "fe G pub" and "bytes_ok pre" and "length pre < 2 ^ 64"
  shows "bind_digest G adv pre pub = Some () \<Longrightarrow> leToInt (H 32 (u8s pre)) mod ScalarField = pub"
    and "honest adv \<Longrightarrow> leToInt (H 32 (u8s pre)) mod ScalarField = pub \<Longrightarrow> bind_digest G adv pre pub = Some ()"
  using bind_digest_ok [OF assms(1,4,5,6), of adv] assms(2,3) by (simp_all add: blake_doc_def)

lemma credentialCountU16BE_value:
  "1 \<le> n \<Longrightarrow> n \<le> 65535 \<Longrightarrow> credentialCountU16BE n = Some [word_of_int (n div 256), word_of_int n]"
  by (simp add: credentialCountU16BE_def split: sum.split)
     (simp add: ValidateCredentialCount_def MaxCredentialCount_def fail_if_def)

section \<open>The statements of the circuits\<close>

definition masters_ok :: "U8 list \<Rightarrow> U8 list \<Rightarrow> U8 list \<Rightarrow> bool" where
  "masters_ok mKL mKR mCC \<longleftrightarrow> bytes_ok mKL \<and> length mKL = 32 \<and> bytes_ok mKR \<and> length mKR = 32 \<and> bytes_ok mCC \<and> length mCC = 32"

definition path_ok :: "gnark \<Rightarrow> PathWitness \<Rightarrow> bool" where
  "path_ok G p \<longleftrightarrow> fe G (pw_Account p) \<and> fe G (pw_Role p) \<and> fe G (pw_Index p)"

definition witness_path :: "PathWitness \<Rightarrow> Path" where
  "witness_path p = \<lparr>Account = word_of_int (pw_Account p), Role = word_of_int (pw_Role p), Index = word_of_int (pw_Index p)\<rparr>"

definition destination_ok :: "U8 list \<Rightarrow> bool" where
  "destination_ok d \<longleftrightarrow> bytes_ok d \<and> length d = DestinationAddressV1Len"

lemma derive_all_ok: "derive_all f ps = Inr cs \<longleftrightarrow> list_all2 (\<lambda>p c. f p = Inr c) ps cs"
proof (induction ps arbitrary: cs)
  case (Cons p ps)
  then show ?case by (cases cs) auto
qed auto

lemma u8s_concat: "u8s (concat xs) = concat (map u8s xs)"
  by (induction xs) simp_all

context curve_key
begin

lemma deriveCredential_sound:
  assumes "gnark_doc G" and "blake_doc H" and "masters_ok mKL mKR mCC" and "path_ok G p"
    and "deriveCredential G adv crv mKL mKR mCC p = Some C"
  shows "clamped (le_val mKL) \<and> bytes_ok C \<and> length C = 28 \<and>
    DeriveCredential H pub (u8s (mKL @ mKR @ mCC)) (witness_path p) = Inr (u8s C)"
proof -
  obtain leaf A where h: "DeriveChain G (at adv [0]) crv mKL mKR mCC (pw_Account p) (pw_Role p) (pw_Index p) = Some leaf"
      "Credential G (at adv [1]) crv (l_bits leaf) = Some (A, C)"
    using assms(5) by (auto simp: deriveCredential_def bind_eq_Some_conv)
  have m: "bytes_ok mKL" "length mKL = 32" "bytes_ok mKR" "length mKR = 32" "bytes_ok mCC" "length mCC = 32"
    using assms(3) by (simp_all add: masters_ok_def)
  have f: "fe G (pw_Account p)" "fe G (pw_Role p)" "fe G (pw_Index p)" using assms(4) by (simp_all add: path_ok_def)
  show ?thesis using path_credential_sound [OF assms(1,2) m f h] unfolding witness_path_def by blast
qed

lemma DefineDestination_sound:
  assumes "gnark_doc G" and "g_p G = ScalarField" and "blake_doc H"
    and "masters_ok (MasterKL c) (MasterKR c) (MasterCC c)" and "fe G (VAccount c)" "fe G (VRole c)" "fe G (VIndex c)" "fe G (Pub c)"
    and "destination_ok (Destination c)" and "DefineDestination G adv crv c = Some ()"
  defines "path \<equiv> \<lparr>Account = word_of_int (VAccount c), Role = word_of_int (VRole c), Index = word_of_int (VIndex c)\<rparr>"
  shows "clamped (le_val (MasterKL c)) \<and> validatePath path = Inr () \<and>
    (\<exists>credential. DeriveCredential H pub (u8s (MasterKL c @ MasterKR c @ MasterCC c)) path = Inr credential \<and>
       PublicInputForCredentialDestination H credential (u8s (Destination c)) = Inr (Pub c))"
proof -
  obtain leaf A C where h: "DeriveChain G (at adv [0]) crv (MasterKL c) (MasterKR c) (MasterCC c) (VAccount c) (VRole c) (VIndex c) = Some leaf"
      "Credential G (at adv [1]) crv (l_bits leaf) = Some (A, C)" "bindCredentialDestination G (at adv [2]) C (Destination c) (Pub c) = Some ()"
    using assms(10) by (auto simp: DefineDestination_def bind_eq_Some_conv)
  have m: "bytes_ok (MasterKL c)" "length (MasterKL c) = 32" "bytes_ok (MasterKR c)" "length (MasterKR c) = 32"
      "bytes_ok (MasterCC c)" "length (MasterCC c) = 32" using assms(4) by (simp_all add: masters_ok_def)
  note d = path_credential_sound [OF assms(1,3) m assms(5-7) h(1,2), folded path_def]
  have "leToInt (H 32 (u8s (constBytes (string_bytes DestinationDomain) @ C @ Destination c))) mod ScalarField = Pub c"
    by (rule bind_digest_public(1) [OF assms(1-3,8) _ _ h(3) [unfolded bindCredentialDestination_def]])
      (use d assms(9) in \<open>simp_all add: destination_ok_def DestinationAddressV1Len_def\<close>)
  then have "PublicInputForCredentialDestination H (u8s C) (u8s (Destination c)) = Inr (Pub c)"
    using d assms(9) by (simp add: PublicInputForCredentialDestination_def PublicInputDigestForCredentialDestination_def
        CredentialLen_def destination_ok_def fail_if_def)
  then show ?thesis using d by blast
qed

lemma DefineMulti_sound:
  assumes "gnark_doc G" and "g_p G = ScalarField" and "blake_doc H"
    and c: "c = \<lparr>mc_KL = Some mKL, mc_KR = Some mKR, mc_CC = Some mCC, mc_Paths = map Some ps, mc_Destination = Some d, mc_Pub = Some n\<rparr>"
    and "masters_ok mKL mKR mCC" and "list_all (path_ok G) ps" and "destination_ok d" and "fe G n"
    and "DefineMulti G adv crv c = Some ()"
  shows "clamped (le_val mKL) \<and>
    (\<exists>credentials. DeriveCredentials H pub (u8s (mKL @ mKR @ mCC)) (map witness_path ps) = Inr credentials \<and>
       PublicInputForCredentialsDestination H credentials (u8s d) = Inr n)"
proof -
  have cnt: "1 \<le> int (length ps)" "int (length ps) \<le> 65535"
    using assms(9) ValidateCredentialCount_ok [of "int (length ps)" "()"] by (auto simp: DefineMulti_def c split: sum.splits)
  obtain cs where cs: "mapm (\<lambda>(i, path). do { path \<leftarrow> path; deriveCredential G (at adv [0, i]) crv mKL mKR mCC path })
        (enumerate 0 (map Some ps)) = Some cs" "bindCredentialsDestination G (at adv [1]) cs d n = Some ()"
    using assms(9) by (auto simp: DefineMulti_def c bind_eq_Some_conv split: sum.splits)
  have l: "length cs = length ps" using list_all2_lengthD [OF cs(1) [unfolded mapm_Some]] by simp
  have C: "clamped (le_val mKL) \<and> bytes_ok (cs ! i) \<and> length (cs ! i) = 28 \<and>
      DeriveCredential H pub (u8s (mKL @ mKR @ mCC)) (witness_path (ps ! i)) = Inr (u8s (cs ! i))" if "i < length ps" for i
  proof -
    have "deriveCredential G (at adv [0, i]) crv mKL mKR mCC (ps ! i) = Some (cs ! i)"
      using cs(1) [unfolded mapm_Some] that by (auto simp: list_all2_conv_all_nth nth_enumerate_eq)
    moreover have "path_ok G (ps ! i)" using assms(6) that by (simp add: list_all_length)
    ultimately show ?thesis using deriveCredential_sound [OF assms(1,3,5)] by blast
  qed
  have cl: "clamped (le_val mKL)" using C [of 0] cnt(1) by fastforce
  have "list_all2 (\<lambda>p c. DeriveCredential H pub (u8s (mKL @ mKR @ mCC)) p = Inr c) (map witness_path ps) (map u8s cs)"
    using C by (simp add: list_all2_conv_all_nth l)
  then have dc: "DeriveCredentials H pub (u8s (mKL @ mKR @ mCC)) (map witness_path ps) = Inr (map u8s cs)"
    using cnt by (simp add: DeriveCredentials_def derive_all_ok)
  have ok: "bytes_ok (concat cs)" "length (concat cs) = 28 * length ps" "u8s (concat cs) = concat (map u8s cs)"
    "\<forall>c \<in> set cs. length c = 28"
  proof -
    show "\<forall>c \<in> set cs. length c = 28" using C by (auto simp: in_set_conv_nth l)
    then show "length (concat cs) = 28 * length ps" by (simp add: length_concat l [symmetric] sum_list_triv map_idI cong: map_cong)
    show "bytes_ok (concat cs)" using C by (auto simp: bytes_ok_iff in_set_conv_nth [of _ cs] l)
    show "u8s (concat cs) = concat (map u8s cs)" by (rule u8s_concat)
  qed
  obtain count where count: "credentialCountU16BE (int (length ps)) = Some count" "length count = 2"
    using credentialCountU16BE_value [OF cnt] by simp
  have "leToInt (H 32 (u8s (constBytes (string_bytes MultiDomain) @ constBytes count @ concat cs @ d))) mod ScalarField = n"
  proof (rule bind_digest_public(1) [OF assms(1-3,8)])
    show "bind_digest G (at adv [1]) (constBytes (string_bytes MultiDomain) @ constBytes count @ concat cs @ d) n = Some ()"
      using cs(2) count(1) by (simp add: bindCredentialsDestination_def l)
  qed (use ok assms(7) count(2) cnt in \<open>simp_all add: destination_ok_def DestinationAddressV1Len_def\<close>)
  then have "PublicInputForCredentialsDestination H (map u8s cs) (u8s d) = Inr n"
    using cnt ok assms(7) count(1)
    by (simp add: PublicInputForCredentialsDestination_def PublicInputDigestForCredentialsDestination_def l no_panic_def
        CredentialLen_def destination_ok_def fail_if_def comp_def)
  then show ?thesis using cl dc by blast
qed

lemma public_fe: "gnark_doc G \<Longrightarrow> g_p G = ScalarField \<Longrightarrow> leToInt d mod ScalarField = n \<Longrightarrow> fe G n"
  using doc_p_pos [of G] by (auto simp: fe_def)

lemma DefineDestination_complete:
  assumes "gnark_doc G" and "g_p G = ScalarField" and "blake_doc H" and "honest adv"
    and "\<And>s. 0 \<le> s \<Longrightarrow> s < 2 ^ 255 \<Longrightarrow> crv (bits_of 256 s) \<noteq> None"
    and "AssignmentDestination H pub m path destination (Some n) = Inr c" and "clamped (leToInt (take 32 m))"
    and "DeriveCredential H pub m path = Inr credential" and "PublicInputForCredentialDestination H credential destination = Inr n"
  shows "DefineDestination G adv crv c = Some ()"
proof -
  have a: "length m = 96" "length destination = 58" "validatePath path = Inr ()"
      "c = \<lparr>MasterKL = constBytes (take 32 m), MasterKR = constBytes (take 32 (drop 32 m)),
       MasterCC = constBytes (take 32 (drop 64 m)), VAccount = uint (Account path), VRole = uint (Role path),
       VIndex = uint (Index path), Pub = n, Destination = constBytes destination\<rparr>"
    using assms(6,8) by (auto simp: AssignmentDestination_def DestinationAddressV1Len_def DeriveCredential_def)
  note h = honest_at [OF assms(4)]
  obtain leaf A C where C: "DeriveChain G (at adv [0]) crv (MasterKL c) (MasterKR c) (MasterCC c) (VAccount c) (VRole c) (VIndex c) = Some leaf"
      "Credential G (at adv [1]) crv (l_bits leaf) = Some (A, C)" "bytes_ok C" "length C = 28" "DeriveCredential H pub m path = Inr (u8s C)"
    using path_credential_complete [OF assms(1,3) h [of "[0]"] h [of "[1]"] assms(5) a(1,3) assms(7)] by (simp add: a(4)) blast
  have e: "leToInt (H 32 (string_bytes DestinationDomain @ u8s C @ destination)) mod ScalarField = n"
    using assms(8,9) C(4,5) a(2)
    by (simp add: PublicInputForCredentialDestination_def PublicInputDigestForCredentialDestination_def CredentialLen_def DestinationAddressV1Len_def fail_if_def)
  have "bind_digest G (at adv [2]) (constBytes (string_bytes DestinationDomain) @ C @ constBytes destination) n = Some ()"
    by (rule bind_digest_public(2) [OF assms(1-3) public_fe [OF assms(1,2) e] _ _ h]) (use C(3,4) a(2) e in simp_all)
  then show ?thesis using C(1,2) by (simp add: DefineDestination_def bindCredentialDestination_def a(4))
qed

lemma DefineMulti_complete:
  assumes "gnark_doc G" and "g_p G = ScalarField" and "blake_doc H" and "honest adv"
    and "\<And>s. 0 \<le> s \<Longrightarrow> s < 2 ^ 255 \<Longrightarrow> crv (bits_of 256 s) \<noteq> None"
    and "AssignmentMulti H pub m paths destination (Some n) = Inr c" and "clamped (leToInt (take 32 m))"
    and "DeriveCredentials H pub m paths = Inr credentials" and "PublicInputForCredentialsDestination H credentials destination = Inr n"
  shows "DefineMulti G adv crv c = Some ()"
proof -
  let ?L = "constBytes (take 32 m)" and ?R = "constBytes (take 32 (drop 32 m))" and ?C = "constBytes (take 32 (drop 64 m))"
  let ?w = "\<lambda>p. \<lparr>pw_Account = uint (Account p), pw_Role = uint (Role p), pw_Index = uint (Index p)\<rparr>"
  have a: "length m = 96" "length destination = 58" "1 \<le> int (length paths)" "int (length paths) \<le> 65535"
      "c = \<lparr>mc_KL = Some ?L, mc_KR = Some ?R, mc_CC = Some ?C, mc_Paths = map (\<lambda>p. Some (?w p)) paths,
         mc_Destination = Some (constBytes destination), mc_Pub = Some n\<rparr>"
    using assms(6) by (auto simp: AssignmentMulti_def NewCircuit_def DestinationAddressV1Len_def)
  note h = honest_at [OF assms(4)]
  have dc: "list_all2 (\<lambda>p c. DeriveCredential H pub m p = Inr c) paths credentials"
    using assms(8) by (simp add: DeriveCredentials_def derive_all_ok)
  have l: "length credentials = length paths" using dc by (simp add: list_all2_lengthD)
  have "\<exists>C. deriveCredential G (at adv [0, i]) crv ?L ?R ?C (?w (paths ! i)) = Some C \<and>
      bytes_ok C \<and> length C = 28 \<and> u8s C = credentials ! i" if i: "i < length paths" for i
  proof -
    have d: "DeriveCredential H pub m (paths ! i) = Inr (credentials ! i)" using dc i by (simp add: list_all2_conv_all_nth)
    then have v: "validatePath (paths ! i) = Inr ()" by (auto simp: DeriveCredential_def)
    have hi: "honest (at (at adv [0, i]) q)" for q using assms(4) by simp
    from path_credential_complete [OF assms(1,3) hi [of "[0]"] hi [of "[1]"] assms(5) a(1) v assms(7)]
    obtain leaf A C where "DeriveChain G (at (at adv [0, i]) [0]) crv ?L ?R ?C (uint (Account (paths ! i))) (uint (Role (paths ! i))) (uint (Index (paths ! i))) = Some leaf"
      "Credential G (at (at adv [0, i]) [1]) crv (l_bits leaf) = Some (A, C)" "bytes_ok C" "length C = 28" "DeriveCredential H pub m (paths ! i) = Inr (u8s C)"
      by blast
    then show ?thesis using d by (simp add: deriveCredential_def)
  qed
  then obtain f where f: "\<And>i. i < length paths \<Longrightarrow> deriveCredential G (at adv [0, i]) crv ?L ?R ?C (?w (paths ! i)) = Some (f i) \<and>
      bytes_ok (f i) \<and> length (f i) = 28 \<and> u8s (f i) = credentials ! i" by metis
  define cs where "cs = map f [0..<length paths]"
  have cs: "mapm (\<lambda>(i, path). do { path \<leftarrow> path; deriveCredential G (at adv [0, i]) crv ?L ?R ?C path })
      (enumerate 0 (map (\<lambda>p. Some (?w p)) paths)) = Some cs"
    unfolding mapm_Some using f by (simp add: cs_def list_all2_conv_all_nth nth_enumerate_eq)
  have m: "map u8s cs = credentials" using f l by (auto simp: cs_def intro: nth_equalityI)
  have ok: "bytes_ok (concat cs)" "length (concat cs) = 28 * length paths" "u8s (concat cs) = concat credentials"
      "\<forall>c \<in> set credentials. length c = 28" "length cs = length paths"
  proof -
    have c: "\<forall>c \<in> set cs. bytes_ok c \<and> length c = 28" using f by (auto simp: cs_def)
    show "bytes_ok (concat cs)" using c by (auto simp: bytes_ok_iff)
    show "length cs = length paths" by (simp add: cs_def)
    then show "length (concat cs) = 28 * length paths"
      using c by (simp add: length_concat sum_list_triv map_idI cong: map_cong)
    show "u8s (concat cs) = concat credentials" by (simp add: u8s_concat m)
    show "\<forall>c \<in> set credentials. length c = 28" using c unfolding m [symmetric] by auto
  qed
  obtain count where count: "credentialCountU16BE (int (length paths)) = Some count" "length count = 2"
    using credentialCountU16BE_value [OF a(3,4)] by simp
  have e: "leToInt (H 32 (string_bytes MultiDomain @ count @ concat credentials @ destination)) mod ScalarField = n"
    using assms(9) a(2-4) ok(4) count(1)
    by (simp add: PublicInputForCredentialsDestination_def PublicInputDigestForCredentialsDestination_def l no_panic_def
        CredentialLen_def DestinationAddressV1Len_def fail_if_def)
  have "bind_digest G (at adv [1]) (constBytes (string_bytes MultiDomain) @ constBytes count @ concat cs @ constBytes destination) n = Some ()"
    by (rule bind_digest_public(2) [OF assms(1-3) public_fe [OF assms(1,2) e] _ _ h])
      (use ok a(2,4) count(2) e in simp_all)
  then have "bindCredentialsDestination G (at adv [1]) cs (constBytes destination) n = Some ()"
    using count(1) by (simp add: bindCredentialsDestination_def ok(5))
  then show ?thesis
    using cs ValidateCredentialCount_ok [of "int (length paths)" "()"] a(3,4) by (simp add: DefineMulti_def a(5) del: ValidateCredentialCount_ok)
qed

end

section \<open>Preimages\<close>

text \<open>What is hashed for a public input, by circuit.\<close>

definition destination_preimage :: "bytes \<Rightarrow> bytes \<Rightarrow> bytes" where
  "destination_preimage credential destination = string_bytes DestinationDomain @ credential @ destination"

definition multi_preimage :: "bytes list \<Rightarrow> bytes \<Rightarrow> bytes" where
  "multi_preimage credentials destination =
     string_bytes MultiDomain @ [word_of_nat (length credentials div 256), word_of_nat (length credentials)] @ concat credentials @ destination"

lemma concat_same_len_inj:
  "\<forall>c \<in> set xs. length c = k \<Longrightarrow> \<forall>c \<in> set ys. length c = k \<Longrightarrow> length xs = length ys \<Longrightarrow>
     concat xs @ r = concat ys @ s \<Longrightarrow> xs = ys \<and> r = s"
proof (induction xs arbitrary: ys)
  case (Cons x xs)
  from Cons.prems(3) obtain y ys' where y: "ys = y # ys'" by (cases ys) auto
  have l: "length x = length y" using Cons.prems(1,2) by (simp add: y)
  have "x @ (concat xs @ r) = y @ (concat ys' @ s)" using Cons.prems(4) by (simp add: y)
  then have e: "x = y \<and> concat xs @ r = concat ys' @ s" using l append_eq_append_conv [of x y] by blast
  have "xs = ys' \<and> r = s"
    by (rule Cons.IH [OF _ _ _ conjunct2 [OF e]]) (use Cons.prems(1-3) y in simp_all)
  then show ?case using e by (simp add: y)
qed simp

lemma u16_split_inj:
  assumes "m < 65536" "n < 65536" "(word_of_nat (m div 256) :: u8) = word_of_nat (n div 256)" "(word_of_nat m :: u8) = word_of_nat n"
  shows "m = n"
proof -
  have u: "unat (word_of_nat (k div 256) :: u8) = k div 256" if "k < 65536" for k
    by (rule unat_word_of_nat) (use that in simp)
  have "m div 256 = n div 256" using u [OF assms(1)] u [OF assms(2)] unfolding assms(3) by (rule trans [OF sym])
  moreover have "m mod 256 = n mod 256"
    using arg_cong [OF assms(4), of unat] by (simp add: unsigned_of_nat take_bit_eq_mod)
  ultimately show ?thesis by (metis div_mult_mod_eq)
qed

lemma multi_preimage_inj:
  assumes "length cs < 65536" "length ds < 65536" "\<forall>c \<in> set cs. length c = 28" "\<forall>c \<in> set ds. length c = 28"
    and "multi_preimage cs d = multi_preimage ds e"
  shows "cs = ds \<and> d = e"
proof -
  have "(word_of_nat (length cs div 256) :: u8) = word_of_nat (length ds div 256)"
      "(word_of_nat (length cs) :: u8) = word_of_nat (length ds)" and c: "concat cs @ d = concat ds @ e"
    using assms(5) unfolding multi_preimage_def by (simp_all only: same_append_eq append_Cons append_Nil list.inject)
  then have "length cs = length ds" by (intro u16_split_inj [OF assms(1,2)])
  with c show ?thesis using concat_same_len_inj [OF assms(3,4)] by blast
qed

lemma domain_nth: "15 < length d \<Longrightarrow> (string_bytes d @ x) ! 15 = byte (d ! 15)"
  by (simp add: nth_append string_bytes_def)

lemma domains_disjoint:
  "string_bytes Domain @ x \<noteq> string_bytes DestinationDomain @ y" "string_bytes Domain @ x \<noteq> string_bytes MultiDomain @ y"
  "string_bytes DestinationDomain @ x \<noteq> string_bytes MultiDomain @ y"
proof -
  have c: "Domain ! 15 = CHR ''v''" "DestinationDomain ! 15 = CHR ''D''" "MultiDomain ! 15 = CHR ''M''"
    by (simp_all add: Domain_def DestinationDomain_def MultiDomain_def)
  have ne: "string_bytes a @ x \<noteq> string_bytes b @ y" if "15 < length a" "15 < length b" "a ! 15 \<noteq> b ! 15" for a b
  proof
    assume "string_bytes a @ x = string_bytes b @ y"
    then have "(string_bytes a @ x) ! 15 = (string_bytes b @ y) ! 15" by (rule arg_cong)
    then show False using that by (simp only: domain_nth byte_inj)
  qed
  show "string_bytes Domain @ x \<noteq> string_bytes DestinationDomain @ y" "string_bytes Domain @ x \<noteq> string_bytes MultiDomain @ y"
    "string_bytes DestinationDomain @ x \<noteq> string_bytes MultiDomain @ y"
    by (rule ne; simp add: c)+
qed

end
