(* ===== verification/CircuitProperties.thy ===== *)
theory CircuitProperties
  imports CircuitSamples OwnershipMulti
begin

text \<open>
  The properties of the ownership circuits and their gadgets. Statements that say \<open>\<exists>adv\<close> on one
  side of an equivalence are soundness and completeness together: no prover can satisfy the
  circuit with other values, and the honest prover satisfies it with these.
\<close>


section \<open>Helpers\<close>













lemma u8s_inj:
  assumes "bytes_ok xs" and "bytes_ok ys" and "u8s xs = u8s ys"
  shows "xs = ys"
proof (rule nth_equalityI)
  show l: "length xs = length ys" using assms(3) by (metis length_u8s)
  fix i assume i: "i < length xs"
  have b: "byte_ok (xs ! i)" "byte_ok (ys ! i)" using assms(1,2) i l by (simp_all add: bytes_ok_iff)
  have "(word_of_int (xs ! i) :: u8) = word_of_int (ys ! i)"
    using arg_cong [OF assms(3), of "\<lambda>l. l ! i"] i l by (simp add: u8s_def)
  then have "uint (word_of_int (xs ! i) :: u8) = uint (word_of_int (ys ! i) :: u8)" by (rule arg_cong)
  then show "xs ! i = ys ! i" using b by (simp add: uint_word_of_int take_bit_eq_mod byte_ok_def)
qed

section \<open>The ownership circuits\<close>











section \<open>Key derivation\<close>



section \<open>Hashes\<close>

text \<open>
  C21: The gadget for two HMACs under one key is HMAC-SHA-512 of FIPS 180-4 and RFC 2104: any accepted
  pair of outputs is the pair of digests, and the honest prover always has one.
\<close>

theorem hmac_pair_exact:
  assumes "gnark_doc G" and "bytes_ok key" and "bytes_ok msg1" and "bytes_ok msg2"
  shows "(\<exists>adv. HMACSHA512Pair G adv key msg1 msg2 = Some (mac1, mac2)) \<longleftrightarrow>
    hashes mac1 (hmac_sha512 (u8s key) (u8s msg1)) \<and> hashes mac2 (hmac_sha512 (u8s key) (u8s msg2))"
proof -
  note p = HMACSHA512Pair_ok [OF assms]
  have inj: "a = b" if "hashes a d" "hashes b d" for a b d
    using that u8s_inj [of a b] by (simp add: hashes_def)
  obtain a b where h: "HMACSHA512Pair G honest_adv key msg1 msg2 = Some (a, b)" using p(2) [OF honest_adv] by auto
  show ?thesis using p(1) p(1) [OF h] h inj by blast
qed

theorem hmac_pair_exact_witness:
  "\<exists>mac1 mac2. hashes mac1 (hmac_sha512 [1] [2]) \<and> hashes mac2 (hmac_sha512 [1] [3]) \<and>
     (\<exists>adv. HMACSHA512Pair gnark_bls adv [1] [2] [3] = Some (mac1, mac2))"
proof -
  have b: "bytes_ok [1]" "bytes_ok [2]" "bytes_ok [3]" by (simp_all add: byte_ok_def)
  obtain a b where "HMACSHA512Pair gnark_bls honest_adv [1] [2] [3] = Some (a, b)"
    using HMACSHA512Pair_ok(2) [OF gnark_bls_doc b honest_adv] by auto
  then show ?thesis using hmac_pair_exact [OF gnark_bls_doc b, of a b] by auto
qed

text \<open>
  C22: The BLAKE2b gadget is BLAKE2b of RFC 7693 for every message below \<open>2 ^ 64\<close> bytes and every
  digest of 1 to 64 bytes: any accepted output is the digest, and the honest prover always has one.
\<close>

theorem blake2b_exact:
  assumes "gnark_doc G" and "bytes_ok input" and "length input < 2 ^ 64" and "nn \<le> 64"
  shows "(\<exists>adv. Blake2b G adv input nn = Some out) \<longleftrightarrow> bytes_ok out \<and> length out = nn \<and> u8s out = blake2b nn (u8s input)"
proof -
  have r: "runs h (Blake2b G adv input nn) (\<lambda>out. bytes_ok out \<and> length out = nn \<and> u8s out = blake2b nn (u8s input))" if "h \<longrightarrow> honest adv" for h adv
    by (rule Blake2b_ok [OF assms(1) that assms(2-4)])
  obtain a where a: "Blake2b G honest_adv input nn = Some a" using r [of True honest_adv] by (auto simp: runs_def)
  have s: "bytes_ok x \<and> length x = nn \<and> u8s x = blake2b nn (u8s input)" if "Blake2b G adv input nn = Some x" for adv x
    using r [of False adv] that by (simp add: runs_def)
  show ?thesis using s s [OF a] a u8s_inj [of out a] by auto
qed

theorem blake2b_exact_witness:
  "\<exists>out. u8s out = blake2b 28 [1, 2] \<and> (\<exists>adv. Blake2b gnark_bls adv [1, 2] 28 = Some out)"
proof -
  have b: "bytes_ok [1, 2]" by (simp add: byte_ok_def)
  obtain a where "Blake2b gnark_bls honest_adv [1, 2] 28 = Some a"
    using Blake2b_ok [OF gnark_bls_doc _ b, of True honest_adv 28] by (auto simp: runs_def)
  then show ?thesis using blake2b_exact [OF gnark_bls_doc b, of 28 a] by auto
qed


section \<open>Encodings and adders\<close>

text \<open>
  C23: The child-key adders are exact: \<^verbatim>\<open>AddKL\<close> accepts only \<open>kL + 8 * zL\<close> and has no solution when it
  needs more than 256 bits, \<^verbatim>\<open>AddKR\<close> accepts only \<open>(kR + zR) mod 2 ^ 256\<close> and always has a solution.
\<close>

theorem adders_exact:
  assumes "gnark_doc G" and "bytes_ok kL" and "length kL = 32" and "bytes_ok zL" and "length zL = 28"
    and "bytes_ok zR" and "length zR = 32"
  shows "((\<exists>adv. AddKL G adv kL zL = Some out) \<longleftrightarrow> bytes_ok out \<and> length out = 32 \<and> le_val out = le_val kL + 8 * le_val zL) \<and>
    ((\<exists>adv. AddKR G adv kL zR = Some out) \<longleftrightarrow> bytes_ok out \<and> length out = 32 \<and> le_val out = (le_val kL + le_val zR) mod 2 ^ 256)"
proof (intro conjI iffI)
  show "\<exists>adv. AddKL G adv kL zL = Some out" if o: "bytes_ok out \<and> length out = 32 \<and> le_val out = le_val kL + 8 * le_val zL"
  proof -
    have "le_val kL + 8 * le_val zL < 2 ^ 256" using le_val_bounds [of out] o by simp
    from AddKL_honest [OF assms(1-5) honest_adv this] obtain a where a: "AddKL G honest_adv kL zL = Some a" by blast
    have "a = out" by (rule le_val_inj) (use AddKL_sound [OF assms(1-5) a] o in simp_all)
    then show ?thesis using a by blast
  qed
  show "\<exists>adv. AddKR G adv kL zR = Some out" if o: "bytes_ok out \<and> length out = 32 \<and> le_val out = (le_val kL + le_val zR) mod 2 ^ 256"
  proof -
    from AddKR_honest [OF assms(1-3,6,7) honest_adv] obtain a where a: "AddKR G honest_adv kL zR = Some a" by blast
    have "a = out" by (rule le_val_inj) (use AddKR_sound [OF assms(1-3,6,7) a] o in simp_all)
    then show ?thesis using a by blast
  qed
qed (use AddKL_sound [OF assms(1-5)] AddKR_sound [OF assms(1-3,6,7)] in blast)+

theorem adders_exact_witness:
  "(\<nexists>adv. AddKL gnark_bls adv (replicate 32 255) (1 # replicate 27 0) = Some (7 # replicate 31 0)) \<and>
   (\<exists>adv. AddKR gnark_bls adv (replicate 32 255) (8 # replicate 31 0) = Some (7 # replicate 31 0))"
proof -
  have b: "bytes_ok (replicate 32 255)" "bytes_ok (1 # replicate 27 0)" "bytes_ok (8 # replicate 31 0)" "bytes_ok (7 # replicate 31 0)"
    by (simp_all add: bytes_ok_iff byte_ok_def)
  have l: "length (replicate 32 (255::int)) = 32" "length (1 # replicate 27 (0::int)) = 28" "length (8 # replicate 31 (0::int)) = 32" by simp_all
  have z: "le_val (replicate n 0) = 0" for n by (induction n) simp_all
  have f: "le_val (replicate n 255) = 256 ^ n - 1" for n by (induction n) simp_all
  show ?thesis
    using adders_exact [OF gnark_bls_doc b(1) l(1) b(2) l(2) b(3) l(3), of "7 # replicate 31 0"] b(4) by (simp add: f z)
qed

text \<open>
  On 32 bytes, the canonical decomposition exists exactly for values below \<open>2 ^ 255\<close> and is then their
  256 bits, converting back gives the bytes, and the clamp constraints hold exactly for the clamped
  Ed25519 scalars: a multiple of 8, bit 254 set, bits 253 and 255 clear.
\<close>

lemma canonical_bits_exact:
  assumes "gnark_doc G" and "bytes_ok b" and "length b = 32"
  shows "(BytesToCanonBits G b = Some canon \<longleftrightarrow> le_val b < 2 ^ 255 \<and> canon = bits_of 256 (le_val b)) \<and>
    (BytesToCanonBits G b = Some canon \<longrightarrow> CanonBitsToBytes G canon = b) \<and>
    (AssertClamp G b = Some () \<longleftrightarrow> le_val b mod 8 = 0 \<and> 2 ^ 254 \<le> le_val b \<and> le_val b < 2 ^ 254 + 2 ^ 253)"
  using BytesToCanonBits_iff [OF assms] CanonBitsToBytes_inverse [OF assms] AssertClamp_iff [OF assms] by (simp add: clamped_def)

lemma canonical_bits_exact_witness:
  "AssertClamp gnark_bls (replicate 31 0 @ [64]) = Some () \<and> BytesToCanonBits gnark_bls (replicate 31 0 @ [128]) = None"
proof -
  have b: "bytes_ok (replicate 31 0 @ [64])" "bytes_ok (replicate 31 0 @ [128])" by (simp_all add: bytes_ok_iff byte_ok_def)
  have z: "le_val (replicate n 0 @ [x]) = 256 ^ n * x" for n x by (induction n) simp_all
  have v: "le_val (replicate 31 0 @ [64]) = 2 ^ 254" "le_val (replicate 31 0 @ [128]) = 2 ^ 255" by (simp_all add: z)
  have "BytesToCanonBits gnark_bls (replicate 31 0 @ [128]) \<noteq> Some canon" for canon
    using canonical_bits_exact [OF gnark_bls_doc b(2), of canon] v(2) by simp
  then have "BytesToCanonBits gnark_bls (replicate 31 0 @ [128]) = None" by blast
  moreover have "AssertClamp gnark_bls (replicate 31 0 @ [64]) = Some ()"
    using canonical_bits_exact [OF gnark_bls_doc b(1), of "[]"] v(1) by simp
  ultimately show ?thesis by blast
qed

text \<open>
  Fixed-base multiplication rejects what is not a scalar below \<open>2 ^ 255\<close> in 256 bits: a vector of another
  length, an entry that is not a bit, or bit 255 set.
\<close>

lemma scalar_mul_rejects:
  assumes "gnark_doc G" and "list_all (fe G) bits" and "length bits \<noteq> 256 \<or> \<not> bits_ok bits \<or> 2 ^ 255 \<le> bin_val bits"
  shows "ScalarMulBaseBits G E bits = None"
proof (rule ccontr)
  assume "ScalarMulBaseBits G E bits \<noteq> None"
  then obtain r where "ScalarMulBaseBits G E bits = Some r" by blast
  from ScalarMulBaseBits_domain [OF assms(1,2) this] show False using assms(3) by linarith
qed

lemma scalar_mul_rejects_witness:
  "ScalarMulBaseBits gnark_bls emul_ref (replicate 255 0 @ [1]) = None"
proof (rule scalar_mul_rejects [OF gnark_bls_doc])
  have z: "bin_val (replicate n 0 @ [x]) = 2 ^ n * x" for n x by (induction n) simp_all
  show "length (replicate 255 0 @ [1]) \<noteq> 256 \<or> \<not> bits_ok (replicate 255 0 @ [1 :: int]) \<or> 2 ^ 255 \<le> bin_val (replicate 255 0 @ [1])"
    unfolding z by simp
  show "list_all (fe gnark_bls) (replicate 255 0 @ [1])"
    by (auto simp: list_all_iff intro!: fe_small [OF gnark_bls_doc])
qed

section \<open>Path search\<close>

text \<open>
  C24: The scan of a range returns exactly when the bound is not the largest \<^verbatim>\<open>uint32\<close> or an explicit value is given,
  and then it lists every value up to the bound once, in ascending order. With the largest bound
  the loop variable wraps and the loop never ends.
\<close>

theorem scan_terminates_iff:
  "(scanValues explicit 0 scanMax explicitMax \<noteq> None \<longleftrightarrow> 0 \<le> explicit \<or> scanMax \<noteq> - 1) \<and>
   (explicit < 0 \<and> scanMax \<noteq> - 1 \<longrightarrow>
      scanValues explicit 0 scanMax explicitMax = Some (Inr (map word_of_nat [0..<Suc (unat scanMax)])))"
proof (cases "0 \<le> explicit")
  case True
  then show ?thesis by (simp add: scanValues_def Let_def)
next
  case False
  then show ?thesis
    using scan_loop_value [of scanMax 0 "[]"] scan_loop_diverges [of 0 "[]"] by (cases "scanMax = - 1") (simp_all add: scanValues_def del: upt_Suc)
qed

theorem scan_terminates_iff_witness:
  "scanValues (- 1) 0 (- 1) 2 = None \<and> scanValues (- 1) 0 2 2 = Some (Inr [0, 1, 2])"
proof -
  have "scanValues (- 1) 0 2 2 = Some (Inr (map word_of_nat [0..<Suc (unat (2 :: u32))]))"
    using scan_terminates_iff [of "- 1" 2 2] by simp
  moreover have "map word_of_nat [0..<Suc (unat (2 :: u32))] = [0, 1, 2 :: u32]" by (simp add: upt_rec)
  ultimately show ?thesis using scan_terminates_iff [of "- 1" "- 1" 2] by (simp only: simp_thms) simp
qed



section \<open>Public inputs\<close>

text \<open>
  C26: A multi-credential digest determines its credentials, their order and the destination, and is no digest of the
  two other circuits: otherwise the two named byte strings are a BLAKE2b-256 collision.
\<close>

theorem public_input_preimages:
  assumes "PublicInputDigestForCredentialsDestination H cs d = Inr h"
  shows "(PublicInputDigestForCredentialsDestination H ds e = Inr h \<longrightarrow>
      (cs = ds \<and> d = e) \<or> (multi_preimage cs d \<noteq> multi_preimage ds e \<and> H 32 (multi_preimage cs d) = H 32 (multi_preimage ds e))) \<and>
    (PublicInputDigestForCredentialDestination H c e = Inr h \<longrightarrow>
      multi_preimage cs d \<noteq> destination_preimage c e \<and> H 32 (multi_preimage cs d) = H 32 (destination_preimage c e)) \<and>
    (PublicInputDigestForCredential H c = Inr h \<longrightarrow>
      multi_preimage cs d \<noteq> string_bytes Domain @ c \<and> H 32 (multi_preimage cs d) = H 32 (string_bytes Domain @ c))"
proof -
  have m: "H 32 (multi_preimage xs x) = h \<and> length xs < 65536 \<and> (\<forall>c \<in> set xs. length c = 28)"
    if "PublicInputDigestForCredentialsDestination H xs x = Inr h" for xs x
  proof -
    have n: "1 \<le> int (length xs)" "int (length xs) \<le> 65535" using that by (auto simp: PublicInputDigestForCredentialsDestination_def)
    have w: "[word_of_int (int (length xs) div 256), word_of_int (int (length xs))] =
        [word_of_nat (length xs div 256), word_of_nat (length xs) :: u8]"
    proof -
      have "int (length xs) div 256 = int (length xs div 256)" by (simp add: zdiv_int)
      then show ?thesis by (simp only: of_int_of_nat_eq)
    qed
    show ?thesis
      using that n w by (auto simp: PublicInputDigestForCredentialsDestination_def credentialCountU16BE_value [OF n] no_panic_def
          multi_preimage_def CredentialLen_def)
  qed
  note m1 = m [OF assms]
  have dest: "H 32 (destination_preimage c e) = h" if "PublicInputDigestForCredentialDestination H c e = Inr h"
    using that by (auto simp: PublicInputDigestForCredentialDestination_def destination_preimage_def)
  have own: "H 32 (string_bytes Domain @ c) = h" if "PublicInputDigestForCredential H c = Inr h"
    using that by (auto simp: PublicInputDigestForCredential_def)
  show ?thesis
  proof (intro conjI impI)
    assume "PublicInputDigestForCredentialsDestination H ds e = Inr h"
    note m2 = m [OF this]
    show "(cs = ds \<and> d = e) \<or> (multi_preimage cs d \<noteq> multi_preimage ds e \<and> H 32 (multi_preimage cs d) = H 32 (multi_preimage ds e))"
      using m1 m2 multi_preimage_inj [of cs ds d e] by metis
  next
    show "multi_preimage cs d \<noteq> destination_preimage c e"
      using domains_disjoint(3) by (metis multi_preimage_def destination_preimage_def)
    show "multi_preimage cs d \<noteq> string_bytes Domain @ c" using domains_disjoint(2) by (metis multi_preimage_def)
  qed (use m1 dest own in simp_all)
qed

theorem public_input_preimages_witness:
  "PublicInputDigestForCredentialsDestination (\<lambda>n m. replicate n 0) [replicate 28 1] (replicate 58 2) = Inr (replicate 32 0) \<and>
   multi_preimage [replicate 28 1] (replicate 58 2) \<noteq> string_bytes Domain @ replicate 28 1"
proof -
  have h: "PublicInputDigestForCredentialsDestination (\<lambda>n m. replicate n 0) [replicate 28 1] (replicate 58 2) = Inr (replicate 32 0)"
    by (simp add: PublicInputDigestForCredentialsDestination_def credentialCountU16BE_value no_panic_def DestinationAddressV1Len_def CredentialLen_def
        fail_if_def)
  have "PublicInputDigestForCredential (\<lambda>n m. replicate n 0) (replicate 28 1) = Inr (replicate 32 0)"
    by (simp add: PublicInputDigestForCredential_def fail_if_def)
  then show ?thesis using public_input_preimages [OF h] h by blast
qed

end
