(* ===== verification/ShaConstants.thy ===== *)
theory ShaConstants
  imports Sha512
begin

text \<open>
  The literals of \<^verbatim>\<open>internal/circuit/sha512/sha/gadget.go\<close> against FIPS 180-4: the round constants
  are the first 64 bits of the fractional parts of the cube roots of the first eighty primes, the
  initial values those of the square roots of the first eight.
\<close>

text \<open>The first 64 bits of the fractional part of the \<open>e\<close>-th root of \<open>p\<close>, whose integer part is \<open>c\<close>.\<close>

definition root_frac :: "nat \<Rightarrow> nat \<Rightarrow> nat \<Rightarrow> nat \<Rightarrow> bool" where
  "root_frac e p c k \<longleftrightarrow>
     (c * 2 ^ 64 + k) ^ e \<le> p * 2 ^ (64 * e) \<and> p * 2 ^ (64 * e) < (c * 2 ^ 64 + k + 1) ^ e \<and> k < 2 ^ 64"

text \<open>The first eighty primes.\<close>

definition small_primes :: "nat list" where
  "small_primes =
   [2, 3, 5, 7, 11, 13, 17, 19, 23, 29, 31, 37, 41, 43, 47, 53, 59, 61, 67, 71, 73, 79, 83, 89, 97, 101, 103, 107, 109, 113, 127, 131, 137, 139, 149, 151, 157, 163, 167, 173, 179, 181, 191, 193, 197, 199, 211, 223, 227, 229, 233, 239, 241, 251, 257, 263, 269, 271, 277, 281, 283, 293, 307, 311, 313, 317, 331, 337, 347, 349, 353, 359, 367, 373, 379, 383, 389, 397, 401, 409]"

definition int_root :: "nat \<Rightarrow> nat \<Rightarrow> nat" where
  "int_root e p = length (filter (\<lambda>c. c ^ e \<le> p) [1, 2, 3, 4, 5, 6, 7])"

lemma root_fracI: "int_root e p = c \<Longrightarrow> unat (w :: u64) = k \<Longrightarrow> root_frac e p c k \<Longrightarrow> root_frac e p (int_root e p) (unat w)"
  by simp

lemmas numeral_eval = power_numeral pow.simps sqr.simps arith_simps rel_simps simp_thms semiring_norm numeral_plus_one

text \<open>The literals are the constants of FIPS 180-4.\<close>

lemma sha512_initial: "list_all2 (\<lambda>p k. root_frac 2 p (int_root 2 p) (unat k)) (take 8 small_primes) seed512"
  unfolding small_primes_def seed512_def by (simp add: root_frac_def int_root_def)

lemma sha512_constants:
  "list_all2 (\<lambda>p k. root_frac 3 p (int_root 3 p) (unat k)) small_primes K512"
  unfolding small_primes_def K512_def concat.simps append.simps
  by (intro list.rel_intros; rule root_fracI, simp add: int_root_def, simp, unfold root_frac_def, simp only: numeral_eval)

end
