(* ===== verification/CkdPublic.thy ===== *)
theory CkdPublic
  imports OwnershipPaths
begin

text \<open>
  The public half of the reference derivation, from \<^verbatim>\<open>internal/circuit/ckd/public.go\<close>: extended
  public keys, \<open>XPubFromPrivate\<close> and \<open>DerivePublicChild\<close> with its byte loop that multiplies by
  eight. \<open>multiply_value\<close> is the value of that loop, \<open>public_child\<close> that deriving a soft child from
  the public key gives the public key of the private child.
\<close>

section \<open>Public derivation\<close>

text \<open>
  \<^verbatim>\<open>filippo.io/edwards25519\<close> is third-party code: scalars and points with the operations that the
  code calls. \<open>edwards_doc\<close> is their documented behaviour, with scalars as residues modulo the
  order of the base point.
\<close>

record 'pt edwards =
  ed_uniform :: "bytes \<Rightarrow> int option"
  ed_canonical :: "bytes \<Rightarrow> int option"
  ed_base :: "int \<Rightarrow> 'pt"
  ed_add :: "'pt \<Rightarrow> 'pt \<Rightarrow> 'pt"
  ed_bytes :: "'pt \<Rightarrow> bytes"
  ed_set :: "bytes \<Rightarrow> 'pt option"

definition ed_order :: int where
  "ed_order = 2 ^ 252 + 27742317777372353535851937790883648493"

definition edwards_doc :: "'pt edwards \<Rightarrow> bool" where
  "edwards_doc E \<longleftrightarrow>
     (\<forall>b. length b = 64 \<longrightarrow> ed_uniform E b = Some (leToInt b mod ed_order)) \<and>
     (\<forall>b. length b = 32 \<longrightarrow> ed_canonical E b = (if leToInt b < ed_order then Some (leToInt b) else None)) \<and>
     (\<forall>p. length (ed_bytes E p) = 32 \<and> ed_set E (ed_bytes E p) = Some p) \<and>
     (\<forall>a b. 0 \<le> a \<longrightarrow> a < ed_order \<longrightarrow> 0 \<le> b \<longrightarrow> b < ed_order \<longrightarrow>
        ed_add E (ed_base E a) (ed_base E b) = ed_base E ((a + b) mod ed_order))"

record XPub =
  PublicKey :: bytes
  ChainCode :: bytes

definition RootExt :: "bytes \<Rightarrow> Ext res" where
  "RootExt master96 =
     bind_r (fail_if (length master96 \<noteq> 96) ''master xprv length'') (\<lambda>_.
     Inr \<lparr>KL = take 32 master96, KR = take 32 (drop 32 master96), CC = take 32 (drop 64 master96)\<rparr>)"

definition DerivePrivateChild :: "(bytes \<Rightarrow> bytes option) \<Rightarrow> Ext \<Rightarrow> u32 \<Rightarrow> bool \<Rightarrow> Ext option" where
  "DerivePrivateChild pub par index hardened = derive_child pub par index hardened"

definition scalarFromLittleEndian :: "'pt edwards \<Rightarrow> bytes \<Rightarrow> int res" where
  "scalarFromLittleEndian E raw =
     bind_r (fail_if (length raw \<noteq> 32) ''scalar length'') (\<lambda>_.
     case ed_uniform E (raw @ replicate 32 0) of None \<Rightarrow> Inl (Err ''edwards25519'') | Some s \<Rightarrow> Inr s)"

definition XPubFromPrivate :: "'pt edwards \<Rightarrow> Ext \<Rightarrow> XPub res" where
  "XPubFromPrivate E private =
     bind_r (wrap ''decode private scalar'' (scalarFromLittleEndian E (KL private))) (\<lambda>scalar.
     Inr \<lparr>PublicKey = ed_bytes E (ed_base E scalar), ChainCode = CC private\<rparr>)"

definition hmacSHA512 :: "bytes \<Rightarrow> u8 \<Rightarrow> bytes \<Rightarrow> bytes \<Rightarrow> bytes" where
  "hmacSHA512 key tag publicKey index = hmac_sha512 key ([tag] @ publicKey @ index)"

text \<open>
  The loop over the bytes with its 16-bit carry. \<open>out\<close> has 32 entries; the carry goes to the entry
  after the last one when there is room.
\<close>

fun times_eight :: "u16 \<Rightarrow> bytes \<Rightarrow> bytes \<times> u16" where
  "times_eight carry [] = ([], carry)"
| "times_eight carry (v # raw) =
     (let shifted = push_bit 3 (ucast v) OR carry; (out, c) = times_eight (drop_bit 8 shifted) raw
      in (ucast shifted # out, c))"

definition multiplyLittleEndianByEight :: "bytes \<Rightarrow> bytes" where
  "multiplyLittleEndianByEight raw =
     (let (out, carry) = times_eight 0 raw
      in if length raw < 32 then out @ [ucast carry] @ replicate (31 - length raw) 0 else out)"

definition DerivePublicChild :: "'pt edwards \<Rightarrow> XPub \<Rightarrow> u32 \<Rightarrow> XPub res" where
  "DerivePublicChild E par index =
     bind_r (fail_if (index \<ge> 0x80000000) ''public child index must be < 2^31'') (\<lambda>_.
     let indexBytes = le32 index;
         z = hmacSHA512 (ChainCode par) 0x02 (PublicKey par) indexBytes;
         cc = hmacSHA512 (ChainCode par) 0x03 (PublicKey par) indexBytes
     in case ed_canonical E (multiplyLittleEndianByEight (take 28 z)) of
          None \<Rightarrow> Inl (Wrap ''decode public child tweak'' (Err ''edwards25519''))
        | Some tweak \<Rightarrow>
            (case ed_set E (PublicKey par) of
               None \<Rightarrow> Inl (Wrap ''decode parent public key'' (Err ''edwards25519''))
             | Some parentPoint \<Rightarrow>
                 Inr \<lparr>PublicKey = ed_bytes E (ed_add E parentPoint (ed_base E tweak)), ChainCode = take 32 (drop 32 cc)\<rparr>))"

section \<open>Eight times a little-endian number\<close>

lemma times_eight_value:
  assumes "uint carry < 8"
  shows "case times_eight carry raw of (out, c) \<Rightarrow> length out = length raw \<and> uint c < 8 \<and>
    leToInt out + 256 ^ length raw * uint c = 8 * leToInt raw + uint carry"
  using assms
proof (induction raw arbitrary: carry)
  case Nil
  then show ?case by (simp add: leToInt_def)
next
  case (Cons v raw)
  let ?s = "push_bit 3 (ucast v) OR carry :: u16"
  have v: "0 \<le> uint v" "uint v < 256" using unsigned_less [of v, where 'a = int] by simp_all
  have c: "0 \<le> uint carry" by simp
  have s: "uint ?s = 8 * uint v + uint carry"
  proof -
    have "uint (take_bit 3 carry) = uint carry"
      using Cons.prems c by (simp add: unsigned_take_bit_eq take_bit_int_eq_self)
    then have t: "take_bit 3 carry = carry" by (rule unsigned_word_eqI)
    have "\<not> (bit (push_bit 3 (ucast v) :: u16) n \<and> bit (take_bit 3 carry) n)" for n by (simp add: bit_simps)
    then have "push_bit 3 (ucast v) AND carry = (0 :: u16)" unfolding t by (intro bit_word_eqI) (simp add: bit_and_iff)
    then have "?s = push_bit 3 (ucast v) + carry" by (rule disjunctive_add_eq_or [symmetric])
    moreover have "push_bit 3 (ucast v) = (8 * ucast v :: u16)" by (simp add: push_bit_eq_mult)
    moreover have "uint (ucast v :: u16) = uint v" by (rule uint_ucast_up) simp
    ultimately show ?thesis using v Cons.prems c by (simp add: uint_word_ariths)
  qed
  have "take_bit 16 (8 * uint v + uint carry) = 8 * uint v + uint carry"
    using v Cons.prems c by (intro take_bit_int_eq_self) simp_all
  then have d: "uint (drop_bit 8 ?s) = (8 * uint v + uint carry) div 256"
    unfolding unsigned_drop_bit_eq s by (simp add: drop_bit_eq_div)
  have l: "uint (ucast ?s :: u8) = (8 * uint v + uint carry) mod 256" unfolding unsigned_ucast_eq s by (simp add: take_bit_eq_mod)
  have "uint (drop_bit 8 ?s) < 8" unfolding d using v Cons.prems by simp
  from Cons.IH [OF this] obtain out c' where o: "times_eight (drop_bit 8 ?s) raw = (out, c')" "length out = length raw" "uint c' < 8"
      "leToInt out + 256 ^ length raw * uint c' = 8 * leToInt raw + uint (drop_bit 8 ?s)"
    by (auto split: prod.splits)
  have "8 * uint v + uint carry = uint (ucast ?s :: u8) + 256 * uint (drop_bit 8 ?s)" unfolding l d by simp
  then show ?case using o by (simp add: leToInt_Cons Let_def algebra_simps)
qed

lemma leToInt_append: "leToInt (xs @ ys) = leToInt xs + 256 ^ length xs * leToInt ys"
  by (induction xs) (simp_all add: leToInt_Cons algebra_simps, simp add: leToInt_def)

lemma leToInt_replicate_0 [simp]: "leToInt (replicate n 0) = 0"
  by (induction n) (simp_all add: leToInt_Cons, simp add: leToInt_def)

lemma multiply_value:
  assumes "length raw < 32"
  shows "length (multiplyLittleEndianByEight raw) = 32 \<and> leToInt (multiplyLittleEndianByEight raw) = 8 * leToInt raw"
proof -
  obtain out c where o: "times_eight 0 raw = (out, c)" "length out = length raw" "uint c < 8" "leToInt out + 256 ^ length raw * uint c = 8 * leToInt raw"
    using times_eight_value [of 0 raw] by (auto split: prod.splits)
  have "uint (ucast c :: u8) = uint c" using o(3) by (simp add: unsigned_ucast_eq take_bit_eq_mod)
  then show ?thesis
    using o assms by (simp add: multiplyLittleEndianByEight_def leToInt_append leToInt_Cons)
qed


section \<open>Public and private derivation commute\<close>

text \<open>The library's key of a left half is the reference's.\<close>

definition library_key :: "'pt edwards \<Rightarrow> (bytes \<Rightarrow> bytes option) \<Rightarrow> bool" where
  "library_key E pub \<longleftrightarrow>
     (\<forall>kL. length kL = 32 \<longrightarrow> leToInt kL < 2 ^ 255 \<longrightarrow> pub kL = Some (ed_bytes E (ed_base E (leToInt kL mod ed_order))))"

definition ext_ok :: "Ext \<Rightarrow> bool" where
  "ext_ok e \<longleftrightarrow> length (KL e) = 32 \<and> leToInt (KL e) < 2 ^ 255"

lemma length_sha512 [simp]: "length (sha512 msg) = 64"
proof -
  have u: "length (unregs r) = 8" for r :: "u64 regs" by (simp add: unregs_def split: prod.splits)
  have "length (foldl (\<lambda>s block. sha_compress s (map word_be (chunks 8 block))) s bs) = 8" if "length s = 8" for s bs
    using that by (induction bs arbitrary: s) (simp_all add: sha_compress_def u)
  moreover have "length (concat (map be64 ws)) = 8 * length ws" for ws by (induction ws) (simp_all add: be64_def)
  ultimately show ?thesis by (simp add: sha512_def seed512_def)
qed

lemma length_hmac [simp]: "length (hmac_sha512 k m) = 64"
  by (simp add: hmac_sha512_def)

lemma intToLE32_value:
  assumes "0 \<le> v" and "intToLE32 v = Some b"
  shows "length b = 32 \<and> leToInt b = v"
proof -
  have v: "v < 2 ^ 256" using assms(2) by (auto simp: intToLE32_def split: if_splits)
  then have "b = u8s (bytes_of 32 v)" using intToLE32_u8s assms(2) by simp
  moreover have "bytes_ok (bytes_of 32 v)" "length (bytes_of 32 v) = 32" using bytes_of_ok by blast+
  ultimately show ?thesis using leToInt_u8s [of "bytes_of 32 v"] le_val_bytes_of [of v 32] assms(1) v by simp
qed

lemma XPubFromPrivate_value:
  assumes "edwards_doc E" and "ext_ok e"
  shows "XPubFromPrivate E e = Inr \<lparr>PublicKey = ed_bytes E (ed_base E (leToInt (KL e) mod ed_order)), ChainCode = CC e\<rparr>"
proof -
  have "ed_uniform E (KL e @ replicate 32 0) = Some (leToInt (KL e @ replicate 32 0) mod ed_order)"
    using assms by (simp add: edwards_doc_def ext_ok_def)
  then show ?thesis using assms(2) by (simp add: XPubFromPrivate_def scalarFromLittleEndian_def ext_ok_def leToInt_append fail_if_def)
qed

lemma derive_child_ok: "derive_child pub p i h = Some c \<Longrightarrow> ext_ok c"
proof -
  assume "derive_child pub p i h = Some c"
  then obtain data z where c: "z = leToInt (KL p) + 8 * leToInt (take 28 data)" "z < 2 ^ 255" "intToLE32 z = Some (KL c)"
    by (auto simp: derive_child_def Let_def bind_eq_Some_conv split: if_splits)
  then have "0 \<le> z" using leToInt_bounds [of "KL p"] leToInt_bounds [of "take 28 data"] by simp
  then show "ext_ok c" using intToLE32_value [OF _ c(3)] c(2) by (simp add: ext_ok_def)
qed

lemma ed_order_bounds: "2 ^ 252 < ed_order" "0 < ed_order"
  by (simp_all add: ed_order_def)

lemma public_child:
  assumes "edwards_doc E" and "library_key E pub" and "ext_ok p" and "index < 0x80000000"
    and "derive_child pub p index False = Some c" and "XPubFromPrivate E p = Inr xp"
  shows "DerivePublicChild E xp index = XPubFromPrivate E c"
proof -
  let ?s = "leToInt (KL p) mod ed_order" and ?A = "ed_bytes E (ed_base E (leToInt (KL p) mod ed_order))"
  let ?z = "hmac_sha512 (CC p) ([2] @ ?A @ le32 index)" and ?cc = "hmac_sha512 (CC p) ([3] @ ?A @ le32 index)"
  let ?t = "8 * leToInt (take 28 ?z)"
  have xp: "xp = \<lparr>PublicKey = ?A, ChainCode = CC p\<rparr>" using XPubFromPrivate_value [OF assms(1,3)] assms(6) by simp
  have key: "pub (KL p) = Some ?A" using assms(2,3) by (simp add: library_key_def ext_ok_def)
  have c: "intToLE32 (leToInt (KL p) + ?t) = Some (KL c)" "CC c = drop 32 ?cc"
    using assms(5) key by (auto simp: derive_child_def Let_def bind_eq_Some_conv)
  have t: "0 \<le> ?t" "?t < ed_order" using tweak_bound [of ?z] ed_order_bounds(1) by (simp_all add: ed_order_def)
  have kl: "leToInt (KL c) = leToInt (KL p) + ?t"
    using intToLE32_value [OF _ c(1)] leToInt_bounds [of "KL p"] t(1) by simp
  have m: "length (multiplyLittleEndianByEight (take 28 ?z)) = 32" "leToInt (multiplyLittleEndianByEight (take 28 ?z)) = ?t"
    using multiply_value [of "take 28 ?z"] by simp_all
  have "ed_canonical E (multiplyLittleEndianByEight (take 28 ?z)) = Some ?t"
    using assms(1) m t(2) by (simp add: edwards_doc_def)
  moreover have "ed_set E ?A = Some (ed_base E ?s)" using assms(1) by (simp add: edwards_doc_def)
  moreover have "ed_add E (ed_base E ?s) (ed_base E ?t) = ed_base E (leToInt (KL c) mod ed_order)"
    using assms(1) t ed_order_bounds(2) by (simp add: edwards_doc_def kl mod_simps)
  ultimately have "DerivePublicChild E xp index =
      Inr \<lparr>PublicKey = ed_bytes E (ed_base E (leToInt (KL c) mod ed_order)), ChainCode = take 32 (drop 32 ?cc)\<rparr>"
    using assms(4) by (simp add: DerivePublicChild_def xp hmacSHA512_def fail_if_def)
  moreover have "take 32 (drop 32 ?cc) = CC c" by (simp add: c(2))
  ultimately show ?thesis using XPubFromPrivate_value [OF assms(1) derive_child_ok [OF assms(5)]] by simp
qed

end
