(* ===== verification/Discovery.thy ===== *)
theory Discovery
  imports CkdPublic "HOL-Library.AList"
begin

text \<open>
  Credential discovery, from \<^verbatim>\<open>internal/circuit/ownership/discovery.go\<close>: the schedule of accounts,
  roles and index bands, the prepared branches, and the staged traversal with its early exit, its
  re-verification of every match and its aggregate progress. \<open>band_loop_covers\<close> says that the bands
  cut the range into consecutive pieces, \<open>DiscoverCredentialPaths_ok\<close> that what is found is derived,
  \<open>DiscoverCredentialPaths_exact\<close> that a run over a proper range finds exactly the targets it contains.
  The context is a function from the number of scanned candidates to its error.
\<close>

section \<open>Schedules\<close>

record indexBand =
  ib_start :: u32
  ib_end :: u32

fun band_loop :: "u32 \<Rightarrow> u32 \<Rightarrow> u32 list \<Rightarrow> indexBand list" where
  "band_loop maxIndex start [] = []"
| "band_loop maxIndex start (candidateEnd # ends) =
     (let e = (if candidateEnd > maxIndex then maxIndex else candidateEnd)
      in if e < start then band_loop maxIndex start ends
         else \<lparr>ib_start = start, ib_end = e\<rparr> # (if e = maxIndex \<or> e = - 1 then [] else band_loop maxIndex (e + 1) ends))"

definition discoveryIndexBands :: "SearchOptions \<Rightarrow> (indexBand list \<times> u64) res" where
  "discoveryIndexBands search =
     (if so_Index search \<ge> 0 then
        (if so_Index search \<ge> 2 ^ 31 then Inl (Err ''index outside allowed range'')
         else let v = word_of_int (so_Index search) in Inr ([\<lparr>ib_start = v, ib_end = v\<rparr>], 1))
      else Inr (band_loop (so_MaxIndex search) 0 [19, 99, so_MaxIndex search], ucast (so_MaxIndex search) + 1))"

definition discovery_roles :: "int \<Rightarrow> u32 list res" where
  "discovery_roles role =
     (if role = - 1 then Inr [0, 1, 2]
      else if role \<in> {0, 1, 2} then Inr [word_of_int role]
      else if role = 3 then Inl (Err ''role 3 is the DRep role but is not supported by the deployed proof circuit'')
      else Inl (Err ''role outside deployed proof-circuit role range 0..2''))"

definition discoverySchedule :: "SearchOptions \<Rightarrow> (u32 list \<times> u32 list \<times> indexBand list \<times> u64) res option" where
  "discoverySchedule search =
     bind_scan (scanValues (so_Account search) 0 (so_MaxAccount search) 0x7FFFFFFF) (\<lambda>accounts.
     Some (bind_r (discovery_roles (so_Role search)) (\<lambda>roles.
       bind_r (discoveryIndexBands search) (\<lambda>(bands, indexCount).
       Inr (accounts, roles, bands, of_nat (length accounts) * of_nat (length roles) * indexCount)))))"

lemma unat_Suc:
  assumes "i \<noteq> (- 1 :: u32)"
  shows "unat (i + 1) = Suc (unat i)"
proof -
  have "unat i \<noteq> unat (- 1 :: u32)" using assms by (simp add: word_unat_eq_iff)
  moreover have "unat i < 2 ^ LENGTH(32)" by (rule unsigned_less)
  ultimately have "unat i < 2 ^ 32 - 1" by (simp add: unsigned_minus_1_eq_mask mask_eq_exp_minus_1)
  then show ?thesis by (simp add: unat_word_ariths)
qed

text \<open>The loop over a band, with its guard against the wrap of \<^verbatim>\<open>index++\<close>.\<close>

function band_values :: "u32 \<Rightarrow> u32 \<Rightarrow> u32 list" where
  "band_values index e =
     (if index \<le> e then index # (if index = - 1 then [] else band_values (index + 1) e) else [])"
  by pat_completeness auto

termination
proof (relation "measure (\<lambda>(i, e). 2 ^ 32 - unat i)")
  fix i e :: u32 assume "i \<noteq> - 1"
  then have "unat (i + 1) = Suc (unat i)" by (rule unat_Suc)
  moreover have "unat i < 2 ^ LENGTH(32)" by (rule unsigned_less)
  ultimately show "((i + 1, e), i, e) \<in> measure (\<lambda>(i, e). 2 ^ 32 - unat i)" by simp
qed simp

declare band_values.simps [simp del]

lemma band_values_upt: "band_values i e = map word_of_nat [unat i..<Suc (unat e)]"
proof (induction i e rule: band_values.induct)
  case (1 i e)
  show ?case
  proof (cases "i \<le> e")
    case True
    then have u: "unat i \<le> unat e" by (simp add: word_le_nat_alt)
    show ?thesis
    proof (cases "i = - 1")
      case True
      have "unat e < 2 ^ LENGTH(32)" by (rule unsigned_less)
      then have "unat e = unat i" using u True by (simp add: unsigned_minus_1_eq_mask mask_eq_exp_minus_1)
      then show ?thesis using True u by (subst band_values.simps) (simp add: word_le_nat_alt)
    next
      case False
      then show ?thesis using 1 True u unat_Suc [OF False]
        by (subst band_values.simps) (simp add: upt_conv_Cons [of "unat i"] del: upt_Suc)
    qed
  next
    case False
    then have "unat e < unat i" by (simp add: word_le_nat_alt)
    then show ?thesis using False by (subst band_values.simps) simp
  qed
qed

lemma upt_append: "i \<le> j \<Longrightarrow> j \<le> k \<Longrightarrow> [i..<j] @ [j..<k] = [i..<k]"
  using upt_add_eq_append [of i j "k - j"] by simp

text \<open>The bands cut the searched range into consecutive pieces, for any list of cut points before the last one.\<close>

lemma band_loop_covers:
  assumes "start \<le> maxIndex"
  shows "concat (map (\<lambda>b. [unat (ib_start b)..<Suc (unat (ib_end b))]) (band_loop maxIndex start (ends @ [maxIndex]))) =
    [unat start..<Suc (unat maxIndex)]"
  using assms
proof (induction ends arbitrary: start)
  case Nil
  then show ?case by (auto simp: Let_def not_less)
next
  case (Cons c ends)
  define e where "e = (if c > maxIndex then maxIndex else c)"
  have em: "e \<le> maxIndex" by (auto simp: e_def)
  show ?case
  proof (cases "e < start")
    case True
    then show ?thesis using Cons by (simp add: Let_def flip: e_def)
  next
    case False
    then have se: "unat start \<le> unat e" "unat e \<le> unat maxIndex" using em by (simp_all add: word_le_nat_alt not_less)
    show ?thesis
    proof (cases "e = maxIndex")
      case True
      then show ?thesis using False by (simp add: Let_def flip: e_def)
    next
      case ne: False
      then have "e < maxIndex" using em by simp
      then have n1: "e \<noteq> - 1" and le: "e + 1 \<le> maxIndex"
        using inc_le by (auto simp: word_le_nat_alt) 
      have "[unat start..<Suc (unat e)] @ [Suc (unat e)..<Suc (unat maxIndex)] = [unat start..<Suc (unat maxIndex)]"
        using se by (intro upt_append) simp_all
      then show ?thesis using False ne n1 Cons.IH [OF le] unat_Suc [OF n1] by (simp add: Let_def del: upt_Suc flip: e_def)
    qed
  qed
qed


section \<open>The traversal\<close>

record discoveryBranch =
  db_account :: u32
  db_role :: u32
  db_parent :: XPub

fun mapr :: "('a \<Rightarrow> 'b res) \<Rightarrow> 'a list \<Rightarrow> 'b list res" where
  "mapr f [] = Inr []"
| "mapr f (x # xs) = bind_r (f x) (\<lambda>y. bind_r (mapr f xs) (\<lambda>ys. Inr (y # ys)))"

definition account_public :: "(bytes \<Rightarrow> bytes option) \<Rightarrow> 'pt edwards \<Rightarrow> Ext \<Rightarrow> u32 \<Rightarrow> XPub res" where
  "account_public pub E coin account =
     bind_r (no_panic (DerivePrivateChild pub coin (0x80000000 OR account) True)) (\<lambda>accountPrivate.
     wrap ''derive account public key'' (XPubFromPrivate E accountPrivate))"

definition prepareDiscoveryBranches ::
    "(bytes \<Rightarrow> bytes option) \<Rightarrow> 'pt edwards \<Rightarrow> bytes \<Rightarrow> u32 list \<Rightarrow> u32 list \<Rightarrow> discoveryBranch list res" where
  "prepareDiscoveryBranches pub E masterXPrv accounts roles =
     bind_r (RootExt masterXPrv) (\<lambda>root.
     bind_r (no_panic (DerivePrivateChild pub root (0x80000000 OR 1852) True)) (\<lambda>purpose.
     bind_r (no_panic (DerivePrivateChild pub purpose (0x80000000 OR 1815) True)) (\<lambda>coin.
     bind_r (mapr (\<lambda>account. bind_r (account_public pub E coin account) (\<lambda>x. Inr (account, x))) accounts) (\<lambda>byAccount.
     mapr (\<lambda>(role, account, x).
        bind_r (wrap ''derive credential role public key'' (DerivePublicChild E x role)) (\<lambda>rolePublic.
        Inr \<lparr>db_account = account, db_role = role, db_parent = rolePublic\<rparr>))
       (concat (map (\<lambda>role. map (Pair role) byAccount) roles))))))"

type_synonym progress = "u64 \<times> u64 \<times> u64 \<times> u64"

record discovery =
  ds_scanned :: u64
  ds_remaining :: "bytes list"
  ds_found :: "(bytes \<times> Path) list"
  ds_progress :: "progress list"

text \<open>The outcome: the map, the error if any, and the aggregate progress that was reported (scanned, total, matched, targets).\<close>

type_synonym outcome = "(bytes \<times> Path) list \<times> err option \<times> progress list"

definition emitDiscoveryProgress :: "u64 \<Rightarrow> discovery \<Rightarrow> discovery" where
  "emitDiscoveryProgress tot st = st\<lparr>ds_progress := ds_progress st @
     [(ds_scanned st, tot, of_nat (length (ds_found st)), of_nat (length (ds_remaining st) + length (ds_found st)))]\<rparr>"

definition stop_error :: "discovery \<Rightarrow> err \<Rightarrow> outcome + discovery" where
  "stop_error st e = Inl ([], Some e, ds_progress st)"

definition discover_step ::
    "blake \<Rightarrow> (bytes \<Rightarrow> bytes option) \<Rightarrow> 'pt edwards \<Rightarrow> (u64 \<Rightarrow> err option) \<Rightarrow> bytes \<Rightarrow> u64 \<Rightarrow> u64 \<Rightarrow>
     discovery \<Rightarrow> u32 \<times> discoveryBranch \<Rightarrow> outcome + discovery" where
  "discover_step H pub E ctx masterXPrv progressEvery tot st c =
     (case c of (index, branch) \<Rightarrow>
      case ctx (ds_scanned st) of
        Some e \<Rightarrow> stop_error st e
      | None \<Rightarrow>
      case DerivePublicChild E (db_parent branch) index of
        Inl e \<Rightarrow> stop_error st (Wrap ''derive credential candidate'' e)
      | Inr child \<Rightarrow>
          let credential = H 28 (PublicKey child);
              st = st\<lparr>ds_scanned := ds_scanned st + 1\<rparr>;
              tick = (\<lambda>st. Inr (if ds_scanned st mod progressEvery = 0 then emitDiscoveryProgress tot st else st))
          in if credential \<in> set (ds_remaining st) then
               let path = \<lparr>Account = db_account branch, Role = db_role branch, Index = index\<rparr>
               in case DeriveCredential H pub masterXPrv path of
                    Inl e \<Rightarrow> stop_error st (Wrap ''re-verify discovered path'' e)
                  | Inr canonical \<Rightarrow>
                      if canonical \<noteq> credential then
                        stop_error st (Err ''optimized discovery disagreed with canonical credential derivation'')
                      else
                        let st = st\<lparr>ds_found := AList.update credential path (ds_found st),
                                    ds_remaining := removeAll credential (ds_remaining st)\<rparr>
                        in if ds_remaining st = [] then
                             let st = emitDiscoveryProgress tot st in Inl (ds_found st, None, ds_progress st)
                           else tick st
             else tick st)"

fun discover_all :: "('s \<Rightarrow> 'c \<Rightarrow> 'r + 's) \<Rightarrow> 's \<Rightarrow> 'c list \<Rightarrow> 'r + 's" where
  "discover_all f st [] = Inr st"
| "discover_all f st (c # cs) = (case f st c of Inl r \<Rightarrow> Inl r | Inr st' \<Rightarrow> discover_all f st' cs)"

definition band_candidates :: "discoveryBranch list \<Rightarrow> indexBand \<Rightarrow> (u32 \<times> discoveryBranch) list" where
  "band_candidates branches band = concat (map (\<lambda>index. map (Pair index) branches) (band_values (ib_start band) (ib_end band)))"

definition discover_band ::
    "blake \<Rightarrow> (bytes \<Rightarrow> bytes option) \<Rightarrow> 'pt edwards \<Rightarrow> (u64 \<Rightarrow> err option) \<Rightarrow> bytes \<Rightarrow> u64 \<Rightarrow> u64 \<Rightarrow> discoveryBranch list \<Rightarrow>
     discovery \<Rightarrow> indexBand \<Rightarrow> outcome + discovery" where
  "discover_band H pub E ctx masterXPrv progressEvery tot branches st band =
     map_sum id (emitDiscoveryProgress tot)
       (discover_all (discover_step H pub E ctx masterXPrv progressEvery tot) st (band_candidates branches band))"

text \<open>The loops over bands, indexes and branches, and the end of the search.\<close>

definition discover_bands ::
    "blake \<Rightarrow> (bytes \<Rightarrow> bytes option) \<Rightarrow> 'pt edwards \<Rightarrow> (u64 \<Rightarrow> err option) \<Rightarrow> bytes \<Rightarrow> u64 \<Rightarrow> u64 \<Rightarrow> discoveryBranch list \<Rightarrow>
     bytes list \<Rightarrow> indexBand list \<Rightarrow> outcome" where
  "discover_bands H pub E ctx masterXPrv progressEvery tot branches remaining bands =
     (let every = (if progressEvery = 0 then 32 else progressEvery);
          st = emitDiscoveryProgress tot \<lparr>ds_scanned = 0, ds_remaining = remaining, ds_found = [], ds_progress = []\<rparr>
      in case discover_all (discover_band H pub E ctx masterXPrv every tot branches) st bands of
           Inl r \<Rightarrow> r
         | Inr st \<Rightarrow> (ds_found st, Some (Err ''one or more credentials were not found''), ds_progress st))"

definition DiscoverCredentialPaths ::
    "blake \<Rightarrow> (bytes \<Rightarrow> bytes option) \<Rightarrow> 'pt edwards \<Rightarrow> (u64 \<Rightarrow> err option) \<Rightarrow> bytes \<Rightarrow> bytes list \<Rightarrow> SearchOptions \<Rightarrow> u64 \<Rightarrow>
     outcome option" where
  "DiscoverCredentialPaths H pub E ctx masterXPrv targetCredentials search progressEvery =
     (if length masterXPrv \<noteq> 96 then Some ([], Some (Err ''master xprv length''), [])
      else if \<not> list_all (\<lambda>raw. length raw = 28) targetCredentials then Some ([], Some (Err ''target credential length''), [])
      else
        let remaining = remdups targetCredentials
        in if remaining = [] then Some ([], None, [])
           else (case discoverySchedule search of
               None \<Rightarrow> None
             | Some (Inl e) \<Rightarrow> Some ([], Some e, [])
             | Some (Inr (accounts, roles, bands, tot)) \<Rightarrow>
                 (case prepareDiscoveryBranches pub E masterXPrv accounts roles of
                    Inl e \<Rightarrow> Some ([], Some e, [])
                  | Inr branches \<Rightarrow> Some (discover_bands H pub E ctx masterXPrv progressEvery tot branches remaining bands))))"

definition DiscoverCredentialPath ::
    "blake \<Rightarrow> (bytes \<Rightarrow> bytes option) \<Rightarrow> 'pt edwards \<Rightarrow> (u64 \<Rightarrow> err option) \<Rightarrow> bytes \<Rightarrow> bytes \<Rightarrow> SearchOptions \<Rightarrow> u64 \<Rightarrow> Path res option" where
  "DiscoverCredentialPath H pub E ctx masterXPrv targetCredential search progressEvery =
     map_option (\<lambda>(paths, e, _).
       case e of
         Some e \<Rightarrow> Inl e
       | None \<Rightarrow> (case map_of paths targetCredential of
           None \<Rightarrow> Inl (Err ''one or more credentials were not found'')
         | Some path \<Rightarrow> Inr path))
     (DiscoverCredentialPaths H pub E ctx masterXPrv [targetCredential] search progressEvery)"

definition DiscoverPaymentPaths ::
    "blake \<Rightarrow> (bytes \<Rightarrow> bytes option) \<Rightarrow> 'pt edwards \<Rightarrow> (u64 \<Rightarrow> err option) \<Rightarrow> bytes \<Rightarrow> bytes list \<Rightarrow> SearchOptions \<Rightarrow> u64 \<Rightarrow>
     outcome option" where
  "DiscoverPaymentPaths = DiscoverCredentialPaths"

section \<open>What is found is verified\<close>

definition found_ok :: "(bytes \<Rightarrow> Path \<Rightarrow> bool) \<Rightarrow> bytes list \<Rightarrow> (bytes \<times> Path) list \<Rightarrow> bytes list \<Rightarrow> bool" where
  "found_ok R targets found remaining \<longleftrightarrow> distinct (map fst found) \<and> (\<forall>(c, p) \<in> set found. R c p) \<and>
     set (map fst found) \<union> set remaining = set targets \<and> set (map fst found) \<inter> set remaining = {}"

definition search_ok :: "(bytes \<Rightarrow> Path \<Rightarrow> bool) \<Rightarrow> bytes list \<Rightarrow> discovery \<Rightarrow> bool" where
  "search_ok R targets st \<longleftrightarrow> found_ok R targets (ds_found st) (ds_remaining st)"

definition outcome_ok :: "(bytes \<Rightarrow> Path \<Rightarrow> bool) \<Rightarrow> bytes list \<Rightarrow> outcome \<Rightarrow> bool" where
  "outcome_ok R targets r \<longleftrightarrow> (case r of (found, e, _) \<Rightarrow> distinct (map fst found) \<and> (\<forall>(c, p) \<in> set found. R c p) \<and>
     set (map fst found) \<subseteq> set targets \<and> (e = None \<longrightarrow> set (map fst found) = set targets))"

lemma emit_simps [simp]:
  "ds_found (emitDiscoveryProgress tot st) = ds_found st" "ds_remaining (emitDiscoveryProgress tot st) = ds_remaining st"
  by (simp_all add: emitDiscoveryProgress_def)

lemma discover_all_inv:
  assumes "\<And>st c. I st \<Longrightarrow> c \<in> set cs \<Longrightarrow> case f st c of Inl r \<Rightarrow> Q r | Inr st' \<Rightarrow> I st'" and "I st"
  shows "case discover_all f st cs of Inl r \<Rightarrow> Q r | Inr st' \<Rightarrow> I st'"
  using assms
proof (induction cs arbitrary: st)
  case (Cons c cs)
  have c: "case f st c of Inl r \<Rightarrow> Q r | Inr st' \<Rightarrow> I st'" using Cons.prems by simp
  show ?case
  proof (cases "f st c")
    case (Inr st')
    then show ?thesis using c Cons.IH [of st'] Cons.prems(1) by simp
  qed (use c in simp)
qed simp

lemma found_ok_add:
  assumes "found_ok R targets found remaining" and "c \<in> set remaining" and "R c p"
  shows "found_ok R targets (AList.update c p found) (removeAll c remaining)"
proof -
  have n: "c \<notin> set (map fst found)" using assms(1,2) by (auto simp: found_ok_def)
  have "AList.update c p xs = xs @ [(c, p)]" if "c \<notin> set (map fst xs)" for xs
    using that by (induction xs) auto
  from this [OF n] have "AList.update c p found = found @ [(c, p)]" .
  then show ?thesis using assms n by (auto simp: found_ok_def)
qed

lemma discover_step_ok:
  assumes "search_ok (\<lambda>c p. DeriveCredential H pub m p = Inr c \<and> W p) targets st"
    and "W \<lparr>Account = db_account (snd c), Role = db_role (snd c), Index = fst c\<rparr>"
  shows "case discover_step H pub E ctx m every tot st c of
      Inl r \<Rightarrow> outcome_ok (\<lambda>c p. DeriveCredential H pub m p = Inr c \<and> W p) targets r
    | Inr st' \<Rightarrow> search_ok (\<lambda>c p. DeriveCredential H pub m p = Inr c \<and> W p) targets st'"
proof -
  define R where "R = (\<lambda>c p. DeriveCredential H pub m p = Inr c \<and> W p)"
  obtain index branch where c: "c = (index, branch)" by (cases c)
  note add = found_ok_add [OF assms(1) [folded R_def, unfolded search_ok_def]]
  have ok: "outcome_ok R targets (f, None, p)" if "found_ok R targets f []" for f p
    using that by (simp add: outcome_ok_def found_ok_def)
  have W: "DeriveCredential H pub m \<lparr>Account = db_account branch, Role = db_role branch, Index = index\<rparr> = Inr t \<Longrightarrow>
      R t \<lparr>Account = db_account branch, Role = db_role branch, Index = index\<rparr>" for t using assms(2) by (simp add: c R_def)
  show ?thesis
    using assms(1) add ok W unfolding R_def [symmetric]
    by (simp add: c discover_step_def search_ok_def Let_def stop_error_def outcome_ok_def split: option.splits sum.splits)
      metis
qed

text \<open>
  Every path that discovery returns derives its credential and has every property \<open>W\<close> of the
  candidates, and a run without an error found every target.
\<close>

lemma discover_bands_ok:
  assumes "\<And>band i b. band \<in> set bands \<Longrightarrow> b \<in> set branches \<Longrightarrow> i \<in> set (band_values (ib_start band) (ib_end band)) \<Longrightarrow>
      W \<lparr>Account = db_account b, Role = db_role b, Index = i\<rparr>"
  shows "outcome_ok (\<lambda>c p. DeriveCredential H pub m p = Inr c \<and> W p) targets
    (discover_bands H pub E ctx m every tot branches (remdups targets) bands)"
proof -
  let ?R = "\<lambda>c p. DeriveCredential H pub m p = Inr c \<and> W p"
  let ?e = "if every = 0 then 32 else every"
  let ?st = "emitDiscoveryProgress tot \<lparr>ds_scanned = 0, ds_remaining = remdups targets, ds_found = [], ds_progress = []\<rparr>"
  have i: "search_ok ?R targets ?st" by (simp add: search_ok_def found_ok_def)
  have b: "case discover_band H pub E ctx m ?e tot branches st band of Inl r \<Rightarrow> outcome_ok ?R targets r | Inr st' \<Rightarrow> search_ok ?R targets st'"
    if "search_ok ?R targets st" "band \<in> set bands" for st band
  proof -
    have W: "W \<lparr>Account = db_account (snd c), Role = db_role (snd c), Index = fst c\<rparr>" if "c \<in> set (band_candidates branches band)" for c
      using that assms [OF \<open>band \<in> set bands\<close>] by (auto simp: band_candidates_def)
    have "case discover_all (discover_step H pub E ctx m ?e tot) st (band_candidates branches band) of
        Inl r \<Rightarrow> outcome_ok ?R targets r | Inr st' \<Rightarrow> search_ok ?R targets st'"
      by (rule discover_all_inv [where I = "search_ok ?R targets" and Q = "outcome_ok ?R targets", OF _ that(1)]) (rule discover_step_ok [where W = W, OF _ W])
    then show ?thesis by (auto simp: discover_band_def search_ok_def split: sum.splits)
  qed
  define run where "run = discover_all (discover_band H pub E ctx m ?e tot branches) ?st bands"
  have r: "case run of Inl r \<Rightarrow> outcome_ok ?R targets r | Inr st' \<Rightarrow> search_ok ?R targets st'"
    unfolding run_def by (rule discover_all_inv [where I = "search_ok ?R targets" and Q = "outcome_ok ?R targets", OF b i])
  have fin: "outcome_ok ?R targets (ds_found st, Some e, p)" if "search_ok ?R targets st" for st e p
    using that by (auto simp: outcome_ok_def search_ok_def found_ok_def)
  show ?thesis
    unfolding discover_bands_def Let_def run_def [symmetric] using r fin by (cases run) simp_all
qed

lemma DiscoverCredentialPaths_ok:
  assumes "DiscoverCredentialPaths H pub E ctx m targets search every = Some r"
  shows "outcome_ok (\<lambda>c p. DeriveCredential H pub m p = Inr c) targets r"
proof -
  consider (err) e where "r = ([], Some e, [])" | (none) "targets = []" "r = ([], None, [])"
    | (run) tot branches bands where "r = discover_bands H pub E ctx m every tot branches (remdups targets) bands"
    using assms unfolding DiscoverCredentialPaths_def Let_def
    by (auto split: if_splits option.splits sum.splits)
  then show ?thesis
  proof cases
    case run
    then show ?thesis using discover_bands_ok [of bands branches "\<lambda>_. True"] by simp
  qed (simp_all add: outcome_ok_def)
qed


section \<open>Discovery is complete\<close>

text \<open>From a clamped master every derivation of a valid path succeeds, in both ways.\<close>

lemma derive_child_total:
  assumes "leToInt (KL p) + 2 ^ 227 \<le> 2 ^ 255" and "h \<or> pub (KL p) \<noteq> None"
  shows "\<exists>c. derive_child pub p i h = Some c \<and> leToInt (KL c) \<le> leToInt (KL p) + 2 ^ 227"
proof -
  obtain data where d: "(if h then Some (KL p @ KR p) else pub (KL p)) = Some data" using assms(2) by (cases h) auto
  let ?z = "hmac_sha512 (CC p) ([if h then 0 else 2] @ data @ le32 i)"
  let ?kl = "leToInt (KL p) + 8 * leToInt (take 28 ?z)"
  have kl: "0 \<le> ?kl" "?kl < 2 ^ 255" "?kl \<le> leToInt (KL p) + 2 ^ 227"
    using tweak_bound [of ?z] leToInt_bounds [of "KL p"] assms(1) by linarith+
  then have "?kl < 2 ^ 256" by simp
  then obtain kl where k: "intToLE32 ?kl = Some kl" by (simp add: intToLE32_def)
  have "\<exists>kr. intToLE32 (x mod 2 ^ 256) = Some kr" for x by (auto simp: intToLE32_def)
  then obtain kr where r: "intToLE32 ((leToInt (KR p) + leToInt (drop 32 ?z)) mod 2 ^ 256) = Some kr" by blast
  have "leToInt kl = ?kl" using intToLE32_value [OF kl(1) k] by simp
  then show ?thesis using d kl k r by (cases h) (simp_all add: derive_child_def Let_def)
qed

definition master_ext :: "bytes \<Rightarrow> Ext" where
  "master_ext m = \<lparr>KL = take 32 m, KR = take 32 (drop 32 m), CC = take 32 (drop 64 m)\<rparr>"

text \<open>The chain of a path, level by level, with the bound on each left half.\<close>

lemma derivation_levels:
  assumes "library_key E pub" and "length m = 96" and "clamped (leToInt (take 32 m))"
  shows "\<exists>purpose coin. derive_child pub (master_ext m) (0x80000000 OR 1852) True = Some purpose \<and>
     derive_child pub purpose (0x80000000 OR 1815) True = Some coin \<and>
     (\<forall>a. \<exists>acc. derive_child pub coin (0x80000000 OR a) True = Some acc \<and> ext_ok acc \<and>
        (\<forall>r. \<exists>rk. derive_child pub acc r False = Some rk \<and> ext_ok rk \<and>
           (\<forall>i. \<exists>leaf. derive_child pub rk i False = Some leaf \<and> ext_ok leaf \<and>
              derive_ref pub m a r i = Some leaf)))"
proof -
  let ?B = "\<lambda>n p. leToInt (KL p) \<le> 2 ^ 254 + 2 ^ 253 + n * 2 ^ 227"
  have step: "\<exists>c. derive_child pub p i h = Some c \<and> ?B (n + 1) c \<and> ext_ok c"
    if "?B n p" "n \<le> 4" "h \<or> ext_ok p" for n p i h
  proof -
    have b: "leToInt (KL p) + 2 ^ 227 \<le> 2 ^ 255" using that(1,2) by simp
    have k: "h \<or> pub (KL p) \<noteq> None" using that(3) assms(1) by (auto simp: library_key_def ext_ok_def)
    from derive_child_total [of p h pub i, OF b k] obtain c where c: "derive_child pub p i h = Some c" "leToInt (KL c) \<le> leToInt (KL p) + 2 ^ 227" by blast
    then show ?thesis using that(1) derive_child_ok [OF c(1)] by (auto simp: algebra_simps)
  qed
  have m0: "?B 0 (master_ext m)" using assms(3) by (simp add: master_ext_def clamped_def)
  obtain purpose where p: "derive_child pub (master_ext m) (0x80000000 OR 1852) True = Some purpose" "?B 1 purpose"
    using step [OF m0, of True] by auto
  obtain coin where c: "derive_child pub purpose (0x80000000 OR 1815) True = Some coin" "?B 2 coin"
    using step [OF p(2), of True] by auto
  have "\<exists>acc. derive_child pub coin (0x80000000 OR a) True = Some acc \<and> ext_ok acc \<and>
        (\<forall>r. \<exists>rk. derive_child pub acc r False = Some rk \<and> ext_ok rk \<and>
           (\<forall>i. \<exists>leaf. derive_child pub rk i False = Some leaf \<and> ext_ok leaf \<and> derive_ref pub m a r i = Some leaf))" for a
  proof -
    obtain acc where a: "derive_child pub coin (0x80000000 OR a) True = Some acc" "?B 3 acc" "ext_ok acc"
      using step [OF c(2), of True] by auto
    have "\<exists>rk. derive_child pub acc r False = Some rk \<and> ext_ok rk \<and>
           (\<forall>i. \<exists>leaf. derive_child pub rk i False = Some leaf \<and> ext_ok leaf \<and> derive_ref pub m a r i = Some leaf)" for r
    proof -
      obtain rk where r: "derive_child pub acc r False = Some rk" "?B 4 rk" "ext_ok rk"
        using step [OF a(2), of False] a(3) by auto
      have "\<exists>leaf. derive_child pub rk i False = Some leaf \<and> ext_ok leaf \<and> derive_ref pub m a r i = Some leaf" for i
      proof -
        obtain leaf where l: "derive_child pub rk i False = Some leaf" "ext_ok leaf"
          using step [OF r(2), of False] r(3) by auto
        have "derive_levels pub m a r i = Some [purpose, coin, acc, rk, leaf]"
          by (rule derive_levels_five [OF assms(2) p(1) [unfolded master_ext_def] c(1) a(1) r(1) l(1)])
        then show ?thesis using l by (simp add: derive_ref_def)
      qed
      then show ?thesis using r by blast
    qed
    then show ?thesis using a by blast
  qed
  then show ?thesis using p(1) c(1) by blast
qed

lemma mapr_all: "\<forall>x \<in> set xs. f x = Inr (g x) \<Longrightarrow> mapr f xs = Inr (map g xs)"
  by (induction xs) simp_all

text \<open>The branches of the schedule are prepared, and a candidate's key hashes to the credential of its path.\<close>

definition candidate_ok :: "blake \<Rightarrow> (bytes \<Rightarrow> bytes option) \<Rightarrow> 'pt edwards \<Rightarrow> bytes \<Rightarrow> u32 \<times> discoveryBranch \<Rightarrow> bool" where
  "candidate_ok H pub E m c \<longleftrightarrow> (\<exists>child. DerivePublicChild E (db_parent (snd c)) (fst c) = Inr child \<and>
     DeriveCredential H pub m \<lparr>Account = db_account (snd c), Role = db_role (snd c), Index = fst c\<rparr> = Inr (H 28 (PublicKey child)))"

lemma prepared_branches:
  assumes "edwards_doc E" and "library_key E pub" and "length m = 96" and "clamped (leToInt (take 32 m))"
    and "\<forall>a \<in> set accounts. a < 0x80000000" and "set roles \<subseteq> {0, 1, 2}"
  shows "\<exists>branches. prepareDiscoveryBranches pub E m accounts roles = Inr branches \<and>
     (\<forall>a \<in> set accounts. \<forall>r \<in> set roles. \<exists>b \<in> set branches. db_account b = a \<and> db_role b = r) \<and>
     (\<forall>b \<in> set branches. db_account b \<in> set accounts \<and> db_role b \<in> set roles) \<and>
     (\<forall>b \<in> set branches. \<forall>i < 0x80000000. candidate_ok H pub E m (i, b))"
proof -
  obtain purpose coin where pc: "derive_child pub (master_ext m) (0x80000000 OR 1852) True = Some purpose"
      "derive_child pub purpose (0x80000000 OR 1815) True = Some coin"
      and lv: "\<forall>a. \<exists>acc. derive_child pub coin (0x80000000 OR a) True = Some acc \<and> ext_ok acc \<and>
        (\<forall>r. \<exists>rk. derive_child pub acc r False = Some rk \<and> ext_ok rk \<and>
           (\<forall>i. \<exists>leaf. derive_child pub rk i False = Some leaf \<and> ext_ok leaf \<and> derive_ref pub m a r i = Some leaf))"
    using derivation_levels [OF assms(2-4)] by blast
  obtain acc where acc: "\<And>a. derive_child pub coin (0x80000000 OR a) True = Some (acc a)" "\<And>a. ext_ok (acc a)"
      and lv2: "\<forall>a r. \<exists>rk. derive_child pub (acc a) r False = Some rk \<and> ext_ok rk \<and>
           (\<forall>i. \<exists>leaf. derive_child pub rk i False = Some leaf \<and> ext_ok leaf \<and> derive_ref pub m a r i = Some leaf)"
    using lv by metis
  obtain rk where rk: "\<And>a r. derive_child pub (acc a) r False = Some (rk a r)" "\<And>a r. ext_ok (rk a r)"
      and lv3: "\<forall>a r i. \<exists>leaf. derive_child pub (rk a r) i False = Some leaf \<and> ext_ok leaf \<and> derive_ref pub m a r i = Some leaf"
    using lv2 by metis
  obtain leaf where leaf: "\<And>a r i. derive_child pub (rk a r) i False = Some (leaf a r i)" "\<And>a r i. ext_ok (leaf a r i)"
      "\<And>a r i. derive_ref pub m a r i = Some (leaf a r i)"
    using lv3 by metis
  define xp where "xp e = \<lparr>PublicKey = ed_bytes E (ed_base E (leToInt (KL e) mod ed_order)), ChainCode = CC e\<rparr>" for e :: Ext
  have xp: "XPubFromPrivate E e = Inr (xp e)" if "ext_ok e" for e
    using XPubFromPrivate_value [OF assms(1) that] by (simp add: xp_def)
  have r31: "r < 0x80000000" if "r \<in> set roles" for r using that assms(6) by auto
  have role: "DerivePublicChild E (xp (acc a)) r = Inr (xp (rk a r))" if "r \<in> set roles" for a r
    using public_child [OF assms(1,2) acc(2) r31 [OF that] rk(1) xp [OF acc(2)]] xp [OF rk(2)] by simp
  have idx: "DerivePublicChild E (xp (rk a r)) i = Inr (xp (leaf a r i))" if "i < 0x80000000" for a r i
    using public_child [OF assms(1,2) rk(2) that leaf(1) xp [OF rk(2)]] xp [OF leaf(2)] by simp
  let ?by = "map (\<lambda>a. (a, xp (acc a))) accounts"
  let ?br = "map (\<lambda>(r, a, x). \<lparr>db_account = a, db_role = r, db_parent = xp (rk a r)\<rparr>) (concat (map (\<lambda>r. map (Pair r) ?by) roles))"
  have byA: "mapr (\<lambda>account. bind_r (account_public pub E coin account) (\<lambda>x. Inr (account, x))) accounts = Inr ?by"
    by (rule mapr_all) (simp add: account_public_def DerivePrivateChild_def acc(1) no_panic_def xp [OF acc(2)])
  have br: "mapr (\<lambda>(role, account, x). bind_r (wrap ''derive credential role public key'' (DerivePublicChild E x role)) (\<lambda>rolePublic.
        Inr \<lparr>db_account = account, db_role = role, db_parent = rolePublic\<rparr>)) (concat (map (\<lambda>role. map (Pair role) ?by) roles)) = Inr ?br"
    by (rule mapr_all) (auto simp: role)
  have "prepareDiscoveryBranches pub E m accounts roles = Inr ?br"
    using byA br pc assms(3) by (simp add: prepareDiscoveryBranches_def RootExt_def DerivePrivateChild_def no_panic_def master_ext_def fail_if_def)
  moreover have "candidate_ok H pub E m (i, b)" if b: "b \<in> set ?br" and i: "i < 0x80000000" for i b
  proof -
    obtain a r where ar: "b = \<lparr>db_account = a, db_role = r, db_parent = xp (rk a r)\<rparr>" "a \<in> set accounts" "r \<in> set roles"
      using b by auto
    have v: "validatePath \<lparr>Account = a, Role = r, Index = i\<rparr> = Inr ()" using assms(5,6) ar(2,3) i by auto
    have "pub (KL (leaf a r i)) = Some (PublicKey (xp (leaf a r i)))"
      using assms(2) leaf(2) by (simp add: library_key_def ext_ok_def xp_def)
    then have "DeriveCredential H pub m \<lparr>Account = a, Role = r, Index = i\<rparr> = Inr (H 28 (PublicKey (xp (leaf a r i))))"
      using v assms(3) leaf(3) by (simp add: DeriveCredential_def RefCredential_def no_panic_def fail_if_def)
    then show ?thesis using idx [OF i] by (simp add: candidate_ok_def ar(1))
  qed
  moreover have "\<exists>b \<in> set ?br. db_account b = a \<and> db_role b = r" if "a \<in> set accounts" "r \<in> set roles" for a r
    using that by force
  moreover have "db_account b \<in> set accounts \<and> db_role b \<in> set roles" if "b \<in> set ?br" for b
    using that by auto
  ultimately show ?thesis by blast
qed


text \<open>
  A step of the traversal that either ends the search with success or removes exactly the credentials \<open>C\<close>,
  with some left.
\<close>

definition advances :: "(discovery \<Rightarrow> outcome + discovery) \<Rightarrow> bytes set \<Rightarrow> bool" where
  "advances f C \<longleftrightarrow> (\<forall>st. ds_remaining st \<noteq> [] \<longrightarrow>
     (case f st of Inl r \<Rightarrow> fst (snd r) = None
      | Inr st' \<Rightarrow> ds_remaining st' \<noteq> [] \<and> set (ds_remaining st') = set (ds_remaining st) - C))"

lemma advancesI:
  assumes "\<And>st r. ds_remaining st \<noteq> [] \<Longrightarrow> f st = Inl r \<Longrightarrow> fst (snd r) = None"
    and "\<And>st st'. ds_remaining st \<noteq> [] \<Longrightarrow> f st = Inr st' \<Longrightarrow>
      ds_remaining st' \<noteq> [] \<and> set (ds_remaining st') = set (ds_remaining st) - C"
  shows "advances f C"
  using assms by (auto simp: advances_def split: sum.splits)

lemma advancesD:
  assumes "advances f C" and "ds_remaining st \<noteq> []"
  shows "f st = Inl r \<Longrightarrow> fst (snd r) = None"
    and "f st = Inr st' \<Longrightarrow> ds_remaining st' \<noteq> [] \<and> set (ds_remaining st') = set (ds_remaining st) - C"
  using assms by (force simp: advances_def)+

lemma advances_all:
  assumes "\<And>c. c \<in> set cs \<Longrightarrow> advances (\<lambda>st. f st c) (g c)"
  shows "advances (\<lambda>st. discover_all f st cs) (\<Union>c \<in> set cs. g c)"
  using assms
proof (induction cs)
  case Nil
  then show ?case by (auto intro: advancesI)
next
  case (Cons c cs)
  have 1: "advances (\<lambda>st. f st c) (g c)" and 2: "advances (\<lambda>st. discover_all f st cs) (\<Union>c \<in> set cs. g c)"
    using Cons by simp_all
  show ?case
  proof (rule advancesI)
    fix st r assume ne: "ds_remaining st \<noteq> []" and r: "discover_all f st (c # cs) = Inl r"
    show "fst (snd r) = None"
    proof (cases "f st c")
      case (Inl r')
      then show ?thesis using r advancesD(1) [OF 1 ne] by simp
    next
      case (Inr st')
      then show ?thesis using r advancesD(1) [OF 2 conjunct1 [OF advancesD(2) [OF 1 ne Inr]]] by simp
    qed
  next
    fix st st'' assume ne: "ds_remaining st \<noteq> []" and r: "discover_all f st (c # cs) = Inr st''"
    then obtain st' where s: "f st c = Inr st'" "discover_all f st' cs = Inr st''" by (auto split: sum.splits)
    note d = advancesD(2) [OF 1 ne s(1)]
    show "ds_remaining st'' \<noteq> [] \<and> set (ds_remaining st'') = set (ds_remaining st) - (\<Union>c \<in> set (c # cs). g c)"
      using d advancesD(2) [OF 2 conjunct1 [OF d] s(2)] by auto
  qed
qed

definition candidate_credential :: "blake \<Rightarrow> (bytes \<Rightarrow> bytes option) \<Rightarrow> bytes \<Rightarrow> u32 \<times> discoveryBranch \<Rightarrow> bytes set" where
  "candidate_credential H pub m c =
     (case DeriveCredential H pub m \<lparr>Account = db_account (snd c), Role = db_role (snd c), Index = fst c\<rparr> of Inl e \<Rightarrow> {} | Inr x \<Rightarrow> {x})"

lemma step_advances:
  assumes "candidate_ok H pub E m c"
  shows "advances (\<lambda>st. discover_step H pub E (\<lambda>_. None) m every tot st c) (candidate_credential H pub m c)"
proof -
  obtain index branch where c: "c = (index, branch)" by (cases c)
  obtain child where ch: "DerivePublicChild E (db_parent branch) index = Inr child"
      "DeriveCredential H pub m \<lparr>Account = db_account branch, Role = db_role branch, Index = index\<rparr> = Inr (H 28 (PublicKey child))"
    using assms by (auto simp: candidate_ok_def c)
  show ?thesis
  proof (rule advancesI)
    fix st r assume "discover_step H pub E (\<lambda>_. None) m every tot st c = Inl r"
    then show "fst (snd r) = None" by (auto simp: discover_step_def c ch Let_def split: if_splits)
  next
    fix st st' assume "ds_remaining st \<noteq> []" "discover_step H pub E (\<lambda>_. None) m every tot st c = Inr st'"
    then show "ds_remaining st' \<noteq> [] \<and> set (ds_remaining st') = set (ds_remaining st) - candidate_credential H pub m c"
      by (auto simp: discover_step_def candidate_credential_def c ch Let_def split: if_splits)
  qed
qed

lemma band_advances:
  assumes "\<And>i b. b \<in> set branches \<Longrightarrow> i \<in> set (band_values (ib_start band) (ib_end band)) \<Longrightarrow> candidate_ok H pub E m (i, b)"
  shows "advances (\<lambda>st. discover_band H pub E (\<lambda>_. None) m every tot branches st band)
     (\<Union>c \<in> set (band_candidates branches band). candidate_credential H pub m c)"
proof -
  have a: "advances (\<lambda>st. discover_all (discover_step H pub E (\<lambda>_. None) m every tot) st (band_candidates branches band))
     (\<Union>c \<in> set (band_candidates branches band). candidate_credential H pub m c)"
    by (rule advances_all [OF step_advances]) (use assms in \<open>auto simp: band_candidates_def\<close>)
  show ?thesis
  proof (rule advancesI)
    fix st r assume ne: "ds_remaining st \<noteq> []" and r: "discover_band H pub E (\<lambda>_. None) m every tot branches st band = Inl r"
    then show "fst (snd r) = None" using advancesD(1) [OF a ne, of r]
      by (cases "discover_all (discover_step H pub E (\<lambda>_. None) m every tot) st (band_candidates branches band)") (simp_all add: discover_band_def)
  next
    fix st st' assume ne: "ds_remaining st \<noteq> []" and r: "discover_band H pub E (\<lambda>_. None) m every tot branches st band = Inr st'"
    then obtain st1 where "discover_all (discover_step H pub E (\<lambda>_. None) m every tot) st (band_candidates branches band) = Inr st1"
        "st' = emitDiscoveryProgress tot st1"
      by (cases "discover_all (discover_step H pub E (\<lambda>_. None) m every tot) st (band_candidates branches band)") (simp_all add: discover_band_def)
    then show "ds_remaining st' \<noteq> [] \<and> set (ds_remaining st') = set (ds_remaining st) - (\<Union>c \<in> set (band_candidates branches band). candidate_credential H pub m c)"
      using advancesD(2) [OF a ne, of st1] by simp
  qed
qed

lemma discover_bands_complete:
  assumes "\<And>band i b. band \<in> set bands \<Longrightarrow> b \<in> set branches \<Longrightarrow> i \<in> set (band_values (ib_start band) (ib_end band)) \<Longrightarrow> candidate_ok H pub E m (i, b)"
    and "targets \<noteq> []"
    and "\<And>t. t \<in> set targets \<Longrightarrow> \<exists>band \<in> set bands. \<exists>c \<in> set (band_candidates branches band). t \<in> candidate_credential H pub m c"
  shows "fst (snd (discover_bands H pub E (\<lambda>_. None) m every tot branches (remdups targets) bands)) = None"
proof -
  let ?e = "if every = 0 then 32 else every"
  let ?st = "emitDiscoveryProgress tot \<lparr>ds_scanned = 0, ds_remaining = remdups targets, ds_found = [], ds_progress = []\<rparr>"
  let ?C = "\<Union>band \<in> set bands. \<Union>c \<in> set (band_candidates branches band). candidate_credential H pub m c"
  define run where "run = discover_all (discover_band H pub E (\<lambda>_. None) m ?e tot branches) ?st bands"
  have a: "advances (\<lambda>st. discover_all (discover_band H pub E (\<lambda>_. None) m ?e tot branches) st bands) ?C"
    by (rule advances_all [OF band_advances]) (use assms(1) in blast)
  have ne: "ds_remaining ?st \<noteq> []" using assms(2) by simp
  show ?thesis
  proof (cases run)
    case (Inl r)
    then show ?thesis using advancesD(1) [OF a ne, of r] unfolding discover_bands_def Let_def run_def [symmetric] by simp
  next
    case (Inr st')
    then have "ds_remaining st' \<noteq> []" "set (ds_remaining st') = set targets - ?C"
      using advancesD(2) [OF a ne, of st'] unfolding run_def by simp_all
    moreover have "set targets - ?C = {}" using assms(3) by blast
    ultimately show ?thesis by simp
  qed
qed


section \<open>The range of a search\<close>

text \<open>Search options whose range holds valid paths only, and the paths of the range.\<close>

definition search_proper :: "SearchOptions \<Rightarrow> bool" where
  "search_proper s \<longleftrightarrow> so_Account s < 2 ^ 31 \<and> so_Role s \<in> {- 1, 0, 1, 2} \<and> so_Index s < 2 ^ 31 \<and>
     so_MaxAccount s < 0x80000000 \<and> so_MaxIndex s < 0x80000000"

definition in_search :: "SearchOptions \<Rightarrow> Path \<Rightarrow> bool" where
  "in_search s p \<longleftrightarrow>
     (if so_Account s \<ge> 0 then uint (Account p) = so_Account s else Account p \<le> so_MaxAccount s) \<and>
     (if so_Role s = - 1 then Role p \<le> 2 else uint (Role p) = so_Role s) \<and>
     (if so_Index s \<ge> 0 then uint (Index p) = so_Index s else Index p \<le> so_MaxIndex s)"

lemma uint_small: "0 \<le> i \<Longrightarrow> i < 2 ^ 31 \<Longrightarrow> uint (word_of_int i :: u32) = i"
  by (simp add: uint_word_of_int)

lemma word_lt_31: "(w :: u32) < 0x80000000 \<longleftrightarrow> uint w < 2 ^ 31"
  by (simp add: word_less_def)

lemma scanValues_negative: "explicit < 0 \<Longrightarrow> scanValues explicit lo m em = scanValues (- 1) lo m em"
  by (simp add: scanValues_def)

lemma scheduled_accounts:
  assumes "search_proper s"
  shows "\<exists>accounts. scanValues (so_Account s) 0 (so_MaxAccount s) 0x7FFFFFFF = Some (Inr accounts) \<and>
    (\<forall>a. a \<in> set accounts \<longleftrightarrow> (if so_Account s \<ge> 0 then uint a = so_Account s else a \<le> so_MaxAccount s)) \<and>
    (\<forall>a \<in> set accounts. a < 0x80000000)"
proof (cases "so_Account s \<ge> 0")
  case True
  then have u: "uint (word_of_int (so_Account s) :: u32) = so_Account s" using assms by (intro uint_small) (simp_all add: search_proper_def)
  have "a = word_of_int (so_Account s) \<longleftrightarrow> uint a = so_Account s" for a :: u32 using u by (metis word_of_int_uint)
  then show ?thesis using True assms u by (auto simp: scanValues_def search_proper_def Let_def word_lt_31)
next
  case False
  then have e: "scanValues (so_Account s) 0 (so_MaxAccount s) 0x7FFFFFFF = scanValues (- 1) 0 (so_MaxAccount s) 0x7FFFFFFF"
    by (intro scanValues_negative) simp
  have m: "so_MaxAccount s \<noteq> - 1" "so_MaxAccount s < 0x80000000" using assms by (auto simp: search_proper_def)
  obtain accounts where a: "scanValues (- 1) 0 (so_MaxAccount s) 0x7FFFFFFF = Some (Inr accounts)"
    by (simp add: scanValues_def scan_loop_value [OF m(1)])
  show ?thesis using a e False m(2) by (auto simp: scanValues_range [OF a])
qed

lemma scheduled_roles:
  assumes "search_proper s"
  shows "\<exists>roles. discovery_roles (so_Role s) = Inr roles \<and> set roles \<subseteq> {0, 1, 2} \<and>
    (\<forall>r. r \<in> set roles \<longleftrightarrow> (if so_Role s = - 1 then r \<le> 2 else uint r = so_Role s))"
proof -
  have three: "r \<le> 2 \<longleftrightarrow> r = 0 \<or> r = 1 \<or> r = 2" for r :: u32
  proof -
    have "r \<le> 2 \<longleftrightarrow> unat r = 0 \<or> unat r = 1 \<or> unat r = 2" by (auto simp: word_le_nat_alt)
    then show ?thesis by (simp add: word_unat_eq_iff)
  qed
  have k: "uint r = k \<longleftrightarrow> r = word_of_int k" if "k \<in> {0, 1, 2}" for r :: u32 and k
    using that by (auto simp: word_uint_eq_iff)
  have "so_Role s = - 1 \<or> so_Role s \<in> {0, 1, 2}" using assms by (auto simp: search_proper_def)
  then show ?thesis by (auto simp: discovery_roles_def three k)
qed

lemma band_values_set: "i \<in> set (band_values a b) \<longleftrightarrow> unat i \<in> set [unat a..<Suc (unat b)]"
proof -
  have "unat b < 2 ^ LENGTH(32)" by (rule unsigned_less)
  then have "unat (word_of_nat k :: u32) = k" if "k \<le> unat b" for k
    using that by (simp add: unsigned_of_nat take_bit_nat_eq_self)
  then show ?thesis unfolding band_values_upt by (force simp: less_Suc_eq_le image_iff simp del: upt_Suc)
qed

lemma scheduled_bands:
  assumes "search_proper s"
  shows "\<exists>bands n. discoveryIndexBands s = Inr (bands, n) \<and>
    (\<forall>i. (\<exists>band \<in> set bands. i \<in> set (band_values (ib_start band) (ib_end band))) \<longleftrightarrow>
         (if so_Index s \<ge> 0 then uint i = so_Index s else i \<le> so_MaxIndex s))"
proof (cases "so_Index s \<ge> 0")
  case True
  then have u: "uint (word_of_int (so_Index s) :: u32) = so_Index s" using assms by (intro uint_small) (simp_all add: search_proper_def)
  have "i \<in> set (band_values v v) \<longleftrightarrow> i = v" for i v by (auto simp: band_values_set less_Suc_eq_le word_unat_eq_iff)
  moreover have "i = word_of_int (so_Index s) \<longleftrightarrow> uint i = so_Index s" for i :: u32 using u by (metis word_of_int_uint)
  ultimately show ?thesis using True assms by (auto simp: discoveryIndexBands_def search_proper_def Let_def)
next
  case False
  let ?b = "band_loop (so_MaxIndex s) 0 [19, 99, so_MaxIndex s]"
  have c: "concat (map (\<lambda>b. [unat (ib_start b)..<Suc (unat (ib_end b))]) ?b) = [0..<Suc (unat (so_MaxIndex s))]"
    using band_loop_covers [of 0 "so_MaxIndex s" "[19, 99]"] by simp
  have "(\<exists>band \<in> set ?b. i \<in> set (band_values (ib_start band) (ib_end band))) \<longleftrightarrow>
      unat i \<in> set (concat (map (\<lambda>b. [unat (ib_start b)..<Suc (unat (ib_end b))]) ?b))" for i :: u32
    by (auto simp: band_values_set simp del: band_loop.simps upt_Suc)
  then have "(\<exists>band \<in> set ?b. i \<in> set (band_values (ib_start band) (ib_end band))) \<longleftrightarrow> i \<le> so_MaxIndex s" for i :: u32
    unfolding c by (simp add: word_le_nat_alt less_Suc_eq_le del: upt_Suc)
  then show ?thesis using False by (auto simp: discoveryIndexBands_def simp del: band_loop.simps)
qed

text \<open>The prepared run over a proper range, with what its candidates are.\<close>

lemma DiscoverCredentialPaths_run:
  assumes "edwards_doc E" and "library_key E pub" and "length m = 96" and "clamped (leToInt (take 32 m))"
    and "search_proper s" and "\<And>t. t \<in> set targets \<Longrightarrow> length t = 28" and "targets \<noteq> []"
  shows "\<exists>tot branches bands. DiscoverCredentialPaths H pub E ctx m targets s every =
      Some (discover_bands H pub E ctx m every tot branches (remdups targets) bands) \<and>
    (\<forall>band \<in> set bands. \<forall>b \<in> set branches. \<forall>i \<in> set (band_values (ib_start band) (ib_end band)).
       candidate_ok H pub E m (i, b) \<and> in_search s \<lparr>Account = db_account b, Role = db_role b, Index = i\<rparr>) \<and>
    (\<forall>p. in_search s p \<longrightarrow> (\<exists>band \<in> set bands. \<exists>c \<in> set (band_candidates branches band).
       \<lparr>Account = db_account (snd c), Role = db_role (snd c), Index = fst c\<rparr> = p))"
proof -
  obtain accounts where a: "scanValues (so_Account s) 0 (so_MaxAccount s) 0x7FFFFFFF = Some (Inr accounts)"
      "\<And>a. a \<in> set accounts \<longleftrightarrow> (if so_Account s \<ge> 0 then uint a = so_Account s else a \<le> so_MaxAccount s)"
      "\<forall>a \<in> set accounts. a < 0x80000000"
    using scheduled_accounts [OF assms(5)] by blast
  obtain roles where r: "discovery_roles (so_Role s) = Inr roles" "set roles \<subseteq> {0, 1, 2}"
      "\<And>r. (if so_Role s = - 1 then r \<le> 2 else uint r = so_Role s) \<Longrightarrow> r \<in> set roles"
      "\<And>r. r \<in> set roles \<Longrightarrow> (if so_Role s = - 1 then r \<le> 2 else uint r = so_Role s)"
    using scheduled_roles [OF assms(5)] by blast
  obtain bands n where b: "discoveryIndexBands s = Inr (bands, n)"
      "\<And>i. (\<exists>band \<in> set bands. i \<in> set (band_values (ib_start band) (ib_end band))) \<longleftrightarrow>
         (if so_Index s \<ge> 0 then uint i = so_Index s else i \<le> so_MaxIndex s)"
    using scheduled_bands [OF assms(5)] by blast
  have i31: "i < 0x80000000" if "band \<in> set bands" "i \<in> set (band_values (ib_start band) (ib_end band))" for i band
  proof -
    have "if so_Index s \<ge> 0 then uint i = so_Index s else i \<le> so_MaxIndex s" using b(2) that by blast
    moreover have "so_Index s < 2 ^ 31" "so_MaxIndex s < 0x80000000" using assms(5) by (simp_all add: search_proper_def)
    ultimately show ?thesis by (cases "so_Index s \<ge> 0") (simp_all add: word_lt_31 word_le_def)
  qed
  obtain branches where br: "prepareDiscoveryBranches pub E m accounts roles = Inr branches"
      "\<forall>a \<in> set accounts. \<forall>r \<in> set roles. \<exists>b \<in> set branches. db_account b = a \<and> db_role b = r"
      "\<forall>b \<in> set branches. db_account b \<in> set accounts \<and> db_role b \<in> set roles"
      "\<forall>b \<in> set branches. \<forall>i < 0x80000000. candidate_ok H pub E m (i, b)"
    using prepared_branches [OF assms(1-4) a(3) r(2)] by blast
  have c: "\<exists>band \<in> set bands. \<exists>c \<in> set (band_candidates branches band).
       \<lparr>Account = db_account (snd c), Role = db_role (snd c), Index = fst c\<rparr> = p" if p: "in_search s p" for p
  proof -
    obtain band where band: "band \<in> set bands" "Index p \<in> set (band_values (ib_start band) (ib_end band))"
      using b(2) [of "Index p"] p by (auto simp: in_search_def)
    have "Account p \<in> set accounts" "Role p \<in> set roles" using a(2) r(3) p by (simp_all add: in_search_def)
    then obtain c where c: "c \<in> set branches" "db_account c = Account p" "db_role c = Role p" using br(2) by blast
    have "(Index p, c) \<in> set (band_candidates branches band)" using band(2) c(1) by (auto simp: band_candidates_def)
    then show ?thesis using band(1) c(2,3) by force
  qed
  have w: "in_search s \<lparr>Account = db_account b, Role = db_role b, Index = i\<rparr>"
    if "band \<in> set bands" "br \<in> set branches" "b = br" "i \<in> set (band_values (ib_start band) (ib_end band))" for band b br i
  proof -
    have "if so_Index s \<ge> 0 then uint i = so_Index s else i \<le> so_MaxIndex s" using b(2) that by blast
    moreover have "db_account b \<in> set accounts" "db_role b \<in> set roles" using br(3) that by blast+
    ultimately show ?thesis using a(2) [of "db_account b"] r(4) [of "db_role b"] by (simp add: in_search_def)
  qed
  have "list_all (\<lambda>raw. length raw = 28) targets" using assms(6) by (simp add: list_all_iff)
  then have "DiscoverCredentialPaths H pub E ctx m targets s every =
      Some (discover_bands H pub E ctx m every (of_nat (length accounts) * of_nat (length roles) * n) branches (remdups targets) bands)"
    using assms(3,7) a(1) r(1) b(1) br(1)
    by (simp add: DiscoverCredentialPaths_def discoverySchedule_def bind_scan_def)
  then show ?thesis using c w br(4) i31 by blast
qed

text \<open>
  From a clamped master and over a proper range, discovery returns; what it found derives its
  credential and lies in the range; and it ends without an error exactly when every target is derived in the range.
\<close>

lemma DiscoverCredentialPaths_exact:
  assumes "edwards_doc E" and "library_key E pub" and "length m = 96" and "clamped (leToInt (take 32 m))"
    and "search_proper s" and "\<And>t. t \<in> set targets \<Longrightarrow> length t = 28"
  shows "\<exists>found e prog. DiscoverCredentialPaths H pub E (\<lambda>_. None) m targets s every = Some (found, e, prog) \<and>
    distinct (map fst found) \<and> set (map fst found) \<subseteq> set targets \<and>
    (\<forall>(t, p) \<in> set found. DeriveCredential H pub m p = Inr t \<and> in_search s p) \<and>
    (e = None \<longleftrightarrow> (\<forall>t \<in> set targets. \<exists>p. in_search s p \<and> DeriveCredential H pub m p = Inr t)) \<and>
    (e = None \<longrightarrow> set (map fst found) = set targets)"
proof (cases "targets = []")
  case True
  then show ?thesis by (simp add: DiscoverCredentialPaths_def assms(3))
next
  case False
  obtain tot branches bands where run: "DiscoverCredentialPaths H pub E (\<lambda>_. None) m targets s every =
      Some (discover_bands H pub E (\<lambda>_. None) m every tot branches (remdups targets) bands)"
    and ok: "\<And>band b i. band \<in> set bands \<Longrightarrow> b \<in> set branches \<Longrightarrow> i \<in> set (band_values (ib_start band) (ib_end band)) \<Longrightarrow>
       candidate_ok H pub E m (i, b) \<and> in_search s \<lparr>Account = db_account b, Role = db_role b, Index = i\<rparr>"
    and all: "\<And>p. in_search s p \<Longrightarrow> \<exists>band \<in> set bands. \<exists>c \<in> set (band_candidates branches band).
       \<lparr>Account = db_account (snd c), Role = db_role (snd c), Index = fst c\<rparr> = p"
    using DiscoverCredentialPaths_run [OF assms False, of H "\<lambda>_. None" every] by blast
  obtain found e prog where r: "discover_bands H pub E (\<lambda>_. None) m every tot branches (remdups targets) bands = (found, e, prog)"
    by (cases "discover_bands H pub E (\<lambda>_. None) m every tot branches (remdups targets) bands")
  have "outcome_ok (\<lambda>t p. DeriveCredential H pub m p = Inr t \<and> in_search s p) targets (found, e, prog)"
    using discover_bands_ok [of bands branches "in_search s" H pub m targets E "\<lambda>_. None" every tot] ok unfolding r by blast
  then have o: "distinct (map fst found)" "set (map fst found) \<subseteq> set targets"
      "\<forall>(t, p) \<in> set found. DeriveCredential H pub m p = Inr t \<and> in_search s p" "e = None \<longrightarrow> set (map fst found) = set targets"
    unfolding outcome_ok_def by auto
  have "e = None" if d: "\<forall>t \<in> set targets. \<exists>p. in_search s p \<and> DeriveCredential H pub m p = Inr t"
  proof -
    have "\<exists>band \<in> set bands. \<exists>c \<in> set (band_candidates branches band). t \<in> candidate_credential H pub m c" if t: "t \<in> set targets" for t
    proof -
      obtain p where p: "in_search s p" "DeriveCredential H pub m p = Inr t" using d t by blast
      obtain band c where "band \<in> set bands" "c \<in> set (band_candidates branches band)"
          and c: "\<lparr>Account = db_account (snd c), Role = db_role (snd c), Index = fst c\<rparr> = p" using all [OF p(1)] by blast
      moreover have "t \<in> candidate_credential H pub m c" unfolding candidate_credential_def c p(2) by simp
      ultimately show ?thesis by blast
    qed
    from discover_bands_complete [OF _ False this] have "fst (snd (discover_bands H pub E (\<lambda>_. None) m every tot branches (remdups targets) bands)) = None"
      using ok by blast
    then show ?thesis by (simp add: r)
  qed
  moreover have "\<forall>t \<in> set targets. \<exists>p. in_search s p \<and> DeriveCredential H pub m p = Inr t" if "e = None"
    using o(3) o(4) that by fastforce
  ultimately have "e = None \<longleftrightarrow> (\<forall>t \<in> set targets. \<exists>p. in_search s p \<and> DeriveCredential H pub m p = Inr t)" by blast
  then show ?thesis using run o unfolding r by blast
qed

end
