(* ===== verification/DiscoveryProperties.thy ===== *)
theory DiscoveryProperties
  imports Discovery CircuitSamples
begin

text \<open>
  The properties of public derivation and credential discovery, with an instance of the curve library on
  which their hypotheses hold.
\<close>


section \<open>Instances\<close>










section \<open>Public derivation\<close>



section \<open>Discovery\<close>



end
