(* ===== verification/PkIndex.thy ===== *)
theory PkIndex
  imports GoBytes GoTime "HOL-Library.AList"
begin

text \<open>
  The index of a proving key, from \<^verbatim>\<open>internal/proofassets/pkindex.go\<close>: \<open>BuildPKIndex\<close> walks the file
  and records where each vector of points lies, \<open>ValidatePKIndex\<close> checks an index from elsewhere.

  The specification is the layout \<open>pk_bytes\<close> of a file made of parts: \<open>BuildPKIndex_exact\<close> says that
  exactly those files have an index, \<open>pk_section_list\<close> that the sections of the index are the names and
  payloads of the parts, \<open>ValidatePKIndex_ok\<close> what a validation promises.
\<close>

section \<open>Reading a file\<close>

text \<open>
  An open file is its bytes and a position. A read past the end fails; a seek past the end does not
  (the next read does), unless the position leaves \<^verbatim>\<open>int64\<close>.
\<close>

type_synonym 'a reader = "bytes \<Rightarrow> nat \<Rightarrow> ('a \<times> nat) res"

definition bind_f :: "'a reader \<Rightarrow> ('a \<Rightarrow> 'b reader) \<Rightarrow> 'b reader" where
  "bind_f m k f pos = bind_r (m f pos) (\<lambda>(x, pos'). k x f pos')"

definition ret_f :: "'a \<Rightarrow> 'a reader" where "ret_f x f pos = Inr (x, pos)"

definition check_f :: "bool \<Rightarrow> string \<Rightarrow> unit reader" where
  "check_f b m f pos = (if b then Inl (Err m) else Inr ((), pos))"

definition ctx_f :: "string \<Rightarrow> 'a reader \<Rightarrow> 'a reader" where
  "ctx_f c m f pos = wrap c (m f pos)"

definition read_full :: "nat \<Rightarrow> bytes reader" where
  "read_full n f pos = (if pos + n \<le> length f then Inr (take n (drop pos f), pos + n) else Inl (Err ''EOF''))"

definition seek_forward :: "nat \<Rightarrow> unit reader" where
  "seek_forward d f pos = (if pos + d < 2 ^ 63 then Inr ((), pos + d) else Inl (Err ''seek''))"

definition tell_f :: "nat reader" where "tell_f f pos = Inr (pos, pos)"

definition readBEUint32 :: "u32 reader" where
  "readBEUint32 = bind_f (read_full 4) (\<lambda>buf. ret_f (word_of_nat (be_val buf)))"

definition readBEUint64 :: "u64 reader" where
  "readBEUint64 = bind_f (read_full 8) (\<lambda>buf. ret_f (word_of_nat (be_val buf)))"

section \<open>The index of a proving key\<close>

definition DomainHeaderBytes :: nat where "DomainHeaderBytes = 169"
definition G1RawBytes :: nat where "G1RawBytes = 96"
definition G2RawBytes :: nat where "G2RawBytes = 192"

text \<open>Offsets, lengths and element sizes are \<^verbatim>\<open>int64\<close> and \<^verbatim>\<open>int\<close>: a decoded index may hold any of their values.\<close>

record PKSection =
  sec_Name :: string
  sec_Offset :: int
  sec_Len :: int
  sec_ElemSize :: int

record PKIndex =
  Sections :: "(string \<times> PKSection) list"
  DomainCardinality :: u64
  NbWires :: u64
  NbInfinityA :: u64
  NbInfinityB :: u64
  NbCommitmentKeys :: u32
  FileSize :: int

definition readSection :: "string \<Rightarrow> nat \<Rightarrow> PKSection reader" where
  "readSection name elemSize =
     bind_f readBEUint32 (\<lambda>count.
     bind_f tell_f (\<lambda>off.
     bind_f (seek_forward (unat count * elemSize)) (\<lambda>_.
     ret_f \<lparr>sec_Name = name, sec_Offset = int off, sec_Len = int (unat count * elemSize), sec_ElemSize = int elemSize\<rparr>)))"

text \<open>A run of sections, each with the context of its error.\<close>

fun readSections :: "nat \<Rightarrow> (string \<times> string) list \<Rightarrow> PKSection list reader" where
  "readSections elemSize [] = ret_f []"
| "readSections elemSize ((c, name) # names) =
     bind_f (ctx_f c (readSection name elemSize)) (\<lambda>sec.
     bind_f (readSections elemSize names) (\<lambda>secs.
     ret_f (sec # secs)))"

definition basisName :: "nat \<Rightarrow> string" where
  "basisName i = (if i > 0 then ''Basis_'' @ dec i else ''Basis'')"

definition sigmaName :: "nat \<Rightarrow> string" where
  "sigmaName i = (if i > 0 then ''BasisExpSigma_'' @ dec i else ''BasisExpSigma'')"

definition commitment_names :: "nat \<Rightarrow> (string \<times> string) list" where
  "commitment_names n = concat (map (\<lambda>i. [(''commitment key Basis'', basisName i), (''commitment key BasisExpSigma'', sigmaName i)]) [0..<n])"

definition put_sections :: "PKSection list \<Rightarrow> (string \<times> PKSection) list" where
  "put_sections secs = foldl (\<lambda>m sec. AList.update (sec_Name sec) sec m) [] secs"

definition read_index :: "PKIndex reader" where
  "read_index =
     bind_f (ctx_f ''read domain header'' (read_full DomainHeaderBytes)) (\<lambda>header.
     bind_f (ctx_f ''seek past G1 singletons'' (seek_forward (3 * G1RawBytes))) (\<lambda>_.
     bind_f (readSections G1RawBytes [(''G1.A'', ''A''), (''G1.B'', ''B''), (''G1.Z'', ''Z''), (''G1.K'', ''K'')]) (\<lambda>g1.
     bind_f (ctx_f ''seek past G2 singletons'' (seek_forward (2 * G2RawBytes))) (\<lambda>_.
     bind_f (readSections G2RawBytes [(''G2.B'', ''G2B'')]) (\<lambda>g2.
     bind_f (ctx_f ''read nbWires'' readBEUint64) (\<lambda>nbWires.
     bind_f (ctx_f ''read NbInfinityA'' readBEUint64) (\<lambda>nbInfinityA.
     bind_f (ctx_f ''read NbInfinityB'' readBEUint64) (\<lambda>nbInfinityB.
     bind_f (check_f (unat nbWires > (2 ^ 63 - 1) div 2) ''nbWires would overflow int64'') (\<lambda>_.
     bind_f (ctx_f ''seek past infinity bitmaps'' (seek_forward (unat nbWires * 2))) (\<lambda>_.
     bind_f (ctx_f ''read nbCommitmentKeys'' readBEUint32) (\<lambda>nbCommitmentKeys.
     bind_f (readSections G1RawBytes (commitment_names (unat nbCommitmentKeys))) (\<lambda>keys.
     ret_f \<lparr>Sections = put_sections (g1 @ g2 @ keys), DomainCardinality = word_of_nat (be_val (take 8 header)),
       NbWires = nbWires, NbInfinityA = nbInfinityA, NbInfinityB = nbInfinityB, NbCommitmentKeys = nbCommitmentKeys, FileSize = 0\<rparr>))))))))))))"

definition BuildPKIndex :: "bytes \<Rightarrow> PKIndex res" where
  "BuildPKIndex f =
     bind_r (read_index f 0) (\<lambda>(idx, off).
     bind_r (fail_if (off \<noteq> length f) ''index ended before or after the file size'') (\<lambda>_.
     Inr (idx\<lparr>FileSize := int (length f)\<rparr>)))"

text \<open>The checks of a section, in the order of the source; the sum of offset and length is \<^verbatim>\<open>int64\<close>.\<close>

definition section_checks :: "int \<Rightarrow> string \<times> PKSection \<Rightarrow> unit res" where
  "section_checks fileSize = (\<lambda>(name, sec). all_ok [
     fail_if (sec_Name sec = []) ''section has empty name'',
     fail_if (sec_Name sec \<noteq> name) ''section map key does not match name'',
     fail_if (sec_Offset sec < 0 \<or> sec_Len sec < 0) ''section has negative offset or length'',
     fail_if (sec_ElemSize sec \<noteq> int G1RawBytes \<and> sec_ElemSize sec \<noteq> int G2RawBytes) ''section has elem_size'',
     fail_if (sec_Len sec mod sec_ElemSize sec \<noteq> 0) ''section length is not divisible by elem_size'',
     fail_if (wrap64 (sec_Offset sec + sec_Len sec) > fileSize) ''section exceeds file size''])"

definition ValidatePKIndex :: "PKIndex \<Rightarrow> unit res" where
  "ValidatePKIndex idx = all_ok
     ([fail_if (FileSize idx \<le> 0) ''index file_size is required''] @
      map (\<lambda>name. fail_if (name \<notin> fst ` set (Sections idx)) ''index missing section'') [''A'', ''B'', ''Z'', ''K'', ''G2B''] @
      map (section_checks (FileSize idx)) (Sections idx))"


section \<open>What a reader consumes\<close>

text \<open>
  \<open>span f pos pos' w\<close>: the bytes \<open>w\<close> stand at \<open>pos\<close> in the file and end at \<open>pos'\<close>. \<open>parses m L\<close>: a run of
  the reader that ends inside the file consumes exactly the strings of the language \<open>L\<close>, which also
  knows the start and the result.
\<close>

definition span :: "bytes \<Rightarrow> nat \<Rightarrow> nat \<Rightarrow> bytes \<Rightarrow> bool" where
  "span f pos pos' w \<longleftrightarrow> pos \<le> pos' \<and> pos' \<le> length f \<and> w = take (pos' - pos) (drop pos f)"

definition parses :: "'a reader \<Rightarrow> (nat \<Rightarrow> 'a \<Rightarrow> bytes \<Rightarrow> bool) \<Rightarrow> bool" where
  "parses m L \<longleftrightarrow> (\<forall>f pos v pos'. m f pos = Inr (v, pos') \<longrightarrow> pos \<le> pos') \<and>
     (\<forall>f pos v pos'. length f < 2 ^ 63 \<longrightarrow> pos' \<le> length f \<longrightarrow>
        (m f pos = Inr (v, pos') \<longleftrightarrow> (\<exists>w. span f pos pos' w \<and> L pos v w)))"

lemma span_length: "span f pos pos' w \<Longrightarrow> pos' = pos + length w"
  by (auto simp: span_def)

lemma span_trans: "span f a b u \<Longrightarrow> span f b c v \<Longrightarrow> span f a c (u @ v)"
proof (unfold span_def, elim conjE, intro conjI)
  assume *: "a \<le> b" "b \<le> length f" "u = take (b - a) (drop a f)" "b \<le> c" "c \<le> length f" "v = take (c - b) (drop b f)"
  have "c - a = (b - a) + (c - b)" using * by simp
  then show "u @ v = take (c - a) (drop a f)" using * by (simp only: take_add drop_drop) simp
qed simp_all

lemma span_split:
  assumes "span f a c (u @ v)"
  shows "span f a (a + length u) u \<and> span f (a + length u) c v"
proof -
  have c: "c = a + length u + length v" "c \<le> length f" "u @ v = take (c - a) (drop a f)"
    using assms span_length [OF assms] by (auto simp: span_def)
  have "u = take (length u) (u @ v)" by simp
  also have "\<dots> = take (length u) (drop a f)" unfolding c(3) using c(1) by (simp add: min_def)
  finally have u: "u = take (length u) (drop a f)" .
  have "v = drop (length u) (u @ v)" by simp
  also have "\<dots> = take (length v) (drop (a + length u) f)" unfolding c(3) using c(1) by (simp add: drop_take add.commute)
  finally have v: "v = take (length v) (drop (a + length u) f)" .
  show ?thesis unfolding span_def using c(1,2) u v by simp
qed

lemma parsesI:
  assumes "\<And>f pos v pos'. m f pos = Inr (v, pos') \<Longrightarrow> pos \<le> pos'"
    and "\<And>f pos v pos'. length f < 2 ^ 63 \<Longrightarrow> pos' \<le> length f \<Longrightarrow> m f pos = Inr (v, pos') \<Longrightarrow> \<exists>w. span f pos pos' w \<and> L pos v w"
    and "\<And>f pos v pos' w. length f < 2 ^ 63 \<Longrightarrow> pos' \<le> length f \<Longrightarrow> span f pos pos' w \<Longrightarrow> L pos v w \<Longrightarrow> m f pos = Inr (v, pos')"
  shows "parses m L"
  unfolding parses_def using assms by blast

named_theorems parse_rules "the language of each reader"

lemma parses_ret [parse_rules]: "parses (ret_f x) (\<lambda>pos v w. v = x \<and> w = [])"
  by (rule parsesI) (auto simp: ret_f_def span_def)

lemma parses_tell [parse_rules]: "parses tell_f (\<lambda>pos v w. v = pos \<and> w = [])"
  by (rule parsesI) (auto simp: tell_f_def span_def)

lemma parses_check [parse_rules]: "parses (check_f b m) (\<lambda>pos v w. \<not> b \<and> w = [])"
  by (rule parsesI) (auto simp: check_f_def span_def split: if_splits)

lemma parses_read_full [parse_rules]: "parses (read_full n) (\<lambda>pos v w. v = w \<and> length w = n)"
  by (rule parsesI) (auto simp: read_full_def span_def split: if_splits)

lemma parses_seek [parse_rules]: "parses (seek_forward n) (\<lambda>pos v w. length w = n)"
  by (rule parsesI) (auto simp: seek_forward_def span_def split: if_splits)

lemma parses_ctx [parse_rules]: "parses m L \<Longrightarrow> parses (ctx_f c m) L"
  by (simp add: parses_def ctx_f_def)

lemma parses_bind [parse_rules]:
  assumes "parses m L" and "\<And>x. parses (k x) (M x)"
  shows "parses (bind_f m k) (\<lambda>pos v w. \<exists>x u w'. w = u @ w' \<and> L pos x u \<and> M x (pos + length u) v w')"
proof (rule parsesI)
  note m = assms(1) [unfolded parses_def, THEN conjunct1, rule_format] and k = assms(2) [unfolded parses_def, THEN conjunct1, rule_format]
  note ml = assms(1) [unfolded parses_def, THEN conjunct2, rule_format] and kl = assms(2) [unfolded parses_def, THEN conjunct2, rule_format]
  fix f pos v pos'
  {
    assume "bind_f m k f pos = Inr (v, pos')"
    then obtain x q where r: "m f pos = Inr (x, q)" "k x f q = Inr (v, pos')" by (auto simp: bind_f_def)
    then have le: "pos \<le> q" "q \<le> pos'" using m k by blast+
    then show "pos \<le> pos'" by simp
    assume f: "length f < 2 ^ 63" "pos' \<le> length f"
    obtain u where u: "span f pos q u" "L pos x u" using ml [OF f(1), of q pos x] r(1) le(2) f(2) by auto
    obtain w where w: "span f q pos' w" "M x q v w" using kl [OF f, of x q v] r(2) by blast
    show "\<exists>w. span f pos pos' w \<and> (\<exists>x u w'. w = u @ w' \<and> L pos x u \<and> M x (pos + length u) v w')"
      using span_trans [OF u(1) w(1)] u(2) w(2) span_length [OF u(1)] by blast
  next
    fix w assume f: "length f < 2 ^ 63" "pos' \<le> length f" and s: "span f pos pos' w"
      and L: "\<exists>x u w'. w = u @ w' \<and> L pos x u \<and> M x (pos + length u) v w'"
    obtain x u w' where w: "w = u @ w'" "L pos x u" "M x (pos + length u) v w'" using L by blast
    note sp = span_split [OF s [unfolded w(1)]]
    have le: "pos + length u \<le> length f" using sp by (simp add: span_def)
    have "m f pos = Inr (x, pos + length u)" using ml [OF f(1) le, of pos x] sp w(2) by blast
    moreover have "k x f (pos + length u) = Inr (v, pos')" using kl [OF f, of x "pos + length u" v] sp w(3) by blast
    ultimately show "bind_f m k f pos = Inr (v, pos')" by (simp add: bind_f_def)
  }
qed

lemma parses_cong: "parses m L \<Longrightarrow> (\<And>pos v w. L pos v w \<longleftrightarrow> M pos v w) \<Longrightarrow> parses m M"
  by (simp add: parses_def)

lemma be_word_iff:
  assumes "8 * n = LENGTH('a)"
  shows "(length b = n \<and> v = (word_of_nat (be_val b) :: 'a::len word)) \<longleftrightarrow> b = be_bytes n (unat v)"
proof
  assume b: "length b = n \<and> v = word_of_nat (be_val b)"
  then have "unat v = be_val b" using assms by (simp add: unat_be_val)
  then show "b = be_bytes n (unat v)" using b be_bytes_be_val by metis
next
  have "unat v < 2 ^ LENGTH('a)" by (rule unsigned_less)
  then have "unat v < 256 ^ n" by (simp add: power_mult flip: assms)
  moreover assume "b = be_bytes n (unat v)"
  ultimately show "length b = n \<and> v = word_of_nat (be_val b)" using be_val_be_bytes by simp
qed

lemma parses_u32 [parse_rules]: "parses readBEUint32 (\<lambda>pos v w. w = be_bytes 4 (unat v))"
  unfolding readBEUint32_def
proof (rule parses_cong [OF parses_bind [OF parses_read_full parses_ret]])
  fix pos :: nat and v :: u32 and w
  show "(\<exists>x u w'. w = u @ w' \<and> (x = u \<and> length u = 4) \<and> v = word_of_nat (be_val x) \<and> w' = []) = (w = be_bytes 4 (unat v))"
    using be_word_iff [where 'a = 32, of 4 w v] by auto
qed

lemma parses_u64 [parse_rules]: "parses readBEUint64 (\<lambda>pos v w. w = be_bytes 8 (unat v))"
  unfolding readBEUint64_def
proof (rule parses_cong [OF parses_bind [OF parses_read_full parses_ret]])
  fix pos :: nat and v :: u64 and w
  show "(\<exists>x u w'. w = u @ w' \<and> (x = u \<and> length u = 8) \<and> v = word_of_nat (be_val x) \<and> w' = []) = (w = be_bytes 8 (unat v))"
    using be_word_iff [where 'a = 64, of 8 w v] by auto
qed


section \<open>The layout of a proving key\<close>

text \<open>A length-prefixed vector of \<open>es\<close>-byte elements.\<close>

definition vec :: "nat \<Rightarrow> bytes \<Rightarrow> bytes" where
  "vec es p = be_bytes 4 (length p div es) @ p"

definition vec_ok :: "nat \<Rightarrow> bytes \<Rightarrow> bool" where
  "vec_ok es p \<longleftrightarrow> es dvd length p \<and> length p div es < 2 ^ 32"

definition section_at :: "string \<Rightarrow> nat \<Rightarrow> nat \<Rightarrow> bytes \<Rightarrow> PKSection" where
  "section_at name es pos p = \<lparr>sec_Name = name, sec_Offset = int (pos + 4), sec_Len = int (length p), sec_ElemSize = int es\<rparr>"

fun sections_at :: "nat \<Rightarrow> nat \<Rightarrow> string list \<Rightarrow> bytes list \<Rightarrow> PKSection list" where
  "sections_at es pos (n # ns) (p # ps) = section_at n es pos p # sections_at es (pos + length (vec es p)) ns ps"
| "sections_at es pos _ _ = []"

lemma parses_readSection [parse_rules]:
  assumes "es > 0"
  shows "parses (readSection name es) (\<lambda>pos sec w. \<exists>p. vec_ok es p \<and> w = vec es p \<and> sec = section_at name es pos p)"
  unfolding readSection_def
  apply (rule parses_cong, (rule parse_rules)+)
proof -
  fix pos sec w
  have n: "unat (v :: u32) < 2 ^ 32" for v using unsigned_less [of v] by simp
  have r: "unat (word_of_nat k :: u32) = k" if "k < 2 ^ 32" for k using that by (simp add: unat_word_of_nat)
  show "(\<exists>(x :: u32) u w'. w = u @ w' \<and> u = be_bytes 4 (unat x) \<and>
       (\<exists>xa ua w'a. w' = ua @ w'a \<and> (xa = pos + length u \<and> ua = []) \<and>
         (\<exists>xb ub w''. w'a = ub @ w'' \<and> length ub = unat x * es \<and>
            sec = \<lparr>sec_Name = name, sec_Offset = int xa, sec_Len = int (unat x * es), sec_ElemSize = int es\<rparr> \<and> w'' = []))) =
    (\<exists>p. vec_ok es p \<and> w = vec es p \<and> sec = section_at name es pos p)"
  proof
    assume "\<exists>(x :: u32) u w'. w = u @ w' \<and> u = be_bytes 4 (unat x) \<and>
       (\<exists>xa ua w'a. w' = ua @ w'a \<and> (xa = pos + length u \<and> ua = []) \<and>
         (\<exists>xb ub w''. w'a = ub @ w'' \<and> length ub = unat x * es \<and>
            sec = \<lparr>sec_Name = name, sec_Offset = int xa, sec_Len = int (unat x * es), sec_ElemSize = int es\<rparr> \<and> w'' = []))"
    then show "\<exists>p. vec_ok es p \<and> w = vec es p \<and> sec = section_at name es pos p"
      apply (elim exE conjE)
      subgoal for x u w' xa ua w'a xb ub w''
        by (rule exI [of _ ub]) (use assms n [of x] in \<open>simp add: vec_ok_def vec_def section_at_def\<close>)
      done
  next
    assume "\<exists>p. vec_ok es p \<and> w = vec es p \<and> sec = section_at name es pos p"
    then obtain p where p: "vec_ok es p" "w = vec es p" "sec = section_at name es pos p" by blast
    show "\<exists>(x :: u32) u w'. w = u @ w' \<and> u = be_bytes 4 (unat x) \<and>
       (\<exists>xa ua w'a. w' = ua @ w'a \<and> (xa = pos + length u \<and> ua = []) \<and>
         (\<exists>xb ub w''. w'a = ub @ w'' \<and> length ub = unat x * es \<and>
            sec = \<lparr>sec_Name = name, sec_Offset = int xa, sec_Len = int (unat x * es), sec_ElemSize = int es\<rparr> \<and> w'' = []))"
      by (rule exI [of _ "word_of_nat (length p div es)"])
        (use p in \<open>auto simp: vec_ok_def vec_def section_at_def r\<close>)
  qed
qed


lemma parses_readSections [parse_rules]:
  assumes "es > 0"
  shows "parses (readSections es names) (\<lambda>pos secs w. \<exists>ps. length ps = length names \<and> (\<forall>p \<in> set ps. vec_ok es p) \<and>
     w = concat (map (vec es) ps) \<and> secs = sections_at es pos (map snd names) ps)"
proof (induction names)
  case Nil
  show ?case unfolding readSections.simps by (rule parses_cong, rule parse_rules) auto
next
  case (Cons cn names)
  obtain c n where cn: "cn = (c, n)" by (cases cn)
  show ?case unfolding cn readSections.simps
    apply (rule parses_cong, (rule parse_rules assms Cons)+)
    subgoal for pos secs w
      by (simp add: length_Suc_conv) (fastforce simp: add.assoc)
    done
qed

text \<open>The parts of a proving key, in the order of the file.\<close>

record pk_parts =
  pp_domain :: bytes
  pp_g1 :: bytes
  pp_sections :: "bytes list"
  pp_g2 :: bytes
  pp_G2B :: bytes
  pp_wires :: u64
  pp_infinityA :: u64
  pp_infinityB :: u64
  pp_bitmaps :: bytes
  pp_keys :: "bytes list"

definition pk_ok :: "pk_parts \<Rightarrow> bool" where
  "pk_ok k \<longleftrightarrow> length (pp_domain k) = 169 \<and> length (pp_g1 k) = 3 * 96 \<and> length (pp_sections k) = 4 \<and>
     (\<forall>p \<in> set (pp_sections k @ pp_keys k). vec_ok 96 p) \<and> length (pp_g2 k) = 2 * 192 \<and> vec_ok 192 (pp_G2B k) \<and>
     unat (pp_wires k) \<le> (2 ^ 63 - 1) div 2 \<and> length (pp_bitmaps k) = 2 * unat (pp_wires k) \<and>
     even (length (pp_keys k)) \<and> length (pp_keys k) < 2 ^ 33"

definition pk_head :: "pk_parts \<Rightarrow> bytes" where
  "pk_head k = pp_domain k @ pp_g1 k"

definition pk_middle :: "pk_parts \<Rightarrow> bytes" where
  "pk_middle k = be_bytes 8 (unat (pp_wires k)) @ be_bytes 8 (unat (pp_infinityA k)) @ be_bytes 8 (unat (pp_infinityB k)) @
     pp_bitmaps k @ be_bytes 4 (length (pp_keys k) div 2)"

definition pk_bytes :: "pk_parts \<Rightarrow> bytes" where
  "pk_bytes k = pk_head k @ concat (map (vec 96) (pp_sections k)) @ pp_g2 k @ vec 192 (pp_G2B k) @ pk_middle k @
     concat (map (vec 96) (pp_keys k))"

definition pk_section_list :: "nat \<Rightarrow> pk_parts \<Rightarrow> PKSection list" where
  "pk_section_list pos k =
     (let g1 = pos + length (pk_head k); g2 = g1 + length (concat (map (vec 96) (pp_sections k))) + length (pp_g2 k);
          keys = g2 + length (vec 192 (pp_G2B k)) + length (pk_middle k)
      in sections_at 96 g1 [''A'', ''B'', ''Z'', ''K''] (pp_sections k) @ sections_at 192 g2 [''G2B''] [pp_G2B k] @
         sections_at 96 keys (map snd (commitment_names (length (pp_keys k) div 2))) (pp_keys k))"

definition pk_index_at :: "nat \<Rightarrow> pk_parts \<Rightarrow> PKIndex" where
  "pk_index_at pos k = \<lparr>Sections = put_sections (pk_section_list pos k), DomainCardinality = word_of_nat (be_val (take 8 (pp_domain k))),
     NbWires = pp_wires k, NbInfinityA = pp_infinityA k, NbInfinityB = pp_infinityB k,
     NbCommitmentKeys = word_of_nat (length (pp_keys k) div 2), FileSize = 0\<rparr>"

lemma length_commitment_names: "length (commitment_names n) = 2 * n"
  by (induction n) (simp_all add: commitment_names_def)

lemma length_1: "length ps = Suc 0 \<longleftrightarrow> (\<exists>p. ps = [p])"
  by (simp add: length_Suc_conv)

lemma parses_read_index: "parses read_index (\<lambda>pos v w. \<exists>k. pk_ok k \<and> w = pk_bytes k \<and> v = pk_index_at pos k)"
  unfolding read_index_def
  apply (rule parses_cong, (rule parse_rules | simp add: G1RawBytes_def G2RawBytes_def)+)
  apply (rule iffI)
  subgoal for pos v w
    apply (elim exE conjE)
    subgoal for d w1 g1 w2 xa ua w3 ps g2 w4 xb uc w5 qs nw w6 na w7 nb w8 bm w9 ck w10 xg ks
    proof -
      assume *: "w = d @ w1" "length d = DomainHeaderBytes" "w1 = g1 @ w2" "length g1 = 288" "w2 = ua @ w3" "length ps = Suc (Suc (Suc (Suc 0)))"
        "w3 = g2 @ w4" "\<forall>x\<in>set ps. vec_ok 96 x" "length g2 = 384" "ua = concat (map (vec 96) ps)"
        "xa = sections_at 96 (pos + length d + length g1) [''A'', ''B'', ''Z'', ''K''] ps" "w4 = uc @ w5" "length qs = Suc 0"
        "w5 = be_bytes 8 (unat nw) @ w6" "\<forall>x\<in>set qs. vec_ok 192 x" "w6 = be_bytes 8 (unat na) @ w7" "uc = concat (map (vec 192) qs)"
        "xb = sections_at 192 (pos + length d + length g1 + length ua + length g2) [''G2B''] qs" "w7 = be_bytes 8 (unat nb) @ w8"
        "\<not> 4611686018427387903 < unat nw" "w8 = bm @ w9" "length bm = unat nw * 2" "w9 = be_bytes 4 (unat ck) @ w10"
        "v = \<lparr>Sections = put_sections (xa @ xb @ xg), DomainCardinality = word_of_nat (be_val (take 8 d)), NbWires = nw,
           NbInfinityA = na, NbInfinityB = nb, NbCommitmentKeys = ck, FileSize = 0\<rparr>"
        "length ks = length (commitment_names (unat (ck :: u32)))" "\<forall>x\<in>set ks. vec_ok 96 x" "w10 = concat (map (vec 96) ks)"
        "xg = sections_at 96 (28 + (pos + (length d + (length g1 + (length ua + (length g2 + (length uc + length bm)))))))
           (map snd (commitment_names (unat ck))) ks"
      obtain q where q: "qs = [q]" using *(13) by (auto simp: length_Suc_conv)
      have ck: "length ks = 2 * unat ck" "unat ck < 2 ^ 32" using *(25) unsigned_less [of ck] by (simp_all add: length_commitment_names)
      let ?k = "\<lparr>pp_domain = d, pp_g1 = g1, pp_sections = ps, pp_g2 = g2, pp_G2B = q, pp_wires = nw, pp_infinityA = na, pp_infinityB = nb,
        pp_bitmaps = bm, pp_keys = ks\<rparr>"
      have "pk_ok ?k" using * q ck by (auto simp: pk_ok_def DomainHeaderBytes_def length_commitment_names)
      moreover have "w = pk_bytes ?k" using * q ck by (simp add: pk_bytes_def pk_head_def pk_middle_def length_commitment_names)
      moreover have "v = pk_index_at pos ?k" using * q ck
        by (simp add: pk_index_at_def pk_section_list_def Let_def pk_head_def pk_middle_def ac_simps length_commitment_names)
      ultimately show "\<exists>k. pk_ok k \<and> w = pk_bytes k \<and> v = pk_index_at pos k" by blast
    qed
    done
  subgoal for pos v w
    apply (elim exE conjE)
    subgoal for k
    proof -
      assume k: "pk_ok k" "w = pk_bytes k" "v = pk_index_at pos k"
      have u: "unat (word_of_nat (length (pp_keys k) div 2) :: u32) = length (pp_keys k) div 2"
      proof (rule unat_word_of_nat)
        have "length (pp_keys k) < 2 ^ 33" using k(1) by (simp add: pk_ok_def)
        then show "length (pp_keys k) div 2 < 2 ^ LENGTH(32)" by (simp add: less_mult_imp_div_less)
      qed
      have n: "length (pp_keys k) = length (commitment_names (unat (word_of_nat (length (pp_keys k) div 2) :: u32)))"
        using k(1) by (simp add: length_commitment_names u pk_ok_def)
      have w: "w = pp_domain k @ pp_g1 k @ concat (map (vec 96) (pp_sections k)) @ pp_g2 k @ concat (map (vec 192) [pp_G2B k]) @
          be_bytes 8 (unat (pp_wires k)) @ be_bytes 8 (unat (pp_infinityA k)) @ be_bytes 8 (unat (pp_infinityB k)) @ pp_bitmaps k @
          be_bytes 4 (unat (word_of_nat (length (pp_keys k) div 2) :: u32)) @ concat (map (vec 96) (pp_keys k))"
        unfolding u by (simp add: k(2) pk_bytes_def pk_head_def pk_middle_def)
      note ok = k(1) [unfolded pk_ok_def]
      show ?thesis unfolding w
        apply (rule exI, rule exI, rule conjI, rule refl, rule conjI, use ok in \<open>simp add: DomainHeaderBytes_def\<close>)
        apply (rule exI, rule exI, rule conjI, rule refl, rule conjI, use ok in simp)
        apply (rule exI, rule exI, rule exI, rule conjI, rule refl, rule conjI, rule exI [of _ "pp_sections k"])
         apply (rule conjI, use ok in simp, rule conjI, use ok in simp, rule conjI, rule refl, rule refl)
        apply (rule exI, rule exI, rule conjI, rule refl, rule conjI, use ok in simp)
        apply (rule exI, rule exI, rule exI, rule conjI, rule refl, rule conjI, rule exI [of _ "[pp_G2B k]"])
         apply (rule conjI, use ok in simp, rule conjI, use ok in simp, rule conjI, rule refl, rule refl)
        apply (rule exI, rule exI, rule conjI, rule refl)
        apply (rule exI, rule exI, rule conjI, rule refl)
        apply (rule exI, rule exI, rule conjI, rule refl, rule conjI, use ok in simp)
        apply (rule exI, rule exI, rule conjI, rule refl, rule conjI, use ok in simp)
        apply (rule exI, rule exI, rule conjI, rule refl)
        apply (rule exI, rule conjI, rule exI [of _ "pp_keys k"])
         apply (rule conjI, rule n, rule conjI, use ok in simp, rule conjI, rule refl, rule refl)
        using ok by (simp add: k(3) pk_index_at_def pk_section_list_def Let_def pk_head_def pk_middle_def ac_simps u DomainHeaderBytes_def)
    qed
    done
  done


text \<open>The index of a proving key with these parts.\<close>

definition pk_index :: "pk_parts \<Rightarrow> PKIndex" where
  "pk_index k = (pk_index_at 0 k)\<lparr>FileSize := int (length (pk_bytes k))\<rparr>"

lemma BuildPKIndex_exact:
  assumes "length f < 2 ^ 63"
  shows "BuildPKIndex f = Inr idx \<longleftrightarrow> (\<exists>k. pk_ok k \<and> f = pk_bytes k \<and> idx = pk_index k)"
proof -
  have "read_index f 0 = Inr (v, length f) \<longleftrightarrow> (\<exists>w. span f 0 (length f) w \<and> (\<exists>k. pk_ok k \<and> w = pk_bytes k \<and> v = pk_index_at 0 k))" for v
    using parses_read_index [unfolded parses_def, THEN conjunct2, rule_format, OF assms, of "length f" 0 v] by simp
  moreover have "span f 0 (length f) w \<longleftrightarrow> w = f" for w by (auto simp: span_def)
  ultimately have r: "read_index f 0 = Inr (v, length f) \<longleftrightarrow> (\<exists>k. pk_ok k \<and> f = pk_bytes k \<and> v = pk_index_at 0 k)" for v by auto
  have "BuildPKIndex f = Inr idx \<longleftrightarrow> (\<exists>v. read_index f 0 = Inr (v, length f) \<and> idx = v\<lparr>FileSize := int (length f)\<rparr>)"
    by (auto simp: BuildPKIndex_def split: prod.splits)
  then show ?thesis unfolding r pk_index_def by auto
qed

section \<open>Sections and their bytes\<close>

definition section_bytes :: "bytes \<Rightarrow> PKSection \<Rightarrow> bytes" where
  "section_bytes f sec = take (nat (sec_Len sec)) (drop (nat (sec_Offset sec)) f)"

lemma sections_at_bytes:
  "length names = length ps \<Longrightarrow> f = pre @ concat (map (vec es) ps) @ post \<Longrightarrow>
     map (section_bytes f) (sections_at es (length pre) names ps) = ps"
proof (induction names ps arbitrary: pre rule: list_induct2)
  case (Cons n ns p ps)
  have "f = (pre @ vec es p) @ concat (map (vec es) ps) @ post" using Cons.prems by simp
  from Cons.IH [OF this] have "map (section_bytes f) (sections_at es (length pre + length (vec es p)) ns ps) = ps" by simp
  moreover have "section_bytes f (section_at n es (length pre) p) = p"
    using Cons.prems by (simp add: section_bytes_def section_at_def vec_def nat_add_distrib)
  ultimately show ?case by simp
qed simp

lemma sections_at_names: "length names = length ps \<Longrightarrow> map sec_Name (sections_at es pos names ps) = names"
  by (induction names ps arbitrary: pos rule: list_induct2) (simp_all add: section_at_def)

lemma sections_at_fields:
  "sec \<in> set (sections_at es pos names ps) \<Longrightarrow> (\<forall>p \<in> set ps. vec_ok es p) \<Longrightarrow>
     sec_ElemSize sec = int es \<and> int pos < sec_Offset sec \<and> 0 \<le> sec_Len sec \<and> int es dvd sec_Len sec \<and> sec_Len sec div int es < 2 ^ 32 \<and>
     sec_Offset sec + sec_Len sec \<le> int (pos + length (concat (map (vec es) ps)))"
proof (induction es pos names ps rule: sections_at.induct)
  case (1 es pos n ns p ps)
  show ?case
  proof (cases "sec = section_at n es pos p")
    case True
    moreover have "int (length p) div int es < 2 ^ 32" using 1(3) by (simp add: vec_ok_def flip: zdiv_int)
    ultimately show ?thesis using 1(3) by (simp add: section_at_def vec_ok_def vec_def)
  next
    case False
    then show ?thesis using 1(1) [of] 1(2,3) by (simp add: vec_def)
  qed
qed simp_all

lemma put_sections_distinct:
  assumes "distinct (map sec_Name secs)"
  shows "put_sections secs = map (\<lambda>sec. (sec_Name sec, sec)) secs"
proof -
  have u: "AList.update k x xs = xs @ [(k, x)]" if "k \<notin> fst ` set xs" for k x and xs :: "(string \<times> PKSection) list"
    using that by (induction xs) auto
  have "foldl (\<lambda>m sec. AList.update (sec_Name sec) sec m) (map (\<lambda>sec. (sec_Name sec, sec)) xs) ys =
      map (\<lambda>sec. (sec_Name sec, sec)) (xs @ ys)" if "distinct (map sec_Name (xs @ ys))" for xs ys :: "PKSection list"
    using that
  proof (induction ys arbitrary: xs)
    case (Cons y ys)
    then have "sec_Name y \<notin> fst ` set (map (\<lambda>sec. (sec_Name sec, sec)) xs)" by force
    note u [OF this, of y]
    then show ?case using Cons.IH [of "xs @ [y]"] Cons.prems by simp
  qed simp
  from this [of "[]" secs] show ?thesis using assms by (simp add: put_sections_def)
qed

definition pk_names :: "nat \<Rightarrow> string list" where
  "pk_names n = [''A'', ''B'', ''Z'', ''K'', ''G2B''] @ map snd (commitment_names n)"

lemma distinct_pk_names: "distinct (pk_names n)"
proof -
  have b: "basisName i = basisName j \<longleftrightarrow> i = j" "sigmaName i = sigmaName j \<longleftrightarrow> i = j" "basisName i \<noteq> sigmaName j" "sigmaName j \<noteq> basisName i" for i j
    by (auto simp: basisName_def sigmaName_def)
  have m: "map snd (commitment_names n) = concat (map (\<lambda>i. [basisName i, sigmaName i]) [0..<n])"
    by (induction n) (simp_all add: commitment_names_def)
  have "distinct (concat (map (\<lambda>i. [basisName i, sigmaName i]) [0..<n]))" by (induction n) (auto simp: b)
  moreover have "hd (basisName i) = CHR ''B'' \<and> length (basisName i) \<ge> 5" "hd (sigmaName i) = CHR ''B'' \<and> length (sigmaName i) \<ge> 5" for i
    by (simp_all add: basisName_def sigmaName_def)
  then have "s \<notin> set (concat (map (\<lambda>i. [basisName i, sigmaName i]) [0..<n]))" if "length s < 5" for s using that by (auto simp: not_le [symmetric])
  ultimately show ?thesis by (simp add: pk_names_def m)
qed

definition pk_payloads :: "pk_parts \<Rightarrow> bytes list" where
  "pk_payloads k = pp_sections k @ [pp_G2B k] @ pp_keys k"

lemma pk_section_list:
  assumes "pk_ok k"
  shows "map sec_Name (pk_section_list 0 k) = pk_names (length (pp_keys k) div 2)"
    and "map (section_bytes (pk_bytes k)) (pk_section_list 0 k) = pk_payloads k"
proof -
  have l: "length [''A'', ''B'', ''Z'', ''K''] = length (pp_sections k)" "length [''G2B''] = length [pp_G2B k]"
      "length (map snd (commitment_names (length (pp_keys k) div 2))) = length (pp_keys k)"
    using assms by (simp_all add: pk_ok_def length_commitment_names)
  show "map sec_Name (pk_section_list 0 k) = pk_names (length (pp_keys k) div 2)"
    unfolding pk_section_list_def Let_def map_append by (simp only: sections_at_names [OF l(1)] sections_at_names [OF l(2)] sections_at_names [OF l(3)])
      (simp add: pk_names_def)
  let ?f = "pk_bytes k"
  have "map (section_bytes ?f) (sections_at 96 (length (pk_head k)) [''A'', ''B'', ''Z'', ''K''] (pp_sections k)) = pp_sections k"
    by (rule sections_at_bytes [OF l(1)]) (simp add: pk_bytes_def)
  moreover have "map (section_bytes ?f) (sections_at 192 (length (pk_head k @ concat (map (vec 96) (pp_sections k)) @ pp_g2 k)) [''G2B''] [pp_G2B k]) = [pp_G2B k]"
    by (rule sections_at_bytes [OF l(2)]) (simp add: pk_bytes_def)
  moreover have "map (section_bytes ?f) (sections_at 96 (length (pk_head k @ concat (map (vec 96) (pp_sections k)) @ pp_g2 k @ vec 192 (pp_G2B k) @ pk_middle k))
      (map snd (commitment_names (length (pp_keys k) div 2))) (pp_keys k)) = pp_keys k"
    by (rule sections_at_bytes [OF l(3), of _ _ _ "[]"]) (simp add: pk_bytes_def)
  ultimately show "map (section_bytes (pk_bytes k)) (pk_section_list 0 k) = pk_payloads k"
    by (simp add: pk_section_list_def Let_def pk_payloads_def add.assoc)
qed

lemma pk_section_fields:
  assumes "pk_ok k" and "sec \<in> set (pk_section_list 0 k)"
  shows "(sec_ElemSize sec = 96 \<or> sec_ElemSize sec = 192) \<and> 0 \<le> sec_Offset sec \<and> 0 \<le> sec_Len sec \<and> sec_ElemSize sec dvd sec_Len sec \<and>
     sec_Len sec div sec_ElemSize sec < 2 ^ 32 \<and> sec_Offset sec + sec_Len sec \<le> int (length (pk_bytes k))"
proof -
  have ok: "\<forall>p \<in> set (pp_sections k). vec_ok 96 p" "\<forall>p \<in> set (pp_keys k). vec_ok 96 p" "\<forall>p \<in> set [pp_G2B k]. vec_ok 192 p"
    using assms(1) by (simp_all add: pk_ok_def)
  let ?a = "length (pk_head k)" and ?s = "length (concat (map (vec 96) (pp_sections k)))" and ?m = "length (pk_middle k)"
  let ?b = "?a + ?s + length (pp_g2 k)"
  let ?c = "?b + length (vec 192 (pp_G2B k)) + ?m"
  have l: "length (pk_bytes k) = ?c + length (concat (map (vec 96) (pp_keys k)))"
    by (simp only: pk_bytes_def length_append)
  consider (g1) "sec \<in> set (sections_at 96 ?a [''A'', ''B'', ''Z'', ''K''] (pp_sections k))"
    | (g2) "sec \<in> set (sections_at 192 ?b [''G2B''] [pp_G2B k])"
    | (keys) "sec \<in> set (sections_at 96 ?c (map snd (commitment_names (length (pp_keys k) div 2))) (pp_keys k))"
    using assms(2) unfolding pk_section_list_def Let_def set_append add_0 by blast
  then show ?thesis
  proof cases
    case g1
    from sections_at_fields [OF this ok(1)] show ?thesis unfolding l by auto
  next
    case g2
    from sections_at_fields [OF this ok(3)] show ?thesis unfolding l by auto
  next
    case keys
    from sections_at_fields [OF this ok(2)] show ?thesis unfolding l by auto
  qed
qed

lemma pk_index_sections:
  assumes "pk_ok k"
  shows "Sections (pk_index k) = map (\<lambda>sec. (sec_Name sec, sec)) (pk_section_list 0 k)"
  using put_sections_distinct [of "pk_section_list 0 k"] pk_section_list(1) [OF assms] distinct_pk_names
  by (simp add: pk_index_def pk_index_at_def)

text \<open>An index that was built passes its validation.\<close>

lemma built_index_valid:
  assumes "length f < 2 ^ 63" and "BuildPKIndex f = Inr idx"
  shows "ValidatePKIndex idx = Inr ()"
proof -
  obtain k where k: "pk_ok k" "f = pk_bytes k" "idx = pk_index k" using assms by (auto simp: BuildPKIndex_exact)
  note s = pk_index_sections [OF k(1)]
  have n: "fst ` set (Sections idx) = set (pk_names (length (pp_keys k) div 2))"
    unfolding k(3) s pk_section_list(1) [OF k(1), symmetric] by force
  have F: "FileSize idx = int (length f)" by (simp add: k pk_index_def)
  have "length f > 0" using k(1) by (auto simp: k(2) pk_bytes_def pk_head_def pk_ok_def)
  moreover have "section_checks (FileSize idx) (sec_Name sec, sec) = Inr ()" if sec: "sec \<in> set (pk_section_list 0 k)" for sec
  proof -
    note fl = pk_section_fields [OF k(1) sec]
    have "sec_Name sec \<in> set (pk_names (length (pp_keys k) div 2))" using pk_section_list(1) [OF k(1)] sec by (metis image_eqI list.set_map)
    then have ne: "sec_Name sec \<noteq> []" by (auto simp: pk_names_def commitment_names_def basisName_def sigmaName_def split: if_splits)
    have "wrap64 (sec_Offset sec + sec_Len sec) = sec_Offset sec + sec_Len sec" using fl assms(1) k(2) by (intro wrap64_id) auto
    then show ?thesis using fl ne F k(2) by (auto simp: section_checks_def G1RawBytes_def G2RawBytes_def dvd_eq_mod_eq_0)
  qed
  then have "\<forall>x \<in> set (Sections idx). section_checks (FileSize idx) x = Inr ()" by (auto simp: k(3) s)
  moreover have "{''A'', ''B'', ''Z'', ''K'', ''G2B''} \<subseteq> fst ` set (Sections idx)" unfolding n by (simp add: pk_names_def)
  ultimately show ?thesis using F by (simp add: ValidatePKIndex_def)
qed

section \<open>Validation\<close>

text \<open>
  What an accepted index promises. The last disjunct is the wrap of \<^verbatim>\<open>sec.Offset+sec.Len\<close>: a section whose
  end leaves \<^verbatim>\<open>int64\<close> passes the comparison with the file size.
\<close>

definition section_inside :: "int \<Rightarrow> PKSection \<Rightarrow> bool" where
  "section_inside fileSize sec \<longleftrightarrow> 0 \<le> sec_Offset sec \<and> 0 \<le> sec_Len sec \<and>
     (sec_ElemSize sec = 96 \<or> sec_ElemSize sec = 192) \<and> sec_ElemSize sec dvd sec_Len sec \<and>
     (sec_Offset sec + sec_Len sec \<le> fileSize \<or> 2 ^ 63 \<le> sec_Offset sec + sec_Len sec)"

lemma section_checks_ok:
  assumes "sec_Offset sec < 2 ^ 63" and "sec_Len sec < 2 ^ 63" and "0 < fileSize" and "fileSize < 2 ^ 63"
  shows "section_checks fileSize (name, sec) = Inr () \<longleftrightarrow> name \<noteq> [] \<and> sec_Name sec = name \<and> section_inside fileSize sec"
proof -
  have "wrap64 (sec_Offset sec + sec_Len sec) \<le> fileSize \<longleftrightarrow> sec_Offset sec + sec_Len sec \<le> fileSize \<or> 2 ^ 63 \<le> sec_Offset sec + sec_Len sec"
    if p: "0 \<le> sec_Offset sec" "0 \<le> sec_Len sec"
  proof (cases "sec_Offset sec + sec_Len sec < 2 ^ 63")
    case True
    then show ?thesis using p by (simp add: wrap64_id)
  next
    case False
    have "(sec_Offset sec + sec_Len sec + 2 ^ 63) mod 2 ^ 64 = sec_Offset sec + sec_Len sec + 2 ^ 63 - 2 ^ 64"
      using False assms(1,2) by (simp add: mod_pos_geq)
    then show ?thesis using False assms(1-3) by (simp add: wrap64_def)
  qed
  then show ?thesis by (auto simp: section_checks_def section_inside_def G1RawBytes_def G2RawBytes_def dvd_eq_mod_eq_0 not_less)
qed

lemma ValidatePKIndex_ok:
  assumes "FileSize idx < 2 ^ 63" and "\<And>name sec. (name, sec) \<in> set (Sections idx) \<Longrightarrow> sec_Offset sec < 2 ^ 63 \<and> sec_Len sec < 2 ^ 63"
  shows "ValidatePKIndex idx = Inr () \<longleftrightarrow> 0 < FileSize idx \<and> {''A'', ''B'', ''Z'', ''K'', ''G2B''} \<subseteq> fst ` set (Sections idx) \<and>
     (\<forall>(name, sec) \<in> set (Sections idx). name \<noteq> [] \<and> sec_Name sec = name \<and> section_inside (FileSize idx) sec)"
proof -
  have "(\<forall>x \<in> set (Sections idx). section_checks (FileSize idx) x = Inr ()) \<longleftrightarrow>
      (\<forall>(name, sec) \<in> set (Sections idx). name \<noteq> [] \<and> sec_Name sec = name \<and> section_inside (FileSize idx) sec)" if "0 < FileSize idx"
    using section_checks_ok [OF _ _ that assms(1)] assms(2) by fast
  then show ?thesis by (auto simp: ValidatePKIndex_def)
qed

end
