(* ===== verification/PkRange.thy ===== *)
theory PkRange
  imports PkIndex "HOL-Library.Signed_Division"
begin

text \<open>
  Reading a proving key in parts, from \<^verbatim>\<open>internal/streampk/range.go\<close> and \<^verbatim>\<open>keysource.go\<close>: readers
  at an offset (a file, or HTTP range requests with their counters), sections and ranges of points by
  name, and the small fields of a key. \<open>SectionRange_exact\<close> and \<open>point_range_exact\<close> say which bytes and
  which points a range delivers, \<open>http_at_exact\<close> that a range server is as good as the file, and
  \<open>OpenKey_parts\<close> what opening a key reads, from either.
\<close>

section \<open>Readers at an offset\<close>

text \<open>An \<^verbatim>\<open>io.ReaderAt\<close> is a function from an offset and a length to the bytes; a file delivers all of them or fails.\<close>

type_synonym reader_at = "int \<Rightarrow> nat \<Rightarrow> bytes res"

definition file_at :: "bytes \<Rightarrow> reader_at" where
  "file_at f off n =
     (if off < 0 then Inl (Err ''negative offset'')
      else if nat off + n \<le> length f then Inr (take n (drop (nat off) f)) else Inl (Err ''EOF''))"

record RangeStats =
  rs_Requests :: u64
  rs_Bytes :: u64
  rs_StatusOK :: u64
  rs_StatusPC :: u64
  rs_Errors :: u64

definition ResetRangeStats :: RangeStats where
  "ResetRangeStats = \<lparr>rs_Requests = 0, rs_Bytes = 0, rs_StatusOK = 0, rs_StatusPC = 0, rs_Errors = 0\<rparr>"

definition range_header :: "int \<Rightarrow> int \<Rightarrow> string" where
  "range_header off e = ''bytes='' @ dec_int off @ ''-'' @ dec_int e"

definition ReadFull_body :: "nat \<Rightarrow> bytes \<Rightarrow> bytes res" where
  "ReadFull_body n body = (if length body < n then Inl (Err ''unexpected EOF'') else Inr (take n body))"

text \<open>
  \<^verbatim>\<open>httpRangeAt.ReadAt\<close> with its counters. \<open>get\<close> is the server: the status and the body that it sends for a
  \<^verbatim>\<open>Range\<close> header, or the error of the request.
\<close>

definition httpRangeAt_ReadAt :: "(string \<Rightarrow> (nat \<times> bytes) res) \<Rightarrow> int \<Rightarrow> nat \<Rightarrow> RangeStats \<Rightarrow> bytes res \<times> RangeStats" where
  "httpRangeAt_ReadAt get off n st =
     (if n = 0 then (Inr [], st)
      else
        let st = st\<lparr>rs_Requests := rs_Requests st + 1, rs_Bytes := rs_Bytes st + of_nat n\<rparr>;
            e = wrap64 (off + int n - 1);
            failed = (\<lambda>st. st\<lparr>rs_Errors := rs_Errors st + 1\<rparr>)
        in case get (range_header off e) of
             Inl err \<Rightarrow> (Inl (Wrap ''range request'' err), failed st)
           | Inr (status, body) \<Rightarrow>
               if status = 206 then (ReadFull_body n body, st\<lparr>rs_StatusPC := rs_StatusPC st + 1\<rparr>)
               else if status = 200 then
                 let st = st\<lparr>rs_StatusOK := rs_StatusOK st + 1\<rparr>
                 in if int (length body) < off then (Inl (Wrap ''discard prefix from 200 response'' (Err ''EOF'')), failed st)
                    else (ReadFull_body n (drop (nat off) body), st)
               else (Inl (Err ''range request status''), failed st))"

definition http_at :: "(string \<Rightarrow> (nat \<times> bytes) res) \<Rightarrow> reader_at" where
  "http_at get off n = fst (httpRangeAt_ReadAt get off n ResetRangeStats)"

definition PrefixLength :: "int \<Rightarrow> bytes" where
  "PrefixLength n = be_bytes 4 (nat (n mod 2 ^ 32))"

section \<open>Sections by name\<close>

text \<open>
  The width of Go's \<^verbatim>\<open>int\<close> is a parameter \<open>W\<close>: 64 on native builds, 32 in the browser. Division
  truncates towards zero.
\<close>

definition go_int :: "nat \<Rightarrow> int \<Rightarrow> int" where
  "go_int W x = (x + 2 ^ (W - 1)) mod 2 ^ W - 2 ^ (W - 1)"

record Source =
  src_idx :: PKIndex
  src_ra :: reader_at

definition OpenFile :: "bytes \<Rightarrow> Source res" where
  "OpenFile f =
     bind_r (BuildPKIndex f) (\<lambda>idx.
     bind_r (ValidatePKIndex idx) (\<lambda>_.
     Inr \<lparr>src_idx = idx, src_ra = file_at f\<rparr>))"

definition OpenURL :: "PKIndex \<Rightarrow> (string \<Rightarrow> (nat \<times> bytes) res) \<Rightarrow> Source res" where
  "OpenURL idx get =
     bind_r (ValidatePKIndex idx) (\<lambda>_.
     Inr \<lparr>src_idx = idx, src_ra = http_at get\<rparr>)"

definition lookup_section :: "PKIndex \<Rightarrow> string \<Rightarrow> PKSection res" where
  "lookup_section idx name = (case map_of (Sections idx) name of None \<Rightarrow> Inl (Err ''section not found'') | Some sec \<Rightarrow> Inr sec)"

definition SectionBytes :: "Source option \<Rightarrow> string \<Rightarrow> int \<Rightarrow> bytes res" where
  "SectionBytes s name maxBytes =
     (case s of
        None \<Rightarrow> Inl (Err ''source is nil'')
      | Some s \<Rightarrow>
          bind_r (lookup_section (src_idx s) name) (\<lambda>sec.
          bind_r (fail_if (maxBytes \<ge> 0 \<and> sec_Len sec > maxBytes) ''section exceeds max'') (\<lambda>_.
          wrap ''read section'' (src_ra s (sec_Offset sec) (nat (sec_Len sec))))))"

definition SectionRange :: "nat \<Rightarrow> Source option \<Rightarrow> string \<Rightarrow> int \<Rightarrow> int \<Rightarrow> bytes res" where
  "SectionRange W s name lo hi =
     (case s of
        None \<Rightarrow> Inl (Err ''source is nil'')
      | Some s \<Rightarrow>
          bind_r (lookup_section (src_idx s) name) (\<lambda>sec.
          let tot = go_int W (sec_Len sec) sdiv sec_ElemSize sec in
          bind_r (fail_if (lo < 0 \<or> hi < lo \<or> hi > tot) ''section range out of bounds'') (\<lambda>_.
          let n = go_int W ((hi - lo) * sec_ElemSize sec);
              off = wrap64 (sec_Offset sec + go_int W (lo * sec_ElemSize sec))
          in if n = 0 then Inr [] else wrap ''read section range'' (src_ra s off (nat n)))))"

section \<open>Point ranges\<close>

text \<open>
  The decoder of gnark-crypto is third-party code, given as \<open>dcd\<close>: the bytes of a length prefix and the
  points to the points. \<open>point_decoder es dcd pts_of\<close> is what the code relies on: a prefix of \<open>n\<close> and \<open>n\<close> raw
  points of \<open>es\<close> bytes decode to these points, one by one (\<open>point\<close>), or fail.
\<close>

definition chunks_of :: "nat \<Rightarrow> bytes \<Rightarrow> bytes list" where
  "chunks_of es b = map (\<lambda>i. take es (drop (es * i) b)) [0..<length b div es]"

fun decode_all :: "(bytes \<Rightarrow> 'p option) \<Rightarrow> bytes list \<Rightarrow> 'p list option" where
  "decode_all point [] = Some []"
| "decode_all point (b # bs) = (case point b of None \<Rightarrow> None | Some p \<Rightarrow> map_option (Cons p) (decode_all point bs))"

definition point_decoder :: "nat \<Rightarrow> (bytes \<Rightarrow> 'p list option) \<Rightarrow> (bytes \<Rightarrow> 'p option) \<Rightarrow> bool" where
  "point_decoder es dcd point \<longleftrightarrow>
     (\<forall>b. es dvd length b \<longrightarrow> length b div es < 2 ^ 32 \<longrightarrow> dcd (be_bytes 4 (length b div es) @ b) = decode_all point (chunks_of es b))"

definition decodeSection :: "(bytes \<Rightarrow> 'p list option) \<Rightarrow> bytes \<Rightarrow> int \<Rightarrow> 'p list res" where
  "decodeSection dcd b nPoints =
     (case dcd (PrefixLength nPoints @ b) of None \<Rightarrow> Inl (Err ''decode section'') | Some pts \<Rightarrow> Inr pts)"

text \<open>\<^verbatim>\<open>KeySource.G1\<close> and \<^verbatim>\<open>G2\<close>; the raw size of a point is \<open>es\<close>.\<close>

definition whole_section :: "nat \<Rightarrow> (bytes \<Rightarrow> 'p list option) \<Rightarrow> nat \<Rightarrow> Source \<Rightarrow> string \<Rightarrow> 'p list res" where
  "whole_section W dcd es ks name =
     bind_r (lookup_section (src_idx ks) name) (\<lambda>sec.
     let nPoints = go_int W (sec_Len sec) sdiv int es in
     bind_r (src_ra ks (sec_Offset sec) (nat (sec_Len sec))) (\<lambda>b.
     decodeSection dcd b nPoints))"

text \<open>\<^verbatim>\<open>KeySource.G1Range\<close> and \<^verbatim>\<open>G2Range\<close>, which differ in the decoder.\<close>

definition point_range :: "nat \<Rightarrow> (bytes \<Rightarrow> 'p list option) \<Rightarrow> Source \<Rightarrow> string \<Rightarrow> int \<Rightarrow> int \<Rightarrow> 'p list res" where
  "point_range W dcd ks name lo hi =
     bind_r (lookup_section (src_idx ks) name) (\<lambda>sec.
     let nTotal = go_int W (sec_Len sec) sdiv sec_ElemSize sec in
     bind_r (fail_if (lo < 0 \<or> lo > hi \<or> hi > nTotal) ''range out of bounds'') (\<lambda>_.
     let nPoints = hi - lo in
     if nPoints = 0 then Inr []
     else
       let off = wrap64 (sec_Offset sec + wrap64 (lo * sec_ElemSize sec));
           len = wrap64 (nPoints * sec_ElemSize sec)
       in bind_r (src_ra ks off (nat len)) (\<lambda>b. decodeSection dcd b nPoints)))"

definition SectionPointCount :: "nat \<Rightarrow> PKIndex \<Rightarrow> string \<Rightarrow> int res" where
  "SectionPointCount W idx name =
     bind_r (lookup_section idx name) (\<lambda>sec. Inr (go_int W (sec_Len sec) sdiv sec_ElemSize sec))"

definition commitmentSectionName :: "string \<Rightarrow> nat \<Rightarrow> string" where
  "commitmentSectionName base i = (if i = 0 then base else base @ ''_'' @ dec i)"

fun point_counts :: "nat \<Rightarrow> PKIndex \<Rightarrow> string list \<Rightarrow> int list res" where
  "point_counts W idx [] = Inr []"
| "point_counts W idx (name # names) =
     bind_r (SectionPointCount W idx name) (\<lambda>n. bind_r (point_counts W idx names) (\<lambda>ns. Inr (n # ns)))"

definition ProveMSMScalarTotals :: "nat \<Rightarrow> PKIndex \<Rightarrow> u64 \<Rightarrow> int list res" where
  "ProveMSMScalarTotals W idx cardinality =
     (let n = unat (NbCommitmentKeys idx) in
      bind_r (point_counts W idx (map (commitmentSectionName ''Basis'') [0..<n])) (\<lambda>basis.
      bind_r (point_counts W idx (map (commitmentSectionName ''BasisExpSigma'') [0..<n])) (\<lambda>sigma.
      bind_r (point_counts W idx [''G2B'', ''A'', ''B'']) (\<lambda>ab.
      bind_r (SectionPointCount W idx ''Z'') (\<lambda>zCount.
      let sizeH = go_int W (uint (cardinality - 1)) in
      bind_r (fail_if (sizeH < 0 \<or> sizeH > zCount) ''section H size outside section Z length'') (\<lambda>_.
      bind_r (SectionPointCount W idx ''K'') (\<lambda>kCount.
      Inr (basis @ sigma @ ab @ [sizeH, kCount]))))))))"


section \<open>Sections that lie in the file\<close>

lemma go_int_id: "0 \<le> x \<Longrightarrow> x < 2 ^ (W - 1) \<Longrightarrow> 0 < W \<Longrightarrow> go_int W x = x"
proof -
  assume x: "0 \<le> x" "x < 2 ^ (W - 1)" "0 < W"
  then have "(2::int) ^ W = 2 ^ (W - 1) + 2 ^ (W - 1)" by (cases W) simp_all
  then have "(x + 2 ^ (W - 1)) mod 2 ^ W = x + 2 ^ (W - 1)" using x by (intro mod_pos_pos_trivial) simp_all
  then show ?thesis by (simp add: go_int_def)
qed

lemma sdiv_nonneg: "0 \<le> x \<Longrightarrow> 0 < y \<Longrightarrow> x sdiv y = x div (y :: int)"
  by (cases "x = 0") (simp_all add: signed_divide_int_def)

definition section_ok :: "bytes \<Rightarrow> PKSection \<Rightarrow> bool" where
  "section_ok f sec \<longleftrightarrow> (sec_ElemSize sec = 96 \<or> sec_ElemSize sec = 192) \<and> 0 \<le> sec_Offset sec \<and> 0 \<le> sec_Len sec \<and>
     sec_ElemSize sec dvd sec_Len sec \<and> sec_Len sec div sec_ElemSize sec < 2 ^ 32 \<and> sec_Offset sec + sec_Len sec \<le> int (length f)"

lemma section_ok_es: "section_ok f sec \<Longrightarrow> 0 < sec_ElemSize sec"
  by (auto simp: section_ok_def)

lemma opened_sections:
  assumes "length f < 2 ^ 63" and "OpenFile f = Inr s"
  shows "src_ra s = file_at f" and "(name, sec) \<in> set (Sections (src_idx s)) \<Longrightarrow> section_ok f sec"
    and "distinct (map fst (Sections (src_idx s)))"
proof -
  obtain idx where i: "BuildPKIndex f = Inr idx" "s = \<lparr>src_idx = idx, src_ra = file_at f\<rparr>" using assms(2) by (auto simp: OpenFile_def)
  obtain k where k: "pk_ok k" "f = pk_bytes k" "idx = pk_index k" using i(1) assms(1) by (auto simp: BuildPKIndex_exact)
  show "src_ra s = file_at f" by (simp add: i)
  show "section_ok f sec" if "(name, sec) \<in> set (Sections (src_idx s))"
    using that pk_section_fields [OF k(1)] by (auto simp: i k pk_index_sections [OF k(1)] section_ok_def)
  have "map fst (Sections (src_idx s)) = map sec_Name (pk_section_list 0 k)" by (simp add: i k pk_index_sections [OF k(1)] comp_def)
  then show "distinct (map fst (Sections (src_idx s)))" using pk_section_list(1) [OF k(1)] distinct_pk_names by simp
qed

lemma file_at_part:
  assumes "section_ok f sec" and "0 \<le> lo" and "0 \<le> n" and "lo + n \<le> sec_Len sec"
  shows "file_at f (sec_Offset sec + lo) (nat n) = Inr (take (nat n) (drop (nat lo) (section_bytes f sec)))"
proof -
  have o: "0 \<le> sec_Offset sec" "sec_Offset sec + sec_Len sec \<le> int (length f)" using assms(1) by (auto simp: section_ok_def)
  then have "nat (sec_Offset sec + lo) + nat n \<le> length f" using assms(2-4) by linarith
  moreover have "take (nat n) (drop (nat lo) (section_bytes f sec)) = take (nat n) (drop (nat (sec_Offset sec + lo)) f)"
  proof -
    have "nat (sec_Offset sec + lo) = nat (sec_Offset sec) + nat lo" "nat n \<le> nat (sec_Len sec) - nat lo"
      using o assms(2-4) by linarith+
    then show ?thesis by (simp add: section_bytes_def drop_take min_def add.commute)
  qed
  ultimately show ?thesis using o assms(2) by (simp add: file_at_def)
qed

lemma length_section_bytes: "section_ok f sec \<Longrightarrow> int (length (section_bytes f sec)) = sec_Len sec"
  by (auto simp: section_bytes_def section_ok_def)

lemma point_count:
  assumes "section_ok f sec" and "sec_Len sec < 2 ^ (W - 1)" and "0 < W"
  shows "go_int W (sec_Len sec) sdiv sec_ElemSize sec = sec_Len sec div sec_ElemSize sec"
  using assms by (auto simp: section_ok_def go_int_id sdiv_nonneg)

lemma range_bounds:
  assumes "section_ok f sec" and "0 \<le> lo" and "lo \<le> hi" and "hi \<le> sec_Len sec div sec_ElemSize sec"
  shows "0 \<le> lo * sec_ElemSize sec" and "0 \<le> (hi - lo) * sec_ElemSize sec"
    and "lo * sec_ElemSize sec + (hi - lo) * sec_ElemSize sec \<le> sec_Len sec"
proof -
  have es: "0 < sec_ElemSize sec" by (rule section_ok_es [OF assms(1)])
  have "hi * sec_ElemSize sec \<le> (sec_Len sec div sec_ElemSize sec) * sec_ElemSize sec" using assms(4) es by (simp add: mult_right_mono)
  also have "\<dots> = sec_Len sec" using assms(1) by (simp add: section_ok_def)
  finally show "lo * sec_ElemSize sec + (hi - lo) * sec_ElemSize sec \<le> sec_Len sec" by (simp add: algebra_simps)
qed (use assms section_ok_es [OF assms(1)] in simp_all)

text \<open>A range of a section is that part of its bytes, when the section fits Go's \<^verbatim>\<open>int\<close>.\<close>

lemma SectionRange_exact:
  assumes "length f < 2 ^ 63" and "section_ok f sec" and "map_of (Sections (src_idx s)) name = Some sec" and "src_ra s = file_at f"
    and "sec_Len sec < 2 ^ (W - 1)" and "0 < W"
  shows "SectionRange W (Some s) name lo hi =
    (if 0 \<le> lo \<and> lo \<le> hi \<and> hi \<le> sec_Len sec div sec_ElemSize sec
     then Inr (take (nat ((hi - lo) * sec_ElemSize sec)) (drop (nat (lo * sec_ElemSize sec)) (section_bytes f sec)))
     else Inl (Err ''section range out of bounds''))"
proof (cases "0 \<le> lo \<and> lo \<le> hi \<and> hi \<le> sec_Len sec div sec_ElemSize sec")
  case True
  note b = range_bounds [OF assms(2), of lo hi]
  let ?n = "(hi - lo) * sec_ElemSize sec" and ?l = "lo * sec_ElemSize sec"
  have n: "go_int W ?n = ?n" "go_int W ?l = ?l" using b True assms(5,6) by (simp_all add: go_int_id)
  have "sec_Offset sec + sec_Len sec < 2 ^ 63" "0 \<le> sec_Offset sec" using assms(1,2) by (auto simp: section_ok_def)
  then have w: "wrap64 (sec_Offset sec + ?l) = sec_Offset sec + ?l" using b True by (intro wrap64_id) linarith+
  show ?thesis using True b file_at_part [OF assms(2), of ?l ?n]
    by (auto simp: SectionRange_def lookup_section_def assms(3,4) point_count [OF assms(2,5,6)] n w Let_def fail_if_def)
next
  case False
  then show ?thesis by (auto simp: SectionRange_def lookup_section_def assms(3) point_count [OF assms(2,5,6)] Let_def fail_if_def)
qed

lemma length_chunks_of: "length (chunks_of es b) = length b div es"
  by (simp add: chunks_of_def)

lemma chunks_of_part:
  assumes "0 < es" and "lo + n \<le> length b div es"
  shows "chunks_of es (take (n * es) (drop (lo * es) b)) = take n (drop lo (chunks_of es b))"
proof -
  have le: "(lo + n) * es \<le> length b" using assms by (simp add: less_eq_div_iff_mult_less_eq)
  then have l: "length (take (n * es) (drop (lo * es) b)) = n * es" by (simp add: algebra_simps)
  have "take es (drop (es * i) (take (n * es) (drop (lo * es) b))) = take es (drop (es * (lo + i)) b)" if "i < n" for i
  proof -
    have "Suc i * es \<le> n * es" using that by (intro mult_right_mono) simp_all
    then have "es \<le> n * es - es * i" by (simp add: algebra_simps)
    then show ?thesis by (simp add: drop_take min_def algebra_simps)
  qed
  then show ?thesis using assms l by (intro nth_equalityI) (simp_all add: chunks_of_def)
qed

lemma decode_all_nth: "decode_all point bs = Some pts \<longleftrightarrow> map point bs = map Some pts"
  by (induction bs arbitrary: pts) (auto split: option.splits)

lemma decode_all_part:
  assumes "decode_all point bs = Some pts"
  shows "decode_all point (take n (drop lo bs)) = Some (take n (drop lo pts))"
proof -
  have "map point (take n (drop lo bs)) = take n (drop lo (map point bs))" by (simp add: take_map drop_map)
  also have "\<dots> = map Some (take n (drop lo pts))" using assms unfolding decode_all_nth by (simp add: take_map drop_map)
  finally show ?thesis unfolding decode_all_nth .
qed

text \<open>The points of a section, and a range of them.\<close>

lemma point_range_exact:
  assumes "length f < 2 ^ 63" and "section_ok f sec" and "map_of (Sections (src_idx s)) name = Some sec" and "src_ra s = file_at f"
    and "sec_Len sec < 2 ^ (W - 1)" and "0 < W"
    and "point_decoder (nat (sec_ElemSize sec)) dcd point"
    and "decode_all point (chunks_of (nat (sec_ElemSize sec)) (section_bytes f sec)) = Some pts"
  shows "int (length pts) = sec_Len sec div sec_ElemSize sec"
    and "0 \<le> lo \<Longrightarrow> lo \<le> hi \<Longrightarrow> hi \<le> int (length pts) \<Longrightarrow> point_range W dcd s name lo hi = Inr (take (nat (hi - lo)) (drop (nat lo) pts))"
proof -
  let ?es = "nat (sec_ElemSize sec)"
  have es: "0 < ?es" "int ?es = sec_ElemSize sec" using section_ok_es [OF assms(2)] by simp_all
  have L: "length (section_bytes f sec) = nat (sec_Len sec)" using length_section_bytes [OF assms(2)] by simp
  have nn: "0 \<le> sec_Len sec" "sec_ElemSize sec dvd sec_Len sec" using assms(2) by (simp_all add: section_ok_def)
  have c: "int (length (section_bytes f sec) div ?es) = sec_Len sec div sec_ElemSize sec" using nn es by (simp add: L zdiv_int)
  have "length pts = length (section_bytes f sec) div ?es"
    using assms(8) length_chunks_of by (metis decode_all_nth length_map)
  then show n: "int (length pts) = sec_Len sec div sec_ElemSize sec" using c by simp
  assume r: "0 \<le> lo" "lo \<le> hi" "hi \<le> int (length pts)"
  show "point_range W dcd s name lo hi = Inr (take (nat (hi - lo)) (drop (nat lo) pts))"
  proof (cases "lo = hi")
    case True
    then show ?thesis using r n by (simp add: point_range_def lookup_section_def assms(3) point_count [OF assms(2,5,6)] fail_if_def)
  next
    case False
    note b = range_bounds [OF assms(2) r(1,2) r(3) [unfolded n]]
    let ?n = "(hi - lo) * sec_ElemSize sec" and ?l = "lo * sec_ElemSize sec"
    have o: "sec_Offset sec + sec_Len sec < 2 ^ 63" "0 \<le> sec_Offset sec" using assms(1,2) by (auto simp: section_ok_def)
    have w: "wrap64 ?l = ?l" "wrap64 ?n = ?n" "wrap64 (sec_Offset sec + ?l) = sec_Offset sec + ?l"
      using b o by (intro wrap64_id; linarith)+
    let ?part = "take (nat (hi - lo) * ?es) (drop (nat lo * ?es) (section_bytes f sec))"
    have part: "file_at f (sec_Offset sec + ?l) (nat ?n) = Inr ?part"
      using file_at_part [OF assms(2) b] r es by (simp add: nat_mult_distrib)
    have in_s: "nat lo + nat (hi - lo) \<le> length (section_bytes f sec) div ?es" using r c n by linarith
    then have "(nat lo + nat (hi - lo)) * ?es \<le> length (section_bytes f sec)" using es by (simp add: less_eq_div_iff_mult_less_eq)
    then have lp: "length ?part = nat (hi - lo) * ?es" by (simp add: algebra_simps)
    have "hi - lo < 2 ^ 32" using r n assms(2) unfolding section_ok_def by linarith
    then have small: "nat (hi - lo) < 2 ^ 32" by (simp add: nat_less_iff)
    have "PrefixLength (hi - lo) = be_bytes 4 (nat (hi - lo))" using small r by (simp add: PrefixLength_def)
    moreover have "dcd (be_bytes 4 (length ?part div ?es) @ ?part) = decode_all point (chunks_of ?es ?part)"
    proof (rule assms(7) [unfolded point_decoder_def, rule_format])
      show "?es dvd length ?part" "length ?part div ?es < 2 ^ 32" unfolding lp using small es(1) by simp_all
    qed
    moreover have "chunks_of ?es ?part = take (nat (hi - lo)) (drop (nat lo) (chunks_of ?es (section_bytes f sec)))"
      by (rule chunks_of_part [OF es(1) in_s])
    moreover have "length ?part div ?es = nat (hi - lo)" using lp es(1) by simp
    ultimately have "dcd (PrefixLength (hi - lo) @ ?part) = Some (take (nat (hi - lo)) (drop (nat lo) pts))"
      using decode_all_part [OF assms(8)] by simp
    then show ?thesis using False r n part
      by (simp add: point_range_def lookup_section_def assms(3,4) point_count [OF assms(2,5,6)] fail_if_def Let_def w decodeSection_def)
  qed
qed


section \<open>A range server\<close>

text \<open>A server that answers a range request for a file, with the range or with the whole file.\<close>

definition serves :: "(string \<Rightarrow> (nat \<times> bytes) res) \<Rightarrow> bytes \<Rightarrow> bool" where
  "serves get f \<longleftrightarrow> (\<forall>off n. 0 < n \<longrightarrow> off + n \<le> length f \<longrightarrow>
     get (range_header (int off) (int (off + n) - 1)) \<in> {Inr (206, take n (drop off f)), Inr (200, f)})"

lemma http_at_exact:
  assumes "serves get f" and "length f < 2 ^ 63" and "off + n \<le> length f"
  shows "http_at get (int off) n = Inr (take n (drop off f))"
proof (cases "n = 0")
  case True
  then show ?thesis by (simp add: http_at_def httpRangeAt_ReadAt_def)
next
  case False
  have w: "wrap64 (int off + int n - 1) = int (off + n) - 1" using assms(2,3) False by (simp add: wrap64_id)
  have "get (range_header (int off) (int (off + n) - 1)) \<in> {Inr (206, take n (drop off f)), Inr (200, f)}"
    using assms(1,3) False by (simp add: serves_def)
  then show ?thesis using assms(3) False by (auto simp: http_at_def httpRangeAt_ReadAt_def Let_def w ReadFull_body_def)
qed

section \<open>The small fields\<close>

text \<open>The FFT domain of gnark-crypto: its fields are field elements, given as residues.\<close>

record fft_domain =
  Cardinality :: u64
  CardinalityInv :: int
  Generator :: int
  GeneratorInv :: int
  FrMultiplicativeGen :: int
  FrMultiplicativeGenInv :: int

text \<open>
  What the library does, as parameters: \<open>fl_read\<close> decodes a domain from a stream and returns the rest of
  it, \<open>fl_generator\<close> says whether the field has a generator of that order, \<open>fl_new\<close> is
  \<^verbatim>\<open>fft.NewDomain\<close>, and the two point decoders return the rest of the stream.
\<close>

record ('p, 'q) field_lib =
  fl_read :: "bool \<Rightarrow> bytes \<Rightarrow> (fft_domain \<times> bytes) option"
  fl_generator :: "u64 \<Rightarrow> bool"
  fl_new :: "u64 \<Rightarrow> fft_domain"
  fl_G1 :: "bytes \<Rightarrow> ('p \<times> bytes) option"
  fl_G2 :: "bytes \<Rightarrow> ('q \<times> bytes) option"

definition validateCanonicalDomain :: "('p, 'q) field_lib \<Rightarrow> fft_domain \<Rightarrow> unit res" where
  "validateCanonicalDomain L d =
     bind_r (fail_if (Cardinality d = 0 \<or> Cardinality d AND (Cardinality d - 1) \<noteq> 0) ''cardinality is not a power of two'') (\<lambda>_.
     bind_r (fail_if (\<not> fl_generator L (Cardinality d)) ''canonical field cardinality mismatch'') (\<lambda>_.
     let expected = fl_new L (Cardinality d) in all_ok [
       fail_if (Cardinality d \<noteq> Cardinality expected) ''canonical field cardinality mismatch'',
       fail_if (CardinalityInv d \<noteq> CardinalityInv expected) ''canonical field cardinalityInv mismatch'',
       fail_if (Generator d \<noteq> Generator expected) ''canonical field generator mismatch'',
       fail_if (GeneratorInv d \<noteq> GeneratorInv expected) ''canonical field generatorInv mismatch'',
       fail_if (FrMultiplicativeGen d \<noteq> FrMultiplicativeGen expected) ''canonical field shift mismatch'',
       fail_if (FrMultiplicativeGenInv d \<noteq> FrMultiplicativeGenInv expected) ''canonical field shiftInv mismatch'']))"

definition decodeDomainHeader :: "('p, 'q) field_lib \<Rightarrow> bytes \<Rightarrow> bool \<Rightarrow> fft_domain res" where
  "decodeDomainHeader L header precompute =
     bind_r (fail_if (length header \<noteq> DomainHeaderBytes) ''decode domain: header size'') (\<lambda>_.
     bind_r (fail_if (header ! (DomainHeaderBytes - 1) > 1) ''decode domain: precompute flag byte is not canonical'') (\<lambda>_.
     case fl_read L precompute header of
       None \<Rightarrow> Inl (Err ''decode domain'')
     | Some (d, rest) \<Rightarrow>
         bind_r (fail_if (rest \<noteq> []) ''decode domain: trailing bytes'') (\<lambda>_.
         bind_r (wrap ''decode domain'' (validateCanonicalDomain L d)) (\<lambda>_. Inr d))))"

fun decode_points :: "string list \<Rightarrow> (bytes \<Rightarrow> ('p \<times> bytes) option) \<Rightarrow> bytes \<Rightarrow> 'p list res" where
  "decode_points [] d b = Inr []"
| "decode_points (name # names) d b =
     (case d b of None \<Rightarrow> Inl (Err name) | Some (p, b') \<Rightarrow> bind_r (decode_points names d b') (\<lambda>ps. Inr (p # ps)))"

record ('p, 'q) KeySource =
  ks_idx :: PKIndex
  ks_ra :: reader_at
  ks_domain :: fft_domain
  ks_G1 :: "'p list"
  ks_G2 :: "'q list"
  ks_infinityA :: "bool list"
  ks_infinityB :: "bool list"
  ks_commitmentKeys :: nat

definition loadSmallFields :: "('p, 'q) field_lib \<Rightarrow> bool \<Rightarrow> PKIndex \<Rightarrow> reader_at \<Rightarrow> ('p, 'q) KeySource res" where
  "loadSmallFields L precompute idx ra =
     bind_r (ValidatePKIndex idx) (\<lambda>_.
     bind_r (wrap ''read domain header'' (ra 0 DomainHeaderBytes)) (\<lambda>domainBuf.
     bind_r (decodeDomainHeader L domainBuf precompute) (\<lambda>d.
     bind_r (wrap ''read G1 singletons'' (ra (int DomainHeaderBytes) (3 * G1RawBytes))) (\<lambda>g1.
     bind_r (decode_points [''decode Alpha'', ''decode Beta'', ''decode Delta''] (fl_G1 L) g1) (\<lambda>g1pts.
     bind_r (lookup_section idx ''K'') (\<lambda>kSec.
     bind_r (wrap ''read G2 singletons'' (ra (wrap64 (sec_Offset kSec + sec_Len kSec)) (2 * G2RawBytes))) (\<lambda>g2.
     bind_r (decode_points [''decode G2.Beta'', ''decode G2.Delta''] (fl_G2 L) g2) (\<lambda>g2pts.
     bind_r (lookup_section idx ''G2B'') (\<lambda>g2bSec.
     bind_r (fail_if (uint (NbWires idx) > 0x7FFFFFFF div 2) ''nbWires overflows int on wasm32'') (\<lambda>_.
     let nbWires = unat (NbWires idx) in
     bind_r (wrap ''read infinity bitmaps'' (ra (wrap64 (sec_Offset g2bSec + sec_Len g2bSec)) (3 * 8 + 2 * nbWires))) (\<lambda>infBuf.
     Inr \<lparr>ks_idx = idx, ks_ra = ra, ks_domain = d, ks_G1 = g1pts, ks_G2 = g2pts,
       ks_infinityA = map (\<lambda>i. infBuf ! (24 + i) \<noteq> 0) [0..<nbWires],
       ks_infinityB = map (\<lambda>i. infBuf ! (24 + nbWires + i) \<noteq> 0) [0..<nbWires],
       ks_commitmentKeys = unat (NbCommitmentKeys idx)\<rparr>)))))))))))"

definition OpenKeyFile :: "('p, 'q) field_lib \<Rightarrow> bool \<Rightarrow> bytes \<Rightarrow> ('p, 'q) KeySource res" where
  "OpenKeyFile L precompute f = bind_r (BuildPKIndex f) (\<lambda>idx. loadSmallFields L precompute idx (file_at f))"

definition OpenKeyURL :: "('p, 'q) field_lib \<Rightarrow> bool \<Rightarrow> PKIndex \<Rightarrow> (string \<Rightarrow> (nat \<times> bytes) res) \<Rightarrow> ('p, 'q) KeySource res" where
  "OpenKeyURL L precompute idx get =
     bind_r (ValidatePKIndex idx) (\<lambda>_. wrap ''open proving key URL'' (loadSmallFields L precompute idx (http_at get)))"

text \<open>The small fields of a key are decoded from its parts.\<close>

lemma lookup_fixed:
  assumes "pk_ok k"
  shows "\<exists>sec. lookup_section (pk_index k) ''K'' = Inr sec \<and>
      sec_Offset sec + sec_Len sec = int (length (pk_head k @ concat (map (vec 96) (pp_sections k))))"
    and "\<exists>sec. lookup_section (pk_index k) ''G2B'' = Inr sec \<and>
      sec_Offset sec + sec_Len sec = int (length (pk_head k @ concat (map (vec 96) (pp_sections k)) @ pp_g2 k @ vec 192 (pp_G2B k)))"
proof -
  have "length (pp_sections k) = 4" using assms by (simp add: pk_ok_def)
  then obtain a b z c where s: "pp_sections k = [a, b, z, c]" by (auto simp: numeral_eq_Suc length_Suc_conv)
  let ?l = "\<lambda>p. length (vec 96 p)"
  let ?h = "length (pk_head k)"
  have u: "pk_section_list 0 k = [section_at ''A'' 96 ?h a, section_at ''B'' 96 (?h + ?l a) b, section_at ''Z'' 96 (?h + ?l a + ?l b) z,
      section_at ''K'' 96 (?h + ?l a + ?l b + ?l z) c,
      section_at ''G2B'' 192 (?h + (?l a + (?l b + (?l z + ?l c))) + length (pp_g2 k)) (pp_G2B k)] @
      drop 5 (pk_section_list 0 k)"
    unfolding pk_section_list_def Let_def s by (simp add: add.assoc)
  have lk: "lookup_section (pk_index k) name = (case map_of (map (\<lambda>sec. (sec_Name sec, sec)) (pk_section_list 0 k)) name of
      None \<Rightarrow> Inl (Err ''section not found'') | Some sec \<Rightarrow> Inr sec)" for name
    by (simp add: lookup_section_def pk_index_sections [OF assms])
  show "\<exists>sec. lookup_section (pk_index k) ''K'' = Inr sec \<and>
      sec_Offset sec + sec_Len sec = int (length (pk_head k @ concat (map (vec 96) (pp_sections k))))"
    unfolding lk by (subst u) (simp add: s section_at_def vec_def)
  show "\<exists>sec. lookup_section (pk_index k) ''G2B'' = Inr sec \<and>
      sec_Offset sec + sec_Len sec = int (length (pk_head k @ concat (map (vec 96) (pp_sections k)) @ pp_g2 k @ vec 192 (pp_G2B k)))"
    unfolding lk by (subst u) (simp add: s section_at_def vec_def)
qed


definition reads_file :: "reader_at \<Rightarrow> bytes \<Rightarrow> bool" where
  "reads_file ra f \<longleftrightarrow> (\<forall>off n. off + n \<le> length f \<longrightarrow> ra (int off) n = Inr (take n (drop off f)))"

lemma reads_file_at: "reads_file (file_at f) f"
  by (simp add: reads_file_def file_at_def)

lemma reads_file_http: "serves get f \<Longrightarrow> length f < 2 ^ 63 \<Longrightarrow> reads_file (http_at get) f"
  by (simp add: reads_file_def http_at_exact)

lemma reads_part:
  assumes "reads_file ra f" and "f = u @ v @ w" and "off = int (length u)" and "n = length v"
  shows "ra off n = Inr v"
  using assms by (simp add: reads_file_def)

definition small_fields :: "('p, 'q) field_lib \<Rightarrow> bool \<Rightarrow> pk_parts \<Rightarrow> reader_at \<Rightarrow> ('p, 'q) KeySource res" where
  "small_fields L precompute k ra =
     bind_r (decodeDomainHeader L (pp_domain k) precompute) (\<lambda>d.
     bind_r (decode_points [''decode Alpha'', ''decode Beta'', ''decode Delta''] (fl_G1 L) (pp_g1 k)) (\<lambda>g1pts.
     bind_r (decode_points [''decode G2.Beta'', ''decode G2.Delta''] (fl_G2 L) (pp_g2 k)) (\<lambda>g2pts.
     bind_r (fail_if (unat (pp_wires k) \<ge> 2 ^ 30) ''nbWires overflows int on wasm32'') (\<lambda>_.
     Inr \<lparr>ks_idx = pk_index k, ks_ra = ra, ks_domain = d, ks_G1 = g1pts, ks_G2 = g2pts,
       ks_infinityA = map (\<lambda>b. b \<noteq> 0) (take (unat (pp_wires k)) (pp_bitmaps k)),
       ks_infinityB = map (\<lambda>b. b \<noteq> 0) (drop (unat (pp_wires k)) (pp_bitmaps k)),
       ks_commitmentKeys = length (pp_keys k) div 2\<rparr>))))"

lemma loadSmallFields_parts:
  assumes "pk_ok k" and "length (pk_bytes k) < 2 ^ 63" and "reads_file ra (pk_bytes k)"
  shows "loadSmallFields L precompute (pk_index k) ra = small_fields L precompute k ra"
proof -
  let ?f = "pk_bytes k" and ?w = "unat (pp_wires k)"
  let ?S = "concat (map (vec 96) (pp_sections k))"
  have ok: "length (pp_domain k) = 169" "length (pp_g1 k) = 288" "length (pp_g2 k) = 384" "length (pp_bitmaps k) = 2 * ?w"
    "length (pp_keys k) div 2 < 2 ^ 32" using assms(1) by (simp_all add: pk_ok_def less_mult_imp_div_less)
  have v: "ValidatePKIndex (pk_index k) = Inr ()"
    using built_index_valid [OF assms(2), of "pk_index k"] BuildPKIndex_exact [OF assms(2)] assms(1) by blast
  obtain sk where sk: "lookup_section (pk_index k) ''K'' = Inr sk" "sec_Offset sk + sec_Len sk = int (length (pk_head k @ ?S))"
    using lookup_fixed(1) [OF assms(1)] by blast
  obtain sg where sg: "lookup_section (pk_index k) ''G2B'' = Inr sg"
      "sec_Offset sg + sec_Len sg = int (length (pk_head k @ ?S @ pp_g2 k @ vec 192 (pp_G2B k)))"
    using lookup_fixed(2) [OF assms(1)] by blast
  have f: "?f = pp_domain k @ pp_g1 k @ ?S @ pp_g2 k @ vec 192 (pp_G2B k) @ pk_middle k @ concat (map (vec 96) (pp_keys k))"
    by (simp add: pk_bytes_def pk_head_def)
  have wr: "wrap64 (int (length u)) = int (length u)" if "?f = u @ v" for u v
  proof -
    have "length u \<le> length ?f" using that by simp
    then show ?thesis using assms(2) by (intro wrap64_id) simp_all
  qed
  have r1: "ra 0 DomainHeaderBytes = Inr (pp_domain k)"
    by (rule reads_part [OF assms(3), of "[]"]) (simp_all add: f ok DomainHeaderBytes_def)
  have r2: "ra (int DomainHeaderBytes) (3 * G1RawBytes) = Inr (pp_g1 k)"
    by (rule reads_part [OF assms(3) f]) (simp_all add: ok DomainHeaderBytes_def G1RawBytes_def)
  have r3: "ra (wrap64 (sec_Offset sk + sec_Len sk)) (2 * G2RawBytes) = Inr (pp_g2 k)"
    by (rule reads_part [OF assms(3), of "pk_head k @ ?S"]) (simp_all add: pk_bytes_def sk(2) wr [of "pk_head k @ ?S"] ok G2RawBytes_def del: length_append)
  let ?inf = "be_bytes 8 ?w @ be_bytes 8 (unat (pp_infinityA k)) @ be_bytes 8 (unat (pp_infinityB k)) @ pp_bitmaps k"
  have r4: "ra (wrap64 (sec_Offset sg + sec_Len sg)) (3 * 8 + 2 * ?w) = Inr ?inf"
    by (rule reads_part [OF assms(3), of "pk_head k @ ?S @ pp_g2 k @ vec 192 (pp_G2B k)"])
      (simp_all add: pk_bytes_def pk_middle_def sg(2) wr [of "pk_head k @ ?S @ pp_g2 k @ vec 192 (pp_G2B k)"] ok del: length_append, simp add: ok)
  have a: "map (\<lambda>i. ?inf ! (24 + i) \<noteq> 0) [0..<?w] = map (\<lambda>b. b \<noteq> 0) (take ?w (pp_bitmaps k))"
    by (rule nth_equalityI) (simp_all add: ok nth_append)
  have b: "map (\<lambda>i. ?inf ! (24 + ?w + i) \<noteq> 0) [0..<?w] = map (\<lambda>b. b \<noteq> 0) (drop ?w (pp_bitmaps k))"
    by (rule nth_equalityI) (simp_all add: ok nth_append add.assoc)
  have n: "NbWires (pk_index k) = pp_wires k" "unat (NbCommitmentKeys (pk_index k)) = length (pp_keys k) div 2"
    using ok(5) by (simp_all add: pk_index_def pk_index_at_def unat_word_of_nat)
  have c: "uint (pp_wires k) > 0x7FFFFFFF div 2 \<longleftrightarrow> ?w \<ge> 2 ^ 30"
  proof -
    have "uint (pp_wires k) = int ?w" by simp
    moreover have "(0x7FFFFFFF :: int) div 2 = 2 ^ 30 - 1" "(2 :: int) ^ 30 = int (2 ^ 30)" by simp_all
    ultimately show ?thesis by linarith
  qed
  show ?thesis
    unfolding loadSmallFields_def small_fields_def v r1 r2 r3 sk(1) sg(1) n c r4 Let_def wrap.simps bind_r.simps a b ..
qed

text \<open>Opening a key from its file and from a server that serves the file read the same fields.\<close>

lemma OpenKey_parts:
  assumes "pk_ok k" and "length (pk_bytes k) < 2 ^ 63"
  shows "OpenKeyFile L precompute (pk_bytes k) = small_fields L precompute k (file_at (pk_bytes k))"
    and "serves get (pk_bytes k) \<Longrightarrow>
      OpenKeyURL L precompute (pk_index k) get = wrap ''open proving key URL'' (small_fields L precompute k (http_at get))"
proof -
  have b: "BuildPKIndex (pk_bytes k) = Inr (pk_index k)" using BuildPKIndex_exact [OF assms(2)] assms(1) by blast
  show "OpenKeyFile L precompute (pk_bytes k) = small_fields L precompute k (file_at (pk_bytes k))"
    by (simp add: OpenKeyFile_def b loadSmallFields_parts [OF assms reads_file_at])
  show "OpenKeyURL L precompute (pk_index k) get = wrap ''open proving key URL'' (small_fields L precompute k (http_at get))"
    if "serves get (pk_bytes k)"
    using built_index_valid [OF assms(2) b]
    by (simp add: OpenKeyURL_def loadSmallFields_parts [OF assms reads_file_http [OF that assms(2)]])
qed

end
