(* ===== verification/MsmEngine.thy ===== *)
theory MsmEngine
  imports PkRange
begin

text \<open>
  The multi-exponentiation engine, from \<^verbatim>\<open>internal/msmengine\<close>: the partition of the index interval
  (\<^verbatim>\<open>partition.go\<close>), the CPU engine (\<^verbatim>\<open>cpu.go\<close>), the messages and the kernel of a worker
  (\<^verbatim>\<open>serialize.go\<close>), the assignment of shards to workers (\<^verbatim>\<open>shard_affinity.go\<close>) and the transforms with
  their cached coset table (\<^verbatim>\<open>hfft_kernel.go\<close>). G1 and G2 share one definition over a commutative monoid.

  \<open>cpu_MSMRanged_exact\<close> and \<open>shards_exact\<close> say that partial sums over the ranges are the sum over
  the whole vector, \<open>section_fetches\<close> that the ranges of an opened proving key deliver that vector,
  \<open>affinity_exact\<close> that the blocks of the workers are the shards in order, and
  \<open>hTransformVector_exact\<close> that the cache cannot be observed.
\<close>

section \<open>The partition\<close>

text \<open>The loop of \<^verbatim>\<open>partitionRanges\<close>; \<open>k\<close> ranges are left.\<close>

fun partition_loop :: "int \<Rightarrow> int \<Rightarrow> nat \<Rightarrow> int \<Rightarrow> (int \<times> int) list" where
  "partition_loop n base 0 lo = []"
| "partition_loop n base (Suc k) lo =
     (let hi = (if k = 0 then n else lo + base);
          hi = (if hi > n then n else hi)
      in (lo, hi) # partition_loop n base k hi)"

definition partitionRanges :: "int \<Rightarrow> int \<Rightarrow> (int \<times> int) list" where
  "partitionRanges n workers =
     (let workers = (if workers < 1 then 1 else workers);
          n = (if n < 0 then 0 else n)
      in partition_loop n (n div workers) (nat workers) 0)"

definition nonEmptyRanges :: "(int \<times> int) list \<Rightarrow> (int \<times> int) list" where
  "nonEmptyRanges ranges = filter (\<lambda>r. snd r > fst r) ranges"

text \<open>Group elements are of a commutative monoid; the zero value of a Jacobian point is its zero.\<close>

definition combine :: "'g::comm_monoid_add list \<Rightarrow> 'g" where
  "combine parts = foldl (+) 0 parts"

section \<open>The CPU engine\<close>

text \<open>
  \<^verbatim>\<open>MultiExp\<close> of gnark-crypto is given as \<open>mexp\<close>; \<open>multi_exp\<close> is its documented behaviour: the sum of the
  multiples, or an error when the two lists differ in length.
\<close>

definition multi_exp :: "('f \<Rightarrow> 'p \<Rightarrow> 'g::comm_monoid_add) \<Rightarrow> ('p list \<Rightarrow> 'f list \<Rightarrow> 'g option) \<Rightarrow> bool" where
  "multi_exp smul mexp \<longleftrightarrow> (\<forall>ps ss. mexp ps ss =
     (if length ps = length ss then Some (\<Sum>(p, s) \<leftarrow> zip ps ss. smul s p) else None))"

definition go_slice :: "int \<Rightarrow> int \<Rightarrow> 'a list \<Rightarrow> 'a list" where
  "go_slice lo hi xs = take (nat (hi - lo)) (drop (nat lo) xs)"

definition cpuRangeChunks :: int where "cpuRangeChunks = 4"

definition cpu_MSM :: "('p list \<Rightarrow> 'f list \<Rightarrow> 'g option) \<Rightarrow> 'p list \<Rightarrow> 'f list \<Rightarrow> 'g res \<times> (int \<times> int) list" where
  "cpu_MSM mexp points scalars =
     (case mexp points scalars of
        None \<Rightarrow> (Inl (Err ''multiexp''), [])
      | Some g \<Rightarrow> (Inr g, [(int (length scalars), int (length scalars))]))"

text \<open>The loop over the ranges: the sum so far, the number of scalars done, and the progress reported.\<close>

fun msm_ranges :: "('p list \<Rightarrow> 'f list \<Rightarrow> 'g::comm_monoid_add option) \<Rightarrow> (int \<Rightarrow> int \<Rightarrow> 'p list res) \<Rightarrow> 'f list \<Rightarrow> int \<Rightarrow>
    (int \<times> int) list \<Rightarrow> 'g \<Rightarrow> int \<Rightarrow> (int \<times> int) list \<Rightarrow> 'g res \<times> (int \<times> int) list" where
  "msm_ranges mexp fetch scalars n [] acc d prog = (Inr acc, prog)"
| "msm_ranges mexp fetch scalars n ((lo, hi) # rs) acc d prog =
     (case fetch lo hi of
        Inl e \<Rightarrow> (Inl (Wrap ''fetch'' e), prog)
      | Inr pts \<Rightarrow>
          if int (length pts) \<noteq> hi - lo then (Inl (Err ''fetch returned another number of points''), prog)
          else (case mexp pts (go_slice lo hi scalars) of
              None \<Rightarrow> (Inl (Err ''multiexp''), prog)
            | Some part \<Rightarrow> msm_ranges mexp fetch scalars n rs (acc + part) (d + (hi - lo)) (prog @ [(d + (hi - lo), n)])))"

definition cpu_MSMRanged :: "('p list \<Rightarrow> 'f list \<Rightarrow> 'g::comm_monoid_add option) \<Rightarrow> int \<Rightarrow> (int \<Rightarrow> int \<Rightarrow> 'p list res) \<Rightarrow> 'f list \<Rightarrow>
    'g res \<times> (int \<times> int) list" where
  "cpu_MSMRanged mexp n fetch scalars =
     (if int (length scalars) \<noteq> n then (Inl (Err ''scalars vs n''), [])
      else
        let ranges = nonEmptyRanges (partitionRanges n cpuRangeChunks);
            (r, prog) = msm_ranges mexp fetch scalars n ranges 0 0 []
        in (r, if ranges = [] then [(0, n)] else prog))"

section \<open>Worker messages\<close>

text \<open>
  Points travel as raw bytes and scalars as 32-byte big-endian numbers. \<open>raw\<close> and \<open>unraw\<close> are
  \<^verbatim>\<open>RawBytes\<close> and \<^verbatim>\<open>SetBytes\<close>; \<open>q\<close> is the order of the scalar field, modulo which a scalar is decoded.
\<close>

definition scalarSize :: nat where "scalarSize = 32"

definition marshalPoints :: "('p \<Rightarrow> bytes) \<Rightarrow> 'p list \<Rightarrow> bytes" where
  "marshalPoints raw pts = concat (map raw pts)"

definition marshalScalars :: "nat list \<Rightarrow> bytes" where
  "marshalScalars ss = concat (map (be_bytes scalarSize) ss)"

definition unmarshalPoints :: "nat \<Rightarrow> (bytes \<Rightarrow> 'p option) \<Rightarrow> bytes \<Rightarrow> 'p list res" where
  "unmarshalPoints sz unraw buf =
     bind_r (fail_if (length buf mod sz \<noteq> 0) ''point buffer length'') (\<lambda>_.
     case decode_all unraw (chunks_of sz buf) of None \<Rightarrow> Inl (Err ''point'') | Some pts \<Rightarrow> Inr pts)"

definition unmarshalPointsPinned :: "nat \<Rightarrow> (bytes \<Rightarrow> 'p list option) \<Rightarrow> ('p \<Rightarrow> bool) \<Rightarrow> bytes \<Rightarrow> 'p list res" where
  "unmarshalPointsPinned sz dcd onCurve buf =
     bind_r (fail_if (length buf mod sz \<noteq> 0) ''point buffer length'') (\<lambda>_.
     case dcd (PrefixLength (int (length buf div sz)) @ buf) of
       None \<Rightarrow> Inl (Err ''decode'')
     | Some pts \<Rightarrow> bind_r (fail_if (\<not> list_all onCurve pts) ''point is not on curve'') (\<lambda>_. Inr pts))"

definition unmarshalScalarsWithStats :: "nat \<Rightarrow> bytes \<Rightarrow> (nat list \<times> nat) res" where
  "unmarshalScalarsWithStats q buf =
     bind_r (fail_if (length buf mod scalarSize \<noteq> 0) ''scalar buffer length'') (\<lambda>_.
     let scs = map (\<lambda>b. be_val b mod q) (chunks_of scalarSize buf) in Inr (scs, length (filter (\<lambda>s. s \<noteq> 0) scs)))"

definition unmarshalScalars :: "nat \<Rightarrow> bytes \<Rightarrow> nat list res" where
  "unmarshalScalars q buf = bind_r (unmarshalScalarsWithStats q buf) (\<lambda>(scs, _). Inr scs)"

text \<open>The kernel of a worker; \<open>pts\<close> is either way of decoding the points, \<open>enc\<close> encodes the partial sum.\<close>

definition shardBytes :: "(bytes \<Rightarrow> 'p list res) \<Rightarrow> ('p list \<Rightarrow> nat list \<Rightarrow> 'g::comm_monoid_add option) \<Rightarrow> ('g \<Rightarrow> bytes) \<Rightarrow> nat \<Rightarrow>
    bytes \<Rightarrow> bytes \<Rightarrow> bytes res" where
  "shardBytes pts mexp enc q ptsBuf scsBuf =
     bind_r (pts ptsBuf) (\<lambda>ps.
     bind_r (unmarshalScalarsWithStats q scsBuf) (\<lambda>(scs, nonzero).
     bind_r (fail_if (length ps \<noteq> length scs) ''points vs scalars'') (\<lambda>_.
     if ps = [] then Inr (enc 0)
     else (case mexp ps scs of None \<Rightarrow> Inl (Err ''multiexp'') | Some g \<Rightarrow> Inr (enc g)))))"

section \<open>Worker affinity\<close>

record affinity =
  byWorker :: "int list list"
  workerByShard :: "int list"

fun affinity_loop :: "int \<Rightarrow> int \<Rightarrow> nat \<Rightarrow> int \<Rightarrow> int \<Rightarrow> int list list" where
  "affinity_loop base extra 0 slot nextShard = []"
| "affinity_loop base extra (Suc k) slot nextShard =
     (let blockSize = (if slot < extra then base + 1 else base)
      in map (\<lambda>i. nextShard + int i) [0..<nat blockSize] # affinity_loop base extra k (slot + 1) (nextShard + blockSize))"

definition newContiguousShardAffinity :: "int \<Rightarrow> int \<Rightarrow> affinity" where
  "newContiguousShardAffinity shardCount workerCount =
     (if shardCount \<le> 0 \<or> workerCount \<le> 0 then \<lparr>byWorker = [], workerByShard = []\<rparr>
      else
        let activeWorkers = min shardCount workerCount;
            blocks = affinity_loop (shardCount div activeWorkers) (shardCount mod activeWorkers) (nat activeWorkers) 0 0
        in \<lparr>byWorker = blocks @ replicate (nat (workerCount - activeWorkers)) [],
            workerByShard = fold (\<lambda>(slot, block) m. fold (\<lambda>shard m. m[nat shard := int slot]) block m)
              (enumerate 0 blocks) (replicate (nat shardCount) 0)\<rparr>)"

section \<open>Transforms\<close>

record hTransformParams =
  hp_Inverse :: bool
  hp_Coset :: bool
  hp_Cardinality :: u64

definition hp_validate :: "hTransformParams \<Rightarrow> nat \<Rightarrow> unit res" where
  "hp_validate p n = all_ok [
     fail_if (hp_Cardinality p = 0 \<or> hp_Cardinality p AND (hp_Cardinality p - 1) \<noteq> 0) ''cardinality is not a power of two'',
     fail_if ((of_nat n :: u64) \<noteq> hp_Cardinality p) ''vector length is not the domain cardinality'']"

text \<open>The reusable coset table with the generator it was built for.\<close>

record cosetTable =
  ht_table :: "nat list"
  ht_generator :: nat

definition hCosetTable :: "(nat \<Rightarrow> nat \<Rightarrow> nat list) \<Rightarrow> nat \<Rightarrow> nat \<Rightarrow> cosetTable \<Rightarrow> nat list \<times> cosetTable" where
  "hCosetTable buildExpTable generator sz st =
     (if length (ht_table st) = sz \<and> ht_generator st = generator then (ht_table st, st)
      else let t = buildExpTable generator sz in (t, \<lparr>ht_table = t, ht_generator = generator\<rparr>))"

text \<open>
  The transforms of gnark-crypto: \<open>ff_gen\<close> and \<open>ff_genInv\<close> are the coset generators of the domain of a
  cardinality, \<open>ff_table\<close> builds the powers, and \<open>ff_run\<close> is the transform for a direction and, on a coset, its table.
\<close>

record fft_lib =
  ff_gen :: "u64 \<Rightarrow> nat"
  ff_genInv :: "u64 \<Rightarrow> nat"
  ff_table :: "nat \<Rightarrow> nat \<Rightarrow> nat list"
  ff_run :: "bool \<Rightarrow> nat list option \<Rightarrow> u64 \<Rightarrow> nat list \<Rightarrow> nat list"

definition hTransformVector :: "fft_lib \<Rightarrow> nat list \<Rightarrow> hTransformParams \<Rightarrow> cosetTable \<Rightarrow> nat list res \<times> cosetTable" where
  "hTransformVector L v p st =
     (case hp_validate p (length v) of
        Inl e \<Rightarrow> (Inl e, st)
      | Inr _ \<Rightarrow>
          if hp_Coset p then
            let generator = (if hp_Inverse p then ff_genInv L (hp_Cardinality p) else ff_gen L (hp_Cardinality p));
                (t, st') = hCosetTable (ff_table L) generator (unat (hp_Cardinality p)) st
            in (Inr (ff_run L (hp_Inverse p) (Some t) (hp_Cardinality p) v), st')
          else (Inr (ff_run L (hp_Inverse p) None (hp_Cardinality p) v), st))"

definition hTransformBytes :: "fft_lib \<Rightarrow> nat \<Rightarrow> bytes \<Rightarrow> hTransformParams \<Rightarrow> cosetTable \<Rightarrow> bytes res \<times> cosetTable" where
  "hTransformBytes L q vecBuf p st =
     (case unmarshalScalars q vecBuf of
        Inl e \<Rightarrow> (Inl (Wrap ''hfft'' e), st)
      | Inr v \<Rightarrow> (case hTransformVector L v p st of (r, st') \<Rightarrow> (bind_r r (\<lambda>v. Inr (marshalScalars v)), st')))"

section \<open>The ranges cover the interval\<close>

lemma upto_join: "a \<le> b \<Longrightarrow> b \<le> c \<Longrightarrow> [a..b - 1] @ [b..c - 1] = [a..c - (1::int)]"
  by (cases "b = c") (simp_all add: upto_split1 [of a b "c - 1"])

lemma partition_loop_covers:
  assumes "0 \<le> lo" and "0 \<le> base" and "lo + int k * base \<le> n" and "0 < k"
  shows "concat (map (\<lambda>(a, b). [a..b - 1]) (partition_loop n base k lo)) = [lo..n - 1] \<and>
    (\<forall>(a, b) \<in> set (partition_loop n base k lo). 0 \<le> a \<and> a \<le> b \<and> b \<le> n)"
  using assms
proof (induction k arbitrary: lo)
  case (Suc k)
  show ?case
  proof (cases "k = 0")
    case True
    have "lo \<le> n" using Suc.prems by (auto simp: True)
    then show ?thesis using Suc.prems by (simp add: True)
  next
    case False
    have hi: "(lo + base) + int k * base \<le> n" using Suc.prems by (simp add: algebra_simps)
    moreover have "0 \<le> int k * base" using Suc.prems(2) by simp
    ultimately have le: "lo + base \<le> n" by linarith
    have IH: "concat (map (\<lambda>(a, b). [a..b - 1]) (partition_loop n base k (lo + base))) = [lo + base..n - 1] \<and>
        (\<forall>(a, b) \<in> set (partition_loop n base k (lo + base)). 0 \<le> a \<and> a \<le> b \<and> b \<le> n)"
      using Suc.prems(1,2) hi False by (intro Suc.IH) simp_all
    have "[lo..lo + base - 1] @ [lo + base..n - 1] = [lo..n - 1]" using Suc.prems(2) le by (intro upto_join) simp_all
    then show ?thesis using IH False le Suc.prems(1,2) by (simp add: Let_def)
  qed
qed simp

lemma partitionRanges_covers:
  assumes "0 \<le> n"
  shows "concat (map (\<lambda>(a, b). [a..b - 1]) (partitionRanges n w)) = [0..n - 1]"
    and "(a, b) \<in> set (partitionRanges n w) \<Longrightarrow> 0 \<le> a \<and> a \<le> b \<and> b \<le> n"
    and "length (partitionRanges n w) = nat (max 1 w)"
proof -
  define k where "k = (if w < 1 then 1 else w)"
  have k: "1 \<le> k" "partitionRanges n w = partition_loop n (n div k) (nat k) 0" using assms
    by (simp_all add: k_def partitionRanges_def Let_def)
  have "k * (n div k) \<le> n" using mult_div_mod_eq [of k n] pos_mod_sign [of k n] k(1) by linarith
  then have c: "concat (map (\<lambda>(a, b). [a..b - 1]) (partition_loop n (n div k) (nat k) 0)) = [0..n - 1] \<and>
    (\<forall>(a, b) \<in> set (partition_loop n (n div k) (nat k) 0). 0 \<le> a \<and> a \<le> b \<and> b \<le> n)"
    using assms k(1) by (intro partition_loop_covers) (simp_all add: pos_imp_zdiv_nonneg_iff)
  then show "concat (map (\<lambda>(a, b). [a..b - 1]) (partitionRanges n w)) = [0..n - 1]" by (simp add: k)
  show "0 \<le> a \<and> a \<le> b \<and> b \<le> n" if "(a, b) \<in> set (partitionRanges n w)" using c that unfolding k(2) by blast
  have "length (partition_loop n b j lo) = j" for b j lo by (induction j arbitrary: lo) (simp_all add: Let_def)
  then show "length (partitionRanges n w) = nat (max 1 w)" by (simp add: k(2)) (simp add: k_def)
qed

lemma nonEmptyRanges_covers:
  "(\<And>a b. (a, b) \<in> set rs \<Longrightarrow> a \<le> b) \<Longrightarrow> concat (map (\<lambda>(a, b). [a..b - 1]) (nonEmptyRanges rs)) = concat (map (\<lambda>(a, b). [a..b - 1]) rs)"
  by (induction rs) (force simp: nonEmptyRanges_def)+

section \<open>Partial sums make the whole sum\<close>

text \<open>The elements at a run of indexes, and the sum over a list of ranges.\<close>

definition at_indexes :: "'a list \<Rightarrow> int list \<Rightarrow> 'a list" where
  "at_indexes xs is = map (\<lambda>i. xs ! nat i) is"

lemma at_indexes_go_slice:
  assumes "0 \<le> a" and "a \<le> b" and "b \<le> int (length xs)"
  shows "at_indexes xs [a..b - 1] = go_slice a b xs"
proof (rule nth_equalityI)
  show "length (at_indexes xs [a..b - 1]) = length (go_slice a b xs)" using assms by (simp add: at_indexes_def go_slice_def)
  fix i assume "i < length (at_indexes xs [a..b - 1])"
  then have i: "int i < b - a" by (simp add: at_indexes_def)
  then have "a + int i \<le> b - 1" "nat (a + int i) = nat a + i" "i < nat (b - a)" using assms(1) by (simp_all add: nat_add_distrib)
  then show "at_indexes xs [a..b - 1] ! i = go_slice a b xs ! i" using assms i
    by (simp add: at_indexes_def go_slice_def)
qed

definition msm :: "('f \<Rightarrow> 'p \<Rightarrow> 'g::comm_monoid_add) \<Rightarrow> 'p list \<Rightarrow> 'f list \<Rightarrow> 'g" where
  "msm smul ps ss = (\<Sum>(p, s) \<leftarrow> zip ps ss. smul s p)"

lemma msm_append: "length ps = length ss \<Longrightarrow> msm smul (ps @ ps') (ss @ ss') = msm smul ps ss + msm smul ps' ss'"
  by (simp add: msm_def)

lemma length_go_slice: "0 \<le> a \<Longrightarrow> a \<le> b \<Longrightarrow> b \<le> int (length xs) \<Longrightarrow> length (go_slice a b xs) = nat (b - a)"
  by (simp add: go_slice_def)

text \<open>Partial sums over ranges that cover \<open>[0, n)\<close> add up to the sum over the whole vectors.\<close>

lemma msm_partition:
  assumes "length ps = length ss"
    and "\<And>a b. (a, b) \<in> set rs \<Longrightarrow> 0 \<le> a \<and> a \<le> b \<and> b \<le> int (length ps)"
  shows "(\<Sum>(a, b) \<leftarrow> rs. msm smul (go_slice a b ps) (go_slice a b ss)) =
    msm smul (at_indexes ps (concat (map (\<lambda>(a, b). [a..b - 1]) rs))) (at_indexes ss (concat (map (\<lambda>(a, b). [a..b - 1]) rs)))"
  using assms(2)
proof (induction rs)
  case Nil
  then show ?case by (simp add: msm_def at_indexes_def)
next
  case (Cons r rs)
  obtain a b where r: "r = (a, b)" by (cases r)
  note IH = Cons.IH [OF Cons.prems, OF list.set_intros(2)]
  have ab: "0 \<le> a" "a \<le> b" "b \<le> int (length ps)" "b \<le> int (length ss)" using Cons.prems [of a b] assms(1) by (simp_all add: r)
  have "at_indexes xs (concat (map (\<lambda>(a, b). [a..b - 1]) (r # rs))) = go_slice a b xs @ at_indexes xs (concat (map (\<lambda>(a, b). [a..b - 1]) rs))"
    if "b \<le> int (length xs)" for xs :: "'x list"
    using at_indexes_go_slice [OF ab(1,2) that] by (simp add: r at_indexes_def)
  from this [OF ab(3)] this [OF ab(4)] show ?case using ab by (simp add: r msm_append length_go_slice IH)
qed

lemma at_indexes_all: "at_indexes xs [0..int (length xs) - 1] = xs"
  using at_indexes_go_slice [of 0 "int (length xs)" xs] by (simp add: go_slice_def)

lemma msm_partitionRanges:
  assumes "length ps = length ss"
  shows "(\<Sum>(a, b) \<leftarrow> partitionRanges (int (length ps)) w. msm smul (go_slice a b ps) (go_slice a b ss)) = msm smul ps ss"
    and "(\<Sum>(a, b) \<leftarrow> nonEmptyRanges (partitionRanges (int (length ps)) w). msm smul (go_slice a b ps) (go_slice a b ss)) = msm smul ps ss"
proof -
  have c: "concat (map (\<lambda>(a, b). [a..b - 1]) (partitionRanges (int (length ps)) w)) = [0..int (length ps) - 1]"
      "(a, b) \<in> set (partitionRanges (int (length ps)) w) \<Longrightarrow> 0 \<le> a \<and> a \<le> b \<and> b \<le> int (length ps)" for a b
    using partitionRanges_covers(1,2) [of "int (length ps)"] by simp_all
  have e: "concat (map (\<lambda>(a, b). [a..b - 1]) (nonEmptyRanges (partitionRanges (int (length ps)) w))) = [0..int (length ps) - 1]"
    using nonEmptyRanges_covers [of "partitionRanges (int (length ps)) w"] c(1,2) by simp
  show "(\<Sum>(a, b) \<leftarrow> partitionRanges (int (length ps)) w. msm smul (go_slice a b ps) (go_slice a b ss)) = msm smul ps ss"
    using msm_partition [OF assms, of "partitionRanges (int (length ps)) w", OF c(2)] c(1) at_indexes_all [of ps] at_indexes_all [of ss] assms by simp
  have in_r: "(a, b) \<in> set (nonEmptyRanges (partitionRanges (int (length ps)) w)) \<Longrightarrow> 0 \<le> a \<and> a \<le> b \<and> b \<le> int (length ps)" for a b
    using c(2) by (auto simp: nonEmptyRanges_def)
  from msm_partition [OF assms, of "nonEmptyRanges (partitionRanges (int (length ps)) w)", OF in_r]
  show "(\<Sum>(a, b) \<leftarrow> nonEmptyRanges (partitionRanges (int (length ps)) w). msm smul (go_slice a b ps) (go_slice a b ss)) = msm smul ps ss"
    using e at_indexes_all [of ps] at_indexes_all [of ss] assms by simp
qed


lemma combine_sum_list: "combine parts = sum_list parts"
proof -
  have "foldl (+) a parts = a + sum_list parts" for a by (induction parts arbitrary: a) (simp_all add: ac_simps)
  then show ?thesis by (simp add: combine_def)
qed

lemma multi_exp_Some: "multi_exp smul mexp \<Longrightarrow> length ps = length ss \<Longrightarrow> mexp ps ss = Some (msm smul ps ss)"
  by (simp add: multi_exp_def msm_def)

text \<open>A fetch that delivers the points of every range of a vector.\<close>

definition fetches :: "(int \<Rightarrow> int \<Rightarrow> 'p list res) \<Rightarrow> 'p list \<Rightarrow> bool" where
  "fetches fetch pts \<longleftrightarrow> (\<forall>lo hi. 0 \<le> lo \<longrightarrow> lo \<le> hi \<longrightarrow> hi \<le> int (length pts) \<longrightarrow> fetch lo hi = Inr (go_slice lo hi pts))"

lemma msm_ranges_value:
  assumes "multi_exp smul mexp" and "fetches fetch pts" and "length scalars = length pts"
    and "\<And>a b. (a, b) \<in> set rs \<Longrightarrow> 0 \<le> a \<and> a \<le> b \<and> b \<le> int (length pts)"
  shows "fst (msm_ranges mexp fetch scalars n rs acc d prog) = Inr (acc + (\<Sum>(a, b) \<leftarrow> rs. msm smul (go_slice a b pts) (go_slice a b scalars))) \<and>
    (rs \<noteq> [] \<longrightarrow> last (snd (msm_ranges mexp fetch scalars n rs acc d prog)) = (d + (\<Sum>(a, b) \<leftarrow> rs. b - a), n))"
  using assms(4)
proof (induction rs arbitrary: acc d prog)
  case (Cons r rs)
  obtain a b where r: "r = (a, b)" by (cases r)
  have ab: "0 \<le> a" "a \<le> b" "b \<le> int (length pts)" using Cons.prems by (auto simp: r)
  have f: "fetch a b = Inr (go_slice a b pts)" using assms(2) ab by (simp add: fetches_def)
  have l: "length (go_slice a b pts) = nat (b - a)" "length (go_slice a b scalars) = nat (b - a)"
    using ab assms(3) by (simp_all add: length_go_slice)
  then have m: "mexp (go_slice a b pts) (go_slice a b scalars) = Some (msm smul (go_slice a b pts) (go_slice a b scalars))"
    by (simp add: multi_exp_Some [OF assms(1)])
  have s: "msm_ranges mexp fetch scalars n (r # rs) acc d prog =
      msm_ranges mexp fetch scalars n rs (acc + msm smul (go_slice a b pts) (go_slice a b scalars)) (d + (b - a)) (prog @ [(d + (b - a), n)])"
    using ab by (simp add: r f l m)
  note IH = Cons.IH [OF Cons.prems, OF list.set_intros(2), of "acc + msm smul (go_slice a b pts) (go_slice a b scalars)" "d + (b - a)" "prog @ [(d + (b - a), n)]"]
  show ?case unfolding s using IH by (cases "rs = []") (simp_all add: r add.assoc)
qed simp

lemma sum_ranges: "(\<And>a b. (a, b) \<in> set rs \<Longrightarrow> a \<le> b) \<Longrightarrow> (\<Sum>(a, b) \<leftarrow> rs. b - a) = int (length (concat (map (\<lambda>(a, b). [a..b - 1]) rs)))"
proof (induction rs)
  case (Cons r rs)
  obtain a b where r: "r = (a, b)" by (cases r)
  have "a \<le> b" using Cons.prems by (simp add: r)
  then show ?case using Cons by (simp add: r)
qed simp

text \<open>The ranged multi-exponentiation is the one over the whole vector, and its last progress report is complete.\<close>

lemma cpu_MSMRanged_exact:
  assumes "multi_exp smul mexp" and "fetches fetch pts" and "length scalars = length pts" and "n = int (length pts)"
  shows "fst (cpu_MSMRanged mexp n fetch scalars) = Inr (msm smul pts scalars)"
    and "last (snd (cpu_MSMRanged mexp n fetch scalars)) = (n, n)"
proof -
  let ?rs = "nonEmptyRanges (partitionRanges n cpuRangeChunks)"
  have in_r: "(a, b) \<in> set ?rs \<Longrightarrow> 0 \<le> a \<and> a \<le> b \<and> b \<le> int (length pts)" for a b
    using partitionRanges_covers(2) [of n a b cpuRangeChunks] assms(4) by (auto simp: nonEmptyRanges_def)
  note v = msm_ranges_value [OF assms(1-3) in_r]
  show "fst (cpu_MSMRanged mexp n fetch scalars) = Inr (msm smul pts scalars)"
    using v msm_partitionRanges(2) [OF assms(3) [symmetric], of smul cpuRangeChunks] assms(3,4)
    by (simp add: cpu_MSMRanged_def Let_def split_beta)
  have c: "concat (map (\<lambda>(a, b). [a..b - 1]) ?rs) = [0..n - 1]"
    using nonEmptyRanges_covers [of "partitionRanges n cpuRangeChunks"] partitionRanges_covers(1,2) [of n] assms(4) by simp
  have s: "(\<Sum>(a, b) \<leftarrow> ?rs. b - a) = n" using sum_ranges [of ?rs] in_r c assms(4) by simp
  show "last (snd (cpu_MSMRanged mexp n fetch scalars)) = (n, n)"
  proof (cases "?rs = []")
    case True
    then have "n = 0" using s by simp
    then show ?thesis using True assms(3,4) by (simp add: cpu_MSMRanged_def Let_def split_beta)
  next
    case False
    then show ?thesis using v s assms(3,4) by (simp add: cpu_MSMRanged_def Let_def split_beta)
  qed
qed

section \<open>Messages and shards\<close>

lemma chunks_of_concat:
  assumes "\<And>b. b \<in> set bs \<Longrightarrow> length b = es" and "0 < es"
  shows "length (concat bs) = es * length bs" and "chunks_of es (concat bs) = bs"
proof -
  show l: "length (concat bs) = es * length bs" using assms(1) by (induction bs) simp_all
  have "take es (drop (es * i) (concat bs)) = bs ! i" if "i < length bs" for i
    using assms(1) that
  proof (induction bs arbitrary: i)
    case (Cons b bs)
    have b: "length b = es" using Cons.prems(1) by simp
    show ?case
    proof (cases i)
      case 0
      then show ?thesis using b by simp
    next
      case (Suc j)
      then show ?thesis using b Cons.IH [of j] Cons.prems by simp
    qed
  qed simp
  then show "chunks_of es (concat bs) = bs" using l assms(2) by (intro nth_equalityI) (simp_all add: chunks_of_def)
qed

lemma unmarshalPoints_marshal:
  assumes "\<And>p. length (raw p) = sz" and "0 < sz" and "\<And>p. unraw (raw p) = Some p"
  shows "unmarshalPoints sz unraw (marshalPoints raw pts) = Inr pts"
proof -
  have c: "length (marshalPoints raw pts) = sz * length pts" "chunks_of sz (marshalPoints raw pts) = map raw pts"
    using chunks_of_concat [of "map raw pts" sz] assms(1,2) by (auto simp: marshalPoints_def)
  have "decode_all unraw (map raw pts) = Some pts" by (simp add: decode_all_nth assms(3) comp_def)
  then show ?thesis using c by (simp add: unmarshalPoints_def fail_if_def)
qed

lemma unmarshalScalars_marshal:
  assumes "\<And>s. s \<in> set ss \<Longrightarrow> s < q" and "q \<le> 2 ^ 256"
  shows "unmarshalScalarsWithStats q (marshalScalars ss) = Inr (ss, length (filter (\<lambda>s. s \<noteq> 0) ss))"
proof -
  have b: "b \<in> set (map (be_bytes 32) ss) \<Longrightarrow> length b = 32" for b by auto
  have c: "length (marshalScalars ss) = 32 * length ss" "chunks_of scalarSize (marshalScalars ss) = map (be_bytes 32) ss"
    using chunks_of_concat [of "map (be_bytes 32) ss" 32, OF b] by (simp_all add: marshalScalars_def scalarSize_def)
  have "map (\<lambda>b. be_val b mod q) (map (be_bytes 32) ss) = ss"
  proof (rule nth_equalityI)
    fix i assume "i < length (map (\<lambda>b. be_val b mod q) (map (be_bytes 32) ss))"
    then have i: "i < length ss" "ss ! i < q" using assms(1) by simp_all
    then have "ss ! i < 256 ^ 32" using assms(2) by simp
    then show "map (\<lambda>b. be_val b mod q) (map (be_bytes 32) ss) ! i = ss ! i" using i by (simp add: be_val_be_bytes)
  qed simp
  then show ?thesis using c by (simp add: unmarshalScalarsWithStats_def fail_if_def scalarSize_def Let_def del: map_map)
qed

lemma msm_Nil: "msm smul [] ss = 0"
  by (simp add: msm_def)

text \<open>One shard of a vector, over the wire, and the sum of all of them.\<close>

lemma shardBytes_exact:
  assumes "multi_exp smul mexp" and "pts (marshalPoints raw ps) = Inr ps" and "length ps = length ss"
    and "\<And>s. s \<in> set ss \<Longrightarrow> s < q" and "q \<le> 2 ^ 256"
  shows "shardBytes pts mexp enc q (marshalPoints raw ps) (marshalScalars ss) = Inr (enc (msm smul ps ss))"
  using unmarshalScalars_marshal [OF assms(4,5)] assms(2,3)
  by (simp add: shardBytes_def fail_if_def multi_exp_Some [OF assms(1)] msm_Nil)

definition shard_results :: "(bytes \<Rightarrow> 'p list res) \<Rightarrow> ('p list \<Rightarrow> nat list \<Rightarrow> 'g::comm_monoid_add option) \<Rightarrow> ('g \<Rightarrow> bytes) \<Rightarrow> ('p \<Rightarrow> bytes) \<Rightarrow> nat \<Rightarrow>
    int \<Rightarrow> 'p list \<Rightarrow> nat list \<Rightarrow> bytes res list" where
  "shard_results pts mexp enc raw q workers ps ss =
     map (\<lambda>(a, b). shardBytes pts mexp enc q (marshalPoints raw (go_slice a b ps)) (marshalScalars (go_slice a b ss)))
       (nonEmptyRanges (partitionRanges (int (length ps)) workers))"

lemma shards_exact:
  assumes "multi_exp smul mexp" and "\<And>ps. pts (marshalPoints raw ps) = Inr ps" and "length ps = length ss"
    and "\<And>s. s \<in> set ss \<Longrightarrow> s < q" and "q \<le> 2 ^ 256" and "\<And>g. unenc (enc g) = g"
  shows "\<exists>outs. shard_results pts mexp enc raw q workers ps ss = map Inr outs \<and> combine (map unenc outs) = msm smul ps ss"
proof -
  let ?rs = "nonEmptyRanges (partitionRanges (int (length ps)) workers)"
  let ?out = "\<lambda>(a, b). enc (msm smul (go_slice a b ps) (go_slice a b ss))"
  have "shardBytes pts mexp enc q (marshalPoints raw (go_slice a b ps)) (marshalScalars (go_slice a b ss)) =
      Inr (enc (msm smul (go_slice a b ps) (go_slice a b ss)))" if "(a, b) \<in> set ?rs" for a b
  proof (rule shardBytes_exact [OF assms(1)])
    show "pts (marshalPoints raw (go_slice a b ps)) = Inr (go_slice a b ps)" "q \<le> 2 ^ 256" by (rule assms(2), rule assms(5))
    have "0 \<le> a \<and> a \<le> b \<and> b \<le> int (length ps)" using that partitionRanges_covers(2) [of "int (length ps)" a b workers] by (auto simp: nonEmptyRanges_def)
    then show "length (go_slice a b ps) = length (go_slice a b ss)" using assms(3) by (simp add: length_go_slice)
    show "s < q" if "s \<in> set (go_slice a b ss)" for s using that assms(4) by (auto simp: go_slice_def dest: in_set_takeD in_set_dropD)
  qed
  then have "shard_results pts mexp enc raw q workers ps ss = map Inr (map ?out ?rs)" by (auto simp: shard_results_def)
  moreover have "combine (map unenc (map ?out ?rs)) = msm smul ps ss"
    using msm_partitionRanges(2) [OF assms(3), of smul workers] assms(6) by (simp add: combine_sum_list comp_def case_prod_unfold)
  ultimately show ?thesis by blast
qed


section \<open>Streaming a section\<close>

text \<open>The points of a section of an opened key are fetched range by range.\<close>

lemma section_fetches:
  assumes "length f < 2 ^ 63" and "OpenFile f = Inr s" and "map_of (Sections (src_idx s)) name = Some sec"
    and "sec_Len sec < 2 ^ (W - 1)" and "0 < W" and "point_decoder (nat (sec_ElemSize sec)) dcd point"
    and "decode_all point (chunks_of (nat (sec_ElemSize sec)) (section_bytes f sec)) = Some pts"
  shows "fetches (point_range W dcd s name) pts" and "SectionPointCount W (src_idx s) name = Inr (int (length pts))"
proof -
  note o = opened_sections [OF assms(1,2)]
  have ok: "section_ok f sec" by (rule o(2) [OF map_of_SomeD [OF assms(3)]])
  note e = point_range_exact [OF assms(1) ok assms(3) o(1) assms(4-7)]
  show "fetches (point_range W dcd s name) pts" using e(2) by (simp add: fetches_def go_slice_def)
  show "SectionPointCount W (src_idx s) name = Inr (int (length pts))"
    using e(1) point_count [OF ok assms(4,5)] by (simp add: SectionPointCount_def lookup_section_def assms(3))
qed

section \<open>Contiguous blocks\<close>

lemma affinity_loop_blocks:
  assumes "0 \<le> base" and "0 \<le> next"
  shows "concat (affinity_loop base extra k slot next) =
      [next..next + int k * base + max 0 (min (int k) (extra - slot)) - 1]"
    and "length (affinity_loop base extra k slot next) = k"
    and "block \<in> set (affinity_loop base extra k slot next) \<Longrightarrow> int (length block) \<in> {base, base + 1}"
  using assms
proof (induction k arbitrary: slot "next")
  case (Suc k)
  {
    case 1
    let ?b = "if slot < extra then base + 1 else base"
    have b: "0 \<le> ?b" using 1 by simp
    have m: "map (\<lambda>i. next + int i) [0..<nat ?b] = [next..next + ?b - 1]"
      using b by (intro nth_equalityI) simp_all
    have e: "next + int (Suc k) * base + max 0 (min (int (Suc k)) (extra - slot)) =
        next + ?b + int k * base + max 0 (min (int k) (extra - (slot + 1)))"
      by (cases "slot < extra") (simp_all add: algebra_simps min_def max_def)
    have "concat (affinity_loop base extra (Suc k) slot next) =
        [next..next + ?b - 1] @ [next + ?b..next + ?b + int k * base + max 0 (min (int k) (extra - (slot + 1))) - 1]"
      using Suc.IH(1) [of "next + ?b" "slot + 1"] 1 b m by (simp add: Let_def)
    also have "\<dots> = [next..next + int (Suc k) * base + max 0 (min (int (Suc k)) (extra - slot)) - 1]"
      unfolding e using 1 b by (intro upto_join) simp_all
    finally show ?case .
  next
    case 2
    then show ?case using Suc.IH(2) by (simp add: Let_def)
  next
    case 3
    then show ?case using Suc.IH(3) by (auto simp: Let_def split: if_splits)
  }
qed simp_all


lemma update_run:
  "nat a + n \<le> length m \<Longrightarrow> 0 \<le> a \<Longrightarrow> fold (\<lambda>shard m. m[nat shard := v]) (map (\<lambda>i. a + int i) [0..<n]) m =
     take (nat a) m @ replicate n v @ drop (nat a + n) m"
proof (induction n)
  case (Suc n)
  have "(take (nat a) m @ replicate n v @ drop (nat a + n) m)[nat (a + int n) := v] = take (nat a) m @ replicate (Suc n) v @ drop (nat a + Suc n) m"
  proof -
    have "nat (a + int n) = nat a + n" using Suc.prems by (simp add: nat_add_distrib)
    moreover obtain y ys where y: "drop (nat a + n) m = y # ys" using Suc.prems(1) by (cases "drop (nat a + n) m") simp_all
    moreover have "drop (nat a + Suc n) m = ys" using y by (metis add_Suc_right drop_Suc tl_drop list.sel(3))
    ultimately show ?thesis using Suc.prems(1) by (simp add: list_update_append replicate_append_same)
  qed
  then show ?case using Suc by simp
qed simp

text \<open>The owner of each shard, block by block.\<close>

fun owners :: "nat \<Rightarrow> int list list \<Rightarrow> int list" where
  "owners slot [] = []"
| "owners slot (block # blocks) = replicate (length block) (int slot) @ owners (Suc slot) blocks"

lemma owners_fold:
  assumes "0 \<le> base" and "length pre = nat next" and "0 \<le> next"
    and "length rest = length (concat (affinity_loop base extra k slot next))"
  shows "fold (\<lambda>(slot, block) m. fold (\<lambda>shard m. m[nat shard := int slot]) block m) (enumerate j (affinity_loop base extra k slot next)) (pre @ rest) =
     pre @ owners j (affinity_loop base extra k slot next)"
  using assms
proof (induction k arbitrary: slot "next" j pre rest)
  case (Suc k)
  let ?b = "if slot < extra then base + 1 else base"
  let ?blk = "map (\<lambda>i. next + int i) [0..<nat ?b]"
  have b: "0 \<le> ?b" using Suc.prems by simp
  have l: "length rest = nat ?b + length (concat (affinity_loop base extra k (slot + 1) (next + ?b)))"
    using Suc.prems(4) by (simp add: Let_def)
  have "fold (\<lambda>shard m. m[nat shard := int j]) ?blk (pre @ rest) = pre @ replicate (nat ?b) (int j) @ drop (nat ?b) rest"
    using update_run [of "next" "nat ?b" "pre @ rest" "int j"] Suc.prems(2,3) l by simp
  moreover have "fold (\<lambda>(slot, block) m. fold (\<lambda>shard m. m[nat shard := int slot]) block m)
      (enumerate (Suc j) (affinity_loop base extra k (slot + 1) (next + ?b))) ((pre @ replicate (nat ?b) (int j)) @ drop (nat ?b) rest) =
      (pre @ replicate (nat ?b) (int j)) @ owners (Suc j) (affinity_loop base extra k (slot + 1) (next + ?b))"
    by (rule Suc.IH) (use Suc.prems b l in \<open>simp_all add: nat_add_distrib\<close>)
  ultimately show ?case by (simp add: Let_def)
qed simp

lemma affinity_exact:
  assumes "0 < shards" and "0 < workers"
  shows "concat (byWorker (newContiguousShardAffinity shards workers)) = [0..shards - 1]"
    and "length (byWorker (newContiguousShardAffinity shards workers)) = nat workers"
    and "workerByShard (newContiguousShardAffinity shards workers) = owners 0 (byWorker (newContiguousShardAffinity shards workers))"
    and "length (workerByShard (newContiguousShardAffinity shards workers)) = nat shards"
proof -
  define a where "a = min shards workers"
  let ?L = "affinity_loop (shards div a) (shards mod a) (nat a) 0 0"
  have a: "0 < a" "a \<le> workers" using assms by (simp_all add: a_def)
  have base: "0 \<le> shards div a" using assms a by (simp add: pos_imp_zdiv_nonneg_iff)
  have e: "0 \<le> shards mod a" "shards mod a < a" using a by simp_all
  have "0 + int (nat a) * (shards div a) + max 0 (min (int (nat a)) (shards mod a - 0)) = shards"
    using a e by simp
  then have c: "concat ?L = [0..shards - 1]" using affinity_loop_blocks(1) [OF base, of 0 "shards mod a" "nat a" 0] by simp
  have r: "concat (replicate n []) = []" for n by (induction n) simp_all
  have by_w: "byWorker (newContiguousShardAffinity shards workers) = ?L @ replicate (nat (workers - a)) []"
    using assms by (simp add: newContiguousShardAffinity_def Let_def a_def)
  show "concat (byWorker (newContiguousShardAffinity shards workers)) = [0..shards - 1]" by (simp add: by_w r c)
  show "length (byWorker (newContiguousShardAffinity shards workers)) = nat workers"
    using a affinity_loop_blocks(2) [OF base, of 0 "shards mod a" "nat a" 0] by (simp add: by_w)
  have l: "length (replicate (nat shards) (0::int)) = length (concat ?L)" by (simp only: c) simp
  have f: "workerByShard (newContiguousShardAffinity shards workers) = owners 0 ?L"
    using owners_fold [OF base, of "[]" 0, OF _ _ l] assms by (simp add: newContiguousShardAffinity_def Let_def a_def)
  have o: "owners j (xs @ replicate n []) = owners j xs" for j xs n
  proof (induction xs arbitrary: j)
    case Nil
    have "owners j (replicate n []) = []" for j by (induction n arbitrary: j) simp_all
    then show ?case by simp
  qed simp
  show "workerByShard (newContiguousShardAffinity shards workers) = owners 0 (byWorker (newContiguousShardAffinity shards workers))"
    by (simp add: f by_w o)
  have "length (owners j xs) = length (concat xs)" for j xs by (induction xs arbitrary: j) simp_all
  then show "length (workerByShard (newContiguousShardAffinity shards workers)) = nat shards" by (simp add: f c)
qed

section \<open>The coset table\<close>

text \<open>The cached table is always the one of its generator.\<close>

definition table_ok :: "(nat \<Rightarrow> nat \<Rightarrow> nat list) \<Rightarrow> cosetTable \<Rightarrow> bool" where
  "table_ok build st \<longleftrightarrow> ht_table st = build (ht_generator st) (length (ht_table st))"

lemma hCosetTable_exact:
  assumes "table_ok build st" and "\<And>g n. length (build g n) = n"
  shows "fst (hCosetTable build g n st) = build g n" and "table_ok build (snd (hCosetTable build g n st))"
  using assms by (auto simp: hCosetTable_def table_ok_def Let_def)

lemma initial_table_ok: "(\<And>g n. length (build g n) = n) \<Longrightarrow> table_ok build \<lparr>ht_table = [], ht_generator = 0\<rparr>"
proof -
  assume "\<And>g n. length (build g n) = n"
  then have "length (build 0 0) = 0" .
  then show ?thesis by (simp add: table_ok_def)
qed

text \<open>A transform does not depend on the state of the cache.\<close>

definition h_transform :: "fft_lib \<Rightarrow> nat list \<Rightarrow> hTransformParams \<Rightarrow> nat list" where
  "h_transform L v p = ff_run L (hp_Inverse p)
     (if hp_Coset p then Some (ff_table L (if hp_Inverse p then ff_genInv L (hp_Cardinality p) else ff_gen L (hp_Cardinality p)) (unat (hp_Cardinality p)))
      else None) (hp_Cardinality p) v"

lemma hTransformVector_exact:
  assumes "table_ok (ff_table L) st" and "\<And>g n. length (ff_table L g n) = n"
  shows "fst (hTransformVector L v p st) = bind_r (hp_validate p (length v)) (\<lambda>_. Inr (h_transform L v p))"
    and "table_ok (ff_table L) (snd (hTransformVector L v p st))"
proof -
  note t = hCosetTable_exact [OF assms]
  show "fst (hTransformVector L v p st) = bind_r (hp_validate p (length v)) (\<lambda>_. Inr (h_transform L v p))"
    using t(1) by (cases "hp_validate p (length v)") (simp_all add: hTransformVector_def h_transform_def Let_def split_beta)
  show "table_ok (ff_table L) (snd (hTransformVector L v p st))"
    using t(2) assms(1) by (cases "hp_validate p (length v)") (simp_all add: hTransformVector_def Let_def split_beta)
qed

lemma hp_validate_ok:
  "hp_validate p n = Inr () \<longleftrightarrow> hp_Cardinality p \<noteq> 0 \<and> (\<exists>k. unat (hp_Cardinality p) = 2 ^ k) \<and> (of_nat n :: u64) = hp_Cardinality p"
  using word_and_pred_0 [of "hp_Cardinality p"] by (auto simp: hp_validate_def)

end
