(* ===== verification/StreamProperties.thy ===== *)
theory StreamProperties
  imports MsmEngine
begin

text \<open>
  The properties of proving keys and of the streamed multi-exponentiation, with a small proving key on which
  they are evaluated.
\<close>

section \<open>A small proving key\<close>

definition sample_pk :: pk_parts where
  "sample_pk = \<lparr>pp_domain = replicate 169 0, pp_g1 = replicate 288 0, pp_sections = [replicate 192 1, [], [], []], pp_g2 = replicate 384 0,
     pp_G2B = [], pp_wires = 1, pp_infinityA = 0, pp_infinityB = 0, pp_bitmaps = [0, 1], pp_keys = [[], []]\<rparr>"

lemma sample_pk_ok: "pk_ok sample_pk"
  by (simp add: sample_pk_def pk_ok_def vec_ok_def)

lemma sample_pk_length: "length (pk_bytes sample_pk) < 2 ^ 63"
  by (simp add: sample_pk_def pk_bytes_def pk_head_def pk_middle_def vec_def)

lemma sample_pk_index: "BuildPKIndex (pk_bytes sample_pk) = Inr (pk_index sample_pk)"
  using BuildPKIndex_exact [OF sample_pk_length] sample_pk_ok by blast

section \<open>The index of a proving key\<close>

text \<open>
  C29: \<^verbatim>\<open>BuildPKIndex\<close> indexes exactly the files with the layout of a proving key. The index it builds passes
  \<^verbatim>\<open>ValidatePKIndex\<close>, names each section once, and locates exactly the bytes of each part.
\<close>

theorem pk_index_exact:
  assumes "length f < 2 ^ 63"
  shows "(BuildPKIndex f = Inr idx \<longleftrightarrow> (\<exists>k. pk_ok k \<and> f = pk_bytes k \<and> idx = pk_index k)) \<and>
    (\<forall>k. pk_ok k \<and> f = pk_bytes k \<longrightarrow>
       ValidatePKIndex (pk_index k) = Inr () \<and> map fst (Sections (pk_index k)) = pk_names (length (pp_keys k) div 2) \<and>
       distinct (map fst (Sections (pk_index k))) \<and> map (section_bytes f \<circ> snd) (Sections (pk_index k)) = pk_payloads k)"
proof (intro conjI allI impI; (elim conjE)?)
  show "BuildPKIndex f = Inr idx \<longleftrightarrow> (\<exists>k. pk_ok k \<and> f = pk_bytes k \<and> idx = pk_index k)" by (rule BuildPKIndex_exact [OF assms])
  fix k assume k: "pk_ok k" "f = pk_bytes k"
  then have "BuildPKIndex f = Inr (pk_index k)" using BuildPKIndex_exact [OF assms] by blast
  then show "ValidatePKIndex (pk_index k) = Inr ()" by (rule built_index_valid [OF assms])
  have s: "Sections (pk_index k) = map (\<lambda>sec. (sec_Name sec, sec)) (pk_section_list 0 k)" by (rule pk_index_sections [OF k(1)])
  show n: "map fst (Sections (pk_index k)) = pk_names (length (pp_keys k) div 2)" using pk_section_list(1) [OF k(1)] by (simp add: s comp_def)
  show "distinct (map fst (Sections (pk_index k)))" unfolding n by (rule distinct_pk_names)
  show "map (section_bytes f \<circ> snd) (Sections (pk_index k)) = pk_payloads k" using pk_section_list(2) [OF k(1)] by (simp add: s k(2) comp_def)
qed

theorem pk_index_exact_witness:
  "BuildPKIndex (pk_bytes sample_pk) = Inr (pk_index sample_pk) \<and>
   map (section_bytes (pk_bytes sample_pk) \<circ> snd) (Sections (pk_index sample_pk)) = [replicate 192 1, [], [], [], [], [], []]"
  using pk_index_exact [OF sample_pk_length, of "pk_index sample_pk"] sample_pk_ok by (auto simp: pk_payloads_def sample_pk_def)

text \<open>
  C30: What a validated index promises: the five sections are there, every section carries its own name and a known
  element size that divides its length, and lies inside the file or ends beyond the range of \<^verbatim>\<open>int64\<close>, because
  the sum of offset and length wraps in the comparison.
\<close>

theorem pk_validate_exact:
  assumes "FileSize idx < 2 ^ 63" and "\<And>name sec. (name, sec) \<in> set (Sections idx) \<Longrightarrow> sec_Offset sec < 2 ^ 63 \<and> sec_Len sec < 2 ^ 63"
  shows "ValidatePKIndex idx = Inr () \<longleftrightarrow> 0 < FileSize idx \<and> {''A'', ''B'', ''Z'', ''K'', ''G2B''} \<subseteq> fst ` set (Sections idx) \<and>
     (\<forall>(name, sec) \<in> set (Sections idx). name \<noteq> [] \<and> sec_Name sec = name \<and> 0 \<le> sec_Offset sec \<and> 0 \<le> sec_Len sec \<and>
       (sec_ElemSize sec = 96 \<or> sec_ElemSize sec = 192) \<and> sec_ElemSize sec dvd sec_Len sec \<and>
       (sec_Offset sec + sec_Len sec \<le> FileSize idx \<or> 2 ^ 63 \<le> sec_Offset sec + sec_Len sec))"
proof -
  have "ValidatePKIndex idx = Inr () \<longleftrightarrow> 0 < FileSize idx \<and> {''A'', ''B'', ''Z'', ''K'', ''G2B''} \<subseteq> fst ` set (Sections idx) \<and>
     (\<forall>(name, sec) \<in> set (Sections idx). name \<noteq> [] \<and> sec_Name sec = name \<and> section_inside (FileSize idx) sec)"
    by (rule ValidatePKIndex_ok) (use assms in auto)
  then show ?thesis unfolding section_inside_def .
qed

text \<open>An index of a file of one byte with a section at the end of the \<^verbatim>\<open>int64\<close> range.\<close>

definition overflow_index :: PKIndex where
  "overflow_index = \<lparr>Sections = map (\<lambda>name. (name, \<lparr>sec_Name = name, sec_Offset = 2 ^ 63 - 96, sec_Len = 96, sec_ElemSize = 96\<rparr>))
     [''A'', ''B'', ''Z'', ''K'', ''G2B''], DomainCardinality = 1, NbWires = 0, NbInfinityA = 0, NbInfinityB = 0, NbCommitmentKeys = 0, FileSize = 1\<rparr>"

theorem pk_validate_exact_witness:
  "ValidatePKIndex overflow_index = Inr () \<and> FileSize overflow_index = 1 \<and>
   map (\<lambda>(name, sec). sec_Offset sec + sec_Len sec) (Sections overflow_index) = replicate 5 (2 ^ 63)"
proof -
  have "ValidatePKIndex overflow_index = Inr ()"
    by (subst pk_validate_exact) (auto simp: overflow_index_def)
  then show ?thesis by (simp add: overflow_index_def numeral_eq_Suc)
qed

section \<open>Streamed multi-exponentiation\<close>

definition sample_point :: "bytes \<Rightarrow> nat option" where "sample_point b = Some (be_val b)"

definition sample_decoder :: "bytes \<Rightarrow> nat list option" where
  "sample_decoder b = decode_all sample_point (chunks_of 96 (drop 4 b))"

lemma sample_decoder: "point_decoder 96 sample_decoder sample_point"
  by (simp add: point_decoder_def sample_decoder_def)

definition sample_mexp :: "nat list \<Rightarrow> nat list \<Rightarrow> nat option" where
  "sample_mexp ps ss = (if length ps = length ss then Some (\<Sum>(p, s) \<leftarrow> zip ps ss. s * p) else None)"

lemma sample_mexp: "multi_exp (*) sample_mexp"
  by (simp add: multi_exp_def sample_mexp_def)


lemma sample_pk_A: "map_of (Sections (pk_index sample_pk)) ''A'' = Some \<lparr>sec_Name = ''A'', sec_Offset = 461, sec_Len = 192, sec_ElemSize = 96\<rparr>"
  by (simp add: pk_index_sections [OF sample_pk_ok] pk_section_list_def Let_def)
    (simp add: sample_pk_def pk_head_def vec_def section_at_def)

text \<open>
  C31: The streamed multi-exponentiation: over an opened proving key the engine fetches the section in ranges, and the
  sum of the partial results is the sum over all the points of the section. The last progress report is the whole.
\<close>

theorem streamed_msm_exact:
  assumes "length f < 2 ^ 63" and "OpenFile f = Inr s" and "map_of (Sections (src_idx s)) name = Some sec"
    and "sec_Len sec < 2 ^ (W - 1)" and "0 < W" and "point_decoder (nat (sec_ElemSize sec)) dcd point"
    and "decode_all point (chunks_of (nat (sec_ElemSize sec)) (section_bytes f sec)) = Some pts"
    and "multi_exp smul mexp" and "length scalars = length pts"
  shows "\<exists>n. SectionPointCount W (src_idx s) name = Inr n \<and> n = int (length pts) \<and>
     fst (cpu_MSMRanged mexp n (point_range W dcd s name) scalars) = Inr (\<Sum>(p, x) \<leftarrow> zip pts scalars. smul x p) \<and>
     last (snd (cpu_MSMRanged mexp n (point_range W dcd s name) scalars)) = (n, n)"
proof -
  note f = section_fetches [OF assms(1-7)]
  show ?thesis using f(2) cpu_MSMRanged_exact [OF assms(8) f(1) assms(9) refl] by (simp add: msm_def)
qed


definition sample_source :: Source where
  "sample_source = \<lparr>src_idx = pk_index sample_pk, src_ra = file_at (pk_bytes sample_pk)\<rparr>"

lemma sample_source: "OpenFile (pk_bytes sample_pk) = Inr sample_source"
  by (simp add: OpenFile_def sample_source_def sample_pk_index built_index_valid [OF sample_pk_length sample_pk_index])

lemma sample_section: "section_bytes (pk_bytes sample_pk) \<lparr>sec_Name = ''A'', sec_Offset = 461, sec_Len = 192, sec_ElemSize = 96\<rparr> = replicate 192 1"
  by (simp add: section_bytes_def sample_pk_def pk_bytes_def pk_head_def vec_def)

theorem streamed_msm_exact_witness:
  "fst (cpu_MSMRanged sample_mexp 2 (point_range 64 sample_decoder sample_source ''A'') [3, 5]) =
   Inr (3 * be_val (replicate 96 1) + 5 * be_val (replicate 96 1))"
proof -
  let ?sec = "\<lparr>sec_Name = ''A'', sec_Offset = 461, sec_Len = 192, sec_ElemSize = 96\<rparr>" and ?v = "be_val (replicate 96 1)"
  have a: "map_of (Sections (src_idx sample_source)) ''A'' = Some ?sec" by (simp add: sample_source_def sample_pk_A)
  have "replicate 192 (1::8 word) = concat [replicate 96 1, replicate 96 1]" by (simp flip: replicate_add)
  then have "chunks_of 96 (replicate 192 (1::8 word)) = [replicate 96 1, replicate 96 1]"
    using chunks_of_concat(2) [of "[replicate 96 (1::8 word), replicate 96 1]" 96] by simp
  then have c: "decode_all sample_point (chunks_of (nat (sec_ElemSize ?sec)) (section_bytes (pk_bytes sample_pk) ?sec)) = Some [?v, ?v]"
    by (simp add: sample_section sample_point_def)
  show ?thesis
    using streamed_msm_exact [OF sample_pk_length sample_source a, of 64 sample_decoder sample_point "[?v, ?v]" "(*)" sample_mexp "[3, 5]"]
      sample_decoder c sample_mexp by simp
qed

end
