(* ===== verification/GoPath.thy ===== *)
theory GoPath
  imports GoTime
begin

text \<open>
  Text search, paths and times of Go's standard library, as far as the handling of assets uses them:
  \<^verbatim>\<open>strings.Contains\<close>, \<^verbatim>\<open>strings.ContainsAny\<close>, \<^verbatim>\<open>filepath.Join\<close> and \<^verbatim>\<open>filepath.IsAbs\<close> on Unix, what
  \<^verbatim>\<open>time.Parse(time.RFC3339, s)\<close> accepts. The lemmas say which relative paths \<^verbatim>\<open>path.Clean\<close> leaves alone.
\<close>

section \<open>Searching\<close>

fun contains :: "string \<Rightarrow> string \<Rightarrow> bool" where
  "contains [] p = (p = [])"
| "contains (c # s) p = (has_prefix (c # s) p \<or> contains s p)"

definition contains_any :: "string \<Rightarrow> string \<Rightarrow> bool" where
  "contains_any s cs \<longleftrightarrow> list_ex (\<lambda>c. c \<in> set cs) s"

lemma contains_iff: "contains s p \<longleftrightarrow> (\<exists>a b. s = a @ p @ b)"
proof (induction s)
  case (Cons c s)
  note IH = Cons.IH
  show ?case
  proof
    assume "contains (c # s) p"
    then show "\<exists>a b. c # s = a @ p @ b"
    proof (cases "has_prefix (c # s) p")
      case True
      then show ?thesis by (metis has_prefix_iff append_Nil)
    next
      case False
      then show ?thesis using IH \<open>contains (c # s) p\<close> by (metis append_Cons contains.simps(2))
    qed
  next
    assume "\<exists>a b. c # s = a @ p @ b"
    then obtain a b where e: "c # s = a @ p @ b" by blast
    show "contains (c # s) p"
    proof (cases a)
      case Nil
      then show ?thesis using e by (metis append_Nil contains.simps(2) has_prefix_iff)
    next
      case (Cons x a')
      then have "s = a' @ p @ b" using e by simp
      then show ?thesis using IH by (metis contains.simps(2))
    qed
  qed
qed simp

section \<open>Splitting at a separator\<close>

lemma split_on_not_Nil [simp]: "split_on d s \<noteq> []"
  by (cases s) (auto split: list.splits)

lemma split_on_sep: "split_on d (a @ d # b) = split_on d a @ split_on d b"
proof (induction a)
  case (Cons c a)
  then show ?case by (cases "split_on d a") auto
qed simp

lemma split_on_none [simp]: "d \<notin> set a \<Longrightarrow> split_on d a = [a]"
  by (induction a) auto

lemma split_on_elems: "w \<in> set (split_on d s) \<Longrightarrow> d \<notin> set w"
  by (induction s arbitrary: w) (auto split: if_splits list.splits)

lemma split_on_append:
  "d \<notin> set b \<Longrightarrow> split_on d (a @ b) = butlast (split_on d a) @ [last (split_on d a) @ b]"
proof (induction a)
  case (Cons c a)
  then show ?case by (cases "split_on d a") (auto split: list.splits)
qed simp

lemma join_split [simp]: "join_with [d] (split_on d s) = s"
proof (induction s)
  case (Cons c s)
  obtain w ws where w: "split_on d s = w # ws" by (cases "split_on d s") simp_all
  then show ?case using Cons by (cases ws) auto
qed simp

lemma join_Cons: "ws \<noteq> [] \<Longrightarrow> join_with d (w # ws) = w @ d @ join_with d ws"
  by (cases ws) auto

lemma split_join: "ws \<noteq> [] \<Longrightarrow> \<forall>w \<in> set ws. d \<notin> set w \<Longrightarrow> split_on d (join_with [d] ws) = ws"
proof (induction ws)
  case (Cons w ws)
  then show ?case by (cases "ws = []") (simp_all add: join_Cons split_on_sep)
qed simp

section \<open>Clean relative paths\<close>

definition normal_elem :: "string \<Rightarrow> bool" where
  "normal_elem w \<longleftrightarrow> w \<noteq> [] \<and> w \<noteq> ''.'' \<and> w \<noteq> ''..''"

lemma clean_elems_normal: "\<forall>w \<in> set ws. normal_elem w \<Longrightarrow> clean_elems r out ws = rev out @ ws"
  by (induction ws arbitrary: out) (auto simp: normal_elem_def)

lemma clean_elems_last: "normal_elem w \<Longrightarrow> clean_elems r out (ws @ [w]) = clean_elems r out ws @ [w]"
proof (induction ws arbitrary: out)
  case Nil
  then show ?case by (simp add: normal_elem_def)
next
  case (Cons v ws)
  have IH: "clean_elems r out (ws @ [w]) = clean_elems r out ws @ [w]" for out using Cons by blast
  show ?case unfolding append_Cons clean_elems.simps IH by (cases out) auto
qed

definition up_then_normal :: "string list \<Rightarrow> bool" where
  "up_then_normal ws \<longleftrightarrow> (\<exists>k ns. ws = replicate k ''..'' @ ns \<and> list_all normal_elem ns)"

lemma up_then_normal_snoc: "up_then_normal ws \<Longrightarrow> normal_elem w \<Longrightarrow> up_then_normal (ws @ [w])"
proof -
  assume "up_then_normal ws" "normal_elem w"
  then obtain k ns where "ws = replicate k ''..'' @ ns" "list_all normal_elem (ns @ [w])" by (auto simp: up_then_normal_def)
  then show ?thesis unfolding up_then_normal_def by (intro exI [of _ k] exI [of _ "ns @ [w]"]) simp
qed

lemma clean_elems_shape:
  assumes "up_then_normal (rev out)"
  shows "up_then_normal (clean_elems False out ws)"
  using assms
proof (induction ws arbitrary: out)
  case (Cons w ws)
  show ?case
  proof (cases "w = ''..''")
    case True
    show ?thesis
    proof (cases out)
      case Nil
      have "up_then_normal (rev [''..''])" unfolding up_then_normal_def
        by (rule exI [of _ 1], rule exI [of _ "[]"]) simp
      then show ?thesis using Cons.IH True Nil by simp
    next
      case (Cons x out')
      obtain k ns where k: "rev out' @ [x] = replicate k ''..'' @ ns" "list_all normal_elem ns"
        using Cons.prems Cons by (auto simp: up_then_normal_def)
      show ?thesis
      proof (cases "ns = []")
        case True
        then have "rev out' @ [x] = replicate k ''..''" using k by simp
        then have x: "x = ''..''" by (metis in_set_conv_decomp in_set_replicate)
        have "rev (w # out) = replicate (Suc k) ''..'' @ []"
          using k(1) True \<open>w = ''..''\<close> Cons by (simp add: replicate_append_same [symmetric])
        then have "up_then_normal (rev (w # out))" unfolding up_then_normal_def
          by (intro exI [of _ "Suc k"] exI [of _ "[]"]) simp
        then show ?thesis using Cons.IH [of "w # out"] \<open>w = ''..''\<close> Cons x by simp
      next
        case False
        then obtain ms where ns: "ns = ms @ [x]" "rev out' = replicate k ''..'' @ ms"
          using k(1) by (metis append_butlast_last_id butlast_append last_append last_snoc butlast_snoc)
        then have "x \<noteq> ''..''" "up_then_normal (rev out')" using k(2) by (auto simp: up_then_normal_def normal_elem_def)
        then show ?thesis using Cons.IH [of out'] \<open>w = ''..''\<close> Cons by simp
      qed
    qed
  next
    case False
    then show ?thesis using Cons up_then_normal_snoc [of "rev out" w] by (auto simp: normal_elem_def)
  qed
qed simp

lemma clean_elems_set: "set (clean_elems r out ws) \<subseteq> set out \<union> set ws"
proof (induction ws arbitrary: out)
  case (Cons w ws)
  have IH: "set (clean_elems r out ws) \<subseteq> set out \<union> set ws" for out by (rule Cons.IH)
  show ?case
    using IH [of out] IH [of "w # out"] IH [of "tl out"] IH [of "[]"] IH [of "[w]"] by (cases out) auto
qed simp

text \<open>The relative paths that are clean: some \<^verbatim>\<open>".."\<close>, then ordinary elements.\<close>

lemma path_clean_relative:
  assumes "s \<noteq> []" "hd s \<noteq> CHR ''/''" "s \<noteq> ''.''"
  shows "path_clean s = s \<longleftrightarrow> up_then_normal (split_on (CHR ''/'') s)"
proof
  let ?ws = "split_on (CHR ''/'') s" and ?cs = "clean_elems False [] (split_on (CHR ''/'') s)"
  assume c: "path_clean s = s"
  then have j: "join_with ''/'' ?cs = s" using assms by (auto simp: path_clean_def Let_def split: if_splits)
  then have ne: "?cs \<noteq> []" using assms(1) by auto
  have "CHR ''/'' \<notin> set w" if "w \<in> set ?cs" for w
    using that clean_elems_set [of False "[]" ?ws] split_on_elems by auto
  then have "split_on (CHR ''/'') (join_with ''/'' ?cs) = ?cs" using ne by (simp add: split_join)
  then have "?ws = ?cs" using j by simp
  moreover have "up_then_normal ?cs" by (rule clean_elems_shape) (auto simp: up_then_normal_def)
  ultimately show "up_then_normal ?ws" by simp
next
  let ?ws = "split_on (CHR ''/'') s"
  assume "up_then_normal ?ws"
  then obtain k ns where k: "?ws = replicate k ''..'' @ ns" "list_all normal_elem ns" by (auto simp: up_then_normal_def)
  have ups: "clean_elems False (replicate j ''..'') (replicate i ''..'' @ ns) = replicate (j + i) ''..'' @ ns" for i j
  proof (induction i arbitrary: j)
    case 0
    then show ?case using k(2) by (simp add: clean_elems_normal list_all_iff)
  next
    case (Suc i)
    have "clean_elems False (replicate j ''..'') (replicate (Suc i) ''..'' @ ns) =
        clean_elems False (replicate (Suc j) ''..'') (replicate i ''..'' @ ns)" by (cases j) simp_all
    then show ?case using Suc [of "Suc j"] by simp
  qed
  have "clean_elems False [] ?ws = ?ws" using ups [of 0 k] k(1) by simp
  then show "path_clean s = s" using assms by (simp add: path_clean_def Let_def)
qed

section \<open>Joining paths\<close>

definition is_abs :: "string \<Rightarrow> bool" where
  "is_abs p = has_prefix p ''/''"

definition filepath_join :: "string \<Rightarrow> string \<Rightarrow> string" where
  "filepath_join a b =
     (if a = [] \<and> b = [] then [] else if a = [] then path_clean b else if b = [] then path_clean a else path_clean (a @ ''/'' @ b))"

text \<open>Names that share everything up to a last run of digits name different files.\<close>

lemma filepath_join_inj:
  assumes "filepath_join a (p @ d) = filepath_join a (p @ e)"
    and "d \<noteq> []" "e \<noteq> []" "list_all is_digit d" "list_all is_digit e"
  shows "d = e"
proof -
  define x where "x = (if a = [] then p else a @ ''/'' @ p)"
  have j: "filepath_join a (p @ f) = path_clean (x @ f)" if "f \<noteq> []" for f
    using that by (simp add: filepath_join_def x_def)
  have no: "CHR ''/'' \<notin> set f" "normal_elem (w @ f)" if "f \<noteq> []" "list_all is_digit f" for f w
  proof -
    have dg: "is_digit c" if "c \<in> set f" for c using that \<open>list_all is_digit f\<close> by (simp add: list_all_iff)
    have nd: "\<not> is_digit (CHR ''/'')" "\<not> is_digit (CHR ''.'')" by (simp_all add: is_digit_def in_range_def code_def)
    show "CHR ''/'' \<notin> set f" using dg nd by blast
    have l: "last (w @ f) = last f" "last f \<in> set f" using that(1) by simp_all
    have "last (w @ f) \<noteq> CHR ''.''" using dg [OF l(2)] nd(2) l(1) by metis
    then show "normal_elem (w @ f)" using that(1) by (auto simp: normal_elem_def simp del: last_appendR)
  qed
  let ?W = "split_on (CHR ''/'') x" and ?r = "x \<noteq> [] \<and> hd x = CHR ''/''"
  have s: "split_on (CHR ''/'') (x @ f) = butlast ?W @ [last ?W @ f]" if "f \<noteq> []" "list_all is_digit f" for f
    using split_on_append [OF no(1) [OF that]] .
  have r: "(hd (x @ f) = CHR ''/'') = ?r" if "f \<noteq> []" "list_all is_digit f" for f
    using that(1) no(1) [OF that] by (cases f) (auto simp: hd_append)
  have c: "path_clean (x @ f) = (if ?r then ''/'' else []) @ join_with ''/'' (clean_elems ?r [] (butlast ?W) @ [last ?W @ f])"
    if "f \<noteq> []" "list_all is_digit f" for f
  proof -
    have "join_with ''/'' (ws @ [last ?W @ f]) \<noteq> []" for ws using that(1) by (cases ws) (simp_all add: join_Cons)
    then show ?thesis using that unfolding path_clean_def r [OF that] s [OF that] clean_elems_last [OF no(2) [OF that]]
      by (simp add: Let_def)
  qed
  have l: "join_with ''/'' (ws @ [w @ f]) = join_with ''/'' (ws @ [w]) @ f" for ws w f
    by (induction ws) (simp_all add: join_Cons)
  show ?thesis using assms(1) unfolding j [OF assms(2)] j [OF assms(3)] c [OF assms(2,4)] c [OF assms(3,5)] l
    by (simp only: append.assoc same_append_eq)
qed

lemma clean_elems_append: "\<forall>w \<in> set ws. normal_elem w \<Longrightarrow> clean_elems r out (vs @ ws) = clean_elems r out vs @ ws"
proof (induction ws rule: rev_induct)
  case (snoc w ws)
  then show ?case using clean_elems_last [of w r out "vs @ ws"] by simp
qed simp

lemma clean_elems_plain: "\<forall>w \<in> set out. w \<noteq> [] \<and> w \<noteq> ''.'' \<Longrightarrow> w \<in> set (clean_elems r out ws) \<Longrightarrow> w \<noteq> [] \<and> w \<noteq> ''.''"
proof (induction ws arbitrary: out)
  case (Cons v ws)
  note IH = Cons.IH [of out] Cons.IH [of "v # out"] Cons.IH [of "[]"] Cons.IH [of "[v]"] Cons.IH [of "tl out"]
  show ?case using Cons.prems IH by (cases out) (simp_all split: if_splits)
qed simp

lemma join_append: "xs \<noteq> [] \<Longrightarrow> ys \<noteq> [] \<Longrightarrow> join_with d (xs @ ys) = join_with d xs @ d @ join_with d ys"
proof (induction xs)
  case (Cons x xs)
  then show ?case by (cases "xs = []") (simp_all add: join_Cons)
qed simp

text \<open>The part of a joined path that comes from the directory.\<close>

definition dir_prefix :: "string \<Rightarrow> string" where
  "dir_prefix base =
     (if base = [] \<or> path_clean base = ''.'' then []
      else if path_clean base = ''/'' then ''/'' else path_clean base @ ''/'')"

lemma filepath_join_normal:
  assumes "s \<noteq> []" "\<forall>w \<in> set (split_on (CHR ''/'') s). normal_elem w"
  shows "filepath_join base s = dir_prefix base @ s"
proof (cases "base = []")
  case True
  have "hd s \<noteq> CHR ''/''"
  proof
    assume "hd s = CHR ''/''"
    then have "[] \<in> set (split_on (CHR ''/'') s)" using assms(1) by (cases s) auto
    then show False using assms(2) by (auto simp: normal_elem_def)
  qed
  then have "path_clean s = s" using assms by (simp add: path_clean_def clean_elems_normal Let_def)
  then show ?thesis using True assms(1) by (simp add: filepath_join_def dir_prefix_def)
next
  case False
  let ?r = "hd base = CHR ''/''" and ?ws = "split_on (CHR ''/'') s"
  define cs where "cs = clean_elems ?r [] (split_on (CHR ''/'') base)"
  have cw: "w \<noteq> [] \<and> w \<noteq> ''.'' \<and> CHR ''/'' \<notin> set w" if "w \<in> set cs" for w
    using that clean_elems_plain [of "[]" w] clean_elems_set [of ?r "[]"] split_on_elems unfolding cs_def by fastforce
  have js: "split_on (CHR ''/'') (join_with ''/'' cs) = cs" if "cs \<noteq> []" using that cw by (intro split_join) auto
  have jn: "join_with ''/'' cs \<noteq> []" if "cs \<noteq> []" using js [OF that] cw that by (auto dest: arg_cong [of _ _ set])
  have c1: "path_clean base = (let p = (if ?r then ''/'' else []) @ join_with ''/'' cs in if p = [] then ''.'' else p)"
    using False by (simp add: path_clean_def cs_def Let_def)
  have c2: "path_clean (base @ ''/'' @ s) = (if ?r then ''/'' else []) @ join_with ''/'' (cs @ ?ws)"
  proof -
    have "join_with ''/'' (cs @ ?ws) \<noteq> []" using assms(1) by (cases "cs = []") (simp_all add: join_append)
    then show ?thesis using False clean_elems_append [OF assms(2)]
      by (simp add: path_clean_def split_on_sep Let_def flip: cs_def)
  qed
  have j: "filepath_join base s = (if ?r then ''/'' else []) @ join_with ''/'' (cs @ ?ws)"
    using False assms(1) c2 by (simp add: filepath_join_def)
  show ?thesis
  proof (cases "cs = []")
    case True
    then show ?thesis using False unfolding j dir_prefix_def c1 by (simp add: Let_def)
  next
    case ne: False
    have dot: "join_with ''/'' cs \<noteq> ''.''"
    proof
      assume "join_with ''/'' cs = ''.''"
      then have "cs = [''.'']" using js [OF ne] by simp
      then show False using cw by simp
    qed
    have slash: "join_with ''/'' cs \<noteq> ''/''"
    proof
      assume "join_with ''/'' cs = ''/''"
      then have "cs = [[], []]" using js [OF ne] by simp
      then show False using cw by simp
    qed
    show ?thesis using False ne dot slash jn [OF ne] unfolding j dir_prefix_def c1 by (simp add: Let_def join_append)
  qed
qed

section \<open>Times\<close>

text \<open>
  What \<^verbatim>\<open>time.Parse(time.RFC3339, s)\<close> accepts: the general parser of the layout, which accepts everything the
  strict one does. \<^verbatim>\<open>getnum\<close> reads two digits, or one where the layout allows it.
\<close>

fun getnum :: "bool \<Rightarrow> string \<Rightarrow> (nat \<times> string) option" where
  "getnum fixed [] = None"
| "getnum fixed (a # s) =
     (if \<not> is_digit a then None
      else (case s of
          b # s' \<Rightarrow> if is_digit b then Some (undec [a, b], s') else if fixed then None else Some (undec [a], s)
        | [] \<Rightarrow> if fixed then None else Some (undec [a], [])))"

definition lit :: "char \<Rightarrow> string \<Rightarrow> string option" where
  "lit c s = (if s \<noteq> [] \<and> hd s = c then Some (tl s) else None)"

definition in_field :: "bool \<Rightarrow> nat \<Rightarrow> nat \<Rightarrow> string \<Rightarrow> (nat \<times> string) option" where
  "in_field fixed lo hi s =
     Option.bind (getnum fixed s) (\<lambda>(v, r). if lo \<le> v \<and> v \<le> hi then Some (v, r) else None)"

definition skip_fraction :: "string \<Rightarrow> string" where
  "skip_fraction s =
     (if length s \<ge> 2 \<and> (hd s = CHR ''.'' \<or> hd s = CHR '','') \<and> is_digit (s ! 1) then dropWhile is_digit (tl s) else s)"

definition zone_ok :: "string \<Rightarrow> bool" where
  "zone_ok s \<longleftrightarrow> s = ''Z'' \<or>
     (length s = 6 \<and> (hd s = CHR ''+'' \<or> hd s = CHR ''-'') \<and> s ! 3 = CHR '':'' \<and>
      in_field True 0 24 (take 2 (drop 1 s)) \<noteq> None \<and> in_field True 0 60 (drop 4 s) \<noteq> None)"

definition rfc3339_accepts :: "string \<Rightarrow> bool" where
  "rfc3339_accepts s \<longleftrightarrow>
     (case digits_val (take 4 s) of
        None \<Rightarrow> False
      | Some y \<Rightarrow> length s \<ge> 4 \<and>
        (case Option.bind (lit (CHR ''-'') (drop 4 s)) (in_field True 1 12) of
           None \<Rightarrow> False
         | Some (mo, s1) \<Rightarrow>
           Option.bind (Option.bind (lit (CHR ''-'') s1) (in_field True 1 (days_in mo y))) (\<lambda>(d, s2).
           Option.bind (Option.bind (lit (CHR ''T'') s2) (in_field False 0 23)) (\<lambda>(h, s3).
           Option.bind (Option.bind (lit (CHR '':'') s3) (in_field True 0 59)) (\<lambda>(mi, s4).
           Option.bind (Option.bind (lit (CHR '':'') s4) (in_field True 0 59)) (\<lambda>(se, s5).
           if zone_ok (skip_fraction s5) then Some () else None)))) \<noteq> None))"

end
