(* ===== verification/MsmControl.thy ===== *)
theory MsmControl
  imports MsmEngine GoPath
begin

text \<open>
  What decides over the multi-exponentiation engines, from \<^verbatim>\<open>internal/msmengine\<close>: the errors and their retry
  policy (\<^verbatim>\<open>engine.go\<close>), the choice of an engine and the fallback to the CPU (\<^verbatim>\<open>selector.go\<close>,
  \<^verbatim>\<open>selector_nojs.go\<close>), waiting, backoff, queue bounds and single-use handles (\<^verbatim>\<open>async_contract.go\<close>).

  \<open>fallback_runs\<close> says when the CPU engine runs, \<open>classified_never_retried\<close> that no classified
  worker error reaches it, \<open>retry_is_allow_listed\<close> which codes may be retried, \<open>wait_bounded\<close> that a
  wait ends, \<open>collect_once\<close> that a handle delivers once.
\<close>

section \<open>Errors\<close>

text \<open>
  The engine inspects errors: \<^verbatim>\<open>errors.As\<close> looks for a type through \<^verbatim>\<open>Unwrap\<close>, and one classification reads
  the message. An error is therefore a tree; \<open>MErr\<close> carries its formatted message and \<open>MWrap\<close> a context
  that \<^verbatim>\<open>%w\<close> adds before a colon. Numbers and durations are left out of texts that no code reads.
\<close>

datatype merr =
    MErr string
  | FailClosedError string merr
  | sectionWorkerFailure string bool bool int merr
  | MWrap string merr
  | Joined merr merr

fun error_text :: "merr \<Rightarrow> string" where
  "error_text (MErr m) = m"
| "error_text (FailClosedError class e) = class @ '': '' @ error_text e"
| "error_text (sectionWorkerFailure _ _ _ _ e) = error_text e"
| "error_text (MWrap c e) = c @ '': '' @ error_text e"
| "error_text (Joined a b) = error_text a @ [CHR 0x0A] @ error_text b"

text \<open>\<^verbatim>\<open>errors.As\<close> for the two types, depth first.\<close>

fun as_failClosed :: "merr \<Rightarrow> bool" where
  "as_failClosed (MErr _) = False"
| "as_failClosed (FailClosedError _ _) = True"
| "as_failClosed (sectionWorkerFailure _ _ _ _ e) = as_failClosed e"
| "as_failClosed (MWrap _ e) = as_failClosed e"
| "as_failClosed (Joined a b) = (as_failClosed a \<or> as_failClosed b)"

fun as_sectionFailure :: "merr \<Rightarrow> (bool \<times> bool \<times> int) option" where
  "as_sectionFailure (MErr _) = None"
| "as_sectionFailure (FailClosedError _ e) = as_sectionFailure e"
| "as_sectionFailure (sectionWorkerFailure _ retryable rep after _) = Some (retryable, rep, after)"
| "as_sectionFailure (MWrap _ e) = as_sectionFailure e"
| "as_sectionFailure (Joined a b) = (case as_sectionFailure a of None \<Rightarrow> as_sectionFailure b | Some x \<Rightarrow> Some x)"

definition failClosed :: "string \<Rightarrow> merr option \<Rightarrow> merr option" where
  "failClosed class err = (case err of None \<Rightarrow> None | Some e \<Rightarrow> Some (FailClosedError class e))"

text \<open>
  \<^verbatim>\<open>strings.ToLower\<close> as far as an ASCII pattern can tell: besides the ASCII letters, only the Kelvin sign and the
  dotted capital I have an ASCII letter as their lower case.
\<close>

fun lower_text :: "string \<Rightarrow> string" where
  "lower_text (a # b # c # s) =
     (if a = CHR 0xE2 \<and> b = CHR 0x84 \<and> c = CHR 0xAA then CHR ''k'' # lower_text s
      else if a = CHR 0xC4 \<and> b = CHR 0xB0 then CHR ''i'' # lower_text (c # s)
      else lower_char a # lower_text (b # c # s))"
| "lower_text [a, b] = (if a = CHR 0xC4 \<and> b = CHR 0xB0 then [CHR ''i''] else [lower_char a, lower_char b])"
| "lower_text [a] = [lower_char a]"
| "lower_text [] = []"

definition section_error_class :: "string \<Rightarrow> string" where
  "section_error_class message =
     (if contains message ''sha256 mismatch'' \<or> contains message ''blake2b256 mismatch'' \<or>
         contains message ''content-encoding'' \<or> contains message ''size '' then ''chunk-digest-mismatch''
      else if contains message ''failed to fetch'' \<or> contains message ''fetch chunk'' \<or>
         contains message ''network'' \<or> contains message ''body stream'' then ''range-fetch-aborted''
      else if contains message ''worker'' \<or> contains message ''terminated'' then ''worker-terminated''
      else ''sharded-worker-error'')"

definition classifySectionWorkerError :: "merr \<Rightarrow> merr" where
  "classifySectionWorkerError err = FailClosedError (section_error_class (lower_text (error_text err))) err"

text \<open>A \<^verbatim>\<open>time.Duration\<close> is a number of nanoseconds.\<close>

definition Second :: int where "Second = 1000000000"
definition Millisecond :: int where "Millisecond = 1000000"

definition classifyTypedSectionWorkerError :: "string \<Rightarrow> bool \<Rightarrow> int \<Rightarrow> merr option \<Rightarrow> merr option" where
  "classifyTypedSectionWorkerError errcode advertisedRetryable retryAfter err =
     (case err of
        None \<Rightarrow> None
      | Some e \<Rightarrow>
          let (class, retryable, rep, retryAfter) =
                (if errcode = ''chunk-integrity'' then (''chunk-digest-mismatch'', False, False, retryAfter)
                 else if errcode = ''chunk-fetch-network'' \<or> errcode = ''chunk-fetch-http''
                 then (''range-fetch-aborted'', advertisedRetryable, False, retryAfter)
                 else if errcode = ''worker-terminated'' \<or> errcode = ''worker-initialization''
                 then (''worker-terminated'', advertisedRetryable, True, retryAfter)
                 else (''sharded-worker-error'', False, False, 0));
              retryAfter = (if retryAfter < 0 \<or> retryAfter > 30 * Second then 0 else retryAfter)
          in failClosed class (Some (sectionWorkerFailure errcode retryable rep retryAfter e)))"

definition sectionWorkerRetry :: "merr \<Rightarrow> bool \<times> bool \<times> int" where
  "sectionWorkerRetry err = (case as_sectionFailure err of None \<Rightarrow> (False, False, 0) | Some f \<Rightarrow> f)"

definition workerReplyIntegrityError :: "int \<Rightarrow> int \<Rightarrow> merr" where
  "workerReplyIntegrityError requested received =
     FailClosedError ''worker-reply-integrity''
       (MErr (''shardedMSM: worker reply id '' @ dec_int received @ '' != requested '' @ dec_int requested @ '' (stale or crossed reply)''))"

definition workerPartialIntegrityError :: "merr option \<Rightarrow> merr option" where
  "workerPartialIntegrityError err = failClosed ''worker-partial-invalid'' err"

text \<open>
  A value of the timings is a \<^verbatim>\<open>float64\<close>, given by its bits, or of another type. One has one representation.
\<close>

datatype timing = Float64 u64 | OtherTiming

definition float64_one :: u64 where "float64_one = 0x3FF0000000000000"

definition validateW7WorkerAcknowledgement :: "bool \<Rightarrow> (string \<rightharpoonup> timing) \<Rightarrow> merr option" where
  "validateW7WorkerAcknowledgement requested timings =
     (if \<not> requested then None
      else if timings ''w7_applied'' = Some (Float64 float64_one) then None
      else failClosed ''w7-worker-capability''
        (Some (MErr ''shardedMSM: opt_w7 requested but Worker did not acknowledge w7_applied=1'')))"

section \<open>Progress\<close>

text \<open>
  The sink of the process and its call counter; a sink is known by a number. \<^verbatim>\<open>SetProgressSink\<close> returns the state
  that its restore function puts back.
\<close>

record progress_state =
  pg_sink :: "nat option"
  pg_seq :: u64

datatype reporter = NoReport | ReportTo nat | ReportSink nat u64

definition SetProgressSink :: "nat option \<Rightarrow> progress_state \<Rightarrow> progress_state \<times> progress_state" where
  "SetProgressSink sink st = (st, \<lparr>pg_sink = sink, pg_seq = 0\<rparr>)"

definition progressReporter :: "nat option \<Rightarrow> progress_state \<Rightarrow> reporter \<times> progress_state" where
  "progressReporter prog st =
     (case prog of
        Some f \<Rightarrow> (ReportTo f, st)
      | None \<Rightarrow>
          (case pg_sink st of
             None \<Rightarrow> (NoReport, st)
           | Some sink \<Rightarrow> let st = st\<lparr>pg_seq := pg_seq st + 1\<rparr> in (ReportSink sink (pg_seq st), st)))"

section \<open>Choice of the engine and fallback\<close>

record Probe =
  pr_WebGPU :: bool
  pr_SharedMem :: bool
  pr_Workers :: int

record Options =
  op_ForceCPU :: bool
  op_WorkerCount :: int
  op_ShardCount :: int
  op_RangeFetchConcurrency :: int
  op_ChunkPrefetchWindow :: int
  op_WorkerURL :: string
  op_PinnedDecode :: bool
  op_OptW7 :: bool
  op_OptW8 :: bool

record stubShardedMSM =
  ss_workers :: int
  ss_shards :: int
  ss_rangeFetchConcurrency :: int
  ss_optW7 :: bool

datatype engine = CpuMSM | Sharded stubShardedMSM

definition engine_Name :: "engine \<Rightarrow> string" where
  "engine_Name e = (case e of CpuMSM \<Rightarrow> ''cpu'' | Sharded _ \<Rightarrow> ''sharded'')"

definition makeShardedEngineWithOptions :: "int \<Rightarrow> Options \<Rightarrow> engine" where
  "makeShardedEngineWithOptions workers opts =
     (let shards = (if op_ShardCount opts \<le> 0 then workers else op_ShardCount opts);
          concurrency = (if op_RangeFetchConcurrency opts \<le> 0 then 1 else op_RangeFetchConcurrency opts)
      in Sharded \<lparr>ss_workers = workers, ss_shards = shards, ss_rangeFetchConcurrency = concurrency, ss_optW7 = op_OptW7 opts\<rparr>)"

definition SelectWithOptions :: "Probe \<Rightarrow> Options \<Rightarrow> engine" where
  "SelectWithOptions p opts =
     (if op_ForceCPU opts then CpuMSM
      else let p = (if op_WorkerCount opts > 0 then p\<lparr>pr_Workers := op_WorkerCount opts\<rparr> else p)
           in if pr_SharedMem p \<and> pr_Workers p > 1 then makeShardedEngineWithOptions (pr_Workers p) opts else CpuMSM)"

definition Select :: "Probe \<Rightarrow> engine" where
  "Select p = SelectWithOptions p \<lparr>op_ForceCPU = False, op_WorkerCount = 0, op_ShardCount = 0, op_RangeFetchConcurrency = 0,
     op_ChunkPrefetchWindow = 0, op_WorkerURL = [], op_PinnedDecode = False, op_OptW7 = False, op_OptW8 = False\<rparr>"

text \<open>
  \<open>run\<close> and \<open>beforeRetry\<close> are the callbacks of the caller; they change a state of the caller, in which a log
  of the runs can be kept. No error is \<open>None\<close>.
\<close>

definition WithFallbackReload :: "engine \<Rightarrow> ('s \<Rightarrow> merr option \<times> 's) option \<Rightarrow> (engine \<Rightarrow> 's \<Rightarrow> merr option \<times> 's) \<Rightarrow>
    's \<Rightarrow> merr option \<times> 's" where
  "WithFallbackReload primary beforeRetry run s =
     (case run primary s of
        (None, s) \<Rightarrow> (None, s)
      | (Some primaryErr, s) \<Rightarrow>
          if as_failClosed primaryErr then (Some primaryErr, s)
          else
            let primaryProve = MWrap (''primary '' @ engine_Name primary @ '' prove'') primaryErr;
                (reloadErr, s) = (case beforeRetry of None \<Rightarrow> (None, s) | Some reload \<Rightarrow> reload s)
            in (case reloadErr of
                  Some e \<Rightarrow> (Some (Joined primaryProve (MWrap ''prepare cpu retry'' e)), s)
                | None \<Rightarrow>
                    (case run CpuMSM s of
                       (None, s) \<Rightarrow> (None, s)
                     | (Some retryErr, s) \<Rightarrow> (Some (Joined primaryProve (MWrap ''cpu retry prove'' retryErr)), s))))"

definition WithFallback :: "engine \<Rightarrow> (engine \<Rightarrow> 's \<Rightarrow> merr option \<times> 's) \<Rightarrow> 's \<Rightarrow> merr option \<times> 's" where
  "WithFallback primary run s = WithFallbackReload primary None run s"

section \<open>Waiting, backoff and bounds\<close>

definition asyncQueueShardMultiplier :: int where "asyncQueueShardMultiplier = 16"
definition asyncWorkerInactivityTimeout :: int where "asyncWorkerInactivityTimeout = 5 * 60 * Second"
definition asyncWorkerAbsoluteTimeout :: int where "asyncWorkerAbsoluteTimeout = 20 * 60 * Second"
definition asyncShardMaxAttempts :: nat where "asyncShardMaxAttempts = 3"

text \<open>
  The select of the wait loop takes one of these events at a time: a result, the closed cancel channel, or the
  timer, which fires after an elapsed time, at which the progress function would report a count.
\<close>

datatype 'a wait_event = GotResult 'a | GotCancel | TimerFired int u64

datatype 'a wait_end = Returned 'a | Cancelled | Rejected string | ExceededDeadline | NoProgress

definition minDuration :: "int \<Rightarrow> int \<Rightarrow> int" where
  "minDuration a b = (if a < b then a else b)"

text \<open>The loop; the next lease of the timer is kept, and \<open>None\<close> is a wait that has not ended.\<close>

fun wait_loop :: "int \<Rightarrow> int \<Rightarrow> bool \<Rightarrow> u64 \<Rightarrow> int \<Rightarrow> 'a wait_event list \<Rightarrow> 'a wait_end option" where
  "wait_loop inactivity absolute hasProgress lastProgress lease [] = None"
| "wait_loop inactivity absolute hasProgress lastProgress lease (GotResult r # evs) = Some (Returned r)"
| "wait_loop inactivity absolute hasProgress lastProgress lease (GotCancel # evs) = Some Cancelled"
| "wait_loop inactivity absolute hasProgress lastProgress lease (TimerFired elapsed count # evs) =
     (if elapsed \<ge> absolute then Some ExceededDeadline
      else
        let currentProgress = (if hasProgress then count else lastProgress)
        in if currentProgress \<le> lastProgress then Some NoProgress
           else wait_loop inactivity absolute hasProgress currentProgress (minDuration inactivity (absolute - elapsed)) evs)"

definition waitForAsyncResultWithProgress :: "int \<Rightarrow> int \<Rightarrow> bool \<Rightarrow> 'a wait_event list \<Rightarrow> 'a wait_end option" where
  "waitForAsyncResultWithProgress inactivity absolute hasProgress evs =
     (if inactivity \<le> 0 then Some (Rejected ''async worker inactivity timeout must be positive'')
      else if absolute \<le> 0 then Some (Rejected ''async worker absolute timeout must be positive'')
      else wait_loop inactivity absolute hasProgress 0 (minDuration inactivity absolute) evs)"

definition waitForAsyncResult :: "int \<Rightarrow> 'a wait_event list \<Rightarrow> 'a wait_end option" where
  "waitForAsyncResult timeout evs = waitForAsyncResultWithProgress timeout timeout False evs"

definition asyncRetryBackoff :: "nat \<Rightarrow> int \<Rightarrow> int \<Rightarrow> int" where
  "asyncRetryBackoff W attempt workerSlot =
     (let attempt = (if attempt < 2 then 2 else attempt);
          shift = (if attempt - 2 > 3 then 3 else attempt - 2);
          base = 250 * Millisecond * 2 ^ nat shift;
          jitter = (go_int W (workerSlot * 37 + attempt * 17) smod 101) * Millisecond
      in base + jitter)"

definition asyncQueueCapacity :: "nat \<Rightarrow> int \<Rightarrow> int" where
  "asyncQueueCapacity W shards = go_int W ((if shards < 1 then 1 else shards) * asyncQueueShardMultiplier)"

definition asyncQueueHasCapacity :: "nat \<Rightarrow> int \<Rightarrow> int \<Rightarrow> int \<Rightarrow> int \<Rightarrow> bool" where
  "asyncQueueHasCapacity W queued inFlight incoming shards \<longleftrightarrow>
     queued \<ge> 0 \<and> inFlight \<ge> 0 \<and> incoming \<ge> 0 \<and> go_int W (queued + inFlight + incoming) \<le> asyncQueueCapacity W shards"

section \<open>Single-use handles\<close>

text \<open>The channel \<^verbatim>\<open>done\<close> is closed exactly when \<open>cs_completed\<close> holds.\<close>

record collectionState =
  cs_err :: "merr option"
  cs_completed :: bool
  cs_collected :: bool

definition newCollectionState :: collectionState where
  "newCollectionState = \<lparr>cs_err = None, cs_completed = False, cs_collected = False\<rparr>"

definition complete_state :: "merr option \<Rightarrow> collectionState \<Rightarrow> collectionState" where
  "complete_state err s = (if cs_completed s then s else s\<lparr>cs_err := err, cs_completed := True\<rparr>)"

definition completeCollectionStates :: "collectionState list \<Rightarrow> merr option \<Rightarrow> collectionState list" where
  "completeCollectionStates states err = map (complete_state err) states"

text \<open>
  \<^verbatim>\<open>collect\<close> first takes the handle, or fails; then it blocks until the channel is closed, and returns the error.
\<close>

definition double_collect :: merr where
  "double_collect = FailClosedError ''async-msm-double-collect'' (MErr ''section MSM handle was already collected'')"

definition collect_begin :: "collectionState \<Rightarrow> (merr, collectionState) sum" where
  "collect_begin s = (if cs_collected s then Inl double_collect else Inr (s\<lparr>cs_collected := True\<rparr>))"

definition collect_end :: "collectionState \<Rightarrow> merr option option" where
  "collect_end s = (if cs_completed s then Some (cs_err s) else None)"

section \<open>The reply of a worker\<close>

text \<open>
  A message of a worker: an error with its code, or the bytes of a partial sum with the timings; \<open>section_reply\<close>
  is what \<^verbatim>\<open>postSectionAndWaitLockedCancelable\<close> makes of the end of its wait.
\<close>

record workerReply =
  wr_id :: int
  wr_err :: "string option"
  wr_errorCode :: string
  wr_retryable :: bool
  wr_retryAfterMS :: int
  wr_partial :: bytes
  wr_timings :: "string \<rightharpoonup> timing"

definition section_reply :: "int \<Rightarrow> bool \<Rightarrow> workerReply wait_end \<Rightarrow> merr + bytes" where
  "section_reply requestID optW7 waited =
     (let terminated = (\<lambda>m. case classifyTypedSectionWorkerError ''worker-terminated'' True 0 (Some (MErr m)) of
            None \<Rightarrow> Inl (MErr m) | Some e \<Rightarrow> Inl e)
      in case waited of
        Cancelled \<Rightarrow> Inl (FailClosedError ''async-msm-cancelled'' (MErr ''asynchronous section MSM cancelled''))
      | Rejected m \<Rightarrow> terminated m
      | ExceededDeadline \<Rightarrow> terminated ''worker reply exceeded absolute deadline''
      | NoProgress \<Rightarrow> terminated ''worker reply made no observed progress''
      | Returned reply \<Rightarrow>
          (case wr_err reply of
             Some m \<Rightarrow>
               if wr_errorCode reply = [] then Inl (classifySectionWorkerError (MErr m))
               else (case classifyTypedSectionWorkerError (wr_errorCode reply) (wr_retryable reply)
                       (wr_retryAfterMS reply * Millisecond) (Some (MErr m)) of
                       None \<Rightarrow> Inl (MErr m) | Some e \<Rightarrow> Inl e)
           | None \<Rightarrow>
               if wr_id reply \<noteq> requestID then Inl (workerReplyIntegrityError requestID (wr_id reply))
               else (case validateW7WorkerAcknowledgement optW7 (wr_timings reply) of
                       Some e \<Rightarrow> Inl e
                     | None \<Rightarrow> Inr (wr_partial reply))))"

section \<open>What the policies promise\<close>

lemma failClosed_Some [simp]: "failClosed class (Some e) = Some (FailClosedError class e)"
  by (simp add: failClosed_def)

text \<open>The CPU engine runs exactly after a primary error that is not fail-closed, when the reload did not fail.\<close>

lemma WithFallbackReload_ok:
  "WithFallbackReload primary reload run s = (None, s') \<longleftrightarrow>
     run primary s = (None, s') \<or>
     (\<exists>e s1 s2. run primary s = (Some e, s1) \<and> \<not> as_failClosed e \<and>
        (case reload of None \<Rightarrow> (None, s1) | Some r \<Rightarrow> r s1) = (None, s2) \<and> run CpuMSM s2 = (None, s'))"
  by (auto simp: WithFallbackReload_def Let_def split: prod.splits option.splits)

lemma WithFallbackReload_fail_closed:
  "run primary s = (Some e, s') \<Longrightarrow> as_failClosed e \<Longrightarrow> WithFallbackReload primary reload run s = (Some e, s')"
  by (simp add: WithFallbackReload_def)

lemma WithFallbackReload_keeps_primary:
  assumes "WithFallbackReload primary reload run s = (Some err, s')"
  shows "\<exists>e s1. run primary s = (Some e, s1) \<and>
     (if as_failClosed e then err = e
      else \<exists>c e'. err = Joined (MWrap (''primary '' @ engine_Name primary @ '' prove'') e) (MWrap c e'))"
  using assms by (auto simp: WithFallbackReload_def Let_def split: prod.splits option.splits if_splits)

text \<open>
  Every outcome, with the log of the engines that were asked: the log is kept in the state, so it says what ran
  whatever was returned.
\<close>

definition log_run :: "(engine \<Rightarrow> 's \<Rightarrow> merr option \<times> 's) \<Rightarrow> engine \<Rightarrow> 's \<times> engine list \<Rightarrow> merr option \<times> 's \<times> engine list" where
  "log_run run e sl = (let (r, s') = run e (fst sl) in (r, s', snd sl @ [e]))"

definition log_reload :: "('s \<Rightarrow> merr option \<times> 's) \<Rightarrow> 's \<times> engine list \<Rightarrow> merr option \<times> 's \<times> engine list" where
  "log_reload reload sl = (let (r, s') = reload (fst sl) in (r, s', snd sl))"

definition reload_result :: "('s \<Rightarrow> merr option \<times> 's) option \<Rightarrow> 's \<Rightarrow> merr option \<times> 's" where
  "reload_result reload s = (case reload of None \<Rightarrow> (None, s) | Some f \<Rightarrow> f s)"

lemma log_run_eq: "run e s = (r, s') \<Longrightarrow> log_run run e (s, l) = (r, s', l @ [e])"
  by (simp add: log_run_def)

lemma fallback_log:
  "snd (snd (WithFallbackReload primary (map_option log_reload reload) (log_run run) (s, []))) =
     (case run primary s of
        (None, _) \<Rightarrow> [primary]
      | (Some e, s1) \<Rightarrow> if \<not> as_failClosed e \<and> fst (reload_result reload s1) = None then [primary, CpuMSM] else [primary])"
  by (cases reload) (auto simp: WithFallbackReload_def reload_result_def log_run_def log_reload_def Let_def
      split: prod.splits option.splits)

lemma fallback_retry:
  assumes "run primary s = (Some e, s1)" and "\<not> as_failClosed e"
  shows "WithFallbackReload primary reload run s =
     (case reload_result reload s1 of
        (Some x, s2) \<Rightarrow> (Some (Joined (MWrap (''primary '' @ engine_Name primary @ '' prove'') e) (MWrap ''prepare cpu retry'' x)), s2)
      | (None, s2) \<Rightarrow>
          (case run CpuMSM s2 of
             (Some x, s3) \<Rightarrow> (Some (Joined (MWrap (''primary '' @ engine_Name primary @ '' prove'') e) (MWrap ''cpu retry prove'' x)), s3)
           | (None, s3) \<Rightarrow> (None, s3)))"
  using assms by (auto simp: WithFallbackReload_def reload_result_def Let_def split: prod.splits option.splits)

text \<open>Wrapping an error any number of times does not take its mark away.\<close>

lemma wrapped_fail_closed: "as_failClosed e \<Longrightarrow> as_failClosed (foldr MWrap contexts e)"
  by (induction contexts) auto

lemma classified_typed:
  "\<exists>class retryable rep retryAfter. classifyTypedSectionWorkerError errcode r after (Some e) =
     Some (FailClosedError class (sectionWorkerFailure errcode retryable rep retryAfter e))"
  unfolding classifyTypedSectionWorkerError_def Let_def failClosed_Some option.case by (simp only: split_beta) blast

lemma classified_fail_closed:
  shows "as_failClosed (classifySectionWorkerError e)"
    and "classifyTypedSectionWorkerError errcode r after err = Some e' \<Longrightarrow> as_failClosed e'"
    and "as_failClosed (workerReplyIntegrityError a b)"
    and "workerPartialIntegrityError err = Some e' \<Longrightarrow> as_failClosed e'"
    and "validateW7WorkerAcknowledgement req timings = Some e' \<Longrightarrow> as_failClosed e'"
    and "as_failClosed double_collect"
proof -
  show "as_failClosed (classifySectionWorkerError e)" by (simp add: classifySectionWorkerError_def)
  show "as_failClosed e'" if "classifyTypedSectionWorkerError errcode r after err = Some e'"
  proof (cases err)
    case (Some x)
    then show ?thesis using that classified_typed [of errcode r after x] by auto
  qed (use that in \<open>simp add: classifyTypedSectionWorkerError_def\<close>)
  show "as_failClosed (workerReplyIntegrityError a b)" by (simp add: workerReplyIntegrityError_def)
  show "as_failClosed e'" if "workerPartialIntegrityError err = Some e'"
    using that by (auto simp: workerPartialIntegrityError_def failClosed_def split: option.splits)
  show "as_failClosed e'" if "validateW7WorkerAcknowledgement req timings = Some e'"
    using that by (auto simp: validateW7WorkerAcknowledgement_def split: if_splits)
  show "as_failClosed double_collect" by (simp add: double_collect_def)
qed

text \<open>Only the allow-listed codes are ever retried, and only when the worker advertises it.\<close>

definition transport_codes :: "string set" where
  "transport_codes = {''chunk-fetch-network'', ''chunk-fetch-http''}"

definition restart_codes :: "string set" where
  "restart_codes = {''worker-terminated'', ''worker-initialization''}"

lemma typed_retry:
  assumes "classifyTypedSectionWorkerError errcode r after (Some e) = Some e'"
  shows "sectionWorkerRetry e' = (r \<and> errcode \<in> transport_codes \<union> restart_codes, errcode \<in> restart_codes,
     if errcode \<in> insert ''chunk-integrity'' (transport_codes \<union> restart_codes) \<and> 0 \<le> after \<and> after \<le> 30 * Second then after else 0)"
proof -
  consider "errcode = ''chunk-integrity''" | "errcode = ''chunk-fetch-network''" | "errcode = ''chunk-fetch-http''"
    | "errcode = ''worker-terminated''" | "errcode = ''worker-initialization''"
    | "errcode \<noteq> ''chunk-integrity''" "errcode \<noteq> ''chunk-fetch-network''" "errcode \<noteq> ''chunk-fetch-http''"
      "errcode \<noteq> ''worker-terminated''" "errcode \<noteq> ''worker-initialization''" by blast
  then show ?thesis
    using assms unfolding classifyTypedSectionWorkerError_def Let_def option.case failClosed_Some transport_codes_def restart_codes_def
    by cases (hypsubst?, simp add: sectionWorkerRetry_def, elim subst, simp add: sectionWorkerRetry_def)+
qed

lemma untyped_never_retried:
  assumes "as_sectionFailure e = None"
  shows "sectionWorkerRetry (classifySectionWorkerError e) = (False, False, 0)"
  using assms by (simp add: classifySectionWorkerError_def sectionWorkerRetry_def)

text \<open>A lease of the timer: it fires no earlier than the time it was set for.\<close>

fun leases :: "int \<Rightarrow> int \<Rightarrow> int \<Rightarrow> int \<Rightarrow> 'a wait_event list \<Rightarrow> bool" where
  "leases inactivity absolute now lease [] = True"
| "leases inactivity absolute now lease (TimerFired elapsed count # evs) =
     (now + lease \<le> elapsed \<and> leases inactivity absolute elapsed (minDuration inactivity (absolute - elapsed)) evs)"
| "leases inactivity absolute now lease (_ # evs) = True"

lemma wait_loop_ends:
  assumes "leases inactivity absolute now (minDuration inactivity (absolute - now)) evs" and "0 < inactivity" and "now < absolute"
    and "absolute - now < int (length evs) * inactivity"
  shows "wait_loop inactivity absolute hp lp (minDuration inactivity (absolute - now)) evs \<noteq> None"
  using assms
proof (induction evs arbitrary: now lp)
  case Nil
  then show ?case by simp
next
  case (Cons ev evs)
  show ?case
  proof (cases ev)
    case (TimerFired elapsed count)
    show ?thesis
    proof (cases "elapsed < absolute")
      case True
      have "now + minDuration inactivity (absolute - now) \<le> elapsed" using Cons.prems(1) by (simp add: TimerFired)
      then have "now + inactivity \<le> elapsed" using True by (simp add: minDuration_def split: if_splits)
      then have "absolute - elapsed < int (length evs) * inactivity" using Cons.prems(4) by (simp add: algebra_simps)
      then show ?thesis using Cons.IH [of elapsed] Cons.prems(1,2) True by (simp add: TimerFired Let_def)
    qed (simp add: TimerFired)
  qed simp_all
qed

text \<open>
  A wait ends after at most as many events as leases of the inactivity timeout fit into the absolute timeout, and one;
  it is never ended by the deadline before the deadline.
\<close>

lemma wait_bounded:
  assumes "leases inactivity absolute 0 (minDuration inactivity absolute) evs" and "absolute div inactivity < int (length evs)"
  shows "waitForAsyncResultWithProgress inactivity absolute hp evs \<noteq> None"
proof (cases "0 < inactivity \<and> 0 < absolute")
  case True
  have "absolute < inactivity * (absolute div inactivity + 1)"
  proof -
    have "absolute mod inactivity < inactivity" using True by simp
    moreover have "absolute = inactivity * (absolute div inactivity) + absolute mod inactivity" by simp
    ultimately show ?thesis unfolding distrib_left mult_1_right by linarith
  qed
  also have "\<dots> \<le> inactivity * int (length evs)" using assms(2) True by (intro mult_left_mono) simp_all
  finally have "absolute < int (length evs) * inactivity" by (simp add: mult.commute)
  then show ?thesis using wait_loop_ends [of inactivity absolute 0 evs hp 0] assms(1) True
    by (simp add: waitForAsyncResultWithProgress_def)
qed (auto simp: waitForAsyncResultWithProgress_def)

lemma backoff_bounds:
  assumes "2 \<le> attempt" and "attempt \<le> 3" and "0 \<le> slot" and "slot * 37 + 51 < 2 ^ (W - 1)" and "0 < W"
  shows "asyncRetryBackoff W attempt slot \<in> {250 * Millisecond..600 * Millisecond}"
proof -
  have g: "go_int W (slot * 37 + attempt * 17) = slot * 37 + attempt * 17" using assms by (intro go_int_id) simp_all
  have m: "0 \<le> (slot * 37 + attempt * 17) smod 101 \<and> (slot * 37 + attempt * 17) smod 101 \<le> 100"
    using assms(1,3) by (simp add: signed_modulo_int_def)
  have "attempt = 2 \<or> attempt = 3" using assms(1,2) by arith
  then show ?thesis using m by (auto simp: asyncRetryBackoff_def g Let_def Millisecond_def)
qed

text \<open>Every error of a section request is fail-closed; a partial sum is passed on only from a matching, acknowledged reply.\<close>

lemma section_reply_error: "section_reply i w7 waited = Inl e \<Longrightarrow> as_failClosed e"
  unfolding section_reply_def Let_def
  by (auto split: wait_end.splits option.splits if_splits dest: classified_fail_closed(2,5)
      simp: classified_fail_closed(1,3) classifyTypedSectionWorkerError_def failClosed_def)

lemma section_reply_ok:
  assumes "section_reply i w7 waited = Inr b"
  shows "\<exists>r. waited = Returned r \<and> wr_err r = None \<and> wr_id r = i \<and> wr_partial r = b \<and>
     (w7 \<longrightarrow> wr_timings r ''w7_applied'' = Some (Float64 float64_one))"
  using assms unfolding section_reply_def Let_def
  by (auto split: wait_end.splits option.splits if_splits simp: validateW7WorkerAcknowledgement_def)

end
