(* ===== verification/MsmScheduler.thy ===== *)
theory MsmScheduler
  imports MsmControl "HOL-Library.Multiset"
begin

text \<open>
  The scheduler of asynchronous section multi-exponentiations, from \<^verbatim>\<open>internal/msmengine/async_js.go\<close>: handles,
  a bounded queue of shard tasks, one goroutine per busy worker, retries, completion, failure and collection.

  The state is what the mutexes protect. A goroutine is at a point between two critical sections, and
  one step of \<open>engine_step\<close> is one critical section of one goroutine or of the caller, so every interleaving
  is a run. The worker is the environment: its reply to a request is any \<open>section_reply\<close> whose partial sum, if
  it decodes, satisfies the contract \<open>K\<close> of the kernel.
\<close>

section \<open>State\<close>

record shard_task =
  tk_handle :: nat
  tk_index :: nat
  tk_range :: "int \<times> int"
  tk_requestID :: int
  tk_affinityWorker :: int
  tk_attempt :: nat

text \<open>\<^verbatim>\<open>partsG1\<close> and \<^verbatim>\<open>partsG2\<close> are one field; \<open>sh_g2\<close> tells which of them is in use.\<close>

record ('p, 'f, 'g) section_handle =
  sh_state :: collectionState
  sh_g2 :: bool
  sh_plan :: "'p option"
  sh_section :: string
  sh_n :: int
  sh_scalars :: "'f list"
  sh_ranges :: "(int \<times> int) list"
  sh_pending :: int
  sh_doneScalars :: int
  sh_parts :: "'g list"
  sh_prog :: "(int \<times> int) list"

text \<open>Where a goroutine of \<^verbatim>\<open>run\<close> is: the critical section it enters next.\<close>

datatype phase =
    InWorker | Stored | Counted int bool | Releasing | Failing merr
  | Retrying merr bool | Replacing merr | Again merr | Backoff

text \<open>
  The handles are a heap, \<open>sc_open\<close> the map \<^verbatim>\<open>handles\<close> of the scheduler; a thread sits in the slot of its worker.
  \<open>sc_collecting\<close> are the callers that wait in \<^verbatim>\<open>collect\<close>. The closed \<^verbatim>\<open>cancel\<close> channel is a terminal error.
\<close>

record ('p, 'f, 'g) scheduler =
  sc_queue :: "shard_task list"
  sc_busy :: "bool list"
  sc_threads :: "(shard_task \<times> phase) option list"
  sc_heap :: "('p, 'f, 'g) section_handle list"
  sc_open :: "nat set"
  sc_terminal :: "merr option"
  sc_nextRequestID :: int
  sc_collecting :: "nat set"

text \<open>What \<^verbatim>\<open>shardedMSM\<close> fixes: the width of \<^verbatim>\<open>int\<close>, the number of shards, and whether shards keep to a worker.\<close>

record sched_config =
  cf_W :: nat
  cf_shards :: int
  cf_optW7 :: bool

definition newScheduler :: "nat \<Rightarrow> ('p, 'f, 'g) scheduler" where
  "newScheduler workers = \<lparr>sc_queue = [], sc_busy = replicate workers False, sc_threads = replicate workers None, sc_heap = [],
     sc_open = {}, sc_terminal = None, sc_nextRequestID = 0, sc_collecting = {}\<rparr>"

definition update_handle :: "nat \<Rightarrow> (('p, 'f, 'g) section_handle \<Rightarrow> ('p, 'f, 'g) section_handle) \<Rightarrow> ('p, 'f, 'g) scheduler \<Rightarrow>
    ('p, 'f, 'g) scheduler" where
  "update_handle h f st = st\<lparr>sc_heap := (sc_heap st)[h := f (sc_heap st ! h)]\<rparr>"

section \<open>Queue and workers\<close>

definition inFlight :: "('p, 'f, 'g) scheduler \<Rightarrow> nat" where
  "inFlight st = length (filter id (sc_busy st))"

fun take_first :: "('a \<Rightarrow> bool) \<Rightarrow> 'a list \<Rightarrow> ('a \<times> 'a list) option" where
  "take_first p [] = None"
| "take_first p (x # xs) = (if p x then Some (x, xs) else map_option (\<lambda>(y, ys). (y, x # ys)) (take_first p xs))"

text \<open>A slot takes the head of the queue, or with W7 the first task of its own.\<close>

definition pump_slot :: "bool \<Rightarrow> ('p, 'f, 'g) scheduler \<Rightarrow> nat \<Rightarrow> ('p, 'f, 'g) scheduler" where
  "pump_slot optW7 st slot =
     (if sc_busy st ! slot \<or> sc_queue st = [] then st
      else (case take_first (\<lambda>t. \<not> optW7 \<or> tk_affinityWorker t = int slot) (sc_queue st) of
          None \<Rightarrow> st
        | Some (task, queue) \<Rightarrow>
            st\<lparr>sc_queue := queue, sc_busy := (sc_busy st)[slot := True],
              sc_threads := (sc_threads st)[slot := Some (task, InWorker)]\<rparr>))"

definition pumpLocked :: "bool \<Rightarrow> ('p, 'f, 'g) scheduler \<Rightarrow> ('p, 'f, 'g) scheduler" where
  "pumpLocked optW7 st =
     (if sc_terminal st \<noteq> None then st else foldl (pump_slot optW7) st [0..<length (sc_busy st)])"

fun shard_tasks :: "nat \<Rightarrow> (nat \<Rightarrow> int) \<Rightarrow> (int \<Rightarrow> int) \<Rightarrow> int \<Rightarrow> nat \<Rightarrow> (int \<times> int) list \<Rightarrow> shard_task list" where
  "shard_tasks h affinityOf next requestID i [] = []"
| "shard_tasks h affinityOf next requestID i (r # rs) =
     \<lparr>tk_handle = h, tk_index = i, tk_range = r, tk_requestID = next requestID, tk_affinityWorker = affinityOf i, tk_attempt = 1\<rparr> #
     shard_tasks h affinityOf next (next requestID) (Suc i) rs"

definition dispatchSection :: "sched_config \<Rightarrow> bool \<Rightarrow> 'p option \<Rightarrow> string \<Rightarrow> int \<Rightarrow> 'f list \<Rightarrow>
    ('p, 'f, 'g::comm_monoid_add) scheduler \<Rightarrow> (merr + nat) \<times> ('p, 'f, 'g) scheduler" where
  "dispatchSection cfg g2 plan section n scalars st =
     (if plan = None then (Inl (MErr ''async section MSM requires a proving-key section plan''), st)
      else if int (length scalars) \<noteq> n then (Inl (MErr ''async section MSM: scalars vs n''), st)
      else
        let ranges = nonEmptyRanges (partitionRanges n (cf_shards cfg));
            h = length (sc_heap st);
            handle = \<lparr>sh_state = newCollectionState, sh_g2 = g2, sh_plan = plan, sh_section = section, sh_n = n, sh_scalars = scalars,
              sh_ranges = ranges, sh_pending = int (length ranges), sh_doneScalars = 0, sh_parts = replicate (length ranges) 0, sh_prog = []\<rparr>
        in if ranges = [] then
             (Inr h, st\<lparr>sc_heap := sc_heap st @ [handle\<lparr>sh_state := complete_state None newCollectionState\<rparr>]\<rparr>)
           else (case sc_terminal st of
               Some e \<Rightarrow> (Inl e, st)
             | None \<Rightarrow>
                 if \<not> asyncQueueHasCapacity (cf_W cfg) (int (length (sc_queue st))) (int (inFlight st)) (int (length ranges)) (cf_shards cfg)
                 then (Inl (FailClosedError ''async-msm-queue-full'' (MErr ''bounded async shard queue capacity exceeded'')), st)
                 else
                   let aff = newContiguousShardAffinity (int (length ranges)) (int (length (sc_busy st)));
                       tasks = shard_tasks h (\<lambda>i. if cf_optW7 cfg then workerByShard aff ! i else -1)
                         (\<lambda>k. go_int (cf_W cfg) (k + 1)) (sc_nextRequestID st) 0 ranges
                   in (Inr h, pumpLocked (cf_optW7 cfg) (st\<lparr>sc_heap := sc_heap st @ [handle], sc_open := insert h (sc_open st),
                         sc_queue := sc_queue st @ tasks,
                         sc_nextRequestID := go_int (cf_W cfg) (sc_nextRequestID st + int (length ranges))\<rparr>))))"

section \<open>Failure, completion, collection\<close>

definition fail_sched :: "merr option \<Rightarrow> ('p, 'f, 'g) scheduler \<Rightarrow> ('p, 'f, 'g) scheduler" where
  "fail_sched cause st =
     (let cause = (case cause of None \<Rightarrow> MErr ''asynchronous section MSM failed'' | Some e \<Rightarrow> e)
      in if sc_terminal st \<noteq> None then st
         else st\<lparr>sc_terminal := Some cause, sc_queue := [],
           sc_heap := map (\<lambda>(h, x). if h \<in> sc_open st then x\<lparr>sh_state := complete_state (Some cause) (sh_state x)\<rparr> else x)
             (enumerate 0 (sc_heap st)),
           sc_open := {}, sc_busy := map (\<lambda>_. False) (sc_busy st)\<rparr>)"

definition CancelOutstanding :: "merr option \<Rightarrow> ('p, 'f, 'g) scheduler \<Rightarrow> ('p, 'f, 'g) scheduler" where
  "CancelOutstanding cause st = fail_sched (failClosed ''async-msm-cancelled'' cause) st"

definition set_thread :: "nat \<Rightarrow> (shard_task \<times> phase) option \<Rightarrow> ('p, 'f, 'g) scheduler \<Rightarrow> ('p, 'f, 'g) scheduler" where
  "set_thread slot th st = st\<lparr>sc_threads := (sc_threads st)[slot := th]\<rparr>"

definition count_task :: "shard_task \<Rightarrow> ('p, 'f, 'g) section_handle \<Rightarrow> ('p, 'f, 'g) section_handle" where
  "count_task task x =
     x\<lparr>sh_pending := sh_pending x - 1, sh_doneScalars := sh_doneScalars x + (snd (tk_range task) - fst (tk_range task))\<rparr>"

definition report_task :: "int \<Rightarrow> bool \<Rightarrow> ('p, 'f, 'g) section_handle \<Rightarrow> ('p, 'f, 'g) section_handle" where
  "report_task doneScalars completed x =
     x\<lparr>sh_prog := sh_prog x @ [(doneScalars, sh_n x)],
       sh_state := (if completed then complete_state None (sh_state x) else sh_state x)\<rparr>"

definition store_part :: "nat \<Rightarrow> 'g \<Rightarrow> ('p, 'f, 'g) section_handle \<Rightarrow> ('p, 'f, 'g) section_handle" where
  "store_part i v x = x\<lparr>sh_parts := (sh_parts x)[i := v]\<rparr>"

definition releaseSlot :: "bool \<Rightarrow> nat \<Rightarrow> ('p, 'f, 'g) scheduler \<Rightarrow> ('p, 'f, 'g) scheduler" where
  "releaseSlot optW7 slot st = pumpLocked optW7 (set_thread slot None st\<lparr>sc_busy := (sc_busy st)[slot := False]\<rparr>)"

text \<open>\<^verbatim>\<open>CollectG1Section\<close> and \<^verbatim>\<open>CollectG2Section\<close>: the check and the claim of the handle, and, when it is complete, the rest.\<close>

definition collectStart :: "bool \<Rightarrow> nat \<Rightarrow> ('p, 'f, 'g) scheduler \<Rightarrow> merr option \<times> ('p, 'f, 'g) scheduler" where
  "collectStart g2 h st =
     (if sh_g2 (sc_heap st ! h) \<noteq> g2 then
        (Some (FailClosedError ''async-msm-handle-group'' (MErr ''collect received incompatible handle'')), st)
      else (case collect_begin (sh_state (sc_heap st ! h)) of
          Inl e \<Rightarrow> (Some e, st)
        | Inr s \<Rightarrow> (None, (update_handle h (\<lambda>x. x\<lparr>sh_state := s\<rparr>) st)\<lparr>sc_collecting := insert h (sc_collecting st)\<rparr>)))"

definition collectFinish :: "nat \<Rightarrow> ('p, 'f, 'g::comm_monoid_add) scheduler \<Rightarrow> ((merr + 'g) \<times> ('p, 'f, 'g) scheduler) option" where
  "collectFinish h st =
     (case collect_end (sh_state (sc_heap st ! h)) of
        None \<Rightarrow> None
      | Some (Some e) \<Rightarrow> Some (Inl e, st\<lparr>sc_collecting := sc_collecting st - {h}\<rparr>)
      | Some None \<Rightarrow>
          Some (Inr (combine (sh_parts (sc_heap st ! h))),
            (update_handle h (\<lambda>x. x\<lparr>sh_parts := [], sh_scalars := [], sh_plan := None\<rparr>) st)
              \<lparr>sc_collecting := sc_collecting st - {h}, sc_open := sc_open st - {h}\<rparr>))"

section \<open>Goroutines\<close>

text \<open>The contract \<open>K\<close> of the kernel relates a request (plan, group, section, range, scalars) to a partial sum.\<close>

type_synonym ('p, 'f, 'g) kernel = "'p option \<Rightarrow> bool \<Rightarrow> string \<Rightarrow> int \<times> int \<Rightarrow> 'f list \<Rightarrow> 'g \<Rightarrow> bool"

definition request_ok :: "('p, 'f, 'g) kernel \<Rightarrow> ('p, 'f, 'g) section_handle \<Rightarrow> int \<times> int \<Rightarrow> 'g \<Rightarrow> bool" where
  "request_ok K x r v = K (sh_plan x) (sh_g2 x) (sh_section x) r (go_slice (fst r) (snd r) (sh_scalars x)) v"

definition after_error :: "shard_task \<Rightarrow> merr \<Rightarrow> phase" where
  "after_error task e =
     (let (retryable, rep, _) = sectionWorkerRetry e
      in if \<not> retryable \<or> tk_attempt task \<ge> asyncShardMaxAttempts then Failing e else Retrying e rep)"

inductive thread_step :: "('p, 'f, 'g) kernel \<Rightarrow> (bytes \<Rightarrow> 'g option) \<Rightarrow> sched_config \<Rightarrow> nat \<Rightarrow> shard_task \<Rightarrow> phase \<Rightarrow>
    ('p, 'f, 'g) scheduler \<Rightarrow> ('p, 'f, 'g) scheduler \<Rightarrow> bool"
  for K dcd cfg slot task where
  no_worker: "thread_step K dcd cfg slot task InWorker st
    (set_thread slot (Some (task, Failing (FailClosedError ''worker-terminated'' (MErr ''worker slot is unavailable'')))) st)"
| error_reply: "section_reply (tk_requestID task) (cf_optW7 cfg) waited = Inl e \<Longrightarrow>
    thread_step K dcd cfg slot task InWorker st (set_thread slot (Some (task, after_error task e)) st)"
| bad_partial: "section_reply (tk_requestID task) (cf_optW7 cfg) waited = Inr b \<Longrightarrow> dcd b = None \<Longrightarrow>
    workerPartialIntegrityError (Some e) = Some e' \<Longrightarrow>
    thread_step K dcd cfg slot task InWorker st (set_thread slot (Some (task, Failing e')) st)"
| good_partial: "section_reply (tk_requestID task) (cf_optW7 cfg) waited = Inr b \<Longrightarrow> dcd b = Some v \<Longrightarrow>
    request_ok K (sc_heap st ! tk_handle task) (tk_range task) v \<Longrightarrow>
    thread_step K dcd cfg slot task InWorker st
      (set_thread slot (Some (task, Stored)) (update_handle (tk_handle task) (store_part (tk_index task) v) st))"
| retry_stops: "sc_terminal st \<noteq> None \<Longrightarrow> thread_step K dcd cfg slot task (Retrying e rep) st (set_thread slot None st)"
| retry: "sc_terminal st = None \<Longrightarrow>
    thread_step K dcd cfg slot task (Retrying e rep) st (set_thread slot (Some (task, if rep then Replacing e else Again e)) st)"
| replaced: "thread_step K dcd cfg slot task (Replacing e) st (set_thread slot (Some (task, Again e)) st)"
| not_replaced: "thread_step K dcd cfg slot task (Replacing e) st
    (set_thread slot (Some (task, Failing (FailClosedError ''worker-terminated'' (MWrap ''replace worker slot'' e'')))) st)"
| again_stops: "sc_terminal st \<noteq> None \<Longrightarrow> thread_step K dcd cfg slot task (Again e) st (set_thread slot None st)"
| again: "sc_terminal st = None \<Longrightarrow> requestID = go_int (cf_W cfg) (sc_nextRequestID st + 1) \<Longrightarrow>
    thread_step K dcd cfg slot task (Again e) st
      (set_thread slot (Some (task\<lparr>tk_attempt := Suc (tk_attempt task), tk_requestID := requestID\<rparr>, Backoff))
        (st\<lparr>sc_nextRequestID := requestID\<rparr>))"
| backoff_over: "thread_step K dcd cfg slot task Backoff st (set_thread slot (Some (task, InWorker)) st)"
| backoff_cancelled: "sc_terminal st \<noteq> None \<Longrightarrow> thread_step K dcd cfg slot task Backoff st (set_thread slot None st)"
| count: "thread_step K dcd cfg slot task Stored st
    (let x = count_task task (sc_heap st ! tk_handle task)
     in set_thread slot (Some (task, Counted (sh_doneScalars x) (sh_pending x = 0))) (update_handle (tk_handle task) (count_task task) st))"
| report: "thread_step K dcd cfg slot task (Counted doneScalars completed) st
    (set_thread slot (Some (task, Releasing)) (update_handle (tk_handle task) (report_task doneScalars completed) st))"
| release: "thread_step K dcd cfg slot task Releasing st (releaseSlot (cf_optW7 cfg) slot st)"
| fails: "thread_step K dcd cfg slot task (Failing e) st (set_thread slot None (fail_sched (Some e) st))"

datatype ('p, 'f, 'g) sched_event =
    Dispatched bool "'p option" string int "'f list" "merr + nat"
  | Worker nat
  | CollectStarted nat bool "merr option"
  | Collected nat "merr + 'g"
  | CancelledAll "merr option"

inductive engine_step :: "('p, 'f, 'g::comm_monoid_add) kernel \<Rightarrow> (bytes \<Rightarrow> 'g option) \<Rightarrow> sched_config \<Rightarrow>
    ('p, 'f, 'g) scheduler \<Rightarrow> ('p, 'f, 'g) sched_event \<Rightarrow> ('p, 'f, 'g) scheduler \<Rightarrow> bool"
  for K dcd cfg where
  dispatch: "dispatchSection cfg g2 plan section n scalars st = (r, st') \<Longrightarrow>
    engine_step K dcd cfg st (Dispatched g2 plan section n scalars r) st'"
| worker: "slot < length (sc_threads st) \<Longrightarrow> sc_threads st ! slot = Some (task, ph) \<Longrightarrow> thread_step K dcd cfg slot task ph st st' \<Longrightarrow>
    engine_step K dcd cfg st (Worker slot) st'"
| collect_start: "h < length (sc_heap st) \<Longrightarrow> collectStart g2 h st = (r, st') \<Longrightarrow>
    engine_step K dcd cfg st (CollectStarted h g2 r) st'"
| collect_finish: "h \<in> sc_collecting st \<Longrightarrow> collectFinish h st = Some (r, st') \<Longrightarrow>
    engine_step K dcd cfg st (Collected h r) st'"
| cancel: "engine_step K dcd cfg st (CancelledAll cause) (CancelOutstanding cause st)"

text \<open>Runs, with the newest event first.\<close>

inductive sched_run :: "('p, 'f, 'g::comm_monoid_add) kernel \<Rightarrow> (bytes \<Rightarrow> 'g option) \<Rightarrow> sched_config \<Rightarrow> nat \<Rightarrow>
    ('p, 'f, 'g) sched_event list \<Rightarrow> ('p, 'f, 'g) scheduler \<Rightarrow> bool"
  for K dcd cfg workers where
  start: "sched_run K dcd cfg workers [] (newScheduler workers)"
| step: "sched_run K dcd cfg workers tr st \<Longrightarrow> engine_step K dcd cfg st ev st' \<Longrightarrow> sched_run K dcd cfg workers (ev # tr) st'"

inductive_cases thread_step_cases: "thread_step K dcd cfg slot task ph st st'"
inductive_cases engine_step_cases: "engine_step K dcd cfg st ev st'"

section \<open>Pumping\<close>

lemma take_first_Some:
  "take_first p xs = Some (x, rest) \<Longrightarrow> \<exists>as bs. xs = as @ x # bs \<and> p x \<and> rest = as @ bs"
proof (induction xs arbitrary: rest)
  case (Cons y ys)
  show ?case
  proof (cases "p y")
    case False
    with Cons.prems obtain r where r: "take_first p ys = Some (x, r)" "rest = y # r" by auto
    from Cons.IH [OF r(1)] obtain as bs where "ys = as @ x # bs" "p x" "r = as @ bs" by blast
    then have "y # ys = (y # as) @ x # bs \<and> p x \<and> rest = (y # as) @ bs" using r(2) by simp
    then show ?thesis by blast
  next
    case True
    then have "y # ys = [] @ x # ys \<and> p x \<and> rest = [] @ ys" using Cons.prems by simp
    then show ?thesis by blast
  qed
qed simp

lemma take_first_None: "take_first p xs = None \<longleftrightarrow> (\<forall>x \<in> set xs. \<not> p x)"
  by (induction xs) auto

text \<open>The task may run on the worker of the slot.\<close>

definition for_slot :: "bool \<Rightarrow> nat \<Rightarrow> shard_task \<Rightarrow> bool" where
  "for_slot optW7 slot t \<longleftrightarrow> \<not> optW7 \<or> tk_affinityWorker t = int slot"

lemma pump_slot_cases:
  obtains (idle) "pump_slot w st slot = st" "sc_busy st ! slot \<or> (\<forall>t \<in> set (sc_queue st). \<not> for_slot w slot t)"
  | (starts) as t bs where "\<not> sc_busy st ! slot" "sc_queue st = as @ t # bs" "for_slot w slot t"
      "pump_slot w st slot = st\<lparr>sc_queue := as @ bs, sc_busy := (sc_busy st)[slot := True],
         sc_threads := (sc_threads st)[slot := Some (t, InWorker)]\<rparr>"
proof (cases "sc_busy st ! slot \<or> sc_queue st = []")
  case True
  then show ?thesis by (intro idle) (auto simp: pump_slot_def)
next
  case False
  show ?thesis
  proof (cases "take_first (for_slot w slot) (sc_queue st)")
    case None
    then have "\<forall>t \<in> set (sc_queue st). \<not> for_slot w slot t" by (simp add: take_first_None)
    moreover have "pump_slot w st slot = st" using False None unfolding pump_slot_def for_slot_def [abs_def] by simp
    ultimately show ?thesis using idle by blast
  next
    case (Some tr)
    obtain t r where tr: "tr = (t, r)" by (cases tr)
    from take_first_Some [OF Some [unfolded tr]] obtain as bs
      where ab: "sc_queue st = as @ t # bs" "for_slot w slot t" "r = as @ bs" by blast
    show ?thesis
    proof (rule starts [OF _ ab(1,2)])
      show "\<not> sc_busy st ! slot" using False by simp
      show "pump_slot w st slot = st\<lparr>sc_queue := as @ bs, sc_busy := (sc_busy st)[slot := True],
         sc_threads := (sc_threads st)[slot := Some (t, InWorker)]\<rparr>"
        using False Some unfolding pump_slot_def for_slot_def [abs_def] by (simp add: tr ab(3))
    qed
  qed
qed

lemma foldl_invariant:
  assumes "\<And>st s. s \<in> set xs \<Longrightarrow> Q st \<Longrightarrow> Q (f st s)" and "Q st"
  shows "Q (foldl f st xs)"
  using assms by (induction xs arbitrary: st) auto

lemma pump_invariant:
  assumes "\<And>st slot. slot < workers \<Longrightarrow> Q st \<Longrightarrow> Q (pump_slot w st slot)" and "length (sc_busy st) = workers" and "Q st"
  shows "Q (pumpLocked w st)"
  unfolding pumpLocked_def using assms by (auto intro!: foldl_invariant [where Q = Q])

section \<open>The shape of the state\<close>

text \<open>
  Slots and threads: a worker is busy exactly when a goroutine runs for it, no idle worker could run a queued task, a
  task has at most three attempts, queued and running tasks stay within the capacity.
\<close>

definition slots_ok :: "nat \<Rightarrow> ('p, 'f, 'g) scheduler \<Rightarrow> bool" where
  "slots_ok workers st \<longleftrightarrow> length (sc_busy st) = workers \<and> length (sc_threads st) = workers \<and>
     (sc_terminal st = None \<longrightarrow> (\<forall>slot < workers. sc_busy st ! slot \<longleftrightarrow> sc_threads st ! slot \<noteq> None)) \<and>
     (sc_terminal st \<noteq> None \<longrightarrow> sc_queue st = [])"

definition saturated :: "bool \<Rightarrow> ('p, 'f, 'g) scheduler \<Rightarrow> nat set \<Rightarrow> bool" where
  "saturated w st slots \<longleftrightarrow> sc_terminal st = None \<longrightarrow>
     (\<forall>slot \<in> slots. \<not> sc_busy st ! slot \<longrightarrow> (\<forall>t \<in> set (sc_queue st). \<not> for_slot w slot t))"

fun phase_attempts :: "phase \<Rightarrow> nat \<Rightarrow> bool" where
  "phase_attempts (Retrying _ _) n = (1 \<le> n \<and> n < asyncShardMaxAttempts)"
| "phase_attempts (Replacing _) n = (1 \<le> n \<and> n < asyncShardMaxAttempts)"
| "phase_attempts (Again _) n = (1 \<le> n \<and> n < asyncShardMaxAttempts)"
| "phase_attempts _ n = (1 \<le> n \<and> n \<le> asyncShardMaxAttempts)"

definition tasks_ok :: "bool \<Rightarrow> nat \<Rightarrow> ('p, 'f, 'g) scheduler \<Rightarrow> bool" where
  "tasks_ok w workers st \<longleftrightarrow>
     (\<forall>t \<in> set (sc_queue st). tk_attempt t = 1 \<and> (w \<longrightarrow> 0 \<le> tk_affinityWorker t \<and> tk_affinityWorker t < int workers)) \<and>
     (\<forall>slot t ph. slot < workers \<longrightarrow> sc_threads st ! slot = Some (t, ph) \<longrightarrow> for_slot w slot t \<and> phase_attempts ph (tk_attempt t))"

definition bounded :: "int \<Rightarrow> ('p, 'f, 'g) scheduler \<Rightarrow> bool" where
  "bounded shards st \<longleftrightarrow> int (length (sc_queue st) + inFlight st) \<le> 16 * max 1 shards"

definition shape_ok :: "sched_config \<Rightarrow> nat \<Rightarrow> ('p, 'f, 'g) scheduler \<Rightarrow> bool" where
  "shape_ok cfg workers st \<longleftrightarrow> slots_ok workers st \<and> saturated (cf_optW7 cfg) st {..<workers} \<and>
     tasks_ok (cf_optW7 cfg) workers st \<and> bounded (cf_shards cfg) st"

lemma count_true_set:
  assumes "i < length bs" and "\<not> bs ! i"
  shows "length (filter id (bs[i := True])) = Suc (length (filter id bs))"
  using assms by (induction bs arbitrary: i) (auto simp: nth_Cons split: nat.splits)

lemma count_true_clear:
  assumes "i < length bs"
  shows "length (filter id (bs[i := False])) \<le> length (filter id bs)"
  using assms by (induction bs arbitrary: i) (auto simp: nth_Cons split: nat.splits)

lemma pump_slot_shape:
  assumes "slots_ok workers st" and "tasks_ok w workers st" and "bounded shards st" and "slot < workers"
  shows "slots_ok workers (pump_slot w st slot)" and "tasks_ok w workers (pump_slot w st slot)" and "bounded shards (pump_slot w st slot)"
    and "saturated w st slots \<Longrightarrow> slots \<subseteq> {..<workers} \<Longrightarrow> saturated w (pump_slot w st slot) (insert slot slots)"
proof -
  have l: "length (sc_busy st) = workers" "length (sc_threads st) = workers" using assms(1) by (simp_all add: slots_ok_def)
  show "slots_ok workers (pump_slot w st slot)"
    by (cases rule: pump_slot_cases [of w st slot])
      (use assms(1,4) in \<open>auto simp: slots_ok_def nth_list_update\<close>)
  show "tasks_ok w workers (pump_slot w st slot)"
    by (cases rule: pump_slot_cases [of w st slot])
      (use assms(2,4) l in \<open>auto simp: tasks_ok_def nth_list_update asyncShardMaxAttempts_def\<close>)
  show "bounded shards (pump_slot w st slot)"
    by (cases rule: pump_slot_cases [of w st slot])
      (use assms(3,4) l in \<open>auto simp: bounded_def inFlight_def count_true_set\<close>)
  show "saturated w (pump_slot w st slot) (insert slot slots)" if "saturated w st slots" "slots \<subseteq> {..<workers}"
    by (cases rule: pump_slot_cases [of w st slot])
      (use that assms(4) l in \<open>auto simp: saturated_def nth_list_update\<close>)
qed

lemma pump_shape:
  assumes "slots_ok workers st" and "tasks_ok (cf_optW7 cfg) workers st" and "bounded (cf_shards cfg) st"
  shows "shape_ok cfg workers (pumpLocked (cf_optW7 cfg) st)"
proof (cases "sc_terminal st = None")
  case True
  have "slots_ok workers (foldl (pump_slot (cf_optW7 cfg)) st [0..<n]) \<and> tasks_ok (cf_optW7 cfg) workers (foldl (pump_slot (cf_optW7 cfg)) st [0..<n]) \<and>
      bounded (cf_shards cfg) (foldl (pump_slot (cf_optW7 cfg)) st [0..<n]) \<and>
      saturated (cf_optW7 cfg) (foldl (pump_slot (cf_optW7 cfg)) st [0..<n]) {..<n}" if "n \<le> workers" for n
    using that
  proof (induction n)
    case 0
    then show ?case using assms by (simp add: saturated_def)
  next
    case (Suc n)
    note s = pump_slot_shape [of workers "foldl (pump_slot (cf_optW7 cfg)) st [0..<n]" "cf_optW7 cfg" "cf_shards cfg" n]
    show ?case using Suc s(1-3) s(4) [of "{..<n}"] by (simp add: lessThan_Suc)
  qed
  then show ?thesis using True assms(1) by (auto simp: shape_ok_def pumpLocked_def slots_ok_def)
next
  case False
  then show ?thesis using assms by (auto simp: shape_ok_def pumpLocked_def saturated_def)
qed

lemma owners_bound: "x \<in> set (owners j blocks) \<Longrightarrow> int j \<le> x \<and> x < int (j + length blocks)"
proof (induction blocks arbitrary: j)
  case (Cons b bs)
  then show ?case using Cons.IH [of "Suc j"] by (cases "x \<in> set (owners (Suc j) bs)") auto
qed simp

lemma affinity_worker:
  assumes "0 < workers" and "i < nat shards"
  shows "0 \<le> workerByShard (newContiguousShardAffinity shards workers) ! i \<and>
    workerByShard (newContiguousShardAffinity shards workers) ! i < workers"
proof -
  have s: "0 < shards" using assms(2) by simp
  note a = affinity_exact [OF s assms(1)]
  have "workerByShard (newContiguousShardAffinity shards workers) ! i \<in> set (workerByShard (newContiguousShardAffinity shards workers))"
    using assms(2) by (simp add: a(4))
  then show ?thesis using owners_bound [of _ 0 "byWorker (newContiguousShardAffinity shards workers)"] assms(1) a(2,3) by fastforce
qed

lemma length_shard_ranges: "length (nonEmptyRanges (partitionRanges n s)) \<le> nat (max 1 s)" if "0 \<le> n"
  using partitionRanges_covers(3) [OF that, of s] length_filter_le [of _ "partitionRanges n s"] by (simp add: nonEmptyRanges_def)

text \<open>The tasks of a section, one for each range.\<close>

lemma shard_tasks_simps:
  shows "length (shard_tasks h aff next rid i rs) = length rs"
    and "t \<in> set (shard_tasks h aff next rid i rs) \<Longrightarrow> tk_handle t = h \<and> tk_attempt t = 1 \<and>
      (\<exists>j < length rs. tk_index t = i + j \<and> tk_range t = rs ! j \<and> tk_affinityWorker t = aff (i + j))"
    and "map tk_index (shard_tasks h aff next rid i rs) = [i..<i + length rs]"
proof (induction rs arbitrary: i rid)
  case (Cons r rs)
  { case 1 show ?case using Cons(1) by simp }
  { case 2
    then consider "t = hd (shard_tasks h aff next rid i (r # rs))" | "t \<in> set (shard_tasks h aff next (next rid) (Suc i) rs)" by auto
    then show ?case
    proof cases
      case 2
      from Cons(2) [OF this] show ?thesis by fastforce
    qed auto }
  { case 3 show ?case using Cons(3) [of "next rid" "Suc i"] by (simp add: upt_conv_Cons del: upt_Suc) }
qed simp_all

lemma shape_newScheduler: "shape_ok cfg workers (newScheduler workers)"
  by (simp add: shape_ok_def slots_ok_def saturated_def tasks_ok_def bounded_def newScheduler_def inFlight_def)

text \<open>What the arithmetic relies on: there is a worker, and the bounds of the queue fit the width of \<^verbatim>\<open>int\<close>.\<close>

definition config_ok :: "sched_config \<Rightarrow> nat \<Rightarrow> bool" where
  "config_ok cfg workers \<longleftrightarrow> 0 < workers \<and> 0 < cf_W cfg \<and> 17 * max 1 (cf_shards cfg) < 2 ^ (cf_W cfg - 1)"

lemma capacity_exact:
  assumes "config_ok cfg workers" and "0 \<le> q" and "0 \<le> f" and "0 \<le> i" and "q + f \<le> 16 * max 1 (cf_shards cfg)" and "i \<le> max 1 (cf_shards cfg)"
  shows "asyncQueueHasCapacity (cf_W cfg) q f i (cf_shards cfg) \<longleftrightarrow> q + f + i \<le> 16 * max 1 (cf_shards cfg)"
proof -
  have "go_int (cf_W cfg) (q + f + i) = q + f + i" using assms unfolding config_ok_def by (intro go_int_id) linarith+
  moreover have "go_int (cf_W cfg) (max 1 (cf_shards cfg) * 16) = max 1 (cf_shards cfg) * 16"
    using assms unfolding config_ok_def by (intro go_int_id) linarith+
  moreover have "(if cf_shards cfg < 1 then 1 else cf_shards cfg) = max 1 (cf_shards cfg)" by simp
  ultimately show ?thesis using assms(2-4) by (simp add: asyncQueueHasCapacity_def asyncQueueCapacity_def asyncQueueShardMultiplier_def mult.commute)
qed

text \<open>The four ways a dispatch ends.\<close>

definition new_handle :: "bool \<Rightarrow> 'p option \<Rightarrow> string \<Rightarrow> int \<Rightarrow> 'f list \<Rightarrow> (int \<times> int) list \<Rightarrow> ('p, 'f, 'g::zero) section_handle" where
  "new_handle g2 plan section n scalars ranges =
     \<lparr>sh_state = newCollectionState, sh_g2 = g2, sh_plan = plan, sh_section = section, sh_n = n, sh_scalars = scalars,
      sh_ranges = ranges, sh_pending = int (length ranges), sh_doneScalars = 0, sh_parts = replicate (length ranges) 0, sh_prog = []\<rparr>"

definition section_tasks :: "sched_config \<Rightarrow> ('p, 'f, 'g) scheduler \<Rightarrow> (int \<times> int) list \<Rightarrow> shard_task list" where
  "section_tasks cfg st ranges =
     shard_tasks (length (sc_heap st))
       (\<lambda>i. if cf_optW7 cfg then workerByShard (newContiguousShardAffinity (int (length ranges)) (int (length (sc_busy st)))) ! i else -1)
       (\<lambda>k. go_int (cf_W cfg) (k + 1)) (sc_nextRequestID st) 0 ranges"

text \<open>The state of a dispatch before it pumps, and of a completion.\<close>

definition enqueue :: "sched_config \<Rightarrow> bool \<Rightarrow> 'p option \<Rightarrow> string \<Rightarrow> int \<Rightarrow> 'f list \<Rightarrow> (int \<times> int) list \<Rightarrow>
    ('p, 'f, 'g::zero) scheduler \<Rightarrow> ('p, 'f, 'g) scheduler" where
  "enqueue cfg g2 plan section n scalars ranges st =
     st\<lparr>sc_heap := sc_heap st @ [new_handle g2 plan section n scalars ranges], sc_open := insert (length (sc_heap st)) (sc_open st),
       sc_queue := sc_queue st @ section_tasks cfg st ranges,
       sc_nextRequestID := go_int (cf_W cfg) (sc_nextRequestID st + int (length ranges))\<rparr>"

definition freed :: "nat \<Rightarrow> ('p, 'f, 'g) scheduler \<Rightarrow> ('p, 'f, 'g) scheduler" where
  "freed slot st = set_thread slot None st\<lparr>sc_busy := (sc_busy st)[slot := False]\<rparr>"

lemma dispatch_cases:
  fixes st :: "('p, 'f, 'g::comm_monoid_add) scheduler"
  assumes "dispatchSection cfg g2 plan section n scalars st = (r, st')"
  obtains (rejected) e where "r = Inl e" "st' = st"
  | (empty) "r = Inr (length (sc_heap st))" "int (length scalars) = n" "nonEmptyRanges (partitionRanges n (cf_shards cfg)) = []"
      "st' = st\<lparr>sc_heap := sc_heap st @ [new_handle g2 plan section n scalars []\<lparr>sh_state := complete_state None newCollectionState\<rparr>]\<rparr>"
  | (queued) ranges where "r = Inr (length (sc_heap st))" "int (length scalars) = n" "ranges = nonEmptyRanges (partitionRanges n (cf_shards cfg))"
      "ranges \<noteq> []" "sc_terminal st = None"
      "asyncQueueHasCapacity (cf_W cfg) (int (length (sc_queue st))) (int (inFlight st)) (int (length ranges)) (cf_shards cfg)"
      "st' = pumpLocked (cf_optW7 cfg) (enqueue cfg g2 plan section n scalars ranges st)"
proof (cases "plan = None \<or> int (length scalars) \<noteq> n")
  case True
  then show ?thesis using assms rejected by (auto simp: dispatchSection_def split: if_splits)
next
  case False
  let ?rs = "nonEmptyRanges (partitionRanges n (cf_shards cfg))"
  show ?thesis
  proof (cases "?rs = []")
    case True
    then show ?thesis using False assms empty by (auto simp: dispatchSection_def Let_def new_handle_def)
  next
    case ne: False
    show ?thesis
    proof (cases "sc_terminal st")
      case (Some e)
      then show ?thesis using False ne assms rejected by (auto simp: dispatchSection_def Let_def)
    next
      case None
      show ?thesis
      proof (cases "asyncQueueHasCapacity (cf_W cfg) (int (length (sc_queue st))) (int (inFlight st)) (int (length ?rs)) (cf_shards cfg)")
        case True
        show ?thesis
        proof (rule queued [OF _ _ refl ne None True])
          show "r = Inr (length (sc_heap st))" using True None False ne assms by (auto simp: dispatchSection_def Let_def)
          show "int (length scalars) = n" using False by simp
          show "st' = pumpLocked (cf_optW7 cfg) (enqueue cfg g2 plan section n scalars ?rs st)"
            using True None False ne assms by (auto simp: dispatchSection_def Let_def new_handle_def section_tasks_def enqueue_def)
        qed
      next
        case False
        then show ?thesis using None \<open>\<not> (plan = None \<or> int (length scalars) \<noteq> n)\<close> ne assms rejected by (auto simp: dispatchSection_def Let_def)
      qed
    qed
  qed
qed

lemma enqueue_shape:
  assumes "config_ok cfg workers" and "shape_ok cfg workers st" and "int (length scalars) = n" and "ranges = nonEmptyRanges (partitionRanges n (cf_shards cfg))"
    and "sc_terminal st = None"
    and "asyncQueueHasCapacity (cf_W cfg) (int (length (sc_queue st))) (int (inFlight st)) (int (length ranges)) (cf_shards cfg)"
  shows "slots_ok workers (enqueue cfg g2 plan section n scalars ranges st)"
    and "tasks_ok (cf_optW7 cfg) workers (enqueue cfg g2 plan section n scalars ranges st)"
    and "bounded (cf_shards cfg) (enqueue cfg g2 plan section n scalars ranges st)"
proof -
  have w: "0 < workers" and l: "length (sc_busy st) = workers" using assms(1,2) by (auto simp: config_ok_def shape_ok_def slots_ok_def)
  have n: "0 \<le> n" using assms(3) by linarith
  have i: "int (length ranges) \<le> max 1 (cf_shards cfg)" using length_shard_ranges [OF n, of "cf_shards cfg"] by (simp add: assms(4))
  have b: "int (length (sc_queue st)) + int (inFlight st) \<le> 16 * max 1 (cf_shards cfg)"
    using assms(2) by (simp add: shape_ok_def bounded_def)
  have c: "int (length (sc_queue st)) + int (inFlight st) + int (length ranges) \<le> 16 * max 1 (cf_shards cfg)"
    using assms(6) capacity_exact [OF assms(1) _ _ _ b i] by simp
  have t: "tk_attempt t = 1 \<and> (cf_optW7 cfg \<longrightarrow> 0 \<le> tk_affinityWorker t \<and> tk_affinityWorker t < int workers)"
    if "t \<in> set (section_tasks cfg st ranges)" for t
  proof -
    from shard_tasks_simps(2) [OF that [unfolded section_tasks_def]] obtain j where
      j: "tk_attempt t = 1" "j < length ranges" "tk_affinityWorker t =
        (if cf_optW7 cfg then workerByShard (newContiguousShardAffinity (int (length ranges)) (int (length (sc_busy st)))) ! j else -1)"
      by auto
    then show ?thesis using affinity_worker [of "int workers" j "int (length ranges)"] w by (simp add: l)
  qed
  show "slots_ok workers (enqueue cfg g2 plan section n scalars ranges st)"
    using assms(2,5) by (simp add: shape_ok_def slots_ok_def enqueue_def)
  show "tasks_ok (cf_optW7 cfg) workers (enqueue cfg g2 plan section n scalars ranges st)"
    using assms(2) t by (auto simp: shape_ok_def tasks_ok_def enqueue_def)
  show "bounded (cf_shards cfg) (enqueue cfg g2 plan section n scalars ranges st)"
    using c by (simp add: bounded_def inFlight_def enqueue_def section_tasks_def shard_tasks_simps(1))
qed

lemma dispatch_shape:
  assumes "config_ok cfg workers" and "shape_ok cfg workers st" and "dispatchSection cfg g2 plan section n scalars st = (r, st')"
  shows "shape_ok cfg workers st'"
  using assms(3)
proof (cases rule: dispatch_cases)
  case rejected
  then show ?thesis using assms(2) by simp
next
  case empty
  then show ?thesis using assms(2)
    by (simp add: shape_ok_def slots_ok_def saturated_def tasks_ok_def bounded_def inFlight_def)
next
  case (queued ranges)
  show ?thesis unfolding queued(7) by (rule pump_shape) (rule enqueue_shape [OF assms(1,2) queued(2,3,5,6)])+
qed

lemma fail_shape:
  assumes "shape_ok cfg workers st"
  shows "shape_ok cfg workers (fail_sched cause st)"
  using assms by (auto simp: fail_sched_def Let_def shape_ok_def slots_ok_def saturated_def tasks_ok_def bounded_def inFlight_def)

lemma fail_terminal [simp]: "\<exists>e. sc_terminal (fail_sched cause st) = Some e"
  by (auto simp: fail_sched_def Let_def)

text \<open>A goroutine that moves on in its slot.\<close>

lemma set_thread_shape:
  assumes "shape_ok cfg workers st" and "slot < workers" and "sc_threads st ! slot = Some (task, ph)"
    and "for_slot (cf_optW7 cfg) slot task'" and "phase_attempts ph' (tk_attempt task')"
  shows "shape_ok cfg workers (set_thread slot (Some (task', ph')) st)"
  using assms by (auto simp: set_thread_def shape_ok_def slots_ok_def saturated_def tasks_ok_def bounded_def inFlight_def nth_list_update)

lemma drop_thread_shape:
  assumes "shape_ok cfg workers st" and "sc_terminal st \<noteq> None" and "slot < workers"
  shows "shape_ok cfg workers (set_thread slot None st)"
  using assms by (auto simp: set_thread_def shape_ok_def slots_ok_def saturated_def tasks_ok_def bounded_def inFlight_def nth_list_update)

lemma heap_shape [simp]:
  "shape_ok cfg workers (update_handle h f st) = shape_ok cfg workers st"
  "shape_ok cfg workers (st\<lparr>sc_nextRequestID := k\<rparr>) = shape_ok cfg workers st"
  "shape_ok cfg workers (st\<lparr>sc_collecting := c\<rparr>) = shape_ok cfg workers st"
  "shape_ok cfg workers (st\<lparr>sc_open := c\<rparr>) = shape_ok cfg workers st"
  by (simp_all add: update_handle_def shape_ok_def slots_ok_def saturated_def tasks_ok_def bounded_def inFlight_def)

lemma set_thread_commutes [simp]:
  "set_thread slot x (update_handle h f st) = update_handle h f (set_thread slot x st)"
  "set_thread slot x (st\<lparr>sc_nextRequestID := k\<rparr>) = set_thread slot x st\<lparr>sc_nextRequestID := k\<rparr>"
  by (simp_all add: set_thread_def update_handle_def)

lemma freed_shape:
  assumes "shape_ok cfg workers st" and "slot < workers"
  shows "slots_ok workers (freed slot st)" and "tasks_ok (cf_optW7 cfg) workers (freed slot st)" and "bounded (cf_shards cfg) (freed slot st)"
proof -
  have l: "slot < length (sc_busy st)" using assms by (simp add: shape_ok_def slots_ok_def)
  show "slots_ok workers (freed slot st)"
    using assms by (auto simp: freed_def shape_ok_def slots_ok_def set_thread_def nth_list_update)
  show "tasks_ok (cf_optW7 cfg) workers (freed slot st)"
    using assms by (auto simp: freed_def shape_ok_def tasks_ok_def slots_ok_def set_thread_def nth_list_update)
  show "bounded (cf_shards cfg) (freed slot st)"
    using assms count_true_clear [OF l] by (auto simp: freed_def shape_ok_def bounded_def inFlight_def set_thread_def)
qed

lemma release_shape:
  assumes "shape_ok cfg workers st" and "slot < workers"
  shows "shape_ok cfg workers (releaseSlot (cf_optW7 cfg) slot st)"
  unfolding releaseSlot_def freed_def [symmetric] by (rule pump_shape) (rule freed_shape [OF assms])+

lemma after_error_attempts: "1 \<le> tk_attempt task \<Longrightarrow> tk_attempt task \<le> asyncShardMaxAttempts \<Longrightarrow> phase_attempts (after_error task e) (tk_attempt task)"
  by (simp add: after_error_def split: prod.split)

lemma thread_shape:
  assumes "thread_step K dcd cfg slot task ph st st'" and "shape_ok cfg workers st" and "slot < workers"
    and "sc_threads st ! slot = Some (task, ph)"
  shows "shape_ok cfg workers st'"
proof -
  have a: "for_slot (cf_optW7 cfg) slot task" "phase_attempts ph (tk_attempt task)"
    using assms(2-4) by (auto simp: shape_ok_def tasks_ok_def)
  note s = set_thread_shape [OF assms(2-4)]
  show ?thesis using assms(1)
  proof (cases rule: thread_step.cases)
    case (again requestID e)
    have "for_slot (cf_optW7 cfg) slot (task\<lparr>tk_attempt := Suc (tk_attempt task), tk_requestID := requestID\<rparr>)" using a(1) by (simp add: for_slot_def)
    then show ?thesis using again a(2) assms(2-4) unfolding again(2)
      by (intro set_thread_shape [of _ _ _ _ task ph]) simp_all
  qed (use assms(2-4) a s after_error_attempts in \<open>auto simp: Let_def asyncShardMaxAttempts_def intro!: set_thread_shape drop_thread_shape fail_shape release_shape\<close>)
qed

lemma collect_shape:
  assumes "shape_ok cfg workers st"
  shows "collectStart g2 h st = (r, st') \<Longrightarrow> shape_ok cfg workers st'" and "collectFinish h st = Some (v, st') \<Longrightarrow> shape_ok cfg workers st'"
  using assms by (auto simp: collectStart_def collectFinish_def split: if_splits sum.splits option.splits)

lemma step_shape:
  assumes "config_ok cfg workers" and "shape_ok cfg workers st" and "engine_step K dcd cfg st ev st'"
  shows "shape_ok cfg workers st'"
  using assms(3)
proof (cases rule: engine_step.cases)
  case (worker slot task ph)
  then show ?thesis using thread_shape [OF _ assms(2)] assms(2) by (simp add: shape_ok_def slots_ok_def)
qed (use assms dispatch_shape collect_shape in \<open>auto simp: CancelOutstanding_def intro: fail_shape\<close>)

lemma run_shape: "sched_run K dcd cfg workers tr st \<Longrightarrow> config_ok cfg workers \<Longrightarrow> shape_ok cfg workers st"
  by (induction rule: sched_run.induct) (auto intro: shape_newScheduler step_shape)

end
