(* ===== verification/MsmAccounts.thy ===== *)
theory MsmAccounts
  imports MsmScheduler
begin

text \<open>
  The accounts of the scheduler: which shards of a handle are still to be counted, where they are, and what the parts
  that are stored satisfy. \<open>accounts_ok\<close> is kept by every step of every interleaving (\<open>thread_accounts\<close>,
  \<open>dispatch_accounts\<close>, \<open>collect_accounts\<close>), and \<open>ledger_ok\<close> relates it to the events of a run.
\<close>

section \<open>Accounting\<close>

text \<open>
  The tasks not yet counted: the queued ones and those of goroutines before their count. For each handle, the ghost
  set \<open>todo\<close> holds its uncounted indexes; while nothing failed they are exactly the keys of these tasks.
\<close>

fun uncounted :: "phase \<Rightarrow> bool" where
  "uncounted (Counted _ _) = False"
| "uncounted Releasing = False"
| "uncounted _ = True"

definition slot_task :: "(shard_task \<times> phase) option \<Rightarrow> shard_task multiset" where
  "slot_task th = (case th of None \<Rightarrow> {#} | Some (t, ph) \<Rightarrow> if uncounted ph then {#t#} else {#})"

definition open_tasks :: "('p, 'f, 'g) scheduler \<Rightarrow> shard_task multiset" where
  "open_tasks st = mset (sc_queue st) + sum_list (map slot_task (sc_threads st))"

definition tk_key :: "shard_task \<Rightarrow> nat \<times> nat" where
  "tk_key t = (tk_handle t, tk_index t)"

lemma sum_list_swap:
  fixes f :: "'a \<Rightarrow> 'b::comm_monoid_add"
  assumes "i < length xs"
  shows "sum_list (map f (xs[i := y])) + f (xs ! i) = sum_list (map f xs) + f y"
  using assms
proof (induction xs arbitrary: i)
  case (Cons x xs)
  show ?case
  proof (cases i)
    case (Suc j)
    then show ?thesis using Cons.IH [of j] Cons.prems by (simp add: add.assoc)
  qed (simp add: ac_simps)
qed simp

lemma open_tasks_set_thread:
  assumes "slot < length (sc_threads st)"
  shows "open_tasks (set_thread slot th st) + slot_task (sc_threads st ! slot) = open_tasks st + slot_task th"
  using sum_list_swap [OF assms, of slot_task th] by (simp add: open_tasks_def set_thread_def ac_simps)

lemma open_tasks_counted:
  assumes "slot < length (sc_threads st)" and "slot_task th = {#}"
  shows "open_tasks (set_thread slot th st) = open_tasks (set_thread slot None st)"
  using open_tasks_set_thread [OF assms(1), of th] open_tasks_set_thread [OF assms(1), of None] assms(2)
  by (metis add_right_cancel slot_task_def option.case(1))

lemma slot_task_simps [simp]:
  "slot_task None = {#}" "slot_task (Some (t, ph)) = (if uncounted ph then {#t#} else {#})"
  by (simp_all add: slot_task_def)

lemma open_tasks_handle [simp]:
  "open_tasks (update_handle h f st) = open_tasks st" "open_tasks (st\<lparr>sc_nextRequestID := k\<rparr>) = open_tasks st"
  "open_tasks (st\<lparr>sc_collecting := c\<rparr>) = open_tasks st" "open_tasks (st\<lparr>sc_open := o'\<rparr>) = open_tasks st"
  by (simp_all add: open_tasks_def update_handle_def)

lemma open_tasks_pump_slot:
  assumes "slot < length (sc_threads st)" and "\<not> sc_busy st ! slot \<Longrightarrow> sc_threads st ! slot = None"
  shows "open_tasks (pump_slot w st slot) = open_tasks st"
proof (cases rule: pump_slot_cases [of w st slot])
  case (starts as t bs)
  have "sum_list (map slot_task ((sc_threads st)[slot := Some (t, InWorker)])) = sum_list (map slot_task (sc_threads st)) + {#t#}"
    using sum_list_swap [OF assms(1), of slot_task "Some (t, InWorker)"] assms(2) [OF starts(1)] by simp
  then show ?thesis by (simp add: starts(4) open_tasks_def starts(2))
qed simp

section \<open>Handles\<close>

record ('p, 'f) section_args =
  sa_g2 :: bool
  sa_plan :: "'p option"
  sa_section :: string
  sa_n :: int
  sa_scalars :: "'f list"

definition shard_ranges :: "sched_config \<Rightarrow> ('p, 'f) section_args \<Rightarrow> (int \<times> int) list" where
  "shard_ranges cfg a = nonEmptyRanges (partitionRanges (sa_n a) (cf_shards cfg))"

definition shard_ok :: "('p, 'f, 'g) kernel \<Rightarrow> ('p, 'f) section_args \<Rightarrow> int \<times> int \<Rightarrow> 'g \<Rightarrow> bool" where
  "shard_ok K a r v = K (sa_plan a) (sa_g2 a) (sa_section a) r (go_slice (fst r) (snd r) (sa_scalars a)) v"

definition span_sum :: "(int \<times> int) list \<Rightarrow> nat set \<Rightarrow> int" where
  "span_sum rs I = (\<Sum>i \<in> I. snd (rs ! i) - fst (rs ! i))"

definition handle_ok :: "('p, 'f, 'g) kernel \<Rightarrow> sched_config \<Rightarrow> ('p, 'f) section_args \<Rightarrow> bool \<Rightarrow> nat set \<Rightarrow> ('p, 'f, 'g) section_handle \<Rightarrow> bool" where
  "handle_ok K cfg a fin todo x \<longleftrightarrow>
     sh_g2 x = sa_g2 a \<and> sh_section x = sa_section a \<and> sh_n x = sa_n a \<and> int (length (sa_scalars a)) = sa_n a \<and>
     sh_ranges x = shard_ranges cfg a \<and> todo \<subseteq> {..<length (shard_ranges cfg a)} \<and> sh_pending x = int (card todo) \<and>
     sh_doneScalars x = span_sum (shard_ranges cfg a) ({..<length (shard_ranges cfg a)} - todo) \<and>
     (\<not> fin \<longrightarrow> sh_plan x = sa_plan a \<and> sh_scalars x = sa_scalars a \<and> length (sh_parts x) = length (shard_ranges cfg a) \<and>
        (\<forall>i < length (shard_ranges cfg a). i \<notin> todo \<longrightarrow> shard_ok K a (shard_ranges cfg a ! i) (sh_parts x ! i))) \<and>
     (cs_completed (sh_state x) \<and> cs_err (sh_state x) = None \<longrightarrow> todo = {}) \<and>
     (\<not> cs_completed (sh_state x) \<longrightarrow> cs_err (sh_state x) = None) \<and>
     (fin \<longrightarrow> cs_collected (sh_state x) \<and> cs_completed (sh_state x) \<and> cs_err (sh_state x) = None)"

text \<open>What the point of a goroutine says about its handle.\<close>

fun phase_ok :: "('p, 'f, 'g) kernel \<Rightarrow> sched_config \<Rightarrow> (nat \<Rightarrow> ('p, 'f) section_args) \<Rightarrow> (nat \<Rightarrow> nat set) \<Rightarrow>
    ('p, 'f, 'g) section_handle list \<Rightarrow> shard_task \<Rightarrow> phase \<Rightarrow> bool" where
  "phase_ok K cfg args todo heap t Stored =
     shard_ok K (args (tk_handle t)) (tk_range t) (sh_parts (heap ! tk_handle t) ! tk_index t)"
| "phase_ok K cfg args todo heap t (Counted d c) = (tk_handle t < length heap \<and> (c \<longrightarrow> todo (tk_handle t) = {}))"
| "phase_ok K cfg args todo heap t _ = True"

definition completing :: "('p, 'f, 'g) scheduler \<Rightarrow> nat \<Rightarrow> bool" where
  "completing st h \<longleftrightarrow> (\<exists>t d. Some (t, Counted d True) \<in> set (sc_threads st) \<and> tk_handle t = h)"

definition task_ok :: "sched_config \<Rightarrow> (nat \<Rightarrow> ('p, 'f) section_args) \<Rightarrow> (nat \<Rightarrow> nat set) \<Rightarrow> nat \<Rightarrow> shard_task \<Rightarrow> bool" where
  "task_ok cfg args todo heap t \<longleftrightarrow> tk_handle t < heap \<and> tk_index t \<in> todo (tk_handle t) \<and>
     tk_range t = shard_ranges cfg (args (tk_handle t)) ! tk_index t"

definition states_ok :: "('p, 'f, 'g) scheduler \<Rightarrow> (nat \<Rightarrow> nat set) \<Rightarrow> bool" where
  "states_ok st todo \<longleftrightarrow> (\<forall>h < length (sc_heap st). let s = sh_state (sc_heap st ! h) in
     (case sc_terminal st of
        None \<Rightarrow> (todo h = {} \<longrightarrow> cs_completed s \<or> completing st h) \<and> cs_err s = None \<and> (cs_completed s \<or> h \<in> sc_open st)
      | Some e \<Rightarrow> cs_completed s \<and> (cs_err s = None \<or> cs_err s = Some e)))"

definition accounts_ok :: "('p, 'f, 'g) kernel \<Rightarrow> sched_config \<Rightarrow> (nat \<Rightarrow> ('p, 'f) section_args) \<Rightarrow> nat set \<Rightarrow> (nat \<Rightarrow> nat set) \<Rightarrow>
    ('p, 'f, 'g) scheduler \<Rightarrow> bool" where
  "accounts_ok K cfg args fin todo st \<longleftrightarrow>
     (\<forall>h < length (sc_heap st). handle_ok K cfg (args h) (h \<in> fin) (todo h) (sc_heap st ! h)) \<and>
     (\<forall>t \<in># open_tasks st. task_ok cfg args todo (length (sc_heap st)) t) \<and>
     (\<forall>k. count (image_mset tk_key (open_tasks st)) k \<le> 1) \<and>
     (sc_terminal st = None \<longrightarrow> (\<forall>h < length (sc_heap st). \<forall>i \<in> todo h. (h, i) \<in> tk_key ` set_mset (open_tasks st))) \<and>
     (\<forall>t ph. Some (t, ph) \<in> set (sc_threads st) \<longrightarrow> phase_ok K cfg args todo (sc_heap st) t ph) \<and>
     states_ok st todo"

section \<open>What a step leaves of the accounts\<close>

lemma thread_task:
  assumes "Some (t, ph) \<in> set (sc_threads st)" and "uncounted ph"
  shows "t \<in># open_tasks st"
proof -
  obtain slot where s: "slot < length (sc_threads st)" "sc_threads st ! slot = Some (t, ph)" using assms(1) by (auto simp: in_set_conv_nth)
  have "t \<in># open_tasks (set_thread slot None st) + slot_task (sc_threads st ! slot)" using s(2) assms(2) by simp
  then show ?thesis unfolding open_tasks_set_thread [OF s(1)] by simp
qed

text \<open>The other tasks, when a goroutine holds one.\<close>

lemma thread_rest:
  assumes "slot < length (sc_threads st)" and "sc_threads st ! slot = Some (t, ph)" and "uncounted ph"
    and "\<forall>k. count (image_mset tk_key (open_tasks st)) k \<le> 1"
  shows "open_tasks st = open_tasks (set_thread slot None st) + {#t#}" and "tk_key t \<notin> tk_key ` set_mset (open_tasks (set_thread slot None st))"
proof -
  show e: "open_tasks st = open_tasks (set_thread slot None st) + {#t#}"
    using open_tasks_set_thread [OF assms(1), of None] assms(2,3) by simp
  have "count (image_mset tk_key (open_tasks (set_thread slot None st))) (tk_key t) + 1 \<le> 1"
    using assms(4) [rule_format, of "tk_key t"] by (simp add: e)
  then have "tk_key t \<notin># image_mset tk_key (open_tasks (set_thread slot None st))" unfolding not_in_iff by linarith
  then show "tk_key t \<notin> tk_key ` set_mset (open_tasks (set_thread slot None st))" by simp
qed

lemma other_thread:
  assumes "slot < length (sc_threads st)" and "Some (t, ph) \<in> set (sc_threads (set_thread slot th st))" and "Some (t, ph) \<noteq> th"
  shows "Some (t, ph) \<in> set (sc_threads (set_thread slot None st))"
  using assms by (auto simp: set_thread_def in_set_conv_nth nth_list_update split: if_splits)

lemma set_thread_sub: "Some (t, ph) \<in> set (sc_threads (set_thread slot None st)) \<Longrightarrow> Some (t, ph) \<in> set (sc_threads st)"
  using set_update_subset_insert [of "sc_threads st" slot None] by (auto simp: set_thread_def)

lemma set_thread_fields [simp]:
  "sc_heap (set_thread slot th st) = sc_heap st" "sc_terminal (set_thread slot th st) = sc_terminal st"
  "sc_open (set_thread slot th st) = sc_open st" "sc_collecting (set_thread slot th st) = sc_collecting st"
  "sc_queue (set_thread slot th st) = sc_queue st" "sc_busy (set_thread slot th st) = sc_busy st"
  "length (sc_threads (set_thread slot th st)) = length (sc_threads st)"
  by (simp_all add: set_thread_def)

lemma update_handle_fields [simp]:
  "sc_heap (update_handle h f st) = (sc_heap st)[h := f (sc_heap st ! h)]" "sc_terminal (update_handle h f st) = sc_terminal st"
  "sc_open (update_handle h f st) = sc_open st" "sc_collecting (update_handle h f st) = sc_collecting st"
  "sc_threads (update_handle h f st) = sc_threads st" "sc_queue (update_handle h f st) = sc_queue st" "sc_busy (update_handle h f st) = sc_busy st"
  by (simp_all add: update_handle_def)

lemma kept_in_update: "x \<in> set xs \<Longrightarrow> x \<noteq> xs ! i \<Longrightarrow> x \<in> set (xs[i := y])"
  by (metis in_set_conv_nth length_list_update nth_list_update_neq)

lemma states_ok_mono:
  assumes "length (sc_heap st') = length (sc_heap st)" and "\<And>h. h < length (sc_heap st) \<Longrightarrow> sh_state (sc_heap st' ! h) = sh_state (sc_heap st ! h)"
    and "sc_terminal st' = sc_terminal st" and "sc_open st' = sc_open st"
    and "\<And>h. sc_terminal st = None \<Longrightarrow> h < length (sc_heap st) \<Longrightarrow> todo' h = {} \<Longrightarrow> (todo h = {} \<and> \<not> completing st h) \<or> completing st' h"
    and "states_ok st todo"
  shows "states_ok st' todo'"
  unfolding states_ok_def
proof (intro allI impI)
  fix h assume "h < length (sc_heap st')"
  then have h: "h < length (sc_heap st)" by (simp add: assms(1))
  have "let s = sh_state (sc_heap st ! h) in
     (case sc_terminal st of
        None \<Rightarrow> (todo h = {} \<longrightarrow> cs_completed s \<or> completing st h) \<and> cs_err s = None \<and> (cs_completed s \<or> h \<in> sc_open st)
      | Some e \<Rightarrow> cs_completed s \<and> (cs_err s = None \<or> cs_err s = Some e))"
    using assms(6) h by (simp add: states_ok_def)
  then show "let s = sh_state (sc_heap st' ! h) in
     (case sc_terminal st' of
        None \<Rightarrow> (todo' h = {} \<longrightarrow> cs_completed s \<or> completing st' h) \<and> cs_err s = None \<and> (cs_completed s \<or> h \<in> sc_open st')
      | Some e \<Rightarrow> cs_completed s \<and> (cs_err s = None \<or> cs_err s = Some e))"
    unfolding assms(2) [OF h] assms(3,4) using assms(5) [OF _ h] by (auto simp: Let_def split: option.splits)
qed

lemma states_ok_cong:
  assumes "length (sc_heap st') = length (sc_heap st)" and "\<And>h. h < length (sc_heap st) \<Longrightarrow> sh_state (sc_heap st' ! h) = sh_state (sc_heap st ! h)"
    and "sc_terminal st' = sc_terminal st" and "sc_open st' = sc_open st"
    and "\<And>t d. sc_terminal st = None \<Longrightarrow> Some (t, Counted d True) \<in> set (sc_threads st) \<Longrightarrow> Some (t, Counted d True) \<in> set (sc_threads st')"
    and "states_ok st todo"
  shows "states_ok st' todo"
proof (rule states_ok_mono [OF assms(1-4) _ assms(6)])
  have "completing st h \<Longrightarrow> completing st' h" if "sc_terminal st = None" for h
    using assms(5) [OF that] unfolding completing_def by metis
  then show "(todo h = {} \<and> \<not> completing st h) \<or> completing st' h" if "sc_terminal st = None" "todo h = {}" for h
    using that by blast
qed

text \<open>Pumping leaves the accounts as they are.\<close>

lemma pump_slot_accounts:
  assumes "slots_ok workers st" and "sc_terminal st = None" and "slot < workers" and "accounts_ok K cfg args fin todo st"
  shows "accounts_ok K cfg args fin todo (pump_slot w st slot)"
proof -
  have l: "slot < length (sc_threads st)" using assms(1,3) by (simp add: slots_ok_def)
  have i: "\<not> sc_busy st ! slot \<Longrightarrow> sc_threads st ! slot = None"
    using assms(1-3) by (cases "sc_threads st ! slot") (auto simp: slots_ok_def)
  have o: "open_tasks (pump_slot w st slot) = open_tasks st" by (rule open_tasks_pump_slot [OF l]) (rule i)
  have e: "sc_heap (pump_slot w st slot) = sc_heap st" "sc_terminal (pump_slot w st slot) = sc_terminal st"
      "sc_open (pump_slot w st slot) = sc_open st"
    by (cases rule: pump_slot_cases [of w st slot]; simp)+
  have new: "Some (t, ph) \<in> set (sc_threads st) \<or> ph = InWorker" if "Some (t, ph) \<in> set (sc_threads (pump_slot w st slot))" for t ph
    by (cases rule: pump_slot_cases [of w st slot])
      (use that set_update_subset_insert [of "sc_threads st" slot] in \<open>auto\<close>)
  have keep: "Some (t, ph) \<in> set (sc_threads (pump_slot w st slot))" if "Some (t, ph) \<in> set (sc_threads st)" for t ph
    by (cases rule: pump_slot_cases [of w st slot]) (use that i in \<open>auto intro!: kept_in_update\<close>)
  have "states_ok (pump_slot w st slot) todo" by (rule states_ok_cong [of _ st]) (use assms(4) e keep in \<open>simp_all add: accounts_ok_def\<close>)
  moreover have "phase_ok K cfg args todo (sc_heap st) t ph" if "Some (t, ph) \<in> set (sc_threads (pump_slot w st slot))" for t ph
    using new [OF that] assms(4) by (auto simp: accounts_ok_def)
  ultimately show ?thesis using assms(4) unfolding accounts_ok_def o e by blast
qed

lemma pump_accounts:
  assumes "slots_ok workers st" and "tasks_ok w workers st" and "bounded n st" and "accounts_ok K cfg args fin todo st"
  shows "accounts_ok K cfg args fin todo (pumpLocked w st)"
proof (cases "sc_terminal st = None")
  case True
  let ?Q = "\<lambda>st. slots_ok workers st \<and> tasks_ok w workers st \<and> bounded n st \<and> sc_terminal st = None \<and> accounts_ok K cfg args fin todo st"
  have "?Q (pumpLocked w st)"
  proof (rule pump_invariant)
    show "?Q (pump_slot w st slot)" if "slot < workers" "?Q st" for st :: "('a, 'b, 'c) scheduler" and slot
    proof -
      have "sc_terminal (pump_slot w st slot) = None" by (cases rule: pump_slot_cases [of w st slot]) (use that in simp_all)
      then show ?thesis using pump_slot_shape(1-3) [of workers st w n slot] pump_slot_accounts that by blast
    qed
  qed (use assms True in \<open>auto simp: slots_ok_def\<close>)
  then show ?thesis by blast
next
  case False
  then show ?thesis using assms(4) by (simp add: pumpLocked_def)
qed

text \<open>A goroutine that keeps its task, before the count.\<close>

lemma same_task_accounts:
  assumes "accounts_ok K cfg args fin todo st" and "slot < length (sc_threads st)" and "sc_threads st ! slot = Some (t, ph)" and "uncounted ph"
    and "uncounted ph'" and "phase_ok K cfg args todo (sc_heap st) t' ph'" and "tk_handle t' = tk_handle t" "tk_index t' = tk_index t" "tk_range t' = tk_range t"
  shows "accounts_ok K cfg args fin todo (set_thread slot (Some (t', ph')) st)"
proof -
  note c = assms(1) [unfolded accounts_ok_def]
  have one: "\<forall>k. count (image_mset tk_key (open_tasks st)) k \<le> 1" using c by blast
  let ?R = "open_tasks (set_thread slot None st)"
  have R: "open_tasks st = ?R + {#t#}" by (rule thread_rest(1) [OF assms(2-4) one])
  have R': "open_tasks (set_thread slot (Some (t', ph')) st) = ?R + {#t'#}"
    using open_tasks_set_thread [OF assms(2), of "Some (t', ph')"] assms(3-5) by (simp add: R)
  have k: "tk_key t' = tk_key t" using assms(7-9) by (simp add: tk_key_def)
  note p = assms(6)
  have th: "Some (u, q) \<in> set (sc_threads st) \<or> (u = t' \<and> q = ph')" if "Some (u, q) \<in> set (sc_threads (set_thread slot (Some (t', ph')) st))" for u q
    using that set_update_subset_insert [of "sc_threads st" slot "Some (t', ph')"] by (auto simp: set_thread_def)
  have keep: "Some (u, Counted d True) \<in> set (sc_threads (set_thread slot (Some (t', ph')) st))" if "Some (u, Counted d True) \<in> set (sc_threads st)" for u d
    using that assms(3,4) by (auto simp: set_thread_def intro!: kept_in_update)
  have "states_ok (set_thread slot (Some (t', ph')) st) todo"
    by (rule states_ok_cong [of _ st]) (use c keep in simp_all)
  moreover have "task_ok cfg args todo (length (sc_heap st)) t' = task_ok cfg args todo (length (sc_heap st)) t"
    using assms(7-9) by (simp add: task_ok_def)
  moreover have "phase_ok K cfg args todo (sc_heap st) u q" if "Some (u, q) \<in> set (sc_threads (set_thread slot (Some (t', ph')) st))" for u q
    using th [OF that] c p by blast
  ultimately show ?thesis using c unfolding accounts_ok_def R R' by (simp add: k)
qed

lemma drop_thread_accounts:
  assumes "accounts_ok K cfg args fin todo st" and "slot < length (sc_threads st)" and "sc_terminal st \<noteq> None"
  shows "accounts_ok K cfg args fin todo (set_thread slot None st)"
proof -
  note c = assms(1) [unfolded accounts_ok_def]
  have e: "open_tasks (set_thread slot None st) + slot_task (sc_threads st ! slot) = open_tasks st"
    using open_tasks_set_thread [OF assms(2), of None] by simp
  have sub: "open_tasks (set_thread slot None st) \<subseteq># open_tasks st" by (metis e mset_subset_eq_add_left)
  have cnt: "count (image_mset tk_key (open_tasks (set_thread slot None st))) k \<le> count (image_mset tk_key (open_tasks st)) k" for k
    by (simp flip: e)
  have "states_ok (set_thread slot None st) todo" by (rule states_ok_cong [of _ st]) (use c assms(3) in simp_all)
  then show ?thesis
    using c assms(3) mset_subset_eqD [OF sub] order_trans [OF cnt] set_thread_sub unfolding accounts_ok_def by (metis set_thread_fields(1,2))
qed

lemma fail_accounts:
  assumes "accounts_ok K cfg args fin todo st"
  shows "accounts_ok K cfg args fin todo (fail_sched cause st)"
proof (cases "sc_terminal st")
  case None
  define e where "e = (case cause of None \<Rightarrow> MErr ''asynchronous section MSM failed'' | Some e \<Rightarrow> e)"
  let ?st = "fail_sched cause st"
  note c = assms [unfolded accounts_ok_def]
  have f: "sc_terminal ?st = Some e" "sc_queue ?st = []" "sc_threads ?st = sc_threads st" "length (sc_heap ?st) = length (sc_heap st)"
    by (simp_all add: fail_sched_def None e_def Let_def)
  have h: "sc_heap ?st ! h = (if h \<in> sc_open st then (sc_heap st ! h)\<lparr>sh_state := complete_state (Some e) (sh_state (sc_heap st ! h))\<rparr>
      else sc_heap st ! h)" if "h < length (sc_heap st)" for h
    using that by (simp add: fail_sched_def None e_def nth_enumerate_eq Let_def)
  have hs: "handle_ok K cfg (args h) (h \<in> fin) (todo h) (sc_heap ?st ! h)" if "h < length (sc_heap st)" for h
  proof -
    have "handle_ok K cfg (args h) (h \<in> fin) (todo h) (sc_heap st ! h)" using c that by blast
    then show ?thesis by (auto simp: h [OF that] handle_ok_def complete_state_def)
  qed
  have p: "sh_parts (sc_heap ?st ! h) = sh_parts (sc_heap st ! h)" if "h < length (sc_heap st)" for h by (simp add: h [OF that])
  have ph: "phase_ok K cfg args todo (sc_heap ?st) t ph" if "Some (t, ph) \<in> set (sc_threads st)" for t ph
  proof -
    have o: "phase_ok K cfg args todo (sc_heap st) t ph" using c that by blast
    show ?thesis
    proof (cases ph)
      case Stored
      then have "tk_handle t < length (sc_heap st)" using thread_task [OF that] c by (auto simp: task_ok_def)
      then show ?thesis using o by (simp add: Stored p)
    qed (use o in \<open>simp_all add: f(4)\<close>)
  qed
  have sub: "open_tasks st = mset (sc_queue st) + open_tasks ?st" by (simp add: open_tasks_def f)
  have cnt: "count (image_mset tk_key (open_tasks ?st)) k \<le> 1" for k
  proof -
    have "count (image_mset tk_key (open_tasks ?st)) k \<le> count (image_mset tk_key (open_tasks st)) k" by (simp add: sub)
    also have "\<dots> \<le> 1" using c by blast
    finally show ?thesis .
  qed
  have "states_ok ?st todo"
    using c None by (auto simp: states_ok_def Let_def f h complete_state_def)
  then show ?thesis using c hs ph cnt unfolding accounts_ok_def f by (simp add: sub)
next
  case (Some e)
  then show ?thesis using assms by (simp add: fail_sched_def Let_def)
qed

lemma store_accounts:
  assumes "accounts_ok K cfg args fin todo st" and "slot < length (sc_threads st)" and "sc_threads st ! slot = Some (t, ph)" and "uncounted ph"
    and "request_ok K (sc_heap st ! tk_handle t) (tk_range t) v"
  shows "accounts_ok K cfg args fin todo (set_thread slot (Some (t, Stored)) (update_handle (tk_handle t) (store_part (tk_index t) v) st))"
proof -
  note c = assms(1) [unfolded accounts_ok_def]
  let ?h = "tk_handle t" and ?i = "tk_index t"
  let ?rest = "set_thread slot None st"
  let ?st = "set_thread slot (Some (t, Stored)) (update_handle ?h (store_part ?i v) st)"
  let ?x = "sc_heap st ! ?h"
  have one: "\<forall>k. count (image_mset tk_key (open_tasks st)) k \<le> 1" using c by blast
  note R = thread_rest [OF assms(2-4) one]
  have R': "open_tasks ?st = open_tasks st"
    using open_tasks_set_thread [OF assms(2), of "Some (t, Stored)"] assms(3,4) by simp
  have t: "?h < length (sc_heap st)" "?i \<in> todo ?h" "tk_range t = shard_ranges cfg (args ?h) ! ?i"
    using c R(1) by (auto simp: task_ok_def)
  have x: "handle_ok K cfg (args ?h) (?h \<in> fin) (todo ?h) ?x" using c t(1) by blast
  then have nf: "?h \<notin> fin" using t(2) by (auto simp: handle_ok_def)
  have i: "?i < length (sh_parts ?x)" using x nf t(2) by (auto simp: handle_ok_def)
  have v: "shard_ok K (args ?h) (tk_range t) v" using assms(5) x nf by (simp add: request_ok_def shard_ok_def handle_ok_def)
  have hs: "handle_ok K cfg (args h) (h \<in> fin) (todo h) (sc_heap ?st ! h)" if "h < length (sc_heap st)" for h
  proof (cases "h = ?h")
    case True
    have "(sh_parts ?x)[?i := v] ! j = sh_parts ?x ! j" if "j \<notin> todo ?h" for j using that t(2) by (metis nth_list_update_neq)
    then show ?thesis using x t(1) True by (simp add: handle_ok_def store_part_def)
  qed (use c that in simp)
  have th: "Some (u, q) \<in> set (sc_threads ?rest) \<or> u = t \<and> q = Stored" if "Some (u, q) \<in> set (sc_threads ?st)" for u q
    using other_thread [OF assms(2), of u q "Some (t, Stored)"] that by auto
  have old: "phase_ok K cfg args todo (sc_heap ?st) u q" if m: "Some (u, q) \<in> set (sc_threads ?rest)" for u q
  proof -
    have o: "phase_ok K cfg args todo (sc_heap st) u q" using c set_thread_sub [OF m] by blast
    show ?thesis
    proof (cases q)
      case Stored
      have "u \<in># open_tasks ?rest" using thread_task [OF m] by (simp add: Stored)
      then have "tk_key u \<in> tk_key ` set_mset (open_tasks ?rest)" by (rule imageI)
      then have k: "tk_key u \<noteq> tk_key t" using R(2) by metis
      show ?thesis
      proof (cases "tk_handle u = ?h")
        case True
        then have "tk_index u \<noteq> ?i" using k by (simp add: tk_key_def)
        then show ?thesis using o True t(1) by (simp add: Stored store_part_def)
      qed (use o in \<open>simp add: Stored\<close>)
    qed (use o in simp_all)
  qed
  have "phase_ok K cfg args todo (sc_heap ?st) t Stored" using v t(1) i by (simp add: store_part_def)
  then have ph: "phase_ok K cfg args todo (sc_heap ?st) u q" if "Some (u, q) \<in> set (sc_threads ?st)" for u q
    using th [OF that] old by blast
  have keep: "Some (u, Counted d True) \<in> set (sc_threads ?st)" if "Some (u, Counted d True) \<in> set (sc_threads st)" for u d
    using that assms(3,4) by (auto simp: set_thread_def intro!: kept_in_update)
  have "states_ok ?st todo"
    by (rule states_ok_cong [of _ st]) (use c t(1) keep in \<open>auto simp: nth_list_update store_part_def\<close>)
  then show ?thesis using c hs ph unfolding accounts_ok_def R' by simp
qed

lemma count_accounts:
  assumes "accounts_ok K cfg args fin todo st" and "slot < length (sc_threads st)" and "sc_threads st ! slot = Some (t, Stored)"
  shows "accounts_ok K cfg args fin (todo(tk_handle t := todo (tk_handle t) - {tk_index t}))
    (set_thread slot (Some (t, Counted (sh_doneScalars (count_task t (sc_heap st ! tk_handle t)))
       (sh_pending (count_task t (sc_heap st ! tk_handle t)) = 0))) (update_handle (tk_handle t) (count_task t) st))"
proof -
  note c = assms(1) [unfolded accounts_ok_def]
  let ?h = "tk_handle t" and ?i = "tk_index t"
  let ?x = "sc_heap st ! ?h" and ?rest = "set_thread slot None st"
  let ?x' = "count_task t ?x" and ?todo = "todo(?h := todo ?h - {?i})"
  let ?th = "Some (t, Counted (sh_doneScalars ?x') (sh_pending ?x' = 0))"
  let ?new = "set_thread slot ?th (update_handle ?h (count_task t) st)"
  have one: "\<forall>k. count (image_mset tk_key (open_tasks st)) k \<le> 1" using c by blast
  have un: "uncounted Stored" by simp
  note R = thread_rest [OF assms(2,3) un one]
  have R': "open_tasks ?new = open_tasks ?rest"
    using open_tasks_counted [OF assms(2), of ?th] by simp
  have t: "?h < length (sc_heap st)" "?i \<in> todo ?h" "tk_range t = shard_ranges cfg (args ?h) ! ?i"
    using c R(1) by (auto simp: task_ok_def)
  have x: "handle_ok K cfg (args ?h) (?h \<in> fin) (todo ?h) ?x" using c t(1) by blast
  then have nf: "?h \<notin> fin" "\<not> (cs_completed (sh_state ?x) \<and> cs_err (sh_state ?x) = None)" using t(2) by (auto simp: handle_ok_def)
  have sub: "todo ?h \<subseteq> {..<length (shard_ranges cfg (args ?h))}" using x by (simp add: handle_ok_def)
  then have fin: "finite (todo ?h)" by (rule finite_subset) simp
  have part: "shard_ok K (args ?h) (tk_range t) (sh_parts ?x ! ?i)"
    using c assms(2,3) by (metis nth_mem phase_ok.simps(1))
  have card: "int (card (todo ?h - {?i})) = sh_pending ?x - 1"
    using x t(2) fin by (simp add: handle_ok_def card_Diff_singleton) (metis card_gt_0_iff empty_iff int_ops(6) of_nat_1 Suc_leI of_nat_diff One_nat_def)
  have spans: "span_sum (shard_ranges cfg (args ?h)) ({..<length (shard_ranges cfg (args ?h))} - (todo ?h - {?i})) =
      sh_doneScalars ?x + (snd (tk_range t) - fst (tk_range t))"
  proof -
    have "{..<length (shard_ranges cfg (args ?h))} - (todo ?h - {?i}) = insert ?i ({..<length (shard_ranges cfg (args ?h))} - todo ?h)"
      using sub t(2) by auto
    then show ?thesis using x t(2,3) by (simp add: span_sum_def handle_ok_def)
  qed
  have hs: "handle_ok K cfg (args h) (h \<in> fin) (?todo h) (sc_heap ?new ! h)" if "h < length (sc_heap st)" for h
  proof (cases "h = ?h")
    case True
    have "sh_state ?x' = sh_state ?x" "sh_pending ?x' = sh_pending ?x - 1" "sh_parts ?x' = sh_parts ?x"
      "sh_doneScalars ?x' = sh_doneScalars ?x + (snd (tk_range t) - fst (tk_range t))" by (simp_all add: count_task_def)
    then show ?thesis using x t nf sub part card spans True by (auto simp: handle_ok_def count_task_def)
  qed (use c that in simp)
  have zero: "todo ?h - {?i} = {}" if "sh_pending ?x' = 0" using that card fin by (simp add: count_task_def)
  have old: "phase_ok K cfg args ?todo (sc_heap ?new) u q" if m: "Some (u, q) \<in> set (sc_threads ?rest)" for u q
  proof -
    have o: "phase_ok K cfg args todo (sc_heap st) u q" using c set_thread_sub [OF m] by blast
    show ?thesis using o t(1) by (cases q) (auto simp: count_task_def nth_list_update)
  qed
  have "phase_ok K cfg args ?todo (sc_heap ?new) t (Counted (sh_doneScalars ?x') (sh_pending ?x' = 0))"
    using t(1) zero by simp
  then have ph: "phase_ok K cfg args ?todo (sc_heap ?new) u q" if "Some (u, q) \<in> set (sc_threads ?new)" for u q
    using other_thread [OF assms(2), of u q ?th] that old by fastforce
  have tasks: "task_ok cfg args ?todo (length (sc_heap st)) u" if "u \<in># open_tasks ?rest" for u
  proof -
    have "task_ok cfg args todo (length (sc_heap st)) u" using c that by (simp add: R(1))
    moreover have "tk_key u \<noteq> tk_key t" using R(2) that by (metis imageI)
    ultimately show ?thesis by (auto simp: task_ok_def tk_key_def)
  qed
  have all: "(h, i) \<in> tk_key ` set_mset (open_tasks ?rest)" if "sc_terminal st = None" "h < length (sc_heap st)" "i \<in> ?todo h" for h i
  proof -
    have "i \<in> todo h" "(h, i) \<noteq> tk_key t" using that(3) by (auto simp: tk_key_def split: if_splits)
    moreover have "(h, i) \<in> tk_key ` set_mset (open_tasks st)" using c that(1,2) calculation(1) by blast
    ultimately show ?thesis by (simp add: R(1))
  qed
  have cnt: "count (image_mset tk_key (open_tasks ?rest)) k \<le> 1" for k
  proof -
    have "count (image_mset tk_key (open_tasks ?rest)) k \<le> count (image_mset tk_key (open_tasks st)) k" by (simp add: R(1))
    then show ?thesis using one order_trans by blast
  qed
  have keep: "Some (u, Counted d True) \<in> set (sc_threads ?new)" if "Some (u, Counted d True) \<in> set (sc_threads st)" for u d
    using that assms(3) by (auto simp: set_thread_def intro!: kept_in_update)
  have "states_ok ?new ?todo"
  proof (rule states_ok_mono [of _ st])
    show "(todo h = {} \<and> \<not> completing st h) \<or> completing ?new h" if "?todo h = {}" for h
    proof (cases "h = ?h")
      case True
      have e: "todo ?h - {?i} = {}" using that True by simp
      have "sh_pending ?x' = 0" using card unfolding e by (simp add: count_task_def)
      moreover have "?th \<in> set (sc_threads ?new)" using assms(2) by (simp add: set_thread_def set_update_memI)
      ultimately have "Some (t, Counted (sh_doneScalars ?x') True) \<in> set (sc_threads ?new)" by simp
      then have "completing ?new ?h" by (auto simp: completing_def)
      then show ?thesis by (simp add: True)
    next
      case False
      have "completing st h \<Longrightarrow> completing ?new h" using keep unfolding completing_def by metis
      then show ?thesis using that False by auto
    qed
  qed (use c t(1) in \<open>auto simp: nth_list_update count_task_def\<close>)
  moreover have l: "length (sc_heap ?new) = length (sc_heap st)" "sc_terminal ?new = sc_terminal st" by simp_all
  ultimately show ?thesis unfolding accounts_ok_def R' l
    by (intro conjI allI impI ballI) (assumption | rule cnt | (rule hs tasks all ph; assumption))+
qed

lemma report_accounts:
  assumes "accounts_ok K cfg args fin todo st" and "slot < length (sc_threads st)" and "sc_threads st ! slot = Some (t, Counted d c)"
  shows "accounts_ok K cfg args fin todo
    (set_thread slot (Some (t, Releasing)) (update_handle (tk_handle t) (report_task d c) st))"
proof -
  note a = assms(1) [unfolded accounts_ok_def]
  let ?h = "tk_handle t"
  let ?x = "sc_heap st ! ?h" and ?new = "set_thread slot (Some (t, Releasing)) (update_handle ?h (report_task d c) st)"
  have p: "phase_ok K cfg args todo (sc_heap st) t (Counted d c)" using a assms(2,3) by (metis nth_mem)
  then have h: "?h < length (sc_heap st)" and z: "c \<Longrightarrow> todo ?h = {}" by simp_all
  have o: "open_tasks ?new = open_tasks st"
    using open_tasks_set_thread [OF assms(2), of "Some (t, Releasing)"] assms(3) by simp
  have hs: "handle_ok K cfg (args h) (h \<in> fin) (todo h) (sc_heap ?new ! h)" if "h < length (sc_heap st)" for h
  proof (cases "h = ?h")
    case True
    have "handle_ok K cfg (args ?h) (?h \<in> fin) (todo ?h) ?x" using a h by blast
    then have "handle_ok K cfg (args ?h) (?h \<in> fin) (todo ?h) (report_task d c ?x)"
      using z by (cases c) (auto simp: handle_ok_def report_task_def complete_state_def)
    then show ?thesis using h True by simp
  qed (use a that in simp)
  have ph: "phase_ok K cfg args todo (sc_heap ?new) u q" if m: "Some (u, q) \<in> set (sc_threads ?new)" for u q
  proof -
    have "Some (u, q) \<in> set (sc_threads st) \<or> q = Releasing"
      using m set_update_subset_insert [of "sc_threads st" slot "Some (t, Releasing)"] by (auto simp: set_thread_def)
    then have o: "phase_ok K cfg args todo (sc_heap st) u q" using a by auto
    show ?thesis using o h by (cases q) (auto simp: report_task_def nth_list_update)
  qed
  have "states_ok ?new todo"
    unfolding states_ok_def
  proof (intro allI impI)
    fix h assume "h < length (sc_heap ?new)"
    then have l: "h < length (sc_heap st)" by simp
    have o: "let s = sh_state (sc_heap st ! h) in
     (case sc_terminal st of
        None \<Rightarrow> (todo h = {} \<longrightarrow> cs_completed s \<or> completing st h) \<and> cs_err s = None \<and> (cs_completed s \<or> h \<in> sc_open st)
      | Some e \<Rightarrow> cs_completed s \<and> (cs_err s = None \<or> cs_err s = Some e))"
      using a l by (simp add: states_ok_def)
    have other: "completing st h \<Longrightarrow> \<not> (h = ?h \<and> c) \<Longrightarrow> completing ?new h"
    proof -
      assume "completing st h" and n: "\<not> (h = ?h \<and> c)"
      then obtain u e where u: "Some (u, Counted e True) \<in> set (sc_threads st)" "tk_handle u = h" by (auto simp: completing_def)
      then have "Some (u, Counted e True) \<noteq> sc_threads st ! slot" using n assms(3) by auto
      then show "completing ?new h" using u by (auto simp: completing_def set_thread_def intro!: kept_in_update)
    qed
    show "let s = sh_state (sc_heap ?new ! h) in
     (case sc_terminal ?new of
        None \<Rightarrow> (todo h = {} \<longrightarrow> cs_completed s \<or> completing ?new h) \<and> cs_err s = None \<and> (cs_completed s \<or> h \<in> sc_open ?new)
      | Some e \<Rightarrow> cs_completed s \<and> (cs_err s = None \<or> cs_err s = Some e))"
    proof (cases "h = ?h")
      case True
      show ?thesis using o other h True by (cases c; cases "sc_terminal st") (auto simp: Let_def report_task_def complete_state_def)
    next
      case False
      show ?thesis using o other False by (cases "sc_terminal st") (auto simp: Let_def)
    qed
  qed
  then show ?thesis using a hs ph unfolding accounts_ok_def o by simp
qed

lemma freed_accounts:
  assumes "accounts_ok K cfg args fin todo st" and "slot < length (sc_threads st)" and "sc_threads st ! slot = Some (t, Releasing)"
  shows "accounts_ok K cfg args fin todo (freed slot st)"
proof -
  note a = assms(1) [unfolded accounts_ok_def]
  have o: "open_tasks (freed slot st) = open_tasks st"
    using open_tasks_set_thread [OF assms(2), of None] assms(3) by (simp add: freed_def open_tasks_def)
  have m: "Some (u, q) \<in> set (sc_threads (freed slot st)) \<Longrightarrow> Some (u, q) \<in> set (sc_threads st)" for u q
    using set_thread_sub [of u q slot st] by (simp add: freed_def)
  have keep: "Some (u, Counted d True) \<in> set (sc_threads (freed slot st))" if "Some (u, Counted d True) \<in> set (sc_threads st)" for u d
    using that assms(3) by (auto simp: freed_def set_thread_def intro!: kept_in_update)
  have e: "sc_heap (freed slot st) = sc_heap st" "sc_terminal (freed slot st) = sc_terminal st" "sc_open (freed slot st) = sc_open st"
    by (simp_all add: freed_def)
  have "states_ok (freed slot st) todo" by (rule states_ok_cong [of _ st]) (use a e keep in simp_all)
  then show ?thesis using a m unfolding accounts_ok_def o e by blast
qed

lemma release_accounts:
  assumes "accounts_ok K cfg args fin todo st" and "shape_ok cfg workers st" and "slot < workers" and "sc_threads st ! slot = Some (t, Releasing)"
  shows "accounts_ok K cfg args fin todo (releaseSlot (cf_optW7 cfg) slot st)"
proof -
  have "slot < length (sc_threads st)" using assms(2,3) by (simp add: shape_ok_def slots_ok_def)
  from freed_accounts [OF assms(1) this assms(4)] show ?thesis
    unfolding releaseSlot_def freed_def [symmetric] by (rule pump_accounts [OF freed_shape [OF assms(2,3)]])
qed

lemma next_accounts [simp]: "accounts_ok K cfg args fin todo (st\<lparr>sc_nextRequestID := k\<rparr>) = accounts_ok K cfg args fin todo st"
proof -
  have "completing (st\<lparr>sc_nextRequestID := k\<rparr>) = completing st" by (simp add: fun_eq_iff completing_def)
  then show ?thesis by (cases "sc_terminal st") (simp_all add: accounts_ok_def states_ok_def Let_def)
qed

lemma thread_accounts:
  assumes "thread_step K dcd cfg slot task ph st st'" and "accounts_ok K cfg args fin todo st" and "shape_ok cfg workers st"
    and "slot < workers" and "sc_threads st ! slot = Some (task, ph)"
  shows "\<exists>todo'. accounts_ok K cfg args fin todo' st'"
proof -
  have l: "slot < length (sc_threads st)" using assms(3,4) by (simp add: shape_ok_def slots_ok_def)
  note same = same_task_accounts [OF assms(2) l assms(5)]
  have moves: "accounts_ok K cfg args fin todo (set_thread slot (Some (task, ph')) st)" if "uncounted ph" "uncounted ph'" "ph' \<noteq> Stored" for ph'
  proof -
    have "phase_ok K cfg args todo (sc_heap st) task ph'" using that(2,3) by (cases ph') simp_all
    then show ?thesis using same that(1,2) by simp
  qed
  show ?thesis using assms(1)
  proof (cases rule: thread_step.cases)
    case (good_partial waited b v)
    then show ?thesis using store_accounts [OF assms(2) l assms(5)] by auto
  next
    case count
    then show ?thesis using count_accounts [OF assms(2) l] assms(5) by (auto simp: Let_def)
  next
    case (report d c)
    then show ?thesis using report_accounts [OF assms(2) l] assms(5) by auto
  next
    case release
    then show ?thesis using release_accounts [OF assms(2-4)] assms(5) by auto
  next
    case (fails e)
    have "accounts_ok K cfg args fin todo (fail_sched (Some e) st)" by (rule fail_accounts [OF assms(2)])
    moreover have "slot < length (sc_threads (fail_sched (Some e) st))" using l by (simp add: fail_sched_def Let_def)
    ultimately show ?thesis using drop_thread_accounts fail_terminal [of "Some e" st] unfolding fails(2) by blast
  next
    case (error_reply waited e)
    have "uncounted (after_error task e)" "phase_ok K cfg args todo (sc_heap st) task (after_error task e)"
      by (simp_all add: after_error_def split: prod.split)
    then show ?thesis using same error_reply by auto
  next
    case (again requestID e)
    then have "accounts_ok K cfg args fin todo (set_thread slot (Some (task\<lparr>tk_attempt := Suc (tk_attempt task), tk_requestID := requestID\<rparr>, Backoff)) st)"
      using same by simp
    then show ?thesis unfolding again(2) by auto
  qed (auto intro!: exI [of _ todo] moves drop_thread_accounts [OF assms(2) l])
qed

lemma handle_frame:
  assumes "accounts_ok K cfg args fin todo st" and "\<And>h. h < length (sc_heap st) \<Longrightarrow> args' h = args h \<and> todo' h = todo h"
  shows "\<forall>h < length (sc_heap st). handle_ok K cfg (args' h) (h \<in> fin) (todo' h) (sc_heap st ! h)"
    and "t \<in># open_tasks st \<Longrightarrow> length (sc_heap st) \<le> n \<Longrightarrow> task_ok cfg args' todo' n t"
    and "Some (t, ph) \<in> set (sc_threads st) \<Longrightarrow> length (sc_heap st) \<le> n \<Longrightarrow> phase_ok K cfg args' todo' (sc_heap st @ xs) t ph"
proof -
  note a = assms(1) [unfolded accounts_ok_def]
  show "\<forall>h < length (sc_heap st). handle_ok K cfg (args' h) (h \<in> fin) (todo' h) (sc_heap st ! h)" using a assms(2) by simp
  have t: "task_ok cfg args' todo' n t" if "t \<in># open_tasks st" "length (sc_heap st) \<le> n" for t n
    using a that assms(2) by (auto simp: task_ok_def)
  then show "t \<in># open_tasks st \<Longrightarrow> length (sc_heap st) \<le> n \<Longrightarrow> task_ok cfg args' todo' n t" .
  show "phase_ok K cfg args' todo' (sc_heap st @ xs) t ph" if m: "Some (t, ph) \<in> set (sc_threads st)" "length (sc_heap st) \<le> n"
  proof -
    have o: "phase_ok K cfg args todo (sc_heap st) t ph" using a m(1) by blast
    show ?thesis
    proof (cases ph)
      case Stored
      then have "task_ok cfg args todo (length (sc_heap st)) t" using thread_task [OF m(1)] a by simp
      then show ?thesis using o assms(2) by (simp add: Stored task_ok_def nth_append)
    qed (use o assms(2) in auto)
  qed
qed

lemma key_section_tasks: "image_mset tk_key (mset (section_tasks cfg st ranges)) = mset (map (Pair (length (sc_heap st))) [0..<length ranges])"
proof -
  have "map tk_key (section_tasks cfg st ranges) = map (Pair (length (sc_heap st))) (map tk_index (section_tasks cfg st ranges))"
    using shard_tasks_simps(2) [of _ "length (sc_heap st)"] by (auto simp: section_tasks_def tk_key_def)
  then have "map tk_key (section_tasks cfg st ranges) = map (Pair (length (sc_heap st))) [0..<length ranges]"
    by (simp add: section_tasks_def shard_tasks_simps(3))
  then show ?thesis by (metis mset_map)
qed

lemma new_handle_ok:
  assumes "int (length scalars) = n"
  shows "handle_ok K cfg \<lparr>sa_g2 = g2, sa_plan = plan, sa_section = section, sa_n = n, sa_scalars = scalars\<rparr> False
     {..<length (nonEmptyRanges (partitionRanges n (cf_shards cfg)))} (new_handle g2 plan section n scalars (nonEmptyRanges (partitionRanges n (cf_shards cfg))))"
  using assms by (simp add: handle_ok_def new_handle_def shard_ranges_def newCollectionState_def span_sum_def)

lemma enqueue_accounts:
  assumes "accounts_ok K cfg args fin todo st" and "int (length scalars) = n" and "ranges = nonEmptyRanges (partitionRanges n (cf_shards cfg))"
    and "sc_terminal st = None" and "length (sc_heap st) \<notin> fin" and "ranges \<noteq> []"
  shows "accounts_ok K cfg (args(length (sc_heap st) := \<lparr>sa_g2 = g2, sa_plan = plan, sa_section = section, sa_n = n, sa_scalars = scalars\<rparr>)) fin
     (todo(length (sc_heap st) := {..<length ranges})) (enqueue cfg g2 plan section n scalars ranges st)"
    (is "accounts_ok K cfg ?args fin ?todo ?new")
proof -
  note a = assms(1) [unfolded accounts_ok_def]
  let ?l = "length (sc_heap st)"
  note f = handle_frame [OF assms(1), of ?args ?todo]
  have e: "sc_heap ?new = sc_heap st @ [new_handle g2 plan section n scalars ranges]" "sc_terminal ?new = None" "sc_threads ?new = sc_threads st"
      "sc_open ?new = insert ?l (sc_open st)"
    by (simp_all add: enqueue_def assms(4))
  have o: "open_tasks ?new = open_tasks st + mset (section_tasks cfg st ranges)" by (simp add: open_tasks_def enqueue_def)
  have hs: "handle_ok K cfg (?args h) (h \<in> fin) (?todo h) (sc_heap ?new ! h)" if "h < length (sc_heap ?new)" for h
  proof (cases "h = ?l")
    case True
    then show ?thesis using new_handle_ok [OF assms(2), of K cfg g2 plan "section", folded assms(3)] assms(5) by (simp add: e)
  next
    case False
    then have "h < ?l" using that by (simp add: e)
    then show ?thesis using f(1) by (simp add: e nth_append)
  qed
  have new: "task_ok cfg ?args ?todo (length (sc_heap ?new)) t" if "t \<in> set (section_tasks cfg st ranges)" for t
  proof -
    from shard_tasks_simps(2) [OF that [unfolded section_tasks_def]] show ?thesis
      by (auto simp: task_ok_def shard_ranges_def e simp flip: assms(3))
  qed
  have ts: "task_ok cfg ?args ?todo (length (sc_heap ?new)) t" if "t \<in># open_tasks ?new" for t
    using that new f(2) [of t "length (sc_heap ?new)"] by (auto simp: o e)
  have fresh: "(?l, i) \<notin># image_mset tk_key (open_tasks st)" for i
    using a by (auto simp: task_ok_def tk_key_def)
  have cnt: "count (image_mset tk_key (open_tasks ?new)) k \<le> 1" for k
  proof -
    have d: "count (mset (map (Pair ?l) [0..<length ranges])) k \<le> 1"
      by (metis count_mset_0_iff distinct_count_atmost_1 distinct_map distinct_upt inj_on_def le_numeral_extra(4) prod.inject zero_le_one
          order_refl le_zero_eq linorder_linear)
    show ?thesis
    proof (cases "fst k = ?l")
      case True
      then have "count (image_mset tk_key (open_tasks st)) k = 0" using fresh [of "snd k"] by (metis not_in_iff prod.collapse)
      then show ?thesis using d by (simp add: o key_section_tasks)
    next
      case False
      then have "k \<notin># mset (map (Pair ?l) [0..<length ranges])" by auto
      then have "count (mset (map (Pair ?l) [0..<length ranges])) k = 0" by (metis not_in_iff)
      moreover have "count (image_mset tk_key (open_tasks st)) k \<le> 1" using a by blast
      ultimately show ?thesis by (simp add: o key_section_tasks)
    qed
  qed
  have all: "(h, i) \<in> tk_key ` set_mset (open_tasks ?new)" if "h < length (sc_heap ?new)" "i \<in> ?todo h" for h i
  proof (cases "h = ?l")
    case True
    then have "(h, i) \<in># image_mset tk_key (mset (section_tasks cfg st ranges))" using that(2) unfolding key_section_tasks by auto
    then show ?thesis by (auto simp: o)
  next
    case False
    then have "(h, i) \<in> tk_key ` set_mset (open_tasks st)" using that a assms(4) by (simp add: e)
    then show ?thesis by (auto simp: o)
  qed
  have ph: "phase_ok K cfg ?args ?todo (sc_heap ?new) t ph" if "Some (t, ph) \<in> set (sc_threads ?new)" for t ph
    using f(3) [of t ph ?l] that by (simp add: e)
  have ne: "{..<length ranges} \<noteq> {}" using assms(6) by auto
  have "completing ?new = completing st" by (simp add: fun_eq_iff completing_def e)
  then have "states_ok ?new ?todo"
    using a assms(4) ne by (auto simp: states_ok_def e Let_def nth_append new_handle_def newCollectionState_def less_Suc_eq)
  then show ?thesis unfolding accounts_ok_def
    by (intro conjI allI impI ballI) (assumption | rule cnt | (rule hs ts all ph; assumption))+
qed

lemma dispatch_accounts:
  assumes "accounts_ok K cfg args fin todo st" and "config_ok cfg workers" and "shape_ok cfg workers st"
    and "dispatchSection cfg g2 plan section n scalars st = (r, st')" and "\<forall>h \<in> fin. h < length (sc_heap st)"
  shows "\<exists>args' todo'. accounts_ok K cfg args' fin todo' st' \<and> (\<forall>h < length (sc_heap st). args' h = args h) \<and>
     (\<forall>h. r = Inr h \<longrightarrow> h = length (sc_heap st) \<and> length (sc_heap st') = Suc h \<and>
        args' h = \<lparr>sa_g2 = g2, sa_plan = plan, sa_section = section, sa_n = n, sa_scalars = scalars\<rparr>)"
  using assms(4)
proof (cases rule: dispatch_cases)
  case rejected
  then show ?thesis using assms(1) by blast
next
  case empty
  let ?l = "length (sc_heap st)"
  let ?a = "args(?l := \<lparr>sa_g2 = g2, sa_plan = plan, sa_section = section, sa_n = n, sa_scalars = scalars\<rparr>)" and ?t = "todo(?l := {})"
  let ?x = "new_handle g2 plan section n scalars []\<lparr>sh_state := complete_state None newCollectionState\<rparr>"
  note a = assms(1) [unfolded accounts_ok_def]
  note f = handle_frame [OF assms(1), of ?a ?t]
  have nf: "?l \<notin> fin" using assms(5) by blast
  have x: "handle_ok K cfg (?a ?l) (?l \<in> fin) (?t ?l) ?x"
    using empty(2,3) nf by (simp add: handle_ok_def new_handle_def shard_ranges_def newCollectionState_def complete_state_def span_sum_def)
  have e: "sc_heap st' = sc_heap st @ [?x]" "sc_terminal st' = sc_terminal st" "sc_threads st' = sc_threads st" "sc_open st' = sc_open st"
      "open_tasks st' = open_tasks st"
    by (simp_all add: empty(4) open_tasks_def)
  have hs: "handle_ok K cfg (?a h) (h \<in> fin) (?t h) (sc_heap st' ! h)" if "h < length (sc_heap st')" for h
  proof (cases "h = ?l")
    case True
    then show ?thesis using x by (simp add: e)
  next
    case False
    then have "h < ?l" using that by (simp add: e)
    then show ?thesis using f(1) by (simp add: e nth_append)
  qed
  have c: "completing st' = completing st" by (simp add: fun_eq_iff completing_def e)
  have "states_ok st' ?t"
    using a by (auto simp: states_ok_def e c Let_def nth_append newCollectionState_def complete_state_def less_Suc_eq split: option.splits)
  moreover have "phase_ok K cfg ?a ?t (sc_heap st') t ph" if "Some (t, ph) \<in> set (sc_threads st)" for t ph
    using f(3) [of t ph ?l] that by (simp add: e)
  moreover have "task_ok cfg ?a ?t (length (sc_heap st')) t" if "t \<in># open_tasks st" for t
    using f(2) [of t] that by (simp add: e)
  moreover have "(h, i) \<in> tk_key ` set_mset (open_tasks st)" if "sc_terminal st = None" "h < length (sc_heap st')" "i \<in> ?t h" for h i
    using that a by (auto simp: e less_Suc_eq split: if_splits)
  ultimately have "accounts_ok K cfg ?a fin ?t st'"
    unfolding accounts_ok_def e(2,3,5) using a hs by metis
  then show ?thesis using empty(1) by (intro exI [of _ ?a] exI [of _ ?t]) (auto simp: e(1))
next
  case (queued ranges)
  let ?l = "length (sc_heap st)"
  let ?a = "args(?l := \<lparr>sa_g2 = g2, sa_plan = plan, sa_section = section, sa_n = n, sa_scalars = scalars\<rparr>)"
  have nf: "?l \<notin> fin" using assms(5) by blast
  have "accounts_ok K cfg ?a fin (todo(?l := {..<length ranges})) st'"
    unfolding queued(7)
    by (rule pump_accounts [OF enqueue_shape [OF assms(2,3) queued(2,3,5,6)] enqueue_accounts [OF assms(1) queued(2,3,5) nf queued(4)]])
  moreover have "length (sc_heap st') = Suc ?l"
  proof -
    have "length (sc_heap (pump_slot w s slot)) = length (sc_heap s)" for w slot and s :: "('a, 'b, 'c) scheduler"
      by (cases rule: pump_slot_cases [of w s slot]) simp_all
    then have "length (sc_heap (pumpLocked w s)) = length (sc_heap s)" for w and s :: "('a, 'b, 'c) scheduler"
      by (intro pump_invariant [of "length (sc_busy s)" "\<lambda>s'. length (sc_heap s') = length (sc_heap s)"]) simp_all
    then show ?thesis by (simp add: queued(7) enqueue_def)
  qed
  ultimately show ?thesis using queued(1) by (intro exI [of _ ?a] exI) auto
qed

section \<open>Collection\<close>

text \<open>A result is good when it is the sum of one partial sum for each shard, each within the contract.\<close>

definition good_result :: "('p, 'f, 'g::comm_monoid_add) kernel \<Rightarrow> sched_config \<Rightarrow> ('p, 'f) section_args \<Rightarrow> 'g \<Rightarrow> bool" where
  "good_result K cfg a g \<longleftrightarrow> (\<exists>vs. list_all2 (shard_ok K a) (shard_ranges cfg a) vs \<and> g = combine vs)"

lemma collect_start_accounts:
  assumes "accounts_ok K cfg args fin todo st" and "h < length (sc_heap st)" and "collectStart g2 h st = (r, st')"
  shows "accounts_ok K cfg args fin todo st'"
proof (cases r)
  case (Some e)
  then show ?thesis using assms(1,3) by (auto simp: collectStart_def split: if_splits sum.splits)
next
  case None
  note a = assms(1) [unfolded accounts_ok_def]
  let ?f = "\<lambda>x. x\<lparr>sh_state := sh_state (sc_heap st ! h)\<lparr>cs_collected := True\<rparr>\<rparr>"
  have st': "st' = (update_handle h ?f st)\<lparr>sc_collecting := insert h (sc_collecting st)\<rparr>"
    using assms(3) None by (auto simp: collectStart_def collect_begin_def split: if_splits sum.splits)
  have o: "open_tasks st' = open_tasks st" by (simp add: st')
  have hs: "handle_ok K cfg (args h') (h' \<in> fin) (todo h') (sc_heap st' ! h')" if "h' < length (sc_heap st)" for h'
    using a assms(2) that by (cases "h' = h") (auto simp: st' handle_ok_def)
  have ph: "phase_ok K cfg args todo (sc_heap st') t ph" if "Some (t, ph) \<in> set (sc_threads st)" for t ph
  proof -
    have "phase_ok K cfg args todo (sc_heap st) t ph" using a that by blast
    then show ?thesis using assms(2) by (cases ph) (auto simp: st' nth_list_update)
  qed
  have c: "completing st' = completing st" by (simp add: fun_eq_iff completing_def st')
  have "states_ok st' todo"
    using a assms(2) by (cases "sc_terminal st") (auto simp: states_ok_def Let_def c [unfolded st'] st' nth_list_update)
  then show ?thesis using a hs ph unfolding accounts_ok_def o by (simp add: st')
qed

lemma collect_finish_accounts:
  assumes "accounts_ok K cfg args fin todo st" and "h < length (sc_heap st)" and "cs_collected (sh_state (sc_heap st ! h))"
    and "h \<notin> fin" and "collectFinish h st = Some (Inr g, st')"
  shows "accounts_ok K cfg args (insert h fin) todo st'" and "good_result K cfg (args h) g"
proof -
  note a = assms(1) [unfolded accounts_ok_def]
  let ?x = "sc_heap st ! h" and ?f = "\<lambda>x. x\<lparr>sh_parts := [], sh_scalars := [], sh_plan := None\<rparr>"
  have closed: "cs_completed (sh_state ?x)" "cs_err (sh_state ?x) = None" and g: "g = combine (sh_parts ?x)"
    and st': "st' = (update_handle h ?f st)\<lparr>sc_collecting := sc_collecting st - {h}, sc_open := sc_open st - {h}\<rparr>"
    using assms(5) by (auto simp: collectFinish_def collect_end_def split: if_splits option.splits)
  have x: "handle_ok K cfg (args h) (h \<in> fin) (todo h) ?x" using a assms(2) by blast
  then have z: "todo h = {}" using closed by (simp add: handle_ok_def)
  show "good_result K cfg (args h) g"
    unfolding good_result_def using x z assms(4) g by (intro exI [of _ "sh_parts ?x"]) (auto simp: handle_ok_def list_all2_conv_all_nth)
  have o: "open_tasks st' = open_tasks st" by (simp add: st')
  have hs: "handle_ok K cfg (args h') (h' \<in> insert h fin) (todo h') (sc_heap st' ! h')" if "h' < length (sc_heap st)" for h'
  proof (cases "h' = h")
    case True
    then show ?thesis using x z closed assms(2,3) by (simp add: st' handle_ok_def)
  next
    case False
    then show ?thesis using a that by (simp add: st')
  qed
  have ph: "phase_ok K cfg args todo (sc_heap st') t ph" if m: "Some (t, ph) \<in> set (sc_threads st)" for t ph
  proof -
    have p: "phase_ok K cfg args todo (sc_heap st) t ph" using a m by blast
    show ?thesis
    proof (cases ph)
      case Stored
      then have "tk_index t \<in> todo (tk_handle t)" using thread_task [OF m] a by (auto simp: task_ok_def)
      then have "tk_handle t \<noteq> h" using z by auto
      then show ?thesis using p by (simp add: Stored st')
    qed (use p in \<open>simp_all add: st'\<close>)
  qed
  have c: "completing st' = completing st" by (simp add: fun_eq_iff completing_def st')
  have "states_ok st' todo"
    using a assms(2) closed by (cases "sc_terminal st") (auto simp: states_ok_def Let_def c [unfolded st'] st' nth_list_update)
  then show "accounts_ok K cfg args (insert h fin) todo st'" using a hs ph unfolding accounts_ok_def o by (simp add: st')
qed

section \<open>Runs\<close>

text \<open>What the events of a run say: who was dispatched, what was collected, and that each handle is collected once.\<close>

definition ledger_ok :: "('p, 'f, 'g::comm_monoid_add) kernel \<Rightarrow> sched_config \<Rightarrow> (nat \<Rightarrow> ('p, 'f) section_args) \<Rightarrow> nat set \<Rightarrow>
    ('p, 'f, 'g) sched_event list \<Rightarrow> ('p, 'f, 'g) scheduler \<Rightarrow> bool" where
  "ledger_ok K cfg args fin tr st \<longleftrightarrow>
     (\<forall>g2 plan section n scalars h. Dispatched g2 plan section n scalars (Inr h) \<in> set tr \<longrightarrow> h < length (sc_heap st) \<and>
        args h = \<lparr>sa_g2 = g2, sa_plan = plan, sa_section = section, sa_n = n, sa_scalars = scalars\<rparr>) \<and>
     (\<forall>h r. Collected h r \<in> set tr \<longrightarrow> h < length (sc_heap st) \<and> cs_collected (sh_state (sc_heap st ! h)) \<and> h \<notin> sc_collecting st \<and>
        (case r of Inl e \<Rightarrow> sc_terminal st = Some e | Inr g \<Rightarrow> good_result K cfg (args h) g)) \<and>
     (\<forall>h. length (filter (\<lambda>ev. \<exists>r. ev = Collected h r) tr) \<le> 1) \<and>
     (\<forall>h \<in> sc_collecting st. h < length (sc_heap st) \<and> cs_collected (sh_state (sc_heap st ! h)) \<and> h \<notin> fin) \<and>
     (\<forall>h \<in> fin. h < length (sc_heap st))"

text \<open>Later states: more handles, the same collections, and an error that stays.\<close>

definition later :: "('p, 'f, 'g) scheduler \<Rightarrow> ('p, 'f, 'g) scheduler \<Rightarrow> bool" where
  "later st st' \<longleftrightarrow> length (sc_heap st) \<le> length (sc_heap st') \<and> sc_collecting st' = sc_collecting st \<and>
     (\<forall>h < length (sc_heap st). cs_collected (sh_state (sc_heap st' ! h)) = cs_collected (sh_state (sc_heap st ! h))) \<and>
     (sc_terminal st \<noteq> None \<longrightarrow> sc_terminal st' = sc_terminal st)"

lemma later_refl [simp]: "later st st"
  by (simp add: later_def)

lemma later_trans: "later a b \<Longrightarrow> later b c \<Longrightarrow> later a c"
  by (auto simp: later_def)

lemma later_set_thread [simp]: "later st (set_thread slot th st)" "later st (freed slot st)"
  by (simp_all add: later_def freed_def)

lemma later_pump: "later st (pumpLocked w st)"
proof -
  have "later s (pump_slot w s slot)" for slot and s :: "('a, 'b, 'c) scheduler"
    by (cases rule: pump_slot_cases [of w s slot]) (simp_all add: later_def)
  then show ?thesis by (intro pump_invariant [of "length (sc_busy st)" "later st"]) (auto intro: later_trans)
qed

lemma collected_complete [simp]: "cs_collected (complete_state e s) = cs_collected s"
  by (simp add: complete_state_def)

lemma later_fail: "later st (fail_sched cause st)"
proof (cases "sc_terminal st")
  case None
  have "length (sc_heap (fail_sched cause st)) = length (sc_heap st)" "sc_collecting (fail_sched cause st) = sc_collecting st"
    by (simp_all add: fail_sched_def Let_def)
  moreover have "cs_collected (sh_state (sc_heap (fail_sched cause st) ! h)) = cs_collected (sh_state (sc_heap st ! h))"
    if "h < length (sc_heap st)" for h
    using that None by (simp add: fail_sched_def Let_def nth_enumerate_eq)
  ultimately show ?thesis unfolding later_def using None by (intro conjI allI impI) simp_all
next
  case (Some e)
  then have "fail_sched cause st = st" by (simp add: fail_sched_def Let_def)
  then show ?thesis by simp
qed

lemma later_update:
  assumes "\<And>x. cs_collected (sh_state (f x)) = cs_collected (sh_state x)"
  shows "later st (set_thread slot th (update_handle h f st))"
proof -
  have "cs_collected (sh_state ((sc_heap st)[h := f (sc_heap st ! h)] ! k)) = cs_collected (sh_state (sc_heap st ! k))"
    if "k < length (sc_heap st)" for k
    using that assms [of "sc_heap st ! h"] by (cases "k = h") simp_all
  then show ?thesis by (simp add: later_def)
qed

lemma later_thread:
  assumes "thread_step K dcd cfg slot task ph st st'"
  shows "later st st'"
  using assms
proof (cases rule: thread_step.cases)
  case release
  then show ?thesis unfolding releaseSlot_def freed_def [symmetric] using later_pump later_set_thread(2) later_trans by blast
next
  case (fails e)
  then show ?thesis using later_fail later_set_thread(1) later_trans by blast
next
  case (good_partial waited b v)
  then show ?thesis using later_update [of "store_part (tk_index task) v"] by (simp add: store_part_def)
next
  case count
  then show ?thesis using later_update [of "count_task task"] by (simp add: count_task_def Let_def)
next
  case (report d c)
  then show ?thesis using later_update [of "report_task d c"] by (cases c) (simp_all add: report_task_def)
qed (auto simp: later_def)

lemma later_dispatch:
  assumes "dispatchSection cfg g2 plan section n scalars st = (r, st')"
  shows "later st st'"
  using assms
proof (cases rule: dispatch_cases)
  case (queued ranges)
  have "later st (enqueue cfg g2 plan section n scalars ranges st)" by (simp add: later_def enqueue_def nth_append)
  then show ?thesis using later_pump later_trans unfolding queued(7) by blast
qed (simp_all add: later_def nth_append)

lemma ledger_later:
  assumes "ledger_ok K cfg args fin tr st" and "later st st'" and "\<And>h. h < length (sc_heap st) \<Longrightarrow> args' h = args h"
  shows "ledger_ok K cfg args' fin tr st'"
proof -
  note l = assms(1) [unfolded ledger_ok_def] and m = assms(2) [unfolded later_def]
  have "h < length (sc_heap st') \<and> args' h = \<lparr>sa_g2 = g2, sa_plan = plan, sa_section = section, sa_n = n, sa_scalars = scalars\<rparr>"
    if "Dispatched g2 plan section n scalars (Inr h) \<in> set tr" for g2 plan "section" n scalars h
  proof -
    have "h < length (sc_heap st)" "args h = \<lparr>sa_g2 = g2, sa_plan = plan, sa_section = section, sa_n = n, sa_scalars = scalars\<rparr>"
      using l that by blast+
    then show ?thesis using m assms(3) by simp
  qed
  moreover have "h < length (sc_heap st') \<and> cs_collected (sh_state (sc_heap st' ! h)) \<and> h \<notin> sc_collecting st' \<and>
      (case r of Inl e \<Rightarrow> sc_terminal st' = Some e | Inr g \<Rightarrow> good_result K cfg (args' h) g)" if "Collected h r \<in> set tr" for h r
  proof -
    have "h < length (sc_heap st) \<and> cs_collected (sh_state (sc_heap st ! h)) \<and> h \<notin> sc_collecting st \<and>
      (case r of Inl e \<Rightarrow> sc_terminal st = Some e | Inr g \<Rightarrow> good_result K cfg (args h) g)" using l that by blast
    then show ?thesis using m assms(3) by (auto split: sum.splits)
  qed
  moreover have "h < length (sc_heap st') \<and> cs_collected (sh_state (sc_heap st' ! h)) \<and> h \<notin> fin" if "h \<in> sc_collecting st'" for h
  proof -
    have "h \<in> sc_collecting st" using m that by simp
    then have "h < length (sc_heap st) \<and> cs_collected (sh_state (sc_heap st ! h)) \<and> h \<notin> fin" using l by blast
    then show ?thesis using m by auto
  qed
  moreover have "h < length (sc_heap st')" if "h \<in> fin" for h
  proof -
    have "h < length (sc_heap st)" using l that by blast
    then show ?thesis using m by simp
  qed
  moreover have "length (filter (\<lambda>ev. \<exists>r. ev = Collected h r) tr) \<le> 1" for h using l by blast
  ultimately show ?thesis unfolding ledger_ok_def by (intro conjI allI ballI impI) blast+
qed

lemma ledger_event:
  assumes "ledger_ok K cfg args fin tr st" and "\<And>g2 plan section n scalars h. ev = Dispatched g2 plan section n scalars (Inr h) \<Longrightarrow>
      h < length (sc_heap st) \<and> args h = \<lparr>sa_g2 = g2, sa_plan = plan, sa_section = section, sa_n = n, sa_scalars = scalars\<rparr>"
    and "\<And>h r. ev \<noteq> Collected h r"
  shows "ledger_ok K cfg args fin (ev # tr) st"
proof -
  have "Collected h r \<in> set (ev # tr) \<longleftrightarrow> Collected h r \<in> set tr" for h r using assms(3) [of h r] by auto
  moreover have "filter (\<lambda>ev. \<exists>r. ev = Collected h r) (ev # tr) = filter (\<lambda>ev. \<exists>r. ev = Collected h r) tr" for h
    using assms(3) by auto
  moreover have "h < length (sc_heap st) \<and> args h = \<lparr>sa_g2 = g2, sa_plan = plan, sa_section = section, sa_n = n, sa_scalars = scalars\<rparr>"
    if "Dispatched g2 plan section n scalars (Inr h) \<in> set (ev # tr)" for g2 plan "section" n scalars h
  proof (cases "ev = Dispatched g2 plan section n scalars (Inr h)")
    case True
    then show ?thesis by (rule assms(2))
  next
    case False
    then have "Dispatched g2 plan section n scalars (Inr h) \<in> set tr" using that by auto
    then show ?thesis using assms(1) unfolding ledger_ok_def by blast
  qed
  ultimately show ?thesis using assms(1) unfolding ledger_ok_def by presburger
qed

lemma collect_start_ledger:
  assumes "ledger_ok K cfg args fin tr st" and "accounts_ok K cfg args fin todo st" and "h < length (sc_heap st)" and "collectStart g2 h st = (r, st')"
  shows "ledger_ok K cfg args fin tr st'"
proof (cases r)
  case (Some e)
  then show ?thesis using assms(1,4) by (auto simp: collectStart_def split: if_splits sum.splits)
next
  case None
  note l = assms(1) [unfolded ledger_ok_def]
  have st': "st' = (update_handle h (\<lambda>x. x\<lparr>sh_state := sh_state (sc_heap st ! h)\<lparr>cs_collected := True\<rparr>\<rparr>) st)
      \<lparr>sc_collecting := insert h (sc_collecting st)\<rparr>" and n: "\<not> cs_collected (sh_state (sc_heap st ! h))"
    using assms(4) None by (auto simp: collectStart_def collect_begin_def split: if_splits sum.splits)
  have e: "length (sc_heap st') = length (sc_heap st)" "sc_terminal st' = sc_terminal st" "sc_collecting st' = insert h (sc_collecting st)"
    by (simp_all add: st')
  have c: "cs_collected (sh_state (sc_heap st' ! k)) \<longleftrightarrow> k = h \<or> cs_collected (sh_state (sc_heap st ! k))" if "k < length (sc_heap st)" for k
    using that by (cases "k = h") (simp_all add: st')
  have nf: "h \<notin> fin" using assms(2,3) n by (auto simp: accounts_ok_def handle_ok_def)
  have "k < length (sc_heap st') \<and> cs_collected (sh_state (sc_heap st' ! k)) \<and> k \<notin> sc_collecting st' \<and>
      (case v of Inl e \<Rightarrow> sc_terminal st' = Some e | Inr g \<Rightarrow> good_result K cfg (args k) g)" if "Collected k v \<in> set tr" for k v
  proof -
    have o: "k < length (sc_heap st) \<and> cs_collected (sh_state (sc_heap st ! k)) \<and> k \<notin> sc_collecting st \<and>
        (case v of Inl e \<Rightarrow> sc_terminal st = Some e | Inr g \<Rightarrow> good_result K cfg (args k) g)" using l that by blast
    then have "k \<noteq> h" using n by auto
    then show ?thesis using o c by (cases v) (simp_all add: e)
  qed
  moreover have "k < length (sc_heap st') \<and> cs_collected (sh_state (sc_heap st' ! k)) \<and> k \<notin> fin" if "k \<in> sc_collecting st'" for k
  proof (cases "k = h")
    case True
    then show ?thesis using c nf assms(3) by (simp add: e)
  next
    case False
    then have "k < length (sc_heap st) \<and> cs_collected (sh_state (sc_heap st ! k)) \<and> k \<notin> fin" using that l by (auto simp: e)
    then show ?thesis using c by (simp add: e)
  qed
  ultimately show ?thesis using l unfolding ledger_ok_def e(1,2) by (intro conjI allI ballI impI) blast+
qed

lemma collect_finish_ledger:
  assumes "ledger_ok K cfg args fin tr st" and "accounts_ok K cfg args fin todo st" and "h \<in> sc_collecting st" and "collectFinish h st = Some (r, st')"
  shows "\<exists>fin'. accounts_ok K cfg args fin' todo st' \<and> ledger_ok K cfg args fin' (Collected h r # tr) st'"
proof -
  note l = assms(1) [unfolded ledger_ok_def]
  have h: "h < length (sc_heap st)" "cs_collected (sh_state (sc_heap st ! h))" "h \<notin> fin" using l assms(3) by blast+
  have fresh: "Collected h v \<notin> set tr" for v using l assms(3) by blast
  have e: "length (sc_heap st') = length (sc_heap st)" "sc_terminal st' = sc_terminal st" "sc_collecting st' = sc_collecting st - {h}"
      "k < length (sc_heap st) \<Longrightarrow> sh_state (sc_heap st' ! k) = sh_state (sc_heap st ! k)" for k
    using assms(4) by (cases "k = h"; auto simp: collectFinish_def split: option.splits)+
  define fin' where "fin' = (case r of Inl _ \<Rightarrow> fin | Inr _ \<Rightarrow> insert h fin)"
  have acc: "accounts_ok K cfg args fin' todo st' \<and> (case r of Inl e \<Rightarrow> sc_terminal st = Some e | Inr g \<Rightarrow> good_result K cfg (args h) g)"
  proof (cases r)
    case (Inl x)
    then have s: "cs_err (sh_state (sc_heap st ! h)) = Some x" "st' = st\<lparr>sc_collecting := sc_collecting st - {h}\<rparr>"
      using assms(4) by (auto simp: collectFinish_def collect_end_def split: option.splits if_splits)
    have c: "completing st' = completing st" by (simp add: fun_eq_iff completing_def s)
    have "states_ok st todo" using assms(2) by (simp add: accounts_ok_def)
    then have "sc_terminal st = Some x" using h(1) s(1) by (auto simp: states_ok_def Let_def split: option.splits)
    moreover have "accounts_ok K cfg args fin todo st'"
      using assms(2) by (cases "sc_terminal st") (simp_all add: accounts_ok_def states_ok_def Let_def c [unfolded s(2)] s(2))
    ultimately show ?thesis by (simp add: fin'_def Inl)
  next
    case (Inr g)
    then show ?thesis using collect_finish_accounts [OF assms(2) h] assms(4) by (simp add: fin'_def)
  qed
  have "k < length (sc_heap st') \<and> cs_collected (sh_state (sc_heap st' ! k)) \<and> k \<notin> sc_collecting st' \<and>
      (case v of Inl e \<Rightarrow> sc_terminal st' = Some e | Inr g \<Rightarrow> good_result K cfg (args k) g)" if m: "Collected k v \<in> set (Collected h r # tr)" for k v
  proof (cases "k = h")
    case True
    then have "v = r" using m fresh by auto
    then show ?thesis using True acc h e(4) by (cases r) (simp_all add: e(1-3))
  next
    case False
    then have "Collected k v \<in> set tr" using m by simp
    then have "k < length (sc_heap st) \<and> cs_collected (sh_state (sc_heap st ! k)) \<and> k \<notin> sc_collecting st \<and>
        (case v of Inl e \<Rightarrow> sc_terminal st = Some e | Inr g \<Rightarrow> good_result K cfg (args k) g)" using l by blast
    then show ?thesis using e(4) by (cases v) (simp_all add: e(1-3))
  qed
  moreover have "length (filter (\<lambda>ev. \<exists>v. ev = Collected k v) (Collected h r # tr)) \<le> 1" for k
  proof (cases "k = h")
    case True
    have "filter (\<lambda>ev. \<exists>v. ev = Collected h v) tr = []" using fresh by (auto simp: filter_empty_conv)
    then show ?thesis by (simp add: True)
  next
    case False
    then show ?thesis using l by simp
  qed
  moreover have "k < length (sc_heap st') \<and> cs_collected (sh_state (sc_heap st' ! k)) \<and> k \<notin> fin'" if "k \<in> sc_collecting st'" for k
  proof -
    have k: "k \<in> sc_collecting st" "k \<noteq> h" using that by (simp_all add: e)
    then have "k < length (sc_heap st) \<and> cs_collected (sh_state (sc_heap st ! k)) \<and> k \<notin> fin" using l by blast
    then show ?thesis using k(2) e(4) by (auto simp: e(1) fin'_def split: sum.splits)
  qed
  moreover have "k < length (sc_heap st')" if "k \<in> fin'" for k
    using that l h(1) by (auto simp: e(1) fin'_def split: sum.splits)
  moreover have "k < length (sc_heap st') \<and> args k = \<lparr>sa_g2 = g2, sa_plan = plan, sa_section = section, sa_n = n, sa_scalars = scalars\<rparr>"
    if "Dispatched g2 plan section n scalars (Inr k) \<in> set (Collected h r # tr)" for g2 plan "section" n scalars k
    using that l by (auto simp: e(1))
  ultimately have "ledger_ok K cfg args fin' (Collected h r # tr) st'" unfolding ledger_ok_def by (intro conjI allI ballI impI) blast+
  then show ?thesis using acc by blast
qed

lemma run_accounts:
  assumes "sched_run K dcd cfg workers tr st" and "config_ok cfg workers"
  shows "\<exists>args fin todo. accounts_ok K cfg args fin todo st \<and> ledger_ok K cfg args fin tr st"
  using assms(1)
proof (induction rule: sched_run.induct)
  case start
  have "sum_list (replicate n {#}) = ({#} :: shard_task multiset)" for n by (induction n) simp_all
  then have "accounts_ok K cfg args {} todo (newScheduler workers)" for args todo
    by (auto simp: accounts_ok_def newScheduler_def open_tasks_def states_ok_def)
  moreover have "ledger_ok K cfg args {} [] (newScheduler workers)" for args by (simp add: ledger_ok_def newScheduler_def)
  ultimately show ?case by blast
next
  case (step tr st ev st')
  then obtain args fin todo where a: "accounts_ok K cfg args fin todo st" "ledger_ok K cfg args fin tr st" by blast
  have shape: "shape_ok cfg workers st" by (rule run_shape [OF step(1) assms(2)])
  have fin: "\<forall>h \<in> fin. h < length (sc_heap st)" using a(2) by (simp add: ledger_ok_def)
  show ?case using step(2)
  proof (cases rule: engine_step.cases)
    case (dispatch g2 plan "section" n scalars r)
    obtain args' todo' where d: "accounts_ok K cfg args' fin todo' st'" "\<forall>h < length (sc_heap st). args' h = args h"
        "\<forall>h. r = Inr h \<longrightarrow> h = length (sc_heap st) \<and> length (sc_heap st') = Suc h \<and>
          args' h = \<lparr>sa_g2 = g2, sa_plan = plan, sa_section = section, sa_n = n, sa_scalars = scalars\<rparr>"
      using dispatch_accounts [OF a(1) assms(2) shape dispatch(2) fin] by blast
    have "ledger_ok K cfg args' fin tr st'" by (rule ledger_later [OF a(2) later_dispatch [OF dispatch(2)]]) (use d(2) in simp)
    then have "ledger_ok K cfg args' fin (ev # tr) st'" unfolding dispatch(1) by (rule ledger_event) (use d(3) in auto)
    then show ?thesis using d(1) by blast
  next
    case (worker slot task ph)
    have "slot < workers" using shape worker(2) by (simp add: shape_ok_def slots_ok_def)
    then obtain todo' where "accounts_ok K cfg args fin todo' st'" using thread_accounts [OF worker(4) a(1) shape _ worker(3)] by blast
    moreover have "ledger_ok K cfg args fin (ev # tr) st'" unfolding worker(1)
      by (rule ledger_event [OF ledger_later [OF a(2) later_thread [OF worker(4)]]]) simp_all
    ultimately show ?thesis by blast
  next
    case (collect_start h g2 r)
    have "ledger_ok K cfg args fin (ev # tr) st'" unfolding collect_start(1)
      by (rule ledger_event [OF collect_start_ledger [OF a(2,1) collect_start(2,3)]]) simp_all
    then show ?thesis using collect_start_accounts [OF a(1) collect_start(2,3)] by blast
  next
    case (collect_finish h r)
    then show ?thesis using collect_finish_ledger [OF a(2,1) collect_finish(2,3)] by blast
  next
    case (cancel cause)
    have "ledger_ok K cfg args fin (ev # tr) st'" unfolding cancel CancelOutstanding_def
      by (rule ledger_event [OF ledger_later [OF a(2) later_fail]]) simp_all
    then show ?thesis using fail_accounts [OF a(1)] unfolding cancel(2) CancelOutstanding_def by blast
  qed
qed

section \<open>Progress\<close>

text \<open>The work that is left: a weight for each queued task and each goroutine.\<close>

fun phase_weight :: "phase \<Rightarrow> nat" where
  "phase_weight InWorker = 8"
| "phase_weight Stored = 4"
| "phase_weight (Counted _ _) = 3"
| "phase_weight Releasing = 2"
| "phase_weight (Failing _) = 1"
| "phase_weight (Retrying _ _) = 7"
| "phase_weight (Replacing _) = 6"
| "phase_weight (Again _) = 5"
| "phase_weight Backoff = 9"

definition thread_weight :: "(shard_task \<times> phase) option \<Rightarrow> nat" where
  "thread_weight th = (case th of None \<Rightarrow> 0 | Some (t, ph) \<Rightarrow> 20 * (asyncShardMaxAttempts - tk_attempt t) + phase_weight ph)"

definition sched_weight :: "('p, 'f, 'g) scheduler \<Rightarrow> nat" where
  "sched_weight st = 50 * length (sc_queue st) + sum_list (map thread_weight (sc_threads st))"

lemma weight_set_thread:
  assumes "slot < length (sc_threads st)"
  shows "sched_weight (set_thread slot th st) + thread_weight (sc_threads st ! slot) = sched_weight st + thread_weight th"
  using sum_list_swap [OF assms, of thread_weight th] by (simp add: sched_weight_def set_thread_def)

lemma weight_moves:
  assumes "slot < length (sc_threads st)" and "sc_threads st ! slot = Some (t, ph)" and "thread_weight th < thread_weight (Some (t, ph))"
  shows "sched_weight (set_thread slot th st) < sched_weight st"
  using weight_set_thread [OF assms(1), of th] assms(2,3) by simp

lemma weight_handle [simp]:
  "sched_weight (update_handle h f st) = sched_weight st" "sched_weight (st\<lparr>sc_nextRequestID := k\<rparr>) = sched_weight st"
  by (simp_all add: sched_weight_def update_handle_def)

lemma weight_pump_slot:
  assumes "slots_ok workers st" and "tasks_ok w workers st" and "sc_terminal st = None" and "slot < workers"
  shows "sched_weight (pump_slot w st slot) \<le> sched_weight st"
proof (cases rule: pump_slot_cases [of w st slot])
  case (starts as t bs)
  have l: "slot < length (sc_threads st)" using assms(1,4) by (simp add: slots_ok_def)
  have n: "sc_threads st ! slot = None" using assms(1,3,4) starts(1) by (cases "sc_threads st ! slot") (auto simp: slots_ok_def)
  have "tk_attempt t = 1" using assms(2) starts(2) by (simp add: tasks_ok_def)
  then show ?thesis
    using sum_list_swap [OF l, of thread_weight "Some (t, InWorker)"] n
    by (simp add: starts(4) sched_weight_def starts(2) thread_weight_def asyncShardMaxAttempts_def)
qed simp

lemma weight_pump:
  assumes "slots_ok workers st" and "tasks_ok w workers st" and "bounded n st"
  shows "sched_weight (pumpLocked w st) \<le> sched_weight st"
proof (cases "sc_terminal st = None")
  case True
  let ?Q = "\<lambda>s. slots_ok workers s \<and> tasks_ok w workers s \<and> bounded n s \<and> sc_terminal s = None \<and> sched_weight s \<le> sched_weight st"
  have "?Q (pumpLocked w st)"
  proof (rule pump_invariant)
    show "?Q (pump_slot w s slot)" if "slot < workers" "?Q s" for s :: "('a, 'b, 'c) scheduler" and slot
    proof -
      have "sc_terminal (pump_slot w s slot) = None" by (cases rule: pump_slot_cases [of w s slot]) (use that in simp_all)
      moreover have "sched_weight (pump_slot w s slot) \<le> sched_weight st"
        using weight_pump_slot [of workers s w slot] that by simp
      ultimately show ?thesis using pump_slot_shape(1-3) [of workers s w n slot] that by simp
    qed
  qed (use assms True in \<open>auto simp: slots_ok_def\<close>)
  then show ?thesis by blast
next
  case False
  then show ?thesis by (simp add: pumpLocked_def)
qed

lemma weight_fail: "sched_weight (fail_sched cause st) \<le> sched_weight st"
  by (simp add: fail_sched_def Let_def sched_weight_def)

lemma thread_step_weight:
  assumes "thread_step K dcd cfg slot task ph st st'" and "shape_ok cfg workers st" and "slot < workers" and "sc_threads st ! slot = Some (task, ph)"
  shows "sched_weight st' < sched_weight st"
proof -
  have l: "slot < length (sc_threads st)" using assms(2,3) by (simp add: shape_ok_def slots_ok_def)
  have a: "phase_attempts ph (tk_attempt task)" using assms(2-4) by (auto simp: shape_ok_def tasks_ok_def)
  note m = weight_moves [OF l assms(4)]
  show ?thesis using assms(1)
  proof (cases rule: thread_step.cases)
    case (error_reply waited e)
    have "phase_weight (after_error task e) < 8" by (simp add: after_error_def split: prod.split)
    then show ?thesis using m [of "Some (task, after_error task e)"] error_reply by (simp add: thread_weight_def)
  next
    case (again requestID e)
    have "thread_weight (Some (task\<lparr>tk_attempt := Suc (tk_attempt task), tk_requestID := requestID\<rparr>, Backoff)) < thread_weight (Some (task, ph))"
      using a again(1) by (auto simp: thread_weight_def asyncShardMaxAttempts_def)
    then show ?thesis using m again(2) by simp
  next
    case release
    have s: "slots_ok workers (freed slot st)" "tasks_ok (cf_optW7 cfg) workers (freed slot st)" "bounded (cf_shards cfg) (freed slot st)"
      by (rule freed_shape [OF assms(2,3)])+
    have "sched_weight (freed slot st) < sched_weight st"
      using m [of None] release(1) by (simp add: freed_def sched_weight_def thread_weight_def)
    then show ?thesis using weight_pump [OF s] unfolding release(2) releaseSlot_def freed_def [symmetric] by simp
  next
    case (fails e)
    have "sc_threads (fail_sched (Some e) st) = sc_threads st" by (simp add: fail_sched_def Let_def)
    then have "sched_weight (set_thread slot None (fail_sched (Some e) st)) < sched_weight (fail_sched (Some e) st)"
      using weight_moves [of slot "fail_sched (Some e) st" task ph None] l assms(4) fails(1) by (simp add: thread_weight_def)
    then show ?thesis using weight_fail [of "Some e" st] unfolding fails(2) by simp
  qed (use m in \<open>auto simp: thread_weight_def Let_def split: if_splits\<close>)
qed

lemma no_threads: "(\<And>x. Some x \<notin> set xs) \<Longrightarrow> sum_list (map slot_task xs) = {#}"
proof (induction xs)
  case (Cons a xs)
  have "a = None" using Cons.prems by (cases a) auto
  moreover have "sum_list (map slot_task xs) = {#}" by (rule Cons.IH) (use Cons.prems in auto)
  ultimately show ?case by simp
qed simp

text \<open>When no goroutine is left, nothing is left to do: each handle can be collected.\<close>

lemma idle_completed:
  assumes "accounts_ok K cfg args fin todo st" and "shape_ok cfg workers st" and "config_ok cfg workers"
    and "\<And>slot. slot < workers \<Longrightarrow> sc_threads st ! slot = None" and "h < length (sc_heap st)"
  shows "cs_completed (sh_state (sc_heap st ! h))"
proof (cases "sc_terminal st")
  case (Some e)
  then show ?thesis using assms(1,5) by (auto simp: accounts_ok_def states_ok_def Let_def)
next
  case None
  have l: "length (sc_threads st) = workers" using assms(2) by (simp add: shape_ok_def slots_ok_def)
  have nt: "Some x \<notin> set (sc_threads st)" for x using assms(4) l by (metis in_set_conv_nth option.distinct(1))
  have z: "sum_list (map slot_task (sc_threads st)) = {#}" using nt by (rule no_threads)
  have q: "sc_queue st = []"
  proof (rule ccontr)
    assume "sc_queue st \<noteq> []"
    then obtain t where t: "t \<in> set (sc_queue st)" by (cases "sc_queue st") auto
    define slot where "slot = (if cf_optW7 cfg then nat (tk_affinityWorker t) else 0)"
    have s: "slot < workers" "for_slot (cf_optW7 cfg) slot t"
      using t assms(2,3) by (auto simp: slot_def for_slot_def shape_ok_def tasks_ok_def config_ok_def)
    have "\<not> sc_busy st ! slot" using assms(2,4) s(1) None by (simp add: shape_ok_def slots_ok_def)
    then show False using assms(2) s t None by (auto simp: shape_ok_def saturated_def)
  qed
  have "todo h = {}" using assms(1,5) None z q by (auto simp: accounts_ok_def open_tasks_def)
  moreover have "\<not> completing st h" using nt by (auto simp: completing_def)
  ultimately show ?thesis using assms(1,5) None by (auto simp: accounts_ok_def states_ok_def Let_def)
qed

section \<open>Failures\<close>

text \<open>Every error that a goroutine fails with is fail-closed, and so is a cancellation with a cause.\<close>

definition failures_closed :: "('p, 'f, 'g) sched_event list \<Rightarrow> ('p, 'f, 'g) scheduler \<Rightarrow> bool" where
  "failures_closed tr st \<longleftrightarrow> (\<forall>t e. Some (t, Failing e) \<in> set (sc_threads st) \<longrightarrow> as_failClosed e) \<and>
     (\<forall>e. sc_terminal st = Some e \<longrightarrow> as_failClosed e \<or> CancelledAll None \<in> set tr)"

lemma pump_failing:
  assumes "Some (t, Failing e) \<in> set (sc_threads (pumpLocked w st))"
  shows "Some (t, Failing e) \<in> set (sc_threads st)"
proof -
  have s: "Some (t, Failing e) \<in> set (sc_threads (pump_slot w s slot)) \<Longrightarrow> Some (t, Failing e) \<in> set (sc_threads s)"
    for slot and s :: "('a, 'b, 'c) scheduler"
    by (cases rule: pump_slot_cases [of w s slot]) (use set_update_subset_insert [of "sc_threads s" slot] in auto)
  have "Some (t, Failing e) \<in> set (sc_threads (pumpLocked w st)) \<longrightarrow> Some (t, Failing e) \<in> set (sc_threads st)"
    by (rule pump_invariant [of "length (sc_busy st)" "\<lambda>s. Some (t, Failing e) \<in> set (sc_threads s) \<longrightarrow> Some (t, Failing e) \<in> set (sc_threads st)"])
      (use s in auto)
  then show "Some (t, Failing e) \<in> set (sc_threads st)" using assms by blast
qed

lemma pump_terminal: "sc_terminal (pumpLocked w st) = sc_terminal st"
proof -
  have "sc_terminal (pump_slot w s slot) = sc_terminal s" for slot and s :: "('a, 'b, 'c) scheduler"
    by (cases rule: pump_slot_cases [of w s slot]) simp_all
  then show ?thesis by (intro pump_invariant [of "length (sc_busy st)" "\<lambda>s. sc_terminal s = sc_terminal st"]) auto
qed

text \<open>No new failing goroutine and the same terminal error, or closed ones.\<close>

lemma failures_step:
  assumes "failures_closed tr st"
    and "\<And>t e. Some (t, Failing e) \<in> set (sc_threads st') \<Longrightarrow> Some (t, Failing e) \<in> set (sc_threads st) \<or> as_failClosed e"
    and "\<And>e. sc_terminal st' = Some e \<Longrightarrow> sc_terminal st = Some e \<or> as_failClosed e \<or> ev = CancelledAll None"
  shows "failures_closed (ev # tr) st'"
  using assms unfolding failures_closed_def by (metis list.set_intros(1,2))

lemma after_error_failing: "after_error task e = Failing e' \<Longrightarrow> e' = e"
  by (auto simp: after_error_def split: if_splits prod.splits)

lemma thread_failing:
  assumes "thread_step K dcd cfg slot task ph st st'" and "Some (t, Failing e) \<in> set (sc_threads st')"
  shows "Some (t, Failing e) \<in> set (sc_threads st) \<or> as_failClosed e"
proof -
  have upd: "Some (t, Failing e) \<in> set (sc_threads st) \<or> th = Some (t, Failing e)"
    if "Some (t, Failing e) \<in> set (sc_threads (set_thread slot th s))" "sc_threads s = sc_threads st" for th and s :: "('a, 'b, 'c) scheduler"
    using that set_update_subset_insert [of "sc_threads st" slot th] by (auto simp: set_thread_def)
  show ?thesis using assms(1)
  proof (cases rule: thread_step.cases)
    case (error_reply waited e')
    consider "Some (t, Failing e) \<in> set (sc_threads st)" | "after_error task e' = Failing e"
      using assms(2) upd [of "Some (task, after_error task e')" st] error_reply(2) by auto
    then show ?thesis
    proof cases
      case 2
      then show ?thesis using after_error_failing [OF 2] section_reply_error [OF error_reply(3)] by simp
    qed simp
  next
    case (bad_partial waited b e0 e')
    then show ?thesis using assms(2) upd [of "Some (task, Failing e')" st] classified_fail_closed(4) by auto
  next
    case release
    have "Some (t, Failing e) \<in> set (sc_threads (freed slot st))"
      using assms(2) pump_failing unfolding release(2) releaseSlot_def freed_def [symmetric] by blast
    then show ?thesis using upd [of None st] by (simp add: freed_def)
  next
    case (fails e0)
    have "sc_threads (fail_sched (Some e0) st) = sc_threads st" by (simp add: fail_sched_def Let_def)
    then show ?thesis using assms(2) upd [of None "fail_sched (Some e0) st"] unfolding fails(2) by auto
  qed (use assms(2) in \<open>auto simp: Let_def dest!: upd split: if_splits\<close>)
qed

lemma thread_terminal:
  assumes "thread_step K dcd cfg slot task ph st st'" and "sc_terminal st' = Some e"
  shows "sc_terminal st = Some e \<or> ph = Failing e"
  using assms
  by (cases rule: thread_step.cases)
    (auto simp: releaseSlot_def pump_terminal fail_sched_def Let_def split: if_splits)

lemma run_failures: "sched_run K dcd cfg workers tr st \<Longrightarrow> failures_closed tr st"
proof (induction rule: sched_run.induct)
  case start
  then show ?case by (auto simp: failures_closed_def newScheduler_def)
next
  case (step tr st ev st')
  note IH = step.IH
  show ?case using step(2)
  proof (cases rule: engine_step.cases)
    case (dispatch g2 plan "section" n scalars r)
    have "(Some (t, Failing e) \<in> set (sc_threads st') \<longrightarrow> Some (t, Failing e) \<in> set (sc_threads st)) \<and> sc_terminal st' = sc_terminal st" for t e
      using dispatch(2)
    proof (cases rule: dispatch_cases)
      case (queued ranges)
      have "sc_threads (enqueue cfg g2 plan section n scalars ranges st) = sc_threads st"
          "sc_terminal (enqueue cfg g2 plan section n scalars ranges st) = sc_terminal st" by (simp_all add: enqueue_def)
      then show ?thesis using pump_failing [of t e "cf_optW7 cfg"] unfolding queued(7) pump_terminal by metis
    qed simp_all
    then show ?thesis using failures_step [OF IH] by metis
  next
    case (worker slot task ph)
    have m: "Some (task, ph) \<in> set (sc_threads st)" using worker(2,3) by (metis nth_mem)
    show ?thesis
      by (rule failures_step [OF IH thread_failing [OF worker(4)]])
        (use thread_terminal [OF worker(4)] m IH in \<open>auto simp: failures_closed_def\<close>)
  next
    case (collect_start h g2 r)
    then have "sc_threads st' = sc_threads st" "sc_terminal st' = sc_terminal st"
      by (auto simp: collectStart_def split: if_splits sum.splits)
    then show ?thesis using failures_step [OF IH] by metis
  next
    case (collect_finish h r)
    then have "sc_threads st' = sc_threads st" "sc_terminal st' = sc_terminal st"
      by (auto simp: collectFinish_def split: option.splits)
    then show ?thesis using failures_step [OF IH] by metis
  next
    case (cancel cause)
    show ?thesis
      by (rule failures_step [OF IH])
        (cases cause; auto simp: cancel CancelOutstanding_def fail_sched_def failClosed_def Let_def split: if_splits)+
  qed
qed

text \<open>
  Without a cause a cancellation is not fail-closed: \<^verbatim>\<open>failClosed\<close> of no error is no error, and the error that
  stands in for it is a plain one.
\<close>

lemma cancel_without_cause:
  assumes "sc_terminal st = None"
  shows "sc_terminal (CancelOutstanding None st) = Some (MErr ''asynchronous section MSM failed'')"
    and "\<not> as_failClosed (MErr ''asynchronous section MSM failed'')"
  using assms by (simp_all add: CancelOutstanding_def failClosed_def fail_sched_def Let_def)

section \<open>The result of a section\<close>

lemma combine_sum: "combine vs = sum_list vs"
proof -
  have "foldl (+) a vs = a + sum_list vs" for a :: "'a::comm_monoid_add" by (induction vs arbitrary: a) (simp_all add: add.assoc)
  then show ?thesis by (simp add: combine_def)
qed

lemma good_result_msm:
  assumes "\<And>lo hi v. K (sa_plan a) (sa_g2 a) (sa_section a) (lo, hi) (go_slice lo hi (sa_scalars a)) v \<Longrightarrow>
      v = msm smul (go_slice lo hi pts) (go_slice lo hi (sa_scalars a))"
    and "length pts = length (sa_scalars a)" and "sa_n a = int (length pts)" and "good_result K cfg a g"
  shows "g = msm smul pts (sa_scalars a)"
proof -
  obtain vs where v: "list_all2 (shard_ok K a) (shard_ranges cfg a) vs" "g = combine vs" using assms(4) by (auto simp: good_result_def)
  have "vs = map (\<lambda>(lo, hi). msm smul (go_slice lo hi pts) (go_slice lo hi (sa_scalars a))) (shard_ranges cfg a)"
    using v(1) assms(1) by (induction rule: list_all2_induct) (auto simp: shard_ok_def)
  then have "g = (\<Sum>(lo, hi) \<leftarrow> shard_ranges cfg a. msm smul (go_slice lo hi pts) (go_slice lo hi (sa_scalars a)))"
    by (simp add: v(2) combine_sum)
  then show ?thesis using msm_partitionRanges(2) [OF assms(2), of smul "cf_shards cfg"] by (simp add: shard_ranges_def assms(3))
qed

section \<open>No deadlock\<close>

text \<open>After a failure no slot is busy.\<close>

lemma pump_slot_stopped: "sc_terminal st \<noteq> None \<Longrightarrow> pumpLocked w st = st"
  by (simp add: pumpLocked_def)

definition stopped :: "('p, 'f, 'g) scheduler \<Rightarrow> bool" where
  "stopped st \<longleftrightarrow> (sc_terminal st \<noteq> None \<longrightarrow> set (sc_busy st) \<subseteq> {False})"

lemma stopped_simps [simp]:
  "stopped (set_thread slot th st) = stopped st" "stopped (update_handle h f st) = stopped st"
  "stopped (st\<lparr>sc_nextRequestID := k\<rparr>) = stopped st" "stopped (st\<lparr>sc_collecting := c\<rparr>) = stopped st"
  "stopped (st\<lparr>sc_open := opened\<rparr>) = stopped st"
  by (simp_all add: stopped_def set_thread_def update_handle_def)

lemma fail_stopped: "stopped st \<Longrightarrow> stopped (fail_sched cause st)"
  by (auto simp: stopped_def fail_sched_def Let_def)

lemma pump_stopped: "stopped st \<Longrightarrow> stopped (pumpLocked w st)"
  by (cases "sc_terminal st") (simp_all add: stopped_def pump_terminal pump_slot_stopped)

lemma thread_stopped:
  assumes "thread_step K dcd cfg slot task ph st st'" and "stopped st"
  shows "stopped st'"
  using assms(1)
proof (cases rule: thread_step.cases)
  case release
  have "stopped (set_thread slot None st\<lparr>sc_busy := (sc_busy st)[slot := False]\<rparr>)"
    using assms(2) set_update_subset_insert [of "sc_busy st" slot False] by (auto simp: stopped_def set_thread_def)
  then show ?thesis unfolding release releaseSlot_def by (rule pump_stopped)
qed (use assms(2) in \<open>auto simp: Let_def fail_stopped\<close>)

lemma run_stopped: "sched_run K dcd cfg workers tr st \<Longrightarrow> stopped st"
proof (induction rule: sched_run.induct)
  case start
  then show ?case by (simp add: stopped_def newScheduler_def)
next
  case (step tr st ev st')
  note IH = step.IH
  show ?case using step(2)
  proof (cases rule: engine_step.cases)
    case (dispatch g2 plan "section" n scalars r)
    show ?thesis using dispatch(2)
    proof (cases rule: dispatch_cases)
      case (queued ranges)
      have "stopped (enqueue cfg g2 plan section n scalars ranges st)" using IH by (simp add: stopped_def enqueue_def)
      then show ?thesis unfolding queued(7) by (rule pump_stopped)
    qed (use IH in \<open>simp_all add: stopped_def\<close>)
  next
    case (worker slot task ph)
    then show ?thesis using thread_stopped IH by blast
  next
    case (collect_start h g2 r)
    then show ?thesis using IH by (auto simp: collectStart_def split: if_splits sum.splits)
  next
    case (collect_finish h r)
    then show ?thesis using IH by (auto simp: collectFinish_def split: option.splits)
  next
    case (cancel cause)
    then show ?thesis using IH by (simp add: CancelOutstanding_def fail_stopped)
  qed
qed

lemma stopped_idle:
  assumes "sched_run K dcd cfg workers tr st"
  shows "sc_terminal st \<noteq> None \<Longrightarrow> slot < length (sc_busy st) \<Longrightarrow> \<not> sc_busy st ! slot"
  using run_stopped [OF assms] nth_mem [of slot "sc_busy st"] unfolding stopped_def by (metis insertE emptyE subsetD)

text \<open>Whatever a goroutine does next, it can do; in a worker, for every end of its wait.\<close>

lemma thread_can_step: "\<exists>st'. thread_step K dcd cfg slot task ph st st'"
proof (cases ph)
  case (Retrying e rep)
  show ?thesis
  proof (cases "sc_terminal st = None")
    case True
    from retry [OF this] show ?thesis unfolding Retrying ..
  next
    case False
    from retry_stops [OF this] show ?thesis unfolding Retrying ..
  qed
next
  case (Again e)
  show ?thesis
  proof (cases "sc_terminal st = None")
    case True
    from again [OF this refl] show ?thesis unfolding Again ..
  next
    case False
    from again_stops [OF this] show ?thesis unfolding Again ..
  qed
qed (rule exI, hypsubst, rule no_worker count report release fails replaced backoff_over)+

definition reply_steps :: "('p, 'f, 'g::comm_monoid_add) kernel \<Rightarrow> (bytes \<Rightarrow> 'g option) \<Rightarrow> sched_config \<Rightarrow>
    ('p, 'f, 'g) scheduler \<Rightarrow> nat \<Rightarrow> shard_task \<Rightarrow> bool" where
  "reply_steps K dcd cfg st slot t \<longleftrightarrow>
     (\<forall>waited. case section_reply (tk_requestID t) (cf_optW7 cfg) waited of
        Inl e \<Rightarrow> engine_step K dcd cfg st (Worker slot) (set_thread slot (Some (t, after_error t e)) st)
      | Inr b \<Rightarrow>
          (case dcd b of
             None \<Rightarrow> (\<exists>e. as_failClosed e \<and> engine_step K dcd cfg st (Worker slot) (set_thread slot (Some (t, Failing e)) st))
           | Some v \<Rightarrow> request_ok K (sc_heap st ! tk_handle t) (tk_range t) v \<longrightarrow>
               engine_step K dcd cfg st (Worker slot)
                 (set_thread slot (Some (t, Stored)) (update_handle (tk_handle t) (store_part (tk_index t) v) st))))"

lemma wait_ends:
  assumes "slot < length (sc_threads st)" and "sc_threads st ! slot = Some (t, InWorker)"
  shows "reply_steps K dcd cfg st slot t"
  unfolding reply_steps_def
proof
  fix waited
  note w = engine_step.worker [OF assms]
  have p: "workerPartialIntegrityError (Some (MErr [])) = Some (FailClosedError ''worker-partial-invalid'' (MErr []))"
    by (simp add: workerPartialIntegrityError_def)
  show "case section_reply (tk_requestID t) (cf_optW7 cfg) waited of
        Inl e \<Rightarrow> engine_step K dcd cfg st (Worker slot) (set_thread slot (Some (t, after_error t e)) st)
      | Inr b \<Rightarrow>
          (case dcd b of
             None \<Rightarrow> (\<exists>e. as_failClosed e \<and> engine_step K dcd cfg st (Worker slot) (set_thread slot (Some (t, Failing e)) st))
           | Some v \<Rightarrow> request_ok K (sc_heap st ! tk_handle t) (tk_range t) v \<longrightarrow>
               engine_step K dcd cfg st (Worker slot)
                 (set_thread slot (Some (t, Stored)) (update_handle (tk_handle t) (store_part (tk_index t) v) st)))"
  proof (cases "section_reply (tk_requestID t) (cf_optW7 cfg) waited")
    case (Inl e)
    then show ?thesis using w [OF error_reply [of t cfg waited e, OF Inl]] by simp
  next
    case (Inr b)
    show ?thesis
    proof (cases "dcd b")
      case None
      then show ?thesis using w [OF bad_partial [of t cfg waited b dcd, OF Inr None p]] classified_fail_closed(4) [OF p] Inr None
        by (simp add: exI [of _ "FailClosedError ''worker-partial-invalid'' (MErr [])"])
    next
      case (Some v)
      then show ?thesis using w [OF good_partial [of t cfg waited b dcd v K st, OF Inr Some]] Inr by simp
    qed
  qed
qed

text \<open>Goroutines alone, with no new call of the prover.\<close>

inductive goroutine_steps :: "('p, 'f, 'g::comm_monoid_add) kernel \<Rightarrow> (bytes \<Rightarrow> 'g option) \<Rightarrow> sched_config \<Rightarrow>
    ('p, 'f, 'g) scheduler \<Rightarrow> nat list \<Rightarrow> ('p, 'f, 'g) scheduler \<Rightarrow> bool"
  for K dcd cfg where
  no_steps: "goroutine_steps K dcd cfg st [] st"
| more_steps: "engine_step K dcd cfg st (Worker slot) st' \<Longrightarrow> goroutine_steps K dcd cfg st' slots st'' \<Longrightarrow>
    goroutine_steps K dcd cfg st (slot # slots) st''"

lemma worker_step_weight:
  assumes "sched_run K dcd cfg workers tr st" and "config_ok cfg workers" and "engine_step K dcd cfg st (Worker slot) st'"
  shows "sched_weight st' < sched_weight st"
  using assms(3)
proof (cases rule: engine_step.cases)
  case (worker task ph)
  have s: "shape_ok cfg workers st" by (rule run_shape [OF assms(1,2)])
  show ?thesis using thread_step_weight [OF worker(3) s _ worker(2)] worker(1) s by (simp add: shape_ok_def slots_ok_def)
qed

lemma goroutine_weight:
  "goroutine_steps K dcd cfg st slots st' \<Longrightarrow> sched_run K dcd cfg workers tr st \<Longrightarrow> config_ok cfg workers \<Longrightarrow>
   length slots + sched_weight st' \<le> sched_weight st"
proof (induction arbitrary: tr rule: goroutine_steps.induct)
  case (more_steps st slot st' slots st'')
  have "sched_weight st' < sched_weight st" by (rule worker_step_weight [OF more_steps.prems more_steps.hyps(1)])
  moreover have "length slots + sched_weight st'' \<le> sched_weight st'"
    by (rule more_steps.IH [OF sched_run.step [OF more_steps.prems(1) more_steps.hyps(1)] more_steps.prems(2)])
  ultimately show ?case by simp
qed simp

lemma goroutines_end:
  assumes "sched_run K dcd cfg workers tr st" and "config_ok cfg workers"
  shows "\<exists>slots st'. goroutine_steps K dcd cfg st slots st' \<and> (\<forall>slot < workers. sc_threads st' ! slot = None)"
  using assms(1)
proof (induction "sched_weight st" arbitrary: st tr rule: less_induct)
  case less
  have s: "shape_ok cfg workers st" by (rule run_shape [OF less.prems assms(2)])
  show ?case
  proof (cases "\<forall>slot < workers. sc_threads st ! slot = None")
    case True
    then show ?thesis using no_steps by blast
  next
    case False
    then obtain slot t ph where l: "slot < length (sc_threads st)" "sc_threads st ! slot = Some (t, ph)"
      using s by (auto simp: shape_ok_def slots_ok_def)
    then obtain st' where e: "engine_step K dcd cfg st (Worker slot) st'"
      using engine_step.worker [OF l] thread_can_step [of K dcd cfg slot t ph st] by blast
    show ?thesis
      using less.hyps [OF worker_step_weight [OF less.prems assms(2) e] sched_run.step [OF less.prems e]] more_steps [OF e] by blast
  qed
qed

end
