(* ===== verification/MsmProperties.thy ===== *)
theory MsmProperties
  imports MsmAccounts
begin

text \<open>
  The properties of the asynchronous engine and of the fallback, with a complete run of one section on one worker on
  which they are evaluated.
\<close>

section \<open>A run\<close>

definition sample_cfg :: sched_config where
  "sample_cfg = \<lparr>cf_W = 32, cf_shards = 1, cf_optW7 = True\<rparr>"

definition sample_points :: "nat list" where "sample_points = [10, 20]"

definition sample_kernel :: "(unit, nat, nat) kernel" where
  "sample_kernel plan g2 section r ss v \<longleftrightarrow> v = msm (*) (go_slice (fst r) (snd r) sample_points) ss"

definition sample_dcd :: "bytes \<Rightarrow> nat option" where "sample_dcd b = Some (be_val b)"

definition sample_task :: shard_task where
  "sample_task = \<lparr>tk_handle = 0, tk_index = 0, tk_range = (0, 2), tk_requestID = 1, tk_affinityWorker = 0, tk_attempt = 1\<rparr>"

definition sample_handle :: "collectionState \<Rightarrow> int \<Rightarrow> nat \<Rightarrow> (int \<times> int) list \<Rightarrow> (unit, nat, nat) section_handle" where
  "sample_handle s pending v prog = \<lparr>sh_state = s, sh_g2 = False, sh_plan = Some (), sh_section = ''A'', sh_n = 2, sh_scalars = [3, 4],
     sh_ranges = [(0, 2)], sh_pending = pending, sh_doneScalars = 2 * (1 - pending), sh_parts = [v], sh_prog = prog\<rparr>"

definition sample_sched :: "bool \<Rightarrow> (shard_task \<times> phase) option \<Rightarrow> (unit, nat, nat) section_handle \<Rightarrow> nat set \<Rightarrow> (unit, nat, nat) scheduler" where
  "sample_sched busy th x collecting = \<lparr>sc_queue = [], sc_busy = [busy], sc_threads = [th], sc_heap = [x],
     sc_open = {0}, sc_terminal = None, sc_nextRequestID = 1, sc_collecting = collecting\<rparr>"

lemmas sample_defs = sample_cfg_def sample_task_def sample_handle_def sample_sched_def

definition sample_reply :: workerReply where
  "sample_reply = \<lparr>wr_id = 1, wr_err = None, wr_errorCode = [], wr_retryable = False, wr_retryAfterMS = 0, wr_partial = [110],
     wr_timings = [''w7_applied'' \<mapsto> Float64 float64_one]\<rparr>"

definition sample_done :: "bool \<Rightarrow> collectionState" where
  "sample_done collected = \<lparr>cs_err = None, cs_completed = True, cs_collected = collected\<rparr>"

lemma sample_dispatch:
  "dispatchSection sample_cfg False (Some ()) ''A'' 2 [3, 4] (newScheduler 1) =
     (Inr 0, sample_sched True (Some (sample_task, InWorker)) (sample_handle newCollectionState 1 0 []) {})"
  by code_simp

lemma sample_steps:
  shows "thread_step sample_kernel sample_dcd sample_cfg 0 sample_task InWorker
      (sample_sched True (Some (sample_task, InWorker)) (sample_handle newCollectionState 1 0 []) {})
      (sample_sched True (Some (sample_task, Stored)) (sample_handle newCollectionState 1 110 []) {})"
    and "thread_step sample_kernel sample_dcd sample_cfg 0 sample_task Stored
      (sample_sched True (Some (sample_task, Stored)) (sample_handle newCollectionState 1 110 []) {})
      (sample_sched True (Some (sample_task, Counted 2 True)) (sample_handle newCollectionState 0 110 []) {})"
    and "thread_step sample_kernel sample_dcd sample_cfg 0 sample_task (Counted 2 True)
      (sample_sched True (Some (sample_task, Counted 2 True)) (sample_handle newCollectionState 0 110 []) {})
      (sample_sched True (Some (sample_task, Releasing)) (sample_handle (sample_done False) 0 110 [(2, 2)]) {})"
    and "thread_step sample_kernel sample_dcd sample_cfg 0 sample_task Releasing
      (sample_sched True (Some (sample_task, Releasing)) (sample_handle (sample_done False) 0 110 [(2, 2)]) {})
      (sample_sched False None (sample_handle (sample_done False) 0 110 [(2, 2)]) {})"
proof -
  have r: "section_reply (tk_requestID sample_task) (cf_optW7 sample_cfg) (Returned sample_reply) = Inr [110]"
    by (simp add: section_reply_def sample_reply_def sample_defs validateW7WorkerAcknowledgement_def)
  have v: "sample_dcd [110] = Some 110" by (simp add: sample_dcd_def be_val_def)
  have k: "request_ok sample_kernel (sc_heap (sample_sched True (Some (sample_task, InWorker)) (sample_handle newCollectionState 1 0 []) {}) !
      tk_handle sample_task) (tk_range sample_task) 110"
    by (simp add: request_ok_def sample_kernel_def sample_defs go_slice_def sample_points_def msm_def)
  from thread_step.good_partial [of sample_task sample_cfg "Returned sample_reply" "[110]" sample_dcd 110 sample_kernel
      "sample_sched True (Some (sample_task, InWorker)) (sample_handle newCollectionState 1 0 []) {}" 0, OF r v k]
  show "thread_step sample_kernel sample_dcd sample_cfg 0 sample_task InWorker
      (sample_sched True (Some (sample_task, InWorker)) (sample_handle newCollectionState 1 0 []) {})
      (sample_sched True (Some (sample_task, Stored)) (sample_handle newCollectionState 1 110 []) {})"
    by (simp add: sample_defs set_thread_def update_handle_def store_part_def)
  from thread_step.count [of sample_kernel sample_dcd sample_cfg 0 sample_task "sample_sched True (Some (sample_task, Stored)) (sample_handle newCollectionState 1 110 []) {}"]
  show "thread_step sample_kernel sample_dcd sample_cfg 0 sample_task Stored
      (sample_sched True (Some (sample_task, Stored)) (sample_handle newCollectionState 1 110 []) {})
      (sample_sched True (Some (sample_task, Counted 2 True)) (sample_handle newCollectionState 0 110 []) {})"
    by (simp add: sample_defs set_thread_def update_handle_def count_task_def Let_def)
  from thread_step.report [of sample_kernel sample_dcd sample_cfg 0 sample_task 2 True
      "sample_sched True (Some (sample_task, Counted 2 True)) (sample_handle newCollectionState 0 110 []) {}"]
  show "thread_step sample_kernel sample_dcd sample_cfg 0 sample_task (Counted 2 True)
      (sample_sched True (Some (sample_task, Counted 2 True)) (sample_handle newCollectionState 0 110 []) {})
      (sample_sched True (Some (sample_task, Releasing)) (sample_handle (sample_done False) 0 110 [(2, 2)]) {})"
    by (simp add: sample_defs set_thread_def update_handle_def report_task_def complete_state_def newCollectionState_def sample_done_def)
  from thread_step.release [of sample_kernel sample_dcd sample_cfg 0 sample_task
      "sample_sched True (Some (sample_task, Releasing)) (sample_handle (sample_done False) 0 110 [(2, 2)]) {}"]
  show "thread_step sample_kernel sample_dcd sample_cfg 0 sample_task Releasing
      (sample_sched True (Some (sample_task, Releasing)) (sample_handle (sample_done False) 0 110 [(2, 2)]) {})
      (sample_sched False None (sample_handle (sample_done False) 0 110 [(2, 2)]) {})"
    by (simp add: sample_defs releaseSlot_def set_thread_def pumpLocked_def pump_slot_def)
qed

definition sample_trace :: "(unit, nat, nat) sched_event list" where
  "sample_trace = [Collected 0 (Inr 110), CollectStarted 0 False None, Worker 0, Worker 0, Worker 0, Worker 0,
     Dispatched False (Some ()) ''A'' 2 [3, 4] (Inr 0)]"

definition sample_idle :: "(unit, nat, nat) scheduler" where
  "sample_idle = sample_sched False None (sample_handle (sample_done True) 0 110 [(2, 2)]) {0}"

lemma sample_run:
  shows "sched_run sample_kernel sample_dcd sample_cfg 1 (tl sample_trace) sample_idle"
    and "\<exists>st. sched_run sample_kernel sample_dcd sample_cfg 1 sample_trace st"
proof -
  let ?W = "\<lambda>th x st'. engine_step sample_kernel sample_dcd sample_cfg (sample_sched True (Some th) x {}) (Worker 0) st'"
  have w: "?W (sample_task, ph) x st'" if "thread_step sample_kernel sample_dcd sample_cfg 0 sample_task ph (sample_sched True (Some (sample_task, ph)) x {}) st'"
    for ph x st'
    by (rule engine_step.worker [OF _ _ that]) (simp_all add: sample_sched_def)
  have s: "engine_step sample_kernel sample_dcd sample_cfg (sample_sched False None (sample_handle (sample_done False) 0 110 [(2, 2)]) {})
      (CollectStarted 0 False None) (sample_sched False None (sample_handle (sample_done True) 0 110 [(2, 2)]) {0})"
    by (rule engine_step.collect_start)
      (simp_all add: sample_defs collectStart_def collect_begin_def sample_done_def update_handle_def)
  obtain st' where c: "collectFinish 0 (sample_sched False None (sample_handle (sample_done True) 0 110 [(2, 2)]) {0}) = Some (Inr 110, st')"
    by (simp add: sample_defs collectFinish_def collect_end_def sample_done_def combine_def)
  have d: "engine_step sample_kernel sample_dcd sample_cfg (newScheduler 1) (Dispatched False (Some ()) ''A'' 2 [3, 4] (Inr 0))
      (sample_sched True (Some (sample_task, InWorker)) (sample_handle newCollectionState 1 0 []) {})"
    by (rule engine_step.dispatch [OF sample_dispatch])
  have f: "engine_step sample_kernel sample_dcd sample_cfg (sample_sched False None (sample_handle (sample_done True) 0 110 [(2, 2)]) {0}) (Collected 0 (Inr 110)) st'"
    by (rule engine_step.collect_finish [OF _ c]) (simp add: sample_sched_def)
  have r: "sched_run sample_kernel sample_dcd sample_cfg 1 (tl sample_trace) sample_idle"
    unfolding sample_trace_def list.sel sample_idle_def
    by (rule sched_run.step [OF sched_run.step [OF sched_run.step [OF sched_run.step [OF sched_run.step
      [OF sched_run.step [OF sched_run.start d] w [OF sample_steps(1)]] w [OF sample_steps(2)]] w [OF sample_steps(3)]] w [OF sample_steps(4)]] s])
  then show "sched_run sample_kernel sample_dcd sample_cfg 1 (tl sample_trace) sample_idle" .
  from sched_run.step [OF r f [folded sample_idle_def]] show "\<exists>st. sched_run sample_kernel sample_dcd sample_cfg 1 sample_trace st"
    by (auto simp: sample_trace_def)
qed

lemma sample_config: "config_ok sample_cfg 1"
  by (simp add: config_ok_def sample_cfg_def)


section \<open>The asynchronous engine\<close>

text \<open>
  C32: In every interleaving the scheduler stays well-formed: until a failure or a cancellation, each worker slot is busy
  exactly while a goroutine runs for it; from then on no slot is busy and nothing is queued, though a goroutine may still
  run to its end. Queued and running shards stay within the bounded capacity, no shard is anywhere twice, a shard has at
  most three attempts, and with W7 every goroutine works on a shard of its own worker.
\<close>

theorem async_well_formed:
  assumes "sched_run K dcd cfg workers tr st" and "config_ok cfg workers"
  shows "length (sc_busy st) = workers \<and> length (sc_threads st) = workers \<and>
     (sc_terminal st = None \<longrightarrow> (\<forall>slot < workers. sc_busy st ! slot \<longleftrightarrow> sc_threads st ! slot \<noteq> None)) \<and>
     (sc_terminal st \<noteq> None \<longrightarrow> sc_queue st = [] \<and> (\<forall>slot < workers. \<not> sc_busy st ! slot)) \<and>
     int (length (sc_queue st) + inFlight st) \<le> 16 * max 1 (cf_shards cfg) \<and>
     (\<forall>k. count (image_mset tk_key (open_tasks st)) k \<le> 1) \<and>
     (\<forall>slot t ph. slot < workers \<longrightarrow> sc_threads st ! slot = Some (t, ph) \<longrightarrow>
        tk_attempt t \<in> {1..3} \<and> (cf_optW7 cfg \<longrightarrow> tk_affinityWorker t = int slot))"
proof -
  have s: "shape_ok cfg workers st" by (rule run_shape [OF assms])
  obtain args fin todo where a: "accounts_ok K cfg args fin todo st" using run_accounts [OF assms] by blast
  have "tk_attempt t \<in> {1..3} \<and> (cf_optW7 cfg \<longrightarrow> tk_affinityWorker t = int slot)"
    if "slot < workers" "sc_threads st ! slot = Some (t, ph)" for slot t ph
  proof -
    have p: "for_slot (cf_optW7 cfg) slot t" "phase_attempts ph (tk_attempt t)" using s that by (auto simp: shape_ok_def tasks_ok_def)
    then show ?thesis by (cases ph) (auto simp: for_slot_def asyncShardMaxAttempts_def)
  qed
  moreover have "sc_terminal st \<noteq> None \<longrightarrow> (\<forall>slot < workers. \<not> sc_busy st ! slot)"
    using stopped_idle [OF assms(1)] s by (simp add: shape_ok_def slots_ok_def)
  ultimately show ?thesis using s a unfolding shape_ok_def slots_ok_def bounded_def accounts_ok_def by blast
qed

theorem async_well_formed_witness:
  "\<exists>st. sched_run sample_kernel sample_dcd sample_cfg 1 sample_trace st \<and> length (sc_threads st) = 1 \<and>
     int (length (sc_queue st) + inFlight st) \<le> 16"
proof -
  obtain st where r: "sched_run sample_kernel sample_dcd sample_cfg 1 sample_trace st" using sample_run(2) by blast
  from async_well_formed [OF r sample_config] r show ?thesis by (auto simp: sample_cfg_def)
qed

text \<open>
  C33: A collected section is exact: when the partial sums of the workers satisfy the kernel's contract, whatever the
  interleaving, the retries and the other sections, the result that a handle delivers is the multi-exponentiation of all
  the points and scalars that were dispatched. A handle delivers once, and its error is fail-closed unless the engine
  was cancelled without a cause.
\<close>

theorem async_collect_exact:
  assumes "sched_run K dcd cfg workers tr st" and "config_ok cfg workers"
    and "\<And>lo hi v. K plan g2 section (lo, hi) (go_slice lo hi scalars) v \<Longrightarrow> v = msm smul (go_slice lo hi pts) (go_slice lo hi scalars)"
    and "length pts = length scalars" and "n = int (length pts)" and "Dispatched g2 plan section n scalars (Inr h) \<in> set tr"
  shows "(Collected h (Inr g) \<in> set tr \<longrightarrow> g = (\<Sum>(p, x) \<leftarrow> zip pts scalars. smul x p)) \<and>
     length (filter (\<lambda>ev. \<exists>r. ev = Collected h r) tr) \<le> 1 \<and>
     (Collected h (Inl e) \<in> set tr \<longrightarrow> as_failClosed e \<or> CancelledAll None \<in> set tr)"
proof -
  obtain args fin todo where l: "ledger_ok K cfg args fin tr st" using run_accounts [OF assms(1,2)] by blast
  have a: "args h = \<lparr>sa_g2 = g2, sa_plan = plan, sa_section = section, sa_n = n, sa_scalars = scalars\<rparr>"
    using l assms(6) unfolding ledger_ok_def by blast
  have "g = msm smul pts scalars" if "Collected h (Inr g) \<in> set tr"
  proof -
    have "case Inr g of Inl e \<Rightarrow> sc_terminal st = Some e | Inr g \<Rightarrow> good_result K cfg (args h) g"
      using l that unfolding ledger_ok_def by blast
    then show ?thesis using good_result_msm [of K "args h" smul pts cfg g] assms(3-5) by (simp add: a)
  qed
  moreover have "as_failClosed e \<or> CancelledAll None \<in> set tr" if "Collected h (Inl e) \<in> set tr"
  proof -
    have "case Inl e of Inl e \<Rightarrow> sc_terminal st = Some e | Inr g \<Rightarrow> good_result K cfg (args h) g"
      using l that unfolding ledger_ok_def by blast
    then show ?thesis using run_failures [OF assms(1)] by (simp add: failures_closed_def)
  qed
  ultimately show ?thesis using l unfolding ledger_ok_def msm_def by blast
qed

theorem async_collect_exact_witness:
  "Dispatched False (Some ()) ''A'' 2 [3, 4] (Inr 0) \<in> set sample_trace \<and> Collected 0 (Inr 110) \<in> set sample_trace \<and>
   (110 :: nat) = (\<Sum>(p, x) \<leftarrow> zip [10, 20] [3, 4]. x * p)"
proof -
  obtain st where r: "sched_run sample_kernel sample_dcd sample_cfg 1 sample_trace st" using sample_run(2) by blast
  have d: "Dispatched False (Some ()) ''A'' 2 [3, 4] (Inr 0) \<in> set sample_trace" "Collected 0 (Inr 110) \<in> set sample_trace"
    by (simp_all add: sample_trace_def)
  have "(110 :: nat) = (\<Sum>(p, x) \<leftarrow> zip sample_points [3, 4]. x * p)"
    using async_collect_exact [OF r sample_config, of "Some ()" False "''A''" "[3, 4]" "(*)" sample_points 2 0 110] d
    by (simp add: sample_kernel_def sample_points_def)
  then show ?thesis using d by (simp add: sample_points_def)
qed

text \<open>
  C34: The engine makes progress and stops. There is no deadlock: in every reachable state every live goroutine has a next
  step, whatever the others do, and one that waits for its worker has a next step for every way in which the wait can end.
  Every step of a goroutine decreases a weight, so after a state no more steps of goroutines than its weight can follow
  each other without a new dispatch; some sequence of them leads to a state without goroutines; and in every state without
  goroutines every handle can be collected.
\<close>

theorem async_progress:
  assumes "sched_run K dcd cfg workers tr st" and "config_ok cfg workers"
  shows "(\<forall>slot t ph. slot < workers \<longrightarrow> sc_threads st ! slot = Some (t, ph) \<longrightarrow>
        (\<exists>st'. engine_step K dcd cfg st (Worker slot) st') \<and> (ph = InWorker \<longrightarrow> reply_steps K dcd cfg st slot t)) \<and>
     (\<forall>slots st'. goroutine_steps K dcd cfg st slots st' \<longrightarrow> length slots + sched_weight st' \<le> sched_weight st) \<and>
     (\<exists>slots st'. goroutine_steps K dcd cfg st slots st' \<and> (\<forall>slot < workers. sc_threads st' ! slot = None)) \<and>
     ((\<forall>slot < workers. sc_threads st ! slot = None) \<longrightarrow> (\<forall>h < length (sc_heap st). collectFinish h st \<noteq> None))"
proof (intro conjI allI impI)
  have s: "shape_ok cfg workers st" by (rule run_shape [OF assms])
  show "\<exists>st'. engine_step K dcd cfg st (Worker slot) st'" "ph = InWorker \<Longrightarrow> reply_steps K dcd cfg st slot t"
    if "slot < workers" "sc_threads st ! slot = Some (t, ph)" for slot t ph
  proof -
    have l: "slot < length (sc_threads st)" using s that(1) by (simp add: shape_ok_def slots_ok_def)
    show "\<exists>st'. engine_step K dcd cfg st (Worker slot) st'"
      using engine_step.worker [OF l that(2)] thread_can_step [of K dcd cfg slot t ph st] by blast
    show "reply_steps K dcd cfg st slot t" if "ph = InWorker"
      using l that \<open>sc_threads st ! slot = Some (t, ph)\<close> by (intro wait_ends) simp_all
  qed
  show "length slots + sched_weight st' \<le> sched_weight st" if "goroutine_steps K dcd cfg st slots st'" for slots st'
    by (rule goroutine_weight [OF that assms])
  show "\<exists>slots st'. goroutine_steps K dcd cfg st slots st' \<and> (\<forall>slot < workers. sc_threads st' ! slot = None)"
    by (rule goroutines_end [OF assms])
  obtain args fin todo where a: "accounts_ok K cfg args fin todo st" using run_accounts [OF assms] by blast
  show "collectFinish h st \<noteq> None" if "\<forall>slot < workers. sc_threads st ! slot = None" "h < length (sc_heap st)" for h
    using idle_completed [OF a s assms(2), of h] that by (auto simp: collectFinish_def collect_end_def split: option.splits)
qed

text \<open>At the dispatched section: its goroutine can move on, and the run can be brought to its end.\<close>

definition sample_started :: "(unit, nat, nat) scheduler" where
  "sample_started = sample_sched True (Some (sample_task, InWorker)) (sample_handle newCollectionState 1 0 []) {}"

theorem async_progress_witness:
  "(\<exists>st'. engine_step sample_kernel sample_dcd sample_cfg sample_started (Worker 0) st') \<and>
   (\<exists>slots st'. goroutine_steps sample_kernel sample_dcd sample_cfg sample_started slots st' \<and> sc_threads st' ! 0 = None) \<and>
   collectFinish 0 sample_idle \<noteq> None"
proof -
  have d: "sched_run sample_kernel sample_dcd sample_cfg 1 [Dispatched False (Some ()) ''A'' 2 [3, 4] (Inr 0)] sample_started"
    unfolding sample_started_def by (intro sched_run.step [OF sched_run.start] engine_step.dispatch sample_dispatch)
  have t: "sc_threads sample_started ! 0 = Some (sample_task, InWorker)" by (simp add: sample_started_def sample_sched_def)
  have "\<forall>slot < 1. sc_threads sample_idle ! slot = None" "0 < length (sc_heap sample_idle)" by (simp_all add: sample_idle_def sample_sched_def)
  then have "collectFinish 0 sample_idle \<noteq> None" using async_progress [OF sample_run(1) sample_config] by blast
  with async_progress [OF d sample_config] t show ?thesis by blast
qed

section \<open>The fallback\<close>

text \<open>
  C35: The fallback is fail-closed. Whatever is returned, the log of the engines asked is the primary, followed by the CPU
  engine exactly when the primary failed with an error that carries no fail-closed mark and the reload did not fail. An
  error of an authenticated section request, wrapped any number of times, is returned as it is. When the reload or the CPU
  retry fails, the returned error joins the primary's error with the new one, each under its own context; when the retry
  succeeds, so does the fallback. A worker error is retried by the scheduler only for the allow-listed codes, and only when
  the worker advertised it.
\<close>

theorem fallback_fail_closed:
  shows "snd (snd (WithFallbackReload primary (map_option log_reload reload) (log_run run) (s, []))) =
      (case run primary s of
         (None, _) \<Rightarrow> [primary]
       | (Some e, s1) \<Rightarrow> if \<not> as_failClosed e \<and> fst (reload_result reload s1) = None then [primary, CpuMSM] else [primary]) \<and>
    (section_reply i w7 waited = Inl e \<and> run primary s = (Some (foldr MWrap contexts e), s1) \<longrightarrow>
      WithFallbackReload primary reload run s = (Some (foldr MWrap contexts e), s1)) \<and>
    (run primary s = (None, s1) \<longrightarrow> WithFallbackReload primary reload run s = (None, s1)) \<and>
    (run primary s = (Some pe, s1) \<and> \<not> as_failClosed pe \<longrightarrow>
      WithFallbackReload primary reload run s =
        (case reload_result reload s1 of
           (Some x, s2) \<Rightarrow> (Some (Joined (MWrap (''primary '' @ engine_Name primary @ '' prove'') pe) (MWrap ''prepare cpu retry'' x)), s2)
         | (None, s2) \<Rightarrow>
             (case run CpuMSM s2 of
                (Some x, s3) \<Rightarrow> (Some (Joined (MWrap (''primary '' @ engine_Name primary @ '' prove'') pe) (MWrap ''cpu retry prove'' x)), s3)
              | (None, s3) \<Rightarrow> (None, s3)))) \<and>
    (classifyTypedSectionWorkerError errcode advertised after (Some e0) = Some e' \<and> fst (sectionWorkerRetry e') \<longrightarrow>
      advertised \<and> errcode \<in> {''chunk-fetch-network'', ''chunk-fetch-http'', ''worker-terminated'', ''worker-initialization''})"
proof (rule conjI [OF fallback_log], intro conjI impI)
  show "WithFallbackReload primary reload run s = (Some (foldr MWrap contexts e), s1)"
    if "section_reply i w7 waited = Inl e \<and> run primary s = (Some (foldr MWrap contexts e), s1)"
    using that section_reply_error by (intro WithFallbackReload_fail_closed wrapped_fail_closed) auto
  show "WithFallbackReload primary reload run s = (None, s1)" if "run primary s = (None, s1)"
    using that by (simp add: WithFallbackReload_ok)
  show "WithFallbackReload primary reload run s =
        (case reload_result reload s1 of
           (Some x, s2) \<Rightarrow> (Some (Joined (MWrap (''primary '' @ engine_Name primary @ '' prove'') pe) (MWrap ''prepare cpu retry'' x)), s2)
         | (None, s2) \<Rightarrow>
             (case run CpuMSM s2 of
                (Some x, s3) \<Rightarrow> (Some (Joined (MWrap (''primary '' @ engine_Name primary @ '' prove'') pe) (MWrap ''cpu retry prove'' x)), s3)
              | (None, s3) \<Rightarrow> (None, s3)))" if "run primary s = (Some pe, s1) \<and> \<not> as_failClosed pe"
    using that by (intro fallback_retry) blast+
  assume r: "classifyTypedSectionWorkerError errcode advertised after (Some e0) = Some e' \<and> fst (sectionWorkerRetry e')"
  then have "sectionWorkerRetry e' = (advertised \<and> errcode \<in> transport_codes \<union> restart_codes, errcode \<in> restart_codes,
     if errcode \<in> insert ''chunk-integrity'' (transport_codes \<union> restart_codes) \<and> 0 \<le> after \<and> after \<le> 30 * Second then after else 0)"
    using typed_retry [of errcode advertised after e0 e'] by simp
  then have t: "advertised \<and> errcode \<in> transport_codes \<union> restart_codes" using r by simp
  then show "advertised" by simp
  show "errcode \<in> {''chunk-fetch-network'', ''chunk-fetch-http'', ''worker-terminated'', ''worker-initialization''}"
    using t [THEN conjunct2] by (simp only: transport_codes_def restart_codes_def Un_insert_left Un_empty_left)
qed

text \<open>A section whose wait was cancelled: the CPU engine, which would succeed, is not asked.\<close>

definition sample_sharded :: engine where
  "sample_sharded = Sharded \<lparr>ss_workers = 2, ss_shards = 2, ss_rangeFetchConcurrency = 1, ss_optW7 = False\<rparr>"

definition cancelled_error :: merr where
  "cancelled_error = FailClosedError ''async-msm-cancelled'' (MErr ''asynchronous section MSM cancelled'')"

definition sample_prove :: "engine \<Rightarrow> nat \<Rightarrow> merr option \<times> nat" where
  "sample_prove e k = (case e of CpuMSM \<Rightarrow> (None, k + 1) | Sharded _ \<Rightarrow> (Some (MWrap ''prove'' cancelled_error), k + 1))"

theorem fallback_fail_closed_witness:
  "WithFallbackReload sample_sharded None sample_prove 0 = (Some (MWrap ''prove'' cancelled_error), 1) \<and>
   snd (snd (WithFallbackReload sample_sharded (map_option log_reload None) (log_run sample_prove) (0, []))) = [sample_sharded]"
proof -
  have p: "section_reply 0 False Cancelled = Inl cancelled_error"
      "sample_prove sample_sharded 0 = (Some (foldr MWrap [''prove''] cancelled_error), 1)"
    by (simp_all add: section_reply_def cancelled_error_def sample_prove_def sample_sharded_def)
  have f: "as_failClosed (foldr MWrap [''prove''] cancelled_error)" by (simp add: cancelled_error_def)
  show ?thesis
    using fallback_fail_closed [of sample_sharded None sample_prove 0 0 False Cancelled cancelled_error "[''prove'']" 1] p f by simp
qed

end
