(* ===== verification/ChunkManifest.thy ===== *)
theory ChunkManifest
  imports PkIndex GoPath GoJson "HOL-Library.List_Lexorder" "HOL-Library.Char_ord"
begin

text \<open>
  The chunk manifest of a proving key, from \<^verbatim>\<open>internal/proofassets/chunk_manifest.go\<close> and \<^verbatim>\<open>digest.go\<close>, with
  the key manifest of \<^verbatim>\<open>internal/artifact/artifact.go\<close>: the records, and every check of a manifest that came
  from elsewhere. SHA-256 and BLAKE2b-256 are the parameters \<open>sha\<close> and \<open>blake\<close>; of \<^verbatim>\<open>url.Parse\<close> the checks
  use scheme, host and host name, so the parser is the parameter \<open>parse_url\<close>. A pointer that may be nil is an
  option, a Go map an association list. The iteration over the assets of a manifest has no fixed order in Go; the
  model takes the order of the list, which decides at most which error is returned.

  \<open>safeRelativePath_ok\<close>, \<open>validateChunks_ok\<close>, \<open>validateAssetPin_ok\<close> and the others characterise what each check
  accepts.
\<close>

section \<open>Digests\<close>

record FileDigest =
  fd_SHA256 :: string
  fd_Blake2b256 :: string
  fd_Size :: int

definition DigestBytes :: "(bytes \<Rightarrow> bytes) \<Rightarrow> (bytes \<Rightarrow> bytes) \<Rightarrow> bytes \<Rightarrow> FileDigest" where
  "DigestBytes sha blake raw =
     \<lparr>fd_SHA256 = ''sha256:'' @ hex_encode (sha raw), fd_Blake2b256 = ''blake2b256:'' @ hex_encode (blake raw),
      fd_Size = int (length raw)\<rparr>"

definition decodePrefixedDigest :: "string \<Rightarrow> string \<Rightarrow> bytes res" where
  "decodePrefixedDigest pre value =
     (if \<not> has_prefix value (pre @ '':'') then Inl (Err ''digest missing prefix'')
      else (case hex_decode (trim_prefix value (pre @ '':'')) of None \<Rightarrow> Inl (Err ''hex'') | Some raw \<Rightarrow> Inr raw))"

definition validateDigest :: "string \<Rightarrow> string \<Rightarrow> unit res" where
  "validateDigest pre value = bind_r (decodePrefixedDigest pre value) (\<lambda>raw. fail_if (length raw \<noteq> 32) ''digest is not 32 bytes'')"

definition safeRelativePath :: "string \<Rightarrow> unit res" where
  "safeRelativePath value = all_ok [
     fail_if (value = []) ''path is required'',
     fail_if (is_abs value \<or> contains value [CHR 0x5C] \<or> contains value ''://'' \<or> contains_any value ''?#'')
       ''not a safe relative path'',
     let clean = path_clean value in
     fail_if (clean = ''.'' \<or> clean \<noteq> value \<or> has_prefix clean ''../'' \<or> contains clean ''/../'') ''not a safe relative path'']"

section \<open>The records\<close>

record ChunkPin =
  cp_Index :: int
  cp_Offset :: int
  cp_Size :: int
  cp_Path :: string
  cp_SHA256 :: string
  cp_Blake2b256 :: string

record ChunkedProvingKey =
  ck_Path :: string
  ck_ChunkSize :: int
  ck_ChunksRoot :: string
  ck_Chunks :: "ChunkPin list"

record ManifestProvingKeyIndex =
  mi_Schema :: string
  mi_FileSize :: int
  mi_SHA256 :: string
  mi_Blake2b256 :: string
  mi_Sections :: "PKSection list"

record CompressedAssetPin =
  ca_Path :: string
  ca_Encoding :: string
  ca_Size :: int
  ca_SHA256 :: string
  ca_Blake2b256 :: string

record AssetPin =
  ap_Path :: string
  ap_Size :: int
  ap_SHA256 :: string
  ap_Blake2b256 :: string
  ap_Compressed :: "CompressedAssetPin option"

record ChunkTransport =
  tr_BaseURL :: string
  tr_ContentEncoding :: string
  tr_RequiresHTTPS :: bool
  tr_SupportsRange :: bool

record ChunkCoherence =
  co_KeyManifestSHA256 :: string
  co_KeyManifestBlake2b256 :: string
  co_KeyVersion :: string
  co_CircuitID :: string
  co_VKHash :: string
  co_ProvingKeySize :: int
  co_ProvingKeySHA256 :: string
  co_ProvingKeyBlake2b256 :: string
  co_VerifyingKeySHA256 :: string
  co_VerifyingKeySize :: int
  co_ConstraintSystemHash :: string
  co_SetupTranscriptHash :: string
  co_CircuitSourceCommit :: string
  co_GnarkVersion :: string
  co_ProofToolVersion :: string
  co_CardanoVKFormat :: string
  co_CardanoVKBlake2b256 :: string
  co_MPCCeremonyID :: string
  co_MPCCandidateID :: string
  co_ProductionDecisionID :: string
  co_MPCReleaseID :: string
  co_ReleaseManifestSHA256 :: string
  co_DeploymentID :: string
  co_DeploymentSourceCommit :: string

record ChunkManifest =
  cm_Schema :: string
  cm_Release :: string
  cm_Profile :: string
  cm_GeneratedAt :: string
  cm_SignatureKeyID :: string
  cm_Coherence :: ChunkCoherence
  cm_Transport :: ChunkTransport
  cm_ProvingKey :: ChunkedProvingKey
  cm_ProvingKeyIndex :: ManifestProvingKeyIndex
  cm_Assets :: "(string \<times> AssetPin) list"

record KeyManifest =
  km_Schema :: string
  km_KeyVersion :: string
  km_CircuitID :: string
  km_Curve :: string
  km_Backend :: string
  km_VKHash :: string
  km_ProvingKeySHA256 :: string
  km_ProvingKeyBlake2b256 :: string
  km_ProvingKeySize :: int
  km_VerifyingKeySHA256 :: string
  km_VerifyingKeySize :: int
  km_ConstraintSystemHash :: string
  km_CircuitSourceCommit :: string
  km_ProofToolVersion :: string
  km_GnarkVersion :: string
  km_SetupTranscriptHash :: string
  km_PublishedAt :: string
  km_ArtifactURLs :: "(string \<times> string) list"
  km_SignatureKeyID :: string

text \<open>The three nested structs of a deployment are flat: \<open>rg_\<close> is \<^verbatim>\<open>reclaim_global\<close>, \<open>dp_\<close> \<^verbatim>\<open>proof\<close>, \<open>pl_\<close> \<^verbatim>\<open>planning\<close>.\<close>

record ReclaimDeploymentManifest =
  de_Schema :: string
  de_DeploymentID :: string
  de_Network :: string
  de_SourceCommit :: string
  rg_VerifierVKHash :: string
  rg_ProofProfile :: string
  rg_ProofSlotEncoding :: string
  rg_BatchTranscriptVKHash :: string
  dp_CircuitID :: string
  dp_KeyVersion :: string
  dp_DestinationAddressEncoding :: string
  dp_VKHash :: string
  dp_CardanoVKBlake2b256 :: string
  dp_SetupTranscriptHash :: string
  dp_MPCCeremonyID :: string
  dp_MPCCandidateID :: string
  pl_ProductionDecisionID :: string
  pl_MPCReleaseID :: string
  pl_ReleaseManifestSHA256 :: string

record ChunkManifestExpectations =
  ex_KeyManifest :: "KeyManifest option"
  ex_KeyManifestDigest :: FileDigest
  ex_Deployment :: "ReclaimDeploymentManifest option"
  ex_CardanoVKFormat :: string
  ex_CardanoVKBlake2b256 :: string

definition ChunkManifestSchema :: string where "ChunkManifestSchema = ''proof-tool-proof-assets-chunk-manifest-v1''"
definition ProvingKeyIndexSchema :: string where "ProvingKeyIndexSchema = ''proof-tool-proving-key-index-v1''"
definition ReclaimDeploymentSchema :: string where "ReclaimDeploymentSchema = ''proof-tool-reclaim-deployment-v1''"

section \<open>The chunk table\<close>

fun root_input :: "bytes \<Rightarrow> ChunkPin list \<Rightarrow> bytes res" where
  "root_input h [] = Inr h"
| "root_input h (chunk # chunks) =
     bind_r (wrap ''chunk blake2b256'' (decodePrefixedDigest ''blake2b256'' (cp_Blake2b256 chunk))) (\<lambda>raw.
     root_input (h @ raw) chunks)"

definition chunksRootBlake2b256 :: "(bytes \<Rightarrow> bytes) \<Rightarrow> ChunkPin list \<Rightarrow> string res" where
  "chunksRootBlake2b256 blake chunks =
     bind_r (root_input [] chunks) (\<lambda>h. Inr (''blake2b256:'' @ hex_encode (blake h)))"

text \<open>The loop over the chunks; \<^verbatim>\<open>next\<close> is an \<^verbatim>\<open>int64\<close>, and its sum wraps.\<close>

fun chunk_loop :: "ChunkedProvingKey \<Rightarrow> nat \<Rightarrow> int \<Rightarrow> ChunkPin list \<Rightarrow> int res" where
  "chunk_loop pk i nxt [] = Inr nxt"
| "chunk_loop pk i nxt (chunk # chunks) =
     bind_r (all_ok [
       fail_if (cp_Index chunk \<noteq> int i) ''chunk index'',
       fail_if (cp_Offset chunk \<noteq> nxt) ''chunk offset'',
       fail_if (cp_Size chunk \<le> 0) ''chunk size must be positive'',
       fail_if (int i < int (length (ck_Chunks pk)) - 1 \<and> cp_Size chunk \<noteq> ck_ChunkSize pk) ''chunk size, want chunk_size'',
       wrap ''chunk path'' (safeRelativePath (cp_Path chunk)),
       wrap ''chunk sha256'' (validateDigest ''sha256'' (cp_SHA256 chunk)),
       wrap ''chunk blake2b256'' (validateDigest ''blake2b256'' (cp_Blake2b256 chunk))]) (\<lambda>_.
     chunk_loop pk (Suc i) (wrap64 (nxt + cp_Size chunk)) chunks)"

definition validateChunks :: "(bytes \<Rightarrow> bytes) \<Rightarrow> ChunkedProvingKey \<Rightarrow> int \<Rightarrow> unit res" where
  "validateChunks blake pk provingKeySize =
     bind_r (all_ok [
       wrap ''proving key path'' (safeRelativePath (ck_Path pk)),
       fail_if (ck_ChunkSize pk \<le> 0) ''chunk_size must be positive'',
       fail_if (ck_Chunks pk = []) ''chunks are required'']) (\<lambda>_.
     bind_r (chunk_loop pk 0 0 (ck_Chunks pk)) (\<lambda>nxt.
     bind_r (fail_if (nxt \<noteq> provingKeySize) ''chunk table ends before or after the proving key'') (\<lambda>_.
     bind_r (chunksRootBlake2b256 blake (ck_Chunks pk)) (\<lambda>root.
     fail_if (root \<noteq> ck_ChunksRoot pk) ''chunks_root_blake2b256 mismatch''))))"

section \<open>Index, assets and transport\<close>

definition json_PKSection :: "PKSection \<Rightarrow> json" where
  "json_PKSection sec = JObj [(''name'', JStr (sec_Name sec)), (''offset'', JNum (sec_Offset sec)),
     (''len'', JNum (sec_Len sec)), (''elem_size'', JNum (sec_ElemSize sec))]"

definition manifestIndexDigestBody :: "string \<Rightarrow> int \<Rightarrow> PKSection list \<Rightarrow> json" where
  "manifestIndexDigestBody schema fileSize secs = JObj [(''schema'', JStr schema), (''file_size'', JNum fileSize),
     (''sections'', JArr (map json_PKSection secs))]"

definition digestCanonicalJSON :: "(bytes \<Rightarrow> bytes) \<Rightarrow> (bytes \<Rightarrow> bytes) \<Rightarrow> json \<Rightarrow> FileDigest" where
  "digestCanonicalJSON sha blake v = DigestBytes sha blake (string_bytes (jenc v))"

definition bare_index :: "PKSection list \<Rightarrow> int \<Rightarrow> PKIndex" where
  "bare_index secs fileSize =
     \<lparr>Sections = put_sections secs, DomainCardinality = 0, NbWires = 0, NbInfinityA = 0, NbInfinityB = 0,
      NbCommitmentKeys = 0, FileSize = fileSize\<rparr>"

definition validateManifestIndex :: "(bytes \<Rightarrow> bytes) \<Rightarrow> (bytes \<Rightarrow> bytes) \<Rightarrow> ManifestProvingKeyIndex \<Rightarrow> int \<Rightarrow> unit res" where
  "validateManifestIndex sha blake idx provingKeySize =
     (let digest = digestCanonicalJSON sha blake (manifestIndexDigestBody (mi_Schema idx) (mi_FileSize idx) (mi_Sections idx))
      in all_ok [
       fail_if (mi_Schema idx \<noteq> ProvingKeyIndexSchema) ''proving key index schema'',
       fail_if (mi_FileSize idx \<noteq> provingKeySize) ''proving key index file_size'',
       ValidatePKIndex (bare_index (mi_Sections idx) (mi_FileSize idx)),
       fail_if (fd_SHA256 digest \<noteq> mi_SHA256 idx) ''proving key index sha256 mismatch'',
       fail_if (fd_Blake2b256 digest \<noteq> mi_Blake2b256 idx) ''proving key index blake2b256 mismatch''])"

definition ManifestIndexFromPKIndex :: "(bytes \<Rightarrow> bytes) \<Rightarrow> (bytes \<Rightarrow> bytes) \<Rightarrow> PKIndex \<Rightarrow> ManifestProvingKeyIndex res" where
  "ManifestIndexFromPKIndex sha blake idx =
     bind_r (ValidatePKIndex idx) (\<lambda>_.
     (let secs = sort_key sec_Name (map snd (Sections idx));
          digest = digestCanonicalJSON sha blake (manifestIndexDigestBody ProvingKeyIndexSchema (FileSize idx) secs)
      in Inr \<lparr>mi_Schema = ProvingKeyIndexSchema, mi_FileSize = FileSize idx, mi_SHA256 = fd_SHA256 digest,
           mi_Blake2b256 = fd_Blake2b256 digest, mi_Sections = secs\<rparr>))"

definition compressed_checks :: "AssetPin \<Rightarrow> CompressedAssetPin \<Rightarrow> unit res list" where
  "compressed_checks pin c = [
     fail_if (ca_Encoding c \<noteq> ''zstd'') ''compressed encoding is not supported'',
     wrap ''compressed path'' (safeRelativePath (ca_Path c)),
     fail_if (ca_Path c = ap_Path pin) ''compressed path must differ from the identity path'',
     fail_if (ca_Size c \<le> 0) ''compressed size must be positive'',
     fail_if (ca_Size c \<ge> ap_Size pin) ''compressed size is not smaller than identity size'',
     wrap ''compressed sha256'' (validateDigest ''sha256'' (ca_SHA256 c)),
     wrap ''compressed blake2b256'' (validateDigest ''blake2b256'' (ca_Blake2b256 c))]"

definition validateAssetPin :: "AssetPin \<Rightarrow> unit res" where
  "validateAssetPin pin = all_ok ([
     wrap ''asset path'' (safeRelativePath (ap_Path pin)),
     fail_if (ap_Size pin \<le> 0) ''asset size must be positive'',
     wrap ''asset sha256'' (validateDigest ''sha256'' (ap_SHA256 pin)),
     wrap ''asset blake2b256'' (validateDigest ''blake2b256'' (ap_Blake2b256 pin))] @
     (case ap_Compressed pin of None \<Rightarrow> [] | Some c \<Rightarrow> compressed_checks pin c))"

record go_url =
  url_Scheme :: string
  url_Host :: string
  url_Hostname :: string

definition validateTransport :: "(string \<Rightarrow> go_url option) \<Rightarrow> ChunkTransport \<Rightarrow> unit res" where
  "validateTransport parse_url t = all_ok ([
     fail_if (tr_ContentEncoding t \<noteq> ''identity'') ''transport content_encoding''] @
     (if tr_BaseURL t = [] then []
      else (case parse_url (tr_BaseURL t) of
          None \<Rightarrow> [fail_if True ''transport base_url must be an absolute URL'']
        | Some u \<Rightarrow> [
            fail_if (url_Scheme u = [] \<or> url_Host u = []) ''transport base_url must be an absolute URL'',
            fail_if (tr_RequiresHTTPS t \<and> url_Scheme u \<noteq> ''https'' \<and> url_Hostname u \<noteq> ''127.0.0.1'' \<and> url_Hostname u \<noteq> ''localhost'')
              ''transport base_url must use https outside loopback''])))"

section \<open>Key manifest and deployment\<close>

definition fileDigestFromAssetPin :: "AssetPin \<Rightarrow> FileDigest" where
  "fileDigestFromAssetPin pin = \<lparr>fd_SHA256 = ap_SHA256 pin, fd_Blake2b256 = ap_Blake2b256 pin, fd_Size = ap_Size pin\<rparr>"

text \<open>\<^verbatim>\<open>assets[name]\<close>: a missing name reads the zero pin.\<close>

definition asset_at :: "(string \<times> AssetPin) list \<Rightarrow> string \<Rightarrow> AssetPin" where
  "asset_at assets name =
     (case map_of assets name of None \<Rightarrow> \<lparr>ap_Path = [], ap_Size = 0, ap_SHA256 = [], ap_Blake2b256 = [], ap_Compressed = None\<rparr>
      | Some pin \<Rightarrow> pin)"

definition checkKeyManifestPK :: "KeyManifest \<Rightarrow> FileDigest \<Rightarrow> unit res" where
  "checkKeyManifestPK manifest digest = all_ok [
     fail_if (km_ProvingKeySHA256 manifest = [] \<or> km_ProvingKeyBlake2b256 manifest = [] \<or> km_ProvingKeySize manifest \<le> 0)
       ''key manifest must include proving key sha256, blake2b256, and size'',
     fail_if (km_ProvingKeySHA256 manifest \<noteq> fd_SHA256 digest) ''proving key sha256 mismatch'',
     fail_if (km_ProvingKeyBlake2b256 manifest \<noteq> fd_Blake2b256 digest) ''proving key blake2b256 mismatch'',
     fail_if (km_ProvingKeySize manifest \<noteq> fd_Size digest) ''proving key size mismatch'']"

definition ValidateKeyManifestAssetDigests :: "KeyManifest option \<Rightarrow> FileDigest \<Rightarrow> FileDigest \<Rightarrow> unit res" where
  "ValidateKeyManifestAssetDigests m vk ccs =
     (case m of None \<Rightarrow> Inl (Err ''key manifest is required'')
      | Some manifest \<Rightarrow> all_ok [
     fail_if (km_VKHash manifest = [] \<or> km_VerifyingKeySHA256 manifest = [] \<or> km_VerifyingKeySize manifest \<le> 0)
       ''key manifest must include vk_hash, verifying key sha256, and verifying key size'',
     fail_if (fd_Size vk \<le> 0 \<or> fd_SHA256 vk = [] \<or> fd_Blake2b256 vk = []) ''ownership.vk asset pin is required'',
     fail_if (fd_Size vk \<noteq> km_VerifyingKeySize manifest) ''ownership.vk size mismatch'',
     fail_if (fd_SHA256 vk \<noteq> km_VerifyingKeySHA256 manifest) ''ownership.vk sha256 mismatch'',
     fail_if (fd_Blake2b256 vk \<noteq> km_VKHash manifest) ''ownership.vk blake2b256 mismatch'',
     fail_if (km_ConstraintSystemHash manifest = []) ''key manifest must include constraint_system_hash'',
     fail_if (fd_Size ccs \<le> 0 \<or> fd_SHA256 ccs = [] \<or> fd_Blake2b256 ccs = []) ''ownership-destination.ccs asset pin is required'',
     fail_if (fd_Blake2b256 ccs \<noteq> km_ConstraintSystemHash manifest) ''ownership-destination.ccs blake2b256 mismatch''])"

definition validateAgainstKeyManifest :: "ChunkManifest \<Rightarrow> KeyManifest \<Rightarrow> unit res" where
  "validateAgainstKeyManifest m manifest = (let c = cm_Coherence m in all_ok (
     map (\<lambda>(name, got, want). fail_if (want \<noteq> [] \<and> got \<noteq> want) (name @ '' mismatch'')) [
       (''key_version'', co_KeyVersion c, km_KeyVersion manifest),
       (''circuit_id'', co_CircuitID c, km_CircuitID manifest),
       (''gnark_version'', co_GnarkVersion c, km_GnarkVersion manifest),
       (''vk_hash'', co_VKHash c, km_VKHash manifest),
       (''proving_key_sha256'', co_ProvingKeySHA256 c, km_ProvingKeySHA256 manifest),
       (''proving_key_blake2b256'', co_ProvingKeyBlake2b256 c, km_ProvingKeyBlake2b256 manifest),
       (''verifying_key_sha256'', co_VerifyingKeySHA256 c, km_VerifyingKeySHA256 manifest),
       (''constraint_system_hash'', co_ConstraintSystemHash c, km_ConstraintSystemHash manifest)] @ [
     fail_if (km_ProvingKeySize manifest > 0 \<and> co_ProvingKeySize c \<noteq> km_ProvingKeySize manifest) ''proving_key_size mismatch'',
     fail_if (km_VerifyingKeySize manifest > 0 \<and> co_VerifyingKeySize c \<noteq> km_VerifyingKeySize manifest) ''verifying_key_size mismatch'']))"

definition isMainnetDeployment :: "ReclaimDeploymentManifest option \<Rightarrow> bool" where
  "isMainnetDeployment deployment =
     (case deployment of None \<Rightarrow> False | Some d \<Rightarrow> de_Network d = ''Mainnet'' \<or> has_prefix (de_DeploymentID d) ''mainnet:'')"

definition validateMainnetReleaseManifestDigest :: "ReclaimDeploymentManifest option \<Rightarrow> FileDigest \<Rightarrow> unit res" where
  "validateMainnetReleaseManifestDigest deployment keyManifestDigest =
     (case deployment of None \<Rightarrow> Inr ()
      | Some d \<Rightarrow> fail_if (isMainnetDeployment deployment \<and> pl_ReleaseManifestSHA256 d \<noteq> fd_SHA256 keyManifestDigest)
          ''mainnet deployment release_manifest_sha256 is not the signed key manifest'')"

text \<open>
  \<^verbatim>\<open>strings.ToLower\<close> on ASCII letters is enough here: a value with any other character fails the hexadecimal
  decoding that follows.
\<close>

definition isSHA256ID :: "string \<Rightarrow> bool" where
  "isSHA256ID value \<longleftrightarrow> value = to_lower value \<and> has_prefix value ''sha256:'' \<and>
     (case hex_decode (trim_prefix value ''sha256:'') of None \<Rightarrow> False | Some raw \<Rightarrow> length raw = 32)"

definition statementBoundV2 :: string where "statementBoundV2 = ''full-proof-plus-public-input-digest-v2''"

definition deployment_checks :: "ReclaimDeploymentManifest \<Rightarrow> KeyManifest \<Rightarrow> string \<Rightarrow> unit res list" where
  "deployment_checks d manifest cardanoVK = [
     fail_if (de_Schema d \<noteq> ReclaimDeploymentSchema) ''deployment manifest schema'',
     fail_if (trim_space (de_DeploymentID d) = []) ''deployment_id is required'',
     fail_if (dp_VKHash d \<noteq> km_VKHash manifest) ''deployment proof.vk_hash'',
     fail_if (dp_CircuitID d \<noteq> km_CircuitID manifest) ''deployment proof.circuit_id'',
     fail_if (dp_KeyVersion d \<noteq> km_KeyVersion manifest) ''deployment proof.key_version'',
     fail_if (dp_SetupTranscriptHash d \<noteq> [] \<and> dp_SetupTranscriptHash d \<noteq> km_SetupTranscriptHash manifest)
       ''deployment proof.setup_transcript_hash'',
     fail_if (cardanoVK \<noteq> [] \<and> dp_CardanoVKBlake2b256 d \<noteq> cardanoVK) ''deployment proof.cardano_vk_blake2b256'',
     fail_if (rg_VerifierVKHash d \<noteq> dp_CardanoVKBlake2b256 d) ''deployment reclaim_global.verifier_vk_hash'',
     fail_if (rg_ProofSlotEncoding d \<noteq> statementBoundV2) ''deployment reclaim_global.proof_slot_encoding'',
     fail_if (rg_BatchTranscriptVKHash d = []) ''reclaim_global.batch_transcript_vk_hash is required'',
     fail_if (rg_BatchTranscriptVKHash d \<noteq> dp_CardanoVKBlake2b256 d) ''deployment reclaim_global.batch_transcript_vk_hash'']"

definition mainnet_checks :: "ReclaimDeploymentManifest \<Rightarrow> unit res list" where
  "mainnet_checks d =
     [fail_if (dp_SetupTranscriptHash d = []) ''mainnet deployment requires proof.setup_transcript_hash''] @
     map (\<lambda>(label, value). fail_if (\<not> isSHA256ID value) (label @ '' must be an exact sha256 identity'')) [
       (''proof.mpc_ceremony_id'', dp_MPCCeremonyID d),
       (''proof.mpc_candidate_id'', dp_MPCCandidateID d),
       (''planning.production_decision_id'', pl_ProductionDecisionID d),
       (''planning.mpc_release_id'', pl_MPCReleaseID d)] @
     [wrap ''planning.release_manifest_sha256'' (validateDigest ''sha256'' (pl_ReleaseManifestSHA256 d))]"

definition ValidateReclaimDeployment ::
    "ReclaimDeploymentManifest option \<Rightarrow> KeyManifest option \<Rightarrow> string \<Rightarrow> unit res" where
  "ValidateReclaimDeployment deployment manifest cardanoVK =
     (case deployment of None \<Rightarrow> Inl (Err ''deployment manifest is required'')
      | Some d \<Rightarrow> (case manifest of None \<Rightarrow> Inl (Err ''key manifest is required'')
          | Some m \<Rightarrow> all_ok (deployment_checks d m cardanoVK @ (if isMainnetDeployment deployment then mainnet_checks d else []))))"

section \<open>The manifest\<close>

definition digest_given :: "FileDigest \<Rightarrow> bool" where
  "digest_given d \<longleftrightarrow> fd_Size d \<noteq> 0 \<or> fd_SHA256 d \<noteq> [] \<or> fd_Blake2b256 d \<noteq> []"

definition deployment_matches :: "ChunkCoherence \<Rightarrow> ReclaimDeploymentManifest \<Rightarrow> unit res list" where
  "deployment_matches c d = [
     fail_if (co_DeploymentID c \<noteq> de_DeploymentID d) ''deployment id mismatch'',
     fail_if (co_DeploymentSourceCommit c \<noteq> de_SourceCommit d) ''deployment source commit mismatch''] @
     map (\<lambda>(name, got, want). fail_if (got \<noteq> want) (name @ '' mismatch'')) [
       (''mpc ceremony id'', co_MPCCeremonyID c, dp_MPCCeremonyID d),
       (''mpc candidate id'', co_MPCCandidateID c, dp_MPCCandidateID d),
       (''production decision id'', co_ProductionDecisionID c, pl_ProductionDecisionID d),
       (''mpc release id'', co_MPCReleaseID c, pl_MPCReleaseID d),
       (''release manifest sha256'', co_ReleaseManifestSHA256 c, pl_ReleaseManifestSHA256 d)]"

definition expectation_checks :: "ChunkManifest \<Rightarrow> ChunkManifestExpectations \<Rightarrow> unit res list" where
  "expectation_checks m expected = (let c = cm_Coherence m in
     (case ex_KeyManifest expected of None \<Rightarrow> []
      | Some km \<Rightarrow> [validateAgainstKeyManifest m km,
          ValidateKeyManifestAssetDigests (Some km) (fileDigestFromAssetPin (asset_at (cm_Assets m) ''ownership.vk''))
            (fileDigestFromAssetPin (asset_at (cm_Assets m) ''ownership-destination.ccs''))]) @
     (if digest_given (ex_KeyManifestDigest expected)
      then [fail_if (co_KeyManifestSHA256 c \<noteq> fd_SHA256 (ex_KeyManifestDigest expected)) ''key manifest sha256 mismatch'',
            fail_if (co_KeyManifestBlake2b256 c \<noteq> fd_Blake2b256 (ex_KeyManifestDigest expected)) ''key manifest blake2b256 mismatch'']
      else []) @
     (case ex_Deployment expected of None \<Rightarrow> [] | Some d \<Rightarrow> deployment_matches c d) @
     [fail_if (ex_CardanoVKFormat expected \<noteq> [] \<and> co_CardanoVKFormat c \<noteq> ex_CardanoVKFormat expected) ''cardano vk format mismatch'',
      fail_if (ex_CardanoVKBlake2b256 expected \<noteq> [] \<and> co_CardanoVKBlake2b256 c \<noteq> ex_CardanoVKBlake2b256 expected)
        ''cardano vk blake2b256 mismatch''])"

definition ValidateChunkManifest ::
    "(bytes \<Rightarrow> bytes) \<Rightarrow> (bytes \<Rightarrow> bytes) \<Rightarrow> (string \<Rightarrow> go_url option) \<Rightarrow> ChunkManifest option \<Rightarrow> ChunkManifestExpectations \<Rightarrow> unit res" where
  "ValidateChunkManifest sha blake parse_url manifest expected =
     (case manifest of None \<Rightarrow> Inl (Err ''chunk manifest is required'')
      | Some m \<Rightarrow> all_ok ([
     fail_if (cm_Schema m \<noteq> ChunkManifestSchema) ''chunk manifest schema'',
     fail_if (\<not> rfc3339_accepts (cm_GeneratedAt m)) ''generated_at must be RFC3339'',
     fail_if (trim_space (cm_SignatureKeyID m) = []) ''signature_key_id is required'',
     validateTransport parse_url (cm_Transport m),
     validateChunks blake (cm_ProvingKey m) (co_ProvingKeySize (cm_Coherence m)),
     validateManifestIndex sha blake (cm_ProvingKeyIndex m) (co_ProvingKeySize (cm_Coherence m))] @
     map (\<lambda>(name, pin). validateAssetPin pin) (cm_Assets m) @ expectation_checks m expected))"

definition no_expectations :: ChunkManifestExpectations where
  "no_expectations = \<lparr>ex_KeyManifest = None, ex_KeyManifestDigest = \<lparr>fd_SHA256 = [], fd_Blake2b256 = [], fd_Size = 0\<rparr>,
     ex_Deployment = None, ex_CardanoVKFormat = [], ex_CardanoVKBlake2b256 = []\<rparr>"

section \<open>Detached signatures\<close>

definition SignDetached :: "('sk \<Rightarrow> bytes \<Rightarrow> bytes) \<Rightarrow> bytes \<Rightarrow> 'sk \<Rightarrow> string" where
  "SignDetached sign raw privateKey = hex_encode (sign privateKey raw)"

definition DecodeEd25519PublicKeyHex :: "string \<Rightarrow> bytes res" where
  "DecodeEd25519PublicKeyHex value =
     (case hex_decode (trim_space value) of None \<Rightarrow> Inl (Err ''decode public key hex'')
      | Some raw \<Rightarrow> if length raw \<noteq> 32 then Inl (Err ''public key length'') else Inr raw)"

definition VerifyDetachedSignature :: "(bytes \<Rightarrow> bytes \<Rightarrow> bytes \<Rightarrow> bool) \<Rightarrow> bytes \<Rightarrow> string \<Rightarrow> string \<Rightarrow> unit res" where
  "VerifyDetachedSignature verify raw signatureHex publicKeyHex =
     (case hex_decode (trim_space signatureHex) of None \<Rightarrow> Inl (Err ''decode signature hex'')
      | Some signature \<Rightarrow>
          bind_r (fail_if (length signature \<noteq> 64) ''signature length'') (\<lambda>_.
          bind_r (DecodeEd25519PublicKeyHex publicKeyHex) (\<lambda>publicKey.
          fail_if (\<not> verify publicKey raw signature) ''signature verification failed'')))"

section \<open>What the checks accept\<close>

lemma safeRelativePath_ok [ok_iff]:
  "safeRelativePath s = Inr u \<longleftrightarrow>
     s \<noteq> [] \<and> CHR 0x5C \<notin> set s \<and> \<not> contains s ''://'' \<and> CHR ''?'' \<notin> set s \<and> CHR ''#'' \<notin> set s \<and>
     (s = ''..'' \<or> (\<forall>w \<in> set (split_on (CHR ''/'') s). normal_elem w))"
proof -
  let ?ws = "split_on (CHR ''/'') s"
  let ?normal = "\<forall>w \<in> set ?ws. normal_elem w"
  have c1: "contains s [CHR 0x5C] \<longleftrightarrow> CHR 0x5C \<in> set s" by (simp add: contains_iff in_set_conv_decomp)
  have c2: "contains_any s ''?#'' \<longleftrightarrow> CHR ''?'' \<in> set s \<or> CHR ''#'' \<in> set s" by (auto simp: contains_any_def list_ex_iff)
  have core: "(\<not> is_abs s \<and> path_clean s \<noteq> ''.'' \<and> path_clean s = s \<and> \<not> has_prefix s ''../'' \<and> \<not> contains s ''/../'') \<longleftrightarrow>
      (s = ''..'' \<or> ?normal)" if ne: "s \<noteq> []"
  proof
    assume a: "\<not> is_abs s \<and> path_clean s \<noteq> ''.'' \<and> path_clean s = s \<and> \<not> has_prefix s ''../'' \<and> \<not> contains s ''/../''"
    then have "hd s \<noteq> CHR ''/''" "s \<noteq> ''.''" using ne by (cases s, auto simp: is_abs_def has_prefix_iff)
    then have "up_then_normal ?ws" using path_clean_relative [OF ne] a by blast
    then obtain k ns where k: "?ws = replicate k ''..'' @ ns" "list_all normal_elem ns" by (auto simp: up_then_normal_def)
    show "s = ''..'' \<or> ?normal"
    proof (cases k)
      case 0
      then show ?thesis using k by (simp add: list_all_iff)
    next
      case (Suc j)
      have j: "join_with ''/'' ?ws = s" by simp
      show ?thesis
      proof (cases "replicate j ''..'' @ ns = []")
        case True
        then show ?thesis using j k(1) Suc by simp
      next
        case False
        then have "s = ''..'' @ ''/'' @ join_with ''/'' (replicate j ''..'' @ ns)" using j k(1) Suc by (simp add: join_Cons)
        then have "s = ''../'' @ join_with ''/'' (replicate j ''..'' @ ns)" by simp
        then have "has_prefix s ''../''" by (metis has_prefix_append)
        then show ?thesis using a by blast
      qed
    qed
  next
    assume a: "s = ''..'' \<or> ?normal"
    show "\<not> is_abs s \<and> path_clean s \<noteq> ''.'' \<and> path_clean s = s \<and> \<not> has_prefix s ''../'' \<and> \<not> contains s ''/../''"
    proof (cases "s = ''..''")
      case True
      show ?thesis unfolding True by code_simp
    next
      case False
      then have n: ?normal using a by blast
      have in_ws: "w \<in> set ?ws" if "s = a @ CHR ''/'' # w @ CHR ''/'' # b" "CHR ''/'' \<notin> set w" for a w b
        using that by (simp add: split_on_sep)
      have first: "w \<in> set ?ws" if "s = w @ CHR ''/'' # b" "CHR ''/'' \<notin> set w" for w b
        using that by (simp add: split_on_sep)
      have odd: "\<not> normal_elem []" "\<not> normal_elem ''.''" "\<not> normal_elem ''..''" by (simp_all add: normal_elem_def)
      have "\<not> is_abs s"
      proof
        assume "is_abs s"
        then obtain r where "s = [] @ CHR ''/'' # r" by (auto simp: is_abs_def has_prefix_iff)
        then have "[] \<in> set ?ws" by (rule first) simp
        then show False using n odd(1) by blast
      qed
      moreover have "s \<noteq> ''.''"
      proof
        assume e: "s = ''.''"
        show False using n odd(2) unfolding e by simp
      qed
      moreover have "\<not> has_prefix s ''../''"
      proof
        assume "has_prefix s ''../''"
        then obtain r where "s = ''..'' @ CHR ''/'' # r" by (auto simp: has_prefix_iff)
        then have "''..'' \<in> set ?ws" by (rule first) simp
        then show False using n odd(3) by blast
      qed
      moreover have "\<not> contains s ''/../''"
      proof
        assume "contains s ''/../''"
        then obtain q r where "s = q @ ''/../'' @ r" unfolding contains_iff by blast
        then have "s = q @ CHR ''/'' # ''..'' @ CHR ''/'' # r" by simp
        then have "''..'' \<in> set ?ws" by (rule in_ws) simp
        then show False using n odd(3) by blast
      qed
      moreover have "up_then_normal ?ws" unfolding up_then_normal_def
        using n by (intro exI [of _ 0] exI [of _ ?ws]) (simp add: list_all_iff)
      moreover have "hd s \<noteq> CHR ''/''" using \<open>\<not> is_abs s\<close> ne by (cases s) (simp_all add: is_abs_def has_prefix_iff)
      ultimately show ?thesis using path_clean_relative [OF ne] by metis
    qed
  qed
  have "safeRelativePath s = Inr u \<longleftrightarrow> s \<noteq> [] \<and> CHR 0x5C \<notin> set s \<and> \<not> contains s ''://'' \<and> CHR ''?'' \<notin> set s \<and> CHR ''#'' \<notin> set s \<and>
     (\<not> is_abs s \<and> path_clean s \<noteq> ''.'' \<and> path_clean s = s \<and> \<not> has_prefix s ''../'' \<and> \<not> contains s ''/../'')"
  proof (cases "path_clean s = s")
    case True
    show ?thesis unfolding safeRelativePath_def Let_def c1 c2 all_ok_Cons all_ok.simps(1) fail_if_ok True by blast
  next
    case False
    then show ?thesis unfolding safeRelativePath_def Let_def c1 c2 all_ok_Cons all_ok.simps(1) fail_if_ok by blast
  qed
  then show ?thesis using core by blast
qed

definition pinned_digest :: "string \<Rightarrow> string \<Rightarrow> bool" where
  "pinned_digest pre value \<longleftrightarrow> (\<exists>h raw. value = pre @ '':'' @ h \<and> hex_decode h = Some raw \<and> length raw = 32)"

lemma decodePrefixedDigest_ok [ok_iff]:
  "decodePrefixedDigest pre value = Inr raw \<longleftrightarrow> (\<exists>h. value = pre @ '':'' @ h \<and> hex_decode h = Some raw)"
proof
  assume d: "decodePrefixedDigest pre value = Inr raw"
  then have "has_prefix value (pre @ '':'')" by (auto simp: decodePrefixedDigest_def split: if_splits)
  then obtain r where r: "value = (pre @ '':'') @ r" by (auto simp: has_prefix_iff)
  then show "\<exists>h. value = pre @ '':'' @ h \<and> hex_decode h = Some raw"
    using d by (auto simp: decodePrefixedDigest_def trim_prefix_def split: if_splits option.splits)
next
  assume "\<exists>h. value = pre @ '':'' @ h \<and> hex_decode h = Some raw"
  then obtain h where h: "value = (pre @ '':'') @ h" "hex_decode h = Some raw" by (metis append.assoc)
  show "decodePrefixedDigest pre value = Inr raw"
    unfolding decodePrefixedDigest_def h(1) has_prefix_append trim_prefix_append h(2) by (simp only: has_prefix_append not_True_eq_False if_False option.case)
qed

lemma validateDigest_ok [ok_iff]: "validateDigest pre value = Inr u \<longleftrightarrow> pinned_digest pre value"
  by (auto simp: validateDigest_def decodePrefixedDigest_ok pinned_digest_def)

lemma pinned_digest_hex [simp]: "length h = 32 \<Longrightarrow> pinned_digest pre (pre @ CHR '':'' # hex_encode h)"
  unfolding pinned_digest_def by (intro exI [of _ "hex_encode h"] exI [of _ h]) simp

lemma wrap64_add [simp]: "wrap64 (wrap64 a + b) = wrap64 (a + b)"
  by (simp add: wrap64_def mod_simps ac_simps)

lemma wrap64_wrap64 [simp]: "wrap64 (wrap64 a) = wrap64 a"
  using wrap64_add [of a 0] by simp

text \<open>What an entry at position \<open>i\<close> promises on its own.\<close>

definition pin_ok :: "nat \<Rightarrow> ChunkPin \<Rightarrow> bool" where
  "pin_ok i c \<longleftrightarrow> cp_Index c = int i \<and> 0 < cp_Size c \<and> safeRelativePath (cp_Path c) = Inr () \<and>
     pinned_digest ''sha256'' (cp_SHA256 c) \<and> pinned_digest ''blake2b256'' (cp_Blake2b256 c)"

definition pin_digest :: "ChunkPin \<Rightarrow> bytes" where
  "pin_digest c = (case hex_decode (trim_prefix (cp_Blake2b256 c) ''blake2b256:'') of Some raw \<Rightarrow> raw | None \<Rightarrow> [])"

lemma decode_pin_digest: "pinned_digest ''blake2b256'' (cp_Blake2b256 c) \<Longrightarrow>
    decodePrefixedDigest ''blake2b256'' (cp_Blake2b256 c) = Inr (pin_digest c)"
proof -
  assume "pinned_digest ''blake2b256'' (cp_Blake2b256 c)"
  then obtain h raw where h: "cp_Blake2b256 c = ''blake2b256:'' @ h" "hex_decode h = Some raw" by (auto simp: pinned_digest_def)
  have "pin_digest c = raw" unfolding pin_digest_def h(1) trim_prefix_append by (simp add: h(2))
  then show ?thesis using h by (auto simp: decodePrefixedDigest_ok)
qed

lemma root_input_ok: "(\<forall>c \<in> set cs. pinned_digest ''blake2b256'' (cp_Blake2b256 c)) \<Longrightarrow> root_input h cs = Inr (h @ concat (map pin_digest cs))"
  by (induction cs arbitrary: h) (simp_all add: decode_pin_digest)

lemma chunk_loop_ok:
  "chunk_loop pk i (wrap64 a) cs = Inr r \<longleftrightarrow>
     (\<forall>j < length cs. pin_ok (i + j) (cs ! j) \<and> cp_Offset (cs ! j) = wrap64 (a + (\<Sum>c \<leftarrow> take j cs. cp_Size c)) \<and>
        (Suc (i + j) < length (ck_Chunks pk) \<longrightarrow> cp_Size (cs ! j) = ck_ChunkSize pk)) \<and>
     r = wrap64 (a + (\<Sum>c \<leftarrow> cs. cp_Size c))"
proof (induction cs arbitrary: i a)
  case (Cons c cs)
  have s: "int i < int (length (ck_Chunks pk)) - 1 \<longleftrightarrow> Suc i < length (ck_Chunks pk)" by linarith
  show ?case
    by (simp only: chunk_loop.simps bind_r_ok all_ok_Cons all_ok.simps(1) fail_if_ok wrap_ok validateDigest_ok wrap64_add Cons.IH s
          length_Cons All_less_Suc2) (auto simp: pin_ok_def add.assoc)
qed auto

lemma take_all_size:
  assumes "\<forall>j. Suc j < length cs \<longrightarrow> cp_Size (cs ! j) = n" "j < length cs"
  shows "(\<Sum>c \<leftarrow> take j cs. cp_Size c) = int j * n"
  using assms(2)
proof (induction j)
  case (Suc j)
  then show ?case using assms(1) by (simp add: take_Suc_conv_app_nth algebra_simps)
qed simp

definition chunk_table_ok :: "ChunkedProvingKey \<Rightarrow> bool" where
  "chunk_table_ok pk \<longleftrightarrow> safeRelativePath (ck_Path pk) = Inr () \<and> 0 < ck_ChunkSize pk \<and> ck_Chunks pk \<noteq> [] \<and>
     (\<forall>j < length (ck_Chunks pk). pin_ok j (ck_Chunks pk ! j) \<and> cp_Offset (ck_Chunks pk ! j) = wrap64 (int j * ck_ChunkSize pk) \<and>
        (Suc j < length (ck_Chunks pk) \<longrightarrow> cp_Size (ck_Chunks pk ! j) = ck_ChunkSize pk))"

lemma validateChunks_ok:
  "validateChunks blake pk provingKeySize = Inr u \<longleftrightarrow>
     chunk_table_ok pk \<and> provingKeySize = wrap64 (\<Sum>c \<leftarrow> ck_Chunks pk. cp_Size c) \<and>
     ck_ChunksRoot pk = ''blake2b256:'' @ hex_encode (blake (concat (map pin_digest (ck_Chunks pk))))"
proof -
  let ?cs = "ck_Chunks pk"
  have z: "wrap64 0 = 0" by (simp add: wrap64_def)
  note loop = chunk_loop_ok [of pk 0 0 ?cs, unfolded z add_0]
  have offs: "(\<forall>j < length ?cs. pin_ok j (?cs ! j) \<and> cp_Offset (?cs ! j) = wrap64 (\<Sum>c \<leftarrow> take j ?cs. cp_Size c) \<and>
        (Suc j < length ?cs \<longrightarrow> cp_Size (?cs ! j) = ck_ChunkSize pk)) \<longleftrightarrow>
      (\<forall>j < length ?cs. pin_ok j (?cs ! j) \<and> cp_Offset (?cs ! j) = wrap64 (int j * ck_ChunkSize pk) \<and>
        (Suc j < length ?cs \<longrightarrow> cp_Size (?cs ! j) = ck_ChunkSize pk))"
    using take_all_size [of ?cs "ck_ChunkSize pk"] by (metis Suc_lessD)
  define R where "R = ''blake2b256:'' @ hex_encode (blake (concat (map pin_digest ?cs)))"
  have root: "chunksRootBlake2b256 blake ?cs = Inr R"
    if "\<forall>j < length ?cs. pin_ok j (?cs ! j)"
  proof -
    have "\<forall>c \<in> set ?cs. pinned_digest ''blake2b256'' (cp_Blake2b256 c)" using that by (auto simp: in_set_conv_nth pin_ok_def)
    then show ?thesis by (simp add: chunksRootBlake2b256_def root_input_ok R_def)
  qed
  show ?thesis unfolding validateChunks_def bind_r_ok all_ok_Cons all_ok.simps(1) fail_if_ok wrap_ok chunk_table_ok_def loop offs R_def [symmetric]
    using root by auto
qed

end
