(* ===== verification/ChunkFiles.thy ===== *)
theory ChunkFiles
  imports ChunkManifest
begin

text \<open>
  Cutting a proving key into chunks, writing and verifying them, and the generation of a whole manifest, from
  \<^verbatim>\<open>internal/proofassets/chunk_manifest.go\<close>. The file system is a map from paths to contents with a predicate that
  says which paths can be written; a source that is overwritten while it is read is not modelled.

  \<open>BuildChunkPins_eq\<close> gives the result of the loop in closed form, \<open>built_chunks_valid\<close> shows that its table passes
  \<^verbatim>\<open>validateChunks\<close>, \<open>built_chunks_stored\<close> that the files are there, \<open>VerifyChunkFiles_ok\<close> what a verification checks.
\<close>

section \<open>Files\<close>

record storage =
  files :: "string \<Rightarrow> bytes option"
  writable :: "string \<Rightarrow> bool"

definition write_file :: "storage \<Rightarrow> string \<Rightarrow> bytes \<Rightarrow> storage \<times> unit res" where
  "write_file d path raw =
     (if writable d path then (d\<lparr>files := (files d)(path \<mapsto> raw)\<rparr>, Inr ()) else (d, Inl (Err ''write'')))"

definition read_file :: "storage \<Rightarrow> string \<Rightarrow> bytes res" where
  "read_file d path = (case files d path of None \<Rightarrow> Inl (Err ''open'') | Some raw \<Rightarrow> Inr raw)"

definition DigestFile :: "(bytes \<Rightarrow> bytes) \<Rightarrow> (bytes \<Rightarrow> bytes) \<Rightarrow> storage \<Rightarrow> string \<Rightarrow> FileDigest res" where
  "DigestFile sha blake d path = bind_r (read_file d path) (\<lambda>raw. Inr (DigestBytes sha blake raw))"

section \<open>Cutting a file into chunks\<close>

record ChunkPinOptions =
  po_SourcePath :: string
  po_OutDir :: string
  po_ChunkSize :: int
  po_PathPrefix :: string
  po_WriteFiles :: bool

text \<open>\<^verbatim>\<open>fmt.Sprintf("%s%04d", prefix, i)\<close>.\<close>

definition chunk_name :: "ChunkPinOptions \<Rightarrow> nat \<Rightarrow> string" where
  "chunk_name opts i = po_PathPrefix opts @ pad 4 i"

definition store_piece :: "ChunkPinOptions \<Rightarrow> storage \<Rightarrow> nat \<Rightarrow> bytes \<Rightarrow> storage \<times> unit res" where
  "store_piece opts d i raw =
     (if po_WriteFiles opts then write_file d (filepath_join (po_OutDir opts) (chunk_name opts i)) raw else (d, Inr ()))"

definition make_pin :: "(bytes \<Rightarrow> bytes) \<Rightarrow> (bytes \<Rightarrow> bytes) \<Rightarrow> ChunkPinOptions \<Rightarrow> nat \<Rightarrow> int \<Rightarrow> bytes \<Rightarrow> ChunkPin" where
  "make_pin sha blake opts i offset raw =
     (let digest = DigestBytes sha blake raw in
      \<lparr>cp_Index = int i, cp_Offset = offset, cp_Size = int (length raw), cp_Path = chunk_name opts i,
       cp_SHA256 = fd_SHA256 digest, cp_Blake2b256 = fd_Blake2b256 digest\<rparr>)"

text \<open>
  One round reads \<open>raw\<close>, the next chunk-size bytes or what is left: nothing read ends the loop before the round's
  work, a short read after it. Offsets stay below the size of the file, so the sums do not wrap.
\<close>

function pin_loop :: "(bytes \<Rightarrow> bytes) \<Rightarrow> (bytes \<Rightarrow> bytes) \<Rightarrow> ChunkPinOptions \<Rightarrow> storage \<Rightarrow> ChunkPin list \<Rightarrow> int \<Rightarrow> bytes \<Rightarrow>
    storage \<times> ChunkPin list res" where
  "pin_loop sha blake opts d pins offset rest =
     (let raw = take (nat (po_ChunkSize opts)) rest in
      if raw = [] then (d, Inr pins)
      else (case store_piece opts d (length pins) raw of
          (d', Inl e) \<Rightarrow> (d', Inl e)
        | (d', Inr _) \<Rightarrow>
            (let pins' = pins @ [make_pin sha blake opts (length pins) offset raw] in
             if length raw < nat (po_ChunkSize opts) then (d', Inr pins')
             else pin_loop sha blake opts d' pins' (offset + int (length raw)) (drop (nat (po_ChunkSize opts)) rest))))"
  by pat_completeness auto
termination by (relation "measure (\<lambda>(_, _, _, _, _, _, rest). length rest)") auto

declare pin_loop.simps [simp del]

definition BuildChunkPins :: "(bytes \<Rightarrow> bytes) \<Rightarrow> (bytes \<Rightarrow> bytes) \<Rightarrow> ChunkPinOptions \<Rightarrow> storage \<Rightarrow> storage \<times> (ChunkPin list \<times> string) res" where
  "BuildChunkPins sha blake opts d =
     (let opts' = (if po_PathPrefix opts = [] then opts\<lparr>po_PathPrefix := ''ownership.pk.part''\<rparr> else opts) in
      case all_ok [
        fail_if (po_SourcePath opts = []) ''source path is required'',
        fail_if (po_ChunkSize opts \<le> 0) ''chunk size must be positive'',
        fail_if (po_ChunkSize opts > 2 ^ 63 - 1) ''chunk size exceeds maximum buffer size''] of
        Inl e \<Rightarrow> (d, Inl e)
      | Inr _ \<Rightarrow>
         (case read_file d (po_SourcePath opts) of
            Inl e \<Rightarrow> (d, Inl (Wrap ''open proving key'' e))
          | Inr raw \<Rightarrow>
              if po_WriteFiles opts \<and> \<not> writable d (po_OutDir opts) then (d, Inl (Err ''create chunk output directory''))
              else (case pin_loop sha blake opts' d [] 0 raw of
                  (d', Inl e) \<Rightarrow> (d', Inl e)
                | (d', Inr pins) \<Rightarrow> (d', bind_r (chunksRootBlake2b256 blake pins) (\<lambda>root. Inr (pins, root))))))"

section \<open>Verifying chunks\<close>

definition chunk_file_ok :: "(bytes \<Rightarrow> bytes) \<Rightarrow> (bytes \<Rightarrow> bytes) \<Rightarrow> storage \<Rightarrow> string \<Rightarrow> ChunkPin \<Rightarrow> unit res" where
  "chunk_file_ok sha blake d baseDir chunk =
     bind_r (DigestFile sha blake d (filepath_join baseDir (cp_Path chunk))) (\<lambda>digest. all_ok [
       fail_if (fd_Size digest \<noteq> cp_Size chunk) ''chunk size mismatch'',
       fail_if (fd_SHA256 digest \<noteq> cp_SHA256 chunk) ''chunk sha256 mismatch'',
       fail_if (fd_Blake2b256 digest \<noteq> cp_Blake2b256 chunk) ''chunk blake2b256 mismatch''])"

definition VerifyChunkFiles ::
    "(bytes \<Rightarrow> bytes) \<Rightarrow> (bytes \<Rightarrow> bytes) \<Rightarrow> (string \<Rightarrow> go_url option) \<Rightarrow> storage \<Rightarrow> ChunkManifest option \<Rightarrow> string \<Rightarrow> unit res" where
  "VerifyChunkFiles sha blake parse_url d manifest baseDir =
     bind_r (ValidateChunkManifest sha blake parse_url manifest no_expectations) (\<lambda>_.
     (case manifest of None \<Rightarrow> Inr ()
      | Some m \<Rightarrow> all_ok (map (chunk_file_ok sha blake d baseDir) (ck_Chunks (cm_ProvingKey m)))))"

section \<open>Generating a manifest\<close>

record ChunkManifestOptions =
  mo_KeyManifest :: "KeyManifest option"
  mo_KeyManifestDigest :: FileDigest
  mo_Deployment :: "ReclaimDeploymentManifest option"
  mo_ProvingKeyPath :: string
  mo_ProvingKeyName :: string
  mo_ChunkOutDir :: string
  mo_ChunkSize :: int
  mo_Release :: string
  mo_Profile :: string
  mo_BaseURL :: string
  mo_SignatureKeyID :: string
  mo_GeneratedAt :: civil
  mo_CardanoVKFormat :: string
  mo_CardanoVKBlake2b256 :: string
  mo_Assets :: "(string \<times> AssetPin) list"

definition zero_time :: civil where
  "zero_time = \<lparr>cv_year = 1, cv_month = 1, cv_day = 1, cv_hour = 0, cv_min = 0, cv_sec = 0, cv_nsec = 0\<rparr>"

text \<open>\<^verbatim>\<open>t.Format(time.RFC3339)\<close> of a UTC time: seconds, no fraction.\<close>

definition format_seconds :: "civil \<Rightarrow> string" where
  "format_seconds c = format_rfc3339 (c\<lparr>cv_nsec := 0\<rparr>)"

definition trimSuffix :: "string \<Rightarrow> string \<Rightarrow> string" where
  "trimSuffix s p = (if has_suffix s p then take (length s - length p) s else s)"

definition option_defaults :: "civil \<Rightarrow> ChunkManifestOptions \<Rightarrow> ChunkManifestOptions" where
  "option_defaults now opts =
     (let opts1 = (if mo_ProvingKeyName opts = [] then opts\<lparr>mo_ProvingKeyName := ''ownership.pk''\<rparr> else opts)
      in (if mo_GeneratedAt opts1 = zero_time then opts1\<lparr>mo_GeneratedAt := now\<rparr> else opts1))"

definition coherence_of :: "ChunkManifestOptions \<Rightarrow> KeyManifest \<Rightarrow> ReclaimDeploymentManifest \<Rightarrow> ChunkCoherence" where
  "coherence_of opts km d =
     \<lparr>co_KeyManifestSHA256 = fd_SHA256 (mo_KeyManifestDigest opts),
      co_KeyManifestBlake2b256 = fd_Blake2b256 (mo_KeyManifestDigest opts),
      co_KeyVersion = km_KeyVersion km,
      co_CircuitID = km_CircuitID km,
      co_VKHash = km_VKHash km,
      co_ProvingKeySize = km_ProvingKeySize km,
      co_ProvingKeySHA256 = km_ProvingKeySHA256 km,
      co_ProvingKeyBlake2b256 = km_ProvingKeyBlake2b256 km,
      co_VerifyingKeySHA256 = km_VerifyingKeySHA256 km,
      co_VerifyingKeySize = km_VerifyingKeySize km,
      co_ConstraintSystemHash = km_ConstraintSystemHash km,
      co_SetupTranscriptHash = km_SetupTranscriptHash km,
      co_CircuitSourceCommit = km_CircuitSourceCommit km,
      co_GnarkVersion = km_GnarkVersion km,
      co_ProofToolVersion = km_ProofToolVersion km,
      co_CardanoVKFormat = mo_CardanoVKFormat opts,
      co_CardanoVKBlake2b256 = mo_CardanoVKBlake2b256 opts,
      co_MPCCeremonyID = dp_MPCCeremonyID d,
      co_MPCCandidateID = dp_MPCCandidateID d,
      co_ProductionDecisionID = pl_ProductionDecisionID d,
      co_MPCReleaseID = pl_MPCReleaseID d,
      co_ReleaseManifestSHA256 = pl_ReleaseManifestSHA256 d,
      co_DeploymentID = de_DeploymentID d,
      co_DeploymentSourceCommit = de_SourceCommit d\<rparr>"

text \<open>The checks before the key is cut, and the index of the key.\<close>

definition generate_checks ::
    "(bytes \<Rightarrow> bytes) \<Rightarrow> (bytes \<Rightarrow> bytes) \<Rightarrow> ChunkManifestOptions \<Rightarrow> storage \<Rightarrow>
     (KeyManifest \<times> ReclaimDeploymentManifest \<times> ManifestProvingKeyIndex) res" where
  "generate_checks sha blake opts d =
     (case (mo_KeyManifest opts, mo_Deployment opts) of
        (None, _) \<Rightarrow> Inl (Err ''key manifest is required'')
      | (Some km, None) \<Rightarrow> Inl (Err ''deployment manifest is required'')
      | (Some km, Some dep) \<Rightarrow>
          bind_r (all_ok [
            fail_if (mo_ProvingKeyPath opts = []) ''proving key path is required'',
            fail_if (mo_ChunkSize opts \<le> 0) ''chunk size must be positive'',
            fail_if (trim_space (mo_SignatureKeyID opts) = []) ''signature key id is required'']) (\<lambda>_.
          bind_r (DigestFile sha blake d (mo_ProvingKeyPath opts)) (\<lambda>pkDigest.
          bind_r (all_ok [
            checkKeyManifestPK km pkDigest,
            ValidateReclaimDeployment (Some dep) (Some km) (mo_CardanoVKBlake2b256 opts),
            validateMainnetReleaseManifestDigest (Some dep) (mo_KeyManifestDigest opts),
            ValidateKeyManifestAssetDigests (Some km) (fileDigestFromAssetPin (asset_at (mo_Assets opts) ''ownership.vk''))
              (fileDigestFromAssetPin (asset_at (mo_Assets opts) ''ownership-destination.ccs''))]) (\<lambda>_.
          bind_r (bind_r (read_file d (mo_ProvingKeyPath opts)) BuildPKIndex) (\<lambda>idx.
          bind_r (fail_if (FileSize idx \<noteq> fd_Size pkDigest) ''index file size'') (\<lambda>_.
          bind_r (ManifestIndexFromPKIndex sha blake idx) (\<lambda>manifestIndex.
          Inr (km, dep, manifestIndex))))))))"

definition GenerateChunkManifest ::
    "(bytes \<Rightarrow> bytes) \<Rightarrow> (bytes \<Rightarrow> bytes) \<Rightarrow> civil \<Rightarrow> ChunkManifestOptions \<Rightarrow> storage \<Rightarrow> storage \<times> ChunkManifest res" where
  "GenerateChunkManifest sha blake now options d =
     (let opts = option_defaults now options in
      case generate_checks sha blake opts d of
        Inl e \<Rightarrow> (d, Inl e)
      | Inr (km, dep, manifestIndex) \<Rightarrow>
         (case BuildChunkPins sha blake
              \<lparr>po_SourcePath = mo_ProvingKeyPath opts, po_OutDir = mo_ChunkOutDir opts, po_ChunkSize = mo_ChunkSize opts,
               po_PathPrefix = trimSuffix (mo_ProvingKeyName opts) ''.pk'' @ ''.pk.part'',
               po_WriteFiles = (mo_ChunkOutDir opts \<noteq> [])\<rparr> d of
            (d', Inl e) \<Rightarrow> (d', Inl e)
          | (d', Inr (pins, root)) \<Rightarrow>
              (d', Inr \<lparr>cm_Schema = ChunkManifestSchema, cm_Release = mo_Release opts, cm_Profile = mo_Profile opts,
                cm_GeneratedAt = format_seconds (mo_GeneratedAt opts), cm_SignatureKeyID = mo_SignatureKeyID opts,
                cm_Coherence = coherence_of opts km dep,
                cm_Transport = \<lparr>tr_BaseURL = mo_BaseURL opts, tr_ContentEncoding = ''identity'', tr_RequiresHTTPS = True, tr_SupportsRange = True\<rparr>,
                cm_ProvingKey = \<lparr>ck_Path = mo_ProvingKeyName opts, ck_ChunkSize = mo_ChunkSize opts, ck_ChunksRoot = root, ck_Chunks = pins\<rparr>,
                cm_ProvingKeyIndex = manifestIndex, cm_Assets = mo_Assets opts\<rparr>)))"

section \<open>The pieces of a file\<close>

function pieces :: "nat \<Rightarrow> bytes \<Rightarrow> bytes list" where
  "pieces n xs = (if take n xs = [] then [] else take n xs # pieces n (drop n xs))"
  by pat_completeness auto
termination by (relation "measure (\<lambda>(n, xs). length xs)") auto

declare pieces.simps [simp del]

lemma pieces_Nil [simp]: "pieces n [] = []"
  by (simp add: pieces.simps)

lemma concat_pieces: "0 < n \<Longrightarrow> concat (pieces n xs) = xs"
  by (induction n xs rule: pieces.induct) (subst pieces.simps, auto)

lemma pieces_eq_Nil: "0 < n \<Longrightarrow> pieces n xs = [] \<longleftrightarrow> xs = []"
  by (subst pieces.simps) auto

lemma pieces_not_Nil: "p \<in> set (pieces n xs) \<Longrightarrow> p \<noteq> []"
proof (induction n xs rule: pieces.induct)
  case (1 n xs)
  show ?case using 1(2) by (subst (asm) pieces.simps) (use 1(1) in \<open>auto split: if_splits\<close>)
qed

lemma pieces_full: "Suc j < length (pieces n xs) \<Longrightarrow> length (pieces n xs ! j) = n"
proof (induction n xs arbitrary: j rule: pieces.induct)
  case (1 n xs)
  show ?case
  proof (cases "take n xs = []")
    case True
    then show ?thesis using 1(2) by (simp add: pieces.simps [of n xs])
  next
    case False
    note e = pieces.simps [of n xs, simplified if_not_P [OF False]]
    show ?thesis
    proof (cases j)
      case 0
      then have "pieces n (drop n xs) \<noteq> []" using 1(2) unfolding e by auto
      then have "drop n xs \<noteq> []" by (rule contrapos_nn) simp
      then show ?thesis unfolding e 0 by simp
    next
      case (Suc i)
      then show ?thesis using 1(1) [OF False, of i] 1(2) unfolding e by simp
    qed
  qed
qed

text \<open>The pins and the stores of a list of pieces.\<close>

fun pins_from :: "(bytes \<Rightarrow> bytes) \<Rightarrow> (bytes \<Rightarrow> bytes) \<Rightarrow> ChunkPinOptions \<Rightarrow> nat \<Rightarrow> int \<Rightarrow> bytes list \<Rightarrow> ChunkPin list" where
  "pins_from sha blake opts i offset [] = []"
| "pins_from sha blake opts i offset (p # ps) =
     make_pin sha blake opts i offset p # pins_from sha blake opts (Suc i) (offset + int (length p)) ps"

fun store_pieces :: "ChunkPinOptions \<Rightarrow> storage \<Rightarrow> nat \<Rightarrow> bytes list \<Rightarrow> storage \<times> unit res" where
  "store_pieces opts d i [] = (d, Inr ())"
| "store_pieces opts d i (p # ps) =
     (case store_piece opts d i p of (d', Inl e) \<Rightarrow> (d', Inl e) | (d', Inr _) \<Rightarrow> store_pieces opts d' (Suc i) ps)"

lemma pin_loop_eq:
  "pin_loop sha blake opts d pins offset rest =
     (let ps = pieces (nat (po_ChunkSize opts)) rest in
      case store_pieces opts d (length pins) ps of
        (d', Inl e) \<Rightarrow> (d', Inl e)
      | (d', Inr _) \<Rightarrow> (d', Inr (pins @ pins_from sha blake opts (length pins) offset ps)))"
proof (induction sha blake opts d pins offset rest rule: pin_loop.induct)
  case (1 sha blake opts d pins offset rest)
  define n where "n = nat (po_ChunkSize opts)"
  define raw where "raw = take n rest"
  define pin where "pin = make_pin sha blake opts (length pins) offset raw"
  note defs = n_def [symmetric] raw_def [symmetric] pin_def [symmetric]
  show ?case
  proof (cases "raw = []")
    case True
    then show ?thesis by (simp add: pin_loop.simps [of _ _ _ d] pieces.simps [of n rest] Let_def defs)
  next
    case ne: False
    obtain d' r where st: "store_piece opts d (length pins) raw = (d', r)" by (cases "store_piece opts d (length pins) raw")
    have e: "pieces n rest = raw # pieces n (drop n rest)" using ne by (subst pieces.simps) (simp add: raw_def)
    have l: "pin_loop sha blake opts d pins offset rest = (case (d', r) of (d', Inl e) \<Rightarrow> (d', Inl e)
        | (d', Inr _) \<Rightarrow> if length raw < n then (d', Inr (pins @ [pin]))
            else pin_loop sha blake opts d' (pins @ [pin]) (offset + int (length raw)) (drop n rest))"
      using ne by (subst pin_loop.simps) (simp only: Let_def defs if_False st)
    show ?thesis
    proof (cases r)
      case (Inl x)
      then show ?thesis unfolding l e defs Let_def by (simp add: st)
    next
      case (Inr u)
      show ?thesis
      proof (cases "length raw < n")
        case True
        then have "drop n rest = []" by (simp add: raw_def)
        then show ?thesis unfolding l e defs Let_def using True Inr by (simp add: st pin_def)
      next
        case False
        have IH: "pin_loop sha blake opts d' (pins @ [pin]) (offset + int (length raw)) (drop n rest) =
            (let ps = pieces n (drop n rest) in
             case store_pieces opts d' (length (pins @ [pin])) ps of
               (d', Inl e) \<Rightarrow> (d', Inl e)
             | (d', Inr _) \<Rightarrow> (d', Inr ((pins @ [pin]) @ pins_from sha blake opts (length (pins @ [pin])) (offset + int (length raw)) ps)))"
          using 1 [of raw d' r u "pins @ [pin]"] ne st Inr False by (simp only: defs not_False_eq_True refl simp_thms)
        show ?thesis unfolding l e defs Let_def using False Inr IH
          by (simp add: st pin_def Let_def split: prod.split sum.split)
      qed
    qed
  qed
qed

lemma length_pins_from [simp]: "length (pins_from sha blake opts i off ps) = length ps"
  by (induction ps arbitrary: i off) simp_all

lemma nth_pins_from:
  "j < length ps \<Longrightarrow> pins_from sha blake opts i off ps ! j =
     make_pin sha blake opts (i + j) (off + int (length (concat (take j ps)))) (ps ! j)"
proof (induction ps arbitrary: i off j)
  case (Cons p ps)
  then show ?case by (cases j) (simp_all add: algebra_simps)
qed simp

lemma sizes_pins_from: "map cp_Size (pins_from sha blake opts i off ps) = map (int \<circ> length) ps"
  by (induction ps arbitrary: i off) (simp_all add: make_pin_def Let_def DigestBytes_def)

section \<open>Names\<close>

lemma pad_digits: "list_all is_digit (pad w n)" "pad w n \<noteq> []"
  using dec_digits [of n] by (auto simp: pad_def Let_def list_all_iff is_digit_def in_range_def code_def)

lemma undec_zeros [simp]: "undec (replicate k (CHR ''0'') @ s) = undec s"
  by (induction k) (simp_all add: undec_def)

lemma pad_inj [simp]: "pad w m = pad w n \<longleftrightarrow> m = n"
proof
  assume "pad w m = pad w n"
  then have "undec (pad w m) = undec (pad w n)" by simp
  then show "m = n" by (simp add: pad_def Let_def)
qed simp

lemma chunk_path_inj:
  "filepath_join dir (chunk_name opts i) = filepath_join dir (chunk_name opts j) \<longleftrightarrow> i = j"
  using filepath_join_inj [of dir "po_PathPrefix opts" "pad 4 i" "pad 4 j"] pad_digits by (auto simp: chunk_name_def)

text \<open>A plain suffix keeps a path safe.\<close>

lemma contains_append_plain:
  assumes "contains (a @ b) p" "set b \<inter> set p = {}" "p \<noteq> []"
  shows "contains a p"
proof -
  obtain x y where e: "a @ b = x @ p @ y" using assms(1) by (auto simp: contains_iff)
  then have "a @ b = (x @ p) @ y" by simp
  then obtain u where "a = (x @ p) @ u \<and> u @ b = y \<or> a @ u = x @ p \<and> b = u @ y"
    unfolding append_eq_append_conv2 by blast
  then show ?thesis
  proof (elim disjE conjE)
    assume 1: "a @ u = x @ p" "b = u @ y"
    have "u = []"
    proof (rule ccontr)
      assume "u \<noteq> []"
      then have "last u = last p" using 1(1) assms(3) by (metis last_appendR)
      then have "last p \<in> set b" using 1(2) \<open>u \<noteq> []\<close> by (metis Un_iff last_in_set set_append)
      then show False using assms(2,3) by (metis disjoint_iff last_in_set)
    qed
    then show ?thesis using 1(1) by (metis append_Nil2 contains_iff)
  next
    assume "a = (x @ p) @ u"
    then show ?thesis by (auto simp: contains_iff)
  qed
qed

lemma safe_suffix:
  assumes "safeRelativePath (b @ s1) = Inr ()" "CHR ''/'' \<notin> set s1"
    and "s2 \<noteq> []" "last s2 \<noteq> CHR ''.''" "set s2 \<inter> {CHR 0x5C, CHR ''?'', CHR ''#'', CHR ''/'', CHR '':''} = {}"
  shows "safeRelativePath (b @ s2) = Inr ()"
proof -
  note s = assms(1) [unfolded safeRelativePath_ok]
  let ?W = "split_on (CHR ''/'') b"
  have w1: "split_on (CHR ''/'') (b @ s1) = butlast ?W @ [last ?W @ s1]" using assms(2) by (rule split_on_append)
  have w2: "split_on (CHR ''/'') (b @ s2) = butlast ?W @ [last ?W @ s2]" using assms(5) by (intro split_on_append) auto
  have bl: "normal_elem w" if w: "w \<in> set (butlast ?W)" for w
  proof (cases "b @ s1 = ''..''")
    case True
    have "split_on (CHR ''/'') (b @ s1) = [''..'']" unfolding True by code_simp
    then have "butlast ?W = []" using w1 by (metis append_butlast_last_id butlast.simps(2) butlast_snoc not_Cons_self)
    then show ?thesis using w by simp
  next
    case False
    then show ?thesis using s w unfolding w1 by auto
  qed
  have "last (last ?W @ s2) \<noteq> CHR ''.''" using assms(3,4) by simp
  then have "normal_elem (last ?W @ s2)" using assms(3) by (auto simp: normal_elem_def simp del: last_appendR)
  then have n: "\<forall>w \<in> set (split_on (CHR ''/'') (b @ s2)). normal_elem w" using bl unfolding w2 by auto
  have "\<not> contains (b @ s2) ''://''"
  proof
    assume "contains (b @ s2) ''://''"
    then have "contains b ''://''" by (rule contains_append_plain) (use assms(5) in auto)
    then have "contains (b @ s1) ''://''" unfolding contains_iff by (metis append.assoc)
    then show False using s by blast
  qed
  moreover have "CHR 0x5C \<notin> set (b @ s2)" "CHR ''?'' \<notin> set (b @ s2)" "CHR ''#'' \<notin> set (b @ s2)" using s assms(5) by auto
  ultimately show ?thesis unfolding safeRelativePath_ok using n assms(3) by simp
qed


lemma pad_plain: "set (pad w n) \<inter> {CHR 0x5C, CHR ''?'', CHR ''#'', CHR ''/'', CHR '':''} = {}" "last (pad w n) \<noteq> CHR ''.''"
proof -
  have d: "is_digit c" if "c \<in> set (pad w n)" for c using that pad_digits(1) [of w n] by (simp add: list_all_iff)
  have nd: "\<not> is_digit c" if "c \<in> {CHR 0x5C, CHR ''?'', CHR ''#'', CHR ''/'', CHR '':'', CHR ''.''}" for c
    using that by (elim insertE emptyE) (simp_all add: is_digit_def in_range_def code_def)
  show "set (pad w n) \<inter> {CHR 0x5C, CHR ''?'', CHR ''#'', CHR ''/'', CHR '':''} = {}" using d nd by blast
  show "last (pad w n) \<noteq> CHR ''.''" using d [OF last_in_set [OF pad_digits(2)]] nd by blast
qed

lemma chunk_name_safe: "safeRelativePath (chunk_name opts 0) = Inr () \<Longrightarrow> safeRelativePath (chunk_name opts i) = Inr ()"
  unfolding chunk_name_def
  by (rule safe_suffix [OF _ _ pad_digits(2) pad_plain(2) pad_plain(1)]) (use pad_plain(1) [of 4 0] in blast)+

lemma DigestBytes_ok:
  "length (sha raw) = 32 \<Longrightarrow> pinned_digest ''sha256'' (fd_SHA256 (DigestBytes sha blake raw))"
  "length (blake raw) = 32 \<Longrightarrow> pinned_digest ''blake2b256'' (fd_Blake2b256 (DigestBytes sha blake raw))"
  using pinned_digest_hex [of "sha raw" "''sha256''"] pinned_digest_hex [of "blake raw" "''blake2b256''"] by (simp_all add: DigestBytes_def)

lemma DigestBytes_eq [simp]:
  "fd_SHA256 (DigestBytes sha blake x) = fd_SHA256 (DigestBytes sha blake y) \<longleftrightarrow> sha x = sha y"
  "fd_Blake2b256 (DigestBytes sha blake x) = fd_Blake2b256 (DigestBytes sha blake y) \<longleftrightarrow> blake x = blake y"
  by (simp_all add: DigestBytes_def)

lemma sum_lengths: "(\<Sum>p \<leftarrow> ps. int (length p)) = int (length (concat ps))"
  by (induction ps) simp_all

lemma DigestBytes_size [simp]: "fd_Size (DigestBytes sha blake raw) = int (length raw)"
  by (simp add: DigestBytes_def)

section \<open>What the cut chunks are\<close>

definition with_prefix :: "ChunkPinOptions \<Rightarrow> ChunkPinOptions" where
  "with_prefix opts = (if po_PathPrefix opts = [] then opts\<lparr>po_PathPrefix := ''ownership.pk.part''\<rparr> else opts)"

lemma with_prefix_simps [simp]:
  "po_SourcePath (with_prefix opts) = po_SourcePath opts" "po_OutDir (with_prefix opts) = po_OutDir opts"
  "po_ChunkSize (with_prefix opts) = po_ChunkSize opts" "po_WriteFiles (with_prefix opts) = po_WriteFiles opts"
  by (simp_all add: with_prefix_def)

lemma store_pieces_done:
  assumes "store_pieces opts d i ps = (d', Inr u)" "po_WriteFiles opts"
  shows "(\<forall>j < length ps. files d' (filepath_join (po_OutDir opts) (chunk_name opts (i + j))) = Some (ps ! j)) \<and>
    (\<forall>path. (\<forall>j < length ps. path \<noteq> filepath_join (po_OutDir opts) (chunk_name opts (i + j))) \<longrightarrow> files d' path = files d path)"
  using assms(1)
proof (induction ps arbitrary: i d)
  case (Cons p ps)
  let ?path = "\<lambda>i. filepath_join (po_OutDir opts) (chunk_name opts i)"
  obtain d1 where d1: "d1 = d\<lparr>files := (files d)(?path i \<mapsto> p)\<rparr>" "store_pieces opts d1 (Suc i) ps = (d', Inr u)"
    using Cons.prems assms(2) by (auto simp: store_piece_def write_file_def split: if_splits)
  note IH = Cons.IH [OF d1(2)]
  have "\<forall>j < length ps. ?path i \<noteq> ?path (Suc i + j)" by (simp add: chunk_path_inj)
  then have first: "files d' (?path i) = Some p" using IH d1(1) by simp
  show ?case
  proof (intro conjI allI impI)
    fix j assume j: "j < length (p # ps)"
    show "files d' (?path (i + j)) = Some ((p # ps) ! j)"
    proof (cases j)
      case 0
      then show ?thesis using first by simp
    next
      case (Suc k)
      then show ?thesis using IH j by simp
    qed
  next
    fix path assume n: "\<forall>j < length (p # ps). path \<noteq> ?path (i + j)"
    then have "path \<noteq> ?path i" by (metis add_0_right length_Cons zero_less_Suc)
    moreover have "\<forall>j < length ps. path \<noteq> ?path (Suc i + j)"
    proof (intro allI impI)
      fix j assume "j < length ps"
      then show "path \<noteq> ?path (Suc i + j)" using n [rule_format, of "Suc j"] by simp
    qed
    ultimately show "files d' path = files d path" using IH d1(1) by simp
  qed
qed simp

lemma BuildChunkPins_eq:
  "BuildChunkPins sha blake opts d = (d', Inr (pins, root)) \<longleftrightarrow>
     po_SourcePath opts \<noteq> [] \<and> 0 < po_ChunkSize opts \<and> po_ChunkSize opts < 2 ^ 63 \<and> (po_WriteFiles opts \<longrightarrow> writable d (po_OutDir opts)) \<and>
     (\<exists>raw. files d (po_SourcePath opts) = Some raw \<and>
        store_pieces (with_prefix opts) d 0 (pieces (nat (po_ChunkSize opts)) raw) = (d', Inr ()) \<and>
        pins = pins_from sha blake (with_prefix opts) 0 0 (pieces (nat (po_ChunkSize opts)) raw) \<and>
        chunksRootBlake2b256 blake pins = Inr root)"
proof -
  let ?checks = "all_ok [
        fail_if (po_SourcePath opts = []) ''source path is required'',
        fail_if (po_ChunkSize opts \<le> 0) ''chunk size must be positive'',
        fail_if (po_ChunkSize opts > 2 ^ 63 - 1) ''chunk size exceeds maximum buffer size'']"
  have c: "?checks = Inr () \<longleftrightarrow> po_SourcePath opts \<noteq> [] \<and> 0 < po_ChunkSize opts \<and> po_ChunkSize opts < 2 ^ 63"
    by (simp only: all_ok_Cons all_ok.simps(1) fail_if_ok) auto
  show ?thesis
  proof (cases ?checks)
    case (Inl e)
    then have "\<not> (po_SourcePath opts \<noteq> [] \<and> 0 < po_ChunkSize opts \<and> po_ChunkSize opts < 2 ^ 63)"
      using c by (metis Inl_Inr_False)
    then show ?thesis unfolding BuildChunkPins_def Let_def Inl by auto
  next
    case (Inr u)
    then have i: "po_SourcePath opts \<noteq> [] \<and> 0 < po_ChunkSize opts \<and> po_ChunkSize opts < 2 ^ 63" using c by simp
    obtain d1 r where st: "\<And>raw. files d (po_SourcePath opts) = Some raw \<Longrightarrow>
        store_pieces (with_prefix opts) d 0 (pieces (nat (po_ChunkSize opts)) raw) = (d1, r)"
      by (cases "files d (po_SourcePath opts)") (fastforce intro: prod.exhaust)+
    consider "files d (po_SourcePath opts) = None" | raw where "files d (po_SourcePath opts) = Some raw" "po_WriteFiles opts \<and> \<not> writable d (po_OutDir opts)"
      | raw where "files d (po_SourcePath opts) = Some raw" "po_WriteFiles opts \<longrightarrow> writable d (po_OutDir opts)" by blast
    then show ?thesis
    proof cases
      case 1
      then show ?thesis unfolding BuildChunkPins_def Let_def Inr by (simp add: read_file_def)
    next
      case 2
      then show ?thesis unfolding BuildChunkPins_def Let_def Inr by (simp add: read_file_def)
    next
      case 3
      then have w: "(po_WriteFiles opts \<and> \<not> writable d (po_OutDir opts)) = False" by blast
      show ?thesis unfolding BuildChunkPins_def Let_def Inr with_prefix_def [symmetric] using i 3 st [OF 3(1)]
        by (cases r) (auto simp: read_file_def w pin_loop_eq Let_def)
    qed
  qed
qed

lemma pieces_offset: "j < length (pieces n raw) \<Longrightarrow> length (concat (take j (pieces n raw))) = j * n"
proof (induction j)
  case (Suc j)
  then show ?case using pieces_full [of j n raw] by (simp add: take_Suc_conv_app_nth)
qed simp

lemma built_chunks_valid:
  assumes b: "BuildChunkPins sha blake opts d = (d', Inr (pins, root))" "files d (po_SourcePath opts) = Some raw"
    and raw: "raw \<noteq> []" "length raw < 2 ^ 63"
    and h: "\<And>b. length (sha b) = 32" "\<And>b. length (blake b) = 32"
    and safe: "safeRelativePath (chunk_name (with_prefix opts) 0) = Inr ()" "safeRelativePath path = Inr ()"
  shows "validateChunks blake \<lparr>ck_Path = path, ck_ChunkSize = po_ChunkSize opts, ck_ChunksRoot = root, ck_Chunks = pins\<rparr> (int (length raw)) = Inr ()"
proof -
  define n where "n = nat (po_ChunkSize opts)"
  define ps where "ps = pieces n raw"
  have n: "0 < n" "int n = po_ChunkSize opts" using b by (auto simp: BuildChunkPins_eq n_def)
  have pins: "pins = pins_from sha blake (with_prefix opts) 0 0 ps" "chunksRootBlake2b256 blake pins = Inr root"
    using b by (auto simp: BuildChunkPins_eq n_def ps_def)
  have cat: "concat ps = raw" unfolding ps_def by (rule concat_pieces [OF n(1)])
  have ne: "ps \<noteq> []" using raw(1) n(1) by (simp add: ps_def pieces_eq_Nil)
  have pin: "pins ! j = make_pin sha blake (with_prefix opts) j (int (j * n)) (ps ! j)" if "j < length ps" for j
    using that pieces_offset [of j n raw] by (simp add: pins(1) nth_pins_from flip: ps_def)
  have small: "wrap64 (int (j * n)) = int (j * n)" if j: "j < length ps" for j
  proof -
    have "length (concat (take j ps)) + length (concat (drop j ps)) = length raw"
      using cat by (metis append_take_drop_id concat_append length_append)
    then have "j * n < 2 ^ 63" using raw(2) pieces_offset [of j n raw] j by (simp add: ps_def)
    then have "int (j * n) < 2 ^ 63" by (metis of_nat_less_numeral_power_cancel_iff)
    then show ?thesis by (intro wrap64_id) (simp_all del: of_nat_mult)
  qed
  have entry: "pin_ok j (pins ! j)" if j: "j < length ps" for j
  proof -
    have "ps ! j \<noteq> []" using j pieces_not_Nil [of "ps ! j" n raw] by (simp add: ps_def)
    then show ?thesis using chunk_name_safe [OF safe(1)] h
      unfolding pin [OF j] pin_ok_def make_pin_def Let_def by (simp add: DigestBytes_ok)
  qed
  have size: "cp_Size (pins ! j) = po_ChunkSize opts" if j: "Suc j < length ps" for j
    using pieces_full [of j n raw] j pin [of j] n by (simp add: ps_def make_pin_def DigestBytes_def Let_def)
  have off: "cp_Offset (pins ! j) = wrap64 (int j * po_ChunkSize opts)" if j: "j < length ps" for j
    using pin [OF j] small [OF j] n(2) by (simp add: make_pin_def DigestBytes_def Let_def)
  let ?pk = "\<lparr>ck_Path = path, ck_ChunkSize = po_ChunkSize opts, ck_ChunksRoot = root, ck_Chunks = pins\<rparr>"
  have len: "length pins = length ps" by (simp add: pins(1))
  have table: "chunk_table_ok ?pk" using safe(2) n ne entry size off by (simp add: chunk_table_ok_def len flip: length_greater_0_conv)
  have "(\<Sum>c \<leftarrow> pins. cp_Size c) = int (length raw)"
    unfolding cat [symmetric] pins(1) sizes_pins_from comp_def by (rule sum_lengths)
  moreover have "root = ''blake2b256:'' @ hex_encode (blake (concat (map pin_digest pins)))"
  proof -
    have "\<forall>c \<in> set pins. pinned_digest ''blake2b256'' (cp_Blake2b256 c)" using entry len by (auto simp: in_set_conv_nth pin_ok_def)
    then show ?thesis using pins(2) by (simp add: chunksRootBlake2b256_def root_input_ok)
  qed
  ultimately show ?thesis unfolding validateChunks_ok using table wrap64_id [of "int (length raw)"] raw(2) by simp
qed

lemma built_chunks_stored:
  assumes b: "BuildChunkPins sha blake opts d = (d', Inr (pins, root))" "files d (po_SourcePath opts) = Some raw" "po_WriteFiles opts"
  shows "(\<forall>c \<in> set pins. chunk_file_ok sha blake d' (po_OutDir opts) c = Inr ()) \<and>
    concat (map (\<lambda>c. the (files d' (filepath_join (po_OutDir opts) (cp_Path c)))) pins) = raw \<and>
    (\<forall>path. (\<forall>c \<in> set pins. path \<noteq> filepath_join (po_OutDir opts) (cp_Path c)) \<longrightarrow> files d' path = files d path)"
proof -
  define n where "n = nat (po_ChunkSize opts)"
  define ps where "ps = pieces n raw"
  let ?path = "\<lambda>i. filepath_join (po_OutDir opts) (chunk_name (with_prefix opts) i)"
  have n: "0 < n" using b by (auto simp: BuildChunkPins_eq n_def)
  have pins: "pins = pins_from sha blake (with_prefix opts) 0 0 ps" "store_pieces (with_prefix opts) d 0 ps = (d', Inr ())"
    using b by (auto simp: BuildChunkPins_eq n_def ps_def)
  note st = store_pieces_done [OF pins(2), simplified, OF b(3)]
  have len: "length pins = length ps" by (simp add: pins(1))
  have pin: "cp_Path (pins ! j) = chunk_name (with_prefix opts) j" "files d' (filepath_join (po_OutDir opts) (cp_Path (pins ! j))) = Some (ps ! j)"
      "chunk_file_ok sha blake d' (po_OutDir opts) (pins ! j) = Inr ()" if j: "j < length ps" for j
    using st j by (simp_all add: pins(1) nth_pins_from make_pin_def Let_def chunk_file_ok_def DigestFile_def read_file_def DigestBytes_def)
  have "map (\<lambda>c. the (files d' (filepath_join (po_OutDir opts) (cp_Path c)))) pins = ps"
    by (rule nth_equalityI) (simp_all add: len pin(2))
  then have "concat (map (\<lambda>c. the (files d' (filepath_join (po_OutDir opts) (cp_Path c)))) pins) = raw"
    using concat_pieces [OF n, of raw] by (simp add: ps_def)
  moreover have "files d' path = files d path" if "\<forall>c \<in> set pins. path \<noteq> filepath_join (po_OutDir opts) (cp_Path c)" for path
  proof -
    have "\<forall>j < length ps. path \<noteq> ?path j" using that len pin(1) by (metis nth_mem)
    then show ?thesis using st by blast
  qed
  ultimately show ?thesis using pin(3) len by (auto simp: in_set_conv_nth)
qed

section \<open>What a verification promises\<close>

definition chunk_files :: "storage \<Rightarrow> string \<Rightarrow> ChunkPin list \<Rightarrow> bytes list" where
  "chunk_files d baseDir pins = map (\<lambda>c. the (files d (filepath_join baseDir (cp_Path c)))) pins"

lemma chunk_file_ok_iff:
  "chunk_file_ok sha blake d baseDir c = Inr u \<longleftrightarrow>
     (\<exists>raw. files d (filepath_join baseDir (cp_Path c)) = Some raw \<and> int (length raw) = cp_Size c \<and>
        fd_SHA256 (DigestBytes sha blake raw) = cp_SHA256 c \<and> fd_Blake2b256 (DigestBytes sha blake raw) = cp_Blake2b256 c)"
  by (auto simp: chunk_file_ok_def DigestFile_def read_file_def split: option.splits)

lemma VerifyChunkFiles_ok:
  "VerifyChunkFiles sha blake parse_url d (Some m) baseDir = Inr u \<longleftrightarrow>
     ValidateChunkManifest sha blake parse_url (Some m) no_expectations = Inr () \<and>
     (\<forall>c \<in> set (ck_Chunks (cm_ProvingKey m)). chunk_file_ok sha blake d baseDir c = Inr ())"
  by (auto simp: VerifyChunkFiles_def)

text \<open>Two verified copies of the chunks agree, or a chunk exhibits a collision of both hash functions.\<close>

lemma verified_copies_agree:
  assumes "\<forall>c \<in> set pins. chunk_file_ok sha blake d base c = Inr ()" "\<forall>c \<in> set pins. chunk_file_ok sha blake d' base' c = Inr ()"
  shows "chunk_files d base pins = chunk_files d' base' pins \<or>
    (\<exists>j < length pins. chunk_files d base pins ! j \<noteq> chunk_files d' base' pins ! j \<and>
       sha (chunk_files d base pins ! j) = sha (chunk_files d' base' pins ! j) \<and>
       blake (chunk_files d base pins ! j) = blake (chunk_files d' base' pins ! j))"
proof (cases "chunk_files d base pins = chunk_files d' base' pins")
  case False
  then obtain j where j: "j < length pins" "chunk_files d base pins ! j \<noteq> chunk_files d' base' pins ! j"
    using nth_equalityI [of "chunk_files d base pins" "chunk_files d' base' pins"] by (auto simp: chunk_files_def)
  have c: "pins ! j \<in> set pins" using j(1) by simp
  have "sha (chunk_files d base pins ! j) = sha (chunk_files d' base' pins ! j) \<and>
       blake (chunk_files d base pins ! j) = blake (chunk_files d' base' pins ! j)"
  proof -
    obtain x y where "files d (filepath_join base (cp_Path (pins ! j))) = Some x" "files d' (filepath_join base' (cp_Path (pins ! j))) = Some y"
      "fd_SHA256 (DigestBytes sha blake x) = fd_SHA256 (DigestBytes sha blake y)"
      "fd_Blake2b256 (DigestBytes sha blake x) = fd_Blake2b256 (DigestBytes sha blake y)"
      using assms(1) [rule_format, OF c] assms(2) [rule_format, OF c] unfolding chunk_file_ok_iff by metis
    then show ?thesis using j(1) by (simp add: chunk_files_def)
  qed
  then show ?thesis using j by blast
qed simp


section \<open>Validated sizes\<close>

lemma pin_sizes_nonneg: "chunk_table_ok pk \<Longrightarrow> c \<in> set (ck_Chunks pk) \<Longrightarrow> 0 \<le> cp_Size c"
  by (fastforce simp: chunk_table_ok_def pin_ok_def in_set_conv_nth)

lemma validated_prefix:
  assumes "chunk_table_ok pk" "(\<Sum>c \<leftarrow> ck_Chunks pk. cp_Size c) < 2 ^ 63"
  shows "wrap64 (\<Sum>c \<leftarrow> take j (ck_Chunks pk). cp_Size c) = (\<Sum>c \<leftarrow> take j (ck_Chunks pk). cp_Size c)"
proof -
  have nn: "0 \<le> cp_Size c" if "c \<in> set (ck_Chunks pk)" for c using pin_sizes_nonneg [OF assms(1) that] .
  have "(\<Sum>c \<leftarrow> ck_Chunks pk. cp_Size c) = (\<Sum>c \<leftarrow> take j (ck_Chunks pk). cp_Size c) + (\<Sum>c \<leftarrow> drop j (ck_Chunks pk). cp_Size c)"
    by (metis append_take_drop_id map_append sum_list_append)
  moreover have "0 \<le> (\<Sum>c \<leftarrow> take j (ck_Chunks pk). cp_Size c)" "0 \<le> (\<Sum>c \<leftarrow> drop j (ck_Chunks pk). cp_Size c)"
    by (intro sum_list_nonneg; use nn in_set_takeD in_set_dropD in fastforce)+
  ultimately show ?thesis using assms(2) by (intro wrap64_id) auto
qed

lemma validated_size:
  assumes "validateChunks blake pk provingKeySize = Inr ()" "(\<Sum>c \<leftarrow> ck_Chunks pk. cp_Size c) < 2 ^ 63"
  shows "provingKeySize = (\<Sum>c \<leftarrow> ck_Chunks pk. cp_Size c)"
  using assms validated_prefix [of pk "length (ck_Chunks pk)"] by (simp add: validateChunks_ok)

lemma validated_offset:
  assumes "validateChunks blake pk provingKeySize = Inr ()" "(\<Sum>c \<leftarrow> ck_Chunks pk. cp_Size c) < 2 ^ 63" "j < length (ck_Chunks pk)"
  shows "cp_Offset (ck_Chunks pk ! j) = (\<Sum>c \<leftarrow> take j (ck_Chunks pk). cp_Size c)"
proof -
  have t: "chunk_table_ok pk" using assms(1) by (simp add: validateChunks_ok)
  then have full: "\<forall>i. Suc i < length (ck_Chunks pk) \<longrightarrow> cp_Size (ck_Chunks pk ! i) = ck_ChunkSize pk"
    using Suc_lessD unfolding chunk_table_ok_def by blast
  have "cp_Offset (ck_Chunks pk ! j) = wrap64 (int j * ck_ChunkSize pk)" using t assms(3) by (simp add: chunk_table_ok_def)
  then show ?thesis using take_all_size [OF full assms(3)] validated_prefix [OF t assms(2), of j] by simp
qed

section \<open>A printed time is accepted\<close>

definition civil_ok :: "civil \<Rightarrow> bool" where
  "civil_ok c \<longleftrightarrow> cv_year c \<le> 9999 \<and> 1 \<le> cv_month c \<and> cv_month c \<le> 12 \<and> 1 \<le> cv_day c \<and>
     cv_day c \<le> days_in (cv_month c) (cv_year c) \<and> cv_hour c \<le> 23 \<and> cv_min c \<le> 59 \<and> cv_sec c \<le> 59"

lemma length_dec: "n < 10 ^ k \<Longrightarrow> 0 < k \<Longrightarrow> length (dec n) \<le> k"
proof (induction k arbitrary: n)
  case (Suc k)
  show ?case
  proof (cases "n < 10")
    case False
    then have "0 < k" using Suc.prems by (cases k) simp_all
    moreover have "n div 10 < 10 ^ k" using Suc.prems(1) by (simp add: less_mult_imp_div_less)
    ultimately show ?thesis using Suc.IH [of "n div 10"] False by (subst dec.simps) simp
  qed (subst dec.simps, simp)
qed simp

lemma length_pad: "n < 10 ^ w \<Longrightarrow> 0 < w \<Longrightarrow> length (pad w n) = w"
  using length_dec [of n w] by (simp add: pad_def Let_def)

lemma undec_pad [simp]: "undec (pad w n) = n"
  by (simp add: pad_def Let_def)

lemma getnum_pad: "n < 100 \<Longrightarrow> getnum fixed (pad 2 n @ s) = Some (n, s)"
proof -
  assume "n < 100"
  then have "length (pad 2 n) = Suc (Suc 0)" using length_pad [of n 2] by (simp add: numeral_2_eq_2)
  then obtain a b where p: "pad 2 n = [a, b]" by (auto simp: length_Suc_conv)
  then show ?thesis using pad_digits(1) [of 2 n] undec_pad [of 2 n] by simp
qed

lemma days_in_less: "1 \<le> m \<Longrightarrow> m \<le> 12 \<Longrightarrow> days_in m y < 100"
proof -
  assume m: "1 \<le> m" "m \<le> 12"
  let ?l = "[31, 28, 31, 30, 31, 30, 31, 31, 30, 31, 30, 31] :: nat list"
  have "?l ! (m - 1) \<in> set ?l" by (rule nth_mem) (use m in simp)
  then have "?l ! (m - 1) < 100" by auto
  then show ?thesis by (simp add: days_in_def)
qed

lemma format_seconds_accepted:
  assumes "civil_ok c"
  shows "rfc3339_accepts (format_seconds c)"
proof -
  have f: "in_field fixed lo hi (pad 2 n @ s) = Some (n, s)" if "lo \<le> n" "n \<le> hi" "hi < 100" for fixed lo hi n s
    using that by (simp add: in_field_def getnum_pad)
  have d: "cv_day c \<le> days_in (cv_month c) (cv_year c)" using assms by (simp add: civil_ok_def)
  have l: "length (pad 4 (cv_year c)) = 4" using assms by (intro length_pad) (simp_all add: civil_ok_def)
  have y: "digits_val (pad 4 (cv_year c)) = Some (cv_year c)" using pad_digits by (simp add: digits_val_def)
  have s: "format_seconds c = pad 4 (cv_year c) @ CHR ''-'' # pad 2 (cv_month c) @ CHR ''-'' # pad 2 (cv_day c) @ CHR ''T'' #
      pad 2 (cv_hour c) @ CHR '':'' # pad 2 (cv_min c) @ CHR '':'' # pad 2 (cv_sec c) @ ''Z''"
    by (simp add: format_seconds_def format_rfc3339_def format_frac_def)
  have z: "zone_ok (skip_fraction ''Z'')" by (simp add: zone_ok_def skip_fraction_def)
  note ok = assms [unfolded civil_ok_def]
  show ?thesis unfolding rfc3339_accepts_def s
    using l y z ok by (simp add: lit_def f days_in_less)
qed

section \<open>The index of a manifest\<close>

lemma ManifestIndexFromPKIndex_valid:
  assumes m: "ManifestIndexFromPKIndex sha blake idx = Inr mi" and d: "distinct (map fst (Sections idx))"
  shows "validateManifestIndex sha blake mi (FileSize idx) = Inr ()"
proof -
  let ?secs = "sort_key sec_Name (map snd (Sections idx))"
  have v: "ValidatePKIndex idx = Inr ()" using m by (auto simp: ManifestIndexFromPKIndex_def)
  have mi: "mi_Sections mi = ?secs" "mi_FileSize mi = FileSize idx" "mi_Schema mi = ProvingKeyIndexSchema"
      "mi_SHA256 mi = fd_SHA256 (digestCanonicalJSON sha blake (manifestIndexDigestBody (mi_Schema mi) (mi_FileSize mi) (mi_Sections mi)))"
      "mi_Blake2b256 mi = fd_Blake2b256 (digestCanonicalJSON sha blake (manifestIndexDigestBody (mi_Schema mi) (mi_FileSize mi) (mi_Sections mi)))"
    using m by (auto simp: ManifestIndexFromPKIndex_def Let_def)
  have key: "sec_Name sec = name" if "(name, sec) \<in> set (Sections idx)" for name sec
    using v that by (auto simp: ValidatePKIndex_def section_checks_def)
  have names: "map sec_Name (map snd (Sections idx)) = map fst (Sections idx)"
    using key by (auto simp: comp_def intro!: map_cong)
  have "distinct (map sec_Name ?secs)"
    using d unfolding names [symmetric] by (simp only: distinct_map [of sec_Name] distinct_sort set_sort)
  then have "put_sections ?secs = map (\<lambda>sec. (sec_Name sec, sec)) ?secs" by (rule put_sections_distinct)
  moreover have "(\<lambda>sec. (sec_Name sec, sec)) ` snd ` set (Sections idx) = set (Sections idx)"
    unfolding image_image by (rule image_cong [THEN trans, OF refl _ image_ident]) (use key in \<open>auto simp: prod_eq_iff\<close>)
  ultimately have "set (put_sections ?secs) = set (Sections idx)" by simp
  then have "ValidatePKIndex (bare_index ?secs (FileSize idx)) = Inr ()" using v by (simp add: ValidatePKIndex_def bare_index_def)
  then show ?thesis using mi by (simp add: validateManifestIndex_def Let_def)
qed

section \<open>A generated manifest\<close>

lemma trimSuffix_cases: "\<exists>r. s = trimSuffix s p @ r \<and> (r = [] \<or> r = p)"
  by (auto simp: trimSuffix_def has_suffix_iff)

lemma part_names_safe:
  assumes "safeRelativePath name = Inr ()"
  shows "safeRelativePath ((trimSuffix name ''.pk'' @ ''.pk.part'') @ pad 4 0) = Inr ()"
proof -
  obtain r where r: "name = trimSuffix name ''.pk'' @ r" "r = [] \<or> r = ''.pk''" using trimSuffix_cases by blast
  have "safeRelativePath (trimSuffix name ''.pk'' @ (''.pk.part'' @ pad 4 0)) = Inr ()"
  proof (rule safe_suffix)
    show "safeRelativePath (trimSuffix name ''.pk'' @ r) = Inr ()" using assms r(1) by simp
    show "CHR ''/'' \<notin> set r" using r(2) by auto
    show "set (''.pk.part'' @ pad 4 0) \<inter> {CHR 0x5C, CHR ''?'', CHR ''#'', CHR ''/'', CHR '':''} = {}" using pad_plain(1) [of 4 0] by auto
    show "last (''.pk.part'' @ pad 4 0) \<noteq> CHR ''.''" using pad_plain(2) [of 4 0] pad_digits(2) [of 4 0] by simp
  qed simp
  then show ?thesis by simp
qed

lemma BuildPKIndex_names:
  assumes "length f < 2 ^ 63" "BuildPKIndex f = Inr idx"
  shows "distinct (map fst (Sections idx)) \<and> FileSize idx = int (length f)"
proof -
  obtain k where k: "pk_ok k" "f = pk_bytes k" "idx = pk_index k" using assms by (auto simp: BuildPKIndex_exact)
  have "map fst (Sections idx) = pk_names (length (pp_keys k) div 2)" using pk_section_list(1) [OF k(1)]
    by (simp add: k(3) pk_index_sections [OF k(1)] comp_def)
  then show ?thesis using k by (simp add: distinct_pk_names pk_index_def)
qed

definition options_of :: "ChunkManifestOptions \<Rightarrow> ChunkPinOptions" where
  "options_of opts = \<lparr>po_SourcePath = mo_ProvingKeyPath opts, po_OutDir = mo_ChunkOutDir opts, po_ChunkSize = mo_ChunkSize opts,
     po_PathPrefix = trimSuffix (mo_ProvingKeyName opts) ''.pk'' @ ''.pk.part'', po_WriteFiles = (mo_ChunkOutDir opts \<noteq> [])\<rparr>"

definition expectations_of :: "ChunkManifestOptions \<Rightarrow> ChunkManifestExpectations" where
  "expectations_of opts = \<lparr>ex_KeyManifest = mo_KeyManifest opts, ex_KeyManifestDigest = mo_KeyManifestDigest opts,
     ex_Deployment = mo_Deployment opts, ex_CardanoVKFormat = mo_CardanoVKFormat opts, ex_CardanoVKBlake2b256 = mo_CardanoVKBlake2b256 opts\<rparr>"

lemma generated_parts:
  assumes "GenerateChunkManifest sha blake now options d = (d', Inr m)"
  obtains opts km dep mi pins root raw idx where "opts = option_defaults now options"
    "mo_KeyManifest opts = Some km" "mo_Deployment opts = Some dep" "trim_space (mo_SignatureKeyID opts) \<noteq> []"
    "files d (mo_ProvingKeyPath opts) = Some raw" "checkKeyManifestPK km (DigestBytes sha blake raw) = Inr ()"
    "ValidateKeyManifestAssetDigests (Some km) (fileDigestFromAssetPin (asset_at (mo_Assets opts) ''ownership.vk''))
       (fileDigestFromAssetPin (asset_at (mo_Assets opts) ''ownership-destination.ccs'')) = Inr ()"
    "BuildPKIndex raw = Inr idx" "ManifestIndexFromPKIndex sha blake idx = Inr mi"
    "BuildChunkPins sha blake (options_of opts) d = (d', Inr (pins, root))"
    "cm_Schema m = ChunkManifestSchema" "cm_GeneratedAt m = format_seconds (mo_GeneratedAt opts)" "cm_SignatureKeyID m = mo_SignatureKeyID opts"
    "cm_Coherence m = coherence_of opts km dep" "cm_ProvingKeyIndex m = mi" "cm_Assets m = mo_Assets opts"
    "cm_ProvingKey m = \<lparr>ck_Path = mo_ProvingKeyName opts, ck_ChunkSize = mo_ChunkSize opts, ck_ChunksRoot = root, ck_Chunks = pins\<rparr>"
proof -
  define opts where "opts = option_defaults now options"
  obtain km dep mi where g: "generate_checks sha blake opts d = Inr (km, dep, mi)"
    using assms by (cases "generate_checks sha blake opts d") (auto simp: GenerateChunkManifest_def Let_def simp flip: opts_def)
  obtain pins root where b: "BuildChunkPins sha blake (options_of opts) d = (d', Inr (pins, root))"
    using assms unfolding GenerateChunkManifest_def Let_def opts_def [symmetric] g options_of_def [symmetric]
    by (auto split: prod.splits sum.splits)
  have m: "m = \<lparr>cm_Schema = ChunkManifestSchema, cm_Release = mo_Release opts, cm_Profile = mo_Profile opts,
                cm_GeneratedAt = format_seconds (mo_GeneratedAt opts), cm_SignatureKeyID = mo_SignatureKeyID opts,
                cm_Coherence = coherence_of opts km dep,
                cm_Transport = \<lparr>tr_BaseURL = mo_BaseURL opts, tr_ContentEncoding = ''identity'', tr_RequiresHTTPS = True, tr_SupportsRange = True\<rparr>,
                cm_ProvingKey = \<lparr>ck_Path = mo_ProvingKeyName opts, ck_ChunkSize = mo_ChunkSize opts, ck_ChunksRoot = root, ck_Chunks = pins\<rparr>,
                cm_ProvingKeyIndex = mi, cm_Assets = mo_Assets opts\<rparr>"
    using assms unfolding GenerateChunkManifest_def Let_def opts_def [symmetric] g options_of_def [symmetric] by (simp add: b)
  obtain km' dep' where k: "mo_KeyManifest opts = Some km'" "mo_Deployment opts = Some dep'"
    using g by (auto simp: generate_checks_def split: option.splits)
  note g' = g [unfolded generate_checks_def k prod.case option.case bind_r_ok all_ok_Cons all_ok.simps(1) fail_if_ok DigestFile_def]
  have kd: "km' = km" "dep' = dep" using g' by blast+
  show ?thesis
    using g' unfolding kd
    apply (elim exE conjE)
    subgoal for u pkDigest raw u2 idx raw2 u3 mi2
      by (rule that [OF opts_def, of km dep raw idx mi pins root]) (use b m k kd in \<open>auto simp: read_file_def split: option.splits\<close>)
    done
qed


lemma option_defaults_simps [simp]:
  "mo_KeyManifest (option_defaults now o1) = mo_KeyManifest o1" "mo_KeyManifestDigest (option_defaults now o1) = mo_KeyManifestDigest o1"
  "mo_Deployment (option_defaults now o1) = mo_Deployment o1" "mo_ProvingKeyPath (option_defaults now o1) = mo_ProvingKeyPath o1"
  "mo_ChunkOutDir (option_defaults now o1) = mo_ChunkOutDir o1" "mo_ChunkSize (option_defaults now o1) = mo_ChunkSize o1"
  "mo_SignatureKeyID (option_defaults now o1) = mo_SignatureKeyID o1" "mo_CardanoVKFormat (option_defaults now o1) = mo_CardanoVKFormat o1"
  "mo_CardanoVKBlake2b256 (option_defaults now o1) = mo_CardanoVKBlake2b256 o1" "mo_Assets (option_defaults now o1) = mo_Assets o1"
  by (simp_all add: option_defaults_def Let_def)

lemma options_of_simps [simp]:
  "po_SourcePath (options_of opts) = mo_ProvingKeyPath opts" "po_OutDir (options_of opts) = mo_ChunkOutDir opts"
  "po_ChunkSize (options_of opts) = mo_ChunkSize opts" "po_WriteFiles (options_of opts) = (mo_ChunkOutDir opts \<noteq> [])"
  by (simp_all add: options_of_def)

lemma options_of_name: "chunk_name (with_prefix (options_of opts)) i = (trimSuffix (mo_ProvingKeyName opts) ''.pk'' @ ''.pk.part'') @ pad 4 i"
  by (simp add: options_of_def with_prefix_def chunk_name_def)

lemma ValidateChunkManifest_ok:
  "ValidateChunkManifest sha blake parse_url (Some m) expected = Inr u \<longleftrightarrow>
     cm_Schema m = ChunkManifestSchema \<and> rfc3339_accepts (cm_GeneratedAt m) \<and> trim_space (cm_SignatureKeyID m) \<noteq> [] \<and>
     validateTransport parse_url (cm_Transport m) = Inr () \<and>
     validateChunks blake (cm_ProvingKey m) (co_ProvingKeySize (cm_Coherence m)) = Inr () \<and>
     validateManifestIndex sha blake (cm_ProvingKeyIndex m) (co_ProvingKeySize (cm_Coherence m)) = Inr () \<and>
     list_all (\<lambda>(name, pin). validateAssetPin pin = Inr ()) (cm_Assets m) \<and>
     all_ok (expectation_checks m expected) = Inr ()"
  unfolding ValidateChunkManifest_def option.case all_ok_append all_ok_Cons all_ok.simps(1) all_ok_map fail_if_ok list_all_iff
  by (auto simp: case_prod_unfold)

lemma no_expectation_checks [simp]: "all_ok (expectation_checks m no_expectations) = Inr ()"
  by (simp add: expectation_checks_def no_expectations_def digest_given_def)

lemma validated_with:
  "ValidateChunkManifest sha blake parse_url (Some m) expected = Inr u \<longleftrightarrow>
     ValidateChunkManifest sha blake parse_url (Some m) no_expectations = Inr () \<and> all_ok (expectation_checks m expected) = Inr ()"
  unfolding ValidateChunkManifest_ok by auto

lemma generated_valid:
  assumes g: "GenerateChunkManifest sha blake now options d = (d', Inr m)"
    and h: "\<And>b. length (sha b) = 32" "\<And>b. length (blake b) = 32"
    and key: "files d (mo_ProvingKeyPath options) = Some raw" "length raw < 2 ^ 63"
    and ok: "validateTransport parse_url (cm_Transport m) = Inr ()" "list_all (\<lambda>(name, pin). validateAssetPin pin = Inr ()) (cm_Assets m)"
      "safeRelativePath (ck_Path (cm_ProvingKey m)) = Inr ()" "civil_ok (mo_GeneratedAt (option_defaults now options))"
  shows "ValidateChunkManifest sha blake parse_url (Some m) no_expectations = Inr ()"
  using g
proof (rule generated_parts)
  fix opts km dep mi pins root raw' idx
  assume o1: "opts = option_defaults now options"
    and s: "trim_space (mo_SignatureKeyID opts) \<noteq> []" "files d (mo_ProvingKeyPath opts) = Some raw'"
    and k: "checkKeyManifestPK km (DigestBytes sha blake raw') = Inr ()"
    and i: "BuildPKIndex raw' = Inr idx" "ManifestIndexFromPKIndex sha blake idx = Inr mi"
    and b: "BuildChunkPins sha blake (options_of opts) d = (d', Inr (pins, root))"
    and m: "cm_Schema m = ChunkManifestSchema" "cm_GeneratedAt m = format_seconds (mo_GeneratedAt opts)" "cm_SignatureKeyID m = mo_SignatureKeyID opts"
      "cm_Coherence m = coherence_of opts km dep" "cm_ProvingKeyIndex m = mi" "cm_Assets m = mo_Assets opts"
      "cm_ProvingKey m = \<lparr>ck_Path = mo_ProvingKeyName opts, ck_ChunkSize = mo_ChunkSize opts, ck_ChunksRoot = root, ck_Chunks = pins\<rparr>"
  have raw: "raw' = raw" using s(2) key(1) by (simp add: o1)
  have size: "km_ProvingKeySize km = int (length raw)" "raw \<noteq> []" using k by (auto simp: raw checkKeyManifestPK_def)
  note idx = BuildPKIndex_names [OF key(2), of idx]
  have index: "validateManifestIndex sha blake mi (int (length raw)) = Inr ()"
    using ManifestIndexFromPKIndex_valid [OF i(2)] idx i(1) by (simp add: raw)
  have name: "safeRelativePath (mo_ProvingKeyName opts) = Inr ()" using ok(3) by (simp add: m)
  have chunks: "validateChunks blake (cm_ProvingKey m) (int (length raw)) = Inr ()"
    unfolding m using built_chunks_valid [OF b _ size(2) key(2) h _ name] s(2) part_names_safe [OF name]
    by (simp add: raw options_of_name)
  show ?thesis unfolding ValidateChunkManifest_ok
    using index chunks ok s(1) size m format_seconds_accepted [OF ok(4)] by (simp add: coherence_of_def o1)
qed

lemma generated_expected:
  assumes "GenerateChunkManifest sha blake now options d = (d', Inr m)"
  shows "all_ok (expectation_checks m (expectations_of options)) = Inr ()"
  using assms
proof (rule generated_parts)
  fix opts km dep
  assume "opts = option_defaults now options" "mo_KeyManifest opts = Some km" "mo_Deployment opts = Some dep"
    "ValidateKeyManifestAssetDigests (Some km) (fileDigestFromAssetPin (asset_at (mo_Assets opts) ''ownership.vk''))
       (fileDigestFromAssetPin (asset_at (mo_Assets opts) ''ownership-destination.ccs'')) = Inr ()"
    "cm_Coherence m = coherence_of opts km dep" "cm_Assets m = mo_Assets opts"
  then show ?thesis
    by (simp add: expectation_checks_def expectations_of_def validateAgainstKeyManifest_def deployment_matches_def coherence_of_def Let_def)
qed

lemma generated_stored:
  assumes "GenerateChunkManifest sha blake now options d = (d', Inr m)" "files d (mo_ProvingKeyPath options) = Some raw"
    and "mo_ChunkOutDir options \<noteq> []"
  shows "(\<forall>c \<in> set (ck_Chunks (cm_ProvingKey m)). chunk_file_ok sha blake d' (mo_ChunkOutDir options) c = Inr ()) \<and>
    concat (map (\<lambda>c. the (files d' (filepath_join (mo_ChunkOutDir options) (cp_Path c)))) (ck_Chunks (cm_ProvingKey m))) = raw \<and>
    (\<forall>path. (\<forall>c \<in> set (ck_Chunks (cm_ProvingKey m)). path \<noteq> filepath_join (mo_ChunkOutDir options) (cp_Path c)) \<longrightarrow> files d' path = files d path)"
  using assms(1)
proof (rule generated_parts)
  fix opts pins root
  assume o1: "opts = option_defaults now options" and b: "BuildChunkPins sha blake (options_of opts) d = (d', Inr (pins, root))"
    and m: "cm_ProvingKey m = \<lparr>ck_Path = mo_ProvingKeyName opts, ck_ChunkSize = mo_ChunkSize opts, ck_ChunksRoot = root, ck_Chunks = pins\<rparr>"
  show ?thesis using built_chunks_stored [OF b, of raw] assms(2,3) by (simp add: m o1)
qed

lemma store_pieces_writable: "(\<And>p. writable d p) \<Longrightarrow> \<exists>d'. store_pieces opts d i ps = (d', Inr ())"
proof (induction ps arbitrary: d i)
  case (Cons p ps)
  then show ?case by (cases "po_WriteFiles opts") (simp_all add: store_piece_def write_file_def)
qed simp

text \<open>With every path writable, a readable source is always cut.\<close>

lemma BuildChunkPins_total:
  assumes "po_SourcePath opts \<noteq> []" "0 < po_ChunkSize opts" "po_ChunkSize opts < 2 ^ 63" "\<And>p. writable d p"
    and "files d (po_SourcePath opts) = Some raw" "\<And>b. length (blake b) = 32"
  shows "\<exists>d' pins root. BuildChunkPins sha blake opts d = (d', Inr (pins, root))"
proof -
  let ?ps = "pieces (nat (po_ChunkSize opts)) raw"
  let ?pins = "pins_from sha blake (with_prefix opts) 0 0 ?ps"
  obtain d' where d': "store_pieces (with_prefix opts) d 0 ?ps = (d', Inr ())" using store_pieces_writable [OF assms(4)] by blast
  have "\<forall>c \<in> set ?pins. pinned_digest ''blake2b256'' (cp_Blake2b256 c)"
    using DigestBytes_ok(2) assms(6) by (fastforce simp: in_set_conv_nth nth_pins_from make_pin_def Let_def)
  then obtain root where "chunksRootBlake2b256 blake ?pins = Inr root" by (simp add: chunksRootBlake2b256_def root_input_ok)
  then have "BuildChunkPins sha blake opts d = (d', Inr (?pins, root))" unfolding BuildChunkPins_eq using assms d' by blast
  then show ?thesis by blast
qed

lemma GenerateChunkManifest_total:
  assumes c: "generate_checks sha blake (option_defaults now options) d = Inr (km, dep, mi)"
    and w: "\<And>p. writable d p" "\<And>b. length (blake b) = 32" "mo_ChunkSize options < 2 ^ 63"
  shows "\<exists>d' m. GenerateChunkManifest sha blake now options d = (d', Inr m) \<and>
    cm_Transport m = \<lparr>tr_BaseURL = mo_BaseURL (option_defaults now options), tr_ContentEncoding = ''identity'', tr_RequiresHTTPS = True, tr_SupportsRange = True\<rparr> \<and>
    cm_Assets m = mo_Assets options \<and> ck_Path (cm_ProvingKey m) = mo_ProvingKeyName (option_defaults now options)"
proof -
  define opts where "opts = option_defaults now options"
  have "mo_ProvingKeyPath options \<noteq> [] \<and> 0 < mo_ChunkSize options \<and> files d (mo_ProvingKeyPath options) \<noteq> None"
    using c by (auto simp: generate_checks_def DigestFile_def read_file_def split: option.splits)
  then obtain d' pins root where b: "BuildChunkPins sha blake (options_of opts) d = (d', Inr (pins, root))"
    using BuildChunkPins_total [of "options_of opts" d _ blake sha] w by (auto simp: opts_def)
  show ?thesis unfolding GenerateChunkManifest_def Let_def opts_def [symmetric] c [folded opts_def] options_of_def [symmetric]
    by (simp add: b) (simp add: opts_def)
qed

end
