(* ===== verification/BatchTranscript.thy ===== *)
theory BatchTranscript
  imports GoBytes GoStrings
begin

text \<open>
  The transcript of a reclaim batch, from \<^verbatim>\<open>internal/batchtranscript/batchtranscript.go\<close>. BLAKE2b-256 of
  \<^verbatim>\<open>golang.org/x/crypto\<close> and the order of the scalar field of gnark-crypto are parameters.

  \<open>BuildV2_ok\<close> says which batches have a transcript and which one; \<open>slots_inj\<close> that slots are read back from it;
  \<open>challenge_range\<close> that a challenge is a nonzero scalar.
\<close>

definition DomainV2 :: string where "DomainV2 = ''ROOT-OWNERSHIP-POK-BATCH-v2''"
definition VKHashLen :: nat where "VKHashLen = 32"
definition ProofLen :: nat where "ProofLen = 336"
definition DigestLen :: nat where "DigestLen = 32"
definition MaxSlots :: nat where "MaxSlots = 65535"

definition VKHash :: "(bytes \<Rightarrow> bytes) \<Rightarrow> bytes \<Rightarrow> bytes" where
  "VKHash blake verifierKey = blake verifierKey"

text \<open>The loop over the slots; the two slices have the same length when it starts.\<close>

fun append_slots :: "bytes \<Rightarrow> bytes list \<Rightarrow> bytes list \<Rightarrow> bytes res" where
  "append_slots transcript (proof_i # proofs) (digest_i # digests) =
     (if length proof_i \<noteq> ProofLen then Inl (Err ''proof length'')
      else if length digest_i \<noteq> DigestLen then Inl (Err ''public input digest length'')
      else append_slots (transcript @ proof_i @ digest_i) proofs digests)"
| "append_slots transcript _ _ = Inr transcript"

definition BuildV2 :: "bytes \<Rightarrow> bytes list \<Rightarrow> bytes list \<Rightarrow> bytes res" where
  "BuildV2 vkHash proofs digests =
     bind_r (all_ok [
       fail_if (length vkHash \<noteq> VKHashLen) ''verifier key hash length'',
       fail_if (length proofs \<noteq> length digests) ''proof/digest list lengths differ'',
       fail_if (length proofs > MaxSlots) ''too many slots'']) (\<lambda>_.
     append_slots (string_bytes DomainV2 @ vkHash @ [word_of_nat (length proofs div 256), word_of_nat (length proofs)])
       proofs digests)"

text \<open>\<^verbatim>\<open>SetBytes\<close> reads the digest as a big-endian number.\<close>

definition challenge :: "(bytes \<Rightarrow> bytes) \<Rightarrow> nat \<Rightarrow> bytes \<Rightarrow> nat" where
  "challenge blake order input = be_val (blake input) mod (order - 1) + 1"

definition ChallengeV2 :: "(bytes \<Rightarrow> bytes) \<Rightarrow> nat \<Rightarrow> bytes \<Rightarrow> nat" where
  "ChallengeV2 blake order transcript = challenge blake order transcript"

definition MergeChallengeV2 :: "(bytes \<Rightarrow> bytes) \<Rightarrow> nat \<Rightarrow> bytes \<Rightarrow> nat" where
  "MergeChallengeV2 blake order transcript = challenge blake order (blake transcript @ [1])"

section \<open>The specification\<close>

definition slot_bytes :: "(bytes \<times> bytes) list \<Rightarrow> bytes" where
  "slot_bytes slots = concat (map (\<lambda>(p, d). p @ d) slots)"

definition batch_slots_ok :: "(bytes \<times> bytes) list \<Rightarrow> bool" where
  "batch_slots_ok slots \<longleftrightarrow> list_all (\<lambda>(p, d). length p = ProofLen \<and> length d = DigestLen) slots"

definition transcript_of :: "bytes \<Rightarrow> (bytes \<times> bytes) list \<Rightarrow> bytes" where
  "transcript_of vk slots = string_bytes DomainV2 @ vk @ be_bytes 2 (length slots) @ slot_bytes slots"

lemma append_slots_ok:
  "length ps = length ds \<Longrightarrow>
   append_slots t ps ds = Inr t' \<longleftrightarrow> batch_slots_ok (zip ps ds) \<and> t' = t @ slot_bytes (zip ps ds)"
  by (induction t ps ds rule: append_slots.induct) (auto simp: batch_slots_ok_def slot_bytes_def)

lemma count_bytes: "[word_of_nat (n div 256), word_of_nat n] = be_bytes 2 n"
  by (simp add: numeral_2_eq_2 be_bytes_Suc)

lemma BuildV2_ok:
  "BuildV2 vk ps ds = Inr t \<longleftrightarrow>
     length vk = 32 \<and> length ps = length ds \<and> length ps \<le> 65535 \<and> batch_slots_ok (zip ps ds) \<and> t = transcript_of vk (zip ps ds)"
  unfolding BuildV2_def count_bytes by (auto simp: append_slots_ok transcript_of_def VKHashLen_def MaxSlots_def)

lemma slots_of_lists:
  assumes "length ps = length ds"
  shows "batch_slots_ok (zip ps ds) \<longleftrightarrow> (\<forall>p \<in> set ps. length p = 336) \<and> (\<forall>d \<in> set ds. length d = 32)"
    and "slot_bytes (zip ps ds) = concat (map2 (@) ps ds)"
  using assms by (induction ps ds rule: list_induct2) (auto simp: batch_slots_ok_def slot_bytes_def ProofLen_def DigestLen_def)

lemma BuildV2_iff:
  "BuildV2 vk ps ds = Inr t \<longleftrightarrow>
     length vk = 32 \<and> length ps = length ds \<and> length ps \<le> 65535 \<and>
     (\<forall>p \<in> set ps. length p = 336) \<and> (\<forall>d \<in> set ds. length d = 32) \<and>
     t = string_bytes DomainV2 @ vk @ be_bytes 2 (length ps) @ concat (map2 (@) ps ds)"
  unfolding BuildV2_ok by (auto simp: slots_of_lists transcript_of_def)

lemma slots_inj:
  "batch_slots_ok xs \<Longrightarrow> batch_slots_ok ys \<Longrightarrow> length xs = length ys \<Longrightarrow> slot_bytes xs = slot_bytes ys \<Longrightarrow> xs = ys"
proof (induction xs ys rule: list_induct2')
  case (4 x xs y ys)
  then show ?case by (cases x; cases y) (auto simp: batch_slots_ok_def slot_bytes_def append_eq_append_conv)
qed simp_all

lemma transcript_inj:
  assumes "batch_slots_ok xs" "batch_slots_ok ys" "length vk = length wk" "length xs < 256 ^ 2" "length ys < 256 ^ 2"
    and "transcript_of vk xs = transcript_of wk ys"
  shows "vk = wk \<and> xs = ys"
proof -
  have e: "vk @ be_bytes 2 (length xs) @ slot_bytes xs = wk @ be_bytes 2 (length ys) @ slot_bytes ys"
    using assms(6) by (simp add: transcript_of_def)
  then have "vk = wk" and r: "be_bytes 2 (length xs) @ slot_bytes xs = be_bytes 2 (length ys) @ slot_bytes ys"
    using assms(3) by (simp_all add: append_eq_append_conv)
  then have n: "be_bytes 2 (length xs) = be_bytes 2 (length ys)" and s: "slot_bytes xs = slot_bytes ys"
    by (simp_all add: append_eq_append_conv)
  have "length xs = length ys" using n be_val_be_bytes [OF assms(4)] be_val_be_bytes [OF assms(5)] by metis
  then show ?thesis using \<open>vk = wk\<close> slots_inj [OF assms(1,2) _ s] by blast
qed

lemma challenge_range: "order \<ge> 2 \<Longrightarrow> challenge H order input \<in> {1..<order}"
proof -
  assume o2: "order \<ge> 2"
  then have "be_val (H input) mod (order - 1) < order - 1" by (intro mod_less_divisor) simp
  then show ?thesis using o2 by (simp only: challenge_def atLeastLessThan_iff) linarith
qed

text \<open>A merge challenge never hashes the bytes of a transcript: its input is far shorter.\<close>

lemma transcript_length: "BuildV2 vk ps ds = Inr t \<Longrightarrow> 61 \<le> length t"
  by (auto simp: BuildV2_ok transcript_of_def DomainV2_def)

section \<open>Properties\<close>

definition sample_blake :: "bytes \<Rightarrow> bytes" where
  "sample_blake b = take 32 (b @ replicate 32 0)"

text \<open>
  C36: A batch has a transcript exactly when the key hash has 32 bytes, the two lists are equally long and not longer than
  65535, every proof has 336 bytes and every digest 32; it is then the domain, the hash, the count in two bytes and the
  slots one after another. The transcript determines the key hash and every slot in its order, and the two challenges
  derived from it are nonzero scalars, of different hash inputs.
\<close>

theorem batch_transcript_binding:
  assumes "2 \<le> order" and "\<And>b. length (blake b) = 32"
  shows "(BuildV2 vk ps ds = Inr t \<longleftrightarrow>
      length vk = 32 \<and> length ps = length ds \<and> length ps \<le> 65535 \<and>
      (\<forall>p \<in> set ps. length p = 336) \<and> (\<forall>d \<in> set ds. length d = 32) \<and>
      t = string_bytes DomainV2 @ vk @ be_bytes 2 (length ps) @ concat (map2 (@) ps ds)) \<and>
    (BuildV2 vk ps ds = Inr t \<longrightarrow>
      (BuildV2 vk' ps' ds' = Inr t \<longleftrightarrow> vk' = vk \<and> ps' = ps \<and> ds' = ds) \<and>
      ChallengeV2 blake order t \<in> {1..<order} \<and> MergeChallengeV2 blake order t \<in> {1..<order} \<and>
      blake t @ [1] \<noteq> t)"
proof (intro conjI impI)
  show "BuildV2 vk ps ds = Inr t \<longleftrightarrow>
      length vk = 32 \<and> length ps = length ds \<and> length ps \<le> 65535 \<and>
      (\<forall>p \<in> set ps. length p = 336) \<and> (\<forall>d \<in> set ds. length d = 32) \<and>
      t = string_bytes DomainV2 @ vk @ be_bytes 2 (length ps) @ concat (map2 (@) ps ds)"
    by (rule BuildV2_iff)
  assume t: "BuildV2 vk ps ds = Inr t"
  note b = t [unfolded BuildV2_ok]
  show "BuildV2 vk' ps' ds' = Inr t \<longleftrightarrow> vk' = vk \<and> ps' = ps \<and> ds' = ds"
  proof
    assume "BuildV2 vk' ps' ds' = Inr t"
    note b' = this [unfolded BuildV2_ok]
    have "vk = vk' \<and> zip ps ds = zip ps' ds'" by (rule transcript_inj) (use b b' in auto)
    then show "vk' = vk \<and> ps' = ps \<and> ds' = ds" using b b' by (metis map_fst_zip map_snd_zip)
  qed (use t in simp)
  show "ChallengeV2 blake order t \<in> {1..<order}" "MergeChallengeV2 blake order t \<in> {1..<order}"
    unfolding ChallengeV2_def MergeChallengeV2_def by (rule challenge_range [OF assms(1)])+
  have l: "length (blake t @ [1]) = 33" using assms(2) by simp
  show "blake t @ [1] \<noteq> t"
  proof
    assume "blake t @ [1] = t"
    then have "length t = 33" using l by (rule subst)
    then show False using transcript_length [OF t] by simp
  qed
qed

theorem batch_transcript_binding_witness:
  "BuildV2 (replicate 32 7) [replicate 336 1] [replicate 32 2] =
     Inr (string_bytes DomainV2 @ replicate 32 7 @ [0, 1] @ replicate 336 1 @ replicate 32 2) \<and>
   ChallengeV2 sample_blake 101 (string_bytes DomainV2 @ replicate 32 7 @ [0, 1] @ replicate 336 1 @ replicate 32 2) \<in> {1..<101}"
proof -
  let ?t = "string_bytes DomainV2 @ replicate 32 7 @ [0, 1] @ replicate 336 1 @ replicate 32 2"
  have n: "be_bytes 2 (length [replicate 336 (1 :: 8 word)]) = [0, 1]" by (simp add: numeral_2_eq_2 be_bytes_Suc)
  have h: "2 \<le> (101 :: nat)" "\<And>b. length (sample_blake b) = 32" by (simp_all add: sample_blake_def)
  note p = batch_transcript_binding [of 101 sample_blake, OF h, of "replicate 32 7" "[replicate 336 1]" "[replicate 32 2]" ?t
      "replicate 32 7" "[replicate 336 1]" "[replicate 32 2]"]
  have b: "BuildV2 (replicate 32 7) [replicate 336 1] [replicate 32 2] = Inr ?t"
    by (rule iffD2 [OF conjunct1 [OF p]], unfold n) simp
  from conjunct2 [OF p, THEN mp, OF b] have "ChallengeV2 sample_blake 101 ?t \<in> {1..<101}" by (elim conjE)
  with b show ?thesis by (rule conjI)
qed

end
