(* ===== verification/AssetProperties.thy ===== *)
theory AssetProperties
  imports ChunkFiles BatchTranscript StreamProperties
begin

text \<open>
  The properties of chunk manifests, with a small key, key manifest and deployment on which they are evaluated.
\<close>

section \<open>Paths\<close>

text \<open>
  C37: The relative paths that \<^verbatim>\<open>safeRelativePath\<close> accepts: no backslash, scheme, query or fragment, and every
  element an ordinary name, with the one exception \<^verbatim>\<open>".."\<close>, which passes because the tests look for \<^verbatim>\<open>"../"\<close> and
  \<^verbatim>\<open>"/../"\<close>. Apart from it, joining the path to a directory only appends it: it stays inside.
\<close>

theorem safe_path_exact:
  "(safeRelativePath s = Inr () \<longleftrightarrow>
      s \<noteq> [] \<and> CHR 0x5C \<notin> set s \<and> \<not> contains s ''://'' \<and> CHR ''?'' \<notin> set s \<and> CHR ''#'' \<notin> set s \<and>
      (s = ''..'' \<or> list_all normal_elem (split_on (CHR ''/'') s))) \<and>
   (safeRelativePath s = Inr () \<and> s \<noteq> ''..'' \<longrightarrow> filepath_join base s = dir_prefix base @ s)"
  by (intro conjI impI filepath_join_normal; simp only: safeRelativePath_ok list_all_iff; blast)

theorem safe_path_exact_witness:
  "safeRelativePath ''keys/ownership.pk'' = Inr () \<and> filepath_join ''/srv/'' ''keys/ownership.pk'' = ''/srv/keys/ownership.pk'' \<and>
   safeRelativePath ''..'' = Inr () \<and> filepath_join ''/srv/assets'' ''..'' = ''/srv''"
proof -
  have a: "safeRelativePath ''keys/ownership.pk'' = Inr ()" by code_simp
  have b: "dir_prefix ''/srv/'' = ''/srv/''" by code_simp
  have c: "filepath_join ''/srv/assets'' ''..'' = ''/srv''" by code_simp
  have "filepath_join ''/srv/'' ''keys/ownership.pk'' = dir_prefix ''/srv/'' @ ''keys/ownership.pk''"
    by (rule safe_path_exact [THEN conjunct2, rule_format]) (use a in simp)
  moreover have "\<not> contains ''..'' ''://''" by code_simp
  then have "safeRelativePath ''..'' = Inr ()" using safe_path_exact [THEN conjunct1, of "''..''"] by (simp del: contains.simps)
  ultimately show ?thesis using a c by (simp add: b)
qed

section \<open>Chunk tables\<close>

text \<open>
  C38: \<^verbatim>\<open>validateChunks\<close> accepts exactly the tables whose entries are numbered, positive, full except the last, at
  multiples of the chunk size, and whose sizes add up to the size of the key \<^emph>\<open>as 64-bit integers\<close>, with the root that hashes
  the digests. When the sizes add up to less than \<open>2 ^ 63\<close> nothing wraps, and the chunks tile the key.
\<close>

theorem chunk_table_exact:
  "(validateChunks blake pk provingKeySize = Inr () \<longleftrightarrow>
      chunk_table_ok pk \<and> provingKeySize = wrap64 (\<Sum>c \<leftarrow> ck_Chunks pk. cp_Size c) \<and>
      ck_ChunksRoot pk = ''blake2b256:'' @ hex_encode (blake (concat (map pin_digest (ck_Chunks pk))))) \<and>
   (validateChunks blake pk provingKeySize = Inr () \<and> (\<Sum>c \<leftarrow> ck_Chunks pk. cp_Size c) < 2 ^ 63 \<longrightarrow>
      provingKeySize = (\<Sum>c \<leftarrow> ck_Chunks pk. cp_Size c) \<and>
      (\<forall>j < length (ck_Chunks pk). cp_Offset (ck_Chunks pk ! j) = (\<Sum>c \<leftarrow> take j (ck_Chunks pk). cp_Size c)))"
proof (intro conjI impI allI; (elim conjE)?)
  show "validateChunks blake pk provingKeySize = Inr () \<longleftrightarrow>
      chunk_table_ok pk \<and> provingKeySize = wrap64 (\<Sum>c \<leftarrow> ck_Chunks pk. cp_Size c) \<and>
      ck_ChunksRoot pk = ''blake2b256:'' @ hex_encode (blake (concat (map pin_digest (ck_Chunks pk))))"
    by (rule validateChunks_ok)
next
  assume v: "validateChunks blake pk provingKeySize = Inr ()" and s: "(\<Sum>c \<leftarrow> ck_Chunks pk. cp_Size c) < 2 ^ 63"
  show "provingKeySize = (\<Sum>c \<leftarrow> ck_Chunks pk. cp_Size c)" by (rule validated_size [OF v s])
next
  fix j assume "validateChunks blake pk provingKeySize = Inr ()" "(\<Sum>c \<leftarrow> ck_Chunks pk. cp_Size c) < 2 ^ 63" "j < length (ck_Chunks pk)"
  then show "cp_Offset (ck_Chunks pk ! j) = (\<Sum>c \<leftarrow> take j (ck_Chunks pk). cp_Size c)" by (rule validated_offset)
qed

definition zero_sha :: string where "zero_sha = ''sha256:'' @ hex_encode (replicate 32 0)"
definition zero_blake :: string where "zero_blake = ''blake2b256:'' @ hex_encode (replicate 32 0)"

definition even_table :: "int \<Rightarrow> nat \<Rightarrow> ChunkedProvingKey" where
  "even_table n k =
     \<lparr>ck_Path = ''ownership.pk'', ck_ChunkSize = n, ck_ChunksRoot = zero_blake,
      ck_Chunks = map (\<lambda>j. \<lparr>cp_Index = int j, cp_Offset = wrap64 (int j * n), cp_Size = n, cp_Path = ''part'',
        cp_SHA256 = zero_sha, cp_Blake2b256 = zero_blake\<rparr>) [0..<k]\<rparr>"

lemma even_table_ok: "0 < n \<Longrightarrow> 0 < k \<Longrightarrow> chunk_table_ok (even_table n k)"
proof -
  assume n: "0 < n" "0 < k"
  have s: "safeRelativePath ''ownership.pk'' = Inr ()" "safeRelativePath ''part'' = Inr ()" by code_simp+
  have d: "pinned_digest ''sha256'' zero_sha" "pinned_digest ''blake2b256'' zero_blake"
    unfolding zero_sha_def zero_blake_def
    using pinned_digest_hex [of "replicate 32 0" "''sha256''"] pinned_digest_hex [of "replicate 32 0" "''blake2b256''"]
    by (simp_all only: append_Cons append_Nil length_replicate)
  show ?thesis using n s d by (simp add: even_table_def chunk_table_ok_def pin_ok_def)
qed

lemma even_table_size: "(\<Sum>c \<leftarrow> ck_Chunks (even_table n k). cp_Size c) = int k * n"
  by (simp add: even_table_def comp_def sum_list_triv)

text \<open>Five chunks of \<open>2 ^ 62\<close> bytes pass as the table of a key of \<open>2 ^ 62\<close> bytes.\<close>

theorem chunk_table_exact_witness:
  "validateChunks (\<lambda>b. replicate 32 0) (even_table 100 3) 300 = Inr () \<and> cp_Offset (ck_Chunks (even_table 100 3) ! 2) = 200 \<and>
   validateChunks (\<lambda>b. replicate 32 0) (even_table (2 ^ 62) 5) (2 ^ 62) = Inr () \<and>
   (\<Sum>c \<leftarrow> ck_Chunks (even_table (2 ^ 62) 5). cp_Size c) = 5 * 2 ^ 62"
proof -
  have r: "ck_ChunksRoot (even_table n k) = ''blake2b256:'' @ hex_encode (replicate 32 0)" for n k by (simp add: even_table_def zero_blake_def)
  have a: "validateChunks (\<lambda>b. replicate 32 0) (even_table 100 3) 300 = Inr ()"
    using chunk_table_exact [THEN conjunct1, of "\<lambda>b. replicate 32 0" "even_table 100 3" 300] even_table_ok [of 100 3]
    by (simp only: even_table_size r) (simp add: wrap64_def)
  have b: "validateChunks (\<lambda>b. replicate 32 0) (even_table (2 ^ 62) 5) (2 ^ 62) = Inr ()"
    using chunk_table_exact [THEN conjunct1, of "\<lambda>b. replicate 32 0" "even_table (2 ^ 62) 5" "2 ^ 62"] even_table_ok [of "2 ^ 62" 5]
    by (simp only: even_table_size r) (simp add: wrap64_def)
  have s: "(\<Sum>c \<leftarrow> ck_Chunks (even_table 100 3). cp_Size c) < 2 ^ 63" by (simp only: even_table_size) simp
  have "2 < length (ck_Chunks (even_table 100 3))" by (simp add: even_table_def)
  then have off: "cp_Offset (ck_Chunks (even_table 100 3) ! 2) = (\<Sum>c \<leftarrow> take 2 (ck_Chunks (even_table 100 3)). cp_Size c)"
    using chunk_table_exact [THEN conjunct2, THEN mp, OF conjI [OF a s]] by blast
  have "(\<Sum>c \<leftarrow> take 2 (ck_Chunks (even_table 100 3)). cp_Size c) = 200" by (simp add: even_table_def upt_rec)
  then show ?thesis using a b off by (simp only: even_table_size) simp
qed

section \<open>Generation and verification\<close>

text \<open>
  C39: A manifest that \<^verbatim>\<open>GenerateChunkManifest\<close> returns passes \<^verbatim>\<open>ValidateChunkManifest\<close> against the very key
  manifest, deployment and Cardano key it was generated from, provided what generation does not check is in order: the
  base URL, the asset pins, the name of the key and the date. The chunks it wrote verify, and together they are the key;
  no other file changed.
\<close>

theorem generated_manifest_valid:
  assumes g: "GenerateChunkManifest sha blake now options d = (d', Inr m)"
    and h: "\<And>b. length (sha b) = 32" "\<And>b. length (blake b) = 32"
    and key: "files d (mo_ProvingKeyPath options) = Some raw" "length raw < 2 ^ 63"
    and ok: "validateTransport parse_url (cm_Transport m) = Inr ()" "list_all (\<lambda>(name, pin). validateAssetPin pin = Inr ()) (cm_Assets m)"
      "safeRelativePath (ck_Path (cm_ProvingKey m)) = Inr ()" "civil_ok (mo_GeneratedAt (option_defaults now options))"
  shows "ValidateChunkManifest sha blake parse_url (Some m) (expectations_of options) = Inr () \<and>
    (mo_ChunkOutDir options \<noteq> [] \<longrightarrow>
      VerifyChunkFiles sha blake parse_url d' (Some m) (mo_ChunkOutDir options) = Inr () \<and>
      concat (chunk_files d' (mo_ChunkOutDir options) (ck_Chunks (cm_ProvingKey m))) = raw \<and>
      (\<forall>path. path \<notin> (\<lambda>c. filepath_join (mo_ChunkOutDir options) (cp_Path c)) ` set (ck_Chunks (cm_ProvingKey m)) \<longrightarrow>
         files d' path = files d path))"
proof -
  have v: "ValidateChunkManifest sha blake parse_url (Some m) no_expectations = Inr ()"
    by (rule generated_valid [OF g h key ok])
  show ?thesis
  proof (intro conjI impI)
    show "ValidateChunkManifest sha blake parse_url (Some m) (expectations_of options) = Inr ()"
      by (rule validated_with [THEN iffD2, OF conjI, OF v generated_expected [OF g]])
    assume w: "mo_ChunkOutDir options \<noteq> []"
    note st = generated_stored [OF g key(1) w]
    show "VerifyChunkFiles sha blake parse_url d' (Some m) (mo_ChunkOutDir options) = Inr ()"
      unfolding VerifyChunkFiles_ok using v st by blast
    show "concat (chunk_files d' (mo_ChunkOutDir options) (ck_Chunks (cm_ProvingKey m))) = raw"
      unfolding chunk_files_def using st by blast
    show "\<forall>path. path \<notin> (\<lambda>c. filepath_join (mo_ChunkOutDir options) (cp_Path c)) ` set (ck_Chunks (cm_ProvingKey m)) \<longrightarrow>
         files d' path = files d path"
      using st by blast
  qed
qed

text \<open>
  C40: Chunks that verify against a generated manifest, in whatever directory and whenever, are the pieces of the key it
  was generated from: together they are the key, or one of them exhibits a collision of both hash functions with the chunk
  that was cut.
\<close>

theorem verified_chunks_rebuild:
  assumes g: "GenerateChunkManifest sha blake now options d = (d', Inr m)" "files d (mo_ProvingKeyPath options) = Some raw"
    and w: "mo_ChunkOutDir options \<noteq> []"
    and v: "VerifyChunkFiles sha blake parse_url d2 (Some m) baseDir = Inr ()"
  shows "concat (chunk_files d2 baseDir (ck_Chunks (cm_ProvingKey m))) = raw \<or>
    (\<exists>x \<in> set (chunk_files d2 baseDir (ck_Chunks (cm_ProvingKey m))).
     \<exists>y \<in> set (chunk_files d' (mo_ChunkOutDir options) (ck_Chunks (cm_ProvingKey m))). x \<noteq> y \<and> sha x = sha y \<and> blake x = blake y)"
proof -
  let ?pins = "ck_Chunks (cm_ProvingKey m)"
  note st = generated_stored [OF g w]
  have raw: "concat (chunk_files d' (mo_ChunkOutDir options) ?pins) = raw" unfolding chunk_files_def using st by blast
  have len: "length (chunk_files d base ?pins) = length ?pins" for d base by (simp add: chunk_files_def)
  have "\<forall>c \<in> set ?pins. chunk_file_ok sha blake d2 baseDir c = Inr ()" using v unfolding VerifyChunkFiles_ok by blast
  from verified_copies_agree [OF this st [THEN conjunct1]] show ?thesis
  proof
    assume "chunk_files d2 baseDir ?pins = chunk_files d' (mo_ChunkOutDir options) ?pins"
    then show ?thesis using raw by simp
  next
    assume "\<exists>j < length ?pins. chunk_files d2 baseDir ?pins ! j \<noteq> chunk_files d' (mo_ChunkOutDir options) ?pins ! j \<and>
       sha (chunk_files d2 baseDir ?pins ! j) = sha (chunk_files d' (mo_ChunkOutDir options) ?pins ! j) \<and>
       blake (chunk_files d2 baseDir ?pins ! j) = blake (chunk_files d' (mo_ChunkOutDir options) ?pins ! j)"
    then obtain j where j: "j < length ?pins" "chunk_files d2 baseDir ?pins ! j \<noteq> chunk_files d' (mo_ChunkOutDir options) ?pins ! j"
       "sha (chunk_files d2 baseDir ?pins ! j) = sha (chunk_files d' (mo_ChunkOutDir options) ?pins ! j)"
       "blake (chunk_files d2 baseDir ?pins ! j) = blake (chunk_files d' (mo_ChunkOutDir options) ?pins ! j)" by blast
    have "chunk_files d2 baseDir ?pins ! j \<in> set (chunk_files d2 baseDir ?pins)"
      "chunk_files d' (mo_ChunkOutDir options) ?pins ! j \<in> set (chunk_files d' (mo_ChunkOutDir options) ?pins)"
      using j(1) by (simp_all only: nth_mem len)
    then show ?thesis using j(2-4) by blast
  qed
qed

section \<open>A sample\<close>

definition sample_key :: bytes where "sample_key = pk_bytes sample_pk"

definition sample_asset_digest :: FileDigest where "sample_asset_digest = DigestBytes sample_blake sample_blake [1, 2, 3]"

definition sample_pin :: "string \<Rightarrow> AssetPin" where
  "sample_pin path = \<lparr>ap_Path = path, ap_Size = fd_Size sample_asset_digest, ap_SHA256 = fd_SHA256 sample_asset_digest,
     ap_Blake2b256 = fd_Blake2b256 sample_asset_digest, ap_Compressed = None\<rparr>"

definition sample_key_manifest :: KeyManifest where
  "sample_key_manifest = (let dg = DigestBytes sample_blake sample_blake sample_key in
     \<lparr>km_Schema = ''proof-tool-key-manifest-v1'', km_KeyVersion = ''v1'', km_CircuitID = ''c'', km_Curve = ''bls12-381'',
      km_Backend = ''groth16'', km_VKHash = fd_Blake2b256 sample_asset_digest, km_ProvingKeySHA256 = fd_SHA256 dg,
      km_ProvingKeyBlake2b256 = fd_Blake2b256 dg, km_ProvingKeySize = fd_Size dg, km_VerifyingKeySHA256 = fd_SHA256 sample_asset_digest,
      km_VerifyingKeySize = 3, km_ConstraintSystemHash = fd_Blake2b256 sample_asset_digest, km_CircuitSourceCommit = [],
      km_ProofToolVersion = [], km_GnarkVersion = [], km_SetupTranscriptHash = [], km_PublishedAt = [], km_ArtifactURLs = [],
      km_SignatureKeyID = []\<rparr>)"

definition sample_deployment :: ReclaimDeploymentManifest where
  "sample_deployment =
     \<lparr>de_Schema = ReclaimDeploymentSchema, de_DeploymentID = ''preprod:1'', de_Network = ''Preprod'', de_SourceCommit = [],
      rg_VerifierVKHash = ''vk'', rg_ProofProfile = [], rg_ProofSlotEncoding = statementBoundV2, rg_BatchTranscriptVKHash = ''vk'',
      dp_CircuitID = ''c'', dp_KeyVersion = ''v1'', dp_DestinationAddressEncoding = [], dp_VKHash = fd_Blake2b256 sample_asset_digest,
      dp_CardanoVKBlake2b256 = ''vk'', dp_SetupTranscriptHash = [], dp_MPCCeremonyID = [], dp_MPCCandidateID = [],
      pl_ProductionDecisionID = [], pl_MPCReleaseID = [], pl_ReleaseManifestSHA256 = []\<rparr>"

definition sample_options :: ChunkManifestOptions where
  "sample_options =
     \<lparr>mo_KeyManifest = Some sample_key_manifest, mo_KeyManifestDigest = sample_asset_digest, mo_Deployment = Some sample_deployment,
      mo_ProvingKeyPath = ''in.pk'', mo_ProvingKeyName = ''ownership.pk'', mo_ChunkOutDir = ''out'', mo_ChunkSize = 500,
      mo_Release = [], mo_Profile = [], mo_BaseURL = [], mo_SignatureKeyID = ''k'', mo_GeneratedAt = zero_time\<lparr>cv_year := 2025\<rparr>,
      mo_CardanoVKFormat = [], mo_CardanoVKBlake2b256 = ''vk'',
      mo_Assets = [(''ownership.vk'', sample_pin ''ownership.vk''), (''ownership-destination.ccs'', sample_pin ''ownership.ccs'')]\<rparr>"

definition sample_storage :: storage where
  "sample_storage = \<lparr>files = [''in.pk'' \<mapsto> sample_key], writable = (\<lambda>_. True)\<rparr>"

definition sample_urls :: "string \<Rightarrow> go_url option" where "sample_urls _ = None"

lemma sample_blake_length [simp]: "length (sample_blake b) = 32"
  by (simp add: sample_blake_def)

lemma sample_asset_digest_fields: "fd_SHA256 (DigestBytes sha blake b) \<noteq> []" "fd_Blake2b256 (DigestBytes sha blake b) \<noteq> []" "fd_Size sample_asset_digest = 3"
  by (simp_all add: DigestBytes_def sample_asset_digest_def)

lemma sample_checks: "\<exists>mi. generate_checks sample_blake sample_blake sample_options sample_storage = Inr (sample_key_manifest, sample_deployment, mi)"
proof -
  have k: "trim_space ''k'' \<noteq> []" "trim_space ''preprod:1'' \<noteq> []" "\<not> has_prefix ''preprod:1'' ''mainnet:''" by code_simp+
  have len: "length sample_key < 2 ^ 63" "sample_key \<noteq> []"
    using sample_pk_length by (simp_all add: sample_key_def pk_bytes_def pk_head_def sample_pk_def)
  have idx: "BuildPKIndex sample_key = Inr (pk_index sample_pk)" using sample_pk_index by (simp add: sample_key_def)
  have pk: "checkKeyManifestPK sample_key_manifest (DigestBytes sample_blake sample_blake sample_key) = Inr ()"
    using len sample_asset_digest_fields by (simp add: checkKeyManifestPK_def sample_key_manifest_def Let_def)
  have dep: "ValidateReclaimDeployment (Some sample_deployment) (Some sample_key_manifest) ''vk'' = Inr ()"
    using k by (simp add: ValidateReclaimDeployment_def deployment_checks_def sample_deployment_def sample_key_manifest_def Let_def isMainnetDeployment_def
        del: has_prefix_append)
  have main: "validateMainnetReleaseManifestDigest (Some sample_deployment) sample_asset_digest = Inr ()"
    using k by (simp add: validateMainnetReleaseManifestDigest_def sample_deployment_def isMainnetDeployment_def)
  have assets: "ValidateKeyManifestAssetDigests (Some sample_key_manifest)
      (fileDigestFromAssetPin (sample_pin ''ownership.vk'')) (fileDigestFromAssetPin (sample_pin ''ownership.ccs'')) = Inr ()"
    using sample_asset_digest_fields by (simp add: ValidateKeyManifestAssetDigests_def sample_key_manifest_def Let_def fileDigestFromAssetPin_def
        sample_pin_def) (simp add: sample_asset_digest_def)
  have at: "asset_at (mo_Assets sample_options) ''ownership.vk'' = sample_pin ''ownership.vk''"
    "asset_at (mo_Assets sample_options) ''ownership-destination.ccs'' = sample_pin ''ownership.ccs''"
    by (simp_all add: asset_at_def sample_options_def)
  obtain mi where mi: "ManifestIndexFromPKIndex sample_blake sample_blake (pk_index sample_pk) = Inr mi"
    using built_index_valid [OF len(1) idx] by (simp add: ManifestIndexFromPKIndex_def Let_def)
  have size: "FileSize (pk_index sample_pk) = int (length sample_key)" using BuildPKIndex_names [OF len(1) idx] by simp
  have f: "files sample_storage ''in.pk'' = Some sample_key" by (simp add: sample_storage_def)
  have o1: "mo_KeyManifest sample_options = Some sample_key_manifest" "mo_Deployment sample_options = Some sample_deployment"
    "mo_ProvingKeyPath sample_options = ''in.pk''" "mo_ChunkSize sample_options = 500" "mo_SignatureKeyID sample_options = ''k''"
    "mo_CardanoVKBlake2b256 sample_options = ''vk''" "mo_KeyManifestDigest sample_options = sample_asset_digest" by (simp_all add: sample_options_def)
  have "generate_checks sample_blake sample_blake sample_options sample_storage = Inr (sample_key_manifest, sample_deployment, mi)"
    unfolding generate_checks_def o1 at prod.case option.case DigestFile_def read_file_def f
    using k pk dep main assets idx mi size by simp
  then show ?thesis by blast
qed

lemma sample_generated:
  obtains d' m where "GenerateChunkManifest sample_blake sample_blake zero_time sample_options sample_storage = (d', Inr m)"
    "cm_Transport m = \<lparr>tr_BaseURL = [], tr_ContentEncoding = ''identity'', tr_RequiresHTTPS = True, tr_SupportsRange = True\<rparr>"
    "cm_Assets m = mo_Assets sample_options" "ck_Path (cm_ProvingKey m) = ''ownership.pk''"
proof -
  have o1: "option_defaults zero_time sample_options = sample_options"
    by (simp add: option_defaults_def sample_options_def zero_time_def)
  obtain mi where c: "generate_checks sample_blake sample_blake sample_options sample_storage = Inr (sample_key_manifest, sample_deployment, mi)"
    using sample_checks by blast
  obtain d' m where "GenerateChunkManifest sample_blake sample_blake zero_time sample_options sample_storage = (d', Inr m)"
    "cm_Transport m = \<lparr>tr_BaseURL = mo_BaseURL sample_options, tr_ContentEncoding = ''identity'', tr_RequiresHTTPS = True, tr_SupportsRange = True\<rparr>"
    "cm_Assets m = mo_Assets sample_options" "ck_Path (cm_ProvingKey m) = mo_ProvingKeyName sample_options"
    using GenerateChunkManifest_total [of sample_blake sample_blake zero_time sample_options sample_storage, unfolded o1, OF c]
    by (auto simp: sample_options_def sample_storage_def)
  then show ?thesis by (intro that) (auto simp: sample_options_def)
qed

lemma sample_hypotheses:
  "files sample_storage (mo_ProvingKeyPath sample_options) = Some sample_key" "length sample_key < 2 ^ 63"
  "list_all (\<lambda>(name, pin). validateAssetPin pin = Inr ()) (mo_Assets sample_options)"
  "civil_ok (mo_GeneratedAt (option_defaults zero_time sample_options))" "mo_ChunkOutDir sample_options = ''out''"
  "safeRelativePath ''ownership.pk'' = Inr ()"
proof -
  have s: "safeRelativePath ''ownership.pk'' = Inr ()" "safeRelativePath ''ownership.vk'' = Inr ()" "safeRelativePath ''ownership.ccs'' = Inr ()"
    by code_simp+
  then show "safeRelativePath ''ownership.pk'' = Inr ()" by blast
  have d: "pinned_digest ''sha256'' (fd_SHA256 sample_asset_digest)" "pinned_digest ''blake2b256'' (fd_Blake2b256 sample_asset_digest)"
    unfolding sample_asset_digest_def by (rule DigestBytes_ok, simp)+
  show "list_all (\<lambda>(name, pin). validateAssetPin pin = Inr ()) (mo_Assets sample_options)"
    using s d sample_asset_digest_fields(3) by (simp add: sample_options_def validateAssetPin_def sample_pin_def validateDigest_ok)
qed (use sample_pk_length in \<open>simp_all add: sample_options_def sample_storage_def sample_key_def option_defaults_def zero_time_def civil_ok_def days_in_def Let_def\<close>)

theorem generated_manifest_valid_witness:
  "\<exists>d' m. GenerateChunkManifest sample_blake sample_blake zero_time sample_options sample_storage = (d', Inr m) \<and>
     ValidateChunkManifest sample_blake sample_blake sample_urls (Some m) (expectations_of sample_options) = Inr () \<and>
     VerifyChunkFiles sample_blake sample_blake sample_urls d' (Some m) ''out'' = Inr () \<and>
     concat (chunk_files d' ''out'' (ck_Chunks (cm_ProvingKey m))) = sample_key"
proof (rule sample_generated)
  fix d' m
  assume g: "GenerateChunkManifest sample_blake sample_blake zero_time sample_options sample_storage = (d', Inr m)"
    and t: "cm_Transport m = \<lparr>tr_BaseURL = [], tr_ContentEncoding = ''identity'', tr_RequiresHTTPS = True, tr_SupportsRange = True\<rparr>"
    and m: "cm_Assets m = mo_Assets sample_options" "ck_Path (cm_ProvingKey m) = ''ownership.pk''"
  have t': "validateTransport sample_urls (cm_Transport m) = Inr ()" by (simp add: t validateTransport_def)
  note v = generated_manifest_valid [OF g sample_blake_length sample_blake_length sample_hypotheses(1,2) t', unfolded m,
      OF sample_hypotheses(3,6,4), unfolded sample_hypotheses(5)]
  have "''out'' \<noteq> []" by simp
  then show ?thesis using g v by blast
qed

theorem verified_chunks_rebuild_witness:
  "\<exists>d' m. GenerateChunkManifest sample_blake sample_blake zero_time sample_options sample_storage = (d', Inr m) \<and>
     VerifyChunkFiles sample_blake sample_blake sample_urls d' (Some m) ''out'' = Inr () \<and>
     (concat (chunk_files d' ''out'' (ck_Chunks (cm_ProvingKey m))) = sample_key \<or>
      (\<exists>x y. x \<noteq> y \<and> sample_blake x = sample_blake y))"
proof (rule sample_generated)
  fix d' m
  assume g: "GenerateChunkManifest sample_blake sample_blake zero_time sample_options sample_storage = (d', Inr m)"
    and t: "cm_Transport m = \<lparr>tr_BaseURL = [], tr_ContentEncoding = ''identity'', tr_RequiresHTTPS = True, tr_SupportsRange = True\<rparr>"
    and m: "cm_Assets m = mo_Assets sample_options" "ck_Path (cm_ProvingKey m) = ''ownership.pk''"
  have t': "validateTransport sample_urls (cm_Transport m) = Inr ()" by (simp add: t validateTransport_def)
  have w: "mo_ChunkOutDir sample_options \<noteq> []" by (simp add: sample_hypotheses)
  have "VerifyChunkFiles sample_blake sample_blake sample_urls d' (Some m) (mo_ChunkOutDir sample_options) = Inr ()"
    unfolding VerifyChunkFiles_ok
    using generated_valid [OF g sample_blake_length sample_blake_length sample_hypotheses(1,2) t', unfolded m, OF sample_hypotheses(3,6,4)]
      generated_stored [OF g sample_hypotheses(1) w] by blast
  note v = this [unfolded sample_hypotheses(5)]
  show ?thesis using g v verified_chunks_rebuild [OF g sample_hypotheses(1) w v] by blast
qed

end
