(* ===== verification/Spec2Isabelle.thy ===== *)
theory Spec2Isabelle
  imports McProperties CircuitProperties OwnershipPaths ShaConstants DiscoveryProperties StreamProperties MsmProperties AssetProperties
begin

text \<open>
  A verification development for proof-tool, a Go program that proves ownership of Cardano
  credentials in zero knowledge and that runs the multi-party setup ceremony its proving keys
  come from.

  The ceremony (\<^verbatim>\<open>internal/mpcceremony\<close>). A signed definition freezes the parties, the
  circuit, the software, the beacon policy and the genesis of phase 1. Each phase is a chain
  of accepted contributions; a close record ends it and fixes a future drand round, a beacon
  record carries that round's randomness and the challenge derived from it, a seal record
  binds the outputs. Audit records and a final transcript refer to all of it. Every record is
  JSON with an identity that is the SHA-256 hash of its canonical encoding.

  \<^item> \<^verbatim>\<open>Prelude\<close>, \<^verbatim>\<open>GoStrings\<close>, \<^verbatim>\<open>GoText\<close>, \<^verbatim>\<open>GoJson\<close>, \<^verbatim>\<open>GoTime\<close>: errors as values (\<open>res\<close>, with
    \<open>all_ok\<close> for a sequence of early returns) and what the code uses of Go's standard
    library: hexadecimal, UTF-8, clean paths, decimal numbers, \<^verbatim>\<open>json.Marshal\<close> and
    RFC 3339 time.
  \<^item> \<^verbatim>\<open>McShape\<close>, \<^verbatim>\<open>McPreflight\<close> (\<^verbatim>\<open>preflight.go\<close>): shapes, checked 64-bit sizes, the artifact
    scanner; a declarative layout is the specification and the scanner accepts exactly it.
  \<^item> \<^verbatim>\<open>McModel\<close>, \<^verbatim>\<open>McBindings\<close>, \<^verbatim>\<open>McPolicy\<close> (\<^verbatim>\<open>model.go\<close>): constants, field validators, digests,
    artifacts, identities, phase, circuit, software and beacon policies, with their encodings.
  \<^item> \<^verbatim>\<open>McRecord\<close>: \<^verbatim>\<open>canonicalHash\<close> and the locale \<open>content_record\<close>, the contract of a
    content-derived identity, interpreted by each record type below.
  \<^item> \<^verbatim>\<open>McDefinition\<close> (\<^verbatim>\<open>definition.go\<close>), \<^verbatim>\<open>McAttestation\<close> (\<^verbatim>\<open>attestation.go\<close>), \<^verbatim>\<open>McChain\<close>,
    \<^verbatim>\<open>McAcceptance\<close>, \<^verbatim>\<open>McClose\<close>, \<^verbatim>\<open>McTranscript\<close> (\<^verbatim>\<open>chain.go\<close>): the records and every check between
    them, in the order of the source; each check list is characterised by one lemma
    \<open>..._ok\<close>; \<open>chain_spec\<close> and \<open>accepted\<close> are the specifications of the chain.
  \<^item> \<^verbatim>\<open>McSamples\<close>: one concrete ceremony on which the hypotheses of the theorems hold.
  \<^item> \<^verbatim>\<open>McProperties\<close>: the properties of the ceremony.

  The circuits (\<^verbatim>\<open>internal/circuit\<close>). A prover shows that it knows a BIP32-Ed25519 master key from
  which a CIP-1852 path derives a credential, and the circuit binds that credential, alone or with
  a destination address or with further credentials of the same master, to one public input.

  \<^item> \<^verbatim>\<open>GnarkApi\<close>: gnark is a third-party library, so its API is a record of operations
    (\<open>gnark\<close>) and its documented behaviour the hypothesis \<open>gnark_doc\<close>. A circuit is evaluated on a
    witness; an unsatisfied constraint or a compile-time panic is \<open>None\<close>. The outputs of
    hints are chosen by the prover: they come from an \<open>advice\<close>, and a theorem for every advice is
    soundness, one for the honest advice is completeness.
  \<^item> \<^verbatim>\<open>CkdGadgets\<close> (\<^verbatim>\<open>ckd/adder.go\<close>, \<^verbatim>\<open>ckd/encoding.go\<close>): adders, index bytes, canonical bits, clamp.
  \<^item> \<^verbatim>\<open>Sha512\<close>, \<^verbatim>\<open>ShaConstants\<close> (FIPS 180-4 and the check of the literals), \<^verbatim>\<open>ShaWords\<close>
    (\<^verbatim>\<open>sha/add64.go\<close>, \<^verbatim>\<open>u64util\<close>), \<^verbatim>\<open>ShaSigma\<close>, \<^verbatim>\<open>ShaGadget\<close> (\<^verbatim>\<open>sha/gadget.go\<close>): the SHA-512 and HMAC
    gadgets refine the standard.
  \<^item> \<^verbatim>\<open>Blake2b\<close> (\<^verbatim>\<open>hash/blake2b.go\<close>): RFC 7693 and the gadget that refines it.
  \<^item> \<^verbatim>\<open>Ed25519\<close> (\<^verbatim>\<open>ed25519/ed\<close>): the reference arithmetic and the windowed fixed-base gadget. The
    gadget adds the table entries that the digits select with the reference addition; that this sum
    is the double-and-add multiple needs the associativity of the curve, which is not proved.
    Theorems above it hold for any curve with the contract \<open>curve_key\<close>, a locale that is
    interpreted on the gadget.
  \<^item> \<^verbatim>\<open>CkdChain\<close> (\<^verbatim>\<open>ckd/ref.go\<close>, \<^verbatim>\<open>ckd/step.go\<close>, \<^verbatim>\<open>ckd/chain.go\<close>): the reference derivation and the
    circuit that refines it.
  \<^item> \<^verbatim>\<open>Ownership\<close>, \<^verbatim>\<open>OwnershipPaths\<close> (\<^verbatim>\<open>ownership/circuit.go\<close>, \<^verbatim>\<open>explicit_path.go\<close>),
    \<^verbatim>\<open>OwnershipMulti\<close> (\<^verbatim>\<open>ownershipdest\<close>, \<^verbatim>\<open>ownershipmulti\<close>): the three circuits, their assignments and
    public inputs, path search, master keys and text formats. BLAKE2b of \<^verbatim>\<open>golang.org/x/crypto\<close>,
    BIP-39 and PBKDF2 are parameters.
  \<^item> \<^verbatim>\<open>CircuitSamples\<close>: instances of gnark, the emulated field and the hash for which the
    hypotheses hold. \<^verbatim>\<open>CircuitProperties\<close>: the properties of the circuits.

  \<^item> \<^verbatim>\<open>CkdPublic\<close> (\<^verbatim>\<open>ckd/public.go\<close>), \<^verbatim>\<open>Discovery\<close>, \<^verbatim>\<open>DiscoveryProperties\<close>
    (\<^verbatim>\<open>ownership/discovery.go\<close>): public derivation commutes with private derivation, and the discovery
    of credential paths is exact: the schedule of roles and bands, the events that are emitted, the paths found.

  The streamed proving key and the multi-exponentiation (\<^verbatim>\<open>internal/proofassets\<close>, \<^verbatim>\<open>streampk\<close>, \<^verbatim>\<open>msmengine\<close>).
  A proving key of several gigabytes is never loaded: an index says where its sections are, ranges of points are
  fetched from a file or a range server, and workers compute partial sums.

  \<^item> \<^verbatim>\<open>GoBytes\<close>, \<^verbatim>\<open>PkIndex\<close> (\<^verbatim>\<open>pkindex.go\<close>): reading the layout of a key; the declarative layout
    \<open>pk_bytes\<close> is the specification, and exactly those files are indexed.
  \<^item> \<^verbatim>\<open>PkRange\<close> (\<^verbatim>\<open>streampk/range.go\<close>, \<^verbatim>\<open>keysource.go\<close>): byte and point ranges, HTTP ranges, the small
    fields of a key.
  \<^item> \<^verbatim>\<open>MsmEngine\<close> (\<^verbatim>\<open>partition.go\<close>, \<^verbatim>\<open>cpu.go\<close>, \<^verbatim>\<open>serialize.go\<close>, \<^verbatim>\<open>shard_affinity.go\<close>, \<^verbatim>\<open>hfft_kernel.go\<close>):
    partition, partial sums, worker messages and kernels over any commutative monoid.
  \<^item> \<^verbatim>\<open>StreamProperties\<close>: the properties of this part.
  \<^item> \<^verbatim>\<open>MsmControl\<close> (\<^verbatim>\<open>engine.go\<close>, \<^verbatim>\<open>selector.go\<close>, \<^verbatim>\<open>async_contract.go\<close>), \<^verbatim>\<open>MsmScheduler\<close>, \<^verbatim>\<open>MsmAccounts\<close>
    (\<^verbatim>\<open>async_js.go\<close>): error classes, engine selection and fallback, waiting, and the scheduler that sends shards to
    workers, as a step relation over all interleavings; its invariants are the shape of the queue and an account of
    every task. \<^verbatim>\<open>MsmProperties\<close>: a collected result is the sum, dispatch makes progress, failures stay closed.

  Assets (\<^verbatim>\<open>internal/proofassets\<close>, \<^verbatim>\<open>internal/batchtranscript\<close>). The key is published as chunks with a manifest that pins
  every digest and ties the chunks to the key manifest and the deployment.

  \<^item> \<^verbatim>\<open>GoPath\<close>: searching, clean and joined paths, what a time parser accepts.
  \<^item> \<^verbatim>\<open>ChunkManifest\<close>, \<^verbatim>\<open>ChunkFiles\<close> (\<^verbatim>\<open>chunk_manifest.go\<close>, \<^verbatim>\<open>digest.go\<close>, the record of \<^verbatim>\<open>artifact.go\<close>): the checks of a
    manifest, cutting and verifying chunks on a file store, generation; each check has a characterisation \<open>..._ok\<close>.
  \<^item> \<^verbatim>\<open>BatchTranscript\<close> (\<^verbatim>\<open>batchtranscript.go\<close>): the transcript of a batch and its challenges.
  \<^item> \<^verbatim>\<open>AssetProperties\<close>: safe paths, chunk tables, generated manifests verify, verified chunks are the key.

  Bounds. The sums of the gadgets stay below the field: columns of the adders below \<open>2 ^ 200\<close>, sums of
  at most 16 words below \<open>2 ^ 70\<close>, with the scalar field above \<open>2 ^ 254\<close>. The scan of a search range
  is a partial function without fuel: not returning is the value \<open>None\<close>.

  Conventions. A Go function that returns \<^verbatim>\<open>error\<close> returns \<open>unit res\<close>; one that
  returns a value and an error returns that value on \<open>Inr\<close> only, since no caller reads the
  other. Strings are lists of 8-bit characters, slices whose nil-ness the JSON shows are
  options, fixed-width integers are words. Checks that iterate over a Go map literal are
  listed in the order they are written. SHA-256, BLAKE2b-256 and Ed25519 are parameters
  (\<open>hash\<close>, \<open>sign\<close>, \<open>verify\<close>); \<open>hash32\<close> (32-byte output) and
  \<open>ed25519_scheme\<close> are what the code relies on. Theorems about commitments do not
  assume that a hash has no collisions: they name the two byte strings that would collide.
  \<^verbatim>\<open>ValidateClose\<close> in Go drops the errors of the chain's head functions; in the model they are
  propagated, and the exactness lemma shows that they cannot occur there.

  Not modelled: file-system workflows and process glue, release decisions and operational evidence, the
  decoding of JSON (strict or not), \<^verbatim>\<open>url.Parse\<close> (a parameter of the transport check), the group arithmetic of
  gnark, the other languages of the repository, the associativity of the curve.
\<close>

end
